(* ===== verification/Prelude.thy ===== *)
theory Prelude
  imports Main "HOL-Library.Word"
begin

text \<open>
  Shared vocabulary of the development: the machine integer types of the C++ sources,
  the collections of rewrite rules the component theories fill, and the generic facts on
  words and lists that more than one component needs. Nothing here models code.
\<close>

unbundle bit_operations_syntax

type_synonym u8 = "8 word"
type_synonym u16 = "16 word"
type_synonym u32 = "32 word"
type_synonym u64 = "64 word"

named_theorems bit_facts \<open>bit-level rewriting of word operations\<close>

lemmas [bit_facts] = bit_and_iff bit_or_iff bit_xor_iff bit_not_iff
  bit_drop_bit_eq bit_push_bit_iff

section \<open>Xor-shift steps and odd multiplication are injective\<close>

lemma xor_drop_bit_bits:
  fixes x y :: "'a::len word"
  assumes n: "0 < n" and eq: "x XOR drop_bit n x = y XOR drop_bit n y"
  shows "bit x i = bit y i"
proof (induction "LENGTH('a) - i" arbitrary: i rule: less_induct)
  case less
  show ?case
  proof (cases "i < LENGTH('a)")
    case False
    then show ?thesis by (auto dest: bit_imp_le_length)
  next
    case True
    with n have "LENGTH('a) - (n + i) < LENGTH('a) - i" by simp
    then have rest: "bit x (n + i) = bit y (n + i)" by (rule less)
    from eq have "bit (x XOR drop_bit n x) i = bit (y XOR drop_bit n y) i" by simp
    with rest show ?thesis by (simp add: bit_facts add.commute) blast
  qed
qed

lemma inj_xor_drop_bit:
  fixes x y :: "'a::len word"
  assumes "0 < n"
  shows "(x XOR drop_bit n x = y XOR drop_bit n y) = (x = y)"
  using xor_drop_bit_bits [OF assms, of x y] by (auto intro: bit_word_eqI)

lemma xor_push_bit_bits:
  fixes x y :: "'a::len word"
  assumes n: "0 < n" and eq: "x XOR push_bit n x = y XOR push_bit n y"
  shows "bit x i = bit y i"
proof (induction i rule: less_induct)
  case (less i)
  have step: "bit (x XOR push_bit n x) i = bit (y XOR push_bit n y) i" using eq by simp
  show ?case
  proof (cases "i < LENGTH('a)")
    case False
    then show ?thesis by (auto dest: bit_imp_le_length)
  next
    case True
    show ?thesis
    proof (cases "n \<le> i")
      case True
      with n have "bit x (i - n) = bit y (i - n)" by (intro less) simp
      with step True \<open>i < LENGTH('a)\<close> show ?thesis by (simp add: bit_facts) blast
    next
      case False
      with step show ?thesis by (simp add: bit_facts)
    qed
  qed
qed

lemma inj_xor_push_bit:
  fixes x y :: "'a::len word"
  assumes "0 < n"
  shows "(x XOR push_bit n x = y XOR push_bit n y) = (x = y)"
  using xor_push_bit_bits [OF assms, of x y] by (auto intro: bit_word_eqI)

lemma inj_mult_unit:
  fixes x y c d :: "'a::len word"
  assumes "d * c = 1"
  shows "(x * c = y * c) = (x = y)"
proof
  assume "x * c = y * c"
  then have "x * (d * c) = y * (d * c)" by (metis mult.assoc mult.commute)
  with assms show "x = y" by simp
qed simp

lemma odd_unat: "odd (unat (x :: 'a::len word)) \<longleftrightarrow> odd x"
  by (simp add: bit_0 [symmetric] bit_unsigned_iff)

lemma inj_mult_odd:
  fixes x y c :: "'a::len word"
  assumes "odd c"
  shows "(x * c = y * c) = (x = y)"
proof
  assume "x * c = y * c"
  then have "(x - y) * c = 0" by (simp add: left_diff_distrib)
  then have "unat ((x - y) * c) = 0" by simp
  then have "2 ^ LENGTH('a) dvd unat (x - y) * unat c" by (simp add: unat_word_ariths mod_eq_0_iff_dvd)
  moreover have "coprime (2 ^ LENGTH('a)) (unat c)" using assms by (simp add: odd_unat coprime_power_left_iff coprime_left_2_iff_odd)
  ultimately have "2 ^ LENGTH('a) dvd unat (x - y)" by (simp add: coprime_dvd_mult_left_iff)
  then have "unat (x - y) = 0" using unsigned_less [of "x - y", where ?'a = nat] by (metis dvd_imp_le leD neq0_conv)
  then show "x = y" by (simp add: unat_eq_0)
qed simp

section \<open>Masking with a power of two minus one\<close>

lemma unat_of_nat_small: "n < 2 ^ LENGTH('a) \<Longrightarrow> unat (of_nat n :: 'a::len word) = n"
  by (simp only: unsigned_of_nat) (simp add: take_bit_nat_eq_self)

lemma pow2_less_64: "k < 64 \<Longrightarrow> (2::nat) ^ k < 18446744073709551616"
  using power_strict_increasing [of k 64 "2::nat"] by simp

lemma unat_drop_bit: "unat (drop_bit k x) = unat x div 2 ^ k"
  by (metis unat_drop_bit_eq drop_bit_eq_div)

lemma unat_low_mask: "k \<le> LENGTH('a) \<Longrightarrow> unat ((2::'a::len word) ^ k - 1) = 2 ^ k - 1"
proof -
  assume k: "k \<le> LENGTH('a)"
  have "uint ((2::'a word) ^ k - 1) = 2 ^ k - 1"
    using k uint_mask_eq [where n = k and 'a = 'a]
    by (simp add: mask_eq_exp_minus_1 [symmetric] min_absorb2)
  then have "unat ((2::'a word) ^ k - 1) = nat (2 ^ k - 1)" by (simp only: nat_uint_eq [symmetric])
  then show ?thesis by (simp add: nat_diff_distrib nat_power_eq)
qed

lemma unat_two_power: "m < LENGTH('a) \<Longrightarrow> unat ((2::'a::len word) ^ m) = 2 ^ m"
proof -
  assume m: "m < LENGTH('a)"
  have "unat (of_nat (2 ^ m) :: 'a word) = 2 ^ m"
    using m by (simp only: unsigned_of_nat) (simp add: take_bit_nat_eq_self)
  then show ?thesis by simp
qed

lemma and_mask_mod:
  fixes x :: "'a::len word"
  shows "unat (x AND (2 ^ m - 1)) = unat x mod 2 ^ m"
  by (metis mask_eq_exp_minus_1 take_bit_eq_mask take_bit_eq_mod unsigned_take_bit_eq)

section \<open>Rounding up to a multiple\<close>

lemma round_up_bounds:
  fixes n a :: nat
  assumes "0 < a"
  shows "n \<le> (n + (a - 1)) div a * a" and "(n + (a - 1)) div a * a < n + a"
proof -
  have "n + (a - 1) < (n + (a - 1)) div a * a + a"
    using assms by (metis add.commute div_mult_mod_eq mod_less_divisor nat_add_left_cancel_less)
  then show "n \<le> (n + (a - 1)) div a * a" using assms by simp
  show "(n + (a - 1)) div a * a < n + a"
    using assms div_times_less_eq_dividend [of "n + (a - 1)" a] by linarith
qed

lemma round_up_wraps:
  fixes n a M :: nat
  assumes "n < M" "a \<le> M" "M \<le> n + (a - 1)"
  shows "(n + (a - 1)) mod M div a = 0"
proof -
  have "(n + (a - 1)) mod M = n + (a - 1) - M"
    using assms by (simp add: le_mod_geq)
  moreover have "n + (a - 1) - M < a" using assms by linarith
  ultimately show ?thesis by simp
qed

end
