(* ===== verification/Floats.thy ===== *)
theory Floats
  imports Prelude Complex_Main
begin

text \<open>
  IEEE binary floating point as the sources use it: \<open>double\<close> (53 significant bits) and
  \<open>float\<close> (24) values are the rationals they denote, an operation is the exact rational
  operation followed by \<open>fl p\<close>, rounding to the nearest \<open>p\<close>-bit number with ties to the
  even one. The sources stay far from the exponent limits, so overflow and subnormal numbers are
  not modelled; a conversion to an unsigned integer truncates, and is \<open>None\<close> where C++ leaves
  it undefined.
\<close>

section \<open>Definitions\<close>

fun bitlen_nat :: "nat \<Rightarrow> nat" where
  "bitlen_nat n = (if n = 0 then 0 else Suc (bitlen_nat (n div 2)))"

declare bitlen_nat.simps [simp del]

text \<open>The exponent \<open>e\<close> with \<open>2^e <= |q| < 2^(e+1)\<close>, for \<open>q\<close> other than 0.\<close>

definition exponent :: "rat \<Rightarrow> int" where
  "exponent q =
     (let (a, b) = quotient_of q;
          e = int (bitlen_nat (nat \<bar>a\<bar>)) - int (bitlen_nat (nat b))
      in if 2 powi e \<le> \<bar>q\<bar> then e else e - 1)"

definition round_even :: "rat \<Rightarrow> int" where
  "round_even x =
     (let f = \<lfloor>x\<rfloor>; d = x - of_int f
      in if d < 1 / 2 then f else if 1 / 2 < d then f + 1 else if even f then f else f + 1)"

definition fl :: "nat \<Rightarrow> rat \<Rightarrow> rat" where
  "fl p q =
     (if q = 0 then 0
      else let u = 2 powi (exponent q - int (p - 1)) in of_int (round_even (q / u)) * u)"

text \<open>\<open>static_cast<uint64_t>\<close> of a floating-point value.\<close>

definition to_u64 :: "rat \<Rightarrow> u64 option" where
  "to_u64 q = (if - 1 < q \<and> q < 2 ^ 64 then Some (of_nat (nat \<lfloor>q\<rfloor>)) else None)"

section \<open>The exponent\<close>

lemma bitlen_nat_bounds: "0 < n \<Longrightarrow> 2 ^ (bitlen_nat n - 1) \<le> n \<and> n < 2 ^ bitlen_nat n \<and> 0 < bitlen_nat n"
proof (induction n rule: less_induct)
  case (less n)
  show ?case
  proof (cases "n div 2 = 0")
    case True
    then have "n = 1" using less.prems by auto
    then show ?thesis by (simp add: bitlen_nat.simps)
  next
    case False
    then have IH: "2 ^ (bitlen_nat (n div 2) - 1) \<le> n div 2" "n div 2 < 2 ^ bitlen_nat (n div 2)"
      "0 < bitlen_nat (n div 2)" using less.IH [of "n div 2"] less.prems by auto
    have b: "bitlen_nat n = Suc (bitlen_nat (n div 2))" using less.prems by (simp add: bitlen_nat.simps [of n])
    have "(2::nat) ^ bitlen_nat (n div 2) = 2 * 2 ^ (bitlen_nat (n div 2) - 1)"
      using IH(3) by (metis Suc_diff_1 power_Suc)
    then show ?thesis using IH(1,2) by (simp add: b) linarith
  qed
qed

lemma powi_bounds:
  assumes "q \<noteq> 0"
  shows "2 powi exponent q \<le> \<bar>q\<bar>" and "\<bar>q\<bar> < 2 powi (exponent q + 1)"
proof -
  obtain a b where ab: "quotient_of q = (a, b)" by fastforce
  have b: "0 < b" using quotient_of_denom_pos [OF ab] .
  have q: "q = of_int a / of_int b" by (rule quotient_of_div [OF ab])
  let ?m = "nat \<bar>a\<bar>" and ?n = "nat b"
  have a: "a \<noteq> 0" using assms q by auto
  have pos: "0 < ?m" "0 < ?n" using a b by auto
  note bm = bitlen_nat_bounds [OF pos(1)] and bn = bitlen_nat_bounds [OF pos(2)]
  let ?i = "bitlen_nat ?m" and ?j = "bitlen_nat ?n"
  have Q: "\<bar>q\<bar> = rat_of_nat ?m / rat_of_nat ?n" using b by (simp add: q of_nat_nat)
  have m1: "(2::rat) ^ (?i - 1) \<le> of_nat ?m" and m2: "of_nat ?m < (2::rat) ^ ?i"
    using bm by (metis of_nat_le_iff of_nat_power of_nat_numeral, metis of_nat_less_iff of_nat_power of_nat_numeral)
  have n1: "(2::rat) ^ (?j - 1) \<le> of_nat ?n" and n2: "of_nat ?n < (2::rat) ^ ?j"
    using bn by (metis of_nat_le_iff of_nat_power of_nat_numeral, metis of_nat_less_iff of_nat_power of_nat_numeral)
  have pi: "(2::rat) ^ (?i - 1) = 2 powi (int ?i - 1)" "(2::rat) ^ (?j - 1) = 2 powi (int ?j - 1)"
    using bm bn by (simp_all add: power_int_def nat_diff_distrib)
  let ?e = "int ?i - int ?j"
  have up: "\<bar>q\<bar> < 2 powi (?e + 1)"
  proof -
    have "\<bar>q\<bar> \<le> of_nat ?m / 2 ^ (?j - 1)" unfolding Q using n1 pos by (intro divide_left_mono) auto
    also have "\<dots> < 2 ^ ?i / 2 ^ (?j - 1)" using m2 by (intro divide_strict_right_mono) auto
    also have "\<dots> = 2 powi (int ?i - (int ?j - 1))" unfolding pi(2) by (simp add: power_int_diff)
    finally show ?thesis by (simp add: algebra_simps)
  qed
  have lo: "2 powi (?e - 1) \<le> \<bar>q\<bar>"
  proof -
    have "?e - 1 = (int ?i - 1) - int ?j" by simp
    then have "2 powi (?e - 1) = 2 ^ (?i - 1) / (2::rat) ^ ?j"
      unfolding pi(1) by (simp only:) (simp add: power_int_diff)
    also have "\<dots> \<le> of_nat ?m / 2 ^ ?j" using m1 by (intro divide_right_mono) auto
    also have "\<dots> \<le> \<bar>q\<bar>" unfolding Q using n2 pos by (intro divide_left_mono) auto
    finally show ?thesis .
  qed
  have e: "exponent q = (if 2 powi ?e \<le> \<bar>q\<bar> then ?e else ?e - 1)"
    by (simp add: exponent_def ab Let_def)
  show "2 powi exponent q \<le> \<bar>q\<bar>" using lo by (simp add: e)
  show "\<bar>q\<bar> < 2 powi (exponent q + 1)" using up by (simp add: e not_le)
qed

section \<open>Rounding\<close>

lemma round_even_of_int [simp]: "round_even (of_int k) = k"
  by (simp add: round_even_def)

lemma round_even_error: "\<bar>of_int (round_even x) - x\<bar> \<le> 1 / 2"
proof -
  have "of_int \<lfloor>x\<rfloor> \<le> x" "x < of_int \<lfloor>x\<rfloor> + 1" by linarith+
  then show ?thesis by (auto simp: round_even_def Let_def)
qed

lemma fl_error:
  assumes "q \<noteq> 0"
  shows "\<bar>fl p q - q\<bar> \<le> 2 powi (exponent q - int (p - 1)) / 2"
proof -
  let ?u = "2 powi (exponent q - int (p - 1)) :: rat"
  have u: "0 < ?u" by simp
  have "fl p q - q = (of_int (round_even (q / ?u)) - q / ?u) * ?u"
    using assms by (simp add: fl_def Let_def left_diff_distrib)
  then have "\<bar>fl p q - q\<bar> = \<bar>of_int (round_even (q / ?u)) - q / ?u\<bar> * ?u" by (simp add: abs_mult)
  also have "\<dots> \<le> 1 / 2 * ?u" using u round_even_error [of "q / ?u"] by (intro mult_right_mono) auto
  finally show ?thesis by simp
qed

text \<open>A \<open>p\<close>-bit number is its own rounding; in particular every integer up to \<open>2^p\<close>.\<close>

lemma fl_of_int:
  assumes k: "\<bar>k\<bar> \<le> 2 ^ p" and p: "0 < p"
  shows "fl p (of_int k) = of_int k"
proof (cases "k = 0")
  case False
  let ?q = "rat_of_int k" and ?u = "2 powi (exponent (rat_of_int k) - int (p - 1)) :: rat"
  have q: "?q \<noteq> 0" using False by simp
  have "2 powi exponent ?q \<le> (2::rat) powi int p"
  proof -
    have "\<bar>?q\<bar> \<le> 2 ^ p" using k by (metis of_int_abs of_int_le_iff of_int_numeral of_int_power)
    with powi_bounds(1) [OF q] show ?thesis by (simp add: power_int_def)
  qed
  then have e: "exponent ?q \<le> int p"
    using power_int_le_imp_le_exp [of "2::rat" "exponent ?q" "int p"] by simp
  have "\<exists>j. ?q / ?u = of_int j"
  proof (cases "exponent ?q \<le> int (p - 1)")
    case True
    then have "?q / ?u = of_int (k * 2 ^ nat (int (p - 1) - exponent ?q))"
      by (simp add: power_int_def field_simps)
    then show ?thesis by blast
  next
    case False
    then have ep: "exponent ?q = int p" using e by linarith
    then have "2 ^ p \<le> \<bar>?q\<bar>" using powi_bounds(1) [OF q] by (simp add: power_int_def)
    then have "2 ^ p \<le> \<bar>k\<bar>" by (metis of_int_abs of_int_le_iff of_int_numeral of_int_power)
    with k have "\<bar>k\<bar> = 2 ^ p" by simp
    then have "k = 2 * (sgn k * 2 ^ (p - 1))"
      using p by (cases p) (auto simp: abs_if sgn_if split: if_splits)
    then have "?q = 2 * of_int (sgn k * 2 ^ (p - 1))" by (metis of_int_mult of_int_numeral)
    moreover have "?u = 2" using ep p by (simp add: power_int_def)
    ultimately have "?q / ?u = of_int (sgn k * 2 ^ (p - 1))" by simp
    then show ?thesis by blast
  qed
  then obtain j where "?q / ?u = of_int j" ..
  then have "fl p ?q = ?q / ?u * ?u" using q by (simp add: fl_def Let_def)
  then show ?thesis by simp
qed (simp add: fl_def)

lemma round_even_ge: "of_int j \<le> x \<Longrightarrow> j \<le> round_even x"
proof -
  assume "of_int j \<le> x"
  then have "j \<le> \<lfloor>x\<rfloor>" by (simp add: le_floor_iff)
  then show ?thesis by (simp add: round_even_def Let_def)
qed

text \<open>
  The quotient of two integers, rounded: it never reaches the next integer, so truncating it is
  the integer division, for every dividend below \<open>2^p\<close>.
\<close>

lemma floor_fl_div:
  assumes c: "c < 2 ^ p" and n: "0 < n" and p: "0 < p"
  shows "\<lfloor>fl p (of_nat c / of_nat n)\<rfloor> = int (c div n)"
proof (cases "c = 0")
  case False
  define q where "q = rat_of_nat c / rat_of_nat n"
  define k where "k = c div n"
  let ?e = "exponent q" and ?u = "2 powi (exponent q - int (p - 1)) :: rat"
  have q0: "0 < q" using False n by (simp add: q_def)
  have lo: "2 powi ?e \<le> q" using powi_bounds(1) [of q] q0 by simp
  have cp: "rat_of_nat c < 2 ^ p" using c by (metis of_nat_less_iff of_nat_numeral of_nat_power)
  have n1: "1 \<le> rat_of_nat n" using n by simp
  have "q \<le> of_nat c" using n1 by (simp add: q_def divide_le_eq mult_le_cancel_left1)
  with lo cp have "2 powi ?e < (2::rat) ^ p" by linarith
  then have "2 powi ?e \<le> (2::rat) powi int p" by simp
  then have "?e \<le> int p" using power_int_le_imp_le_exp [of "2::rat" ?e "int p"] by simp
  moreover have "?e \<noteq> int p" using \<open>2 powi ?e < (2::rat) ^ p\<close> by auto
  ultimately have ep: "?e \<le> int (p - 1)" using p by linarith
  define w where "w = nat (int (p - 1) - ?e)"
  have w: "1 / ?u = of_int (2 ^ w)" using ep by (simp add: w_def power_int_def field_simps)
  have u0: "0 < ?u" by simp
  have kq: "of_nat k \<le> q" "q + 1 / of_nat n \<le> of_nat k + 1"
  proof -
    have "k * n \<le> c" "c + 1 \<le> (k + 1) * n"
      unfolding k_def using n by (auto simp: Suc_le_eq dividend_less_div_times)
    then have "rat_of_nat (k * n) \<le> of_nat c" "rat_of_nat (c + 1) \<le> of_nat ((k + 1) * n)"
      by (simp_all only: of_nat_le_iff)
    then show "of_nat k \<le> q" "q + 1 / of_nat n \<le> of_nat k + 1"
      using n by (simp_all add: q_def field_simps)
  qed
  have "of_int (int k * 2 ^ w) \<le> q / ?u"
  proof -
    have "of_int (int k * 2 ^ w) = of_nat k * (1 / ?u)" by (simp only: w of_int_mult of_int_of_nat_eq)
    also have "\<dots> \<le> q * (1 / ?u)" using kq(1) u0 by (intro mult_right_mono) auto
    finally show ?thesis by simp
  qed
  then have "int k * 2 ^ w \<le> round_even (q / ?u)" by (rule round_even_ge)
  then have "of_int (int k * 2 ^ w) * ?u \<le> of_int (round_even (q / ?u)) * ?u"
    using u0 by (intro mult_right_mono) (simp_all only: of_int_le_iff less_imp_le)
  moreover have "of_int (int k * 2 ^ w) * ?u = of_nat k"
    using w u0 by (simp add: field_simps)
  moreover have "fl p q = of_int (round_even (q / ?u)) * ?u" using q0 by (simp add: fl_def Let_def)
  ultimately have ge: "of_nat k \<le> fl p q" by (simp only:)
  have "?u = 2 powi ?e / 2 ^ (p - 1)" by (simp add: power_int_diff)
  also have "\<dots> \<le> q / 2 ^ (p - 1)" using lo by (intro divide_right_mono) auto
  finally have "?u / 2 \<le> q / 2 ^ (p - 1) / 2" by simp
  also have "\<dots> = q / 2 ^ p" using p by (cases p) simp_all
  also have "\<dots> < 1 / of_nat n"
    using cp n by (simp add: q_def field_simps)
  finally have "fl p q < of_nat k + 1" using fl_error [of q p] q0 kq(2) by linarith
  with ge have "\<lfloor>fl p q\<rfloor> = int k" by (simp add: floor_eq_iff)
  then show ?thesis by (simp add: q_def k_def)
qed (simp add: fl_def)

lemma fl_of_nat: "k \<le> 2 ^ p \<Longrightarrow> 0 < p \<Longrightarrow> fl p (of_nat k) = of_nat k"
proof -
  assume "k \<le> 2 ^ p" "0 < p"
  then have "\<bar>int k\<bar> \<le> 2 ^ p" by (metis abs_of_nat of_nat_le_iff of_nat_numeral of_nat_power)
  from fl_of_int [OF this \<open>0 < p\<close>] show ?thesis by simp
qed

lemma to_u64_fl_div:
  assumes "c < 2 ^ 53" "n < 2 ^ 53" "0 < n"
  shows "to_u64 (fl 53 (fl 53 (of_nat c) / fl 53 (of_nat n))) = Some (of_nat (c div n))"
proof -
  have d: "fl 53 (fl 53 (of_nat c) / fl 53 (of_nat n)) = fl 53 (of_nat c / of_nat n)"
    using assms by (simp add: fl_of_nat)
  let ?x = "fl 53 (rat_of_nat c / rat_of_nat n)"
  have f: "\<lfloor>?x\<rfloor> = int (c div n)" using assms by (intro floor_fl_div) auto
  have "c div n < 2 ^ 53" using assms(1) by (meson div_le_dividend le_less_trans)
  then have k: "int (c div n) \<le> 2 ^ 53" by simp
  have "of_int \<lfloor>?x\<rfloor> \<le> ?x" "?x < of_int \<lfloor>?x\<rfloor> + 1" by linarith+
  moreover have "rat_of_int (int (c div n)) \<le> 2 ^ 53" using k by (metis of_int_le_iff of_int_numeral of_int_power)
  ultimately have "- 1 < ?x \<and> ?x < 2 ^ 64" unfolding f by simp
  then show ?thesis unfolding d by (simp only: to_u64_def f if_True simp_thms nat_int)
qed

section \<open>Monotonicity\<close>

lemma round_even_mono: "x \<le> y \<Longrightarrow> round_even x \<le> round_even y"
proof -
  assume xy: "x \<le> y"
  have f: "of_int \<lfloor>x\<rfloor> \<le> x" "x < of_int \<lfloor>x\<rfloor> + 1" "of_int \<lfloor>y\<rfloor> \<le> y" "y < of_int \<lfloor>y\<rfloor> + 1" by linarith+
  consider "\<lfloor>x\<rfloor> = \<lfloor>y\<rfloor>" | "\<lfloor>x\<rfloor> + 1 \<le> \<lfloor>y\<rfloor>" using floor_mono [OF xy] by linarith
  then show ?thesis
  proof cases
    case 1
    then show ?thesis using xy f by (auto simp: round_even_def Let_def)
  next
    case 2
    then show ?thesis by (auto simp: round_even_def Let_def)
  qed
qed

lemma fl_binade:
  assumes "0 < q" "0 < p"
  shows "2 powi exponent q \<le> fl p q \<and> fl p q \<le> 2 powi (exponent q + 1)"
proof -
  let ?u = "2 powi (exponent q - int (p - 1)) :: rat"
  have u: "0 < ?u" by simp
  have b: "2 powi exponent q \<le> q" "q < 2 powi (exponent q + 1)" using powi_bounds [of q] assms by auto
  have e1: "2 powi exponent q / ?u = of_int (2 ^ (p - 1))"
    by (simp add: power_int_diff [symmetric] del: power_int_of_nat) (simp add: power_int_def)
  have e2: "2 powi (exponent q + 1) / ?u = of_int (2 ^ p)"
  proof -
    have "2 powi (exponent q + 1) / ?u = 2 powi (int p)"
      using assms(2) by (subst power_int_diff [symmetric]) (auto simp: of_nat_diff)
    then show ?thesis by simp
  qed
  have "of_int (2 ^ (p - 1)) \<le> q / ?u" unfolding e1 [symmetric] using b u by (intro divide_right_mono) auto
  then have lo: "2 ^ (p - 1) \<le> round_even (q / ?u)" by (rule round_even_ge)
  have "q / ?u \<le> of_int (2 ^ p)" unfolding e2 [symmetric] using b u by (intro divide_right_mono) auto
  then have hi: "round_even (q / ?u) \<le> 2 ^ p" using round_even_mono round_even_of_int by metis
  have f: "fl p q = of_int (round_even (q / ?u)) * ?u" using assms by (simp add: fl_def Let_def)
  have "of_int (2 ^ (p - 1)) * ?u \<le> fl p q"
    unfolding f using u lo by (intro mult_right_mono) (simp_all only: of_int_le_iff less_imp_le)
  moreover have "fl p q \<le> of_int (2 ^ p) * ?u"
    unfolding f using u hi by (intro mult_right_mono) (simp_all only: of_int_le_iff less_imp_le)
  moreover have "of_int (2 ^ (p - 1)) * ?u = 2 powi exponent q" unfolding e1 [symmetric] using u by simp
  moreover have "of_int (2 ^ p) * ?u = 2 powi (exponent q + 1)" unfolding e2 [symmetric] using u by simp
  ultimately show ?thesis by simp
qed

lemma fl_mono:
  assumes "0 \<le> x" "x \<le> y" "0 < p"
  shows "fl p x \<le> fl p y"
proof (cases "x = 0")
  case True
  show ?thesis
  proof (cases "y = 0")
    case False
    then have "0 < y" using assms by simp
    then have "0 \<le> fl p y" using fl_binade [of y p] assms(3)
      by (meson order_trans zero_le_power_int zero_le_numeral)
    then show ?thesis using True by (simp add: fl_def)
  qed (simp add: True)
next
  case False
  then have pos: "0 < x" "0 < y" using assms by auto
  have "exponent x \<le> exponent y"
  proof (rule ccontr)
    assume "\<not> ?thesis"
    then have "(2::rat) powi (exponent y + 1) \<le> 2 powi exponent x" by (intro power_int_increasing) auto
    then show False using powi_bounds [of x] powi_bounds [of y] pos assms(2) by linarith
  qed
  then consider "exponent x = exponent y" | "exponent x + 1 \<le> exponent y" by linarith
  then show ?thesis
  proof cases
    case 1
    let ?u = "2 powi (exponent y - int (p - 1)) :: rat"
    have "round_even (x / ?u) \<le> round_even (y / ?u)"
      using assms(2) by (intro round_even_mono divide_right_mono) auto
    then show ?thesis using pos 1 by (auto simp: fl_def Let_def intro!: mult_right_mono)
  next
    case 2
    then have "(2::rat) powi (exponent x + 1) \<le> 2 powi exponent y" by (intro power_int_increasing) auto
    then show ?thesis using fl_binade [of x p] fl_binade [of y p] pos assms(3) by linarith
  qed
qed

lemma fl_nonneg: "0 \<le> x \<Longrightarrow> 0 < p \<Longrightarrow> 0 \<le> fl p x"
  using fl_mono [of 0 x p] by (simp add: fl_def)

lemma fl_le_int: "0 \<le> x \<Longrightarrow> x \<le> of_nat k \<Longrightarrow> k \<le> 2 ^ p \<Longrightarrow> 0 < p \<Longrightarrow> fl p x \<le> of_nat k"
  using fl_mono [of x "of_nat k" p] by (simp add: fl_of_nat)

end
