(* ===== verification/Perf.thy ===== *)
theory Perf
  imports Floats
begin

text \<open>
  \<^verbatim>\<open>src/measure.hpp\<close>: the counter record, its arithmetic and its formatter. The
  counters are 64-bit words and wrap; \<open>/=\<close> and the hit rate go through \<open>double\<close>
  (theory \<open>Floats\<close>), and a conversion C++ leaves undefined is \<open>None\<close>.
\<close>

section \<open>Counters\<close>

record perf_counters =
  cycles :: u64
  branches :: u64
  missed_branches :: u64
  instructions :: u64
  l1d_accesses :: u64
  l1d_misses :: u64
  llc_accesses :: u64
  llc_misses :: u64
  core_time_enabled :: u64
  core_time_running :: u64
  l1d_time_enabled :: u64
  l1d_time_running :: u64
  llc_time_enabled :: u64
  llc_time_running :: u64

definition pc_zero :: perf_counters where
  "pc_zero = \<lparr>cycles = 0, branches = 0, missed_branches = 0, instructions = 0, l1d_accesses = 0,
     l1d_misses = 0, llc_accesses = 0, llc_misses = 0, core_time_enabled = 0, core_time_running = 0,
     l1d_time_enabled = 0, l1d_time_running = 0, llc_time_enabled = 0, llc_time_running = 0\<rparr>"

text \<open>The explicit constructor; the last four arguments default to 0.\<close>

definition pc_make :: "u64 \<Rightarrow> u64 \<Rightarrow> u64 \<Rightarrow> u64 \<Rightarrow> u64 \<Rightarrow> u64 \<Rightarrow> u64 \<Rightarrow> u64 \<Rightarrow> perf_counters" where
  "pc_make c b m i l1d_a l1d_m llc_a llc_m = pc_zero\<lparr>cycles := c, branches := b, missed_branches := m,
     instructions := i, l1d_accesses := l1d_a, l1d_misses := l1d_m, llc_accesses := llc_a, llc_misses := llc_m\<rparr>"

definition pc_sub_assign :: "perf_counters \<Rightarrow> perf_counters \<Rightarrow> perf_counters" where
  "pc_sub_assign self other = self\<lparr>
     cycles := cycles self - cycles other,
     branches := branches self - branches other,
     missed_branches := missed_branches self - missed_branches other,
     instructions := instructions self - instructions other,
     l1d_accesses := l1d_accesses self - l1d_accesses other,
     l1d_misses := l1d_misses self - l1d_misses other,
     llc_accesses := llc_accesses self - llc_accesses other,
     llc_misses := llc_misses self - llc_misses other,
     core_time_enabled := core_time_enabled self - core_time_enabled other,
     core_time_running := core_time_running self - core_time_running other,
     l1d_time_enabled := l1d_time_enabled self - l1d_time_enabled other,
     l1d_time_running := l1d_time_running self - l1d_time_running other,
     llc_time_enabled := llc_time_enabled self - llc_time_enabled other,
     llc_time_running := llc_time_running self - llc_time_running other\<rparr>"

definition pc_sub :: "perf_counters \<Rightarrow> perf_counters \<Rightarrow> perf_counters" where
  "pc_sub self other = pc_zero\<lparr>
     cycles := cycles self - cycles other,
     branches := branches self - branches other,
     missed_branches := missed_branches self - missed_branches other,
     instructions := instructions self - instructions other,
     l1d_accesses := l1d_accesses self - l1d_accesses other,
     l1d_misses := l1d_misses self - l1d_misses other,
     llc_accesses := llc_accesses self - llc_accesses other,
     llc_misses := llc_misses self - llc_misses other,
     core_time_enabled := core_time_enabled self - core_time_enabled other,
     core_time_running := core_time_running self - core_time_running other,
     l1d_time_enabled := l1d_time_enabled self - l1d_time_enabled other,
     l1d_time_running := l1d_time_running self - l1d_time_running other,
     llc_time_enabled := llc_time_enabled self - llc_time_enabled other,
     llc_time_running := llc_time_running self - llc_time_running other\<rparr>"

text \<open>\<open>other.f < f ? other.f : f\<close> for every field \<open>f\<close>.\<close>

definition smaller :: "u64 \<Rightarrow> u64 \<Rightarrow> u64" where
  "smaller own other = (if other < own then other else own)"

definition pc_min :: "perf_counters \<Rightarrow> perf_counters \<Rightarrow> perf_counters" where
  "pc_min self other = self\<lparr>
     cycles := smaller (cycles self) (cycles other),
     branches := smaller (branches self) (branches other),
     missed_branches := smaller (missed_branches self) (missed_branches other),
     instructions := smaller (instructions self) (instructions other),
     l1d_accesses := smaller (l1d_accesses self) (l1d_accesses other),
     l1d_misses := smaller (l1d_misses self) (l1d_misses other),
     llc_accesses := smaller (llc_accesses self) (llc_accesses other),
     llc_misses := smaller (llc_misses self) (llc_misses other),
     core_time_enabled := smaller (core_time_enabled self) (core_time_enabled other),
     core_time_running := smaller (core_time_running self) (core_time_running other),
     l1d_time_enabled := smaller (l1d_time_enabled self) (l1d_time_enabled other),
     l1d_time_running := smaller (l1d_time_running self) (l1d_time_running other),
     llc_time_enabled := smaller (llc_time_enabled self) (llc_time_enabled other),
     llc_time_running := smaller (llc_time_running self) (llc_time_running other)\<rparr>"

definition pc_add_assign :: "perf_counters \<Rightarrow> perf_counters \<Rightarrow> perf_counters" where
  "pc_add_assign self other = self\<lparr>
     cycles := cycles self + cycles other,
     branches := branches self + branches other,
     missed_branches := missed_branches self + missed_branches other,
     instructions := instructions self + instructions other,
     l1d_accesses := l1d_accesses self + l1d_accesses other,
     l1d_misses := l1d_misses self + l1d_misses other,
     llc_accesses := llc_accesses self + llc_accesses other,
     llc_misses := llc_misses self + llc_misses other,
     core_time_enabled := core_time_enabled self + core_time_enabled other,
     core_time_running := core_time_running self + core_time_running other,
     l1d_time_enabled := l1d_time_enabled self + l1d_time_enabled other,
     l1d_time_running := l1d_time_running self + l1d_time_running other,
     llc_time_enabled := llc_time_enabled self + llc_time_enabled other,
     llc_time_running := llc_time_running self + llc_time_running other\<rparr>"

section \<open>Division through double\<close>

text \<open>
  \<open>static_cast<uint64_t>(static_cast<double>(c) / d)\<close>; a zero divisor gives an infinity or a
  NaN, whose conversion is undefined.
\<close>

definition div_counter :: "rat \<Rightarrow> u64 \<Rightarrow> u64 option" where
  "div_counter d c = (if d = 0 then None else to_u64 (fl 53 (fl 53 (of_nat (unat c)) / d)))"

definition pc_div_assign :: "perf_counters \<Rightarrow> u64 \<Rightarrow> perf_counters option" where
  "pc_div_assign self numerator =
     (let d = fl 53 (of_nat (unat numerator)) in
      Option.bind (div_counter d (cycles self)) (\<lambda>f1.
      Option.bind (div_counter d (branches self)) (\<lambda>f2.
      Option.bind (div_counter d (missed_branches self)) (\<lambda>f3.
      Option.bind (div_counter d (instructions self)) (\<lambda>f4.
      Option.bind (div_counter d (l1d_accesses self)) (\<lambda>f5.
      Option.bind (div_counter d (l1d_misses self)) (\<lambda>f6.
      Option.bind (div_counter d (llc_accesses self)) (\<lambda>f7.
      Option.bind (div_counter d (llc_misses self)) (\<lambda>f8.
      Option.bind (div_counter d (core_time_enabled self)) (\<lambda>f9.
      Option.bind (div_counter d (core_time_running self)) (\<lambda>f10.
      Option.bind (div_counter d (l1d_time_enabled self)) (\<lambda>f11.
      Option.bind (div_counter d (l1d_time_running self)) (\<lambda>f12.
      Option.bind (div_counter d (llc_time_enabled self)) (\<lambda>f13.
      Option.bind (div_counter d (llc_time_running self)) (\<lambda>f14.
      Some \<lparr>cycles = f1, branches = f2, missed_branches = f3, instructions = f4, l1d_accesses = f5,
        l1d_misses = f6, llc_accesses = f7, llc_misses = f8, core_time_enabled = f9,
        core_time_running = f10, l1d_time_enabled = f11, l1d_time_running = f12,
        llc_time_enabled = f13, llc_time_running = f14\<rparr>)))))))))))))))"

definition pc_div :: "perf_counters \<Rightarrow> u64 \<Rightarrow> perf_counters option" where
  "pc_div self numerator = (let tmp = self in pc_div_assign tmp numerator)"

section \<open>The formatter\<close>

fun dec_digits :: "nat \<Rightarrow> string" where
  "dec_digits n = (if n < 10 then [char_of (48 + n)] else dec_digits (n div 10) @ [char_of (48 + n mod 10)])"

declare dec_digits.simps [simp del]

definition dec_u64 :: "u64 \<Rightarrow> string" where
  "dec_u64 x = dec_digits (unat x)"

definition hit_rate :: "perf_counters \<Rightarrow> rat" where
  "hit_rate pc =
     (if 0 < branches pc
      then fl 53 (1 - fl 53 (fl 53 (of_nat (unat (missed_branches pc))) / fl 53 (of_nat (unat (branches pc)))))
      else 1)"

definition pc_format :: "perf_counters \<Rightarrow> string option" where
  "pc_format pc =
     (case to_u64 (fl 53 (hit_rate pc * 100)) of
        None \<Rightarrow> None
      | Some rate \<Rightarrow> Some (
          ''PerfCounters{cycles='' @ dec_u64 (cycles pc) @
          '', branches='' @ dec_u64 (branches pc) @
          '', missed_branches='' @ dec_u64 (missed_branches pc) @
          '', hit_rate='' @ dec_u64 rate @
          ''%, instructions='' @ dec_u64 (instructions pc) @
          '', l1d_accesses='' @ dec_u64 (l1d_accesses pc) @
          '', l1d_misses='' @ dec_u64 (l1d_misses pc) @
          '', llc_accesses='' @ dec_u64 (llc_accesses pc) @
          '', llc_misses='' @ dec_u64 (llc_misses pc) @ ''}''))"

datatype perf_counter_set = core_set | cache_set

section \<open>Lemmas\<close>

definition pc_fields :: "perf_counters \<Rightarrow> u64 list" where
  "pc_fields p = [cycles p, branches p, missed_branches p, instructions p, l1d_accesses p, l1d_misses p,
     llc_accesses p, llc_misses p, core_time_enabled p, core_time_running p, l1d_time_enabled p,
     l1d_time_running p, llc_time_enabled p, llc_time_running p]"

lemma pc_fields_inj: "pc_fields a = pc_fields (b :: perf_counters) \<Longrightarrow> a = b"
  by (simp add: pc_fields_def)

lemma pc_fields_arith [simp]:
  "pc_fields (pc_add_assign a b) = map2 (+) (pc_fields a) (pc_fields b)"
  "pc_fields (pc_sub_assign a b) = map2 (-) (pc_fields a) (pc_fields b)"
  "pc_fields (pc_sub a b) = map2 (-) (pc_fields a) (pc_fields b)"
  "pc_fields (pc_min a b) = map2 min (pc_fields a) (pc_fields b)"
  by (simp_all add: pc_fields_def pc_add_assign_def pc_sub_assign_def pc_sub_def pc_min_def
      smaller_def min_def not_le [symmetric])

lemma div_counter_small:
  assumes "unat c < 2 ^ 53" "unat n < 2 ^ 53" "0 < n"
  shows "div_counter (fl 53 (of_nat (unat n))) c = Some (of_nat (unat c div unat n))"
proof -
  have n: "0 < unat n" using assms(3) by (simp add: word_less_nat_alt)
  have "fl 53 (rat_of_nat (unat n)) = rat_of_nat (unat n)" using assms(2) by (intro fl_of_nat) simp_all
  then have "fl 53 (rat_of_nat (unat n)) \<noteq> 0" using n by (simp only: of_nat_eq_0_iff)
  then show ?thesis
    unfolding div_counter_def by (simp only: if_False to_u64_fl_div [OF assms(1,2) n])
qed

lemma word_div_unat: "of_nat (unat c div unat n) = c div (n :: u64)"
  by (rule word_arith_nat_div [symmetric])

lemma hit_rate_bounds:
  assumes "missed_branches pc \<le> branches pc"
  shows "0 \<le> hit_rate pc \<and> hit_rate pc \<le> 1"
proof (cases "0 < branches pc")
  case True
  define m b where "m = unat (missed_branches pc)" and "b = unat (branches pc)"
  let ?m = "fl 53 (rat_of_nat m)" and ?b = "fl 53 (rat_of_nat b)"
  have le: "rat_of_nat m \<le> rat_of_nat b"
    using assms by (simp only: m_def b_def of_nat_le_iff word_le_nat_alt)
  have mb: "0 \<le> ?m" "?m \<le> ?b" using le by (auto intro!: fl_nonneg fl_mono)
  have r0: "0 \<le> fl 53 (?m / ?b)" using mb by (intro fl_nonneg divide_nonneg_nonneg) auto
  have "?m / ?b \<le> of_nat 1" using mb by (auto simp: divide_le_eq_1)
  then have "fl 53 (?m / ?b) \<le> of_nat 1" using mb by (intro fl_le_int divide_nonneg_nonneg) auto
  then have r1: "0 \<le> 1 - fl 53 (?m / ?b)" "1 - fl 53 (?m / ?b) \<le> of_nat 1" using r0 by auto
  have "0 \<le> fl 53 (1 - fl 53 (?m / ?b))" using r1(1) by (rule fl_nonneg) simp
  moreover have "fl 53 (1 - fl 53 (?m / ?b)) \<le> of_nat 1" using r1 by (rule fl_le_int) simp_all
  ultimately show ?thesis using True unfolding hit_rate_def m_def b_def by (simp only: if_True of_nat_1 simp_thms)
qed (simp add: hit_rate_def)

lemma pc_div_fields:
  assumes "\<forall>c \<in> set (pc_fields pc). div_counter (fl 53 (of_nat (unat n))) c = Some (g c)"
  shows "map_option pc_fields (pc_div pc n) = Some (map g (pc_fields pc))"
  using assms unfolding pc_div_def pc_div_assign_def Let_def
  by (simp add: pc_fields_def)

lemma to_u64_range:
  assumes "0 \<le> x" "x \<le> of_nat k" "k < 2 ^ 64"
  shows "\<exists>r. to_u64 x = Some r \<and> unat r \<le> k"
proof -
  have "x < 2 ^ 64"
  proof -
    have "rat_of_nat k < 2 ^ 64" using assms(3) by (metis of_nat_less_iff of_nat_numeral of_nat_power)
    with assms(2) show ?thesis by simp
  qed
  then have e: "to_u64 x = Some (of_nat (nat \<lfloor>x\<rfloor>))" using assms(1) unfolding to_u64_def by simp
  have "\<lfloor>x\<rfloor> \<le> int k" using assms(2) by (metis floor_mono floor_of_nat)
  then have k: "nat \<lfloor>x\<rfloor> \<le> k" by linarith
  then have "unat (of_nat (nat \<lfloor>x\<rfloor>) :: u64) = nat \<lfloor>x\<rfloor>"
    using assms(3) by (simp only: unsigned_of_nat) (simp add: take_bit_nat_eq_self)
  with e k show ?thesis by simp
qed

lemma map2_min_glb:
  fixes xs ys zs :: "'a::linorder list"
  assumes "length xs = length ys" "length zs = length xs"
  shows "list_all2 (\<le>) (map2 min xs ys) xs \<and> list_all2 (\<le>) (map2 min xs ys) ys \<and>
    (list_all2 (\<le>) zs (map2 min xs ys) \<longleftrightarrow> list_all2 (\<le>) zs xs \<and> list_all2 (\<le>) zs ys)"
  using assms by (auto simp: list_all2_conv_all_nth)

lemma map2_min_assoc:
  fixes xs ys zs :: "'a::linorder list"
  shows "map2 min (map2 min xs ys) zs = map2 min xs (map2 min ys zs)"
  by (rule nth_equalityI) (simp_all add: min.assoc)

section \<open>Properties\<close>

text \<open>
  Dividing by \<open>numerator\<close> through \<open>double\<close> is exact integer division of each of the
  fourteen counters, for counters and a non-zero numerator below \<open>2^53\<close>.
\<close>

theorem pc_div_exact:
  assumes "\<forall>c \<in> set (pc_fields pc). unat c < 2 ^ 53" "unat numerator < 2 ^ 53" "0 < numerator"
  shows "map_option pc_fields (pc_div pc numerator) = Some (map (\<lambda>c. c div numerator) (pc_fields pc))"
proof (rule pc_div_fields, rule ballI)
  fix c assume "c \<in> set (pc_fields pc)"
  then show "div_counter (fl 53 (of_nat (unat numerator))) c = Some (c div numerator)"
    using div_counter_small [of c numerator, unfolded word_div_unat] assms by blast
qed

theorem pc_div_exact_witness:
  "map_option pc_fields (pc_div (pc_make 1000 70 7 0 0 0 0 9) 10) = Some [100, 7, 0, 0, 0, 0, 0, 0, 0, 0, 0, 0, 0, 0]"
  using pc_div_exact [of "pc_make 1000 70 7 0 0 0 0 9" 10] by (simp add: pc_fields_def pc_make_def pc_zero_def)

text \<open>
  The difference of two snapshots is what was counted between them even when a counter
  wrapped: subtracting a snapshot from that snapshot plus an increment gives the increment, with
  the operator and with the assignment.
\<close>

theorem pc_sub_add:
  "pc_sub (pc_add_assign a b) a = (b :: perf_counters) \<and> pc_sub_assign (pc_add_assign a b) b = a"
  by (simp add: pc_sub_def pc_add_assign_def pc_sub_assign_def pc_zero_def)

text \<open>
  \<open>min\<close> is the greatest lower bound of two records in the componentwise order, so
  folding it over the runs of a benchmark yields the componentwise minimum in any order.
\<close>

theorem pc_min_glb:
  "list_all2 (\<le>) (pc_fields (pc_min a b)) (pc_fields a) \<and> list_all2 (\<le>) (pc_fields (pc_min a b)) (pc_fields b) \<and>
   (list_all2 (\<le>) (pc_fields c) (pc_fields (pc_min a b)) \<longleftrightarrow>
     list_all2 (\<le>) (pc_fields c) (pc_fields a) \<and> list_all2 (\<le>) (pc_fields c) (pc_fields b)) \<and>
   pc_min (pc_min a b) c = pc_min a (pc_min b (c :: perf_counters))"
proof -
  have l: "length (pc_fields a) = length (pc_fields b)" "length (pc_fields c) = length (pc_fields a)"
    by (simp_all add: pc_fields_def)
  have "pc_fields (pc_min (pc_min a b) c) = pc_fields (pc_min a (pc_min b c))"
    using l by (simp add: map2_min_assoc)
  then show ?thesis using map2_min_glb [OF l] pc_fields_inj by simp
qed

text \<open>
  The formatted hit rate is a percentage whenever the counters are consistent (no more
  missed branches than branches): the conversion is defined and at most 100.
\<close>

theorem pc_format_rate:
  assumes "missed_branches pc \<le> branches pc"
  shows "\<exists>r. to_u64 (fl 53 (hit_rate pc * 100)) = Some r \<and> unat r \<le> 100 \<and> pc_format pc \<noteq> None"
proof -
  have h: "0 \<le> hit_rate pc * 100" "hit_rate pc * 100 \<le> of_nat 100"
    using hit_rate_bounds [OF assms] by simp_all
  have "0 \<le> fl 53 (hit_rate pc * 100)" using h(1) by (rule fl_nonneg) simp
  moreover have "fl 53 (hit_rate pc * 100) \<le> of_nat 100" using h by (rule fl_le_int) simp_all
  ultimately have "\<exists>r. to_u64 (fl 53 (hit_rate pc * 100)) = Some r \<and> unat r \<le> 100"
    by (rule to_u64_range) simp
  then show ?thesis by (auto simp: pc_format_def)
qed

theorem pc_format_rate_witness:
  "\<exists>r. to_u64 (fl 53 (hit_rate (pc_make 10 8 2 9 0 0 0 0) * 100)) = Some r \<and> unat r \<le> 100"
  using pc_format_rate [of "pc_make 10 8 2 9 0 0 0 0"] by (auto simp: pc_make_def pc_zero_def)

end
