(* ===== verification/Perf_X86.thy ===== *)
theory Perf_X86
  imports Perf "HOL-Library.Multiset"
begin

text \<open>
  The Linux recorder of \<^verbatim>\<open>src/measure_x86.cpp\<close>: three groups of perf events, opened by
  their constructors, switched by \<open>ioctl\<close> and read into \<open>PerfCounters\<close>. The kernel is a
  parameter: its answers are functions of the calls made so far, and every call is appended to a
  trace with its result. The constants of \<open>linux/perf_event.h\<close> are a parameter too.
\<close>

section \<open>The kernel interface\<close>

record perf_abi =
  TYPE_HARDWARE :: u64
  TYPE_HW_CACHE :: u64
  HW_CPU_CYCLES :: u64
  HW_BRANCH_INSTRUCTIONS :: u64
  HW_BRANCH_MISSES :: u64
  HW_INSTRUCTIONS :: u64
  CACHE_L1D :: u64
  CACHE_LL :: u64
  OP_READ :: u64
  RESULT_ACCESS :: u64
  RESULT_MISS :: u64
  FORMAT_GROUP :: u64
  FORMAT_TOTAL_TIME_ENABLED :: u64
  FORMAT_TOTAL_TIME_RUNNING :: u64

record perf_event_attr =
  attr_type :: u64
  attr_disabled :: bool
  attr_exclude_kernel :: bool
  attr_exclude_hv :: bool
  attr_read_format :: u64
  attr_config :: u64

text \<open>One system call with its result, or a line printed to \<open>stderr\<close> about a failed one.\<close>

datatype event =
    Opened perf_event_attr int int int
  | Enabled int
  | Disabled int
  | Closed int
  | Stderr string

type_synonym trace = "event list"

record kernel =
  open_ret :: "trace \<Rightarrow> perf_event_attr \<Rightarrow> int \<Rightarrow> int"
  read_ret :: "trace \<Rightarrow> int \<Rightarrow> nat \<Rightarrow> int \<times> u64 list"

text \<open>\<open>perf_event_open(attr, 0, -1, group_fd, 0)\<close>; the trace keeps the attributes, the cpu, the group and the result.\<close>

definition perf_event_open :: "kernel \<Rightarrow> trace \<Rightarrow> perf_event_attr \<Rightarrow> int \<Rightarrow> int \<Rightarrow> int \<times> trace" where
  "perf_event_open K tr attr cpu group_fd =
     (let res = open_ret K tr attr group_fd in (res, tr @ [Opened attr cpu group_fd res]))"

section \<open>PerfEventGroupBase\<close>

record event_group =
  fds :: "int list"
  ok :: bool

definition base_group :: "nat \<Rightarrow> event_group" where
  "base_group n = \<lparr>fds = replicate n (-1), ok = False\<rparr>"

definition group_enable :: "event_group \<Rightarrow> trace \<Rightarrow> trace" where
  "group_enable g tr = (if \<not> ok g then tr else tr @ [Enabled (fds g ! 0)])"

definition group_disable :: "event_group \<Rightarrow> trace \<Rightarrow> trace" where
  "group_disable g tr = (if \<not> ok g then tr else tr @ [Disabled (fds g ! 0)])"

fun close_fds :: "int list \<Rightarrow> trace \<Rightarrow> trace" where
  "close_fds [] tr = tr"
| "close_fds (fd # rest) tr = close_fds rest (if fd \<noteq> -1 then tr @ [Closed fd] else tr)"

definition close_all :: "event_group \<Rightarrow> trace \<Rightarrow> event_group \<times> trace" where
  "close_all g tr = (\<lparr>fds = map (\<lambda>fd. -1) (fds g), ok = False\<rparr>, close_fds (fds g) tr)"

definition BASE_EVENT_COUNT :: nat where "BASE_EVENT_COUNT = 4"
definition L1D_EVENT_COUNT :: nat where "L1D_EVENT_COUNT = 2"
definition LLC_EVENT_COUNT :: nat where "LLC_EVENT_COUNT = 2"

section \<open>The core group\<close>

definition core_leader :: "perf_abi \<Rightarrow> perf_event_attr" where
  "core_leader A = \<lparr>attr_type = TYPE_HARDWARE A, attr_disabled = True, attr_exclude_kernel = True,
     attr_exclude_hv = True,
     attr_read_format = FORMAT_GROUP A OR FORMAT_TOTAL_TIME_ENABLED A OR FORMAT_TOTAL_TIME_RUNNING A,
     attr_config = HW_CPU_CYCLES A\<rparr>"

definition open_member_hw ::
  "perf_abi \<Rightarrow> kernel \<Rightarrow> int \<Rightarrow> u64 \<Rightarrow> string \<Rightarrow> trace \<Rightarrow> int \<times> trace" where
  "open_member_hw A K leader_fd config name tr =
     (let attr = \<lparr>attr_type = TYPE_HARDWARE A, attr_disabled = False, attr_exclude_kernel = True,
            attr_exclude_hv = True, attr_read_format = 0, attr_config = config\<rparr>;
          (fd, tr) = perf_event_open K tr attr (-1) leader_fd
      in (fd, if fd < 0 then tr @ [Stderr name] else tr))"

definition core_open_group :: "perf_abi \<Rightarrow> kernel \<Rightarrow> event_group \<Rightarrow> trace \<Rightarrow> bool \<times> event_group \<times> trace" where
  "core_open_group A K g tr =
     (let (fd0, tr) = perf_event_open K tr (core_leader A) (-1) (-1);
          g = g\<lparr>fds := (fds g)[0 := fd0]\<rparr>
      in if fd0 < 0 then (False, g, tr @ [Stderr ''cpu-cycles''])
         else
           let (fd1, tr) = open_member_hw A K fd0 (HW_BRANCH_INSTRUCTIONS A) ''branch-instructions'' tr;
               (fd2, tr) = open_member_hw A K fd0 (HW_BRANCH_MISSES A) ''branch-misses'' tr;
               (fd3, tr) = open_member_hw A K fd0 (HW_INSTRUCTIONS A) ''instructions'' tr;
               g = g\<lparr>fds := (fds g)[1 := fd1, 2 := fd2, 3 := fd3]\<rparr>
           in if fd1 < 0 \<or> fd2 < 0 \<or> fd3 < 0
              then let (g, tr) = close_all g tr in (False, g, tr)
              else (True, g\<lparr>ok := True\<rparr>, tr))"

definition core_group :: "perf_abi \<Rightarrow> kernel \<Rightarrow> trace \<Rightarrow> event_group \<times> trace" where
  "core_group A K tr =
     (let (r, g, tr) = core_open_group A K (base_group BASE_EVENT_COUNT) tr in (g\<lparr>ok := r\<rparr>, tr))"

text \<open>
  \<open>read()\<close>: the kernel fills a prefix of an array of zeros with the words it returns and reports a
  byte count.
\<close>

definition read_words :: "kernel \<Rightarrow> trace \<Rightarrow> int \<Rightarrow> nat \<Rightarrow> int \<times> u64 list" where
  "read_words K tr fd words =
     (let (res, ws) = read_ret K tr fd (words * 8)
      in (res, take words ws @ replicate (words - length ws) 0))"

definition core_read :: "kernel \<Rightarrow> event_group \<Rightarrow> trace \<Rightarrow> perf_counters" where
  "core_read K g tr =
     (if \<not> ok g then pc_zero
      else
        let expected_words = 3 + BASE_EVENT_COUNT;
            (res, d) = read_words K tr (fds g ! 0) expected_words
        in if res < int (expected_words * 8) \<or> d ! 0 < of_nat BASE_EVENT_COUNT then pc_zero
           else pc_zero\<lparr>cycles := d ! 3, branches := d ! 4, missed_branches := d ! 5,
             instructions := d ! 6, core_time_enabled := d ! 1, core_time_running := d ! 2\<rparr>)"

section \<open>The cache groups\<close>

record cache_counters =
  accesses :: u64
  misses :: u64
  time_enabled :: u64
  time_running :: u64

definition cc_zero :: cache_counters where
  "cc_zero = \<lparr>accesses = 0, misses = 0, time_enabled = 0, time_running = 0\<rparr>"

definition cache_config :: "u64 \<Rightarrow> u64 \<Rightarrow> u64 \<Rightarrow> u64" where
  "cache_config cache_id op result = cache_id OR push_bit 8 op OR push_bit 16 result"

definition open_member_cache ::
  "perf_abi \<Rightarrow> kernel \<Rightarrow> int \<Rightarrow> u64 \<Rightarrow> u64 \<Rightarrow> u64 \<Rightarrow> string \<Rightarrow> trace \<Rightarrow> int \<times> trace" where
  "open_member_cache A K leader_fd cache_id op result name tr =
     (let attr = \<lparr>attr_type = TYPE_HW_CACHE A, attr_disabled = False, attr_exclude_kernel = True,
            attr_exclude_hv = True, attr_read_format = 0, attr_config = cache_config cache_id op result\<rparr>;
          (fd, tr) = perf_event_open K tr attr (-1) leader_fd
      in (fd, if fd < 0 then tr @ [Stderr name] else tr))"

definition cache_leader :: "perf_abi \<Rightarrow> u64 \<Rightarrow> perf_event_attr" where
  "cache_leader A cache_id = \<lparr>attr_type = TYPE_HW_CACHE A, attr_disabled = True,
     attr_exclude_kernel = True, attr_exclude_hv = True,
     attr_read_format = FORMAT_GROUP A OR FORMAT_TOTAL_TIME_ENABLED A OR FORMAT_TOTAL_TIME_RUNNING A,
     attr_config = cache_config cache_id (OP_READ A) (RESULT_ACCESS A)\<rparr>"

text \<open>The two \<open>open_group\<close>s of the cache groups differ in the cache and in the names they print.\<close>

definition cache_open_group ::
  "perf_abi \<Rightarrow> kernel \<Rightarrow> u64 \<Rightarrow> string \<Rightarrow> string \<Rightarrow> event_group \<Rightarrow> trace \<Rightarrow> bool \<times> event_group \<times> trace" where
  "cache_open_group A K cache_id access_name miss_name g tr =
     (let (fd0, tr) = perf_event_open K tr (cache_leader A cache_id) (-1) (-1);
          g = g\<lparr>fds := (fds g)[0 := fd0]\<rparr>
      in if fd0 < 0
         then let (g, tr) = close_all g (tr @ [Stderr access_name]) in (False, g, tr)
         else
           let (fd1, tr) = open_member_cache A K fd0 cache_id (OP_READ A) (RESULT_MISS A) miss_name tr;
               g = g\<lparr>fds := (fds g)[1 := fd1]\<rparr>
           in if fd1 < 0 then let (g, tr) = close_all g tr in (False, g, tr)
              else (True, g\<lparr>ok := True\<rparr>, tr))"

definition l1d_open_group :: "perf_abi \<Rightarrow> kernel \<Rightarrow> event_group \<Rightarrow> trace \<Rightarrow> bool \<times> event_group \<times> trace" where
  "l1d_open_group A K = cache_open_group A K (CACHE_L1D A) ''l1d-read-access'' ''l1d-read-miss''"

definition llc_open_group :: "perf_abi \<Rightarrow> kernel \<Rightarrow> event_group \<Rightarrow> trace \<Rightarrow> bool \<times> event_group \<times> trace" where
  "llc_open_group A K = cache_open_group A K (CACHE_LL A) ''llc-read-access'' ''llc-read-miss''"

definition l1d_group :: "perf_abi \<Rightarrow> kernel \<Rightarrow> trace \<Rightarrow> event_group \<times> trace" where
  "l1d_group A K tr =
     (let (r, g, tr) = l1d_open_group A K (base_group L1D_EVENT_COUNT) tr
      in (g, if r then tr else tr @ [Stderr ''L1D events unavailable'']))"

definition llc_group :: "perf_abi \<Rightarrow> kernel \<Rightarrow> trace \<Rightarrow> event_group \<times> trace" where
  "llc_group A K tr =
     (let (r, g, tr) = llc_open_group A K (base_group LLC_EVENT_COUNT) tr
      in (g, if r then tr else tr @ [Stderr ''LLC events unavailable'']))"

definition cache_read :: "nat \<Rightarrow> kernel \<Rightarrow> event_group \<Rightarrow> trace \<Rightarrow> cache_counters" where
  "cache_read event_count K g tr =
     (if \<not> ok g then cc_zero
      else
        let (res, d) = read_words K tr (fds g ! 0) (3 + event_count)
        in if res < int ((3 + event_count) * 8) \<or> d ! 0 < of_nat event_count then cc_zero
           else \<lparr>accesses = d ! 3, misses = d ! 4, time_enabled = d ! 1, time_running = d ! 2\<rparr>)"

definition l1d_read :: "kernel \<Rightarrow> event_group \<Rightarrow> trace \<Rightarrow> cache_counters" where
  "l1d_read = cache_read L1D_EVENT_COUNT"

definition llc_read :: "kernel \<Rightarrow> event_group \<Rightarrow> trace \<Rightarrow> cache_counters" where
  "llc_read = cache_read LLC_EVENT_COUNT"

section \<open>The recorder\<close>

record x86_recorder =
  core :: event_group
  l1d :: event_group
  llc :: event_group

text \<open>\<open>recorder_instance\<close>: the members are constructed in order on first use.\<close>

definition x86_recorder_new :: "perf_abi \<Rightarrow> kernel \<Rightarrow> trace \<Rightarrow> x86_recorder \<times> trace" where
  "x86_recorder_new A K tr =
     (let (c, tr) = core_group A K tr; (d, tr) = l1d_group A K tr; (l, tr) = llc_group A K tr
      in (\<lparr>core = c, l1d = d, llc = l\<rparr>, tr))"

definition x86_disable_all :: "x86_recorder \<Rightarrow> trace \<Rightarrow> trace" where
  "x86_disable_all r tr = group_disable (llc r) (group_disable (l1d r) (group_disable (core r) tr))"

definition x86_enable :: "x86_recorder \<Rightarrow> perf_counter_set \<Rightarrow> trace \<Rightarrow> trace" where
  "x86_enable r cset tr =
     (let tr = x86_disable_all r tr
      in if cset = core_set then group_enable (core r) tr
         else group_enable (llc r) (group_enable (l1d r) tr))"

definition x86_get_counters :: "kernel \<Rightarrow> x86_recorder \<Rightarrow> perf_counter_set \<Rightarrow> trace \<Rightarrow> perf_counters" where
  "x86_get_counters K r cset tr =
     (if cset = core_set then core_read K (core r) tr
      else
        let l1d_counters = l1d_read K (l1d r) tr; llc_counters = llc_read K (llc r) tr
        in pc_zero\<lparr>l1d_accesses := accesses l1d_counters, l1d_misses := misses l1d_counters,
             l1d_time_enabled := time_enabled l1d_counters, l1d_time_running := time_running l1d_counters,
             llc_accesses := accesses llc_counters, llc_misses := misses llc_counters,
             llc_time_enabled := time_enabled llc_counters, llc_time_running := time_running llc_counters\<rparr>)"

text \<open>The destructors of the members, in the reverse order of construction.\<close>

definition x86_recorder_destroy :: "x86_recorder \<Rightarrow> trace \<Rightarrow> trace" where
  "x86_recorder_destroy r tr =
     (let (l, tr) = close_all (llc r) tr; (d, tr) = close_all (l1d r) tr; (c, tr) = close_all (core r) tr
      in tr)"

section \<open>Descriptors and running groups of a trace\<close>

fun live_step :: "event \<Rightarrow> int set \<Rightarrow> int set" where
  "live_step (Opened a cpu g fd) S = (if 0 \<le> fd then insert fd S else S)"
| "live_step (Closed fd) S = S - {fd}"
| "live_step _ S = S"

definition live :: "trace \<Rightarrow> int set" where
  "live tr = fold live_step tr {}"

fun counting_step :: "event \<Rightarrow> int set \<Rightarrow> int set" where
  "counting_step (Enabled fd) S = insert fd S"
| "counting_step (Disabled fd) S = S - {fd}"
| "counting_step (Closed fd) S = S - {fd}"
| "counting_step _ S = S"

definition counting :: "trace \<Rightarrow> int set" where
  "counting tr = fold counting_step tr {}"

text \<open>\<open>perf_event_open\<close> returns \<open>-1\<close> or a descriptor that is not open.\<close>

definition kernel_ok :: "kernel \<Rightarrow> bool" where
  "kernel_ok K \<longleftrightarrow> (\<forall>tr a g. open_ret K tr a g = -1 \<or> (0 \<le> open_ret K tr a g \<and> open_ret K tr a g \<notin> live tr))"

lemma live_append: "live (tr @ es) = fold live_step es (live tr)"
  by (simp add: live_def)

lemma counting_append: "counting (tr @ es) = fold counting_step es (counting tr)"
  by (simp add: counting_def)

lemma live_nonneg: "fd \<in> live tr \<Longrightarrow> 0 \<le> fd"
proof -
  have "\<forall>fd \<in> fold live_step es S. 0 \<le> fd" if "\<forall>fd \<in> S. 0 \<le> fd" for es S
    using that
  proof (induction es arbitrary: S)
    case (Cons e es)
    then have "\<forall>fd \<in> live_step e S. 0 \<le> fd" by (cases e) auto
    from Cons.IH [OF this] show ?case by simp
  qed simp
  then show "fd \<in> live tr \<Longrightarrow> 0 \<le> fd" by (auto simp: live_def)
qed

lemma kernel_okD:
  "kernel_ok K \<Longrightarrow> open_ret K tr a g = -1 \<or> (0 \<le> open_ret K tr a g \<and> open_ret K tr a g \<notin> live tr)"
  by (simp add: kernel_ok_def)

lemma live_close_fds: "live (close_fds xs tr) = live tr - {fd \<in> set xs. fd \<noteq> -1}"
  by (induction xs arbitrary: tr) (auto simp: live_append)

lemma counting_close_fds: "counting (close_fds xs tr) = counting tr - {fd \<in> set xs. fd \<noteq> -1}"
  by (induction xs arbitrary: tr) (auto simp: counting_append)

text \<open>What a constructed group owns: all of its descriptors, or none.\<close>

definition group_ok :: "nat \<Rightarrow> event_group \<Rightarrow> bool" where
  "group_ok n g \<longleftrightarrow> length (fds g) = n \<and> 0 < n \<and>
     (if ok g then distinct (fds g) \<and> (\<forall>fd \<in> set (fds g). 0 \<le> fd) else \<forall>fd \<in> set (fds g). fd = -1)"

definition owned :: "event_group \<Rightarrow> int set" where
  "owned g = {fd \<in> set (fds g). fd \<noteq> -1}"

definition opens :: "nat \<Rightarrow> trace \<Rightarrow> event_group \<times> trace \<Rightarrow> bool" where
  "opens n tr r \<longleftrightarrow> group_ok n (fst r) \<and> live (snd r) = live tr \<union> owned (fst r) \<and>
     live tr \<inter> owned (fst r) = {} \<and> counting (snd r) = counting tr"

lemma leader_cases:
  assumes "kernel_ok K" "perf_event_open K tr a cpu g = (fd, tr')"
  shows "(fd = -1 \<and> live tr' = live tr \<or> 0 \<le> fd \<and> fd \<notin> live tr \<and> live tr' = insert fd (live tr)) \<and>
    counting tr' = counting tr"
  using assms(2) kernel_okD [OF assms(1), of tr a g]
  by (auto simp: perf_event_open_def Let_def live_append counting_append)

lemma member_cases:
  assumes "kernel_ok K"
    "(case perf_event_open K tr a cpu g of (fd, t) \<Rightarrow> (fd, if fd < 0 then t @ [Stderr name] else t)) = (fd, tr')"
  shows "(fd = -1 \<and> live tr' = live tr \<or> 0 \<le> fd \<and> fd \<notin> live tr \<and> live tr' = insert fd (live tr)) \<and>
    counting tr' = counting tr"
proof -
  obtain f t where p: "perf_event_open K tr a cpu g = (f, t)" by fastforce
  then have "fd = f" "tr' = (if f < 0 then t @ [Stderr name] else t)" using assms(2) by (simp_all split: if_splits)
  then show ?thesis using leader_cases [OF assms(1) p] by (auto simp: live_append counting_append)
qed

lemma open_member_hw_cases:
  assumes "kernel_ok K" "open_member_hw A K lfd config name tr = (fd, tr')"
  shows "(fd = -1 \<and> live tr' = live tr \<or> 0 \<le> fd \<and> fd \<notin> live tr \<and> live tr' = insert fd (live tr)) \<and>
    counting tr' = counting tr"
  using assms(2) unfolding open_member_hw_def Let_def by (rule member_cases [OF assms(1)])

lemma open_member_cache_cases:
  assumes "kernel_ok K" "open_member_cache A K lfd c op res name tr = (fd, tr')"
  shows "(fd = -1 \<and> live tr' = live tr \<or> 0 \<le> fd \<and> fd \<notin> live tr \<and> live tr' = insert fd (live tr)) \<and>
    counting tr' = counting tr"
  using assms(2) unfolding open_member_cache_def Let_def by (rule member_cases [OF assms(1)])

lemma core_group_opens:
  assumes "kernel_ok K" and sub: "counting tr \<subseteq> live tr"
  shows "opens 4 tr (core_group A K tr)"
proof -
  obtain fd0 t0 where 0: "perf_event_open K tr (core_leader A) (-1) (-1) = (fd0, t0)" by fastforce
  obtain fd1 t1 where 1: "open_member_hw A K fd0 (HW_BRANCH_INSTRUCTIONS A) ''branch-instructions'' t0 = (fd1, t1)" by fastforce
  obtain fd2 t2 where 2: "open_member_hw A K fd0 (HW_BRANCH_MISSES A) ''branch-misses'' t1 = (fd2, t2)" by fastforce
  obtain fd3 t3 where 3: "open_member_hw A K fd0 (HW_INSTRUCTIONS A) ''instructions'' t2 = (fd3, t3)" by fastforce
  note c0 = leader_cases [OF assms(1) 0]
  note c1 = open_member_hw_cases [OF assms(1) 1]
  note c2 = open_member_hw_cases [OF assms(1) 2]
  note c3 = open_member_hw_cases [OF assms(1) 3]
  have base: "fds (base_group BASE_EVENT_COUNT) = [-1, -1, -1, -1]" "\<not> ok (base_group BASE_EVENT_COUNT)"
    by (simp_all add: base_group_def BASE_EVENT_COUNT_def numeral_eq_Suc)
  have list: "[-1, -1, -1, -1::int][0 := a, 1 := b, 2 := c, 3 := d] = [a, b, c, d]" for a b c d
    by (simp add: numeral_eq_Suc)
  show ?thesis
  proof (cases "fd0 < 0")
    case True
    then have "core_group A K tr =
        (base_group BASE_EVENT_COUNT\<lparr>fds := [fd0, -1, -1, -1], ok := False\<rparr>, t0 @ [Stderr ''cpu-cycles''])"
      by (simp add: core_group_def core_open_group_def 0 base Let_def)
    then show ?thesis using c0 True
      by (auto simp: opens_def group_ok_def owned_def live_append counting_append)
  next
    case False
    show ?thesis
    proof (cases "fd1 < 0 \<or> fd2 < 0 \<or> fd3 < 0")
      case True
      then have "core_group A K tr =
          (\<lparr>fds = [-1, -1, -1, -1], ok = False\<rparr>, close_fds [fd0, fd1, fd2, fd3] t3)"
        using False by (simp add: core_group_def core_open_group_def 0 1 2 3 base Let_def list close_all_def)
      moreover have "live (close_fds [fd0, fd1, fd2, fd3] t3) = live tr"
        using c0 c1 c2 c3 False by (simp only: live_close_fds) auto
      moreover have "counting (close_fds [fd0, fd1, fd2, fd3] t3) = counting tr"
        using c0 c1 c2 c3 sub False by (simp only: counting_close_fds) auto
      ultimately show ?thesis by (simp add: opens_def group_ok_def owned_def)
    next
      case all: False
      then have "core_group A K tr = (\<lparr>fds = [fd0, fd1, fd2, fd3], ok = True\<rparr>, t3)"
        using False by (simp add: core_group_def core_open_group_def 0 1 2 3 base Let_def list)
      then show ?thesis using c0 c1 c2 c3 all False
        by (auto simp: opens_def group_ok_def owned_def)
    qed
  qed
qed

lemma cache_group_opens:
  assumes "kernel_ok K" and sub: "counting tr \<subseteq> live tr"
    and r: "cache_open_group A K c an mn (base_group 2) tr = (b, g, tr')"
  shows "opens 2 tr (g, tr') \<and> b = ok g"
proof -
  obtain fd0 t0 where 0: "perf_event_open K tr (cache_leader A c) (-1) (-1) = (fd0, t0)" by fastforce
  obtain fd1 t1 where 1: "open_member_cache A K fd0 c (OP_READ A) (RESULT_MISS A) mn t0 = (fd1, t1)" by fastforce
  note c0 = leader_cases [OF assms(1) 0] and c1 = open_member_cache_cases [OF assms(1) 1]
  have base: "fds (base_group 2) = [-1, -1]" "\<not> ok (base_group 2)"
    by (simp_all add: base_group_def numeral_eq_Suc)
  consider "fd0 < 0" | "0 \<le> fd0" "fd1 < 0" | "0 \<le> fd0" "0 \<le> fd1" by linarith
  then show ?thesis
  proof cases
    case 1
    then have "b = False \<and> g = \<lparr>fds = [-1, -1], ok = False\<rparr> \<and> tr' = close_fds [fd0, -1] (t0 @ [Stderr an])"
      using r by (auto simp: cache_open_group_def 0 base Let_def close_all_def)
    then show ?thesis using c0 1
      by (auto simp: opens_def group_ok_def owned_def live_append counting_append)
  next
    case 2
    then have g: "b = False \<and> g = \<lparr>fds = [-1, -1], ok = False\<rparr> \<and> tr' = close_fds [fd0, fd1] t1"
      using r by (auto simp: cache_open_group_def 0 1 base Let_def close_all_def)
    have "live (close_fds [fd0, fd1] t1) = live tr" using c0 c1 2 by (simp only: live_close_fds) auto
    moreover have "counting (close_fds [fd0, fd1] t1) = counting tr"
      using c0 c1 2 sub by (simp only: counting_close_fds) auto
    ultimately show ?thesis using g by (simp add: opens_def group_ok_def owned_def)
  next
    case 3
    then have "b = True \<and> g = \<lparr>fds = [fd0, fd1], ok = True\<rparr> \<and> tr' = t1"
      using r by (auto simp: cache_open_group_def 0 1 base Let_def)
    then show ?thesis using c0 c1 3 by (auto simp: opens_def group_ok_def owned_def)
  qed
qed

lemma l1d_group_opens:
  assumes "kernel_ok K" "counting tr \<subseteq> live tr"
  shows "opens 2 tr (l1d_group A K tr)"
proof -
  obtain b g t where r: "cache_open_group A K (CACHE_L1D A) ''l1d-read-access'' ''l1d-read-miss'' (base_group 2) tr = (b, g, t)"
    by (metis prod_cases3)
  from cache_group_opens [OF assms r] r show ?thesis
    by (auto simp: l1d_group_def l1d_open_group_def L1D_EVENT_COUNT_def opens_def live_append counting_append)
qed

lemma llc_group_opens:
  assumes "kernel_ok K" "counting tr \<subseteq> live tr"
  shows "opens 2 tr (llc_group A K tr)"
proof -
  obtain b g t where r: "cache_open_group A K (CACHE_LL A) ''llc-read-access'' ''llc-read-miss'' (base_group 2) tr = (b, g, t)"
    by (metis prod_cases3)
  from cache_group_opens [OF assms r] r show ?thesis
    by (auto simp: llc_group_def llc_open_group_def LLC_EVENT_COUNT_def opens_def live_append counting_append)
qed

text \<open>The recorder's three groups own disjoint descriptors, and nothing counts yet.\<close>

definition recorder_ok :: "x86_recorder \<Rightarrow> trace \<Rightarrow> bool" where
  "recorder_ok r tr \<longleftrightarrow> group_ok 4 (core r) \<and> group_ok 2 (l1d r) \<and> group_ok 2 (llc r) \<and>
     owned (core r) \<inter> owned (l1d r) = {} \<and> owned (core r) \<inter> owned (llc r) = {} \<and>
     owned (l1d r) \<inter> owned (llc r) = {} \<and>
     live tr = owned (core r) \<union> owned (l1d r) \<union> owned (llc r)"

lemma recorder_new_ok:
  assumes K: "kernel_ok K" and new: "x86_recorder_new A K [] = (r, tr)"
  shows "recorder_ok r tr \<and> counting tr = {}"
proof -
  obtain c t1 where 1: "core_group A K [] = (c, t1)" by fastforce
  obtain d t2 where 2: "l1d_group A K t1 = (d, t2)" by fastforce
  obtain l t3 where 3: "llc_group A K t2 = (l, t3)" by fastforce
  have r: "r = \<lparr>core = c, l1d = d, llc = l\<rparr>" "tr = t3"
    using new by (simp_all add: x86_recorder_new_def 1 2 3)
  have e: "live [] = {}" "counting [] = {}" by (simp_all add: live_def counting_def)
  have o1: "opens 4 [] (c, t1)" using core_group_opens [OF K, of "[]" A] 1 e by simp
  then have "counting t1 \<subseteq> live t1" using e by (simp add: opens_def)
  from l1d_group_opens [OF K this, of A] have o2: "opens 2 t1 (d, t2)" by (simp add: 2)
  then have "counting t2 \<subseteq> live t2" using o1 e by (simp add: opens_def)
  from llc_group_opens [OF K this, of A] have o3: "opens 2 t2 (l, t3)" by (simp add: 3)
  show ?thesis using o1 o2 o3 e by (auto simp: opens_def recorder_ok_def r)
qed

section \<open>Switching the groups\<close>

definition leader :: "event_group \<Rightarrow> int set" where
  "leader g = (if ok g then {fds g ! 0} else {})"

lemma leader_owned:
  assumes "group_ok n g"
  shows "leader g \<subseteq> owned g"
proof (cases "ok g")
  case True
  then have "fds g ! 0 \<in> set (fds g)" "0 \<le> fds g ! 0" using assms by (auto simp: group_ok_def)
  then show ?thesis by (simp add: leader_def owned_def)
qed (simp add: leader_def)

lemma enable_counting: "counting (group_enable g tr) = counting tr \<union> leader g"
  by (auto simp: group_enable_def leader_def counting_append)

lemma disable_counting: "counting (group_disable g tr) = counting tr - leader g"
  by (auto simp: group_disable_def leader_def counting_append)

lemma switch_live [simp]:
  "live (group_enable g tr) = live tr" "live (group_disable g tr) = live tr"
  by (simp_all add: group_enable_def group_disable_def live_append)

definition selected :: "x86_recorder \<Rightarrow> perf_counter_set \<Rightarrow> int set" where
  "selected r cset = (if cset = core_set then leader (core r) else leader (l1d r) \<union> leader (llc r))"

lemma enable_all_counting:
  "counting (x86_enable r cset tr) =
     (counting tr - (leader (core r) \<union> leader (l1d r) \<union> leader (llc r))) \<union> selected r cset"
  by (auto simp: x86_enable_def x86_disable_all_def selected_def Let_def enable_counting disable_counting)

fun switch_all :: "x86_recorder \<Rightarrow> perf_counter_set list \<Rightarrow> trace \<Rightarrow> trace" where
  "switch_all r [] tr = tr"
| "switch_all r (s # ss) tr = switch_all r ss (x86_enable r s tr)"

lemma switch_all_live: "live (switch_all r ss tr) = live tr"
  by (induction ss arbitrary: tr) (simp_all add: x86_enable_def x86_disable_all_def Let_def)

lemma switch_all_counting:
  "counting tr \<subseteq> leader (core r) \<union> leader (l1d r) \<union> leader (llc r) \<Longrightarrow>
   counting (switch_all r ss tr) = (if ss = [] then counting tr else selected r (last ss))"
proof (induction ss arbitrary: tr)
  case (Cons s ss)
  have c: "counting (x86_enable r s tr) = selected r s" using Cons.prems by (auto simp: enable_all_counting)
  then have "counting (x86_enable r s tr) \<subseteq> leader (core r) \<union> leader (l1d r) \<union> leader (llc r)"
    by (auto simp: selected_def split: if_splits)
  from Cons.IH [OF this] c show ?case by simp
qed simp

section \<open>A kernel\<close>

text \<open>Hands out fresh descriptors, and refuses the cache events.\<close>

definition demo_abi :: perf_abi where
  "demo_abi = \<lparr>TYPE_HARDWARE = 0, TYPE_HW_CACHE = 3, HW_CPU_CYCLES = 0, HW_BRANCH_INSTRUCTIONS = 4,
     HW_BRANCH_MISSES = 5, HW_INSTRUCTIONS = 1, CACHE_L1D = 0, CACHE_LL = 2, OP_READ = 0,
     RESULT_ACCESS = 0, RESULT_MISS = 1, FORMAT_GROUP = 8, FORMAT_TOTAL_TIME_ENABLED = 1,
     FORMAT_TOTAL_TIME_RUNNING = 2\<rparr>"

fun max_fd :: "trace \<Rightarrow> int" where
  "max_fd [] = 2"
| "max_fd (Opened a cpu g fd # es) = max fd (max_fd es)"
| "max_fd (e # es) = max_fd es"

definition demo_kernel :: kernel where
  "demo_kernel = \<lparr>open_ret = (\<lambda>tr a g. if attr_type a = 3 then -1 else max_fd tr + 1),
     read_ret = (\<lambda>tr fd n. (int n, []))\<rparr>"

lemma live_max_fd: "fd \<in> fold live_step es S \<Longrightarrow> fd \<in> S \<or> fd \<le> max_fd es"
proof (induction es arbitrary: S)
  case (Cons e es)
  then have "fd \<in> live_step e S \<or> fd \<le> max_fd es" by simp
  then show ?case by (cases e) (auto split: if_splits)
qed simp

lemma max_fd_ge: "2 \<le> max_fd es"
  by (induction es rule: max_fd.induct) auto

lemma demo_kernel_ok: "kernel_ok demo_kernel"
proof -
  have "max_fd tr + 1 \<notin> live tr" for tr using live_max_fd [of "max_fd tr + 1" tr "{}"] by (auto simp: live_def)
  moreover have "0 \<le> max_fd tr + 1" for tr using max_fd_ge [of tr] by simp
  ultimately show ?thesis by (simp add: kernel_ok_def demo_kernel_def)
qed

definition demo_new :: "x86_recorder \<times> trace" where
  "demo_new = x86_recorder_new demo_abi demo_kernel []"

lemma list_updates:
  "replicate 4 z = [z, z, z, z]" "replicate 2 z = [z, z]" "[a, b, c, d][1 := x, 2 := y, 3 := w] = [a, x, y, w]"
  by (simp_all add: numeral_eq_Suc)

lemma demo_new_eq: "fst demo_new = \<lparr>core = \<lparr>fds = [3, 4, 5, 6], ok = True\<rparr>,
    l1d = \<lparr>fds = [-1, -1], ok = False\<rparr>, llc = \<lparr>fds = [-1, -1], ok = False\<rparr>\<rparr>"
  by (simp add: demo_new_def x86_recorder_new_def core_group_def core_open_group_def perf_event_open_def
      open_member_hw_def demo_kernel_def demo_abi_def core_leader_def base_group_def BASE_EVENT_COUNT_def
      L1D_EVENT_COUNT_def LLC_EVENT_COUNT_def l1d_group_def llc_group_def l1d_open_group_def
      llc_open_group_def cache_open_group_def cache_leader_def close_all_def Let_def list_updates [simplified] list_updates)

section \<open>Properties\<close>

text \<open>
  C24. Opening the recorder never leaks a descriptor: a group is either fully open (distinct
  descriptors) or holds none, the three groups own disjoint descriptors, every descriptor that is
  open belongs to a group, nothing counts before it is enabled, and the destructors close all.
\<close>

theorem x86_recorder_no_leak:
  assumes "kernel_ok K" "x86_recorder_new A K [] = (r, tr)"
  shows "recorder_ok r tr \<and> counting tr = {} \<and> live (x86_recorder_destroy r (switch_all r sets tr)) = {}"
proof -
  note n = recorder_new_ok [OF assms]
  have "live (x86_recorder_destroy r (switch_all r sets tr)) = {}"
    using n by (auto simp: x86_recorder_destroy_def close_all_def live_close_fds switch_all_live
        recorder_ok_def owned_def)
  with n show ?thesis by simp
qed

theorem x86_recorder_no_leak_witness:
  "kernel_ok demo_kernel \<and>
   live (x86_recorder_destroy (fst demo_new) (switch_all (fst demo_new) [core_set, cache_set] (snd demo_new))) = {}"
  using x86_recorder_no_leak [OF demo_kernel_ok, of demo_abi "fst demo_new" "snd demo_new"] demo_kernel_ok
  by (simp add: demo_new_def del: switch_all.simps)

text \<open>
  After any sequence of \<open>enable\<close> calls exactly the groups of the last requested set that
  could be opened are counting; \<open>disable_all\<close> then stops all of them.
\<close>

theorem x86_enable_selects:
  assumes "kernel_ok K" "x86_recorder_new A K [] = (r, tr)"
  shows "counting (x86_enable r cset (switch_all r sets tr)) = selected r cset \<and>
    counting (x86_disable_all r (x86_enable r cset (switch_all r sets tr))) = {}"
proof -
  have c: "counting tr = {}" using recorder_new_ok [OF assms] by simp
  then have "counting (switch_all r sets tr) \<subseteq> leader (core r) \<union> leader (l1d r) \<union> leader (llc r)"
    by (auto simp: switch_all_counting selected_def split: if_splits)
  then have s: "counting (x86_enable r cset (switch_all r sets tr)) = selected r cset"
    by (auto simp: enable_all_counting)
  then show ?thesis
    by (auto simp: x86_disable_all_def disable_counting selected_def split: if_splits)
qed

theorem x86_enable_selects_witness:
  "counting (x86_enable (fst demo_new) core_set (switch_all (fst demo_new) [cache_set] (snd demo_new))) = {3}"
proof -
  have "x86_recorder_new demo_abi demo_kernel [] = (fst demo_new, snd demo_new)" by (simp add: demo_new_def)
  from x86_enable_selects [OF demo_kernel_ok this, of core_set "[cache_set]"]
  show ?thesis by (simp add: selected_def leader_def demo_new_eq)
qed

text \<open>
  The two sets of counters do not interfere: a core measurement leaves the cache counters 0
  and the reverse, so adding the two gives a record with the fields of each.
\<close>

theorem x86_counters_disjoint:
  fixes K r tr tr'
  defines "c \<equiv> x86_get_counters K r core_set tr" and "d \<equiv> x86_get_counters K r cache_set tr'"
  shows "pc_add_assign c d = pc_add_assign d c \<and> cycles (pc_add_assign c d) = cycles c \<and>
    instructions (pc_add_assign c d) = instructions c \<and> branches (pc_add_assign c d) = branches c \<and>
    missed_branches (pc_add_assign c d) = missed_branches c \<and>
    l1d_misses (pc_add_assign c d) = l1d_misses d \<and> llc_misses (pc_add_assign c d) = llc_misses d"
  by (simp add: c_def d_def x86_get_counters_def core_read_def pc_add_assign_def pc_zero_def Let_def split_def)

end
