(* ===== verification/Perf_Arm.thy ===== *)
theory Perf_Arm
  imports Perf
begin

text \<open>
  The Apple recorder of \<^verbatim>\<open>src/measure_arm.cpp\<close>: the loader of the two private
  frameworks with its static state, the error texts, the event lookup, the recorder's constructor
  and its reading. The dynamic linker and the frameworks are parameters; a pointer is a natural
  number and \<open>None\<close> the null pointer.
\<close>

section \<open>Error descriptions\<close>

definition KPEP_CONFIG_ERROR_MAX :: int where
  "KPEP_CONFIG_ERROR_MAX = 16"

definition kpep_config_error_names :: "string list" where
  "kpep_config_error_names =
     [''none'', ''invalid argument'', ''out of memory'', ''I/O'', ''buffer too small'',
      ''current system unknown'', ''database path invalid'', ''database not found'',
      ''database architecture unsupported'', ''database version unsupported'', ''database corrupt'',
      ''event not found'', ''conflicting events'', ''all counters must be forced'',
      ''event unavailable'', ''check errno'']"

definition kpep_config_error_desc :: "int \<Rightarrow> string" where
  "kpep_config_error_desc code =
     (if 0 \<le> code \<and> code < KPEP_CONFIG_ERROR_MAX then kpep_config_error_names ! nat code
      else ''unknown error'')"

section \<open>The loader\<close>

definition lib_symbols_kperf :: "string list" where
  "lib_symbols_kperf =
     [''kpc_pmu_version'', ''kpc_cpu_string'', ''kpc_set_counting'', ''kpc_get_counting'',
      ''kpc_set_thread_counting'', ''kpc_get_thread_counting'', ''kpc_get_config_count'',
      ''kpc_get_counter_count'', ''kpc_set_config'', ''kpc_get_config'', ''kpc_get_cpu_counters'',
      ''kpc_get_thread_counters'', ''kpc_force_all_ctrs_set'', ''kpc_force_all_ctrs_get'',
      ''kperf_action_count_set'', ''kperf_action_count_get'', ''kperf_action_samplers_set'',
      ''kperf_action_samplers_get'', ''kperf_action_filter_set_by_task'',
      ''kperf_action_filter_set_by_pid'', ''kperf_timer_count_set'', ''kperf_timer_count_get'',
      ''kperf_timer_period_set'', ''kperf_timer_period_get'', ''kperf_timer_action_set'',
      ''kperf_timer_action_get'', ''kperf_sample_set'', ''kperf_sample_get'', ''kperf_reset'',
      ''kperf_timer_pet_set'', ''kperf_timer_pet_get'', ''kperf_ns_to_ticks'',
      ''kperf_ticks_to_ns'', ''kperf_tick_frequency'']"

definition lib_symbols_kperfdata :: "string list" where
  "lib_symbols_kperfdata =
     [''kpep_config_create'', ''kpep_config_free'', ''kpep_config_add_event'',
      ''kpep_config_remove_event'', ''kpep_config_force_counters'', ''kpep_config_events_count'',
      ''kpep_config_events'', ''kpep_config_kpc'', ''kpep_config_kpc_count'',
      ''kpep_config_kpc_classes'', ''kpep_config_kpc_map'', ''kpep_db_create'', ''kpep_db_free'',
      ''kpep_db_name'', ''kpep_db_aliases_count'', ''kpep_db_aliases'', ''kpep_db_counters_count'',
      ''kpep_db_events_count'', ''kpep_db_events'', ''kpep_db_event'', ''kpep_event_name'',
      ''kpep_event_alias'', ''kpep_event_description'']"

definition lib_path_kperf :: string where
  "lib_path_kperf = ''/System/Library/PrivateFrameworks/kperf.framework/kperf''"

definition lib_path_kperfdata :: string where
  "lib_path_kperfdata = ''/System/Library/PrivateFrameworks/kperfdata.framework/kperfdata''"

text \<open>The dynamic linker.\<close>

record linker =
  dlopen :: "string \<Rightarrow> nat option"
  dlsym :: "nat \<Rightarrow> string \<Rightarrow> nat option"
  dlerror :: string

text \<open>The static variables, the function pointers by name, and the handles opened and closed so far.\<close>

record lib_state =
  lib_inited :: bool
  lib_has_err :: bool
  lib_err_msg :: string
  lib_handle_kperf :: "nat option"
  lib_handle_kperfdata :: "nat option"
  impl :: "string \<rightharpoonup> nat"
  dl_opened :: "nat list"
  dl_closed :: "nat list"

definition lib_start :: lib_state where
  "lib_start = \<lparr>lib_inited = False, lib_has_err = False, lib_err_msg = '''', lib_handle_kperf = None,
     lib_handle_kperfdata = None, impl = Map.empty, dl_opened = [], dl_closed = []\<rparr>"

definition dlclose :: "nat option \<Rightarrow> lib_state \<Rightarrow> lib_state" where
  "dlclose h st = (case h of None \<Rightarrow> st | Some p \<Rightarrow> st\<lparr>dl_closed := dl_closed st @ [p]\<rparr>)"

fun null_symbols :: "string list \<Rightarrow> lib_state \<Rightarrow> lib_state" where
  "null_symbols [] st = st"
| "null_symbols (n # ns) st = null_symbols ns (st\<lparr>impl := (impl st)(n := None)\<rparr>)"

definition lib_deinit :: "lib_state \<Rightarrow> lib_state" where
  "lib_deinit st =
     (let st = st\<lparr>lib_inited := False, lib_has_err := False\<rparr>;
          st = dlclose (lib_handle_kperf st) st;
          st = dlclose (lib_handle_kperfdata st) st;
          st = st\<lparr>lib_handle_kperf := None, lib_handle_kperfdata := None\<rparr>;
          st = null_symbols lib_symbols_kperf st
      in null_symbols lib_symbols_kperfdata st)"

text \<open>\<open>snprintf\<close> into the 256-byte buffer keeps at most 255 characters.\<close>

definition set_err_msg :: "string \<Rightarrow> lib_state \<Rightarrow> lib_state" where
  "set_err_msg msg st = st\<lparr>lib_err_msg := take 255 msg\<rparr>"

definition return_err :: "lib_state \<Rightarrow> bool \<times> lib_state" where
  "return_err st = (False, (lib_deinit st)\<lparr>lib_inited := True, lib_has_err := True\<rparr>)"

text \<open>One of the two symbol loops: \<open>False\<close> at the first symbol that is missing.\<close>

fun load_symbols :: "linker \<Rightarrow> nat \<Rightarrow> string \<Rightarrow> string list \<Rightarrow> lib_state \<Rightarrow> bool \<times> lib_state" where
  "load_symbols L handle what [] st = (True, st)"
| "load_symbols L handle what (n # ns) st =
     (let st = st\<lparr>impl := (impl st)(n := dlsym L handle n)\<rparr>
      in if dlsym L handle n = None
         then (False, set_err_msg (''Failed to load '' @ what @ '' function: '' @ n @ ''.'') st)
         else load_symbols L handle what ns st)"

definition lib_init :: "linker \<Rightarrow> lib_state \<Rightarrow> bool \<times> lib_state" where
  "lib_init L st =
     (if lib_inited st then (\<not> lib_has_err st, st)
      else case dlopen L lib_path_kperf of
        None \<Rightarrow> return_err (set_err_msg
          (''Failed to load kperf.framework, message: '' @ dlerror L @ ''.'') (st\<lparr>lib_handle_kperf := None\<rparr>))
      | Some h1 \<Rightarrow>
          (let st = st\<lparr>lib_handle_kperf := Some h1, dl_opened := dl_opened st @ [h1]\<rparr>
           in case dlopen L lib_path_kperfdata of
             None \<Rightarrow> return_err (set_err_msg
               (''Failed to load kperfdata.framework, message: '' @ dlerror L @ ''.'') (st\<lparr>lib_handle_kperfdata := None\<rparr>))
           | Some h2 \<Rightarrow>
               (let st = st\<lparr>lib_handle_kperfdata := Some h2, dl_opened := dl_opened st @ [h2]\<rparr>;
                    (good1, st) = load_symbols L h1 ''kperf'' lib_symbols_kperf st
                in if \<not> good1 then return_err st
                   else
                     let (good2, st) = load_symbols L h2 ''kperfdata'' lib_symbols_kperfdata st
                     in if \<not> good2 then return_err st
                        else (True, st\<lparr>lib_inited := True, lib_has_err := False\<rparr>))))"

section \<open>Events\<close>

record event_alias =
  ev_alias :: string
  ev_names :: "string list"

definition EVENT_NAME_MAX :: nat where
  "EVENT_NAME_MAX = 8"

definition profile_events :: "event_alias list" where
  "profile_events =
     [\<lparr>ev_alias = ''cycles'',
        ev_names = [''FIXED_CYCLES'', ''CPU_CLK_UNHALTED.THREAD'', ''CPU_CLK_UNHALTED.CORE'']\<rparr>,
      \<lparr>ev_alias = ''instructions'', ev_names = [''FIXED_INSTRUCTIONS'', ''INST_RETIRED.ANY'']\<rparr>,
      \<lparr>ev_alias = ''branches'',
        ev_names = [''INST_BRANCH'', ''BR_INST_RETIRED.ALL_BRANCHES'', ''INST_RETIRED.ANY'']\<rparr>,
      \<lparr>ev_alias = ''branch-misses'',
        ev_names = [''BRANCH_MISPRED_NONSPEC'', ''BRANCH_MISPREDICT'', ''BR_MISP_RETIRED.ALL_BRANCHES'',
          ''BR_INST_RETIRED.MISPRED'']\<rparr>]"

text \<open>
  \<open>get_event\<close>: the loop over \<open>alias->names\<close>, which ends at the first null name or at
  \<open>EVENT_NAME_MAX\<close>. \<open>db_event name\<close> is the return code of \<open>kpep_db_event\<close> and the
  pointer it stores.
\<close>

fun get_event_loop :: "(string \<Rightarrow> int \<times> nat option) \<Rightarrow> string list \<Rightarrow> nat option" where
  "get_event_loop db_event [] = None"
| "get_event_loop db_event (name # rest) =
     (case db_event name of (ret, ev) \<Rightarrow> if ret = 0 then ev else get_event_loop db_event rest)"

definition get_event :: "(string \<Rightarrow> int \<times> nat option) \<Rightarrow> event_alias \<Rightarrow> nat option" where
  "get_event db_event al = get_event_loop db_event (take EVENT_NAME_MAX (ev_names al))"

section \<open>The recorder\<close>

definition KPC_MAX_COUNTERS :: nat where "KPC_MAX_COUNTERS = 32"
definition KPC_CLASS_CONFIGURABLE_MASK :: u32 where "KPC_CLASS_CONFIGURABLE_MASK = push_bit 1 1"

text \<open>The frameworks: a return code and what is stored through the out parameter.\<close>

record kperf =
  force_all_ctrs_get :: int
  db_create :: int
  db_event :: "string \<Rightarrow> int \<times> nat option"
  config_create :: int
  config_force_counters :: int
  config_add_event :: "nat list \<Rightarrow> nat \<Rightarrow> int"
  config_kpc_classes :: "nat list \<Rightarrow> int \<times> u32"
  config_kpc_count :: "nat list \<Rightarrow> int \<times> nat"
  config_kpc_map :: "nat list \<Rightarrow> int \<times> nat list"
  config_kpc :: "nat list \<Rightarrow> int \<times> u64 list"
  force_all_ctrs_set :: int
  kpc_set_config :: "u32 \<Rightarrow> u64 list \<Rightarrow> int"
  kpc_set_counting :: "u32 \<Rightarrow> int"
  kpc_set_thread_counting :: "u32 \<Rightarrow> int"
  kpc_get_thread_counters :: "int \<times> u64 list"

text \<open>The calls that change the kernel's counter configuration.\<close>

datatype kcall = Force_all int | Set_config u32 "u64 list" | Set_counting u32 | Set_thread_counting u32

record arm_recorder =
  regs :: "u64 list"
  counter_map :: "nat list"

definition dec_int :: "int \<Rightarrow> string" where
  "dec_int i = (if i < 0 then ''-'' @ dec_digits (nat (- i)) else dec_digits (nat i))"

definition ret_desc :: "string \<Rightarrow> int \<Rightarrow> string" where
  "ret_desc what ret = what @ dec_int ret @ '' ('' @ kpep_config_error_desc ret @ '').''"

fun get_events :: "kperf \<Rightarrow> event_alias list \<Rightarrow> string + nat list" where
  "get_events F [] = Inr []"
| "get_events F (al # als) =
     (case get_event (db_event F) al of
        None \<Rightarrow> Inl (''Cannot find event: '' @ ev_alias al @ ''.'')
      | Some ev \<Rightarrow> (case get_events F als of Inl m \<Rightarrow> Inl m | Inr evs \<Rightarrow> Inr (ev # evs)))"

fun add_events :: "kperf \<Rightarrow> nat list \<Rightarrow> nat list \<Rightarrow> string + nat list" where
  "add_events F [] cfg = Inr cfg"
| "add_events F (ev # evs) cfg =
     (let ret = config_add_event F cfg ev
      in if ret \<noteq> 0 then Inl (ret_desc ''Failed to add event: '' ret)
         else add_events F evs (cfg @ [ev]))"

text \<open>Filling a zeroed array of \<open>KPC_MAX_COUNTERS\<close> elements.\<close>

definition fill32 :: "'a \<Rightarrow> 'a list \<Rightarrow> 'a list" where
  "fill32 z xs = take KPC_MAX_COUNTERS xs @ replicate (KPC_MAX_COUNTERS - length xs) z"

text \<open>The last part of the constructor, once the configuration \<open>cfg\<close> is complete.\<close>

definition arm_configure :: "kperf \<Rightarrow> nat list \<Rightarrow> (string + arm_recorder) \<times> kcall list" where
  "arm_configure F cfg =
     (let (r1, classes) = config_kpc_classes F cfg in
      if r1 \<noteq> 0 then (Inl (ret_desc ''Failed get kpc classes: '' r1), []) else
      let (r2, reg_count) = config_kpc_count F cfg in
      if r2 \<noteq> 0 then (Inl (ret_desc ''Failed get kpc count: '' r2), []) else
      let (r3, cmap) = config_kpc_map F cfg in
      if r3 \<noteq> 0 then (Inl (ret_desc ''Failed get kpc map: '' r3), []) else
      let (r4, rs) = config_kpc F cfg in
      if r4 \<noteq> 0 then (Inl (ret_desc ''Failed get kpc registers: '' r4), []) else
      let rs = fill32 0 rs; cmap = fill32 0 cmap; r5 = force_all_ctrs_set F; calls = [Force_all 1] in
      if r5 \<noteq> 0 then (Inl (''Failed force all ctrs: '' @ dec_int r5 @ ''.''), calls) else
      let cond = (classes AND KPC_CLASS_CONFIGURABLE_MASK \<noteq> 0 \<and> reg_count \<noteq> 0);
          r6 = (if cond then kpc_set_config F classes rs else 0);
          calls = (if cond then calls @ [Set_config classes rs] else calls) in
      if r6 \<noteq> 0 then (Inl (''Failed set kpc config: '' @ dec_int r6 @ ''.''), calls) else
      let r7 = kpc_set_counting F classes; calls = calls @ [Set_counting classes] in
      if r7 \<noteq> 0 then (Inl (''Failed set counting: '' @ dec_int r7 @ ''.''), calls) else
      let r8 = kpc_set_thread_counting F classes; calls = calls @ [Set_thread_counting classes] in
      if r8 \<noteq> 0 then (Inl (''Failed set thread counting: '' @ dec_int r8 @ ''.''), calls)
      else (Inr \<lparr>regs = rs, counter_map = cmap\<rparr>, calls))"

text \<open>\<open>ArmRecorder::ArmRecorder\<close>; \<open>Inl\<close> is the message printed before \<open>exit(1)\<close>.\<close>

definition arm_recorder_new ::
  "linker \<Rightarrow> kperf \<Rightarrow> lib_state \<Rightarrow> (string + arm_recorder) \<times> kcall list \<times> lib_state" where
  "arm_recorder_new L F st =
     (let (inited, st) = lib_init L st in
      if \<not> inited then (Inl (''Error: '' @ lib_err_msg st), [], st) else
      if force_all_ctrs_get F \<noteq> 0
      then (Inl ''Permission denied, xnu/kpc requires root privileges.'', [], st) else
      if db_create F \<noteq> 0
      then (Inl (''Error: cannot load pmc database: '' @ dec_int (db_create F) @ ''.''), [], st) else
      if config_create F \<noteq> 0
      then (Inl (ret_desc ''Failed to create kpep config: '' (config_create F)), [], st) else
      if config_force_counters F \<noteq> 0
      then (Inl (ret_desc ''Failed to force counters: '' (config_force_counters F)), [], st) else
      case get_events F profile_events of
        Inl m \<Rightarrow> (Inl m, [], st)
      | Inr evs \<Rightarrow>
          (case add_events F evs [] of
             Inl m \<Rightarrow> (Inl m, [], st)
           | Inr cfg \<Rightarrow> (let (r, calls) = arm_configure F cfg in (r, calls, st))))"

text \<open>
  \<open>get_counters\<close>, with the static \<open>warned\<close> and the line printed at most once. A mapped index
  outside \<open>counters_0\<close> is a read out of bounds, \<open>None\<close>.
\<close>

definition counter_at :: "u64 list \<Rightarrow> nat list \<Rightarrow> nat \<Rightarrow> u64 option" where
  "counter_at cs cmap i = (if cmap ! i < KPC_MAX_COUNTERS then Some (cs ! (cmap ! i)) else None)"

definition arm_get_counters ::
  "kperf \<Rightarrow> arm_recorder \<Rightarrow> bool \<Rightarrow> perf_counters option \<times> bool \<times> string list" where
  "arm_get_counters F r warned =
     (let (ret, cs) = kpc_get_thread_counters F in
      if ret \<noteq> 0
      then (Some pc_zero, True,
            if \<not> warned then [''Failed get thread counters before: '' @ dec_int ret @ ''.''] else [])
      else
        let cs = fill32 0 cs; m = counter_map r in
        (Option.bind (counter_at cs m 0) (\<lambda>c.
         Option.bind (counter_at cs m 2) (\<lambda>b.
         Option.bind (counter_at cs m 3) (\<lambda>bm.
         Option.bind (counter_at cs m 1) (\<lambda>i.
           Some (pc_make c b bm i 0 0 0 0))))), warned, []))"

section \<open>The loader's lemmas\<close>

lemma symbols_disjoint: "n \<in> set lib_symbols_kperf \<Longrightarrow> n \<notin> set lib_symbols_kperfdata"
proof -
  have "\<forall>n \<in> set lib_symbols_kperf. take 4 n \<noteq> ''kpep''" by (simp add: lib_symbols_kperf_def)
  moreover have "\<forall>n \<in> set lib_symbols_kperfdata. take 4 n = ''kpep''" by (simp add: lib_symbols_kperfdata_def)
  ultimately show "n \<in> set lib_symbols_kperf \<Longrightarrow> n \<notin> set lib_symbols_kperfdata" by blast
qed

lemma impl_cong: "(\<And>n. f n = g n) \<Longrightarrow> st\<lparr>impl := f\<rparr> = st\<lparr>impl := g\<rparr>"
  by (metis ext)

lemma null_symbols_eq: "null_symbols ns st = st\<lparr>impl := \<lambda>n. if n \<in> set ns then None else impl st n\<rparr>"
  by (induction ns arbitrary: st) (auto intro!: impl_cong)

lemma deinit_eq:
  "lib_deinit st = st\<lparr>lib_inited := False, lib_has_err := False, lib_handle_kperf := None,
     lib_handle_kperfdata := None,
     impl := \<lambda>n. if n \<in> set lib_symbols_kperf \<union> set lib_symbols_kperfdata then None else impl st n,
     dl_closed := dl_closed st @ (case lib_handle_kperf st of None \<Rightarrow> [] | Some h \<Rightarrow> [h]) @
       (case lib_handle_kperfdata st of None \<Rightarrow> [] | Some h \<Rightarrow> [h])\<rparr>"
proof -
  have "lib_deinit st = st\<lparr>lib_inited := False, lib_has_err := False, lib_handle_kperf := None,
     lib_handle_kperfdata := None,
     dl_closed := dl_closed st @ (case lib_handle_kperf st of None \<Rightarrow> [] | Some h \<Rightarrow> [h]) @
       (case lib_handle_kperfdata st of None \<Rightarrow> [] | Some h \<Rightarrow> [h])\<rparr>\<lparr>impl := \<lambda>n.
       if n \<in> set lib_symbols_kperfdata then None else if n \<in> set lib_symbols_kperf then None else impl st n\<rparr>"
    by (simp add: lib_deinit_def Let_def dlclose_def null_symbols_eq cong: if_cong split: option.splits)
  also have "(\<lambda>n. if n \<in> set lib_symbols_kperfdata then None else if n \<in> set lib_symbols_kperf then None else impl st n) =
      (\<lambda>n. if n \<in> set lib_symbols_kperf \<union> set lib_symbols_kperfdata then None else impl st n)" by auto
  finally show ?thesis by simp
qed

lemma load_symbols_all:
  "\<forall>n \<in> set ns. dlsym L h n \<noteq> None \<Longrightarrow>
   load_symbols L h w ns st = (True, st\<lparr>impl := \<lambda>n. if n \<in> set ns then dlsym L h n else impl st n\<rparr>)"
  by (induction ns arbitrary: st) (auto simp: Let_def intro!: impl_cong)

lemma load_symbols_missing:
  assumes "\<not> (\<forall>n \<in> set ns. dlsym L h n \<noteq> None)"
  shows "\<exists>m i. load_symbols L h w ns st = (False, st\<lparr>lib_err_msg := m, impl := i\<rparr>) \<and>
    (\<forall>n. n \<notin> set ns \<longrightarrow> i n = impl st n)"
  using assms
proof (induction ns arbitrary: st)
  case (Cons n ns)
  show ?case
  proof (cases "dlsym L h n")
    case None
    have "\<exists>m. set_err_msg x (st\<lparr>impl := i\<rparr>) = st\<lparr>lib_err_msg := m, impl := i\<rparr>" for x i
      by (rule exI [of _ "take 255 x"]) (simp add: set_err_msg_def)
    then obtain m where m: "set_err_msg (''Failed to load '' @ w @ '' function: '' @ n @ ''.'')
        (st\<lparr>impl := (impl st)(n := None)\<rparr>) = st\<lparr>lib_err_msg := m, impl := (impl st)(n := None)\<rparr>" by metis
    have "load_symbols L h w (n # ns) st = (False, st\<lparr>lib_err_msg := m, impl := (impl st)(n := None)\<rparr>)"
      by (simp only: load_symbols.simps Let_def None if_True m simp_thms)
    moreover have "\<forall>k. k \<notin> set (n # ns) \<longrightarrow> ((impl st)(n := None)) k = impl st k" by simp
    ultimately show ?thesis by (intro exI conjI)
  next
    case (Some a)
    let ?st = "st\<lparr>impl := (impl st)(n := Some a)\<rparr>"
    have "\<not> (\<forall>n \<in> set ns. dlsym L h n \<noteq> None)" using Cons.prems Some by simp
    from Cons.IH [OF this, of ?st] obtain m i where mi: "load_symbols L h w ns ?st = (False, ?st\<lparr>lib_err_msg := m, impl := i\<rparr>)"
      "\<forall>n. n \<notin> set ns \<longrightarrow> i n = impl ?st n" by blast
    have "load_symbols L h w (n # ns) st = load_symbols L h w ns ?st"
      by (simp only: load_symbols.simps Let_def Some option.distinct if_False)
    then have "load_symbols L h w (n # ns) st = (False, st\<lparr>lib_err_msg := m, impl := i\<rparr>)"
      using mi(1) by simp
    moreover have "\<forall>k. k \<notin> set (n # ns) \<longrightarrow> i k = impl st k" using mi(2) by simp
    ultimately show ?thesis by (intro exI conjI)
  qed
qed simp

definition all_symbols :: "linker \<Rightarrow> nat \<Rightarrow> nat \<Rightarrow> bool" where
  "all_symbols L h1 h2 \<longleftrightarrow> (\<forall>n \<in> set lib_symbols_kperf. dlsym L h1 n \<noteq> None) \<and>
     (\<forall>n \<in> set lib_symbols_kperfdata. dlsym L h2 n \<noteq> None)"

text \<open>What a failed initialisation leaves behind: no pointer, no handle, everything opened closed.\<close>

definition lib_clean :: "lib_state \<Rightarrow> bool" where
  "lib_clean st \<longleftrightarrow> lib_inited st \<and> lib_has_err st \<and> impl st = Map.empty \<and>
     lib_handle_kperf st = None \<and> lib_handle_kperfdata st = None \<and> dl_closed st = dl_opened st"

lemma return_err_clean:
  assumes "\<forall>n. n \<notin> set lib_symbols_kperf \<union> set lib_symbols_kperfdata \<longrightarrow> impl st n = None"
    and "dl_closed st @ (case lib_handle_kperf st of None \<Rightarrow> [] | Some h \<Rightarrow> [h]) @
       (case lib_handle_kperfdata st of None \<Rightarrow> [] | Some h \<Rightarrow> [h]) = dl_opened st"
  shows "\<not> fst (return_err st) \<and> lib_clean (snd (return_err st))"
  using assms by (auto simp: return_err_def deinit_eq lib_clean_def restrict_map_def fun_eq_iff)

lemma lib_init_cached: "lib_inited st \<Longrightarrow> lib_init L st = (\<not> lib_has_err st, st)"
  by (simp add: lib_init_def)

lemma lib_init_start:
  "case lib_init L lib_start of (r, st) \<Rightarrow>
     if r then \<exists>h1 h2. dlopen L lib_path_kperf = Some h1 \<and> dlopen L lib_path_kperfdata = Some h2 \<and>
        all_symbols L h1 h2 \<and> lib_inited st \<and> \<not> lib_has_err st \<and> dl_closed st = [] \<and>
        (\<forall>n \<in> set lib_symbols_kperf. impl st n = dlsym L h1 n) \<and>
        (\<forall>n \<in> set lib_symbols_kperfdata. impl st n = dlsym L h2 n)
     else (\<forall>h1 h2. dlopen L lib_path_kperf = Some h1 \<and> dlopen L lib_path_kperfdata = Some h2 \<longrightarrow>
        \<not> all_symbols L h1 h2) \<and> lib_clean st"
proof (cases "dlopen L lib_path_kperf")
  case None
  let ?s = "set_err_msg (''Failed to load kperf.framework, message: '' @ dlerror L @ ''.'')
    (lib_start\<lparr>lib_handle_kperf := None\<rparr>)"
  have "lib_init L lib_start = return_err ?s" by (simp add: lib_init_def None lib_start_def)
  moreover have "\<not> fst (return_err ?s) \<and> lib_clean (snd (return_err ?s))"
    by (rule return_err_clean) (simp_all add: set_err_msg_def lib_start_def)
  ultimately show ?thesis using None by (simp add: split_def)
next
  case h1: (Some h1)
  show ?thesis
  proof (cases "dlopen L lib_path_kperfdata")
    case None
    let ?s = "set_err_msg (''Failed to load kperfdata.framework, message: '' @ dlerror L @ ''.'')
      (lib_start\<lparr>lib_handle_kperf := Some h1, dl_opened := [h1], lib_handle_kperfdata := None\<rparr>)"
    have "lib_init L lib_start = return_err ?s" by (simp add: lib_init_def None h1 lib_start_def Let_def)
    moreover have "\<not> fst (return_err ?s) \<and> lib_clean (snd (return_err ?s))"
      by (rule return_err_clean) (simp_all add: set_err_msg_def lib_start_def)
    ultimately show ?thesis using None by (simp add: split_def)
  next
    case h2: (Some h2)
    let ?s = "lib_start\<lparr>lib_handle_kperf := Some h1, dl_opened := [h1, h2], lib_handle_kperfdata := Some h2\<rparr>"
    have init: "lib_init L lib_start = (case load_symbols L h1 ''kperf'' lib_symbols_kperf ?s of
        (good1, st) \<Rightarrow> if \<not> good1 then return_err st
          else (case load_symbols L h2 ''kperfdata'' lib_symbols_kperfdata st of
            (good2, st) \<Rightarrow> if \<not> good2 then return_err st
              else (True, st\<lparr>lib_inited := True, lib_has_err := False\<rparr>)))"
      by (simp add: lib_init_def h1 h2 lib_start_def Let_def split_def)
    show ?thesis
    proof (cases "\<forall>n \<in> set lib_symbols_kperf. dlsym L h1 n \<noteq> None")
      case False
      from load_symbols_missing [OF this, of "''kperf''" ?s] obtain m i where
        l: "load_symbols L h1 ''kperf'' lib_symbols_kperf ?s = (False, ?s\<lparr>lib_err_msg := m, impl := i\<rparr>)"
        "\<forall>n. n \<notin> set lib_symbols_kperf \<longrightarrow> i n = impl ?s n" by blast
      have "\<not> fst (return_err (?s\<lparr>lib_err_msg := m, impl := i\<rparr>)) \<and>
          lib_clean (snd (return_err (?s\<lparr>lib_err_msg := m, impl := i\<rparr>)))"
        using l(2) by (intro return_err_clean) (simp_all add: lib_start_def)
      moreover have "lib_init L lib_start = return_err (?s\<lparr>lib_err_msg := m, impl := i\<rparr>)"
        unfolding init l(1) by simp
      moreover have "\<not> all_symbols L h1 h2" using False by (simp add: all_symbols_def)
      ultimately show ?thesis using h1 h2 by (simp only: split_def if_False) simp
    next
      case True
      let ?i1 = "\<lambda>n. if n \<in> set lib_symbols_kperf then dlsym L h1 n else impl ?s n"
      let ?s1 = "?s\<lparr>impl := ?i1\<rparr>"
      note l1 = load_symbols_all [OF True, of "''kperf''" ?s]
      show ?thesis
      proof (cases "\<forall>n \<in> set lib_symbols_kperfdata. dlsym L h2 n \<noteq> None")
        case False
        from load_symbols_missing [OF this, of "''kperfdata''" ?s1] obtain m i where
          l: "load_symbols L h2 ''kperfdata'' lib_symbols_kperfdata ?s1 = (False, ?s1\<lparr>lib_err_msg := m, impl := i\<rparr>)"
          "\<forall>n. n \<notin> set lib_symbols_kperfdata \<longrightarrow> i n = impl ?s1 n" by blast
        have "\<not> fst (return_err (?s1\<lparr>lib_err_msg := m, impl := i\<rparr>)) \<and>
            lib_clean (snd (return_err (?s1\<lparr>lib_err_msg := m, impl := i\<rparr>)))"
          using l(2) by (intro return_err_clean) (simp_all add: lib_start_def)
        moreover have "lib_init L lib_start = return_err (?s1\<lparr>lib_err_msg := m, impl := i\<rparr>)"
          unfolding init l1 using l(1) by simp
        moreover have "\<not> all_symbols L h1 h2" using False by (simp add: all_symbols_def)
        ultimately show ?thesis using h1 h2 by (simp only: split_def if_False) simp
      next
        case both: True
        note l2 = load_symbols_all [OF both, of "''kperfdata''" ?s1]
        have "lib_init L lib_start = (True, ?s1\<lparr>impl := \<lambda>n. if n \<in> set lib_symbols_kperfdata then dlsym L h2 n
            else ?i1 n, lib_inited := True, lib_has_err := False\<rparr>)"
          unfolding init l1 using l2 by (simp cong: if_cong)
        then show ?thesis using h1 h2 True both symbols_disjoint
          by (auto simp: all_symbols_def lib_start_def)
      qed
    qed
  qed
qed

section \<open>The recorder's lemmas\<close>

lemma get_event_first:
  "get_event_loop ask ns = Some ev \<Longrightarrow>
   \<exists>i<length ns. ask (ns ! i) = (0, Some ev) \<and> (\<forall>j<i. fst (ask (ns ! j)) \<noteq> 0)"
proof (induction ns)
  case (Cons n ns)
  obtain ret e where a: "ask n = (ret, e)" by fastforce
  show ?case
  proof (cases "ret = 0")
    case True
    then show ?thesis using Cons.prems a by (intro exI [of _ 0]) simp
  next
    case False
    then obtain i where i: "i < length ns" "ask (ns ! i) = (0, Some ev)" "\<forall>j<i. fst (ask (ns ! j)) \<noteq> 0"
      using Cons a by auto
    then have "\<forall>j<Suc i. fst (ask ((n # ns) ! j)) \<noteq> 0" using False a by (auto simp: nth_Cons split: nat.split)
    with i show ?thesis by (intro exI [of _ "Suc i"]) simp
  qed
qed simp

lemma get_events_Inr:
  "get_events F als = Inr evs \<Longrightarrow> map (get_event (db_event F)) als = map Some evs"
  by (induction als arbitrary: evs) (auto split: option.splits sum.splits)

lemma add_events_Inr: "add_events F evs cfg = Inr cfg' \<Longrightarrow> cfg' = cfg @ evs"
proof (induction evs arbitrary: cfg)
  case (Cons ev evs)
  then have "add_events F evs (cfg @ [ev]) = Inr cfg'" by (simp add: Let_def split: if_splits)
  from Cons.IH [OF this] show ?case by simp
qed simp

text \<open>The kernel calls of a complete configuration, in order.\<close>

definition kernel_calls :: "kperf \<Rightarrow> nat list \<Rightarrow> kcall list" where
  "kernel_calls F cfg =
     (let classes = snd (config_kpc_classes F cfg); rs = fill32 0 (snd (config_kpc F cfg))
      in [Force_all 1] @
         (if classes AND KPC_CLASS_CONFIGURABLE_MASK \<noteq> 0 \<and> snd (config_kpc_count F cfg) \<noteq> 0
          then [Set_config classes rs] else []) @
         [Set_counting classes, Set_thread_counting classes])"

lemma configure_calls:
  assumes "arm_configure F cfg = (res, calls)"
  shows "(\<exists>k. calls = take k (kernel_calls F cfg)) \<and> (\<forall>r. res = Inr r \<longrightarrow> calls = kernel_calls F cfg)"
proof -
  have t: "take 0 (x # xs) = []" "take 1 (x # xs) = [x]" "take 2 (x # y # xs) = [x, y]" for x y :: kcall and xs
    by (simp_all add: numeral_2_eq_2)
  have ex: "\<exists>k. [] = take k (kernel_calls F cfg)" by (rule exI [of _ 0]) simp
  show ?thesis
    using assms ex
    by (auto simp: arm_configure_def kernel_calls_def Let_def split_def split: if_splits
        intro: exI [of _ "Suc 0"] exI [of _ "Suc (Suc 0)"] exI [of _ "Suc (Suc (Suc 0))"] exI [of _ "Suc (Suc (Suc (Suc 0)))"])
qed

lemma recorder_new_cases:
  assumes "arm_recorder_new L F st = (res, calls, st')"
  shows "calls = [] \<and> (\<exists>m. res = Inl m) \<or>
    (\<exists>evs. fst (lib_init L st) \<and> map (get_event (db_event F)) profile_events = map Some evs \<and>
      arm_configure F evs = (res, calls))"
proof (cases "fst (lib_init L st) \<and> force_all_ctrs_get F = 0 \<and> db_create F = 0 \<and> config_create F = 0 \<and>
    config_force_counters F = 0")
  case False
  then show ?thesis using assms by (auto simp: arm_recorder_new_def split_def Let_def split: if_splits)
next
  case True
  show ?thesis
  proof (cases "get_events F profile_events")
    case (Inl m)
    then show ?thesis using assms True by (auto simp: arm_recorder_new_def split_def)
  next
    case (Inr evs)
    show ?thesis
    proof (cases "add_events F evs []")
      case (Inl m)
      then show ?thesis using assms True Inr by (auto simp: arm_recorder_new_def split_def)
    next
      case cfg: (Inr cfg)
      then have "cfg = evs" using add_events_Inr [OF cfg] by simp
      then have "arm_configure F evs = (res, calls)"
        using assms True Inr cfg by (simp add: arm_recorder_new_def split_def prod_eq_iff Let_def)
      then show ?thesis using True get_events_Inr [OF Inr] by blast
    qed
  qed
qed

section \<open>Properties\<close>

text \<open>
  C37. Loading the frameworks is all or nothing: \<open>lib_init\<close> succeeds exactly when both
  libraries open and every symbol resolves, and then every function pointer is set; otherwise every
  pointer and handle is null again, every handle that was opened is closed, and a message is left.
  Either way the outcome is cached: a later call changes nothing and returns the same.
\<close>

theorem lib_init_all_or_nothing:
  "(case lib_init L lib_start of (r, st) \<Rightarrow>
     (if r then \<exists>h1 h2. dlopen L lib_path_kperf = Some h1 \<and> dlopen L lib_path_kperfdata = Some h2 \<and>
        all_symbols L h1 h2 \<and> dl_closed st = [] \<and>
        (\<forall>n \<in> set lib_symbols_kperf. impl st n = dlsym L h1 n) \<and>
        (\<forall>n \<in> set lib_symbols_kperfdata. impl st n = dlsym L h2 n)
      else (\<forall>h1 h2. dlopen L lib_path_kperf = Some h1 \<and> dlopen L lib_path_kperfdata = Some h2 \<longrightarrow>
        \<not> all_symbols L h1 h2) \<and> lib_clean st) \<and>
     lib_init L' st = (r, st))"
proof -
  obtain r st where e: "lib_init L lib_start = (r, st)" by fastforce
  have "lib_init L' st = (r, st)"
    using lib_init_start [of L] lib_init_cached [of st L'] by (cases r) (auto simp: e lib_clean_def)
  then show ?thesis using lib_init_start [of L] by (cases r) (auto simp: e)
qed

definition demo_linker :: linker where
  "demo_linker = \<lparr>dlopen = (\<lambda>p. Some 7), dlsym = (\<lambda>h n. Some 8), dlerror = ''''\<rparr>"

theorem lib_init_all_or_nothing_witness:
  "\<exists>st. lib_init demo_linker lib_start = (True, st) \<and> dl_closed st = [] \<and> lib_init demo_linker st = (True, st)"
proof -
  obtain r st where e: "lib_init demo_linker lib_start = (r, st)" by fastforce
  have "all_symbols demo_linker 7 7" by (simp add: all_symbols_def demo_linker_def)
  moreover have "dlopen demo_linker x = Some 7" for x by (simp add: demo_linker_def)
  ultimately show ?thesis
    using lib_init_all_or_nothing [of demo_linker demo_linker] by (cases r) (simp_all add: e)
qed

text \<open>
  The constructor issues the configuration calls to the kernel in a fixed order, for the
  first database event known for each of the four aliases: a recorder is returned only when the
  whole sequence has been issued, an exit leaves a prefix of it (none at all before the
  configuration is complete).
\<close>

theorem arm_recorder_new_calls:
  assumes "arm_recorder_new L F st = (res, calls, st')"
  shows "(\<exists>evs k. calls = take k (kernel_calls F evs)) \<and>
    (case res of
       Inl m \<Rightarrow> True
     | Inr r \<Rightarrow> fst (lib_init L st) \<and> (\<exists>evs. length evs = 4 \<and> calls = kernel_calls F evs \<and>
         (\<forall>i<4. get_event (db_event F) (profile_events ! i) = Some (evs ! i))))"
  using recorder_new_cases [OF assms]
proof (elim disjE exE conjE)
  fix m assume "calls = []" "res = Inl m"
  then show ?thesis by (auto intro: exI [of _ 0])
next
  fix evs
  assume i: "fst (lib_init L st)" and g: "map (get_event (db_event F)) profile_events = map Some evs"
    and c: "arm_configure F evs = (res, calls)"
  have l: "length evs = 4" using g [THEN arg_cong, of length] by (simp add: profile_events_def)
  have "get_event (db_event F) (profile_events ! j) = Some (evs ! j)" if "j < 4" for j
  proof -
    have "map (get_event (db_event F)) profile_events ! j = map Some evs ! j" by (simp only: g)
    moreover have "j < length profile_events" using that by (simp add: profile_events_def)
    ultimately show ?thesis using l that by simp
  qed
  then have "\<exists>evs. length evs = 4 \<and> calls = kernel_calls F evs \<and>
      (\<forall>i<4. get_event (db_event F) (profile_events ! i) = Some (evs ! i))" if "res = Inr b" for b
    using configure_calls [OF c] that l by blast
  moreover have "\<exists>evs k. calls = take k (kernel_calls F evs)" using configure_calls [OF c] by blast
  ultimately show ?thesis using i by (cases res) simp_all
qed

definition field_of :: "string \<Rightarrow> perf_counters \<Rightarrow> u64" where
  "field_of al pc =
     (if al = ''cycles'' then cycles pc else if al = ''instructions'' then instructions pc
      else if al = ''branches'' then branches pc else missed_branches pc)"

text \<open>A machine on which everything succeeds.\<close>

definition demo_kperf :: kperf where
  "demo_kperf = \<lparr>force_all_ctrs_get = 0, db_create = 0, db_event = (\<lambda>n. (0, Some 1)),
     config_create = 0, config_force_counters = 0, config_add_event = (\<lambda>c e. 0),
     config_kpc_classes = (\<lambda>c. (0, 3)), config_kpc_count = (\<lambda>c. (0, 4)),
     config_kpc_map = (\<lambda>c. (0, [0, 1, 2, 3])), config_kpc = (\<lambda>c. (0, [])), force_all_ctrs_set = 0,
     kpc_set_config = (\<lambda>c r. 0), kpc_set_counting = (\<lambda>c. 0), kpc_set_thread_counting = (\<lambda>c. 0),
     kpc_get_thread_counters = (0, [100, 90, 20, 1])\<rparr>"

lemma demo_lib_init: "fst (lib_init demo_linker lib_start)"
proof -
  obtain r st where e: "lib_init demo_linker lib_start = (r, st)" by fastforce
  have "all_symbols demo_linker 7 7" by (simp add: all_symbols_def demo_linker_def)
  moreover have "dlopen demo_linker x = Some 7" for x by (simp add: demo_linker_def)
  ultimately show ?thesis using lib_init_start [of demo_linker] by (cases r) (simp_all add: e)
qed

theorem arm_recorder_new_calls_witness:
  "\<exists>evs calls st'. arm_recorder_new demo_linker demo_kperf lib_start =
      (Inr \<lparr>regs = replicate 32 0, counter_map = [0, 1, 2, 3] @ replicate 28 0\<rparr>, calls, st') \<and>
    length evs = 4 \<and> calls = kernel_calls demo_kperf evs"
proof -
  obtain st' where i: "lib_init demo_linker lib_start = (True, st')" using demo_lib_init by (metis prod.collapse)
  have "get_events demo_kperf profile_events = Inr [1, 1, 1, 1]"
    by (simp add: demo_kperf_def profile_events_def get_event_def EVENT_NAME_MAX_def)
  moreover have "add_events demo_kperf [1, 1, 1, 1] [] = Inr [1, 1, 1, 1]" by (simp add: demo_kperf_def)
  moreover have "\<exists>calls. arm_configure demo_kperf [1, 1, 1, 1] =
      (Inr \<lparr>regs = replicate 32 0, counter_map = [0, 1, 2, 3] @ replicate 28 0\<rparr>, calls)"
    by (simp add: arm_configure_def demo_kperf_def fill32_def KPC_MAX_COUNTERS_def Let_def)
  moreover have "force_all_ctrs_get demo_kperf = 0 \<and> db_create demo_kperf = 0 \<and> config_create demo_kperf = 0 \<and>
      config_force_counters demo_kperf = 0" by (simp add: demo_kperf_def)
  ultimately obtain calls where n: "arm_recorder_new demo_linker demo_kperf lib_start =
      (Inr \<lparr>regs = replicate 32 0, counter_map = [0, 1, 2, 3] @ replicate 28 0\<rparr>, calls, st')"
    by (auto simp: arm_recorder_new_def i)
  from arm_recorder_new_calls [OF n] n show ?thesis by auto
qed

text \<open>
  Every reading puts the counter of the \<open>i\<close>-th profiled event into the field its alias
  names (the constructor arguments are in another order than the events); a failed reading is all
  zeros and is reported once.
\<close>

theorem arm_get_counters_fields:
  assumes "\<forall>j<4. counter_map r ! j < KPC_MAX_COUNTERS"
  shows "case arm_get_counters F r warned of (pc, warned', out) \<Rightarrow>
    (if fst (kpc_get_thread_counters F) = 0
     then warned' = warned \<and> out = [] \<and> (\<exists>c. pc = Some c \<and>
       (\<forall>i<4. field_of (ev_alias (profile_events ! i)) c =
          fill32 0 (snd (kpc_get_thread_counters F)) ! (counter_map r ! i)))
     else pc = Some pc_zero \<and> warned' \<and> (out = [] \<longleftrightarrow> warned))"
proof -
  have b: "counter_map r ! 0 < 32" "counter_map r ! 1 < 32" "counter_map r ! 2 < 32" "counter_map r ! 3 < 32"
    using assms by (auto simp: KPC_MAX_COUNTERS_def)
  have 4: "i < 4 \<longleftrightarrow> i = 0 \<or> i = 1 \<or> i = 2 \<or> i = (3::nat)" for i by auto
  have f: "field_of (ev_alias (profile_events ! 0)) c = cycles c"
    "field_of (ev_alias (profile_events ! Suc 0)) c = instructions c"
    "field_of (ev_alias (profile_events ! 2)) c = branches c"
    "field_of (ev_alias (profile_events ! 3)) c = missed_branches c" for c
    by (simp_all add: field_of_def profile_events_def numeral_2_eq_2 numeral_3_eq_3)
  show ?thesis
  proof (cases "fst (kpc_get_thread_counters F) = 0")
    case True
    then show ?thesis
      using b by (simp add: arm_get_counters_def split_def Let_def counter_at_def KPC_MAX_COUNTERS_def 4 all_conj_distrib
          imp_disjL f pc_make_def)
  next
    case False
    then show ?thesis by (simp add: arm_get_counters_def split_def Let_def)
  qed
qed

theorem arm_get_counters_fields_witness:
  "fst (arm_get_counters demo_kperf \<lparr>regs = [], counter_map = [1, 0, 2, 3]\<rparr> False) \<noteq> None"
proof -
  have "\<forall>j<4. counter_map \<lparr>regs = [], counter_map = [1, 0, 2, 3::nat]\<rparr> ! j < KPC_MAX_COUNTERS"
    by (auto simp: KPC_MAX_COUNTERS_def less_Suc_eq numeral_eq_Suc)
  from arm_get_counters_fields [OF this, of demo_kperf False] show ?thesis
    by (auto split: prod.splits if_splits)
qed

end
