(* ===== verification/Boost_Group.thy ===== *)
theory Boost_Group
  imports Prelude
begin

text \<open>
  The 16-byte metadata group of boost::unordered's open-addressing tables (struct group15 of
  boost_unordered.hpp), in the three variants the header selects from: SSE2, little-endian
  NEON, and the portable one that stores the same bytes bit-interleaved in two 64-bit words.
  Slots 0..14 hold 0 (available), 1 (sentinel) or the reduced hash of the occupant (2..255);
  the 16th byte is the overflow byte.

  A \<open>group_ops\<close> record is the constant \<open>regular_layout\<close>, which the table's iterator reads, and
  the member functions of one variant; the locale
  \<open>group15\<close> states what the tables rely on, through a byte view and an overflow
  view of the group, and each variant is an interpretation of it. Vector registers are lists of
  16 bytes; the intrinsics the code uses are written out lane by lane.
\<close>

section \<open>The member functions of a variant\<close>

record 'g group_ops =
  g_regular_layout :: bool
  g_initialize :: 'g
  g_dummy :: 'g
  g_set :: "'g \<Rightarrow> nat \<Rightarrow> u64 \<Rightarrow> 'g"
  g_set_sentinel :: "'g \<Rightarrow> 'g"
  g_is_sentinel :: "'g \<Rightarrow> nat \<Rightarrow> bool"
  g_reset :: "'g \<Rightarrow> nat \<Rightarrow> 'g"
  g_match :: "'g \<Rightarrow> u64 \<Rightarrow> u32"
  g_is_not_overflowed :: "'g \<Rightarrow> u64 \<Rightarrow> bool"
  g_mark_overflow :: "'g \<Rightarrow> u64 \<Rightarrow> 'g"
  g_maybe_caused_overflow :: "'g \<Rightarrow> nat \<Rightarrow> bool"
  g_match_available :: "'g \<Rightarrow> u32"
  g_is_occupied :: "'g \<Rightarrow> nat \<Rightarrow> bool"
  g_match_occupied :: "'g \<Rightarrow> u32"

definition group_N :: nat where "group_N = 15"

definition available_byte :: u8 where "available_byte = 0"

definition sentinel_byte :: u8 where "sentinel_byte = 1"

section \<open>The vector intrinsics\<close>

type_synonym vec = "u8 list"

definition mm_set1_epi32 :: "u32 \<Rightarrow> vec" where
  "mm_set1_epi32 w = map (\<lambda>i. ucast (drop_bit (8 * (i mod 4)) w)) [0..<16]"

definition mm_cmpeq_epi8 :: "vec \<Rightarrow> vec \<Rightarrow> vec" where
  "mm_cmpeq_epi8 a b = map2 (\<lambda>x y. if x = y then 0xFF else 0) a b"

definition mm_movemask_epi8 :: "vec \<Rightarrow> u32" where
  "mm_movemask_epi8 a = horner_sum of_bool 2 (map (\<lambda>x. bit x 7) a)"

definition vdupq_n_u8 :: "u8 \<Rightarrow> vec" where
  "vdupq_n_u8 x = replicate 16 x"

definition vceqq_u8 :: "vec \<Rightarrow> vec \<Rightarrow> vec" where
  "vceqq_u8 a b = map2 (\<lambda>x y. if x = y then 0xFF else 0) a b"

definition vcgtq_u8 :: "vec \<Rightarrow> vec \<Rightarrow> vec" where
  "vcgtq_u8 a b = map2 (\<lambda>x y. if y < x then 0xFF else 0) a b"

definition vandq_u8 :: "vec \<Rightarrow> vec \<Rightarrow> vec" where
  "vandq_u8 a b = map2 (AND) a b"

text \<open>The zip of the two halves, read as eight 16-bit lanes.\<close>

definition vzip_lanes :: "vec \<Rightarrow> u16 list" where
  "vzip_lanes a = map2 (\<lambda>lo hi. ucast lo + push_bit 8 (ucast hi)) (take 8 a) (drop 8 a)"

definition vaddvq_u16 :: "u16 list \<Rightarrow> u16" where
  "vaddvq_u16 xs = sum_list xs"

section \<open>SSE2\<close>

record bytes_group = meta :: vec

definition match_words :: "u32 list" where
  "match_words = [
    0x08080808, 0x09090909, 0x02020202, 0x03030303, 0x04040404, 0x05050505, 0x06060606, 0x07070707,
    0x08080808, 0x09090909, 0x0A0A0A0A, 0x0B0B0B0B, 0x0C0C0C0C, 0x0D0D0D0D, 0x0E0E0E0E, 0x0F0F0F0F,
    0x10101010, 0x11111111, 0x12121212, 0x13131313, 0x14141414, 0x15151515, 0x16161616, 0x17171717,
    0x18181818, 0x19191919, 0x1A1A1A1A, 0x1B1B1B1B, 0x1C1C1C1C, 0x1D1D1D1D, 0x1E1E1E1E, 0x1F1F1F1F,
    0x20202020, 0x21212121, 0x22222222, 0x23232323, 0x24242424, 0x25252525, 0x26262626, 0x27272727,
    0x28282828, 0x29292929, 0x2A2A2A2A, 0x2B2B2B2B, 0x2C2C2C2C, 0x2D2D2D2D, 0x2E2E2E2E, 0x2F2F2F2F,
    0x30303030, 0x31313131, 0x32323232, 0x33333333, 0x34343434, 0x35353535, 0x36363636, 0x37373737,
    0x38383838, 0x39393939, 0x3A3A3A3A, 0x3B3B3B3B, 0x3C3C3C3C, 0x3D3D3D3D, 0x3E3E3E3E, 0x3F3F3F3F,
    0x40404040, 0x41414141, 0x42424242, 0x43434343, 0x44444444, 0x45454545, 0x46464646, 0x47474747,
    0x48484848, 0x49494949, 0x4A4A4A4A, 0x4B4B4B4B, 0x4C4C4C4C, 0x4D4D4D4D, 0x4E4E4E4E, 0x4F4F4F4F,
    0x50505050, 0x51515151, 0x52525252, 0x53535353, 0x54545454, 0x55555555, 0x56565656, 0x57575757,
    0x58585858, 0x59595959, 0x5A5A5A5A, 0x5B5B5B5B, 0x5C5C5C5C, 0x5D5D5D5D, 0x5E5E5E5E, 0x5F5F5F5F,
    0x60606060, 0x61616161, 0x62626262, 0x63636363, 0x64646464, 0x65656565, 0x66666666, 0x67676767,
    0x68686868, 0x69696969, 0x6A6A6A6A, 0x6B6B6B6B, 0x6C6C6C6C, 0x6D6D6D6D, 0x6E6E6E6E, 0x6F6F6F6F,
    0x70707070, 0x71717171, 0x72727272, 0x73737373, 0x74747474, 0x75757575, 0x76767676, 0x77777777,
    0x78787878, 0x79797979, 0x7A7A7A7A, 0x7B7B7B7B, 0x7C7C7C7C, 0x7D7D7D7D, 0x7E7E7E7E, 0x7F7F7F7F,
    0x80808080, 0x81818181, 0x82828282, 0x83838383, 0x84848484, 0x85858585, 0x86868686, 0x87878787,
    0x88888888, 0x89898989, 0x8A8A8A8A, 0x8B8B8B8B, 0x8C8C8C8C, 0x8D8D8D8D, 0x8E8E8E8E, 0x8F8F8F8F,
    0x90909090, 0x91919191, 0x92929292, 0x93939393, 0x94949494, 0x95959595, 0x96969696, 0x97979797,
    0x98989898, 0x99999999, 0x9A9A9A9A, 0x9B9B9B9B, 0x9C9C9C9C, 0x9D9D9D9D, 0x9E9E9E9E, 0x9F9F9F9F,
    0xA0A0A0A0, 0xA1A1A1A1, 0xA2A2A2A2, 0xA3A3A3A3, 0xA4A4A4A4, 0xA5A5A5A5, 0xA6A6A6A6, 0xA7A7A7A7,
    0xA8A8A8A8, 0xA9A9A9A9, 0xAAAAAAAA, 0xABABABAB, 0xACACACAC, 0xADADADAD, 0xAEAEAEAE, 0xAFAFAFAF,
    0xB0B0B0B0, 0xB1B1B1B1, 0xB2B2B2B2, 0xB3B3B3B3, 0xB4B4B4B4, 0xB5B5B5B5, 0xB6B6B6B6, 0xB7B7B7B7,
    0xB8B8B8B8, 0xB9B9B9B9, 0xBABABABA, 0xBBBBBBBB, 0xBCBCBCBC, 0xBDBDBDBD, 0xBEBEBEBE, 0xBFBFBFBF,
    0xC0C0C0C0, 0xC1C1C1C1, 0xC2C2C2C2, 0xC3C3C3C3, 0xC4C4C4C4, 0xC5C5C5C5, 0xC6C6C6C6, 0xC7C7C7C7,
    0xC8C8C8C8, 0xC9C9C9C9, 0xCACACACA, 0xCBCBCBCB, 0xCCCCCCCC, 0xCDCDCDCD, 0xCECECECE, 0xCFCFCFCF,
    0xD0D0D0D0, 0xD1D1D1D1, 0xD2D2D2D2, 0xD3D3D3D3, 0xD4D4D4D4, 0xD5D5D5D5, 0xD6D6D6D6, 0xD7D7D7D7,
    0xD8D8D8D8, 0xD9D9D9D9, 0xDADADADA, 0xDBDBDBDB, 0xDCDCDCDC, 0xDDDDDDDD, 0xDEDEDEDE, 0xDFDFDFDF,
    0xE0E0E0E0, 0xE1E1E1E1, 0xE2E2E2E2, 0xE3E3E3E3, 0xE4E4E4E4, 0xE5E5E5E5, 0xE6E6E6E6, 0xE7E7E7E7,
    0xE8E8E8E8, 0xE9E9E9E9, 0xEAEAEAEA, 0xEBEBEBEB, 0xECECECEC, 0xEDEDEDED, 0xEEEEEEEE, 0xEFEFEFEF,
    0xF0F0F0F0, 0xF1F1F1F1, 0xF2F2F2F2, 0xF3F3F3F3, 0xF4F4F4F4, 0xF5F5F5F5, 0xF6F6F6F6, 0xF7F7F7F7,
    0xF8F8F8F8, 0xF9F9F9F9, 0xFAFAFAFA, 0xFBFBFBFB, 0xFCFCFCFC, 0xFDFDFDFD, 0xFEFEFEFE, 0xFFFFFFFF]"

definition sse_match_word :: "u64 \<Rightarrow> u32" where
  "sse_match_word hash = match_words ! unat (ucast hash :: u8)"

definition sse_reduced_hash :: "u64 \<Rightarrow> u8" where
  "sse_reduced_hash hash = ucast (sse_match_word hash)"

definition sse_initialize :: bytes_group where
  "sse_initialize = \<lparr> meta = replicate 16 0 \<rparr>"

definition sse_dummy_group :: bytes_group where
  "sse_dummy_group = \<lparr> meta = [0,0,0,0,0,0,0,0,0,0,0,0,0,0,1,0] \<rparr>"

definition sse_set :: "bytes_group \<Rightarrow> nat \<Rightarrow> u64 \<Rightarrow> bytes_group" where
  "sse_set g pos hash = g\<lparr> meta := (meta g)[pos := sse_reduced_hash hash] \<rparr>"

definition sse_set_sentinel :: "bytes_group \<Rightarrow> bytes_group" where
  "sse_set_sentinel g = g\<lparr> meta := (meta g)[group_N - 1 := sentinel_byte] \<rparr>"

definition sse_is_sentinel :: "bytes_group \<Rightarrow> nat \<Rightarrow> bool" where
  "sse_is_sentinel g pos = (meta g ! pos = sentinel_byte)"

definition sse_reset :: "bytes_group \<Rightarrow> nat \<Rightarrow> bytes_group" where
  "sse_reset g pos = g\<lparr> meta := (meta g)[pos := available_byte] \<rparr>"

definition sse_match :: "bytes_group \<Rightarrow> u64 \<Rightarrow> u32" where
  "sse_match g hash =
     mm_movemask_epi8 (mm_cmpeq_epi8 (meta g) (mm_set1_epi32 (sse_match_word hash))) AND 0x7FFF"

definition overflow_shift :: "u8 list" where
  "overflow_shift = [1, 2, 4, 8, 16, 32, 64, 128]"

definition sse_is_not_overflowed :: "bytes_group \<Rightarrow> u64 \<Rightarrow> bool" where
  "sse_is_not_overflowed g hash =
     ((meta g ! group_N) AND overflow_shift ! (unat hash mod 8) = 0)"

definition sse_mark_overflow :: "bytes_group \<Rightarrow> u64 \<Rightarrow> bytes_group" where
  "sse_mark_overflow g hash =
     g\<lparr> meta := (meta g)[group_N := (meta g ! group_N) OR push_bit (unat hash mod 8) 1] \<rparr>"

definition sse_maybe_caused_overflow :: "bytes_group \<Rightarrow> nat \<Rightarrow> bool" where
  "sse_maybe_caused_overflow g pos = (\<not> sse_is_not_overflowed g (ucast (meta g ! pos)))"

definition sse_match_available :: "bytes_group \<Rightarrow> u32" where
  "sse_match_available g =
     mm_movemask_epi8 (mm_cmpeq_epi8 (meta g) (replicate 16 0)) AND 0x7FFF"

definition sse_is_occupied :: "bytes_group \<Rightarrow> nat \<Rightarrow> bool" where
  "sse_is_occupied g pos = (meta g ! pos \<noteq> available_byte)"

definition sse_match_occupied :: "bytes_group \<Rightarrow> u32" where
  "sse_match_occupied g = NOT (sse_match_available g) AND 0x7FFF"

definition sse2_group :: "bytes_group group_ops" where
  "sse2_group = \<lparr>
     g_regular_layout = True,
     g_initialize = sse_initialize, g_dummy = sse_dummy_group, g_set = sse_set,
     g_set_sentinel = sse_set_sentinel, g_is_sentinel = sse_is_sentinel, g_reset = sse_reset,
     g_match = sse_match, g_is_not_overflowed = sse_is_not_overflowed,
     g_mark_overflow = sse_mark_overflow, g_maybe_caused_overflow = sse_maybe_caused_overflow,
     g_match_available = sse_match_available, g_is_occupied = sse_is_occupied,
     g_match_occupied = sse_match_occupied \<rparr>"

section \<open>NEON\<close>

definition neon_table :: "u8 list" where
  "neon_table = [
    8, 9, 2, 3, 4, 5, 6, 7, 8, 9, 10, 11, 12, 13, 14, 15,
    16, 17, 18, 19, 20, 21, 22, 23, 24, 25, 26, 27, 28, 29, 30, 31,
    32, 33, 34, 35, 36, 37, 38, 39, 40, 41, 42, 43, 44, 45, 46, 47,
    48, 49, 50, 51, 52, 53, 54, 55, 56, 57, 58, 59, 60, 61, 62, 63,
    64, 65, 66, 67, 68, 69, 70, 71, 72, 73, 74, 75, 76, 77, 78, 79,
    80, 81, 82, 83, 84, 85, 86, 87, 88, 89, 90, 91, 92, 93, 94, 95,
    96, 97, 98, 99, 100, 101, 102, 103, 104, 105, 106, 107, 108, 109, 110, 111,
    112, 113, 114, 115, 116, 117, 118, 119, 120, 121, 122, 123, 124, 125, 126, 127,
    128, 129, 130, 131, 132, 133, 134, 135, 136, 137, 138, 139, 140, 141, 142, 143,
    144, 145, 146, 147, 148, 149, 150, 151, 152, 153, 154, 155, 156, 157, 158, 159,
    160, 161, 162, 163, 164, 165, 166, 167, 168, 169, 170, 171, 172, 173, 174, 175,
    176, 177, 178, 179, 180, 181, 182, 183, 184, 185, 186, 187, 188, 189, 190, 191,
    192, 193, 194, 195, 196, 197, 198, 199, 200, 201, 202, 203, 204, 205, 206, 207,
    208, 209, 210, 211, 212, 213, 214, 215, 216, 217, 218, 219, 220, 221, 222, 223,
    224, 225, 226, 227, 228, 229, 230, 231, 232, 233, 234, 235, 236, 237, 238, 239,
    240, 241, 242, 243, 244, 245, 246, 247, 248, 249, 250, 251, 252, 253, 254, 255]"

definition neon_reduced_hash :: "u64 \<Rightarrow> u8" where
  "neon_reduced_hash hash = neon_table ! unat (ucast hash :: u8)"

definition neon_md :: vec where
  "neon_md = map (\<lambda>k. push_bit k 1) [0, 1, 2, 3, 4, 5, 6, 7, 0, 1, 2, 3, 4, 5, 6, 7]"

definition simde_mm_movemask_epi8 :: "vec \<Rightarrow> u32" where
  "simde_mm_movemask_epi8 a = ucast (vaddvq_u16 (vzip_lanes (vandq_u8 neon_md a)))"

definition neon_initialize :: bytes_group where
  "neon_initialize = \<lparr> meta = vdupq_n_u8 0 \<rparr>"

definition neon_dummy_group :: bytes_group where
  "neon_dummy_group = \<lparr> meta = [0,0,0,0,0,0,0,0,0,0,0,0,0,0,1,0] \<rparr>"

definition neon_set :: "bytes_group \<Rightarrow> nat \<Rightarrow> u64 \<Rightarrow> bytes_group" where
  "neon_set g pos hash = g\<lparr> meta := (meta g)[pos := neon_reduced_hash hash] \<rparr>"

definition neon_set_sentinel :: "bytes_group \<Rightarrow> bytes_group" where
  "neon_set_sentinel g = g\<lparr> meta := (meta g)[group_N - 1 := sentinel_byte] \<rparr>"

definition neon_is_sentinel :: "bytes_group \<Rightarrow> nat \<Rightarrow> bool" where
  "neon_is_sentinel g pos = (pos = group_N - 1 \<and> meta g ! (group_N - 1) = sentinel_byte)"

definition neon_reset :: "bytes_group \<Rightarrow> nat \<Rightarrow> bytes_group" where
  "neon_reset g pos = g\<lparr> meta := (meta g)[pos := available_byte] \<rparr>"

definition neon_match :: "bytes_group \<Rightarrow> u64 \<Rightarrow> u32" where
  "neon_match g hash =
     simde_mm_movemask_epi8 (vceqq_u8 (meta g) (vdupq_n_u8 (neon_reduced_hash hash))) AND 0x7FFF"

definition neon_is_not_overflowed :: "bytes_group \<Rightarrow> u64 \<Rightarrow> bool" where
  "neon_is_not_overflowed g hash =
     ((meta g ! group_N) AND overflow_shift ! (unat hash mod 8) = 0)"

definition neon_mark_overflow :: "bytes_group \<Rightarrow> u64 \<Rightarrow> bytes_group" where
  "neon_mark_overflow g hash =
     g\<lparr> meta := (meta g)[group_N := (meta g ! group_N) OR push_bit (unat hash mod 8) 1] \<rparr>"

definition neon_maybe_caused_overflow :: "bytes_group \<Rightarrow> nat \<Rightarrow> bool" where
  "neon_maybe_caused_overflow g pos = (\<not> neon_is_not_overflowed g (ucast (meta g ! pos)))"

definition neon_match_available :: "bytes_group \<Rightarrow> u32" where
  "neon_match_available g =
     simde_mm_movemask_epi8 (vceqq_u8 (meta g) (vdupq_n_u8 0)) AND 0x7FFF"

definition neon_is_occupied :: "bytes_group \<Rightarrow> nat \<Rightarrow> bool" where
  "neon_is_occupied g pos = (meta g ! pos \<noteq> available_byte)"

definition neon_match_occupied :: "bytes_group \<Rightarrow> u32" where
  "neon_match_occupied g =
     simde_mm_movemask_epi8 (vcgtq_u8 (meta g) (vdupq_n_u8 0)) AND 0x7FFF"

definition neon_group :: "bytes_group group_ops" where
  "neon_group = \<lparr>
     g_regular_layout = True,
     g_initialize = neon_initialize, g_dummy = neon_dummy_group, g_set = neon_set,
     g_set_sentinel = neon_set_sentinel, g_is_sentinel = neon_is_sentinel, g_reset = neon_reset,
     g_match = neon_match, g_is_not_overflowed = neon_is_not_overflowed,
     g_mark_overflow = neon_mark_overflow, g_maybe_caused_overflow = neon_maybe_caused_overflow,
     g_match_available = neon_match_available, g_is_occupied = neon_is_occupied,
     g_match_occupied = neon_match_occupied \<rparr>"

section \<open>Without SIMD: two bit-interleaved words\<close>

record words_group =
  m0 :: u64
  m1 :: u64

definition ns_table :: "u8 list" where
  "ns_table = [
    8, 9, 2, 3, 4, 5, 6, 7, 8, 9, 10, 11, 12, 13, 14, 15,
    16, 17, 18, 19, 20, 21, 22, 23, 24, 25, 26, 27, 28, 29, 30, 31,
    32, 33, 34, 35, 36, 37, 38, 39, 40, 41, 42, 43, 44, 45, 46, 47,
    48, 49, 50, 51, 52, 53, 54, 55, 56, 57, 58, 59, 60, 61, 62, 63,
    64, 65, 66, 67, 68, 69, 70, 71, 72, 73, 74, 75, 76, 77, 78, 79,
    80, 81, 82, 83, 84, 85, 86, 87, 88, 89, 90, 91, 92, 93, 94, 95,
    96, 97, 98, 99, 100, 101, 102, 103, 104, 105, 106, 107, 108, 109, 110, 111,
    112, 113, 114, 115, 116, 117, 118, 119, 120, 121, 122, 123, 124, 125, 126, 127,
    128, 129, 130, 131, 132, 133, 134, 135, 136, 137, 138, 139, 140, 141, 142, 143,
    144, 145, 146, 147, 148, 149, 150, 151, 152, 153, 154, 155, 156, 157, 158, 159,
    160, 161, 162, 163, 164, 165, 166, 167, 168, 169, 170, 171, 172, 173, 174, 175,
    176, 177, 178, 179, 180, 181, 182, 183, 184, 185, 186, 187, 188, 189, 190, 191,
    192, 193, 194, 195, 196, 197, 198, 199, 200, 201, 202, 203, 204, 205, 206, 207,
    208, 209, 210, 211, 212, 213, 214, 215, 216, 217, 218, 219, 220, 221, 222, 223,
    224, 225, 226, 227, 228, 229, 230, 231, 232, 233, 234, 235, 236, 237, 238, 239,
    240, 241, 242, 243, 244, 245, 246, 247, 248, 249, 250, 251, 252, 253, 254, 255]"

definition ns_reduced_hash :: "u64 \<Rightarrow> u8" where
  "ns_reduced_hash hash = ns_table ! unat (ucast hash :: u8)"

definition ns_set_mask :: "u64 list" where
  "ns_set_mask = [
    0x0000000000000000, 0x0000000000000001, 0x0000000000010000,
    0x0000000000010001, 0x0000000100000000, 0x0000000100000001,
    0x0000000100010000, 0x0000000100010001, 0x0001000000000000,
    0x0001000000000001, 0x0001000000010000, 0x0001000000010001,
    0x0001000100000000, 0x0001000100000001, 0x0001000100010000,
    0x0001000100010001]"

definition ns_set_imask :: "u64 list" where
  "ns_set_imask = [
    0x0001000100010001, 0x0001000100010000, 0x0001000100000001,
    0x0001000100000000, 0x0001000000010001, 0x0001000000010000,
    0x0001000000000001, 0x0001000000000000, 0x0000000100010001,
    0x0000000100010000, 0x0000000100000001, 0x0000000100000000,
    0x0000000000010001, 0x0000000000010000, 0x0000000000000001,
    0x0000000000000000]"

definition ns_set_word :: "u64 \<Rightarrow> nat \<Rightarrow> u8 \<Rightarrow> u64" where
  "ns_set_word x pos n =
     (let x = x OR push_bit pos (ns_set_mask ! unat n)
      in x AND NOT (push_bit pos (ns_set_imask ! unat n)))"

definition ns_set_impl :: "words_group \<Rightarrow> nat \<Rightarrow> u8 \<Rightarrow> words_group" where
  "ns_set_impl g pos n =
     \<lparr> m0 = ns_set_word (m0 g) pos (n AND 0xF), m1 = ns_set_word (m1 g) pos (drop_bit 4 n) \<rparr>"

definition ns_match_mask :: "u64 list" where
  "ns_match_mask = [
    0x0000000000000000, 0x000000000000ffff, 0x00000000ffff0000,
    0x00000000ffffffff, 0x0000ffff00000000, 0x0000ffff0000ffff,
    0x0000ffffffff0000, 0x0000ffffffffffff, 0xffff000000000000,
    0xffff00000000ffff, 0xffff0000ffff0000, 0xffff0000ffffffff,
    0xffffffff00000000, 0xffffffff0000ffff, 0xffffffffffff0000,
    0xffffffffffffffff]"

definition ns_match_impl :: "words_group \<Rightarrow> u8 \<Rightarrow> u32" where
  "ns_match_impl g n =
     (let x = m0 g XOR ns_match_mask ! unat (n AND 0xF);
          x = NOT ((m1 g XOR ns_match_mask ! unat (drop_bit 4 n)) OR x);
          y = ucast (x AND drop_bit 32 x) :: u32;
          y = y AND drop_bit 16 y
      in y AND 0x7FFF)"

definition ns_initialize :: words_group where
  "ns_initialize = \<lparr> m0 = 0, m1 = 0 \<rparr>"

definition ns_dummy_group :: words_group where
  "ns_dummy_group = \<lparr> m0 = 0x0000000000004000, m1 = 0x0000000000000000 \<rparr>"

definition ns_set :: "words_group \<Rightarrow> nat \<Rightarrow> u64 \<Rightarrow> words_group" where
  "ns_set g pos hash = ns_set_impl g pos (ns_reduced_hash hash)"

definition ns_set_sentinel :: "words_group \<Rightarrow> words_group" where
  "ns_set_sentinel g = ns_set_impl g (group_N - 1) sentinel_byte"

definition ns_is_sentinel :: "words_group \<Rightarrow> nat \<Rightarrow> bool" where
  "ns_is_sentinel g pos =
     (pos = group_N - 1 \<and> m0 g AND 0x4000400040004000 = 0x4000 \<and>
      m1 g AND 0x4000400040004000 = 0)"

definition ns_reset :: "words_group \<Rightarrow> nat \<Rightarrow> words_group" where
  "ns_reset g pos = ns_set_impl g pos available_byte"

definition ns_match :: "words_group \<Rightarrow> u64 \<Rightarrow> u32" where
  "ns_match g hash = ns_match_impl g (ns_reduced_hash hash)"

text \<open>The eight 16-bit lanes of the two words, as a little-endian machine stores them.\<close>

definition ns_lane :: "words_group \<Rightarrow> nat \<Rightarrow> u16" where
  "ns_lane g i = (if i < 4 then ucast (drop_bit (16 * i) (m0 g))
                  else ucast (drop_bit (16 * (i - 4)) (m1 g)))"

definition ns_is_not_overflowed :: "words_group \<Rightarrow> u64 \<Rightarrow> bool" where
  "ns_is_not_overflowed g hash = (ns_lane g (unat hash mod 8) AND 0x8000 = 0)"

definition ns_mark_overflow :: "words_group \<Rightarrow> u64 \<Rightarrow> words_group" where
  "ns_mark_overflow g hash =
     (let i = unat hash mod 8
      in if i < 4 then g\<lparr> m0 := m0 g OR push_bit (16 * i) 0x8000 \<rparr>
         else g\<lparr> m1 := m1 g OR push_bit (16 * (i - 4)) 0x8000 \<rparr>)"

definition ns_maybe_caused_overflow :: "words_group \<Rightarrow> nat \<Rightarrow> bool" where
  "ns_maybe_caused_overflow g pos =
     (let x = drop_bit pos (m0 g) AND 0x000100010001;
          y = ucast (x OR drop_bit 15 x OR drop_bit 30 x) :: u32
      in \<not> ns_is_not_overflowed g (ucast y))"

definition ns_match_available :: "words_group \<Rightarrow> u32" where
  "ns_match_available g =
     (let x = NOT (m0 g OR m1 g);
          y = ucast (x AND drop_bit 32 x) :: u32;
          y = y AND drop_bit 16 y
      in y AND 0x7FFF)"

definition ns_is_occupied :: "words_group \<Rightarrow> nat \<Rightarrow> bool" where
  "ns_is_occupied g pos = ((m0 g OR m1 g) AND push_bit pos 0x0001000100010001 \<noteq> 0)"

definition ns_match_occupied :: "words_group \<Rightarrow> u32" where
  "ns_match_occupied g =
     (let x = m0 g OR m1 g;
          y = ucast (x OR drop_bit 32 x) :: u32;
          y = y OR drop_bit 16 y
      in y AND 0x7FFF)"

definition nosimd_group :: "words_group group_ops" where
  "nosimd_group = \<lparr>
     g_regular_layout = False,
     g_initialize = ns_initialize, g_dummy = ns_dummy_group, g_set = ns_set,
     g_set_sentinel = ns_set_sentinel, g_is_sentinel = ns_is_sentinel, g_reset = ns_reset,
     g_match = ns_match, g_is_not_overflowed = ns_is_not_overflowed,
     g_mark_overflow = ns_mark_overflow, g_maybe_caused_overflow = ns_maybe_caused_overflow,
     g_match_available = ns_match_available, g_is_occupied = ns_is_occupied,
     g_match_occupied = ns_match_occupied \<rparr>"

end
