(* ===== verification/Boost_Hash.thy ===== *)
theory Boost_Hash
  imports Prelude Floats
begin

text \<open>
  The hash side of boost::unordered_flat_map: boost::hash on 64-bit unsigned integers, the
  mulx mixer in its two 64-bit variants (one 128-bit product, or four 32-bit products) and its
  32-bit variant, and the policies that turn a hash value into a group position and walk the
  groups: pow2_size_policy and pow2_quadratic_prober.
\<close>

section \<open>Hashing and mixing\<close>

definition hash_integral :: "u64 \<Rightarrow> u64" where
  "hash_integral v = v"

definition mulx64 :: "u64 \<Rightarrow> u64 \<Rightarrow> u64" where
  "mulx64 x y =
     (let r = (ucast x :: 128 word) * ucast y
      in ucast r XOR ucast (drop_bit 64 r))"

definition low32 :: "u64 \<Rightarrow> u64" where
  "low32 x = ucast (ucast x :: u32)"

definition mulx64_portable :: "u64 \<Rightarrow> u64 \<Rightarrow> u64" where
  "mulx64_portable x y =
     (let x1 = low32 x;
          x2 = drop_bit 32 x;
          y1 = low32 y;
          y2 = drop_bit 32 y;
          r3 = x2 * y2;
          r2a = x1 * y2;
          r3 = r3 + drop_bit 32 r2a;
          r2b = x2 * y1;
          r3 = r3 + drop_bit 32 r2b;
          r1 = x1 * y1;
          r2 = drop_bit 32 r1 + low32 r2a + low32 r2b;
          r1 = push_bit 32 r2 + low32 r1;
          r3 = r3 + drop_bit 32 r2
      in r1 XOR r3)"

definition mulx32 :: "u32 \<Rightarrow> u32 \<Rightarrow> u32" where
  "mulx32 x y = (let r = (ucast x :: u64) * ucast y in ucast r XOR ucast (drop_bit 32 r))"

definition mulx :: "u64 \<Rightarrow> u64" where
  "mulx x = mulx64 x 0x9E3779B97F4A7C15"

definition no_mix :: "('k \<Rightarrow> u64) \<Rightarrow> 'k \<Rightarrow> u64" where
  "no_mix h x = h x"

definition mulx_mix :: "('k \<Rightarrow> u64) \<Rightarrow> 'k \<Rightarrow> u64" where
  "mulx_mix h x = mulx (h x)"

section \<open>Sizes and positions\<close>

definition size_index :: "nat \<Rightarrow> nat" where
  "size_index n = 64 - (if n \<le> 2 then 1 else bitlen_nat (n - 1))"

definition policy_size :: "nat \<Rightarrow> nat" where
  "policy_size i = 2 ^ (64 - i)"

definition policy_min_size :: nat where
  "policy_min_size = 2"

definition position :: "u64 \<Rightarrow> nat \<Rightarrow> nat" where
  "position hash i = unat (drop_bit i hash)"

record prober =
  ppos :: nat
  pstep :: nat

definition prober_start :: "nat \<Rightarrow> prober" where
  "prober_start p = \<lparr> ppos = p, pstep = 0 \<rparr>"

definition prober_next :: "nat \<Rightarrow> prober \<Rightarrow> prober \<times> bool" where
  "prober_next msk pb =
     (let step = pstep pb + 1; pos = (ppos pb + step) AND msk
      in (\<lparr> ppos = pos, pstep = step \<rparr>, step \<le> msk))"

section \<open>The two multipliers agree\<close>

lemma unat_low32: "unat (low32 x) = unat x mod 2 ^ 32"
  by (simp add: low32_def unsigned_ucast_eq take_bit_eq_mod unat_mod_distrib)

lemma split32: "unat (x :: u64) = unat (drop_bit 32 x) * 2 ^ 32 + unat (low32 x)"
  by (simp add: unat_low32 unat_drop_bit)

lemma unat_64_bound: "unat (x :: u64) < 2 ^ 64"
  using unsigned_less [of x, where ?'a = nat] by simp

lemma high_half_bound: "unat (drop_bit 32 (x :: u64)) < 2 ^ 32"
  using unat_64_bound [of x] by (simp add: unat_drop_bit less_mult_imp_div_less)

lemma low_half_bound: "unat (low32 x) < 2 ^ 32"
  by (simp add: unat_low32)

lemma half_product: "a < 2 ^ 32 \<Longrightarrow> b < 2 ^ 32 \<Longrightarrow> a * b \<le> (2 ^ 32 - 1) * (2 ^ 32 - 1 :: nat)"
  by (intro mult_le_mono) auto

lemma unat_mult_small: "unat (x :: u64) * unat y < 2 ^ 64 \<Longrightarrow> unat (x * y) = unat x * unat y"
  using unat_mult_lem [of x y] by simp

lemma unat_add_small: "unat (x :: u64) + unat y < 2 ^ 64 \<Longrightarrow> unat (x + y) = unat x + unat y"
  using unat_add_lem [of x y] by simp

lemma halves_of_product:
  fixes h a b r M :: nat
  assumes M: "0 < M" and c: "c = r div M + a mod M + b mod M"
  shows "h * (M * M) + (a + b) * M + r
    = (h + a div M + b div M + c div M) * (M * M) + ((c mod M) * M + r mod M)"
proof -
  define a1 a0 b1 b0 r1 r0 c1 c0 where "a1 = a div M" and "a0 = a mod M" and "b1 = b div M"
    and "b0 = b mod M" and "r1 = r div M" and "r0 = r mod M" and "c1 = c div M" and "c0 = c mod M"
  note defs = this
  have "a = a1 * M + a0" "b = b1 * M + b0" "r = r1 * M + r0" "c = c1 * M + c0"
    by (simp_all add: defs)
  then have "h * (M * M) + (a + b) * M + r = (h + a1 + b1) * (M * M) + (r1 + a0 + b0) * M + r0"
    by (simp add: algebra_simps)
  also have "r1 + a0 + b0 = c1 * M + c0" using c by (simp add: defs)
  finally show ?thesis by (simp add: defs [symmetric] algebra_simps)
qed

lemma low_part_bound: "c < M \<Longrightarrow> r < M \<Longrightarrow> c * M + r < M * (M :: nat)"
proof -
  assume "c < M" "r < M"
  then have "c * M + r < c * M + M" by simp
  also have "\<dots> = Suc c * M" by simp
  also have "\<dots> \<le> M * M" using \<open>c < M\<close> by (intro mult_le_mono1) simp
  finally show ?thesis .
qed

lemma mulx64_eq:
  assumes "unat x * unat y = hi * 2 ^ 64 + lo" "lo < 2 ^ 64"
  shows "mulx64 x y = of_nat lo XOR of_nat hi"
proof -
  define r where "r = (ucast x :: 128 word) * ucast y"
  have x: "unat (ucast x :: 128 word) = unat x" "unat (ucast y :: 128 word) = unat y"
    using unat_64_bound [of x] unat_64_bound [of y]
    by (simp_all add: unsigned_ucast_eq take_bit_nat_eq_self)
  have "unat x * unat y \<le> (2 ^ 64 - 1) * (2 ^ 64 - 1)"
    using unat_64_bound [of x] unat_64_bound [of y] by (intro mult_le_mono) auto
  then have "unat x * unat y < 2 ^ 128" by simp
  then have r: "unat r = unat x * unat y"
    using unat_mult_lem [of "ucast x :: 128 word" "ucast y"] x by (simp add: r_def)
  have of_unat: "of_nat (unat w) = w" for w :: u64 by simp
  have "unat (ucast r :: u64) = lo"
    using assms by (simp add: unsigned_ucast_eq take_bit_eq_mod r)
  then have "ucast r = (of_nat lo :: u64)" using of_unat [of "ucast r"] by simp
  moreover have "hi < 2 ^ 64"
    using assms \<open>unat x * unat y < 2 ^ 128\<close> by simp
  then have "unat (ucast (drop_bit 64 r) :: u64) = hi"
    using assms by (simp add: unsigned_ucast_eq unat_drop_bit r take_bit_eq_mod)
  then have "ucast (drop_bit 64 r) = (of_nat hi :: u64)" using of_unat [of "ucast (drop_bit 64 r)"] by simp
  ultimately show ?thesis by (simp add: mulx64_def Let_def flip: r_def)
qed

lemma mulx64_portable_eq: "mulx64_portable x y = mulx64 x y"
proof -
  let ?M = "2 ^ 32 :: nat"
  define x1 x2 y1 y2 where "x1 = low32 x" and "x2 = drop_bit 32 x" and "y1 = low32 y"
    and "y2 = drop_bit 32 y"
  note halves = this
  define r2a r2b r1 where "r2a = x1 * y2" and "r2b = x2 * y1" and "r1 = x1 * y1"
  note parts = this
  define c where "c = drop_bit 32 r1 + low32 r2a + low32 r2b"
  define r3 where "r3 = x2 * y2 + drop_bit 32 r2a + drop_bit 32 r2b + drop_bit 32 c"
  have b: "unat x1 < ?M" "unat x2 < ?M" "unat y1 < ?M" "unat y2 < ?M"
    unfolding halves by (simp_all only: low_half_bound high_half_bound)
  have mult: "unat (u * v) = unat u * unat v" if "unat u < ?M" "unat v < ?M" for u v :: u64
    using half_product [OF that] by (intro unat_mult_small) simp
  have prods: "unat r2a = unat x1 * unat y2" "unat r2b = unat x2 * unat y1"
    "unat r1 = unat x1 * unat y1" "unat (x2 * y2) = unat x2 * unat y2"
    unfolding parts using b by (simp_all only: mult)
  have hb: "unat (drop_bit 32 r1) < ?M" "unat (low32 r2a) < ?M" "unat (low32 r2b) < ?M"
    by (simp_all only: low_half_bound high_half_bound)
  then have "unat (drop_bit 32 r1 + low32 r2a) = unat (drop_bit 32 r1) + unat (low32 r2a)"
    by (intro unat_add_small) simp
  with hb have c: "unat c = unat r1 div ?M + unat r2a mod ?M + unat r2b mod ?M"
    unfolding c_def by (subst unat_add_small) (simp_all add: unat_low32 unat_drop_bit)
  define hi lo where "hi = unat x2 * unat y2 + unat r2a div ?M + unat r2b div ?M + unat c div ?M"
    and "lo = unat c mod ?M * ?M + unat r1 mod ?M"
  have xy: "unat x = unat x2 * ?M + unat x1" "unat y = unat y2 * ?M + unat y1"
    unfolding halves by (rule split32)+
  have "unat x * unat y = unat x2 * unat y2 * (?M * ?M) + (unat r2a + unat r2b) * ?M + unat r1"
    unfolding xy prods by (simp add: algebra_simps)
  also have "\<dots> = hi * (?M * ?M) + lo"
    unfolding hi_def lo_def by (rule halves_of_product) (simp_all add: c)
  finally have P: "unat x * unat y = hi * 2 ^ 64 + lo" by (simp add: power_add [symmetric])
  have "lo < ?M * ?M" unfolding lo_def by (rule low_part_bound) simp_all
  then have lo: "lo < 2 ^ 64" by simp
  have of_unat: "of_nat (unat w) = w" for w :: u64 by simp
  have low: "push_bit 32 c + low32 r1 = of_nat lo"
  proof -
    have "unat c * ?M = (unat c div ?M * ?M + unat c mod ?M) * ?M"
      by (simp only: div_mult_mod_eq)
    also have "\<dots> = unat c div ?M * 2 ^ 64 + unat c mod ?M * ?M"
      by (simp only: distrib_right mult.assoc power_add [symmetric]) simp
    finally have "(of_nat (unat c * ?M) :: u64)
      = of_nat (unat c div ?M) * of_nat (2 ^ 64) + of_nat (unat c mod ?M * ?M)"
      by (simp only: of_nat_add of_nat_mult)
    moreover have "(of_nat (2 ^ 64) :: u64) = 0" by simp
    moreover have "push_bit 32 c = (of_nat (unat c * ?M) :: u64)"
      by (simp only: push_bit_eq_mult of_nat_mult of_unat) simp
    ultimately have "push_bit 32 c = (of_nat (unat c mod ?M * ?M) :: u64)"
      by (simp only: mult_zero_right add_0)
    then show ?thesis by (simp only: lo_def of_nat_add unat_low32 [symmetric] of_unat)
  qed
  have high: "r3 = of_nat hi"
    by (simp only: hi_def of_nat_add prods(4) [symmetric] unat_drop_bit [symmetric] of_unat r3_def)
  show ?thesis
    unfolding mulx64_eq [OF P lo] mulx64_portable_def Let_def
    unfolding halves [symmetric] unfolding parts [symmetric] unfolding c_def [symmetric]
    unfolding r3_def [symmetric] low high ..
qed

section \<open>Sizes\<close>

lemma bitlen_pow2: "bitlen_nat (2 ^ e) = Suc e"
  by (induction e) (simp_all add: bitlen_nat.simps [of "2 * 2 ^ _"] bitlen_nat.simps [of 1]
      bitlen_nat.simps [of 0] bitlen_nat.simps [of "Suc 0"])

lemma bitlen_unique: "2 ^ e \<le> n \<Longrightarrow> n < 2 ^ Suc e \<Longrightarrow> bitlen_nat n = Suc e"
proof -
  assume n: "2 ^ e \<le> n" "n < 2 ^ Suc e"
  then have pos: "0 < n" by (meson less_le_trans zero_less_numeral zero_less_power)
  note b = bitlen_nat_bounds [OF pos]
  have "2 ^ e < (2::nat) ^ bitlen_nat n" using n b by linarith
  then have "e < bitlen_nat n" by simp
  moreover have "(2::nat) ^ (bitlen_nat n - 1) < 2 ^ Suc e" using n b by linarith
  then have "bitlen_nat n - 1 < Suc e" by (simp only: power_strict_increasing_iff)
  ultimately show ?thesis by simp
qed

text \<open>The exponent of the group array's size, between 1 and 61.\<close>

definition policy_exp :: "nat \<Rightarrow> nat" where
  "policy_exp n = (if n \<le> 2 then 1 else bitlen_nat (n - 1))"

lemma size_index_exp: "size_index n = 64 - policy_exp n"
  by (simp add: size_index_def policy_exp_def)

lemma policy_exp_pos: "1 \<le> policy_exp n"
  using bitlen_nat_bounds [of "n - 1"] by (auto simp: policy_exp_def)

lemma policy_exp_bound: "n \<le> 2 ^ m \<Longrightarrow> 1 \<le> m \<Longrightarrow> policy_exp n \<le> m"
proof (cases "n \<le> 2")
  case False
  assume "n \<le> 2 ^ m"
  with False have "n - 1 < 2 ^ m" by simp
  with bitlen_nat_bounds [of "n - 1"] False have "(2::nat) ^ (bitlen_nat (n - 1) - 1) < 2 ^ m"
    by linarith
  then show ?thesis using False by (auto simp: policy_exp_def)
qed (simp add: policy_exp_def)

lemma policy_exp_ge: "n \<le> 2 ^ policy_exp n"
  using bitlen_nat_bounds [of "n - 1"] by (auto simp: policy_exp_def)

lemma policy_exp_pow2: "1 \<le> e \<Longrightarrow> policy_exp (2 ^ e) = e"
proof (cases "e = 1")
  case False
  assume "1 \<le> e"
  with False obtain d where e: "e = Suc (Suc d)" by (metis One_nat_def Suc_le_D le_SucE not0_implies_Suc)
  have "2 ^ Suc d \<le> (2::nat) ^ e - 1" "(2::nat) ^ e - 1 < 2 ^ Suc (Suc d)" unfolding e by simp_all
  then have "bitlen_nat (2 ^ e - 1) = Suc (Suc d)" by (rule bitlen_unique)
  moreover have "\<not> (2::nat) ^ e \<le> 2"
    using one_le_power [of "2::nat" d] unfolding e by (simp only: power_Suc) linarith
  ultimately show ?thesis by (simp add: policy_exp_def e)
qed (simp add: policy_exp_def)

lemma policy_size_index: "policy_exp n \<le> 64 \<Longrightarrow> policy_size (size_index n) = 2 ^ policy_exp n"
  by (simp add: policy_size_def size_index_exp)

lemma policy_size_0: "policy_size (size_index 0) = policy_min_size"
  by (simp add: policy_size_def size_index_def policy_min_size_def)

lemma position_bound: "1 \<le> e \<Longrightarrow> e \<le> 64 \<Longrightarrow> position hash (64 - e) < 2 ^ e"
proof -
  assume e: "1 \<le> e" "e \<le> 64"
  have "unat hash < 2 ^ (64 - e) * 2 ^ e"
    using unat_64_bound [of hash] e by (simp add: power_add [symmetric])
  then show ?thesis by (simp add: position_def unat_drop_bit less_mult_imp_div_less mult.commute)
qed

section \<open>The probe sequence\<close>

primrec probe_seq :: "nat \<Rightarrow> nat \<Rightarrow> nat \<Rightarrow> nat" where
  "probe_seq msk p 0 = p"
| "probe_seq msk p (Suc j) = (probe_seq msk p j + Suc j) AND msk"

definition prober_at :: "nat \<Rightarrow> nat \<Rightarrow> nat \<Rightarrow> prober" where
  "prober_at msk p j = \<lparr> ppos = probe_seq msk p j, pstep = j \<rparr>"

lemma prober_start_at: "prober_start p = prober_at msk p 0"
  by (simp add: prober_start_def prober_at_def)

lemma prober_next_at: "prober_next msk (prober_at msk p j) = (prober_at msk p (Suc j), Suc j \<le> msk)"
  by (simp add: prober_next_def prober_at_def Let_def)

lemma prober_at_sel [simp]: "ppos (prober_at msk p j) = probe_seq msk p j" "pstep (prober_at msk p j) = j"
  by (simp_all add: prober_at_def)

lemma nat_and_mask: "(n :: nat) AND (2 ^ e - Suc 0) = n mod 2 ^ e"
  by (metis One_nat_def mask_eq_exp_minus_1 take_bit_eq_mask take_bit_eq_mod)

definition tri :: "nat \<Rightarrow> nat" where
  "tri j = j * (j + 1) div 2"

lemma double_tri: "2 * tri j = j * (j + 1)"
  by (simp add: tri_def)

lemma tri_Suc: "tri (Suc j) = tri j + Suc j"
  using double_tri [of j] double_tri [of "Suc j"] by (simp add: algebra_simps)

lemma probe_seq_closed:
  assumes "p < 2 ^ e"
  shows "probe_seq (2 ^ e - Suc 0) p j = (p + tri j) mod 2 ^ e"
proof (induction j)
  case (Suc j)
  have "probe_seq (2 ^ e - Suc 0) p (Suc j) = ((p + tri j) mod 2 ^ e + Suc j) mod 2 ^ e"
    by (simp only: probe_seq.simps nat_and_mask Suc)
  also have "\<dots> = (p + tri j + Suc j) mod 2 ^ e" by (simp only: mod_add_left_eq)
  finally show ?case by (simp only: tri_Suc add.assoc)
qed (use assms in \<open>simp add: tri_def\<close>)

lemma pow2_dvd_odd_factor:
  fixes a b :: nat
  assumes "2 ^ m dvd a * b" "odd a"
  shows "2 ^ m dvd b"
proof -
  have "coprime (2 ^ m) a" using assms(2) by (simp add: coprime_power_left_iff coprime_left_2_iff_odd)
  with assms(1) show ?thesis by (simp add: coprime_dvd_mult_right_iff)
qed

lemma tri_distinct:
  assumes "i < j" "j < 2 ^ e"
  shows "(p + tri i) mod 2 ^ e \<noteq> (p + tri j) mod 2 ^ e"
proof
  assume eq: "(p + tri i) mod 2 ^ e = (p + tri j) mod 2 ^ e"
  have le: "tri i \<le> tri j" unfolding tri_def using assms by (intro div_le_mono mult_le_mono) auto
  from eq have "2 ^ e dvd (p + tri j) - (p + tri i)"
    by (metis add_le_cancel_left le mod_eq_dvd_iff_nat)
  then have "2 * 2 ^ e dvd 2 * (tri j - tri i)" by (simp only: add_diff_cancel_left mult_dvd_mono dvd_refl)
  also have "2 * (tri j - tri i) = (j - i) * (i + j + 1)"
  proof -
    obtain d where d: "j = i + d" using assms by (metis less_imp_add_positive)
    have "j * (j + 1) = i * (i + 1) + (j - i) * (i + j + 1)" by (simp add: d algebra_simps)
    then show ?thesis by (simp only: diff_mult_distrib2 double_tri add_diff_cancel_left')
  qed
  finally have dvd: "2 ^ Suc e dvd (j - i) * (i + j + 1)" by simp
  have "odd (j - i) \<or> odd (i + j + 1)" using assms(1) by auto
  then show False
  proof
    assume "odd (j - i)"
    then have "2 ^ Suc e dvd i + j + 1" by (rule pow2_dvd_odd_factor [OF dvd])
    then have "2 ^ Suc e \<le> i + j + 1" by (rule dvd_imp_le) simp
    with assms show False by simp
  next
    assume "odd (i + j + 1)"
    with dvd have "2 ^ Suc e dvd j - i" by (metis mult.commute pow2_dvd_odd_factor)
    then have "2 ^ Suc e \<le> j - i" by (rule dvd_imp_le) (use assms in simp)
    with assms show False by simp
  qed
qed

lemma probe_seq_bound: "p < 2 ^ e \<Longrightarrow> probe_seq (2 ^ e - Suc 0) p j < 2 ^ e"
  by (simp add: probe_seq_closed)

lemma probe_seq_inj:
  assumes "p < 2 ^ e" "i < 2 ^ e" "j < 2 ^ e" "probe_seq (2 ^ e - Suc 0) p i = probe_seq (2 ^ e - Suc 0) p j"
  shows "i = j"
  using assms tri_distinct [of i j e p] tri_distinct [of j i e p]
  by (cases i j rule: linorder_cases) (auto simp: probe_seq_closed)

lemma probe_seq_image:
  assumes "p < 2 ^ e"
  shows "probe_seq (2 ^ e - Suc 0) p ` {..<2 ^ e} = {..<2 ^ e}"
proof (rule card_subset_eq)
  show "probe_seq (2 ^ e - Suc 0) p ` {..<2 ^ e} \<subseteq> {..<2 ^ e}"
    using probe_seq_bound [OF assms] by auto
  show "card (probe_seq (2 ^ e - Suc 0) p ` {..<2 ^ e}) = card {..<(2::nat) ^ e}"
    by (rule card_image) (use probe_seq_inj [OF assms] in \<open>auto intro: inj_onI\<close>)
qed simp

lemma probe_seq_hits:
  assumes "p < 2 ^ e" "q < 2 ^ e"
  obtains j where "j < 2 ^ e" "probe_seq (2 ^ e - Suc 0) p j = q"
  using probe_seq_image [OF assms(1)] assms(2) by (metis (no_types, lifting) imageE lessThan_iff)

end
