(* ===== verification/Boost_Table.thy ===== *)
theory Boost_Table
  imports Boost_Group Boost_Hash
begin

text \<open>
  The open-addressing table of boost_unordered.hpp: the array pair (table_arrays), the class
  table_core with its lookup, insertion, erasure, rehashing, copying, moving and comparison,
  and the class table on top of it. A group array is a list; an element array is a list of
  slots, None where nothing is constructed; the null element pointer of a table that has
  allocated nothing is None. A locator is a pair of group index and slot. The loops that
  look for a free slot have no bound in the code: they are partial functions into option, None
  being a run that does not return. Element constructors and the allocator do not throw in
  this model, and allocators compare equal, as std::allocator does.
\<close>

section \<open>Types and arrays\<close>

record ('g, 'k) foa_types =
  grp :: "'g group_ops"
  hash_fn :: "'k \<Rightarrow> u64"
  avalanching :: bool

record ('g, 'e) table_arrays =
  groups_size_index :: nat
  groups_size_mask :: nat
  groups :: "'g list"
  elements :: "'e option list option"

record ('g, 'e) table_core =
  arrays :: "('g, 'e) table_arrays"
  ctrl_size :: nat
  ctrl_ml :: nat

type_synonym locator = "nat \<times> nat"

definition size_index_for :: "nat \<Rightarrow> nat" where
  "size_index_for n = size_index (n div group_N + 1)"

definition dummy_groups :: "('g, 'k) foa_types \<Rightarrow> 'g list" where
  "dummy_groups T = replicate policy_min_size (g_dummy (grp T))"

definition set_arrays :: "('g, 'k) foa_types \<Rightarrow> ('g, 'e) table_arrays \<Rightarrow> nat \<Rightarrow> ('g, 'e) table_arrays" where
  "set_arrays T a n =
     (if n = 0 then a\<lparr> groups := dummy_groups T \<rparr>
      else let gs = policy_size (groups_size_index a);
               pg = replicate gs (g_initialize (grp T))
           in a\<lparr> elements := Some (replicate (gs * group_N - 1) None),
                 groups := pg[gs - 1 := g_set_sentinel (grp T) (pg ! (gs - 1))] \<rparr>)"

definition new_arrays :: "('g, 'k) foa_types \<Rightarrow> nat \<Rightarrow> ('g, 'e) table_arrays" where
  "new_arrays T n =
     (let gsi = size_index_for n; gs = policy_size gsi
      in set_arrays T \<lparr> groups_size_index = gsi, groups_size_mask = gs - 1, groups = [], elements = None \<rparr> n)"

definition buffer_size :: "nat \<Rightarrow> nat \<Rightarrow> nat \<Rightarrow> nat" where
  "buffer_size sizeof_value sizeof_group gs =
     (let bytes = sizeof_value * (gs * group_N - 1) + sizeof_group * (gs + 1) - 1
      in (bytes + sizeof_value - 1) div sizeof_value)"

section \<open>Sizes and load\<close>

definition mlf :: rat where "mlf = 7 / 8"

definition capacity :: "('g, 'e) table_arrays \<Rightarrow> nat" where
  "capacity a = (if elements a = None then 0 else (groups_size_mask a + 1) * group_N - 1)"

definition initial_max_load :: "('g, 'e) table_arrays \<Rightarrow> nat" where
  "initial_max_load a =
     (let cap = capacity a
      in if cap \<le> 2 * group_N - 1 then cap
         else nat \<lfloor>fl 24 (mlf * fl 24 (of_nat cap))\<rfloor>)"

text \<open>The expression \<open>std::ceil(float(n)/mlf)\<close> of several members.\<close>

definition ceil_over_mlf :: "nat \<Rightarrow> nat" where
  "ceil_over_mlf n = nat \<lceil>fl 24 (fl 24 (of_nat n) / mlf)\<rceil>"

definition capacity_for :: "nat \<Rightarrow> nat" where
  "capacity_for n = policy_size (size_index_for n) * group_N - 1"

definition new_arrays_for_growth ::
  "('g, 'k) foa_types \<Rightarrow> ('g, 'e) table_core \<Rightarrow> ('g, 'e) table_arrays" where
  "new_arrays_for_growth T t = new_arrays T (ceil_over_mlf (ctrl_size t + ctrl_size t div 61 + 1))"

definition core_new :: "('g, 'k) foa_types \<Rightarrow> nat \<Rightarrow> ('g, 'e) table_core" where
  "core_new T n =
     (let a = new_arrays T n
      in \<lparr> arrays = a, ctrl_size = 0, ctrl_ml = initial_max_load a \<rparr>)"

definition load_factor :: "('g, 'e) table_core \<Rightarrow> rat" where
  "load_factor t =
     (if capacity (arrays t) = 0 then 0
      else fl 24 (fl 24 (of_nat (ctrl_size t)) / fl 24 (of_nat (capacity (arrays t)))))"

section \<open>Hashes, masks\<close>

definition hash_for :: "('g, 'k) foa_types \<Rightarrow> 'k \<Rightarrow> u64" where
  "hash_for T x = (if avalanching T then no_mix (hash_fn T) x else mulx_mix (hash_fn T) x)"

definition position_for :: "u64 \<Rightarrow> ('g, 'e) table_arrays \<Rightarrow> nat" where
  "position_for hash a = position hash (groups_size_index a)"

definition unchecked_countr_zero :: "u32 \<Rightarrow> nat" where
  "unchecked_countr_zero m = length (takeWhile Not (map (bit m) [0..<32]))"

lemma clear_lowest_less: "m \<noteq> 0 \<Longrightarrow> unat ((m :: u32) AND (m - 1)) < unat m"
proof -
  assume m: "m \<noteq> 0"
  have "unat (m AND (m - 1)) \<le> unat (m - 1)"
    by (metis word_and_le1 word_le_nat_alt)
  also have "\<dots> < unat m" using m by (metis unat_minus_one unat_eq_zero diff_less less_numeral_extra(1) gr0I)
  finally show ?thesis .
qed

text \<open>The positions of the set bits, in the order the \<open>mask&=mask-1\<close> loops visit them.\<close>

function mask_positions :: "u32 \<Rightarrow> nat list" where
  "mask_positions m =
     (if m = 0 then [] else unchecked_countr_zero m # mask_positions (m AND (m - 1)))"
  by auto
termination by (relation "measure unat") (simp_all add: clear_lowest_less)

declare mask_positions.simps [simp del]

text \<open>The first set bit whose slot satisfies the predicate.\<close>

function scan_mask :: "(nat \<Rightarrow> bool) \<Rightarrow> u32 \<Rightarrow> nat option" where
  "scan_mask P m =
     (if m = 0 then None
      else let n = unchecked_countr_zero m
           in if P n then Some n else scan_mask P (m AND (m - 1)))"
  by auto
termination by (relation "measure (unat \<circ> snd)") (simp_all add: clear_lowest_less)

declare scan_mask.simps [simp del]

definition match_really_occupied :: "('g, 'k) foa_types \<Rightarrow> ('g, 'e) table_arrays \<Rightarrow> nat \<Rightarrow> u32" where
  "match_really_occupied T a pos =
     g_match_occupied (grp T) (groups a ! pos)
       AND NOT (push_bit (group_N - 1) (of_bool (pos = groups_size_mask a)))"

definition element_at :: "('g, 'e) table_arrays \<Rightarrow> locator \<Rightarrow> 'e" where
  "element_at a loc = the (the (elements a) ! (fst loc * group_N + snd loc))"

definition set_element :: "('g, 'e) table_arrays \<Rightarrow> locator \<Rightarrow> 'e option \<Rightarrow> ('g, 'e) table_arrays" where
  "set_element a loc x =
     a\<lparr> elements := map_option (\<lambda>es. es[fst loc * group_N + snd loc := x]) (elements a) \<rparr>"

section \<open>Lookup\<close>

function find_from ::
  "('g, 'k) foa_types \<Rightarrow> ('g, 'k \<times> 'v) table_arrays \<Rightarrow> 'k \<Rightarrow> u64 \<Rightarrow> prober \<Rightarrow> locator option" where
  "find_from T a x hash pb =
     (let pos = ppos pb;
          pg = groups a ! pos;
          msk = g_match (grp T) pg hash
      in case scan_mask (\<lambda>n. x = fst (element_at a (pos, n))) msk of
           Some n \<Rightarrow> Some (pos, n)
         | None \<Rightarrow>
             if g_is_not_overflowed (grp T) pg hash then None
             else let (pb', more) = prober_next (groups_size_mask a) pb
                  in if more then find_from T a x hash pb' else None)"
  by pat_completeness auto
termination
  by (relation "measure (\<lambda>(T, a, x, hash, pb). groups_size_mask a + 1 - pstep pb)")
    (auto simp: prober_next_def Let_def)

declare find_from.simps [simp del]

definition core_find_at ::
  "('g, 'k) foa_types \<Rightarrow> ('g, 'k \<times> 'v) table_core \<Rightarrow> 'k \<Rightarrow> nat \<Rightarrow> u64 \<Rightarrow> locator option" where
  "core_find_at T t x pos0 hash = find_from T (arrays t) x hash (prober_start pos0)"

definition core_find :: "('g, 'k) foa_types \<Rightarrow> ('g, 'k \<times> 'v) table_core \<Rightarrow> 'k \<Rightarrow> locator option" where
  "core_find T t x =
     (let hash = hash_for T x in core_find_at T t x (position_for hash (arrays t)) hash)"

section \<open>Placing an element\<close>

partial_function (option) emplace_from ::
  "('g, 'k) foa_types \<Rightarrow> ('g, 'e) table_arrays \<Rightarrow> u64 \<Rightarrow> 'e \<Rightarrow> prober \<Rightarrow>
   (('g, 'e) table_arrays \<times> locator) option" where
  "emplace_from T a hash e pb =
     (let pos = ppos pb;
          pg = groups a ! pos;
          msk = g_match_available (grp T) pg
      in if msk \<noteq> 0 then
           let n = unchecked_countr_zero msk;
               a' = set_element a (pos, n) (Some e)
           in Some (a'\<lparr> groups := (groups a')[pos := g_set (grp T) pg n hash] \<rparr>, (pos, n))
         else
           emplace_from T (a\<lparr> groups := (groups a)[pos := g_mark_overflow (grp T) pg hash] \<rparr>) hash e
             (fst (prober_next (groups_size_mask a) pb)))"

definition nosize_unchecked_emplace_at where
  "nosize_unchecked_emplace_at T a pos0 hash e = emplace_from T a hash e (prober_start pos0)"

definition unchecked_emplace_at ::
  "('g, 'k) foa_types \<Rightarrow> ('g, 'e) table_core \<Rightarrow> nat \<Rightarrow> u64 \<Rightarrow> 'e \<Rightarrow>
   (('g, 'e) table_core \<times> locator) option" where
  "unchecked_emplace_at T t pos0 hash e =
     (case nosize_unchecked_emplace_at T (arrays t) pos0 hash e of
        None \<Rightarrow> None
      | Some (a, res) \<Rightarrow> Some (t\<lparr> arrays := a, ctrl_size := ctrl_size t + 1 \<rparr>, res))"

definition unchecked_insert ::
  "('g, 'k) foa_types \<Rightarrow> ('k \<times> 'v) \<Rightarrow> ('g, 'k \<times> 'v) table_core \<Rightarrow> ('g, 'k \<times> 'v) table_core option" where
  "unchecked_insert T x t =
     (let hash = hash_for T (fst x)
      in map_option fst (unchecked_emplace_at T t (position_for hash (arrays t)) hash x))"

section \<open>Visiting all elements\<close>

definition all_locators :: "('g, 'k) foa_types \<Rightarrow> ('g, 'e) table_arrays \<Rightarrow> locator list" where
  "all_locators T a =
     (if elements a = None then []
      else concat (map (\<lambda>pos. map (Pair pos) (mask_positions (match_really_occupied T a pos)))
             [0..<groups_size_mask a + 1]))"

definition all_elements :: "('g, 'k) foa_types \<Rightarrow> ('g, 'e) table_arrays \<Rightarrow> 'e list" where
  "all_elements T a = map (element_at a) (all_locators T a)"

section \<open>Rehashing\<close>

definition nosize_transfer_element ::
  "('g, 'k) foa_types \<Rightarrow> 'k \<times> 'v \<Rightarrow> ('g, 'k \<times> 'v) table_arrays \<Rightarrow> ('g, 'k \<times> 'v) table_arrays option" where
  "nosize_transfer_element T e a =
     (let hash = hash_for T (fst e)
      in map_option fst (nosize_unchecked_emplace_at T a (position_for hash a) hash e))"

fun transfer_all ::
  "('g, 'k) foa_types \<Rightarrow> ('k \<times> 'v) list \<Rightarrow> ('g, 'k \<times> 'v) table_arrays \<Rightarrow> ('g, 'k \<times> 'v) table_arrays option" where
  "transfer_all T [] a = Some a"
| "transfer_all T (e # es) a =
     (case nosize_transfer_element T e a of None \<Rightarrow> None | Some a' \<Rightarrow> transfer_all T es a')"

definition unchecked_rehash ::
  "('g, 'k) foa_types \<Rightarrow> ('g, 'k \<times> 'v) table_core \<Rightarrow> ('g, 'k \<times> 'v) table_arrays \<Rightarrow>
   ('g, 'k \<times> 'v) table_core option" where
  "unchecked_rehash T t new =
     (case transfer_all T (all_elements T (arrays t)) new of
        None \<Rightarrow> None
      | Some a \<Rightarrow> Some (t\<lparr> arrays := a, ctrl_ml := initial_max_load a \<rparr>))"

definition unchecked_emplace_with_rehash ::
  "('g, 'k) foa_types \<Rightarrow> ('g, 'k \<times> 'v) table_core \<Rightarrow> u64 \<Rightarrow> 'k \<times> 'v \<Rightarrow>
   (('g, 'k \<times> 'v) table_core \<times> locator) option" where
  "unchecked_emplace_with_rehash T t hash e =
     (let new = new_arrays_for_growth T t
      in case nosize_unchecked_emplace_at T new (position_for hash new) hash e of
           None \<Rightarrow> None
         | Some (new, it) \<Rightarrow>
             (case unchecked_rehash T t new of
                None \<Rightarrow> None
              | Some t' \<Rightarrow> Some (t'\<lparr> ctrl_size := ctrl_size t' + 1 \<rparr>, it)))"

definition core_rehash ::
  "('g, 'k) foa_types \<Rightarrow> nat \<Rightarrow> ('g, 'k \<times> 'v) table_core \<Rightarrow> ('g, 'k \<times> 'v) table_core option" where
  "core_rehash T n t =
     (let m = ceil_over_mlf (ctrl_size t);
          n = (if m > n then m else n);
          n = (if n \<noteq> 0 then capacity_for n else n)
      in if n \<noteq> capacity (arrays t) then unchecked_rehash T t (new_arrays T n) else Some t)"

definition core_reserve ::
  "('g, 'k) foa_types \<Rightarrow> nat \<Rightarrow> ('g, 'k \<times> 'v) table_core \<Rightarrow> ('g, 'k \<times> 'v) table_core option" where
  "core_reserve T n t = core_rehash T (ceil_over_mlf n) t"

section \<open>Insertion with lookup, erasure, clearing\<close>

definition emplace_impl ::
  "('g, 'k) foa_types \<Rightarrow> 'k \<times> 'v \<Rightarrow> ('g, 'k \<times> 'v) table_core \<Rightarrow>
   (('g, 'k \<times> 'v) table_core \<times> locator \<times> bool) option" where
  "emplace_impl T e t =
     (let k = fst e;
          hash = hash_for T k;
          pos0 = position_for hash (arrays t)
      in case core_find_at T t k pos0 hash of
           Some loc \<Rightarrow> Some (t, loc, False)
         | None \<Rightarrow>
             (case (if ctrl_size t < ctrl_ml t then unchecked_emplace_at T t pos0 hash e
                    else unchecked_emplace_with_rehash T t hash e) of
                None \<Rightarrow> None
              | Some (t', it) \<Rightarrow> Some (t', it, True)))"

definition recover_slot ::
  "('g, 'k) foa_types \<Rightarrow> ('g, 'e) table_core \<Rightarrow> locator \<Rightarrow> ('g, 'e) table_core" where
  "recover_slot T t loc =
     (let a = arrays t; pg = groups a ! fst loc
      in t\<lparr> ctrl_ml := ctrl_ml t - of_bool (g_maybe_caused_overflow (grp T) pg (snd loc)),
            arrays := a\<lparr> groups := (groups a)[fst loc := g_reset (grp T) pg (snd loc)] \<rparr>,
            ctrl_size := ctrl_size t - 1 \<rparr>)"

definition core_erase ::
  "('g, 'k) foa_types \<Rightarrow> locator \<Rightarrow> ('g, 'e) table_core \<Rightarrow> ('g, 'e) table_core" where
  "core_erase T loc t = recover_slot T (t\<lparr> arrays := set_element (arrays t) loc None \<rparr>) loc"

definition table_erase ::
  "('g, 'k) foa_types \<Rightarrow> 'k \<Rightarrow> ('g, 'k \<times> 'v) table_core \<Rightarrow> ('g, 'k \<times> 'v) table_core \<times> nat" where
  "table_erase T x t =
     (case core_find T t x of
        Some it \<Rightarrow> (core_erase T it t, 1)
      | None \<Rightarrow> (t, 0))"

definition core_clear :: "('g, 'k) foa_types \<Rightarrow> ('g, 'e) table_core \<Rightarrow> ('g, 'e) table_core" where
  "core_clear T t =
     (let a = arrays t
      in case elements a of
           None \<Rightarrow> t
         | Some es \<Rightarrow>
             let destroyed = foldl (\<lambda>a loc. set_element a loc None) a (all_locators T a);
                 gs = map (\<lambda>_. g_initialize (grp T)) (groups a);
                 last = groups_size_mask a;
                 a' = destroyed\<lparr> groups := gs[last := g_set_sentinel (grp T) (gs ! last)] \<rparr>
             in t\<lparr> arrays := a', ctrl_ml := initial_max_load a', ctrl_size := 0 \<rparr>)"

definition erase_if ::
  "('g, 'k) foa_types \<Rightarrow> ('e \<Rightarrow> bool) \<Rightarrow> ('g, 'e) table_core \<Rightarrow> ('g, 'e) table_core \<times> nat" where
  "erase_if T pr t =
     (let t' = foldl (\<lambda>s loc. if pr (element_at (arrays s) loc) then core_erase T loc s else s) t
                 (all_locators T (arrays t))
      in (t', ctrl_size t - ctrl_size t'))"

text \<open>
  \<open>merge\<close> tries to emplace every element of the source; an element that was inserted is
  erased from the source when its guard object goes out of scope.
\<close>

fun merge_locs ::
  "('g, 'k) foa_types \<Rightarrow> locator list \<Rightarrow> ('g, 'k \<times> 'v) table_core \<Rightarrow> ('g, 'k \<times> 'v) table_core \<Rightarrow>
   (('g, 'k \<times> 'v) table_core \<times> ('g, 'k \<times> 'v) table_core) option" where
  "merge_locs T [] t x = Some (t, x)"
| "merge_locs T (loc # locs) t x =
     (case emplace_impl T (element_at (arrays x) loc) t of
        None \<Rightarrow> None
      | Some (t', _, inserted) \<Rightarrow> merge_locs T locs t' (if inserted then core_erase T loc x else x))"

definition table_merge where
  "table_merge T t x = merge_locs T (all_locators T (arrays x)) t x"

section \<open>Copy, move, swap, comparison\<close>

fun insert_all ::
  "('g, 'k) foa_types \<Rightarrow> ('k \<times> 'v) list \<Rightarrow> ('g, 'k \<times> 'v) table_core \<Rightarrow> ('g, 'k \<times> 'v) table_core option" where
  "insert_all T [] t = Some t"
| "insert_all T (x # xs) t =
     (case unchecked_insert T x t of None \<Rightarrow> None | Some t' \<Rightarrow> insert_all T xs t')"

definition fast_copy_elements_from :: "('g, 'e) table_core \<Rightarrow> ('g, 'e) table_core \<Rightarrow> ('g, 'e) table_core" where
  "fast_copy_elements_from x t =
     (if elements (arrays t) \<noteq> None \<and> elements (arrays x) \<noteq> None then
        t\<lparr> arrays := (arrays t)\<lparr> elements := elements (arrays x), groups := groups (arrays x) \<rparr>,
           ctrl_ml := ctrl_ml x, ctrl_size := ctrl_size x \<rparr>
      else t)"

definition copy_elements_from ::
  "('g, 'k) foa_types \<Rightarrow> ('g, 'k \<times> 'v) table_core \<Rightarrow> ('g, 'k \<times> 'v) table_core \<Rightarrow>
   ('g, 'k \<times> 'v) table_core option" where
  "copy_elements_from T x t =
     (if groups_size_mask (arrays t) = groups_size_mask (arrays x)
      then Some (fast_copy_elements_from x t)
      else insert_all T (all_elements T (arrays x)) t)"

definition core_copy ::
  "('g, 'k) foa_types \<Rightarrow> ('g, 'k \<times> 'v) table_core \<Rightarrow> ('g, 'k \<times> 'v) table_core option" where
  "core_copy T x = copy_elements_from T x (core_new T (ceil_over_mlf (ctrl_size x)))"

definition noshrink_reserve ::
  "('g, 'k) foa_types \<Rightarrow> nat \<Rightarrow> ('g, 'e) table_core \<Rightarrow> ('g, 'e) table_core" where
  "noshrink_reserve T n t =
     (if n \<noteq> 0 then
        let n = capacity_for (ceil_over_mlf n)
        in if n > capacity (arrays t) then
             let a = new_arrays T n in t\<lparr> arrays := a, ctrl_ml := initial_max_load a \<rparr>
           else t
      else t)"

definition core_copy_assign ::
  "('g, 'k) foa_types \<Rightarrow> ('g, 'k \<times> 'v) table_core \<Rightarrow> ('g, 'k \<times> 'v) table_core \<Rightarrow>
   ('g, 'k \<times> 'v) table_core option" where
  "core_copy_assign T x t = copy_elements_from T x (noshrink_reserve T (ctrl_size x) (core_clear T t))"

text \<open>The moved-to table and the moved-from one, which keeps no elements.\<close>

definition moved_from :: "('g, 'k) foa_types \<Rightarrow> ('g, 'e) table_core \<Rightarrow> ('g, 'e) table_core" where
  "moved_from T x =
     (let a = new_arrays T 0
      in x\<lparr> arrays := a, ctrl_ml := initial_max_load a, ctrl_size := 0 \<rparr>)"

definition core_move ::
  "('g, 'k) foa_types \<Rightarrow> ('g, 'e) table_core \<Rightarrow> ('g, 'e) table_core \<times> ('g, 'e) table_core" where
  "core_move T x = (x, moved_from T x)"

definition core_move_assign ::
  "('g, 'k) foa_types \<Rightarrow> ('g, 'e) table_core \<Rightarrow> ('g, 'e) table_core \<Rightarrow>
   ('g, 'e) table_core \<times> ('g, 'e) table_core" where
  "core_move_assign T x t =
     (let t = core_clear T t
      in (t\<lparr> arrays := arrays x, ctrl_ml := ctrl_ml x, ctrl_size := ctrl_size x \<rparr>, moved_from T x))"

definition core_swap :: "('g, 'e) table_core \<times> ('g, 'e) table_core \<Rightarrow> ('g, 'e) table_core \<times> ('g, 'e) table_core" where
  "core_swap ts =
     (let (t, x) = ts
      in (t\<lparr> arrays := arrays x, ctrl_size := ctrl_size x, ctrl_ml := ctrl_ml x \<rparr>,
          x\<lparr> arrays := arrays t, ctrl_size := ctrl_size t, ctrl_ml := ctrl_ml t \<rparr>))"

definition core_eq ::
  "('g, 'k) foa_types \<Rightarrow> ('g, 'k \<times> 'v) table_core \<Rightarrow> ('g, 'k \<times> 'v) table_core \<Rightarrow> bool" where
  "core_eq T x y =
     (ctrl_size x = ctrl_size y \<and>
      list_all (\<lambda>p. case core_find T y (fst p) of
                      None \<Rightarrow> False
                    | Some loc \<Rightarrow> p = element_at (arrays y) loc) (all_elements T (arrays x)))"

end
