(* ===== verification/Boost_Masks.thy ===== *)
theory Boost_Masks
  imports Boost_Table
begin

text \<open>
  The bit masks the groups return: counting trailing zeros, clearing the lowest set bit, and
  the loops over the set bits, which visit them in increasing order.
\<close>

lemma first_true_spec:
  assumes "True \<in> List.set bs"
  defines "n \<equiv> length (takeWhile Not bs)"
  shows "n < length bs" and "bs ! n" and "i < n \<Longrightarrow> \<not> bs ! i"
proof -
  show lt: "n < length bs"
    unfolding n_def using assms(1) by (induction bs) auto
  show "bs ! n" using nth_length_takeWhile [of Not bs] lt by (simp add: n_def)
  assume i: "i < n"
  then have "takeWhile Not bs ! i \<in> List.set (takeWhile Not bs)" by (simp add: n_def)
  then have "\<not> takeWhile Not bs ! i" by (blast dest: set_takeWhileD)
  with i show "\<not> bs ! i" by (simp add: n_def takeWhile_nth)
qed

lemma countr_zero_spec:
  assumes "m \<noteq> 0"
  shows "bit m (unchecked_countr_zero m)" and "i < unchecked_countr_zero m \<Longrightarrow> \<not> bit m i"
    and "unchecked_countr_zero m < 32"
proof -
  define bs where "bs = map (bit m) [0..<32]"
  have n: "unchecked_countr_zero m = length (takeWhile Not bs)"
    by (simp only: bs_def unchecked_countr_zero_def)
  have nth: "bs ! k = bit m k" if "k < 32" for k using that by (simp add: bs_def)
  have len: "length bs = 32" by (simp add: bs_def)
  obtain j where j: "bit m j" using assms bit_eq_iff [of m 0] by auto
  then have j32: "j < 32" using bit_imp_le_length [of m j] by simp
  have "bs ! j \<in> List.set bs" by (rule nth_mem) (simp only: len j32)
  with j nth [OF j32] have t: "True \<in> List.set bs" by simp
  note first = first_true_spec [OF t, folded n, unfolded len]
  show lt: "unchecked_countr_zero m < 32" by (rule first(1))
  show "bit m (unchecked_countr_zero m)" using first(2) nth [OF lt] by simp
  assume i: "i < unchecked_countr_zero m"
  show "\<not> bit m i" using first(3) [OF i] nth [OF less_trans [OF i lt]] by simp
qed

lemma lowest_bit_split:
  fixes m :: "'a::len word"
  assumes n: "bit m n" and low: "\<And>i. i < n \<Longrightarrow> \<not> bit m i" and k: "n < k" "k \<le> n + 1"
  shows "m = push_bit k (drop_bit k m) OR 2 ^ n"
proof (rule bit_word_eqI)
  fix i assume i: "i < LENGTH('a)"
  consider "i < n" | "i = n" | "k \<le> i" using k by linarith
  then show "bit m i = bit (push_bit k (drop_bit k m) OR 2 ^ n) i"
    using n low k i by cases (auto simp: bit_facts bit_exp_iff)
qed

lemma clear_lowest_bit:
  fixes m :: "'a::len word"
  assumes n: "bit m n" and low: "\<And>i. i < n \<Longrightarrow> \<not> bit m i"
  shows "bit (m AND (m - 1)) i = (bit m i \<and> i \<noteq> n)"
proof -
  obtain k where k: "n < k" "k \<le> n + 1" by (meson lessI less_add_one order.refl)
  define h where "h = push_bit k (drop_bit k m)"
  have len: "n < LENGTH('a)" using n by (rule bit_imp_le_length)
  have m: "m = h OR 2 ^ n" unfolding h_def by (rule lowest_bit_split [OF n low k])
  have high: "bit h i \<Longrightarrow> n < i" for i using k by (simp add: h_def bit_facts)
  have "h AND 2 ^ n = 0" by (rule bit_word_eqI) (auto simp: bit_facts bit_exp_iff dest: high)
  then have sum: "m = h + 2 ^ n" using m by (simp add: disjunctive_add_eq_or)
  have "h AND mask n = 0" by (rule bit_word_eqI) (auto simp: bit_facts bit_mask_iff dest: high)
  then have "h + mask n = h OR mask n" by (simp add: disjunctive_add_eq_or)
  moreover have "m - 1 = h + mask n" unfolding sum by (simp add: mask_eq_exp_minus_1)
  ultimately have m1: "m - 1 = h OR mask n" by simp
  have "bit m i = (bit h i \<or> i = n)" for i
    using len by (subst m) (auto simp: bit_or_iff bit_exp_iff)
  then show ?thesis unfolding m1 using low [of i] high [of i]
    by (auto simp: bit_facts bit_mask_iff)
qed

lemma clear_countr_zero:
  "m \<noteq> 0 \<Longrightarrow> bit (m AND (m - 1)) i = (bit m i \<and> i \<noteq> unchecked_countr_zero m)"
  by (rule clear_lowest_bit) (auto simp: countr_zero_spec)

lemma filter_first:
  assumes "n < N" "P n" "\<And>i. i < n \<Longrightarrow> \<not> P i"
  shows "filter P [0..<N] = n # filter (\<lambda>i. P i \<and> i \<noteq> n) [0..<N]"
proof -
  have split: "[0..<N] = [0..<n] @ n # [Suc n..<N]"
    using assms(1) by (metis add_diff_inverse_nat less_imp_le_nat not_less upt_add_eq_append upt_conv_Cons le0 order.asym)
  have "filter P [0..<n] = []" "filter (\<lambda>i. P i \<and> i \<noteq> n) [0..<n] = []"
    using assms(3) by (auto simp: filter_empty_conv)
  moreover have "filter P [Suc n..<N] = filter (\<lambda>i. P i \<and> i \<noteq> n) [Suc n..<N]"
    by (rule filter_cong) auto
  ultimately show ?thesis using assms(2) by (simp add: split)
qed

lemma mask_positions_eq: "mask_positions m = filter (bit m) [0..<32]"
proof (induction m rule: mask_positions.induct)
  case (1 m)
  show ?case
  proof (cases "m = 0")
    case False
    have "mask_positions m = unchecked_countr_zero m # mask_positions (m AND (m - 1))"
      using False by (subst mask_positions.simps) simp
    also have "mask_positions (m AND (m - 1)) = filter (bit (m AND (m - 1))) [0..<32]"
      by (rule 1 [OF False])
    also have "bit (m AND (m - 1)) = (\<lambda>i. bit m i \<and> i \<noteq> unchecked_countr_zero m)"
      using clear_countr_zero [OF False] by blast
    finally show ?thesis
      using filter_first [where P = "bit m", OF countr_zero_spec(3) [OF False] countr_zero_spec(1) [OF False] countr_zero_spec(2) [OF False]]
      by metis
  qed (subst mask_positions.simps, simp)
qed

lemma scan_mask_eq: "scan_mask P m = List.find P (mask_positions m)"
proof (induction P m rule: scan_mask.induct)
  case (1 P m)
  show ?case
  proof (cases "m = 0")
    case False
    have mp: "mask_positions m = unchecked_countr_zero m # mask_positions (m AND (m - 1))"
      using False by (subst mask_positions.simps) simp
    show ?thesis
    proof (cases "P (unchecked_countr_zero m)")
      case True
      then show ?thesis using False by (subst scan_mask.simps) (simp add: mp Let_def)
    next
      case no: False
      then show ?thesis using 1 [OF False refl no] False
        by (subst scan_mask.simps) (simp add: mp Let_def)
    qed
  qed (subst scan_mask.simps, subst mask_positions.simps, simp)
qed

lemma mask_positions_set: "List.set (mask_positions m) = {i. bit m i}"
  unfolding mask_positions_eq using bit_imp_le_length [of m] by auto

lemma mask_positions_distinct: "distinct (mask_positions m)"
  by (simp add: mask_positions_eq)

lemma scan_mask_Some: "scan_mask P m = Some n \<Longrightarrow> bit m n \<and> P n"
proof -
  assume "scan_mask P m = Some n"
  then obtain i where i: "i < length (mask_positions m)" "P (mask_positions m ! i)"
      "n = mask_positions m ! i"
    unfolding scan_mask_eq find_Some_iff by blast
  then have "n \<in> List.set (mask_positions m)" by simp
  with i show ?thesis by (simp add: mask_positions_set)
qed

lemma scan_mask_None: "(scan_mask P m = None) = (\<forall>n. bit m n \<longrightarrow> \<not> P n)"
  unfolding scan_mask_eq find_None_iff mask_positions_set by auto

lemma scan_mask_unique:
  assumes "bit m n" "P n" "\<And>i. P i \<Longrightarrow> i = n"
  shows "scan_mask P m = Some n"
proof (cases "scan_mask P m")
  case None
  with assms show ?thesis using scan_mask_None [of P m] by blast
next
  case (Some i)
  with assms(3) scan_mask_Some [OF Some] show ?thesis by blast
qed

end
