(* ===== verification/Boost_Group_Laws.thy ===== *)
theory Boost_Group_Laws
  imports Boost_Group
begin

text \<open>
  The contract of the metadata group: a byte view of the 15 slots and a bit view of the
  overflow byte, with the effect of every member function on them. The three variants
  (SSE2, NEON, non-SIMD) are interpretations, so the tables are proved once for all of them.
\<close>

section \<open>The reduced hash\<close>

text \<open>The value every variant's table holds: the low byte, with 0 and 1 moved to 8 and 9.\<close>

definition reduced :: "u64 \<Rightarrow> u8" where
  "reduced h = (let b = ucast h :: u8 in if b < 2 then b + 8 else b)"

lemma reduced_table_at:
  "\<forall>b\<in>List.set [0..<256]. neon_table ! b = (if (of_nat b :: u8) < 2 then of_nat b + 8 else of_nat b)"
  by code_simp

lemma neon_table_word: "neon_table ! unat (b :: u8) = (if b < 2 then b + 8 else b)"
proof -
  have "unat b \<in> List.set [0..<256]" using unsigned_less [of b] by simp
  from bspec [OF reduced_table_at this] show ?thesis by simp
qed

lemma ns_table_eq: "ns_table = neon_table" unfolding ns_table_def neon_table_def ..

lemma match_words_low: "map (\<lambda>w. ucast w :: u8) match_words = neon_table" by code_simp

lemma match_words_length: "length match_words = 256" by code_simp

lemma match_words_copies:
  "\<forall>w\<in>List.set match_words. \<forall>i\<in>List.set [0..<4].
     (ucast (drop_bit (8 * i) w) :: u8) = ucast w"
  by code_simp

lemma neon_reduced_hash_eq: "neon_reduced_hash h = reduced h"
  by (simp add: neon_reduced_hash_def reduced_def neon_table_word Let_def)

lemma ns_reduced_hash_eq: "ns_reduced_hash h = reduced h"
  by (simp add: ns_reduced_hash_def ns_table_eq reduced_def neon_table_word Let_def)

lemma byte_index: "unat (b :: u8) < length match_words"
  using unsigned_less [of b] by (simp add: match_words_length)

lemma sse_reduced_hash_eq: "sse_reduced_hash h = reduced h"
proof -
  have "sse_reduced_hash h = map (\<lambda>w. ucast w :: u8) match_words ! unat (ucast h :: u8)"
    using byte_index [of "ucast h"] by (simp add: sse_reduced_hash_def sse_match_word_def)
  then show ?thesis by (simp only: match_words_low neon_reduced_hash_def [symmetric] neon_reduced_hash_eq)
qed

lemma sse_match_word_lanes: "mm_set1_epi32 (sse_match_word h) = replicate 16 (reduced h)"
proof (rule nth_equalityI)
  show "length (mm_set1_epi32 (sse_match_word h)) = length (replicate 16 (reduced h))"
    by (simp add: mm_set1_epi32_def)
next
  fix i assume "i < length (mm_set1_epi32 (sse_match_word h))"
  then have i: "i < 16" by (simp add: mm_set1_epi32_def)
  have w: "sse_match_word h \<in> List.set match_words"
    unfolding sse_match_word_def by (rule nth_mem) (rule byte_index)
  have "i mod 4 \<in> List.set [0..<4]" by simp
  from bspec [OF bspec [OF match_words_copies w] this] i
  show "mm_set1_epi32 (sse_match_word h) ! i = replicate 16 (reduced h) ! i"
    by (simp add: mm_set1_epi32_def sse_reduced_hash_eq [symmetric] sse_reduced_hash_def)
qed

lemma reduced_cases: "\<forall>b\<in>List.set [0..<256].
   2 \<le> neon_table ! b \<and> unat (neon_table ! b) mod 8 = b mod 8"
  by code_simp

lemma reduced_ge: "2 \<le> reduced h" and reduced_mod8: "unat (reduced h) mod 8 = unat h mod 8"
proof -
  let ?b = "unat (ucast h :: u8)"
  have "?b \<in> List.set [0..<256]" using unsigned_less [of "ucast h :: u8"] by simp
  from bspec [OF reduced_cases this]
  have *: "2 \<le> neon_reduced_hash h" "unat (neon_reduced_hash h) mod 8 = ?b mod 8"
    by (simp_all only: neon_reduced_hash_def)
  have "?b mod 8 = unat h mod 8"
    by (simp add: unsigned_ucast_eq take_bit_eq_mod mod_mod_cancel)
  with * show "2 \<le> reduced h" "unat (reduced h) mod 8 = unat h mod 8"
    by (simp_all only: neon_reduced_hash_eq)
qed

lemma reduced_not_0: "reduced h \<noteq> 0" and reduced_not_1: "reduced h \<noteq> 1"
  using reduced_ge [of h] by (auto simp: word_le_nat_alt)

section \<open>The contract\<close>

locale group15 =
  fixes G :: "'g group_ops"
    and ok :: "'g \<Rightarrow> bool"
    and byte :: "'g \<Rightarrow> nat \<Rightarrow> u8"
    and ovf :: "'g \<Rightarrow> nat \<Rightarrow> bool"
  assumes init_ok: "ok (g_initialize G)"
    and init_byte: "p < 15 \<Longrightarrow> byte (g_initialize G) p = 0"
    and init_ovf: "i < 8 \<Longrightarrow> \<not> ovf (g_initialize G) i"
    and dummy_ok: "ok (g_dummy G)"
    and dummy_byte: "p < 15 \<Longrightarrow> byte (g_dummy G) p = (if p = 14 then 1 else 0)"
    and dummy_ovf: "i < 8 \<Longrightarrow> \<not> ovf (g_dummy G) i"
    and set_ok: "ok g \<Longrightarrow> p < 15 \<Longrightarrow> ok (g_set G g p h)"
    and set_byte: "ok g \<Longrightarrow> p < 15 \<Longrightarrow> q < 15 \<Longrightarrow>
      byte (g_set G g p h) q = (if q = p then reduced h else byte g q)"
    and set_ovf: "ok g \<Longrightarrow> p < 15 \<Longrightarrow> i < 8 \<Longrightarrow> ovf (g_set G g p h) i = ovf g i"
    and sentinel_ok: "ok g \<Longrightarrow> ok (g_set_sentinel G g)"
    and sentinel_byte: "ok g \<Longrightarrow> q < 15 \<Longrightarrow>
      byte (g_set_sentinel G g) q = (if q = 14 then 1 else byte g q)"
    and sentinel_ovf: "ok g \<Longrightarrow> i < 8 \<Longrightarrow> ovf (g_set_sentinel G g) i = ovf g i"
    and is_sentinel: "ok g \<Longrightarrow> p < 15 \<Longrightarrow> (p \<noteq> 14 \<Longrightarrow> byte g p \<noteq> 1) \<Longrightarrow>
      g_is_sentinel G g p = (byte g p = 1)"
    and reset_ok: "ok g \<Longrightarrow> p < 15 \<Longrightarrow> ok (g_reset G g p)"
    and reset_byte: "ok g \<Longrightarrow> p < 15 \<Longrightarrow> q < 15 \<Longrightarrow>
      byte (g_reset G g p) q = (if q = p then 0 else byte g q)"
    and reset_ovf: "ok g \<Longrightarrow> p < 15 \<Longrightarrow> i < 8 \<Longrightarrow> ovf (g_reset G g p) i = ovf g i"
    and match_bits: "ok g \<Longrightarrow>
      bit (g_match G g h) p = (p < 15 \<and> byte g p = reduced h)"
    and not_overflowed: "ok g \<Longrightarrow> g_is_not_overflowed G g h = (\<not> ovf g (unat h mod 8))"
    and mark_ok: "ok g \<Longrightarrow> ok (g_mark_overflow G g h)"
    and mark_byte: "ok g \<Longrightarrow> p < 15 \<Longrightarrow> byte (g_mark_overflow G g h) p = byte g p"
    and mark_ovf: "ok g \<Longrightarrow> i < 8 \<Longrightarrow>
      ovf (g_mark_overflow G g h) i = (ovf g i \<or> i = unat h mod 8)"
    and maybe_caused: "ok g \<Longrightarrow> p < 15 \<Longrightarrow>
      g_maybe_caused_overflow G g p = ovf g (unat (byte g p) mod 8)"
    and available_bits: "ok g \<Longrightarrow>
      bit (g_match_available G g) p = (p < 15 \<and> byte g p = 0)"
    and occupied: "ok g \<Longrightarrow> p < 15 \<Longrightarrow> g_is_occupied G g p = (byte g p \<noteq> 0)"
    and occupied_bits: "ok g \<Longrightarrow>
      bit (g_match_occupied G g) p = (p < 15 \<and> byte g p \<noteq> 0)"
begin

lemma match_zero: "ok g \<Longrightarrow> (g_match G g h = 0) = (\<forall>p < 15. byte g p \<noteq> reduced h)"
  by (auto simp: bit_eq_iff [of "g_match G g h"] match_bits)

lemma available_zero: "ok g \<Longrightarrow> (g_match_available G g = 0) = (\<forall>p < 15. byte g p \<noteq> 0)"
  by (auto simp: bit_eq_iff [of "g_match_available G g"] available_bits)

lemma match_available_of_initial: "bit (g_match_available G (g_initialize G)) p = (p < 15)"
  using available_bits [OF init_ok] init_byte by auto

lemma occupied_iff_not_available: "ok g \<Longrightarrow> p < 15 \<Longrightarrow>
  bit (g_match_occupied G g) p = (\<not> bit (g_match_available G g) p)"
  by (simp add: occupied_bits available_bits)

lemma set_then_match: "ok g \<Longrightarrow> p < 15 \<Longrightarrow> bit (g_match G (g_set G g p h) h) p"
  by (simp add: match_bits set_ok set_byte)

end

section \<open>Byte variants\<close>

definition bytes_ok :: "bytes_group \<Rightarrow> bool" where
  "bytes_ok g = (length (meta g) = 16)"

definition bytes_byte :: "bytes_group \<Rightarrow> nat \<Rightarrow> u8" where
  "bytes_byte g p = meta g ! p"

definition bytes_ovf :: "bytes_group \<Rightarrow> nat \<Rightarrow> bool" where
  "bytes_ovf g i = bit (meta g ! 15) i"

lemmas bytes_views = bytes_ok_def bytes_byte_def bytes_ovf_def group_N_def
  available_byte_def sentinel_byte_def

lemma movemask_bits:
  "length a = 16 \<Longrightarrow> bit (mm_movemask_epi8 a) p = (p < 16 \<and> bit (a ! p) 7)"
  by (auto simp: mm_movemask_epi8_def bit_horner_sum_bit_word_iff)

lemma lanes_eq: "length a = 16 \<Longrightarrow> length b = 16 \<Longrightarrow> p < 16 \<Longrightarrow>
  mm_cmpeq_epi8 a b ! p = (if a ! p = b ! p then 0xFF else 0)"
  by (simp add: mm_cmpeq_epi8_def)

lemma bit_7FFF [simp]: "bit (0x7FFF :: int) p = (p < 15)"
proof -
  have "(0x7FFF :: int) = mask 15" by (simp add: mask_eq_exp_minus_1)
  then show ?thesis by (simp only: bit_mask_iff) simp
qed

lemma bit_7FFF_word: "bit (0x7FFF :: u32) p = (p < 15)"
  by auto

lemma sse_cmp_bits:
  assumes "length a = 16"
  shows "bit (mm_movemask_epi8 (mm_cmpeq_epi8 a (replicate 16 x)) AND 0x7FFF) p
    = (p < 15 \<and> a ! p = x)"
proof -
  have "length (mm_cmpeq_epi8 a (replicate 16 x)) = 16"
    using assms by (simp add: mm_cmpeq_epi8_def)
  moreover have "bit (0xFF :: u8) 7" by simp
  ultimately show ?thesis using assms
    by (auto simp: bit_and_iff movemask_bits lanes_eq split: if_splits)
qed

lemma length_16_cases:
  assumes "length (a :: 'a list) = 16"
  obtains a0 a1 a2 a3 a4 a5 a6 a7 a8 a9 a10 a11 a12 a13 a14 a15
  where "a = [a0, a1, a2, a3, a4, a5, a6, a7, a8, a9, a10, a11, a12, a13, a14, a15]"
  using assms by (auto simp: numeral_eq_Suc length_Suc_conv)

lemma and_full: "(x :: u8) AND (if b then 0xFF else 0) = (if b then x else 0)"
proof -
  have full: "(0xFF :: u8) = - 1" by simp
  show ?thesis by (cases b) (simp_all only: full if_True if_False and.right_neutral bit.conj_zero_right)
qed

text \<open>
  The NEON emulation masks lane i with bit i mod 8, interleaves the two halves and adds the
  eight 16-bit lanes; on lanes that are all ones or all zeros this is the SSE2 movemask.
\<close>

definition full_lanes :: "bool list \<Rightarrow> vec" where
  "full_lanes bs = map (\<lambda>b. if b then 0xFF else 0) bs"

lemma if_of_bool: "(if b then x else 0) = of_bool b * (x :: 'a::semiring_1)"
  by simp

lemma simde_movemask_full:
  assumes "length bs = 16"
  shows "simde_mm_movemask_epi8 (full_lanes bs) = horner_sum of_bool 2 bs"
proof -
  have "ucast (horner_sum of_bool 2 bs :: u16) = (horner_sum of_bool 2 bs :: u32)"
    using assms by (intro bit_word_eqI) (auto simp: bit_unsigned_iff bit_horner_sum_bit_word_iff)
  moreover have "vaddvq_u16 (vzip_lanes (vandq_u8 neon_md (full_lanes bs))) = horner_sum of_bool 2 bs"
    using assms
    by (elim length_16_cases)
      (simp add: vaddvq_u16_def vzip_lanes_def vandq_u8_def neon_md_def full_lanes_def and_full
        if_of_bool)
  ultimately show ?thesis by (simp add: simde_mm_movemask_epi8_def)
qed

lemma vceqq_full:
  "length a = 16 \<Longrightarrow> vceqq_u8 a (vdupq_n_u8 x) = full_lanes (map (\<lambda>y. y = x) a)"
  by (rule nth_equalityI) (simp_all add: vceqq_u8_def vdupq_n_u8_def full_lanes_def)

lemma vcgtq_full:
  "length a = 16 \<Longrightarrow> vcgtq_u8 a (vdupq_n_u8 x) = full_lanes (map (\<lambda>y. x < y) a)"
  by (rule nth_equalityI) (simp_all add: vcgtq_u8_def vdupq_n_u8_def full_lanes_def)

lemma simde_mask_bits:
  assumes "length a = 16"
  shows "bit (simde_mm_movemask_epi8 (full_lanes (map P a)) AND 0x7FFF) p = (p < 15 \<and> P (a ! p))"
  using assms by (auto simp: simde_movemask_full bit_and_iff bit_horner_sum_bit_word_iff)

lemma overflow_shift_nth: "i < 8 \<Longrightarrow> overflow_shift ! i = 2 ^ i"
proof -
  assume "i < 8"
  moreover have "\<forall>i\<in>List.set [0..<8]. overflow_shift ! i = 2 ^ i" by code_simp
  ultimately show ?thesis by simp
qed

lemma and_single_bit:
  fixes x :: "'a::len word"
  shows "(x AND 2 ^ i = 0) = (\<not> bit x i)"
  by (auto simp: bit_eq_iff [of "x AND 2 ^ i"] bit_and_iff bit_exp_iff dest: bit_imp_le_length)

lemma overflow_test_nat: "((x :: u8) AND overflow_shift ! (n mod 8) = 0) = (\<not> bit x (n mod 8))"
  by (simp add: overflow_shift_nth and_single_bit)

lemma unat_byte_u64: "unat (ucast (b :: u8) :: u64) = unat b"
  by (simp add: unsigned_ucast_eq take_bit_nat_eq_self order_less_trans [OF unsigned_less])

lemma bytes_mark_bit: "i < 8 \<Longrightarrow> bit ((x :: u8) OR 2 ^ k) i = (bit x i \<or> i = k)"
  by (auto simp: bit_or_iff bit_exp_iff)

lemma not_available: "(0 :: u8) < x \<longleftrightarrow> x \<noteq> 0"
  by (simp add: word_gt_0)

lemmas sse_group_defs = sse2_group_def sse_initialize_def sse_dummy_group_def sse_set_def
  sse_set_sentinel_def sse_is_sentinel_def sse_reset_def sse_match_def sse_is_not_overflowed_def
  sse_mark_overflow_def sse_maybe_caused_overflow_def sse_match_available_def
  sse_is_occupied_def sse_match_occupied_def sse_reduced_hash_eq sse_match_word_lanes

lemmas neon_group_defs = neon_group_def neon_initialize_def neon_dummy_group_def neon_set_def
  neon_set_sentinel_def neon_is_sentinel_def neon_reset_def neon_match_def
  neon_is_not_overflowed_def neon_mark_overflow_def neon_maybe_caused_overflow_def
  neon_match_available_def neon_is_occupied_def neon_match_occupied_def neon_reduced_hash_eq

lemma nth_dummy: "p < 15 \<Longrightarrow>
  [0, 0, 0, 0, 0, 0, 0, 0, 0, 0, 0, 0, 0, 0, 1, 0 :: u8] ! p = (if p = 14 then 1 else 0)"
  by (auto simp: numeral_eq_Suc less_Suc_eq)

lemma sse_available_bits:
  "bytes_ok g \<Longrightarrow> bit (sse_match_available g) p = (p < 15 \<and> meta g ! p = 0)"
  by (simp add: sse_match_available_def bytes_ok_def sse_cmp_bits)

lemma sse_occupied_bits:
  "bytes_ok g \<Longrightarrow> bit (sse_match_occupied g) p = (p < 15 \<and> meta g ! p \<noteq> 0)"
  by (auto simp: sse_match_occupied_def bit_and_iff bit_not_iff sse_available_bits)

interpretation sse: group15 sse2_group bytes_ok bytes_byte bytes_ovf
proof
  fix g :: bytes_group and h p
  show "bytes_ok g \<Longrightarrow> bit (g_match sse2_group g h) p = (p < 15 \<and> bytes_byte g p = reduced h)"
    by (simp add: sse_group_defs bytes_views sse_cmp_bits)
  show "bytes_ok g \<Longrightarrow> bit (g_match_available sse2_group g) p = (p < 15 \<and> bytes_byte g p = 0)"
    by (simp add: sse_group_defs bytes_views sse_cmp_bits)
  show "bytes_ok g \<Longrightarrow> bit (g_match_occupied sse2_group g) p = (p < 15 \<and> bytes_byte g p \<noteq> 0)"
    by (simp add: sse2_group_def sse_occupied_bits bytes_views)
qed (auto simp: sse_group_defs bytes_views nth_dummy overflow_test_nat unat_byte_u64 bytes_mark_bit
    nth_list_update nth_Cons')

interpretation neon: group15 neon_group bytes_ok bytes_byte bytes_ovf
proof
  fix g :: bytes_group and h p
  show "bytes_ok g \<Longrightarrow> bit (g_match neon_group g h) p = (p < 15 \<and> bytes_byte g p = reduced h)"
    by (simp add: neon_group_defs bytes_views vceqq_full simde_mask_bits)
  show "bytes_ok g \<Longrightarrow> bit (g_match_available neon_group g) p = (p < 15 \<and> bytes_byte g p = 0)"
    by (simp add: neon_group_defs bytes_views vceqq_full simde_mask_bits)
  show "bytes_ok g \<Longrightarrow> bit (g_match_occupied neon_group g) p = (p < 15 \<and> bytes_byte g p \<noteq> 0)"
    by (simp add: neon_group_defs bytes_views vcgtq_full simde_mask_bits not_available)
qed (auto simp: neon_group_defs bytes_views nth_dummy overflow_test_nat unat_byte_u64 bytes_mark_bit
    nth_list_update nth_Cons' vdupq_n_u8_def)

section \<open>Bit-interleaved variant\<close>

text \<open>Bit i of the byte at p: bit p of the i-th 16-bit lane.\<close>

definition ns_bit :: "words_group \<Rightarrow> nat \<Rightarrow> nat \<Rightarrow> bool" where
  "ns_bit g i p = bit (if i < 4 then m0 g else m1 g) (16 * (i mod 4) + p)"

definition ns_byte :: "words_group \<Rightarrow> nat \<Rightarrow> u8" where
  "ns_byte g p = horner_sum of_bool 2 (map (\<lambda>i. ns_bit g i p) [0..<8])"

definition ns_ovf :: "words_group \<Rightarrow> nat \<Rightarrow> bool" where
  "ns_ovf g i = ns_bit g i 15"

definition ns_ok :: "words_group \<Rightarrow> bool" where
  "ns_ok g = True"

lemma ns_byte_bit: "i < 8 \<Longrightarrow> bit (ns_byte g p) i = ns_bit g i p"
  by (simp add: ns_byte_def bit_horner_sum_bit_word_iff)

lemma ns_byte_eq: "(ns_byte g p = b) = (\<forall>i < 8. ns_bit g i p = bit b i)"
  by (auto simp: ns_byte_bit intro!: bit_word_eqI)

lemma set_masks:
  "\<forall>n\<in>List.set [0..<16]. \<forall>j\<in>List.set [0..<64].
     bit (ns_set_mask ! n) j = (j mod 16 = 0 \<and> bit n (j div 16)) \<and>
     bit (ns_set_imask ! n) j = (j mod 16 = 0 \<and> \<not> bit n (j div 16))"
  by code_simp

lemma match_masks:
  "\<forall>n\<in>List.set [0..<16]. \<forall>j\<in>List.set [0..<64]. bit (ns_match_mask ! n) j = bit n (j div 16)"
  by code_simp

lemma lane_split:
  assumes "q < 16" "pos < 16" "pos \<le> 16 * k + q"
  shows "(16 * k + q - pos) mod 16 = (0::nat) \<longleftrightarrow> q = pos"
    and "q = pos \<Longrightarrow> (16 * k + q - pos) div 16 = k"
proof -
  show "(16 * k + q - pos) mod 16 = 0 \<longleftrightarrow> q = pos"
  proof
    assume "(16 * k + q - pos) mod 16 = 0"
    then obtain d where "16 * k + q - pos = 16 * d" by (auto simp: mod_eq_0_iff_dvd)
    with assms(3) have "16 * k + q = 16 * d + pos" by linarith
    then have "(16 * k + q) mod 16 = (16 * d + pos) mod 16" by simp
    with assms(1,2) show "q = pos" by simp
  qed simp
qed simp

lemma ns_set_word_bit:
  assumes "k < 4" "q < 16" "pos < 16" "unat n < 16"
  shows "bit (ns_set_word x pos n) (16 * k + q)
    = (if q = pos then bit n k else bit x (16 * k + q))"
proof -
  let ?j = "16 * k + q"
  have j: "?j < 64" using assms by simp
  have n: "unat n \<in> List.set [0..<16]" and jj: "?j - pos \<in> List.set [0..<64]"
    using assms by simp_all
  note masks = bspec [OF bspec [OF set_masks n] jj]
  have bn: "bit (unat n) k = bit n k" by (auto simp: bit_unsigned_iff dest: bit_imp_le_length)
  have "bit (ns_set_word x pos n) ?j
    = ((bit x ?j \<or> pos \<le> ?j \<and> bit (ns_set_mask ! unat n) (?j - pos)) \<and>
       \<not> (pos \<le> ?j \<and> bit (ns_set_imask ! unat n) (?j - pos)))"
    using j by (simp add: ns_set_word_def Let_def bit_facts)
  moreover have "pos \<le> ?j \<Longrightarrow> bit (ns_set_mask ! unat n) (?j - pos) = (q = pos \<and> bit n k)"
    and "pos \<le> ?j \<Longrightarrow> bit (ns_set_imask ! unat n) (?j - pos) = (q = pos \<and> \<not> bit n k)"
    using masks lane_split [OF assms(2,3), of k] bn by metis+
  moreover have "pos \<le> ?j" if "q = pos" using that by simp
  ultimately show ?thesis by metis
qed

lemma low_nibble: "unat ((n :: u8) AND 0xF) < 16" and high_nibble: "unat (drop_bit 4 (n :: u8)) < 16"
proof -
  have "unat (n AND 0xF) = unat n mod 16"
    using and_mask_mod [of n 4] by simp
  then show "unat (n AND 0xF) < 16" by simp
  show "unat (drop_bit 4 n) < 16"
    using unsigned_less [of n, where ?'a = nat] by (simp add: unat_drop_bit less_mult_imp_div_less)
qed

lemma low_nibble_bit: "k < 4 \<Longrightarrow> bit ((n :: u8) AND 0xF) k = bit n k"
proof -
  assume k: "k < 4"
  have "(0xF :: u8) = mask 4" by (simp add: mask_eq_exp_minus_1)
  then show ?thesis using k by (simp only: bit_and_iff bit_mask_iff) simp
qed

lemma high_nibble_bit: "bit (drop_bit 4 (n :: u8)) k = bit n (4 + k)"
  by (simp add: bit_drop_bit_eq)

lemma ns_set_impl_bit:
  assumes "i < 8" "q < 16" "pos < 16"
  shows "ns_bit (ns_set_impl g pos n) i q = (if q = pos then bit n i else ns_bit g i q)"
  using assms ns_set_word_bit [OF _ assms(2,3) low_nibble [of n], of i "m0 g"]
    ns_set_word_bit [OF _ assms(2,3) high_nibble [of n], of "i - 4" "m1 g"]
  by (cases "i < 4") (auto simp: ns_bit_def ns_set_impl_def low_nibble_bit high_nibble_bit
      mod_if [of i 4])

lemma ns_set_impl_views:
  assumes "p < 15"
  shows "q < 15 \<Longrightarrow> ns_byte (ns_set_impl g p n) q = (if q = p then n else ns_byte g q)"
    and "i < 8 \<Longrightarrow> ns_ovf (ns_set_impl g p n) i = ns_ovf g i"
  using assms by (auto simp: ns_byte_eq ns_set_impl_bit ns_byte_bit ns_ovf_def)

lemma all_less_4: "(\<forall>k < 4. P k) = (P 0 \<and> P 1 \<and> P 2 \<and> P (3::nat))"
  by (simp add: numeral_eq_Suc All_less_Suc) blast

lemma all_less_8: "(\<forall>k < 8. P k) = ((\<forall>k < 4. P k) \<and> (\<forall>k < 4. P (4 + k :: nat)))"
proof -
  have "(\<forall>k < 8. P k) = (\<forall>k. (k < 4 \<longrightarrow> P k) \<and> (4 \<le> k \<and> k < 8 \<longrightarrow> P k))"
    by (auto simp: not_less)
  moreover have "(\<forall>k. 4 \<le> k \<and> k < 8 \<longrightarrow> P k) = (\<forall>k < 4. P (4 + k))"
    by (metis add_less_cancel_left le_add1 le_add_diff_inverse numeral_Bit0)
  ultimately show ?thesis by blast
qed

lemma and_fold_bits:
  fixes x :: u64
  defines "y \<equiv> ucast (x AND drop_bit 32 x) :: u32"
  shows "bit ((y AND drop_bit 16 y) AND 0x7FFF) p = (p < 15 \<and> (\<forall>k < 4. bit x (16 * k + p)))"
  unfolding all_less_4 y_def by (auto simp: bit_facts bit_unsigned_iff add.commute)

lemma or_fold_bits:
  fixes x :: u64
  defines "y \<equiv> ucast (x OR drop_bit 32 x) :: u32"
  shows "bit ((y OR drop_bit 16 y) AND 0x7FFF) p = (p < 15 \<and> (\<exists>k < 4. bit x (16 * k + p)))"
proof -
  have ex: "(\<exists>k < 4. bit x (16 * k + p))
    = (bit x p \<or> bit x (16 + p) \<or> bit x (32 + p) \<or> bit x (48 + p))"
    using all_less_4 [of "\<lambda>k. \<not> bit x (16 * k + p)"] by auto
  show ?thesis unfolding ex y_def by (auto simp: bit_facts bit_unsigned_iff add.commute)
qed

lemma ns_bit_low: "i < 4 \<Longrightarrow> ns_bit g i p = bit (m0 g) (16 * i + p)"
  by (simp add: ns_bit_def)

lemma ns_bit_high: "i < 4 \<Longrightarrow> ns_bit g (4 + i) p = bit (m1 g) (16 * i + p)"
  by (simp add: ns_bit_def)

lemma ns_byte_nibbles: "(ns_byte g p = b) = (\<forall>i < 4. bit (m0 g) (16 * i + p) = bit b i \<and>
    bit (m1 g) (16 * i + p) = bit b (4 + i))"
  unfolding ns_byte_eq all_less_8 by (auto simp: ns_bit_low ns_bit_high)

lemma ns_match_mask_bit:
  assumes "unat (n :: u8) < 16" "k < 4" "p < 16"
  shows "bit (ns_match_mask ! unat n) (16 * k + p) = bit n k"
proof -
  have n: "unat n \<in> List.set [0..<16]" and j: "16 * k + p \<in> List.set [0..<64]"
    using assms by simp_all
  have "bit (unat n) k = bit n k" by (auto simp: bit_unsigned_iff dest: bit_imp_le_length)
  with bspec [OF bspec [OF match_masks n] j] assms(3) show ?thesis by simp
qed

lemma ns_match_impl_bits: "bit (ns_match_impl g n) p = (p < 15 \<and> ns_byte g p = n)"
proof -
  define x where "x = NOT ((m1 g XOR ns_match_mask ! unat (drop_bit 4 n))
    OR (m0 g XOR ns_match_mask ! unat (n AND 0xF)))"
  have "bit x (16 * k + p) = (bit (m0 g) (16 * k + p) = bit n k \<and>
      bit (m1 g) (16 * k + p) = bit n (4 + k))" if "k < 4" "p < 15" for k
    using that ns_match_mask_bit [OF low_nibble [of n] that(1), of p, unfolded low_nibble_bit [OF that(1)]]
      ns_match_mask_bit [OF high_nibble [of n] that(1), of p, unfolded high_nibble_bit]
    by (auto simp: x_def bit_facts)
  then have "(p < 15 \<and> (\<forall>k < 4. bit x (16 * k + p))) = (p < 15 \<and> ns_byte g p = n)"
    by (auto simp: ns_byte_nibbles)
  then show ?thesis
    using and_fold_bits [of x p] by (simp add: ns_match_impl_def Let_def x_def)
qed

lemma ns_available_bits: "bit (ns_match_available g) p = (p < 15 \<and> ns_byte g p = 0)"
proof -
  have "bit (NOT (m0 g OR m1 g)) (16 * k + p)
      = (\<not> bit (m0 g) (16 * k + p) \<and> \<not> bit (m1 g) (16 * k + p))" if "k < 4" "p < 15" for k
    using that by (auto simp: bit_facts)
  then have "(p < 15 \<and> (\<forall>k < 4. bit (NOT (m0 g OR m1 g)) (16 * k + p)))
    = (p < 15 \<and> ns_byte g p = 0)"
    by (auto simp: ns_byte_nibbles)
  then show ?thesis
    using and_fold_bits [of "NOT (m0 g OR m1 g)" p]
    by (simp only: ns_match_available_def Let_def)
qed

lemma ns_occupied_bits: "bit (ns_match_occupied g) p = (p < 15 \<and> ns_byte g p \<noteq> 0)"
proof -
  have "(\<exists>k < 4. bit (m0 g OR m1 g) (16 * k + p)) = (ns_byte g p \<noteq> 0)"
    by (auto simp: ns_byte_nibbles bit_or_iff)
  then show ?thesis
    using or_fold_bits [of "m0 g OR m1 g" p] by (simp only: ns_match_occupied_def Let_def)
qed

lemma ns_not_overflowed: "ns_is_not_overflowed g h = (\<not> ns_ovf g (unat h mod 8))"
proof -
  have c: "(0x8000 :: u16) = 2 ^ 15" by simp
  have "bit (ns_lane g i) 15 = ns_ovf g i" if "i < 8" for i
    using that by (auto simp: ns_lane_def ns_ovf_def ns_bit_def bit_unsigned_iff bit_drop_bit_eq
        mod_if [of i 4])
  then show ?thesis by (simp only: ns_is_not_overflowed_def c and_single_bit mod_less_divisor zero_less_numeral)
qed

lemma lane_top_bit:
  assumes "i < 4" "j < 4" "p < 16"
  shows "bit ((w :: u64) OR push_bit (16 * j) 0x8000) (16 * i + p)
    = (bit w (16 * i + p) \<or> i = j \<and> p = 15)"
proof -
  have "(0x8000 :: u64) = 2 ^ 15" by simp
  then have c: "push_bit (16 * j) 0x8000 = (2 ^ (16 * j + 15) :: u64)"
    by (simp only: push_bit_eq_mult power_add mult.commute)
  have "16 * i + p = 16 * j + 15 \<longleftrightarrow> i = j \<and> p = 15"
  proof
    assume eq: "16 * i + p = 16 * j + 15"
    then have "(16 * i + p) mod 16 = (16 * j + 15) mod 16" by (rule arg_cong)
    with assms(3) have "p = 15" by simp
    with eq show "i = j \<and> p = 15" by simp
  qed simp
  with assms show ?thesis unfolding c by (auto simp: bit_or_iff bit_exp_iff)
qed

lemma ns_mark_bit:
  assumes "i < 8" "p < 16"
  shows "ns_bit (ns_mark_overflow g h) i p = (ns_bit g i p \<or> p = 15 \<and> i = unat h mod 8)"
proof -
  define j where "j = unat h mod 8"
  then have j: "j < 8" by simp
  have m: "ns_mark_overflow g h
    = (if j < 4 then g\<lparr> m0 := m0 g OR push_bit (16 * j) 0x8000 \<rparr>
       else g\<lparr> m1 := m1 g OR push_bit (16 * (j - 4)) 0x8000 \<rparr>)"
    unfolding ns_mark_overflow_def j_def [symmetric] Let_def ..
  show ?thesis
  proof (cases "i < 4")
    case True
    then show ?thesis unfolding m j_def [symmetric]
      using lane_top_bit [OF True _ assms(2), of j "m0 g"]
      by (cases "j < 4") (auto simp: ns_bit_low simp del: push_bit_numeral)
  next
    case False
    then obtain i' where i: "i = 4 + i'" and i': "i' < 4"
      using assms(1) by (metis add_diff_inverse_nat less_diff_conv2 not_less numeral_Bit0 add_less_cancel_left)
    have "j - 4 < 4" using j by simp
    with i' show ?thesis unfolding m j_def [symmetric] i
      using lane_top_bit [OF i' _ assms(2), of "j - 4" "m1 g"]
      by (cases "j < 4") (auto simp: ns_bit_high)
  qed
qed

lemma ns_mark_views:
  shows "p < 15 \<Longrightarrow> ns_byte (ns_mark_overflow g h) p = ns_byte g p"
    and "i < 8 \<Longrightarrow> ns_ovf (ns_mark_overflow g h) i = (ns_ovf g i \<or> i = unat h mod 8)"
  by (auto simp: ns_byte_eq ns_byte_bit ns_mark_bit ns_ovf_def)

lemma ns_maybe: 
  assumes "p < 15"
  shows "ns_maybe_caused_overflow g p = ns_ovf g (unat (ns_byte g p) mod 8)"
proof -
  define x where "x = drop_bit p (m0 g) AND 0x000100010001"
  define y where "y = (ucast (x OR drop_bit 15 x OR drop_bit 30 x) :: u32)"
  have masks: "\<forall>j\<in>List.set [0..<64]. bit (0x000100010001 :: u64) j = (j = 0 \<or> j = 16 \<or> j = 32)"
    by code_simp
  have x: "bit x j = ((j = 0 \<or> j = 16 \<or> j = 32) \<and> bit (m0 g) (p + j))" if "j < 64" for j
    using bspec [OF masks, of j] that
    by (simp only: x_def bit_and_iff bit_drop_bit_eq) auto
  have y: "bit y k = bit (ns_byte g p) k" if "k < 3" for k
  proof -
    have "bit y k = (bit x k \<or> bit x (15 + k) \<or> bit x (30 + k))"
      using that by (simp add: y_def bit_unsigned_iff bit_or_iff bit_drop_bit_eq)
    also have "\<dots> = bit (m0 g) (16 * k + p)"
    proof -
      from that consider "k = 0" | "k = 1" | "k = 2" by linarith
      then show ?thesis by cases (simp_all add: x add.commute)
    qed
    finally show ?thesis using that by (simp add: ns_byte_bit ns_bit_low)
  qed
  have "take_bit 3 (unat y) = take_bit 3 (unat (ns_byte g p))"
    by (rule bit_eqI) (auto simp: bit_take_bit_iff bit_unsigned_iff y dest: bit_imp_le_length)
  then have "unat y mod 8 = unat (ns_byte g p) mod 8" by (simp add: take_bit_eq_mod)
  moreover have "unat (ucast y :: u64) = unat y"
    by (simp add: unsigned_ucast_eq take_bit_nat_eq_self order_less_trans [OF unsigned_less])
  ultimately show ?thesis
    by (simp add: ns_maybe_caused_overflow_def Let_def ns_not_overflowed flip: x_def y_def)
qed

lemma ns_byte_zero: "ns_byte \<lparr> m0 = 0, m1 = 0 \<rparr> p = 0"
  by (simp add: ns_byte_nibbles)

lemma ns_ovf_zero: "\<not> ns_ovf \<lparr> m0 = 0, m1 = 0 \<rparr> i"
  by (simp add: ns_ovf_def ns_bit_def)

lemma ns_dummy_views:
  "\<forall>p\<in>List.set [0..<15]. ns_byte ns_dummy_group p = (if p = 14 then 1 else 0)"
  "\<forall>i\<in>List.set [0..<8]. \<not> ns_ovf ns_dummy_group i"
  by code_simp+

lemma sentinel_mask_bits:
  "\<forall>j\<in>List.set [0..<64]. bit (0x4000400040004000 :: u64) j = (j mod 16 = 14)"
  "\<forall>j\<in>List.set [0..<64]. bit (0x4000 :: u64) j = (j = 14)"
  by code_simp+

lemma sentinel_one:
  "\<forall>i\<in>List.set [0..<4]. bit (1 :: u8) i = (i = 0) \<and> \<not> bit (1 :: u8) (4 + i)"
  by code_simp

lemma word64_eq_lanes:
  "((x :: u64) = y) = (\<forall>k < 4. \<forall>q < 16. bit x (16 * k + q) = bit y (16 * k + q))"
proof
  assume eq: "\<forall>k < 4. \<forall>q < 16. bit x (16 * k + q) = bit y (16 * k + q)"
  show "x = y"
  proof (rule bit_word_eqI)
    fix j assume "j < LENGTH(64)"
    then have "j div 16 < 4" "j mod 16 < 16" by (simp_all add: less_mult_imp_div_less)
    with eq have "bit x (16 * (j div 16) + j mod 16) = bit y (16 * (j div 16) + j mod 16)" by blast
    then show "bit x j = bit y j" by simp
  qed
qed simp

lemma masked_lanes:
  "((x :: u64) AND 0x4000400040004000 = y) = (\<forall>k < 4. \<forall>q < 16.
     (q = 14 \<and> bit x (16 * k + q)) = bit y (16 * k + q))"
proof -
  have "bit (x AND 0x4000400040004000) (16 * k + q) = (q = 14 \<and> bit x (16 * k + q))"
    if "k < 4" "q < 16" for k q
    using bspec [OF sentinel_mask_bits(1), of "16 * k + q"] that
    by (simp only: bit_and_iff) auto
  then show ?thesis unfolding word64_eq_lanes by auto
qed

lemma lane_14: "(\<forall>k < 4. \<forall>q < 16. (q = 14 \<and> B k q) = (k = 0 \<and> q = 14))
    = (\<forall>k < 4 :: nat. B k (14 :: nat) = (k = (0 :: nat)))"
proof -
  have "(\<forall>q < 16. (q = 14 \<and> B k q) = (k = 0 \<and> q = 14)) = (B k 14 = (k = 0))" for k :: nat
  proof
    assume "\<forall>q < 16. (q = 14 \<and> B k q) = (k = 0 \<and> q = 14)"
    from spec [OF this, of 14] show "B k 14 = (k = 0)" by simp
  qed auto
  then show ?thesis by simp
qed

lemma ns_is_sentinel_eq:
  "ns_is_sentinel g p = (p = 14 \<and> ns_byte g 14 = 1)"
proof -
  have "(m0 g AND 0x4000400040004000 = 0x4000) = (\<forall>k < 4. bit (m0 g) (16 * k + 14) = (k = 0))"
  proof -
    have "bit (0x4000 :: u64) (16 * k + q) = (k = 0 \<and> q = 14)" if "k < 4" "q < 16" for k q
      using bspec [OF sentinel_mask_bits(2), of "16 * k + q"] that by (cases "k = 0") auto
    then have "(m0 g AND 0x4000400040004000 = 0x4000) = (\<forall>k < 4. \<forall>q < 16.
        (q = 14 \<and> bit (m0 g) (16 * k + q)) = (k = 0 \<and> q = 14))"
      unfolding masked_lanes by auto
    then show ?thesis unfolding lane_14 .
  qed
  moreover have "(m1 g AND 0x4000400040004000 = 0) = (\<forall>k < 4. \<not> bit (m1 g) (16 * k + 14))"
    unfolding masked_lanes by auto
  moreover have "(ns_byte g 14 = 1) = (\<forall>k < 4. bit (m0 g) (16 * k + 14) = (k = 0) \<and>
      \<not> bit (m1 g) (16 * k + 14))"
    unfolding ns_byte_nibbles using sentinel_one by auto
  ultimately show ?thesis unfolding ns_is_sentinel_def group_N_def by auto
qed

lemma ns_is_occupied_eq:
  assumes "p < 15"
  shows "ns_is_occupied g p = (ns_byte g p \<noteq> 0)"
proof -
  have masks: "\<forall>j\<in>List.set [0..<64]. bit (0x0001000100010001 :: u64) j = (j mod 16 = 0)"
    by code_simp
  have bits: "bit (push_bit p (0x0001000100010001 :: u64)) (16 * k + q) = (q = p)"
    if "k < 4" "q < 16" for k q
  proof -
    have "16 * k + q - p \<in> List.set [0..<64]" using that by simp
    from bspec [OF masks this] lane_split(1) [of q p k] that assms
    show ?thesis by (auto simp only: bit_push_bit_iff) auto
  qed
  have p16: "p < 16" using assms by simp
  have "((m0 g OR m1 g) AND push_bit p 0x0001000100010001 = 0)
    = (\<forall>k < 4. \<not> bit (m0 g OR m1 g) (16 * k + p))"
    using p16 by (simp only: word64_eq_lanes bit_and_iff bit_0_eq bot_apply) (auto simp: bits)
  then show ?thesis
    by (auto simp: ns_is_occupied_def ns_byte_nibbles bit_or_iff)
qed

lemmas ns_group_defs = nosimd_group_def ns_initialize_def ns_set_def ns_set_sentinel_def
  ns_reset_def ns_match_def group_N_def available_byte_def sentinel_byte_def ns_ok_def

interpretation ns: group15 nosimd_group ns_ok ns_byte ns_ovf
  using ns_dummy_views
  by unfold_locales
    (auto simp: ns_group_defs ns_set_impl_views ns_byte_zero ns_match_impl_bits ns_reduced_hash_eq
      ns_available_bits ns_occupied_bits ns_not_overflowed ns_maybe ns_is_sentinel_eq
      ns_is_occupied_eq ns_ovf_zero ns_mark_views nosimd_group_def)

end
