(* ===== verification/Boost_Inv.thy ===== *)
theory Boost_Inv
  imports Boost_Masks Boost_Group_Laws
begin

text \<open>
  The representation invariant of the open-addressing table and its abstraction to a map. A
  metadata byte tells exactly what its slot holds; every group the prober passes before the
  group an element lives in has the overflow bit of the element's hash set; keys are distinct;
  the last slot is the sentinel. The locale \<open>foa_table\<close> extends the group contract to a table's
  type parameters, and the steps of the operations on an array pair are proved in it.
\<close>

section \<open>Slots as a list\<close>

definition somes :: "'e option list \<Rightarrow> 'e list" where
  "somes es = concat (map (case_option [] (\<lambda>e. [e])) es)"

lemma somes_simps [simp]:
  "somes [] = []" "somes (None # es) = somes es" "somes (Some e # es) = e # somes es"
  "somes (es @ fs) = somes es @ somes fs"
  by (simp_all add: somes_def)

lemma set_somes: "e \<in> List.set (somes es) \<longleftrightarrow> Some e \<in> List.set es"
  by (auto simp: somes_def split: option.splits)

lemma somes_split: "i < length es \<Longrightarrow> somes (es[i := x]) = somes (take i es) @ somes [x] @ somes (drop (Suc i) es)"
  by (simp add: upd_conv_take_nth_drop flip: somes_simps(4))

lemma somes_at: "i < length es \<Longrightarrow> somes es = somes (take i es) @ somes [es ! i] @ somes (drop (Suc i) es)"
  using somes_split [of i es "es ! i"] by simp

lemma somes_replicate_None [simp]: "somes (replicate n None) = []"
  by (induction n) auto

definition keys_unique :: "('k \<times> 'v) option list \<Rightarrow> bool" where
  "keys_unique es = (\<forall>i < length es. \<forall>j < length es. \<forall>k v v'.
     es ! i = Some (k, v) \<longrightarrow> es ! j = Some (k, v') \<longrightarrow> i = j)"

lemma keys_unique_distinct: "keys_unique es \<Longrightarrow> distinct (map fst (somes es))"
proof (induction es rule: rev_induct)
  case (snoc x es)
  have at: "(es @ [x]) ! i = es ! i" if "i < length es" for i using that by (simp add: nth_append)
  have "keys_unique es"
    using snoc.prems unfolding keys_unique_def by (metis at length_append_singleton less_SucI)
  then have IH: "distinct (map fst (somes es))" by (rule snoc.IH)
  show ?case
  proof (cases x)
    case (Some e)
    obtain k v where e: "e = (k, v)" by (cases e)
    have "k \<notin> fst ` List.set (somes es)"
    proof
      assume "k \<in> fst ` List.set (somes es)"
      then obtain v' where "Some (k, v') \<in> List.set es" by (auto simp: set_somes)
      then obtain i where i: "i < length es" "es ! i = Some (k, v')" by (auto simp: in_set_conv_nth)
      have "i = length es"
        using snoc.prems i at [OF i(1)] unfolding keys_unique_def Some e
        by (metis length_append_singleton less_SucI lessI nth_append_length)
      with i show False by simp
    qed
    with IH show ?thesis by (simp add: Some e)
  qed (use IH in simp)
qed simp

definition slots :: "('g, 'e) table_arrays \<Rightarrow> 'e option list" where
  "slots a = (case elements a of None \<Rightarrow> [] | Some es \<Rightarrow> es)"

definition arr_map :: "('g, 'k \<times> 'v) table_arrays \<Rightarrow> 'k \<rightharpoonup> 'v" where
  "arr_map a = map_of (somes (slots a))"

lemma somes_nth: "e \<in> List.set (somes es) \<longleftrightarrow> (\<exists>i < length es. es ! i = Some e)"
  unfolding set_somes by (rule in_set_conv_nth)

lemma arr_map_Some:
  assumes "keys_unique (slots a)"
  shows "arr_map a k = Some v \<longleftrightarrow> (\<exists>i < length (slots a). slots a ! i = Some (k, v))"
  using keys_unique_distinct [OF assms] by (simp only: arr_map_def map_of_eq_Some_iff somes_nth)

lemma arr_map_None:
  "arr_map a k = None \<longleftrightarrow> (\<forall>i < length (slots a). \<forall>v. slots a ! i \<noteq> Some (k, v))"
proof -
  have "arr_map a k = None \<longleftrightarrow> (\<forall>v. (k, v) \<notin> List.set (somes (slots a)))"
    by (force simp: arr_map_def map_of_eq_None_iff)
  then show ?thesis unfolding somes_nth by blast
qed

text \<open>The element a locator stands for.\<close>

definition stores :: "('g, 'k \<times> 'v) table_arrays \<Rightarrow> locator \<Rightarrow> 'k \<times> 'v \<Rightarrow> bool" where
  "stores a loc e \<longleftrightarrow> snd loc < 15 \<and> fst loc * 15 + snd loc < length (slots a) \<and>
     slots a ! (fst loc * 15 + snd loc) = Some e"

section \<open>The invariant\<close>

definition a_exp :: "('g, 'e) table_arrays \<Rightarrow> nat" where
  "a_exp a = 64 - groups_size_index a"

definition home :: "('g, 'k) foa_types \<Rightarrow> ('g, 'e) table_arrays \<Rightarrow> 'k \<Rightarrow> nat" where
  "home T a k = position_for (hash_for T k) a"

text \<open>The group of probe number j for a key.\<close>

definition probe :: "('g, 'k) foa_types \<Rightarrow> ('g, 'e) table_arrays \<Rightarrow> 'k \<Rightarrow> nat \<Rightarrow> nat" where
  "probe T a k j = probe_seq (groups_size_mask a) (home T a k) j"

definition shape_ok :: "('g \<Rightarrow> bool) \<Rightarrow> ('g, 'e) table_arrays \<Rightarrow> bool" where
  "shape_ok ok a \<longleftrightarrow> groups_size_index a < 64 \<and> groups_size_mask a = 2 ^ a_exp a - Suc 0 \<and>
     length (groups a) = 2 ^ a_exp a \<and> (\<forall>g \<in> List.set (groups a). ok g) \<and>
     (elements a \<noteq> None \<longrightarrow> length (slots a) = 2 ^ a_exp a * 15 - Suc 0)"

text \<open>What the metadata byte of a slot has to be.\<close>

definition expected_byte :: "('g, 'k) foa_types \<Rightarrow> ('g, 'k \<times> 'v) table_arrays \<Rightarrow> nat \<Rightarrow> nat \<Rightarrow> u8" where
  "expected_byte T a pos n =
     (if elements a = None \<or> pos * 15 + n \<ge> length (slots a) then (if n = 14 then 1 else 0)
      else case slots a ! (pos * 15 + n) of None \<Rightarrow> 0 | Some e \<Rightarrow> reduced (hash_for T (fst e)))"

definition reachable_at ::
  "('g \<Rightarrow> nat \<Rightarrow> bool) \<Rightarrow> ('g, 'k) foa_types \<Rightarrow> ('g, 'k \<times> 'v) table_arrays \<Rightarrow> 'k \<Rightarrow> nat \<Rightarrow> bool" where
  "reachable_at ovf T a k pos \<longleftrightarrow> (\<exists>j < 2 ^ a_exp a. probe T a k j = pos \<and>
     (\<forall>i < j. ovf (groups a ! probe T a k i) (unat (hash_for T k) mod 8)))"

definition arr_inv ::
  "('g \<Rightarrow> bool) \<Rightarrow> ('g \<Rightarrow> nat \<Rightarrow> u8) \<Rightarrow> ('g \<Rightarrow> nat \<Rightarrow> bool) \<Rightarrow> ('g, 'k) foa_types \<Rightarrow>
   ('g, 'k \<times> 'v) table_arrays \<Rightarrow> bool" where
  "arr_inv ok byte ovf T a \<longleftrightarrow> shape_ok ok a \<and>
     (\<forall>pos < 2 ^ a_exp a. \<forall>n < 15. byte (groups a ! pos) n = expected_byte T a pos n) \<and>
     (elements a = None \<longrightarrow> (\<forall>pos < 2 ^ a_exp a. \<forall>i < 8. \<not> ovf (groups a ! pos) i)) \<and>
     (\<forall>i < length (slots a). \<forall>k v. slots a ! i = Some (k, v) \<longrightarrow> reachable_at ovf T a k (i div 15)) \<and>
     keys_unique (slots a)"

definition tab_inv where
  "tab_inv ok byte ovf T t \<longleftrightarrow> arr_inv ok byte ovf T (arrays t) \<and>
     ctrl_size t = length (somes (slots (arrays t))) \<and>
     ctrl_size t \<le> ctrl_ml t \<and> ctrl_ml t \<le> capacity (arrays t)"

definition tab_map :: "('g, 'k \<times> 'v) table_core \<Rightarrow> 'k \<rightharpoonup> 'v" where
  "tab_map t = arr_map (arrays t)"

section \<open>Reading the invariant\<close>

locale foa_table = group15 "grp T" ok byte ovf
  for T :: "('g, 'k) foa_types" and ok :: "'g \<Rightarrow> bool" and byte :: "'g \<Rightarrow> nat \<Rightarrow> u8"
    and ovf :: "'g \<Rightarrow> nat \<Rightarrow> bool"
begin

abbreviation inv :: "('g, 'k \<times> 'v) table_arrays \<Rightarrow> bool" where
  "inv a \<equiv> arr_inv ok byte ovf T a"

lemma shapeD:
  assumes "shape_ok ok a"
  shows "groups_size_mask a = 2 ^ a_exp a - Suc 0" and "length (groups a) = 2 ^ a_exp a"
    and "groups_size_index a = 64 - a_exp a" and "1 \<le> a_exp a" and "a_exp a \<le> 64"
    and "pos < 2 ^ a_exp a \<Longrightarrow> ok (groups a ! pos)"
    and "elements a \<noteq> None \<Longrightarrow> length (slots a) = 2 ^ a_exp a * 15 - Suc 0"
  using assms by (auto simp: shape_ok_def a_exp_def)

lemma invD:
  assumes "inv a"
  shows "shape_ok ok a"
    and "pos < 2 ^ a_exp a \<Longrightarrow> n < 15 \<Longrightarrow> byte (groups a ! pos) n = expected_byte T a pos n"
    and "i < length (slots a) \<Longrightarrow> slots a ! i = Some (k, v) \<Longrightarrow> reachable_at ovf T a k (i div 15)"
    and "keys_unique (slots a)"
    and "elements a = None \<Longrightarrow> pos < 2 ^ a_exp a \<Longrightarrow> m < 8 \<Longrightarrow> \<not> ovf (groups a ! pos) m"
  using assms by (auto simp: arr_inv_def)

lemma home_bound: "shape_ok ok a \<Longrightarrow> home T a k < 2 ^ a_exp a"
  unfolding home_def position_for_def
  using shapeD(3) [of a] position_bound [OF shapeD(4,5), of a] by simp

lemma probe_bound: "shape_ok ok a \<Longrightarrow> probe T a k j < 2 ^ a_exp a"
  unfolding probe_def using shapeD(1) [of a] probe_seq_bound [OF home_bound, of a] by simp

lemma probe_inj:
  "shape_ok ok a \<Longrightarrow> i < 2 ^ a_exp a \<Longrightarrow> j < 2 ^ a_exp a \<Longrightarrow> probe T a k i = probe T a k j \<Longrightarrow> i = j"
  unfolding probe_def using shapeD(1) [of a] probe_seq_inj [OF home_bound, of a] by simp

lemma probe_hits:
  assumes "shape_ok ok a" "pos < 2 ^ a_exp a"
  obtains j where "j < 2 ^ a_exp a" "probe T a k j = pos"
  unfolding probe_def
  using shapeD(1) [OF assms(1)] probe_seq_hits [OF home_bound [OF assms(1)] assms(2)] by metis

lemma slot_index: "n < 15 \<Longrightarrow> (pos * 15 + n) div 15 = pos \<and> (pos * 15 + n) mod 15 = (n :: nat)"
  by simp

lemma slot_in_range:
  assumes "shape_ok ok a" "i < length (slots a)"
  shows "i div 15 < 2 ^ a_exp a" and "elements a \<noteq> None"
proof -
  show e: "elements a \<noteq> None" using assms(2) by (cases "elements a") (auto simp: slots_def)
  have "i < 2 ^ a_exp a * 15" using shapeD(7) [OF assms(1) e] assms(2) by simp
  then show "i div 15 < 2 ^ a_exp a" by (simp add: less_mult_imp_div_less)
qed

lemma byte_at_slot:
  assumes "inv a" "i < length (slots a)"
  shows "byte (groups a ! (i div 15)) (i mod 15)
    = (case slots a ! i of None \<Rightarrow> 0 | Some e \<Rightarrow> reduced (hash_for T (fst e)))"
  using invD(2) [OF assms(1) slot_in_range(1) [OF invD(1) [OF assms(1)] assms(2)], of "i mod 15"]
    slot_in_range(2) [OF invD(1) [OF assms(1)] assms(2)] assms(2)
  by (simp add: expected_byte_def)

text \<open>A byte that is a reduced hash belongs to an occupied slot with that hash.\<close>

lemma expected_reduced:
  "expected_byte T a pos n = reduced h \<Longrightarrow> \<exists>e. pos * 15 + n < length (slots a) \<and>
     slots a ! (pos * 15 + n) = Some e \<and> reduced (hash_for T (fst e)) = reduced h"
  using reduced_not_0 [of h] reduced_not_1 [of h]
  by (auto simp: expected_byte_def split: if_splits option.splits)

lemma expected_zero:
  "(expected_byte T a pos n = 0) = (if elements a = None \<or> pos * 15 + n \<ge> length (slots a)
     then n \<noteq> 14 else slots a ! (pos * 15 + n) = None)"
  by (auto simp: expected_byte_def reduced_not_0 split: option.splits)

lemma expected_one:
  "(expected_byte T a pos n = 1) = ((elements a = None \<or> pos * 15 + n \<ge> length (slots a)) \<and> n = 14)"
  by (auto simp: expected_byte_def reduced_not_1 split: option.splits)

lemma sentinel_slot:
  assumes "shape_ok ok a" "elements a \<noteq> None" "pos < 2 ^ a_exp a" "n < 15"
  shows "pos * 15 + n \<ge> length (slots a) \<longleftrightarrow> pos = 2 ^ a_exp a - 1 \<and> n = 14"
proof -
  have "length (slots a) = 2 ^ a_exp a * 15 - Suc 0" by (rule shapeD(7) [OF assms(1,2)])
  moreover have "pos * 15 + 15 \<le> 2 ^ a_exp a * 15" using assms(3) by (metis Suc_leI mult_Suc add.commute mult_le_mono1)
  ultimately show ?thesis using assms(3,4) by auto
qed

lemma element_at_slot:
  assumes "elements a \<noteq> None" "slots a ! (pos * 15 + n) = Some e"
  shows "element_at a (pos, n) = e"
  using assms by (auto simp: element_at_def group_N_def slots_def)

end

end
