(* ===== verification/Boost_Find.thy ===== *)
theory Boost_Find
  imports Boost_Inv
begin

text \<open>
  Lookup: find returns the slot of a key that is present and nothing otherwise. The probe loop
  may stop at a group without the key's overflow bit, because every group before the key's own
  has it.
\<close>

context foa_table
begin

text \<open>What a group's match loop sees of one group.\<close>

lemma group_scan:
  fixes a :: "('g, 'k \<times> 'v) table_arrays" and x :: 'k
  assumes inv: "inv a" and pos: "pos < 2 ^ a_exp a"
  defines "P \<equiv> \<lambda>n. x = fst (element_at a (pos, n))"
  shows "scan_mask P (g_match (grp T) (groups a ! pos) (hash_for T x)) = Some n \<longleftrightarrow>
    n < 15 \<and> pos * 15 + n < length (slots a) \<and> (\<exists>v. slots a ! (pos * 15 + n) = Some (x, v))"
    (is "?scan = Some n \<longleftrightarrow> ?here n")
proof -
  define msk where "msk = g_match (grp T) (groups a ! pos) (hash_for T x)"
  note sh = invD(1) [OF inv]
  have bits: "bit msk m \<longleftrightarrow> m < 15 \<and> expected_byte T a pos m = reduced (hash_for T x)" for m
    unfolding msk_def using match_bits [OF shapeD(6) [OF sh pos]] invD(2) [OF inv pos] by auto
  have there: "?here m" if "bit msk m" "P m" for m
  proof -
    from that bits expected_reduced [of a pos m "hash_for T x"] obtain e where
      e: "m < 15" "pos * 15 + m < length (slots a)" "slots a ! (pos * 15 + m) = Some e" by blast
    have "element_at a (pos, m) = e" by (rule element_at_slot [OF slot_in_range(2) [OF sh e(2)] e(3)])
    with that(2) e show ?thesis by (cases e) (auto simp: P_def)
  qed
  have here: "bit msk m \<and> P m" if "?here m" for m
  proof -
    from that obtain v where v: "m < 15" "pos * 15 + m < length (slots a)"
      "slots a ! (pos * 15 + m) = Some (x, v)" by blast
    have el: "elements a \<noteq> None" by (rule slot_in_range(2) [OF sh v(2)])
    have "element_at a (pos, m) = (x, v)" by (rule element_at_slot [OF el v(3)])
    moreover have "expected_byte T a pos m = reduced (hash_for T x)"
      using el v by (auto simp: expected_byte_def)
    ultimately show ?thesis using v(1) by (simp add: bits P_def)
  qed
  have unique: "m = m'" if "?here m" "?here m'" for m m'
  proof -
    have "pos * 15 + m = pos * 15 + m'"
      using that invD(4) [OF inv] unfolding keys_unique_def by blast
    then show ?thesis by simp
  qed
  show ?thesis unfolding msk_def [symmetric]
  proof
    assume "scan_mask P msk = Some n"
    then show "?here n" using scan_mask_Some there by blast
  next
    assume n: "?here n"
    show "scan_mask P msk = Some n"
    proof (cases "scan_mask P msk")
      case None
      then show ?thesis using here [OF n] scan_mask_None [of P msk] by blast
    next
      case (Some m)
      then have "?here m" using scan_mask_Some there by blast
      with Some unique [OF n] show ?thesis by blast
    qed
  qed
qed

lemma scan_none_iff:
  fixes a :: "('g, 'k \<times> 'v) table_arrays"
  assumes "inv a" "pos < 2 ^ a_exp a"
  shows "scan_mask (\<lambda>n. x = fst (element_at a (pos, n)))
      (g_match (grp T) (groups a ! pos) (hash_for T x)) = None \<longleftrightarrow>
    (\<forall>n < 15. pos * 15 + n < length (slots a) \<longrightarrow> (\<forall>v. slots a ! (pos * 15 + n) \<noteq> Some (x, v)))"
  using group_scan [OF assms, of x] by (metis not_None_eq)

lemma find_from_step:
  fixes a :: "('g, 'k \<times> 'v) table_arrays"
  assumes "msk = groups_size_mask a"
  shows "find_from T a x hash (prober_at msk p j) =
    (case scan_mask (\<lambda>n. x = fst (element_at a (probe_seq msk p j, n)))
        (g_match (grp T) (groups a ! probe_seq msk p j) hash) of
       Some n \<Rightarrow> Some (probe_seq msk p j, n)
     | None \<Rightarrow>
        if g_is_not_overflowed (grp T) (groups a ! probe_seq msk p j) hash \<or> \<not> Suc j \<le> groups_size_mask a
        then None else find_from T a x hash (prober_at (groups_size_mask a) p (Suc j)))"
  by (subst find_from.simps) (simp add: Let_def prober_next_at assms split: option.splits)

lemma find_from_present:
  fixes a :: "('g, 'k \<times> 'v) table_arrays"
  assumes inv: "inv a" and i: "i < length (slots a)" "slots a ! i = Some (x, v)"
    and jx: "jx < 2 ^ a_exp a" "probe T a x jx = i div 15"
    and ov: "\<forall>m < jx. ovf (groups a ! probe T a x m) (unat (hash_for T x) mod 8)"
  shows "j \<le> jx \<Longrightarrow> find_from T a x (hash_for T x) (prober_at (groups_size_mask a) (home T a x) j)
    = Some (i div 15, i mod 15)"
proof (induction "jx - j" arbitrary: j)
  case 0
  then have "probe T a x j = i div 15" using jx by simp
  moreover have "i div 15 * 15 + i mod 15 = i" by simp
  ultimately show ?case
    using group_scan [OF inv slot_in_range(1) [OF invD(1) [OF inv] i(1)], of x "i mod 15"] i
    by (simp add: find_from_step probe_def)
next
  case (Suc d)
  then have j: "j < jx" by simp
  let ?pos = "probe T a x j"
  note sh = invD(1) [OF inv]
  have pos: "?pos < 2 ^ a_exp a" by (rule probe_bound [OF sh])
  have ne: "?pos \<noteq> i div 15" using probe_inj [OF sh, of j jx x] j jx by auto
  have "scan_mask (\<lambda>n. x = fst (element_at a (?pos, n)))
      (g_match (grp T) (groups a ! ?pos) (hash_for T x)) = None"
    unfolding scan_none_iff [OF inv pos]
  proof (intro allI impI notI)
    fix n v' assume n: "n < 15" "?pos * 15 + n < length (slots a)" "slots a ! (?pos * 15 + n) = Some (x, v')"
    then have "?pos * 15 + n = i" using invD(4) [OF inv] i unfolding keys_unique_def by blast
    with ne slot_index [OF n(1), of ?pos] show False by simp
  qed
  moreover have "\<not> g_is_not_overflowed (grp T) (groups a ! ?pos) (hash_for T x)"
    using ov j not_overflowed [OF shapeD(6) [OF sh pos]] by simp
  moreover have "Suc j \<le> groups_size_mask a" using j jx(1) shapeD(1) [OF sh] by simp
  moreover have "find_from T a x (hash_for T x) (prober_at (groups_size_mask a) (home T a x) (Suc j))
      = Some (i div 15, i mod 15)"
    using Suc j by simp
  ultimately show ?case by (subst find_from_step [OF refl]) (simp add: probe_def)
qed

lemma find_from_absent:
  fixes a :: "('g, 'k \<times> 'v) table_arrays"
  assumes inv: "inv a" and abs: "\<forall>i < length (slots a). \<forall>v. slots a ! i \<noteq> Some (x, v)"
  shows "find_from T a x (hash_for T x) (prober_at (groups_size_mask a) (home T a x) j) = None"
proof (induction "groups_size_mask a + 1 - j" arbitrary: j rule: less_induct)
  case less
  have "scan_mask (\<lambda>n. x = fst (element_at a (probe T a x j, n)))
      (g_match (grp T) (groups a ! probe T a x j) (hash_for T x)) = None"
    unfolding scan_none_iff [OF inv probe_bound [OF invD(1) [OF inv]]] using abs by blast
  moreover have "Suc j \<le> groups_size_mask a \<Longrightarrow>
      find_from T a x (hash_for T x) (prober_at (groups_size_mask a) (home T a x) (Suc j)) = None"
    by (rule less) simp
  ultimately show ?case by (subst find_from_step [OF refl]) (simp add: probe_def)
qed

lemma core_find_from: "core_find_at T t x (position_for (hash_for T x) (arrays t)) (hash_for T x)
    = find_from T (arrays t) x (hash_for T x) (prober_at (groups_size_mask (arrays t)) (home T (arrays t) x) 0)"
  by (simp only: core_find_at_def home_def prober_start_at [symmetric])

lemma core_find_present:
  fixes t :: "('g, 'k \<times> 'v) table_core"
  assumes inv: "inv (arrays t)" and i: "i < length (slots (arrays t))" "slots (arrays t) ! i = Some (x, v)"
  shows "core_find T t x = Some (i div 15, i mod 15)"
proof -
  obtain j where "j < 2 ^ a_exp (arrays t)" "probe T (arrays t) x j = i div 15"
    "\<forall>m < j. ovf (groups (arrays t) ! probe T (arrays t) x m) (unat (hash_for T x) mod 8)"
    using invD(3) [OF inv i] unfolding reachable_at_def by blast
  from find_from_present [OF inv i this le0] show ?thesis
    by (simp only: core_find_def Let_def core_find_from)
qed

lemma core_find_absent:
  assumes "inv (arrays t)" "arr_map (arrays t) x = None"
  shows "core_find T t x = None"
  using find_from_absent [OF assms(1)] assms(2) unfolding arr_map_None
  by (simp only: core_find_def Let_def core_find_from)

lemma core_find_Some:
  fixes t :: "('g, 'k \<times> 'v) table_core"
  assumes inv: "inv (arrays t)"
  shows "core_find T t x = Some loc \<longleftrightarrow> (\<exists>v. snd loc < 15 \<and>
    fst loc * 15 + snd loc < length (slots (arrays t)) \<and> slots (arrays t) ! (fst loc * 15 + snd loc) = Some (x, v))"
    (is "_ \<longleftrightarrow> ?here")
proof
  assume f: "core_find T t x = Some loc"
  then obtain v where "arr_map (arrays t) x = Some v"
    using core_find_absent [OF inv, of x] by (cases "arr_map (arrays t) x") auto
  then obtain i where i: "i < length (slots (arrays t))" "slots (arrays t) ! i = Some (x, v)"
    unfolding arr_map_Some [OF invD(4) [OF inv]] by blast
  have "loc = (i div 15, i mod 15)" using core_find_present [OF inv i] f by simp
  with i show ?here by simp
next
  assume ?here
  then obtain v where v: "snd loc < 15" "fst loc * 15 + snd loc < length (slots (arrays t))"
    "slots (arrays t) ! (fst loc * 15 + snd loc) = Some (x, v)" by blast
  then show "core_find T t x = Some loc"
    using core_find_present [OF inv v(2,3)] slot_index [OF v(1), of "fst loc"] by simp
qed

lemma core_find_element:
  fixes t :: "('g, 'k \<times> 'v) table_core"
  assumes inv: "inv (arrays t)"
  shows "map_option (element_at (arrays t)) (core_find T t x)
    = map_option (Pair x) (arr_map (arrays t) x)"
proof (cases "arr_map (arrays t) x")
  case None
  then show ?thesis by (simp add: core_find_absent [OF inv])
next
  case (Some v)
  then obtain i where i: "i < length (slots (arrays t))" "slots (arrays t) ! i = Some (x, v)"
    unfolding arr_map_Some [OF invD(4) [OF inv]] by blast
  have "element_at (arrays t) (i div 15, i mod 15) = (x, v)"
    by (rule element_at_slot [OF slot_in_range(2) [OF invD(1) [OF inv] i(1)]]) (use i in simp)
  with Some core_find_present [OF inv i] show ?thesis by simp
qed

end

end
