(* ===== verification/Boost_Place.thy ===== *)
theory Boost_Place
  imports Boost_Find
begin

text \<open>
  The steps that change an array pair: marking a full group as overflowed, placing an element
  in a free slot, and removing one. The emplacement loop terminates whenever some group has a
  free slot, since the prober visits every group.
\<close>

lemma slots_set_element [simp]: "slots (set_element a (pos, n) x) = (slots a)[pos * 15 + n := x]"
  by (cases "elements a") (simp_all add: slots_def set_element_def group_N_def)

lemma set_element_sel [simp]:
  "groups (set_element a loc x) = groups a" "groups_size_mask (set_element a loc x) = groups_size_mask a"
  "groups_size_index (set_element a loc x) = groups_size_index a"
  "elements (set_element a loc x) = None \<longleftrightarrow> elements a = None"
  by (simp_all add: set_element_def)

lemma slots_cong: "elements a = elements b \<Longrightarrow> slots a = slots b"
  by (simp add: slots_def)

lemma arr_sel_groups [simp]:
  "slots (a\<lparr> groups := gs \<rparr>) = slots a" "a_exp (a\<lparr> groups := gs \<rparr>) = a_exp a"
  "home T (a\<lparr> groups := gs \<rparr>) k = home T a k" "probe T (a\<lparr> groups := gs \<rparr>) k j = probe T a k j"
  by (simp_all add: slots_def a_exp_def home_def probe_def position_for_def)

lemma arr_sel_element [simp]:
  "a_exp (set_element a loc x) = a_exp a"
  "home T (set_element a loc x) k = home T a k" "probe T (set_element a loc x) k j = probe T a k j"
  by (simp_all add: a_exp_def home_def probe_def position_for_def)

lemma keys_uniqueD:
  "keys_unique es \<Longrightarrow> i < length es \<Longrightarrow> j < length es \<Longrightarrow> es ! i = Some (k, v) \<Longrightarrow>
   es ! j = Some (k, v') \<Longrightarrow> i = j"
  unfolding keys_unique_def by blast

lemma keys_unique_insert:
  assumes "keys_unique es" "\<forall>i < length es. \<forall>v. es ! i \<noteq> Some (k, v)"
  shows "keys_unique (es[m := Some (k, w)])"
  unfolding keys_unique_def
proof (intro allI impI)
  fix i j k' v v'
  assume *: "i < length (es[m := Some (k, w)])" "j < length (es[m := Some (k, w)])"
    "es[m := Some (k, w)] ! i = Some (k', v)" "es[m := Some (k, w)] ! j = Some (k', v')"
  then show "i = j"
    using assms(2) keys_uniqueD [OF assms(1), of i j k' v v'] by (cases "i = m"; cases "j = m") auto
qed

lemma keys_unique_remove: "keys_unique es \<Longrightarrow> keys_unique (es[m := None])"
  unfolding keys_unique_def
proof (intro allI impI)
  fix i j k' v v'
  assume u: "\<forall>i < length es. \<forall>j < length es. \<forall>k v v'. es ! i = Some (k, v) \<longrightarrow> es ! j = Some (k, v') \<longrightarrow> i = j"
    and *: "i < length (es[m := None])" "j < length (es[m := None])"
    "es[m := None] ! i = Some (k', v)" "es[m := None] ! j = Some (k', v')"
  then have "i \<noteq> m" "j \<noteq> m" by (auto simp: nth_list_update split: if_splits)
  with u * show "i = j" by simp
qed

context foa_table
begin

text \<open>Overflow marks only ever add to what probing may pass.\<close>

lemma reachable_mono:
  assumes "reachable_at ovf T a k pos" "a_exp b = a_exp a" "\<And>j. probe T b k j = probe T a k j"
    and "\<And>p. p < 2 ^ a_exp a \<Longrightarrow> ovf (groups a ! p) (unat (hash_for T k) mod 8) \<Longrightarrow>
      ovf (groups b ! p) (unat (hash_for T k) mod 8)"
    and "shape_ok ok a"
  shows "reachable_at ovf T b k pos"
  using assms probe_bound [OF assms(5)] unfolding reachable_at_def by (metis (no_types, lifting))

lemma inv_groups_update:
  fixes a :: "('g, 'k \<times> 'v) table_arrays"
  assumes inv: "inv a" and pos: "pos < 2 ^ a_exp a" and el: "elements a \<noteq> None"
    and g: "ok g" "\<And>n. n < 15 \<Longrightarrow> byte g n = byte (groups a ! pos) n"
    "\<And>m. m < 8 \<Longrightarrow> ovf (groups a ! pos) m \<Longrightarrow> ovf g m"
  shows "inv (a\<lparr> groups := (groups a)[pos := g] \<rparr>)" (is "inv ?b")
proof -
  note sh = invD(1) [OF inv]
  have len: "pos < length (groups a)" using shapeD(2) [OF sh] pos by simp
  have "shape_ok ok ?b"
    using sh g(1) unfolding shape_ok_def by (auto dest: set_update_subset_insert [THEN subsetD])
  moreover have "byte (groups ?b ! p) n = expected_byte T ?b p n" if "p < 2 ^ a_exp a" "n < 15" for p n
    using invD(2) [OF inv that] g(2) [OF that(2)] len
    by (cases "p = pos") (auto simp: expected_byte_def)
  moreover have "reachable_at ovf T ?b k (i div 15)"
    if "i < length (slots a)" "slots a ! i = Some (k, v)" for i k v
  proof (rule reachable_mono [OF invD(3) [OF inv that] _ _ _ sh])
    fix p assume "p < 2 ^ a_exp a" "ovf (groups a ! p) (unat (hash_for T k) mod 8)"
    then show "ovf (groups ?b ! p) (unat (hash_for T k) mod 8)"
      using g(3) [of "unat (hash_for T k) mod 8"] len by (cases "p = pos") auto
  qed simp_all
  ultimately show ?thesis using invD(4) [OF inv] el by (auto simp: arr_inv_def)
qed

lemma inv_mark:
  fixes a :: "('g, 'k \<times> 'v) table_arrays"
  assumes "inv a" "pos < 2 ^ a_exp a" "elements a \<noteq> None"
  shows "inv (a\<lparr> groups := (groups a)[pos := g_mark_overflow (grp T) (groups a ! pos) h] \<rparr>)"
  using shapeD(6) [OF invD(1) [OF assms(1)] assms(2)]
  by (intro inv_groups_update assms) (simp_all add: mark_ok mark_byte mark_ovf)

lemma free_slot_bound:
  assumes "shape_ok ok a" "elements a \<noteq> None" "pos < 2 ^ a_exp a" "n < 15" "expected_byte T a pos n = 0"
  shows "pos * 15 + n < length (slots a)" and "slots a ! (pos * 15 + n) = None"
  using assms sentinel_slot [OF assms(1-4)] by (auto simp: expected_zero split: if_splits)

lemma inv_slot_update:
  fixes a :: "('g, 'k \<times> 'v) table_arrays"
  assumes inv: "inv a" and n: "n < 15" and i: "pos * 15 + n < length (slots a)" and g: "ok g"
    and bytes: "\<And>m. m < 15 \<Longrightarrow> byte g m = (if m = n
      then case x of None \<Rightarrow> 0 | Some e \<Rightarrow> reduced (hash_for T (fst e)) else byte (groups a ! pos) m)"
    and ovfs: "\<And>m. m < 8 \<Longrightarrow> ovf g m = ovf (groups a ! pos) m"
    and uniq: "keys_unique ((slots a)[pos * 15 + n := x])"
    and reach: "\<And>k v. x = Some (k, v) \<Longrightarrow> reachable_at ovf T a k pos"
  shows "inv ((set_element a (pos, n) x)\<lparr> groups := (groups a)[pos := g] \<rparr>)" (is "inv ?b")
proof -
  note sh = invD(1) [OF inv]
  let ?i = "pos * 15 + n"
  have el: "elements a \<noteq> None" by (rule slot_in_range(2) [OF sh i])
  have pos: "pos < 2 ^ a_exp a" using slot_in_range(1) [OF sh i] slot_index [OF n, of pos] by simp
  have len: "pos < length (groups a)" using shapeD(2) [OF sh] pos by simp
  have sl: "slots ?b = (slots a)[?i := x]" by simp
  have same: "a_exp ?b = a_exp a" "\<And>k j. probe T ?b k j = probe T a k j"
    "elements ?b \<noteq> None" using el by simp_all
  have "shape_ok ok ?b"
    using sh g el unfolding shape_ok_def by (auto dest: set_update_subset_insert [THEN subsetD])
  moreover have "byte (groups ?b ! p) m = expected_byte T ?b p m" if "p < 2 ^ a_exp a" "m < 15" for p m
  proof (cases "p = pos \<and> m = n")
    case True
    then show ?thesis using bytes [OF n] len i el by (auto simp: expected_byte_def nth_list_update)
  next
    case False
    then have ne: "p * 15 + m \<noteq> ?i" using slot_index [OF that(2), of p] slot_index [OF n, of pos] by metis
    have "byte (groups ?b ! p) m = byte (groups a ! p) m"
      using bytes [OF that(2)] len False by (cases "p = pos") auto
    also have "\<dots> = expected_byte T a p m" by (rule invD(2) [OF inv that])
    also have "\<dots> = expected_byte T ?b p m"
      using ne el by (auto simp: expected_byte_def)
    finally show ?thesis .
  qed
  moreover have "reachable_at ovf T ?b k' (j div 15)"
    if "j < length (slots ?b)" "slots ?b ! j = Some (k', v')" for j k' v'
  proof -
    have "reachable_at ovf T a k' (j div 15)"
    proof (cases "j = ?i")
      case True
      with that i slot_index [OF n, of pos] show ?thesis using reach [of k' v'] by (simp add: sl)
    next
      case False
      with that show ?thesis using invD(3) [OF inv, of j k' v'] by (simp add: sl)
    qed
    then show ?thesis
    proof (rule reachable_mono [OF _ _ _ _ sh])
      fix p assume "p < 2 ^ a_exp a" "ovf (groups a ! p) (unat (hash_for T k') mod 8)"
      then show "ovf (groups ?b ! p) (unat (hash_for T k') mod 8)"
        using ovfs len by (cases "p = pos") auto
    qed (use same in simp_all)
  qed
  ultimately show ?thesis using uniq same sl unfolding arr_inv_def by metis
qed

lemma inv_place:
  fixes a :: "('g, 'k \<times> 'v) table_arrays"
  assumes inv: "inv a" and n: "n < 15" and i: "pos * 15 + n < length (slots a)"
    and fresh: "\<forall>i < length (slots a). \<forall>v. slots a ! i \<noteq> Some (k, v)"
    and reach: "reachable_at ovf T a k pos"
  shows "inv ((set_element a (pos, n) (Some (k, v)))
    \<lparr> groups := (groups a)[pos := g_set (grp T) (groups a ! pos) n (hash_for T k)] \<rparr>)"
proof -
  have pos: "pos < 2 ^ a_exp a" using slot_in_range(1) [OF invD(1) [OF inv] i] slot_index [OF n, of pos] by simp
  have g: "ok (groups a ! pos)" by (rule shapeD(6) [OF invD(1) [OF inv] pos])
  show ?thesis
    by (rule inv_slot_update [OF inv n i set_ok [OF g n]])
      (use reach in \<open>simp_all add: set_byte [OF g n] set_ovf [OF g n] keys_unique_insert [OF invD(4) [OF inv] fresh]\<close>)
qed

lemma inv_take:
  fixes a :: "('g, 'k \<times> 'v) table_arrays"
  assumes inv: "inv a" and n: "n < 15" and i: "pos * 15 + n < length (slots a)"
  shows "inv ((set_element a (pos, n) None)
    \<lparr> groups := (groups a)[pos := g_reset (grp T) (groups a ! pos) n] \<rparr>)"
proof -
  have pos: "pos < 2 ^ a_exp a" using slot_in_range(1) [OF invD(1) [OF inv] i] slot_index [OF n, of pos] by simp
  have g: "ok (groups a ! pos)" by (rule shapeD(6) [OF invD(1) [OF inv] pos])
  show ?thesis
    by (rule inv_slot_update [OF inv n i reset_ok [OF g n]])
      (simp_all add: reset_byte [OF g n] reset_ovf [OF g n] keys_unique_remove [OF invD(4) [OF inv]])
qed

section \<open>The emplacement loop\<close>

lemma emplace_from_step:
  assumes "msk = groups_size_mask a"
  shows "emplace_from T a hash e (prober_at msk p j) =
    (let pos = probe_seq msk p j; m = g_match_available (grp T) (groups a ! pos)
     in if m \<noteq> 0 then
          Some ((set_element a (pos, unchecked_countr_zero m) (Some e))\<lparr> groups :=
            (groups a)[pos := g_set (grp T) (groups a ! pos) (unchecked_countr_zero m) hash] \<rparr>,
            (pos, unchecked_countr_zero m))
        else emplace_from T (a\<lparr> groups := (groups a)[pos := g_mark_overflow (grp T) (groups a ! pos) hash] \<rparr>)
          hash e (prober_at msk p (Suc j)))"
  using assms by (subst emplace_from.simps) (simp add: Let_def prober_next_at)

text \<open>What a successful emplacement leaves: one more element, in a slot that was free.\<close>

definition placed :: "('g, 'k \<times> 'v) table_arrays \<Rightarrow> 'k \<times> 'v \<Rightarrow> ('g, 'k \<times> 'v) table_arrays \<Rightarrow> locator \<Rightarrow> bool" where
  "placed a e a' loc \<longleftrightarrow> inv a' \<and> groups_size_index a' = groups_size_index a \<and>
     groups_size_mask a' = groups_size_mask a \<and> snd loc < 15 \<and> fst loc * 15 + snd loc < length (slots a) \<and>
     slots a ! (fst loc * 15 + snd loc) = None \<and>
     slots a' = (slots a)[fst loc * 15 + snd loc := Some e] \<and> elements a' \<noteq> None"

lemma available_iff:
  fixes a :: "('g, 'k \<times> 'v) table_arrays"
  assumes inv: "inv a" and el: "elements a \<noteq> None" and pos: "pos < 2 ^ a_exp a"
  shows "bit (g_match_available (grp T) (groups a ! pos)) n \<longleftrightarrow>
    n < 15 \<and> pos * 15 + n < length (slots a) \<and> slots a ! (pos * 15 + n) = None"
proof -
  note sh = invD(1) [OF inv]
  have "bit (g_match_available (grp T) (groups a ! pos)) n \<longleftrightarrow> n < 15 \<and> expected_byte T a pos n = 0"
    using available_bits [OF shapeD(6) [OF sh pos]] invD(2) [OF inv pos] by auto
  also have "\<dots> \<longleftrightarrow> n < 15 \<and> pos * 15 + n < length (slots a) \<and> slots a ! (pos * 15 + n) = None"
  proof
    assume "n < 15 \<and> expected_byte T a pos n = 0"
    then show "n < 15 \<and> pos * 15 + n < length (slots a) \<and> slots a ! (pos * 15 + n) = None"
      using free_slot_bound [OF sh el pos] by blast
  qed (use el in \<open>auto simp: expected_byte_def\<close>)
  finally show ?thesis .
qed

lemma reachable_here:
  assumes "j < 2 ^ a_exp a" "\<forall>i < j. ovf (groups a ! probe T a k i) (unat (hash_for T k) mod 8)"
  shows "reachable_at ovf T a k (probe T a k j)"
  using assms unfolding reachable_at_def by blast

lemma emplace_from_correct:
  fixes a :: "('g, 'k \<times> 'v) table_arrays"
  assumes "inv a" "elements a \<noteq> None" "\<forall>i < length (slots a). \<forall>v. slots a ! i \<noteq> Some (k, v)"
    and "\<forall>i < j. ovf (groups a ! probe T a k i) (unat (hash_for T k) mod 8)"
    and "j \<le> jj" "jj < 2 ^ a_exp a" "n < 15" "probe T a k jj * 15 + n < length (slots a)"
    and "slots a ! (probe T a k jj * 15 + n) = None"
  shows "\<exists>a' loc. emplace_from T a (hash_for T k) (k, v) (prober_at (groups_size_mask a) (home T a k) j)
    = Some (a', loc) \<and> placed a (k, v) a' loc"
  using assms
proof (induction "jj - j" arbitrary: j a rule: less_induct)
  case less
  define pos where "pos = probe T a k j"
  define m where "m = g_match_available (grp T) (groups a ! pos)"
  note inv = \<open>inv a\<close> and el = \<open>elements a \<noteq> None\<close> and sh = invD(1) [OF \<open>inv a\<close>]
  have pos: "pos < 2 ^ a_exp a" unfolding pos_def by (rule probe_bound [OF sh])
  have seq: "probe_seq (groups_size_mask a) (home T a k) j = pos" by (simp add: pos_def probe_def)
  note bits = available_iff [OF inv el pos, folded m_def]
  show ?case
  proof (cases "m = 0")
    case False
    let ?n = "unchecked_countr_zero m"
    let ?a' = "(set_element a (pos, ?n) (Some (k, v)))
      \<lparr> groups := (groups a)[pos := g_set (grp T) (groups a ! pos) ?n (hash_for T k)] \<rparr>"
    have n: "?n < 15" "pos * 15 + ?n < length (slots a)" "slots a ! (pos * 15 + ?n) = None"
      using countr_zero_spec(1) [OF False] unfolding bits by blast+
    have "reachable_at ovf T a k pos"
      unfolding pos_def by (rule reachable_here) (use less.prems in auto)
    then have "inv ?a'" by (rule inv_place [OF inv n(1,2) less.prems(3)])
    then have "placed a (k, v) ?a' (pos, ?n)" using n el by (simp add: placed_def)
    moreover have "emplace_from T a (hash_for T k) (k, v)
        (prober_at (groups_size_mask a) (home T a k) j) = Some (?a', (pos, ?n))"
      using False by (subst emplace_from_step [OF refl]) (simp add: Let_def seq m_def [symmetric])
    ultimately show ?thesis by blast
  next
    case True
    have ne: "j \<noteq> jj"
    proof
      assume "j = jj"
      with less.prems have "bit m n" unfolding bits pos_def by blast
      with True show False by simp
    qed
    with less.prems(5) have j: "j < jj" by simp
    let ?b = "a\<lparr> groups := (groups a)[pos := g_mark_overflow (grp T) (groups a ! pos) (hash_for T k)] \<rparr>"
    have "inv ?b" by (rule inv_mark [OF inv pos el])
    moreover have "ovf (groups ?b ! probe T ?b k i) (unat (hash_for T k) mod 8)" if "i < Suc j" for i
      using that less.prems(4) shapeD(2) [OF sh] pos mark_ovf [OF shapeD(6) [OF sh pos]]
      by (cases "probe T a k i = pos") (auto simp: less_Suc_eq pos_def [symmetric])
    ultimately have "\<exists>a' loc. emplace_from T ?b (hash_for T k) (k, v)
        (prober_at (groups_size_mask ?b) (home T ?b k) (Suc j)) = Some (a', loc) \<and> placed ?b (k, v) a' loc"
      using less.prems j by (intro less.hyps) auto
    moreover have "emplace_from T a (hash_for T k) (k, v) (prober_at (groups_size_mask a) (home T a k) j)
        = emplace_from T ?b (hash_for T k) (k, v) (prober_at (groups_size_mask ?b) (home T ?b k) (Suc j))"
      using True by (subst emplace_from_step [OF refl]) (simp add: Let_def seq m_def [symmetric])
    ultimately show ?thesis by (auto simp: placed_def)
  qed
qed

text \<open>A free slot exists whenever fewer elements than slots are stored.\<close>

lemma somes_length_le: "length (somes es) \<le> length es"
  by (induction es) (auto simp: somes_def split: option.splits)

lemma free_slot_exists: "length (somes es) < length es \<Longrightarrow> \<exists>i < length es. es ! i = None"
proof (rule ccontr)
  assume lt: "length (somes es) < length es" and "\<not> (\<exists>i < length es. es ! i = None)"
  then have "\<forall>x \<in> List.set es. x \<noteq> None" by (auto simp: in_set_conv_nth)
  then have "length (somes es) = length es"
    by (induction es) (auto simp: somes_def)
  with lt show False by simp
qed

lemma nosize_emplace_correct:
  fixes a :: "('g, 'k \<times> 'v) table_arrays"
  assumes inv: "inv a" and fresh: "arr_map a k = None" and room: "length (somes (slots a)) < length (slots a)"
  shows "\<exists>a' loc. nosize_unchecked_emplace_at T a (position_for (hash_for T k) a) (hash_for T k) (k, v)
    = Some (a', loc) \<and> placed a (k, v) a' loc"
proof -
  note sh = invD(1) [OF inv]
  obtain i where i: "i < length (slots a)" "slots a ! i = None" using free_slot_exists [OF room] by blast
  obtain jj where jj: "jj < 2 ^ a_exp a" "probe T a k jj = i div 15"
    using probe_hits [OF sh slot_in_range(1) [OF sh i(1)]] by metis
  have "probe T a k jj * 15 + i mod 15 = i" using jj(2) by simp
  then show ?thesis
    using emplace_from_correct [OF inv slot_in_range(2) [OF sh i(1)] _ _ le0 jj(1), of k "i mod 15" v]
      fresh i unfolding arr_map_None
    by (simp add: nosize_unchecked_emplace_at_def home_def prober_start_at [of _ "groups_size_mask a"])
qed

end

end
