(* ===== verification/Boost_Load.thy ===== *)
theory Boost_Load
  imports Boost_Table
begin

text \<open>
  The load arithmetic of table_core, in single precision: the maximum load of an array of
  15 * 2 ^ e - 1 slots is 7/8 of it up to one element, and a size whose quotient by the maximum
  load factor fits an array does not exceed that array's maximum load, whatever was rounded.
\<close>

section \<open>Scaling by powers of two is exact\<close>

lemma powi_less: "(2::rat) powi m < 2 powi n \<Longrightarrow> m < n"
  by (rule ccontr) (use power_int_increasing [of n m "2::rat"] in simp)

lemma exponent_unique:
  assumes "2 powi e \<le> q" "q < 2 powi (e + 1)"
  shows "exponent q = e"
proof -
  have q: "0 < q" using assms(1) by (rule less_le_trans [rotated]) simp
  note b = powi_bounds [of q]
  have "2 powi exponent q < (2::rat) powi (e + 1)" "2 powi e < (2::rat) powi (exponent q + 1)"
    using b q assms by auto
  then have "exponent q < e + 1" "e < exponent q + 1"
    by (auto dest: powi_less)
  then show ?thesis by simp
qed

lemma fl_scale:
  assumes "0 < q"
  shows "fl p (q * 2 ^ j) = fl p q * 2 ^ j"
proof -
  have e: "exponent (q * 2 ^ j) = exponent q + int j"
  proof (rule exponent_unique)
    show "2 powi (exponent q + int j) \<le> q * 2 ^ j"
      using powi_bounds(1) [of q] assms by (simp add: power_int_add)
    show "q * 2 ^ j < 2 powi (exponent q + int j + 1)"
      using powi_bounds(2) [of q] assms by (simp add: power_int_add)
  qed
  let ?u = "(2::rat) powi (exponent q - int (p - 1))"
  have u: "(2::rat) powi (exponent q + int j - int (p - 1)) = ?u * 2 ^ j"
    by (simp add: power_int_add power_int_diff)
  have "q * 2 ^ j / (?u * 2 ^ j) = q / ?u" by simp
  then have "of_int (round_even (q * 2 ^ j / (?u * 2 ^ j))) * (?u * 2 ^ j)
    = (of_int (round_even (q / ?u)) * ?u) * 2 ^ j" by (simp only: mult.assoc)
  moreover have "q * 2 ^ j \<noteq> 0" "q \<noteq> 0" using assms by simp_all
  ultimately show ?thesis by (simp only: fl_def e u Let_def if_False)
qed

lemma fl_scaled_nat:
  assumes "0 < k" "k \<le> 2 ^ p" "0 < p"
  shows "fl p (of_nat (k * 2 ^ j)) = of_nat (k * 2 ^ j)"
  using fl_scale [of "of_nat k" p j] fl_of_nat [OF assms(2,3)] assms(1) by simp

section \<open>The maximum load\<close>

definition cap_of :: "nat \<Rightarrow> nat" where
  "cap_of e = 2 ^ e * 15 - Suc 0"

definition max_load_of :: "nat \<Rightarrow> nat" where
  "max_load_of cap = (if cap \<le> 29 then cap else nat \<lfloor>fl 24 (mlf * fl 24 (of_nat cap))\<rfloor>)"

lemma initial_max_load_eq: "initial_max_load a = max_load_of (capacity a)"
  by (simp add: initial_max_load_def max_load_of_def group_N_def Let_def)

lemma cap_of_pos: "of_nat (cap_of e) = (15 * 2 ^ e - 1 :: rat)"
proof -
  have "cap_of e + 1 = 15 * 2 ^ e" by (simp add: cap_of_def)
  then have "of_nat (cap_of e) + 1 = (of_nat (15 * 2 ^ e) :: rat)" by (metis of_nat_Suc Suc_eq_plus1 add.commute)
  then show ?thesis by simp
qed

text \<open>Beyond 24 bits the capacity itself is rounded, to the next power-of-two multiple of 15.\<close>

lemma fl_large_cap:
  assumes "21 \<le> e"
  shows "fl 24 (of_nat (cap_of e)) = 15 * 2 ^ e"
proof -
  define d where "d = e - 20"
  have e: "e = 20 + d" "1 \<le> d" using assms by (simp_all add: d_def)
  let ?q = "15 * 2 ^ e - 1 :: rat"
  have ex: "exponent ?q = int (e + 3)"
  proof (rule exponent_unique)
    have "(1::rat) \<le> 2 ^ e" by simp
    then have "8 * 2 ^ e \<le> ?q" "?q < 16 * 2 ^ e" by linarith+
    then show "2 powi int (e + 3) \<le> ?q" "?q < 2 powi (int (e + 3) + 1)"
      by (simp_all add: power_int_add power_add power_int_def nat_add_distrib)
  qed
  have u: "(2::rat) powi (exponent ?q - int (24 - 1)) = 2 ^ d"
    unfolding ex by (simp add: e power_int_def)
  have q: "?q / 2 ^ d = of_int (15 * 2 ^ 20) - 1 / 2 ^ d"
    by (simp add: e power_add field_simps)
  have half: "1 / 2 ^ d \<le> (1 / 2 :: rat)" "0 < (1 / 2 ^ d :: rat)"
    using e(2) power_increasing [of 1 d "2::rat"] by (simp_all add: field_simps)
  have fl: "\<lfloor>?q / 2 ^ d\<rfloor> = 15 * 2 ^ 20 - 1"
    unfolding q using half by (intro floor_unique) simp_all
  have "round_even (?q / 2 ^ d) = 15 * 2 ^ 20"
    unfolding round_even_def Let_def fl using half unfolding q by auto
  moreover have "?q \<noteq> 0" using one_le_power [of "2::rat" e] by linarith
  ultimately have "fl 24 ?q = of_int (15 * 2 ^ 20) * 2 ^ d"
    by (simp only: fl_def Let_def u if_False)
  then show ?thesis by (simp add: cap_of_pos e power_add)
qed

lemma max_load_small: "max_load_of (cap_of 1) = 29" "max_load_of (cap_of 2) = 51"
  by code_simp+

lemma max_load_bounds:
  assumes "3 \<le> e"
  shows "105 * 2 ^ (e - 3) - 1 \<le> max_load_of (cap_of e)" and "max_load_of (cap_of e) \<le> 105 * 2 ^ (e - 3)"
proof -
  define d where "d = e - 3"
  have e: "e = d + 3" using assms by (simp add: d_def)
  let ?L = "105 * 2 ^ d :: nat"
  have big: "\<not> cap_of e \<le> 29"
  proof -
    have "1 \<le> (2::nat) ^ d" by simp
    then have "30 < 120 * (2::nat) ^ d" by linarith
    then show ?thesis by (simp add: cap_of_def e power_add)
  qed
  have "of_nat ?L - 1 \<le> fl 24 (mlf * fl 24 (of_nat (cap_of e))) \<and>
      fl 24 (mlf * fl 24 (of_nat (cap_of e))) \<le> of_nat ?L"
  proof (cases "21 \<le> e")
    case True
    have "mlf * fl 24 (of_nat (cap_of e)) = of_nat ?L"
      unfolding fl_large_cap [OF True] by (simp add: mlf_def e power_add)
    then show ?thesis using fl_scaled_nat [of 105 24 d] by simp
  next
    case False
    then have d: "d \<le> 17" by (simp add: e)
    have pd: "(2::nat) ^ d \<le> 2 ^ 17" using d by (intro power_increasing) simp_all
    have small: "cap_of e \<le> 2 ^ 24" "?L \<le> 2 ^ 24" "?L - 1 \<le> 2 ^ 24"
      using pd by (simp_all add: cap_of_def e power_add)
    have cap: "mlf * fl 24 (of_nat (cap_of e)) = of_nat ?L - 7 / 8"
      using fl_of_nat [OF small(1)] by (simp add: cap_of_pos mlf_def e power_add)
    have "1 \<le> (2::rat) ^ d" by simp
    then have "1 \<le> 105 * (2::rat) ^ d" by linarith
    then have pos: "(1::rat) \<le> of_nat ?L" by simp
    have "fl 24 (of_nat (?L - 1)) \<le> fl 24 (of_nat ?L - 7 / 8)"
      using pos by (intro fl_mono) (simp_all add: of_nat_diff)
    moreover have "fl 24 (of_nat ?L - 7 / 8) \<le> of_nat ?L"
      using pos small(2) by (intro fl_le_int) simp_all
    ultimately show ?thesis unfolding cap using fl_of_nat [OF small(3)] by (simp add: of_nat_diff)
  qed
  then have "of_int (int (?L - 1)) \<le> fl 24 (mlf * fl 24 (of_nat (cap_of e)))"
    and upper: "fl 24 (mlf * fl 24 (of_nat (cap_of e))) \<le> of_nat ?L"
    by (simp_all add: of_nat_diff)
  then have "int (?L - 1) \<le> \<lfloor>fl 24 (mlf * fl 24 (of_nat (cap_of e)))\<rfloor>" by (simp only: le_floor_iff)
  then have "?L - 1 \<le> nat \<lfloor>fl 24 (mlf * fl 24 (of_nat (cap_of e)))\<rfloor>" by (metis nat_int nat_mono)
  moreover have "nat \<lfloor>fl 24 (mlf * fl 24 (of_nat (cap_of e)))\<rfloor> \<le> ?L"
    using floor_mono [OF upper] by (metis floor_of_nat nat_int nat_mono)
  ultimately show "105 * 2 ^ (e - 3) - 1 \<le> max_load_of (cap_of e)"
    "max_load_of (cap_of e) \<le> 105 * 2 ^ (e - 3)"
    using big unfolding max_load_of_def d_def [symmetric] by (simp_all only: if_False)
qed

lemma max_load_le_cap: "1 \<le> e \<Longrightarrow> max_load_of (cap_of e) \<le> cap_of e"
proof -
  assume "1 \<le> e"
  then consider "e = 1" | "e = 2" | "3 \<le> e" by linarith
  then show ?thesis
  proof cases
    case 3
    then obtain d where e: "e = d + 3" by (metis le_add_diff_inverse2)
    have "1 \<le> (2::nat) ^ d" by simp
    then have "105 * 2 ^ d \<le> cap_of e" by (simp add: cap_of_def e power_add)
    then show ?thesis using max_load_bounds(2) [OF 3] by (simp add: e)
  qed (simp_all only: max_load_small, simp_all add: cap_of_def)
qed

section \<open>Requests\<close>

lemma ceil_over_mlf_mono: "m \<le> n \<Longrightarrow> ceil_over_mlf m \<le> ceil_over_mlf n"
proof -
  assume "m \<le> n"
  then have "fl 24 (of_nat m) \<le> fl 24 (of_nat n)" by (intro fl_mono) simp_all
  then have "fl 24 (fl 24 (of_nat m) / mlf) \<le> fl 24 (fl 24 (of_nat n) / mlf)"
    by (intro fl_mono) (simp_all add: mlf_def fl_nonneg)
  then show ?thesis unfolding ceil_over_mlf_def by (intro nat_mono ceiling_mono)
qed

lemma ceil_over_mlf_exact: "ceil_over_mlf (105 * 2 ^ d) = 120 * 2 ^ d"
proof -
  have a: "fl 24 (of_nat (105 * 2 ^ d)) = of_nat (105 * 2 ^ d)" by (rule fl_scaled_nat) simp_all
  have b: "fl 24 (of_nat (120 * 2 ^ d)) = of_nat (120 * 2 ^ d)" by (rule fl_scaled_nat) simp_all
  have "of_nat (105 * 2 ^ d) / mlf = of_nat (120 * 2 ^ d)" by (simp add: mlf_def)
  then show ?thesis unfolding ceil_over_mlf_def a by (simp only: b ceiling_of_nat nat_int)
qed

lemma ceil_over_mlf_small: "29 < ceil_over_mlf 30" "59 < ceil_over_mlf 52"
  by code_simp+

text \<open>A request that fits an array keeps its size within that array's maximum load.\<close>

lemma request_fits:
  assumes "1 \<le> e" "ceil_over_mlf s \<le> cap_of e"
  shows "s \<le> max_load_of (cap_of e)"
proof (rule ccontr)
  assume "\<not> s \<le> max_load_of (cap_of e)"
  then have s: "max_load_of (cap_of e) + 1 \<le> s" by simp
  from assms(1) consider "e = 1" | "e = 2" | "3 \<le> e" by linarith
  then have "cap_of e < ceil_over_mlf (max_load_of (cap_of e) + 1)"
  proof cases
    case 1
    have "29 < ceil_over_mlf (29 + 1)" using ceil_over_mlf_small(1) by simp
    then show ?thesis unfolding 1 max_load_small by (simp add: cap_of_def)
  next
    case 2
    have "59 < ceil_over_mlf (51 + 1)" using ceil_over_mlf_small(2) by simp
    then show ?thesis unfolding 2 max_load_small by (simp add: cap_of_def)
  next
    case 3
    then obtain d where e: "e = d + 3" by (metis le_add_diff_inverse2)
    have "105 * 2 ^ d \<le> max_load_of (cap_of e) + 1" using max_load_bounds(1) [OF 3] by (simp add: e)
    from ceil_over_mlf_mono [OF this] have "120 * 2 ^ d \<le> ceil_over_mlf (max_load_of (cap_of e) + 1)"
      by (simp only: ceil_over_mlf_exact)
    moreover have "cap_of e < 120 * 2 ^ d" by (simp add: cap_of_def e power_add)
    ultimately show ?thesis by linarith
  qed
  also have "\<dots> \<le> ceil_over_mlf s" by (rule ceil_over_mlf_mono [OF s])
  finally show False using assms(2) by simp
qed

text \<open>A size of at most 2 ^ 60 asks for less than 2 ^ 62 slots.\<close>

lemma ceil_over_mlf_bound: "s \<le> 105 * 2 ^ d \<Longrightarrow> ceil_over_mlf s \<le> 120 * 2 ^ d"
  using ceil_over_mlf_mono [of s "105 * 2 ^ d"] by (simp only: ceil_over_mlf_exact)

section \<open>The arrays a request gets\<close>

definition req_exp :: "nat \<Rightarrow> nat" where
  "req_exp n = policy_exp (n div 15 + 1)"

lemma req_exp_pos: "1 \<le> req_exp n"
  unfolding req_exp_def by (rule policy_exp_pos)

lemma req_exp_bound: "n < 2 ^ 64 \<Longrightarrow> req_exp n \<le> 61"
proof -
  assume "n < 2 ^ 64"
  then have "n div 15 + 1 \<le> 2 ^ 61" by simp
  then show ?thesis unfolding req_exp_def by (rule policy_exp_bound) simp
qed

lemma req_exp_cap: "n \<le> cap_of (req_exp n)"
proof -
  have "n div 15 + 1 \<le> 2 ^ req_exp n" unfolding req_exp_def by (rule policy_exp_ge)
  moreover have "n < (n div 15 + 1) * 15" by simp
  ultimately have "n < 2 ^ req_exp n * 15" by (meson less_le_trans mult_le_mono1)
  then show ?thesis by (simp add: cap_of_def)
qed

lemma req_exp_cap_of: "1 \<le> e \<Longrightarrow> req_exp (cap_of e) = e"
proof -
  assume "1 \<le> e"
  have "cap_of e + 1 = 15 * 2 ^ e" by (simp add: cap_of_def)
  then have "cap_of e = 15 * (2 ^ e - 1) + 14" by (simp add: diff_mult_distrib2)
  then have "cap_of e div 15 + 1 = 2 ^ e" by simp
  with \<open>1 \<le> e\<close> show ?thesis by (simp add: req_exp_def policy_exp_pow2)
qed

lemma capacity_for_eq: "n < 2 ^ 64 \<Longrightarrow> capacity_for n = cap_of (req_exp n)"
  using req_exp_bound [of n]
  by (simp add: capacity_for_def size_index_for_def group_N_def policy_size_index req_exp_def cap_of_def)

end
