(* ===== verification/Boost_Ops.thy ===== *)
theory Boost_Ops
  imports Boost_Place Boost_Load
begin

text \<open>
  The operations of table_core and table against the map abstraction: fresh arrays, visiting all
  elements, transfer and rehash, insertion with growth, erasure, clearing. Each keeps the
  invariant of the table (with size at most max load at most capacity) and acts on the map as it
  should; insertion and rehash always return.
\<close>

lemma a_exp_arrays: "groups_size_index a < 64 \<Longrightarrow> groups_size_index a = 64 - a_exp a"
  by (simp add: a_exp_def)

context foa_table
begin

section \<open>Fresh arrays\<close>

lemma capacity_slots: "shape_ok ok a \<Longrightarrow> capacity a = length (slots a)"
  using shapeD(1,7) [of a] by (cases "elements a") (auto simp: capacity_def slots_def group_N_def)

lemma capacity_cap_of: "shape_ok ok a \<Longrightarrow> elements a \<noteq> None \<Longrightarrow> capacity a = cap_of (a_exp a)"
  using capacity_slots [of a] shapeD(7) [of a] by (simp add: cap_of_def)

lemma new_arrays_0:
  fixes a :: "('g, 'k \<times> 'v) table_arrays"
  assumes "a = new_arrays T 0"
  shows "inv a" and "slots a = []" and "elements a = None" and "capacity a = 0"
proof -
  have a: "a = \<lparr> groups_size_index = 63, groups_size_mask = 1, groups = [g_dummy (grp T), g_dummy (grp T)],
      elements = None \<rparr>"
    using assms by (simp add: new_arrays_def set_arrays_def size_index_for_def size_index_def policy_size_def
        dummy_groups_def policy_min_size_def numeral_2_eq_2 Let_def)
  show "slots a = []" "elements a = None" "capacity a = 0" by (simp_all add: a slots_def capacity_def)
  have "groups a ! pos = g_dummy (grp T)" if "pos < 2" for pos
    using that by (auto simp: a less_2_cases_iff)
  then show "inv a"
    by (auto simp: arr_inv_def shape_ok_def a_exp_def a slots_def keys_unique_def expected_byte_def
        dummy_ok dummy_byte dummy_ovf nth_Cons')
qed

text \<open>Groups just initialised, with the sentinel set, over slots with nothing in them.\<close>

lemma fresh_inv:
  fixes a :: "('g, 'k \<times> 'v) table_arrays"
  assumes sh: "shape_ok ok a" and el: "elements a \<noteq> None" and empty: "\<forall>x \<in> List.set (slots a). x = None"
    and gs: "\<And>pos. pos < 2 ^ a_exp a \<Longrightarrow> groups a ! pos
      = (if pos = 2 ^ a_exp a - 1 then g_set_sentinel (grp T) (g_initialize (grp T)) else g_initialize (grp T))"
  shows "inv a"
proof -
  have none: "slots a ! i = None" if "i < length (slots a)" for i using empty that by (simp add: nth_mem)
  have "byte (groups a ! pos) m = expected_byte T a pos m" if "pos < 2 ^ a_exp a" "m < 15" for pos m
    using sentinel_slot [OF sh el that] none [of "pos * 15 + m"] gs [OF that(1)] el that(2)
    by (auto simp: expected_byte_def init_byte sentinel_byte init_ok)
  moreover have "keys_unique (slots a)" using none by (simp add: keys_unique_def)
  ultimately show ?thesis using sh el none unfolding arr_inv_def by auto
qed

lemma new_arrays_pos:
  fixes a :: "('g, 'k \<times> 'v) table_arrays"
  assumes n: "0 < n" "n < 2 ^ 64" and a: "a = new_arrays T n"
  shows "inv a" and "slots a = replicate (cap_of (req_exp n)) None" and "elements a \<noteq> None"
    and "capacity a = cap_of (req_exp n)" and "a_exp a = req_exp n"
proof -
  define e where "e = req_exp n"
  have e: "1 \<le> e" "e \<le> 61" using req_exp_pos [of n] req_exp_bound [OF n(2)] by (simp_all add: e_def)
  have gsi: "size_index_for n = 64 - e"
    by (simp add: size_index_for_def size_index_exp e_def req_exp_def group_N_def)
  have gs: "policy_size (64 - e) = 2 ^ e" using e by (simp add: policy_size_def)
  define gl where "gl = (replicate (2 ^ e) (g_initialize (grp T)))[2 ^ e - 1 := g_set_sentinel (grp T) (g_initialize (grp T))]"
  have a: "a = \<lparr> groups_size_index = 64 - e, groups_size_mask = 2 ^ e - 1, groups = gl,
      elements = Some (replicate (cap_of e) None) \<rparr>"
    using n(1) unfolding a by (simp add: new_arrays_def set_arrays_def gsi gs Let_def group_N_def cap_of_def gl_def)
  show sl: "slots a = replicate (cap_of (req_exp n)) None" and el: "elements a \<noteq> None"
    by (simp_all add: a slots_def e_def)
  show ae: "a_exp a = req_exp n" using e by (simp add: a a_exp_def e_def)
  show "capacity a = cap_of (req_exp n)" by (simp add: a capacity_def cap_of_def group_N_def e_def)
  have "shape_ok ok a"
    using e by (auto simp: shape_ok_def a a_exp_def gl_def slots_def cap_of_def init_ok sentinel_ok
        dest!: set_update_subset_insert [THEN subsetD])
  then show "inv a"
    by (rule fresh_inv [OF _ el]) (simp_all add: sl ae, simp add: a gl_def nth_list_update flip: e_def)
qed

section \<open>All elements\<close>

lemma really_occupied_bits:
  fixes a :: "('g, 'k \<times> 'v) table_arrays"
  assumes inv: "inv a" and el: "elements a \<noteq> None" and pos: "pos < 2 ^ a_exp a"
  shows "bit (match_really_occupied T a pos) n \<longleftrightarrow>
    n < 15 \<and> pos * 15 + n < length (slots a) \<and> slots a ! (pos * 15 + n) \<noteq> None"
proof -
  note sh = invD(1) [OF inv]
  have last: "pos = groups_size_mask a \<longleftrightarrow> pos = 2 ^ a_exp a - 1" by (simp add: shapeD(1) [OF sh])
  have b14: "bit (NOT (push_bit (group_N - 1) (of_bool (pos = groups_size_mask a))) :: u32) n
      \<longleftrightarrow> n < 32 \<and> \<not> (n = 14 \<and> pos = groups_size_mask a)"
    by (simp only: bit_not_iff bit_push_bit_iff bit_of_bool_iff group_N_def) (auto simp: bit_of_bool_iff)
  have occ: "bit (g_match_occupied (grp T) (groups a ! pos)) n
      \<longleftrightarrow> n < 15 \<and> expected_byte T a pos n \<noteq> 0"
    using occupied_bits [OF shapeD(6) [OF sh pos]] invD(2) [OF inv pos] by auto
  show ?thesis
    unfolding match_really_occupied_def bit_and_iff b14 occ
    using sentinel_slot [OF sh el pos, of n] el unfolding last
    by (auto simp: expected_zero not_le [symmetric])
qed

lemma mask_positions_15: "(\<And>n. bit m n \<Longrightarrow> n < 15) \<Longrightarrow> mask_positions m = filter (bit m) [0..<15]"
proof -
  assume m: "\<And>n. bit m n \<Longrightarrow> n < 15"
  have "[0..<32::nat] = [0..<15] @ [15..<32]" by (simp add: upt_rec)
  moreover have "filter (bit m) [15..<32] = []"
  proof (rule filter_False, rule ballI)
    fix n assume "n \<in> List.set [15..<32]"
    then have "15 \<le> n" by (simp only: set_upt atLeastLessThan_iff)
    then show "\<not> bit m n" using m [of n] by linarith
  qed
  ultimately show ?thesis by (simp add: mask_positions_eq)
qed

end

lemma chunked_filter:
  "concat (map (\<lambda>pos. map (\<lambda>n. pos * w + n) (filter (\<lambda>n. P (pos * w + n)) [0..<w])) [0..<m])
    = filter P [0..<m * w]"
proof (induction m)
  case (Suc m)
  have "[0..<Suc m * w] = [0..<m * w] @ map (\<lambda>n. m * w + n) [0..<w]"
  proof -
    have "map (\<lambda>n. m * w + n) [0..<w] = [m * w..<m * w + w]"
      using map_add_upt [of "m * w" w] by (simp add: add.commute)
    then show ?thesis using upt_add_eq_append [of 0 "m * w" w] by (simp add: add.commute)
  qed
  moreover have "filter P (map (\<lambda>n. m * w + n) [0..<w]) = map (\<lambda>n. m * w + n) (filter (\<lambda>n. P (m * w + n)) [0..<w])"
    by (simp add: filter_map o_def)
  ultimately show ?case using Suc by simp
qed simp

lemma somes_filter: "somes es = map (\<lambda>i. the (es ! i)) (filter (\<lambda>i. es ! i \<noteq> None) [0..<length es])"
proof (induction es rule: rev_induct)
  case (snoc x es)
  have "filter (\<lambda>i. (es @ [x]) ! i \<noteq> None) [0..<length es] = filter (\<lambda>i. es ! i \<noteq> None) [0..<length es]"
    by (rule filter_cong) (auto simp: nth_append)
  moreover have "map (\<lambda>i. the ((es @ [x]) ! i)) (filter (\<lambda>i. es ! i \<noteq> None) [0..<length es])
      = map (\<lambda>i. the (es ! i)) (filter (\<lambda>i. es ! i \<noteq> None) [0..<length es])"
    by (rule map_cong) (auto simp: nth_append)
  ultimately show ?case using snoc by (cases x) auto
qed simp

lemma filter_upt_extend: "m \<le> n \<Longrightarrow> (\<And>i. m \<le> i \<Longrightarrow> \<not> P i) \<Longrightarrow> filter P [0..<n] = filter P [0..<m]"
proof -
  assume mn: "m \<le> n" and P: "\<And>i. m \<le> i \<Longrightarrow> \<not> P i"
  have "[0..<n] = [0..<m] @ [m..<n]" using mn upt_add_eq_append [of 0 m "n - m"] by simp
  moreover have "filter P [m..<n] = []" by (rule filter_False) (use P in auto)
  ultimately show ?thesis by simp
qed

context foa_table
begin

text \<open>The locators visited are those of the occupied slots, in slot order.\<close>

lemma all_locators_eq:
  fixes a :: "('g, 'k \<times> 'v) table_arrays"
  assumes inv: "inv a"
  shows "map (\<lambda>loc. fst loc * 15 + snd loc) (all_locators T a)
      = filter (\<lambda>i. slots a ! i \<noteq> None) [0..<length (slots a)]"
    and "\<forall>loc \<in> List.set (all_locators T a). snd loc < 15"
proof -
  note sh = invD(1) [OF inv]
  let ?P = "\<lambda>i. i < length (slots a) \<and> slots a ! i \<noteq> None"
  have locs: "all_locators T a = concat (map (\<lambda>pos. map (Pair pos) (filter (\<lambda>n. ?P (pos * 15 + n)) [0..<15]))
      [0..<2 ^ a_exp a])" if el: "elements a \<noteq> None"
  proof -
    have "mask_positions (match_really_occupied T a pos) = filter (\<lambda>n. ?P (pos * 15 + n)) [0..<15]"
      if "pos \<in> List.set [0..<2 ^ a_exp a]" for pos
    proof -
      have pos: "pos < 2 ^ a_exp a" using that by simp
      have "mask_positions (match_really_occupied T a pos)
          = filter (bit (match_really_occupied T a pos)) [0..<15]"
        by (rule mask_positions_15) (use really_occupied_bits [OF inv el pos] in blast)
      also have "\<dots> = filter (\<lambda>n. ?P (pos * 15 + n)) [0..<15]"
        by (rule filter_cong) (auto simp: really_occupied_bits [OF inv el pos])
      finally show ?thesis .
    qed
    moreover have "groups_size_mask a + 1 = 2 ^ a_exp a" by (simp add: shapeD(1) [OF sh])
    ultimately show ?thesis using el
      unfolding all_locators_def by (simp only: if_False) (metis (no_types, lifting) map_cong)
  qed
  show "map (\<lambda>loc. fst loc * 15 + snd loc) (all_locators T a)
      = filter (\<lambda>i. slots a ! i \<noteq> None) [0..<length (slots a)]"
  proof (cases "elements a")
    case None
    then show ?thesis by (simp add: all_locators_def slots_def)
  next
    case (Some es)
    then have el: "elements a \<noteq> None" by simp
    have "map (\<lambda>loc. fst loc * 15 + snd loc) (all_locators T a)
        = concat (map (\<lambda>pos. map (\<lambda>n. pos * 15 + n) (filter (\<lambda>n. ?P (pos * 15 + n)) [0..<15])) [0..<2 ^ a_exp a])"
      unfolding locs [OF el] by (simp add: map_concat o_def)
    also have "\<dots> = filter ?P [0..<2 ^ a_exp a * 15]" by (rule chunked_filter)
    also have "\<dots> = filter ?P [0..<length (slots a)]"
      by (rule filter_upt_extend) (simp_all add: shapeD(7) [OF sh el])
    also have "\<dots> = filter (\<lambda>i. slots a ! i \<noteq> None) [0..<length (slots a)]"
      by (rule filter_cong) auto
    finally show ?thesis .
  qed
  show "\<forall>loc \<in> List.set (all_locators T a). snd loc < 15"
    using locs by (cases "elements a") (auto simp: all_locators_def)
qed

lemma all_elements_eq:
  fixes a :: "('g, 'k \<times> 'v) table_arrays"
  assumes inv: "inv a"
  shows "all_elements T a = somes (slots a)"
proof -
  have "all_elements T a = map (\<lambda>i. the (slots a ! i)) (map (\<lambda>loc. fst loc * 15 + snd loc) (all_locators T a))"
    by (cases "elements a") (simp_all add: all_elements_def all_locators_def element_at_def slots_def group_N_def)
  also have "\<dots> = somes (slots a)" unfolding all_locators_eq(1) [OF inv] somes_filter ..
  finally show ?thesis .
qed

section \<open>Placing, transferring\<close>

lemma somes_length_update:
  assumes "i < length es" "es ! i = None"
  shows "length (somes (es[i := Some e])) = Suc (length (somes es))"
  using assms somes_split [OF assms(1), of "Some e"] somes_at [OF assms(1)] by simp

lemma placedD:
  fixes a :: "('g, 'k \<times> 'v) table_arrays"
  assumes "placed a (k, v) a' loc" "arr_map a k = None" "inv a"
  shows "inv a'" and "arr_map a' = (arr_map a)(k \<mapsto> v)"
    and "length (somes (slots a')) = Suc (length (somes (slots a)))"
    and "length (slots a') = length (slots a)" and "groups_size_index a' = groups_size_index a"
    and "groups_size_mask a' = groups_size_mask a"
    and "capacity a' = capacity a" and "element_at a' loc = (k, v)" and "elements a' \<noteq> None"
proof -
  let ?i = "fst loc * 15 + snd loc"
  have p: "inv a'" "?i < length (slots a)" "slots a ! ?i = None" "slots a' = (slots a)[?i := Some (k, v)]"
    "elements a' \<noteq> None"
    using assms(1) by (simp_all add: placed_def)
  show "inv a'" "elements a' \<noteq> None" "length (slots a') = length (slots a)" using p by simp_all
  show "groups_size_index a' = groups_size_index a" "groups_size_mask a' = groups_size_mask a"
    using assms(1) by (simp_all add: placed_def)
  show "length (somes (slots a')) = Suc (length (somes (slots a)))"
    unfolding p(4) by (rule somes_length_update [OF p(2,3)])
  show "capacity a' = capacity a"
    using p(4) capacity_slots [OF invD(1) [OF p(1)]] capacity_slots [OF invD(1) [OF assms(3)]] by simp
  show "element_at a' loc = (k, v)"
    using element_at_slot [OF p(5), of "fst loc" "snd loc" "(k, v)"] p(2,4) by simp
  have "arr_map a' x = Some w \<longleftrightarrow> ((arr_map a)(k \<mapsto> v)) x = Some w" for x w
  proof (cases "x = k")
    case True
    have "arr_map a' k = Some v"
      unfolding arr_map_Some [OF invD(4) [OF p(1)]] using p(2,4) by (metis length_list_update nth_list_update_eq)
    with True show ?thesis by simp
  next
    case False
    have "(\<exists>i < length (slots a'). slots a' ! i = Some (x, w)) \<longleftrightarrow> (\<exists>i < length (slots a). slots a ! i = Some (x, w))"
      using False p(2,3) unfolding p(4) by (metis length_list_update nth_list_update option.distinct(1) option.inject prod.inject)
    with False show ?thesis
      unfolding arr_map_Some [OF invD(4) [OF p(1)]] using arr_map_Some [OF invD(4) [OF assms(3)]] by simp
  qed
  then show "arr_map a' = (arr_map a)(k \<mapsto> v)" by (metis ext not_None_eq)
qed

lemma placed_stores:
  assumes "placed a e a' loc"
  shows "stores a' loc e" and "stores a l x \<Longrightarrow> stores a' l x"
  using assms by (auto simp: placed_def stores_def nth_list_update)

lemma nosize_transfer_correct:
  fixes a :: "('g, 'k \<times> 'v) table_arrays"
  assumes "inv a" "arr_map a k = None" "length (somes (slots a)) < length (slots a)"
  shows "\<exists>a' loc. nosize_transfer_element T (k, v) a = Some a' \<and> placed a (k, v) a' loc"
  using nosize_emplace_correct [OF assms, of v] by (auto simp: nosize_transfer_element_def Let_def)

lemma transfer_all_correct:
  fixes a :: "('g, 'k \<times> 'v) table_arrays"
  assumes "inv a" "distinct (map fst es)" "\<forall>e \<in> List.set es. arr_map a (fst e) = None"
    and "length (somes (slots a)) + length es \<le> length (slots a)"
  shows "\<exists>a'. transfer_all T es a = Some a' \<and> inv a' \<and> arr_map a' = arr_map a ++ map_of es \<and>
    length (somes (slots a')) = length (somes (slots a)) + length es \<and> capacity a' = capacity a \<and>
    (elements a \<noteq> None \<longrightarrow> elements a' \<noteq> None) \<and> groups_size_mask a' = groups_size_mask a \<and>
    (\<forall>l x. stores a l x \<longrightarrow> stores a' l x)"
  using assms
proof (induction es arbitrary: a)
  case (Cons e es a)
  obtain k v where e: "e = (k, v)" by (cases e)
  obtain a1 loc where a1: "nosize_transfer_element T (k, v) a = Some a1" "placed a (k, v) a1 loc"
    using nosize_transfer_correct [of a k v] Cons.prems e by auto
  note p = placedD [OF a1(2) _ Cons.prems(1)]
  have k: "arr_map a k = None" using Cons.prems(3) e by simp
  have "\<forall>e \<in> List.set es. arr_map a1 (fst e) = None"
    using Cons.prems(2,3) e p(2) [OF k] by force
  moreover have "distinct (map fst es)" "length (somes (slots a1)) + length es \<le> length (slots a1)"
    using Cons.prems(2,4) p(3,4) [OF k] by simp_all
  ultimately obtain a' where a': "transfer_all T es a1 = Some a'" "inv a'"
    "arr_map a' = arr_map a1 ++ map_of es"
    "length (somes (slots a')) = length (somes (slots a1)) + length es" "capacity a' = capacity a1"
    "elements a1 \<noteq> None \<longrightarrow> elements a' \<noteq> None" "groups_size_mask a' = groups_size_mask a1"
    "\<forall>l x. stores a1 l x \<longrightarrow> stores a' l x"
    using Cons.IH [OF p(1) [OF k]] by blast
  have "(arr_map a)(k \<mapsto> v) ++ map_of es = arr_map a ++ map_of (e # es)"
  proof (rule ext)
    fix x
    have "map_of es k = None" using Cons.prems(2) e by (simp add: map_of_eq_None_iff)
    then show "((arr_map a)(k \<mapsto> v) ++ map_of es) x = (arr_map a ++ map_of (e # es)) x"
      by (auto simp: e map_add_def split: option.splits)
  qed
  then have "arr_map a' = arr_map a ++ map_of (e # es)" using a'(3) p(2) [OF k] by simp
  moreover have "transfer_all T (e # es) a = Some a'" using a1(1) a'(1) by (simp add: e)
  moreover have "length (somes (slots a')) = length (somes (slots a)) + length (e # es)"
    "capacity a' = capacity a" "groups_size_mask a' = groups_size_mask a" "elements a' \<noteq> None"
    using a' p [OF k] by simp_all
  moreover have "\<forall>l x. stores a l x \<longrightarrow> stores a' l x" using placed_stores(2) [OF a1(2)] a'(8) by blast
  ultimately show ?case using a'(2) by blast
qed simp

lemma arr_map_entries:
  fixes a :: "('g, 'k \<times> 'v) table_arrays"
  shows "arr_map a = map_of (somes (slots a))"
  by (simp add: arr_map_def)

lemma max_load_capacity: "shape_ok ok a \<Longrightarrow> initial_max_load a \<le> capacity a"
proof (cases "elements a")
  case (Some es)
  assume "shape_ok ok a"
  with Some show ?thesis
    using max_load_le_cap [OF shapeD(4)] by (simp add: initial_max_load_eq capacity_cap_of)
qed (simp add: initial_max_load_eq capacity_def max_load_of_def)

text \<open>
  Rehashing into fresh arrays that hold no key of the table and have room keeps the map, adds what
  the new arrays held already, and returns.
\<close>

lemma unchecked_rehash_correct:
  fixes t :: "('g, 'k \<times> 'v) table_core"
  assumes t: "inv (arrays t)" and new: "inv new"
    and fresh: "\<forall>k. arr_map (arrays t) k \<noteq> None \<longrightarrow> arr_map new k = None"
    and room: "length (somes (slots new)) + length (somes (slots (arrays t))) \<le> length (slots new)"
  shows "\<exists>t'. unchecked_rehash T t new = Some t' \<and> inv (arrays t') \<and>
    arr_map (arrays t') = arr_map new ++ arr_map (arrays t) \<and>
    length (somes (slots (arrays t'))) = length (somes (slots new)) + length (somes (slots (arrays t))) \<and>
    capacity (arrays t') = capacity new \<and> ctrl_ml t' = initial_max_load new \<and> ctrl_size t' = ctrl_size t \<and>
    (\<forall>l x. stores new l x \<longrightarrow> stores (arrays t') l x)"
proof -
  let ?es = "somes (slots (arrays t))"
  have d: "distinct (map fst ?es)" by (rule keys_unique_distinct [OF invD(4) [OF t]])
  have "\<forall>e \<in> List.set ?es. arr_map new (fst e) = None"
    using fresh d by (auto simp: arr_map_entries)
  from transfer_all_correct [OF new d this room] obtain a' where a':
    "transfer_all T ?es new = Some a'" "inv a'" "arr_map a' = arr_map new ++ map_of ?es"
    "length (somes (slots a')) = length (somes (slots new)) + length ?es" "capacity a' = capacity new"
    "\<forall>l x. stores new l x \<longrightarrow> stores a' l x"
    by blast
  have "initial_max_load a' = initial_max_load new" by (simp add: initial_max_load_eq a'(5))
  with a' show ?thesis
    by (simp add: unchecked_rehash_def all_elements_eq [OF t] arr_map_entries)
qed

end

end
