(* ===== verification/Boost_Core.thy ===== *)
theory Boost_Core
  imports Boost_Ops
begin

text \<open>
  The operations of the classes table_core and table on a whole table. Each keeps
  \<open>tab_inv\<close> and has its effect on \<open>tab_map\<close>; those that may
  loop always return.
\<close>

context foa_table
begin

abbreviation tinv :: "('g, 'k \<times> 'v) table_core \<Rightarrow> bool" where
  "tinv t \<equiv> tab_inv ok byte ovf T t"

lemma tinvD:
  assumes "tinv t"
  shows "inv (arrays t)" and "ctrl_size t = length (somes (slots (arrays t)))"
    and "ctrl_size t \<le> ctrl_ml t" and "ctrl_ml t \<le> capacity (arrays t)"
    and "length (slots (arrays t)) = capacity (arrays t)"
  using assms capacity_slots [of "arrays t"] invD(1) [of "arrays t"] by (simp_all add: tab_inv_def)

lemma arr_map_empty: "slots a = replicate n None \<Longrightarrow> arr_map a = Map.empty"
  by (simp add: arr_map_def)

lemma core_new_correct:
  fixes t :: "('g, 'k \<times> 'v) table_core"
  assumes "n < 2 ^ 64" "t = core_new T n"
  shows "tinv t" and "tab_map t = Map.empty" and "ctrl_size t = 0" and "n \<le> capacity (arrays t)"
proof -
  have a: "arrays t = new_arrays T n" "ctrl_ml t = initial_max_load (new_arrays T n :: ('g, 'k \<times> 'v) table_arrays)"
    and sz: "ctrl_size t = 0"
    by (simp_all add: assms(2) core_new_def Let_def)
  show "ctrl_size t = 0" by (rule sz)
  have "inv (arrays t) \<and> n \<le> capacity (arrays t) \<and> (\<exists>m. slots (arrays t) = replicate m None)"
  proof (cases "n = 0")
    case True
    then show ?thesis using new_arrays_0 [OF a(1) [unfolded True]] by auto
  next
    case False
    then have "0 < n" by simp
    from new_arrays_pos [OF this assms(1) a(1)] req_exp_cap [of n] show ?thesis by auto
  qed
  then have inv: "inv (arrays t)" and cap: "n \<le> capacity (arrays t)"
    and empty: "\<exists>m. slots (arrays t) = replicate m None" by blast+
  obtain m where m: "slots (arrays t) = replicate m None" using empty by blast
  show "n \<le> capacity (arrays t)" by (rule cap)
  show "tab_map t = Map.empty" unfolding tab_map_def by (rule arr_map_empty [OF m])
  show "tinv t"
    using inv max_load_capacity [OF invD(1) [OF inv]] by (simp add: tab_inv_def sz m) (simp add: a)
qed

lemma growth_arrays:
  fixes t :: "('g, 'k \<times> 'v) table_core"
  assumes "ctrl_size t < 2 ^ 60" "new = new_arrays_for_growth T t"
  shows "inv new" and "\<exists>m. slots new = replicate m None" and "elements new \<noteq> None"
    and "ctrl_size t + 1 \<le> initial_max_load new" and "initial_max_load new \<le> length (slots new)"
proof -
  define s where "s = ctrl_size t + ctrl_size t div 61 + 1"
  define n where "n = ceil_over_mlf s"
  have "s \<le> 105 * 2 ^ 54" using assms(1) by (simp add: s_def)
  then have "n \<le> 120 * 2 ^ 54" unfolding n_def by (rule ceil_over_mlf_bound)
  then have n64: "n < 2 ^ 64" by simp
  have "ceil_over_mlf 1 \<le> n" unfolding n_def by (rule ceil_over_mlf_mono) (simp add: s_def)
  moreover have "0 < ceil_over_mlf 1" by code_simp
  ultimately have n0: "0 < n" by linarith
  have new: "new = new_arrays T n" by (simp add: assms(2) new_arrays_for_growth_def n_def s_def)
  note p = new_arrays_pos [OF n0 n64 new]
  show "inv new" "elements new \<noteq> None" by (rule p)+
  show "\<exists>m. slots new = replicate m None" using p(2) by blast
  have "s \<le> max_load_of (cap_of (req_exp n))"
    using request_fits [OF req_exp_pos, of s n] req_exp_cap [of n] by (simp add: n_def)
  then show "ctrl_size t + 1 \<le> initial_max_load new"
    by (simp add: initial_max_load_eq p(4) s_def)
  show "initial_max_load new \<le> length (slots new)"
    using max_load_capacity [OF invD(1) [OF p(1)]] capacity_slots [OF invD(1) [OF p(1)]] by simp
qed

section \<open>Insertion\<close>

lemma unchecked_emplace_at_correct:
  fixes t :: "('g, 'k \<times> 'v) table_core"
  assumes t: "tinv t" and k: "tab_map t k = None" and room: "ctrl_size t < ctrl_ml t"
  shows "\<exists>t' loc. unchecked_emplace_at T t (position_for (hash_for T k) (arrays t)) (hash_for T k) (k, v)
      = Some (t', loc) \<and> tinv t' \<and> tab_map t' = (tab_map t)(k \<mapsto> v) \<and> ctrl_size t' = ctrl_size t + 1 \<and>
      stores (arrays t') loc (k, v) \<and> ctrl_ml t' = ctrl_ml t \<and> capacity (arrays t') = capacity (arrays t)"
proof -
  note D = tinvD [OF t]
  have k': "arr_map (arrays t) k = None" using k by (simp add: tab_map_def)
  obtain a' loc where a': "nosize_unchecked_emplace_at T (arrays t) (position_for (hash_for T k) (arrays t))
      (hash_for T k) (k, v) = Some (a', loc)" "placed (arrays t) (k, v) a' loc"
    using nosize_emplace_correct [OF D(1) k'] room D by fastforce
  note p = placedD [OF a'(2) k' D(1)]
  show ?thesis
    using a'(1) p room D placed_stores(1) [OF a'(2)] unfolding unchecked_emplace_at_def tab_inv_def tab_map_def by auto
qed

lemma emplace_with_rehash_correct:
  fixes t :: "('g, 'k \<times> 'v) table_core"
  assumes t: "tinv t" and k: "tab_map t k = None" and bound: "ctrl_size t < 2 ^ 60"
  shows "\<exists>t' loc. unchecked_emplace_with_rehash T t (hash_for T k) (k, v) = Some (t', loc) \<and> tinv t' \<and>
      tab_map t' = (tab_map t)(k \<mapsto> v) \<and> ctrl_size t' = ctrl_size t + 1 \<and> stores (arrays t') loc (k, v)"
proof -
  note D = tinvD [OF t]
  have k': "arr_map (arrays t) k = None" using k by (simp add: tab_map_def)
  define new :: "('g, 'k \<times> 'v) table_arrays" where "new = new_arrays_for_growth T t"
  note g = growth_arrays [OF bound new_def]
  obtain m where m: "slots new = replicate m None" using g(2) by blast
  have e: "arr_map new = Map.empty" by (rule arr_map_empty [OF m])
  obtain a' loc where a': "nosize_unchecked_emplace_at T new (position_for (hash_for T k) new)
      (hash_for T k) (k, v) = Some (a', loc)" "placed new (k, v) a' loc"
    using nosize_emplace_correct [OF g(1)] e g(4,5) m by fastforce
  note p = placedD [OF a'(2) fun_cong [OF e, simplified] g(1)]
  have "\<exists>t'. unchecked_rehash T t a' = Some t' \<and> inv (arrays t') \<and>
    arr_map (arrays t') = arr_map a' ++ arr_map (arrays t) \<and>
    length (somes (slots (arrays t'))) = length (somes (slots a')) + length (somes (slots (arrays t))) \<and>
    capacity (arrays t') = capacity a' \<and> ctrl_ml t' = initial_max_load a' \<and> ctrl_size t' = ctrl_size t \<and>
    (\<forall>l x. stores a' l x \<longrightarrow> stores (arrays t') l x)"
  proof (rule unchecked_rehash_correct [OF D(1) p(1)])
    show "\<forall>x. arr_map (arrays t) x \<noteq> None \<longrightarrow> arr_map a' x = None" using k' p(2) e by auto
    show "length (somes (slots a')) + length (somes (slots (arrays t))) \<le> length (slots a')"
      using p(3,4) g(4,5) D(2) m by simp
  qed
  then obtain t' where t': "unchecked_rehash T t a' = Some t'" "inv (arrays t')"
    "arr_map (arrays t') = arr_map a' ++ arr_map (arrays t)"
    "length (somes (slots (arrays t'))) = length (somes (slots a')) + length (somes (slots (arrays t)))"
    "capacity (arrays t') = capacity a'" "ctrl_ml t' = initial_max_load a'" "ctrl_size t' = ctrl_size t"
    "\<forall>l x. stores a' l x \<longrightarrow> stores (arrays t') l x" by blast
  have ml: "initial_max_load a' = initial_max_load new" by (simp add: initial_max_load_eq p(7))
  have "arr_map (arrays t') = (arr_map (arrays t))(k \<mapsto> v)"
    using t'(3) p(2) e k' by (auto simp: map_add_def split: option.splits)
  moreover have "length (slots new) = capacity new" by (rule capacity_slots [OF invD(1) [OF g(1)], symmetric])
  ultimately have "tinv (t'\<lparr> ctrl_size := ctrl_size t' + 1 \<rparr>) \<and>
      tab_map (t'\<lparr> ctrl_size := ctrl_size t' + 1 \<rparr>) = (tab_map t)(k \<mapsto> v)"
    using t' p(3,7) m g(4,5) D(2) ml by (simp add: tab_inv_def tab_map_def)
  moreover have "stores (arrays t') loc (k, v)" using t'(8) placed_stores(1) [OF a'(2)] by blast
  ultimately show ?thesis using a'(1) t'(1,7) by (simp add: unchecked_emplace_with_rehash_def Let_def flip: new_def)
qed

lemma core_find_stores:
  assumes t: "tinv t" and loc: "core_find T t k = Some loc"
  shows "stores (arrays t) loc (k, the (tab_map t k))"
proof -
  obtain v where v: "stores (arrays t) loc (k, v)"
    using loc unfolding core_find_Some [OF tinvD(1) [OF t]] stores_def by blast
  then have "tab_map t k = Some v"
    unfolding tab_map_def arr_map_Some [OF invD(4) [OF tinvD(1) [OF t]]] stores_def by blast
  with v show ?thesis by simp
qed

lemma emplace_impl_correct:
  fixes t :: "('g, 'k \<times> 'v) table_core"
  assumes t: "tinv t" and bound: "ctrl_size t < 2 ^ 60"
  shows "\<exists>t' loc. emplace_impl T (k, v) t = Some (t', loc, tab_map t k = None) \<and> tinv t' \<and>
      tab_map t' = (if tab_map t k = None then (tab_map t)(k \<mapsto> v) else tab_map t) \<and>
      ctrl_size t' = (if tab_map t k = None then ctrl_size t + 1 else ctrl_size t) \<and>
      stores (arrays t') loc (k, the (tab_map t' k))"
proof (cases "tab_map t k")
  case None
  then have "core_find T t k = None"
    using core_find_absent [OF tinvD(1) [OF t]] by (simp add: tab_map_def)
  then have f: "core_find_at T t k (position_for (hash_for T k) (arrays t)) (hash_for T k) = None"
    by (simp add: core_find_def Let_def)
  show ?thesis
  proof (cases "ctrl_size t < ctrl_ml t")
    case True
    with unchecked_emplace_at_correct [OF t None True, of v] f None show ?thesis
      by (auto simp: emplace_impl_def Let_def)
  next
    case False
    with emplace_with_rehash_correct [OF t None bound, of v] f None show ?thesis
      by (auto simp: emplace_impl_def Let_def)
  qed
next
  case (Some w)
  then obtain loc where loc: "core_find T t k = Some loc"
    using core_find_element [OF tinvD(1) [OF t], of k] by (auto simp: tab_map_def)
  have "stores (arrays t) loc (k, the (tab_map t k))" by (rule core_find_stores [OF t loc])
  moreover from loc have "core_find_at T t k (position_for (hash_for T k) (arrays t)) (hash_for T k) = Some loc"
    by (simp add: core_find_def Let_def)
  ultimately show ?thesis using Some t by (simp add: emplace_impl_def Let_def)
qed

section \<open>Erasure\<close>

lemma somes_length_remove:
  assumes "i < length es" "es ! i = Some e"
  shows "Suc (length (somes (es[i := None]))) = length (somes es)"
  using assms somes_split [OF assms(1), of None] somes_at [OF assms(1)] by simp

text \<open>
  Erasing a stored element; the maximum load never wraps below zero, since it is at least the
  number of elements, of which there is one.
\<close>

lemma core_erase_correct:
  fixes t :: "('g, 'k \<times> 'v) table_core"
  assumes t: "tinv t" and n: "n < 15" and i: "pos * 15 + n < length (slots (arrays t))"
    and e: "slots (arrays t) ! (pos * 15 + n) = Some (k, v)"
  shows "tinv (core_erase T (pos, n) t)" and "tab_map (core_erase T (pos, n) t) = (tab_map t)(k := None)"
    and "ctrl_size (core_erase T (pos, n) t) + 1 = ctrl_size t"
    and "slots (arrays (core_erase T (pos, n) t)) = (slots (arrays t))[pos * 15 + n := None]"
    and "1 \<le> ctrl_ml t" and "capacity (arrays (core_erase T (pos, n) t)) = capacity (arrays t)"
    and "ctrl_ml t - 1 \<le> ctrl_ml (core_erase T (pos, n) t)"
proof -
  note D = tinvD [OF t]
  let ?t = "core_erase T (pos, n) t" and ?i = "pos * 15 + n"
  define b where "b = g_maybe_caused_overflow (grp T) (groups (arrays t) ! pos) n"
  have a: "arrays ?t = (set_element (arrays t) (pos, n) None)
      \<lparr> groups := (groups (arrays t))[pos := g_reset (grp T) (groups (arrays t) ! pos) n] \<rparr>"
    and sz: "ctrl_size ?t = ctrl_size t - 1" and ml: "ctrl_ml ?t = ctrl_ml t - of_bool b"
    by (simp_all add: core_erase_def recover_slot_def Let_def b_def)
  have inv: "inv (arrays ?t)" unfolding a by (rule inv_take [OF D(1) n i])
  show sl: "slots (arrays ?t) = (slots (arrays t))[?i := None]" by (simp add: a)
  have len: "Suc (length (somes (slots (arrays ?t)))) = length (somes (slots (arrays t)))"
    unfolding sl by (rule somes_length_remove [OF i e])
  show "ctrl_size ?t + 1 = ctrl_size t" "1 \<le> ctrl_ml t" "ctrl_ml t - 1 \<le> ctrl_ml ?t"
    using len D(2,3) sz ml by simp_all
  show cap: "capacity (arrays ?t) = capacity (arrays t)"
    using capacity_slots [OF invD(1) [OF inv]] D(5) sl by simp
  show "tinv ?t"
  proof -
    have "ctrl_ml ?t = ctrl_ml t \<or> ctrl_ml ?t = ctrl_ml t - 1" using ml by (cases b) simp_all
    then have "ctrl_size ?t \<le> ctrl_ml ?t" "ctrl_ml ?t \<le> capacity (arrays ?t)"
      using len D(2-4) sz cap by linarith+
    moreover have "ctrl_size ?t = length (somes (slots (arrays ?t)))" using len D(2) sz by linarith
    ultimately show ?thesis using inv unfolding tab_inv_def by blast
  qed
  have "tab_map ?t x = Some w \<longleftrightarrow> ((tab_map t)(k := None)) x = Some w" for x w
  proof -
    have "tab_map ?t x = Some w \<longleftrightarrow> (\<exists>j < length (slots (arrays t)). j \<noteq> ?i \<and> slots (arrays t) ! j = Some (x, w))"
      unfolding tab_map_def arr_map_Some [OF invD(4) [OF inv]] sl
      by (metis length_list_update nth_list_update_eq nth_list_update_neq option.distinct(1))
    also have "\<dots> \<longleftrightarrow> x \<noteq> k \<and> (\<exists>j < length (slots (arrays t)). slots (arrays t) ! j = Some (x, w))"
      using keys_uniqueD [OF invD(4) [OF D(1)] _ i _ e] e by (metis option.inject prod.inject)
    finally show ?thesis
      by (simp add: tab_map_def arr_map_Some [OF invD(4) [OF D(1)]])
  qed
  then show "tab_map ?t = (tab_map t)(k := None)" by (metis ext not_None_eq)
qed

lemma table_erase_correct:
  fixes t :: "('g, 'k \<times> 'v) table_core"
  assumes t: "tinv t"
  shows "tinv (fst (table_erase T k t))" and "tab_map (fst (table_erase T k t)) = (tab_map t)(k := None)"
    and "snd (table_erase T k t) = (if tab_map t k = None then 0 else 1)"
    and "ctrl_size (fst (table_erase T k t)) + snd (table_erase T k t) = ctrl_size t"
proof -
  note D = tinvD [OF t]
  have "tinv (fst (table_erase T k t)) \<and> tab_map (fst (table_erase T k t)) = (tab_map t)(k := None) \<and>
    snd (table_erase T k t) = (if tab_map t k = None then 0 else 1) \<and>
    ctrl_size (fst (table_erase T k t)) + snd (table_erase T k t) = ctrl_size t"
  proof (cases "core_find T t k")
    case None
    then have n: "tab_map t k = None"
      using core_find_element [OF D(1), of k] by (simp add: tab_map_def)
    then have "(tab_map t)(k := None) = tab_map t" by auto
    with None n t show ?thesis by (simp add: table_erase_def)
  next
    case (Some loc)
    then obtain v where v: "snd loc < 15" "fst loc * 15 + snd loc < length (slots (arrays t))"
      "slots (arrays t) ! (fst loc * 15 + snd loc) = Some (k, v)"
      unfolding core_find_Some [OF D(1)] by blast
    note er = core_erase_correct [OF t v, simplified prod.collapse]
    have "tab_map t k \<noteq> None"
      using v(2,3) by (auto simp: tab_map_def arr_map_None)
    with Some er show ?thesis by (simp add: table_erase_def)
  qed
  then show "tinv (fst (table_erase T k t))" "tab_map (fst (table_erase T k t)) = (tab_map t)(k := None)"
    "snd (table_erase T k t) = (if tab_map t k = None then 0 else 1)"
    "ctrl_size (fst (table_erase T k t)) + snd (table_erase T k t) = ctrl_size t"
    by blast+
qed

end

end
