(* ===== verification/Boost_Storage.thy ===== *)
theory Boost_Storage
  imports Boost_Core
begin

text \<open>
  Operations that move whole tables: clearing, rehashing and reserving, copying with its fast path,
  assignment, comparison. All keep the invariant; a copy has the same map, and two tables compare
  equal exactly when their maps are equal.
\<close>

lemma slots_foldl_destroy:
  "slots (foldl (\<lambda>a loc. set_element a loc None) a locs) = foldl (\<lambda>es i. es[i := None]) (slots a)
     (map (\<lambda>loc. fst loc * 15 + snd loc) locs)"
proof (induction locs arbitrary: a)
  case (Cons loc locs)
  have "slots (set_element a loc None) = (slots a)[fst loc * 15 + snd loc := None]"
    by (cases loc) simp
  with Cons show ?case by simp
qed simp

lemma foldl_destroy_sel:
  "groups (foldl (\<lambda>a loc. set_element a loc None) a locs) = groups a"
  "groups_size_mask (foldl (\<lambda>a loc. set_element a loc None) a locs) = groups_size_mask a"
  "groups_size_index (foldl (\<lambda>a loc. set_element a loc None) a locs) = groups_size_index a"
  "elements (foldl (\<lambda>a loc. set_element a loc None) a locs) = None \<longleftrightarrow> elements a = None"
  by (induction locs arbitrary: a) simp_all

lemma foldl_none_nth:
  "i < length es \<Longrightarrow> foldl (\<lambda>es i. es[i := None]) es is ! i = (if i \<in> List.set is then None else es ! i)"
  by (induction "is" arbitrary: es) auto

lemma foldl_none_length: "length (foldl (\<lambda>es i. es[i := None]) es is) = length es"
  by (induction "is" arbitrary: es) auto

context foa_table
begin

lemma core_clear_correct:
  fixes t :: "('g, 'k \<times> 'v) table_core"
  assumes t: "tinv t"
  shows "tinv (core_clear T t)" and "tab_map (core_clear T t) = Map.empty" and "ctrl_size (core_clear T t) = 0"
    and "capacity (arrays (core_clear T t)) = capacity (arrays t)"
    and "ctrl_ml (core_clear T t) = initial_max_load (arrays t)"
    and "groups_size_mask (arrays (core_clear T t)) = groups_size_mask (arrays t)"
    and "elements (arrays (core_clear T t)) = None \<longleftrightarrow> elements (arrays t) = None"
proof -
  note D = tinvD [OF t]
  let ?c = "core_clear T t"
  have "tinv ?c \<and> tab_map ?c = Map.empty \<and> ctrl_size ?c = 0 \<and> capacity (arrays ?c) = capacity (arrays t) \<and>
    ctrl_ml ?c = initial_max_load (arrays t) \<and> groups_size_mask (arrays ?c) = groups_size_mask (arrays t) \<and>
    (elements (arrays ?c) = None \<longleftrightarrow> elements (arrays t) = None)"
  proof (cases "elements (arrays t)")
    case None
    then have "slots (arrays t) = []" "capacity (arrays t) = 0" by (simp_all add: slots_def capacity_def)
    with t D None show ?thesis
      by (simp add: core_clear_def Let_def tab_map_def arr_map_def initial_max_load_eq max_load_of_def)
  next
    case (Some es)
    let ?a = "arrays t" and ?d = "foldl (\<lambda>a loc. set_element a loc None) (arrays t) (all_locators T (arrays t))"
    define gl where "gl = map (\<lambda>_. g_initialize (grp T)) (groups ?a)"
    define b where "b = ?d\<lparr> groups := gl[groups_size_mask ?a := g_set_sentinel (grp T) (gl ! groups_size_mask ?a)] \<rparr>"
    note sh = invD(1) [OF D(1)]
    have c: "?c = t\<lparr> arrays := b, ctrl_ml := initial_max_load b, ctrl_size := 0 \<rparr>"
      by (simp add: core_clear_def Some Let_def b_def gl_def)
    have sl: "\<forall>x \<in> List.set (slots b). x = None"
      by (auto simp: b_def slots_foldl_destroy all_locators_eq(1) [OF D(1)] in_set_conv_nth foldl_none_length
          foldl_none_nth split: if_splits) (metis not_None_eq surj_pair)
    have len: "length (slots b) = length (slots ?a)" by (simp add: b_def slots_foldl_destroy foldl_none_length)
    have ae: "a_exp b = a_exp ?a" and el: "elements b \<noteq> None"
      using Some by (simp_all add: b_def a_exp_def foldl_destroy_sel)
    have gslen: "length gl = 2 ^ a_exp ?a" by (simp add: gl_def shapeD(2) [OF sh])
    have m: "groups_size_mask ?a = 2 ^ a_exp ?a - 1" by (simp add: shapeD(1) [OF sh])
    have glnth: "gl ! i = g_initialize (grp T)" if "i < 2 ^ a_exp ?a" for i
      using that gslen by (simp add: gl_def)
    have "shape_ok ok b"
      using sh Some glnth [of "groups_size_mask ?a"] m el len unfolding shape_ok_def ae
      by (auto simp: b_def foldl_destroy_sel gl_def init_ok sentinel_ok dest!: set_update_subset_insert [THEN subsetD])
    then have inv: "inv b"
    proof (rule fresh_inv [OF _ el sl])
      fix pos :: nat assume "pos < 2 ^ a_exp b"
      then show "groups b ! pos = (if pos = 2 ^ a_exp b - 1
          then g_set_sentinel (grp T) (g_initialize (grp T)) else g_initialize (grp T))"
      proof -
        have pos: "pos < 2 ^ a_exp ?a" using \<open>pos < 2 ^ a_exp b\<close> by (simp only: ae)
        have "groups b ! pos = gl[2 ^ a_exp ?a - 1 := g_set_sentinel (grp T) (gl ! (2 ^ a_exp ?a - 1))] ! pos"
          by (simp add: b_def m)
        also have "\<dots> = (if pos = 2 ^ a_exp ?a - 1
            then g_set_sentinel (grp T) (g_initialize (grp T)) else g_initialize (grp T))"
          using pos gslen glnth [of pos] by (auto simp: nth_list_update)
        finally show ?thesis by (simp only: ae)
      qed
    qed
    have cap: "capacity b = capacity ?a" using capacity_slots [OF invD(1) [OF inv]] D(5) len by simp
    have som: "somes (slots b) = []" using sl unfolding somes_def by auto
    then have "arr_map b = Map.empty" by (simp add: arr_map_def)
    moreover have "groups_size_mask b = groups_size_mask ?a" by (simp add: b_def foldl_destroy_sel)
    ultimately show ?thesis
      using inv som cap max_load_capacity [OF invD(1) [OF inv]] el Some
      by (simp add: c tab_inv_def tab_map_def initial_max_load_eq)
  qed
  then show "tinv ?c" "tab_map ?c = Map.empty" "ctrl_size ?c = 0" "capacity (arrays ?c) = capacity (arrays t)"
    "ctrl_ml ?c = initial_max_load (arrays t)" "groups_size_mask (arrays ?c) = groups_size_mask (arrays t)"
    "elements (arrays ?c) = None \<longleftrightarrow> elements (arrays t) = None"
    by blast+
qed

section \<open>Rehash and reserve\<close>

lemma request_bounds: "s < 2 ^ 60 \<Longrightarrow> ceil_over_mlf s < 2 ^ 63"
  using ceil_over_mlf_bound [of s 54] by simp

lemma ceil_over_mlf_pos: "0 < s \<Longrightarrow> 0 < ceil_over_mlf s"
proof -
  assume "0 < s"
  then have "ceil_over_mlf 1 \<le> ceil_over_mlf s" by (intro ceil_over_mlf_mono) simp
  moreover have "0 < ceil_over_mlf 1" by code_simp
  ultimately show ?thesis by linarith
qed

text \<open>Arrays of a permissible capacity, for a request below 2 ^ 63.\<close>

lemma sized_arrays:
  fixes a :: "('g, 'k \<times> 'v) table_arrays"
  assumes n: "0 < n" "n < 2 ^ 63" and a: "a = new_arrays T (capacity_for n)"
  shows "inv a" and "slots a = replicate (capacity_for n) None" and "capacity a = capacity_for n"
    and "elements a \<noteq> None" and "n \<le> capacity_for n"
    and "ceil_over_mlf s \<le> n \<Longrightarrow> s \<le> initial_max_load a"
proof -
  have c: "capacity_for n = cap_of (req_exp n)" using n(2) by (intro capacity_for_eq) simp
  have "n div 15 + 1 \<le> 2 ^ 60" using n(2) by simp
  then have e: "req_exp n \<le> 60" unfolding req_exp_def by (rule policy_exp_bound) simp
  then have "(2::nat) ^ req_exp n \<le> 2 ^ 60" by (intro power_increasing) simp_all
  then have c64: "capacity_for n < 2 ^ 64" by (simp add: c cap_of_def)
  show nc: "n \<le> capacity_for n" unfolding c by (rule req_exp_cap)
  then have c0: "0 < capacity_for n" using n(1) by simp
  have r: "req_exp (capacity_for n) = req_exp n" unfolding c by (rule req_exp_cap_of [OF req_exp_pos])
  note p = new_arrays_pos [OF c0 c64 a, unfolded r c [symmetric]]
  show "inv a" "slots a = replicate (capacity_for n) None" "capacity a = capacity_for n" "elements a \<noteq> None"
    by (rule p)+
  show "s \<le> initial_max_load a" if "ceil_over_mlf s \<le> n"
    using request_fits [OF req_exp_pos, of s n] that nc
    by (simp add: initial_max_load_eq p(4) c)
qed

lemma core_rehash_correct:
  fixes t :: "('g, 'k \<times> 'v) table_core"
  assumes t: "tinv t" and size: "ctrl_size t < 2 ^ 60" and n: "n < 2 ^ 63"
  shows "\<exists>t'. core_rehash T n t = Some t' \<and> tinv t' \<and> tab_map t' = tab_map t \<and>
    ctrl_size t' = ctrl_size t \<and> n \<le> capacity (arrays t') \<and>
    (if capacity (arrays t') = capacity (arrays t) then t' = t else ctrl_ml t' = initial_max_load (arrays t'))"
proof -
  note D = tinvD [OF t]
  define m where "m = ceil_over_mlf (ctrl_size t)"
  define n' where "n' = (if m > n then m else n)"
  have m63: "m < 2 ^ 63" unfolding m_def by (rule request_bounds [OF size])
  then have n63: "n' < 2 ^ 63" and le: "m \<le> n'" "n \<le> n'" using n by (simp_all add: n'_def)
  define c where "c = (if n' \<noteq> 0 then capacity_for n' else n')"
  have r: "core_rehash T n t = (if c \<noteq> capacity (arrays t) then unchecked_rehash T t (new_arrays T c) else Some t)"
    by (simp add: core_rehash_def Let_def m_def n'_def c_def)
  define new :: "('g, 'k \<times> 'v) table_arrays" where "new = new_arrays T c"
  have new: "inv new \<and> slots new = replicate c None \<and> n \<le> c \<and> ctrl_size t \<le> initial_max_load new \<and> capacity new = c"
  proof (cases "n' = 0")
    case True
    then have "ctrl_size t = 0" using ceil_over_mlf_pos [of "ctrl_size t"] le by (auto simp: m_def)
    then show ?thesis using new_arrays_0 [of new] True le by (simp add: new_def c_def)
  next
    case False
    then have "new = new_arrays T (capacity_for n')" by (simp add: new_def c_def)
    moreover have "0 < n'" using False by simp
    ultimately show ?thesis
      using sized_arrays(1-5) [of n' new] sized_arrays(6) [of n' new "ctrl_size t"] n63 le False
      by (simp add: c_def m_def)
  qed
  show ?thesis
  proof (cases "c = capacity (arrays t)")
    case True
    with t new show ?thesis by (simp add: r)
  next
    case False
    have e: "arr_map new = Map.empty" and s: "somes (slots new) = []"
      using new arr_map_empty by (auto simp: arr_map_def)
    have "length (slots new) = c" using new by simp
    moreover have "ctrl_size t \<le> c" using new max_load_capacity [OF invD(1)] by fastforce
    ultimately have "\<exists>t'. unchecked_rehash T t new = Some t' \<and> inv (arrays t') \<and>
      arr_map (arrays t') = arr_map new ++ arr_map (arrays t) \<and>
      length (somes (slots (arrays t'))) = length (somes (slots new)) + length (somes (slots (arrays t))) \<and>
      capacity (arrays t') = capacity new \<and> ctrl_ml t' = initial_max_load new \<and> ctrl_size t' = ctrl_size t \<and>
      (\<forall>l x. stores new l x \<longrightarrow> stores (arrays t') l x)"
      using new e s D(2) by (intro unchecked_rehash_correct D(1)) simp_all
    then obtain t' where t': "unchecked_rehash T t new = Some t'" "inv (arrays t')"
      "arr_map (arrays t') = arr_map (arrays t)" "length (somes (slots (arrays t'))) = ctrl_size t"
      "capacity (arrays t') = c" "ctrl_ml t' = initial_max_load new" "ctrl_size t' = ctrl_size t"
      using e s D(2) new by (auto simp del: somes_simps)
    have "initial_max_load new \<le> c" using new max_load_capacity [OF invD(1)] by fastforce
    moreover have "initial_max_load (arrays t') = initial_max_load new"
      using t'(5) new by (simp add: initial_max_load_def)
    ultimately show ?thesis using t' new False by (simp add: r tab_inv_def tab_map_def flip: new_def)
  qed
qed

text \<open>Arrays that can hold \<open>ceil(n/mlf)\<close> slots have a maximum load of at least n.\<close>

lemma capacity_fits:
  fixes a :: "('g, 'k \<times> 'v) table_arrays"
  assumes inv: "inv a" and n: "ceil_over_mlf n \<le> capacity a"
  shows "n \<le> initial_max_load a"
proof (cases "elements a")
  case None
  then have "ceil_over_mlf n = 0" using n by (simp add: capacity_def)
  then show ?thesis using ceil_over_mlf_pos [of n] by (cases "n = 0") auto
next
  case (Some es)
  note sh = invD(1) [OF inv]
  have "capacity a = cap_of (a_exp a)" using Some by (intro capacity_cap_of [OF sh]) simp
  then show ?thesis using request_fits [OF shapeD(4) [OF sh], of n] n by (simp add: initial_max_load_eq)
qed

lemma core_reserve_correct:
  fixes t :: "('g, 'k \<times> 'v) table_core"
  assumes t: "tinv t" and size: "ctrl_size t < 2 ^ 60" and n: "n < 2 ^ 60"
  shows "\<exists>t'. core_reserve T n t = Some t' \<and> tinv t' \<and> tab_map t' = tab_map t \<and>
    ctrl_size t' = ctrl_size t \<and> n \<le> initial_max_load (arrays t') \<and>
    (if capacity (arrays t') = capacity (arrays t) then t' = t else ctrl_ml t' = initial_max_load (arrays t'))"
proof -
  obtain t' where t': "core_rehash T (ceil_over_mlf n) t = Some t'" "tinv t'" "tab_map t' = tab_map t"
    "ctrl_size t' = ctrl_size t" "ceil_over_mlf n \<le> capacity (arrays t')"
    "if capacity (arrays t') = capacity (arrays t) then t' = t else ctrl_ml t' = initial_max_load (arrays t')"
    using core_rehash_correct [OF t size request_bounds [OF n]] by blast
  with capacity_fits [OF tinvD(1) [OF t'(2)] t'(5)] show ?thesis by (auto simp: core_reserve_def)
qed

text \<open>A table constructed for \<open>ceil(n/mlf)\<close> slots accepts n elements without growing.\<close>

lemma core_new_fits:
  fixes t :: "('g, 'k \<times> 'v) table_core"
  assumes n: "n < 2 ^ 60" and t: "t = core_new T (ceil_over_mlf n)"
  shows "n \<le> ctrl_ml t"
proof -
  have "ceil_over_mlf n < 2 ^ 64" using request_bounds [OF n] by simp
  from core_new_correct [OF this t] have "n \<le> initial_max_load (arrays t)"
    by (intro capacity_fits) (simp_all add: tab_inv_def)
  then show ?thesis by (simp add: t core_new_def Let_def)
qed

section \<open>Copies\<close>

lemma insert_all_correct:
  fixes t :: "('g, 'k \<times> 'v) table_core"
  assumes "tinv t" "distinct (map fst es)" "\<forall>e \<in> List.set es. tab_map t (fst e) = None"
    and "ctrl_size t + length es \<le> ctrl_ml t"
  shows "\<exists>t'. insert_all T es t = Some t' \<and> tinv t' \<and> tab_map t' = tab_map t ++ map_of es \<and>
    ctrl_size t' = ctrl_size t + length es"
  using assms
proof (induction es arbitrary: t)
  case (Cons e es t)
  obtain k v where e: "e = (k, v)" by (cases e)
  have k: "tab_map t k = None" using Cons.prems(3) e by simp
  obtain t1 loc where t1: "unchecked_emplace_at T t (position_for (hash_for T k) (arrays t)) (hash_for T k) (k, v)
      = Some (t1, loc)" "tinv t1" "tab_map t1 = (tab_map t)(k \<mapsto> v)" "ctrl_size t1 = ctrl_size t + 1"
      "ctrl_ml t1 = ctrl_ml t"
    using unchecked_emplace_at_correct [OF Cons.prems(1) k, of v] Cons.prems(4) by auto
  have i: "unchecked_insert T e t = Some t1" by (simp add: unchecked_insert_def e t1(1) Let_def)
  have kn: "map_of es k = None" using Cons.prems(2) e by (simp add: map_of_eq_None_iff)
  have "\<forall>e \<in> List.set es. tab_map t1 (fst e) = None" using Cons.prems(2,3) e t1(3) by force
  moreover have "distinct (map fst es)" "ctrl_size t1 + length es \<le> ctrl_ml t1" using Cons.prems t1 by simp_all
  ultimately obtain t' where t': "insert_all T es t1 = Some t'" "tinv t'" "tab_map t' = tab_map t1 ++ map_of es"
    "ctrl_size t' = ctrl_size t1 + length es" using Cons.IH [OF t1(2)] by blast
  have "(tab_map t)(k \<mapsto> v) ++ map_of es = tab_map t ++ map_of (e # es)"
    using kn by (intro ext) (auto simp: e map_add_def split: option.splits)
  then have "tab_map t' = tab_map t ++ map_of (e # es)" using t'(3) t1(3) by simp
  moreover have "insert_all T (e # es) t = Some t'" using i t'(1) by simp
  moreover have "ctrl_size t' = ctrl_size t + length (e # es)" using t'(4) t1(4) by simp
  ultimately show ?case using t'(2) by blast
qed simp

lemma same_mask_exp:
  assumes "shape_ok ok a" "shape_ok ok b" "groups_size_mask a = groups_size_mask b"
  shows "groups_size_index a = groups_size_index b"
proof -
  have pos: "0 < (2::nat) ^ a_exp a" "0 < (2::nat) ^ a_exp b" by simp_all
  have "(2::nat) ^ a_exp a - Suc 0 = 2 ^ a_exp b - Suc 0"
    using assms shapeD(1) by metis
  with pos have "(2::nat) ^ a_exp a = 2 ^ a_exp b" by linarith
  then have "a_exp a = a_exp b" by simp
  then show ?thesis using shapeD(3) [OF assms(1)] shapeD(3) [OF assms(2)] by simp
qed

lemma copy_elements_correct:
  fixes t x :: "('g, 'k \<times> 'v) table_core"
  assumes t: "tinv t" "ctrl_size t = 0" and x: "tinv x" and room: "ctrl_size x \<le> ctrl_ml t"
  shows "\<exists>t'. copy_elements_from T x t = Some t' \<and> tinv t' \<and> tab_map t' = tab_map x \<and> ctrl_size t' = ctrl_size x"
proof -
  note D = tinvD [OF t(1)] and X = tinvD [OF x]
  have te: "somes (slots (arrays t)) = []" using D(2) t(2) by simp
  then have tm: "tab_map t = Map.empty" by (simp add: tab_map_def arr_map_def)
  show ?thesis
  proof (cases "groups_size_mask (arrays t) = groups_size_mask (arrays x)")
    case True
    then have gsi: "groups_size_index (arrays t) = groups_size_index (arrays x)"
      by (rule same_mask_exp [OF invD(1) [OF D(1)] invD(1) [OF X(1)]])
    show ?thesis
    proof (cases "elements (arrays t) \<noteq> None \<and> elements (arrays x) \<noteq> None")
      case both: True
      have "(arrays t)\<lparr> elements := elements (arrays x), groups := groups (arrays x) \<rparr> = arrays x"
        using True gsi by simp
      then have "fast_copy_elements_from x t = t\<lparr> arrays := arrays x, ctrl_ml := ctrl_ml x, ctrl_size := ctrl_size x \<rparr>"
        using both by (simp add: fast_copy_elements_from_def)
      with True x show ?thesis by (simp add: copy_elements_from_def tab_inv_def tab_map_def)
    next
      case False
      have x0: "ctrl_size x = 0"
      proof (cases "elements (arrays x)")
        case None
        then show ?thesis using X(2) by (simp add: slots_def)
      next
        case (Some es)
        with False have "elements (arrays t) = None" by simp
        then have "ctrl_ml t = 0" using D(4) by (simp add: capacity_def)
        then show ?thesis using room by simp
      qed
      then have "tab_map x = Map.empty" using X(2) by (simp add: tab_map_def arr_map_def)
      with False True t tm x0 show ?thesis by (auto simp: copy_elements_from_def fast_copy_elements_from_def)
    qed
  next
    case False
    let ?es = "somes (slots (arrays x))"
    have "\<exists>t'. insert_all T ?es t = Some t' \<and> tinv t' \<and> tab_map t' = tab_map t ++ map_of ?es \<and>
      ctrl_size t' = ctrl_size t + length ?es"
      by (rule insert_all_correct [OF t(1) keys_unique_distinct [OF invD(4) [OF X(1)]]])
        (use tm room t(2) X(2) in simp_all)
    with False tm t(2) X(2) show ?thesis
      by (simp add: copy_elements_from_def all_elements_eq [OF X(1)] tab_map_def arr_map_def)
  qed
qed

lemma core_copy_correct:
  fixes x :: "('g, 'k \<times> 'v) table_core"
  assumes x: "tinv x" and size: "ctrl_size x < 2 ^ 60"
  shows "\<exists>t'. core_copy T x = Some t' \<and> tinv t' \<and> tab_map t' = tab_map x \<and> ctrl_size t' = ctrl_size x"
proof -
  define n where "n = ceil_over_mlf (ctrl_size x)"
  define t :: "('g, 'k \<times> 'v) table_core" where "t = core_new T n"
  have n64: "n < 2 ^ 64" using request_bounds [OF size] by (simp add: n_def)
  note new = core_new_correct [OF n64 t_def]
  have "ctrl_size x \<le> ctrl_ml t"
  proof (cases "ctrl_size x = 0")
    case False
    then have "0 < n" using ceil_over_mlf_pos by (simp add: n_def)
    have a: "arrays t = new_arrays T n" "ctrl_ml t = initial_max_load (arrays t)"
      by (simp_all add: t_def core_new_def Let_def)
    have "ctrl_ml t = max_load_of (cap_of (req_exp n))"
      unfolding a(2) initial_max_load_eq new_arrays_pos(4) [OF \<open>0 < n\<close> n64 a(1)] ..
    then show ?thesis using request_fits [OF req_exp_pos, of "ctrl_size x" n] req_exp_cap [of n]
      by (simp add: n_def)
  qed simp
  from copy_elements_correct [OF new(1,3) x this] show ?thesis
    by (simp add: core_copy_def t_def n_def)
qed

lemma core_copy_assign_correct:
  fixes x t :: "('g, 'k \<times> 'v) table_core"
  assumes t: "tinv t" and x: "tinv x" and size: "ctrl_size x < 2 ^ 60"
  shows "\<exists>t'. core_copy_assign T x t = Some t' \<and> tinv t' \<and> tab_map t' = tab_map x \<and> ctrl_size t' = ctrl_size x"
proof -
  let ?c = "core_clear T t"
  note c = core_clear_correct [OF t]
  define u where "u = noshrink_reserve T (ctrl_size x) ?c"
  have "tinv u \<and> ctrl_size u = 0 \<and> ctrl_size x \<le> ctrl_ml u"
  proof (cases "ctrl_size x = 0")
    case True
    with c show ?thesis by (simp add: u_def noshrink_reserve_def)
  next
    case False
    define n where "n = ceil_over_mlf (ctrl_size x)"
    have n: "0 < n" "n < 2 ^ 63"
      using False ceil_over_mlf_pos request_bounds [OF size] by (simp_all add: n_def)
    show ?thesis
    proof (cases "capacity_for n > capacity (arrays ?c)")
      case True
      define a :: "('g, 'k \<times> 'v) table_arrays" where "a = new_arrays T (capacity_for n)"
      note s = sized_arrays [OF n a_def]
      have u: "u = ?c\<lparr> arrays := a, ctrl_ml := initial_max_load a \<rparr>"
        using True False by (simp add: u_def noshrink_reserve_def n_def Let_def a_def)
      show ?thesis
        using s(1,2) s(6) [of "ctrl_size x"] c(3) max_load_capacity [OF invD(1) [OF s(1)]]
        by (simp add: u tab_inv_def n_def)
    next
      case small: False
      then have u: "u = ?c" using False by (simp add: u_def noshrink_reserve_def n_def Let_def)
      note sh = invD(1) [OF tinvD(1) [OF t]]
      have "n \<le> capacity (arrays t)" using small sized_arrays(5) [OF n refl] c(4) by simp
      moreover from this n(1) have "elements (arrays t) \<noteq> None"
        by (cases "elements (arrays t)") (simp_all add: capacity_def)
      ultimately have "ctrl_size x \<le> initial_max_load (arrays t)"
        using request_fits [OF shapeD(4) [OF sh], of "ctrl_size x"] capacity_cap_of [OF sh]
        by (simp add: initial_max_load_eq n_def)
      then show ?thesis using c by (simp add: u)
    qed
  qed
  with copy_elements_correct [of u x] x show ?thesis by (simp add: core_copy_assign_def u_def)
qed

end

end
