(* ===== verification/Boost_Bulk.thy ===== *)
theory Boost_Bulk
  imports Boost_Storage
begin

text \<open>
  Operations that visit every element: comparison, conditional erasure and merging. The visit
  goes over the locators of the elements present at its start, each still holding its element when
  its turn comes.
\<close>

lemma map_of_dom_card: "distinct (map fst xs) \<Longrightarrow> card (dom (map_of xs)) = length xs"
  by (metis dom_map_of_conv_image_fst distinct_card length_map set_map)

lemma map_of_le_iff:
  assumes "distinct (map fst xs)"
  shows "(\<forall>p \<in> List.set xs. m (fst p) = Some (snd p)) = (map_of xs \<subseteq>\<^sub>m m)"
proof
  assume "\<forall>p \<in> List.set xs. m (fst p) = Some (snd p)"
  then show "map_of xs \<subseteq>\<^sub>m m"
    by (auto simp: map_le_def) (metis domIff fst_conv map_of_SomeD map_of_eq_None_iff option.exhaust snd_conv weak_map_of_SomeI)
next
  assume le: "map_of xs \<subseteq>\<^sub>m m"
  show "\<forall>p \<in> List.set xs. m (fst p) = Some (snd p)"
  proof
    fix p assume "p \<in> List.set xs"
    then have "map_of xs (fst p) = Some (snd p)" using assms by simp
    with le show "m (fst p) = Some (snd p)" by (metis domI map_le_def)
  qed
qed

lemma fst_image_iff: "k \<in> fst ` A \<longleftrightarrow> (\<exists>v. (k, v) \<in> A)"
  by force

lemma map_le_card_eq:
  assumes "m \<subseteq>\<^sub>m n" "finite (dom n)" "card (dom m) = card (dom n)"
  shows "m = n"
proof -
  have "dom m = dom n" using assms map_le_implies_dom_le [OF assms(1)] by (intro card_subset_eq) auto
  with assms(1) show ?thesis by (metis map_le_antisym map_le_def)
qed

context foa_table
begin

lemma tab_map_card:
  fixes t :: "('g, 'k \<times> 'v) table_core"
  assumes "tinv t"
  shows "card (dom (tab_map t)) = ctrl_size t" and "finite (dom (tab_map t))"
  using tinvD(1,2) [OF assms] keys_unique_distinct [OF invD(4) [OF tinvD(1) [OF assms]]]
  by (simp_all add: tab_map_def arr_map_def map_of_dom_card finite_dom_map_of)

lemma core_eq_correct:
  fixes x y :: "('g, 'k \<times> 'v) table_core"
  assumes x: "tinv x" and y: "tinv y"
  shows "core_eq T x y = (tab_map x = tab_map y)"
proof -
  let ?es = "somes (slots (arrays x))"
  have found: "(case core_find T y (fst p) of None \<Rightarrow> False | Some loc \<Rightarrow> p = element_at (arrays y) loc)
    = (tab_map y (fst p) = Some (snd p))" for p
    using core_find_element [OF tinvD(1) [OF y], of "fst p"]
    by (cases p; cases "tab_map y (fst p)") (auto simp: tab_map_def split: option.splits)
  have d: "distinct (map fst ?es)" by (rule keys_unique_distinct [OF invD(4) [OF tinvD(1) [OF x]]])
  have le: "(\<forall>p \<in> List.set ?es. tab_map y (fst p) = Some (snd p)) = (tab_map x \<subseteq>\<^sub>m tab_map y)"
    unfolding tab_map_def arr_map_def [of "arrays x"] by (rule map_of_le_iff [OF d])
  have "core_eq T x y = (ctrl_size x = ctrl_size y \<and> tab_map x \<subseteq>\<^sub>m tab_map y)"
    unfolding core_eq_def all_elements_eq [OF tinvD(1) [OF x]] found list_all_iff le ..
  also have "\<dots> = (tab_map x = tab_map y)"
  proof
    assume "ctrl_size x = ctrl_size y \<and> tab_map x \<subseteq>\<^sub>m tab_map y"
    then show "tab_map x = tab_map y"
      using tab_map_card [OF x] tab_map_card [OF y] by (intro map_le_card_eq) auto
  next
    assume "tab_map x = tab_map y"
    then show "ctrl_size x = ctrl_size y \<and> tab_map x \<subseteq>\<^sub>m tab_map y"
      using tab_map_card(1) [OF x] tab_map_card(1) [OF y] by simp
  qed
  finally show ?thesis .
qed

text \<open>Locators of present elements, no two of one slot.\<close>

definition live_locs :: "('g, 'k \<times> 'v) table_core \<Rightarrow> locator list \<Rightarrow> bool" where
  "live_locs t locs \<longleftrightarrow> distinct (map (\<lambda>loc. fst loc * 15 + snd loc) locs) \<and>
     (\<forall>loc \<in> List.set locs. snd loc < 15 \<and> fst loc * 15 + snd loc < length (slots (arrays t)) \<and>
        slots (arrays t) ! (fst loc * 15 + snd loc) \<noteq> None)"

lemma live_all:
  fixes t :: "('g, 'k \<times> 'v) table_core"
  assumes "tinv t"
  shows "live_locs t (all_locators T (arrays t))"
  unfolding live_locs_def all_locators_eq(1) [OF tinvD(1) [OF assms]]
proof (intro conjI ballI)
  show "distinct (filter (\<lambda>i. slots (arrays t) ! i \<noteq> None) [0..<length (slots (arrays t))])" by simp
  fix loc assume loc: "loc \<in> List.set (all_locators T (arrays t))"
  show "snd loc < 15" using all_locators_eq(2) [OF tinvD(1) [OF assms]] loc by blast
  have "fst loc * 15 + snd loc \<in> List.set (map (\<lambda>loc. fst loc * 15 + snd loc) (all_locators T (arrays t)))"
    using loc by auto
  then have "fst loc * 15 + snd loc < length (slots (arrays t)) \<and>
      slots (arrays t) ! (fst loc * 15 + snd loc) \<noteq> None"
    unfolding all_locators_eq(1) [OF tinvD(1) [OF assms]] by simp
  then show "fst loc * 15 + snd loc < length (slots (arrays t))"
    "slots (arrays t) ! (fst loc * 15 + snd loc) \<noteq> None" by blast+
qed

lemma live_ConsD:
  assumes "live_locs t (loc # locs)" "tinv t"
  obtains k v where "snd loc < 15" "fst loc * 15 + snd loc < length (slots (arrays t))"
    "slots (arrays t) ! (fst loc * 15 + snd loc) = Some (k, v)" "element_at (arrays t) loc = (k, v)"
    "tab_map t k = Some v" "live_locs t locs"
proof -
  obtain k v where kv: "slots (arrays t) ! (fst loc * 15 + snd loc) = Some (k, v)"
    using assms(1) by (auto simp: live_locs_def)
  have i: "snd loc < 15" "fst loc * 15 + snd loc < length (slots (arrays t))"
    using assms(1) by (auto simp: live_locs_def)
  have "element_at (arrays t) (fst loc, snd loc) = (k, v)"
    by (rule element_at_slot [OF slot_in_range(2) [OF invD(1) [OF tinvD(1) [OF assms(2)]] i(2)] kv])
  moreover have "tab_map t k = Some v"
    unfolding tab_map_def arr_map_Some [OF invD(4) [OF tinvD(1) [OF assms(2)]]] using i kv by blast
  moreover have "live_locs t locs" using assms(1) by (simp add: live_locs_def)
  ultimately show thesis using that i kv by simp
qed

lemma live_erase:
  fixes t :: "('g, 'k \<times> 'v) table_core"
  assumes live: "live_locs t (loc # locs)" and t: "tinv t"
  shows "live_locs (core_erase T loc t) locs"
    and "\<forall>l \<in> List.set locs. element_at (arrays (core_erase T loc t)) l = element_at (arrays t) l"
proof -
  obtain k v where kv: "snd loc < 15" "fst loc * 15 + snd loc < length (slots (arrays t))"
    "slots (arrays t) ! (fst loc * 15 + snd loc) = Some (k, v)" "live_locs t locs"
    using live_ConsD [OF live t] by metis
  have sl: "slots (arrays (core_erase T loc t)) = (slots (arrays t))[fst loc * 15 + snd loc := None]"
    using core_erase_correct(4) [OF t kv(1-3)] by simp
  have ne: "fst l * 15 + snd l \<noteq> fst loc * 15 + snd loc" if "l \<in> List.set locs" for l
    using live that by (auto simp: live_locs_def image_iff)
  show "live_locs (core_erase T loc t) locs"
    using kv(4) ne [symmetric] unfolding live_locs_def sl by simp
  have el: "elements (arrays (core_erase T loc t)) = None \<longleftrightarrow> elements (arrays t) = None"
    by (simp add: core_erase_def recover_slot_def Let_def)
  have el': "elements (arrays t) \<noteq> None"
    by (rule slot_in_range(2) [OF invD(1) [OF tinvD(1) [OF t]] kv(2)])
  have nth: "the (elements a) = slots a" if "elements a \<noteq> None" for a :: "('g, 'k \<times> 'v) table_arrays"
    using that by (auto simp: slots_def)
  show "\<forall>l \<in> List.set locs. element_at (arrays (core_erase T loc t)) l = element_at (arrays t) l"
    using ne [symmetric] el el' by (simp add: element_at_def group_N_def nth sl)
qed

section \<open>Conditional erasure\<close>

lemma erase_if_fold:
  fixes s :: "('g, 'k \<times> 'v) table_core" and pr :: "'k \<times> 'v \<Rightarrow> bool"
  assumes "tinv s" "live_locs s locs"
  defines "f \<equiv> \<lambda>s loc. if pr (element_at (arrays s) loc) then core_erase T loc s else s"
  shows "tinv (foldl f s locs) \<and> ctrl_size (foldl f s locs) \<le> ctrl_size s \<and>
    tab_map (foldl f s locs) = (\<lambda>k. case tab_map s k of None \<Rightarrow> None | Some v \<Rightarrow>
      if pr (k, v) \<and> (k, v) \<in> element_at (arrays s) ` List.set locs then None else Some v)"
  using assms(1,2)
proof (induction locs arbitrary: s)
  case (Cons loc locs s)
  obtain k v where kv: "snd loc < 15" "fst loc * 15 + snd loc < length (slots (arrays s))"
    "slots (arrays s) ! (fst loc * 15 + snd loc) = Some (k, v)" "element_at (arrays s) loc = (k, v)"
    "tab_map s k = Some v" "live_locs s locs"
    by (rule live_ConsD [OF Cons.prems(2,1)])
  show ?case
  proof (cases "pr (k, v)")
    case True
    let ?e = "core_erase T loc s"
    note er = core_erase_correct [OF Cons.prems(1) kv(1-3), simplified prod.collapse]
    note le = live_erase [OF Cons.prems(2,1)]
    note IH = Cons.IH [OF er(1) le(1)]
    have im: "element_at (arrays ?e) ` List.set locs = element_at (arrays s) ` List.set locs"
      using le(2) by (intro image_cong) auto
    have "(k, v) \<in> element_at (arrays s) ` List.set (loc # locs)" using kv(4) by auto
    then have "tab_map (foldl f ?e locs) = (\<lambda>k'. case tab_map s k' of None \<Rightarrow> None | Some v \<Rightarrow>
      if pr (k', v) \<and> (k', v) \<in> element_at (arrays s) ` List.set (loc # locs) then None else Some v)"
      using IH True kv(4,5) unfolding im er(2) by (intro ext) (auto split: option.splits)
    moreover have "foldl f s (loc # locs) = foldl f ?e locs" using True kv(4) by (simp add: f_def)
    ultimately show ?thesis using IH er(3) by simp
  next
    case False
    have "tab_map (foldl f s locs) = (\<lambda>k'. case tab_map s k' of None \<Rightarrow> None | Some v \<Rightarrow>
      if pr (k', v) \<and> (k', v) \<in> element_at (arrays s) ` List.set (loc # locs) then None else Some v)"
      using Cons.IH [OF Cons.prems(1) kv(6)] False kv(4) by (intro ext) (auto split: option.splits)
    moreover have "foldl f s (loc # locs) = foldl f s locs" using False kv(4) by (simp add: f_def)
    ultimately show ?thesis using Cons.IH [OF Cons.prems(1) kv(6)] by simp
  qed
qed (auto split: option.splits intro!: ext)

lemma all_elements_map:
  fixes t :: "('g, 'k \<times> 'v) table_core"
  assumes "tinv t"
  shows "(k, v) \<in> element_at (arrays t) ` List.set (all_locators T (arrays t)) \<longleftrightarrow> tab_map t k = Some v"
proof -
  note inv = tinvD(1) [OF assms]
  have "element_at (arrays t) ` List.set (all_locators T (arrays t)) = List.set (all_elements T (arrays t))"
    by (simp add: all_elements_def)
  then show ?thesis
    using keys_unique_distinct [OF invD(4) [OF inv]]
    by (simp add: all_elements_eq [OF inv] tab_map_def arr_map_def)
qed

lemma erase_if_correct:
  fixes t :: "('g, 'k \<times> 'v) table_core"
  assumes t: "tinv t"
  shows "tinv (fst (erase_if T pr t))"
    and "tab_map (fst (erase_if T pr t)) = (\<lambda>k. case tab_map t k of None \<Rightarrow> None | Some v \<Rightarrow>
      if pr (k, v) then None else Some v)"
    and "ctrl_size (fst (erase_if T pr t)) + snd (erase_if T pr t) = ctrl_size t"
  using erase_if_fold [OF t live_all [OF t], of pr]
  by (auto simp: erase_if_def Let_def all_elements_map [OF t] split: option.splits intro!: ext)

section \<open>Merging\<close>

lemma merge_locs_correct:
  fixes t x :: "('g, 'k \<times> 'v) table_core"
  assumes "tinv t" "tinv x" "live_locs x locs" "ctrl_size t + length locs < 2 ^ 60"
  shows "\<exists>t' x'. merge_locs T locs t x = Some (t', x') \<and> tinv t' \<and> tinv x' \<and>
    tab_map t' = map_of (map (element_at (arrays x)) locs) ++ tab_map t \<and>
    tab_map x' = (\<lambda>k. if k \<in> fst ` element_at (arrays x) ` List.set locs \<and> tab_map t k = None
      then None else tab_map x k) \<and>
    ctrl_size t' + ctrl_size x' = ctrl_size t + ctrl_size x"
  using assms
proof (induction locs arbitrary: t x)
  case (Cons loc locs t x)
  obtain k v where kv: "snd loc < 15" "fst loc * 15 + snd loc < length (slots (arrays x))"
    "slots (arrays x) ! (fst loc * 15 + snd loc) = Some (k, v)" "element_at (arrays x) loc = (k, v)"
    "tab_map x k = Some v" "live_locs x locs"
    by (rule live_ConsD [OF Cons.prems(3,2)])
  define t1x where "t1x = emplace_impl T (k, v) t"
  obtain t1 l where t1: "emplace_impl T (k, v) t = Some (t1, l, tab_map t k = None)" "tinv t1"
    "tab_map t1 = (if tab_map t k = None then (tab_map t)(k \<mapsto> v) else tab_map t)"
    "ctrl_size t1 = (if tab_map t k = None then ctrl_size t + 1 else ctrl_size t)"
    using emplace_impl_correct [OF Cons.prems(1), of k v] Cons.prems(4) by auto
  have kn: "k \<notin> fst ` element_at (arrays x) ` List.set locs"
  proof
    assume "k \<in> fst ` element_at (arrays x) ` List.set locs"
    then obtain l' where l': "l' \<in> List.set locs" "fst (element_at (arrays x) l') = k" by auto
    have live: "snd l' < 15 \<and> fst l' * 15 + snd l' < length (slots (arrays x)) \<and>
        slots (arrays x) ! (fst l' * 15 + snd l') \<noteq> None" "fst l' * 15 + snd l' \<noteq> fst loc * 15 + snd loc"
      using Cons.prems(3) l'(1) by (auto simp: live_locs_def image_iff)
    then obtain e where e: "slots (arrays x) ! (fst l' * 15 + snd l') = Some e" by blast
    have "element_at (arrays x) (fst l', snd l') = e"
      using live by (intro element_at_slot [OF _ e] slot_in_range(2) [OF invD(1) [OF tinvD(1) [OF Cons.prems(2)]]]) blast
    then have "fst e = k" using l'(2) by simp
    then show False
      using keys_uniqueD [OF invD(4) [OF tinvD(1) [OF Cons.prems(2)]], of "fst l' * 15 + snd l'"
        "fst loc * 15 + snd loc" k "snd e" v] live e kv(2,3) by (cases e) auto
  qed
  define x1 where "x1 = (if tab_map t k = None then core_erase T loc x else x)"
  note er = core_erase_correct [OF Cons.prems(2) kv(1-3), simplified prod.collapse]
  note le = live_erase [OF Cons.prems(3,2)]
  have x1: "tinv x1" "live_locs x1 locs" "map (element_at (arrays x1)) locs = map (element_at (arrays x)) locs"
    using er(1) le Cons.prems(2) kv(6) by (auto simp: x1_def)
  have im: "element_at (arrays x1) ` List.set locs = element_at (arrays x) ` List.set locs"
    using x1(3) by (metis list.set_map)
  have "ctrl_size t1 + length locs < 2 ^ 60" using t1(4) Cons.prems(4) by auto
  from Cons.IH [OF t1(2) x1(1,2) this] obtain t' x' where IH: "merge_locs T locs t1 x1 = Some (t', x')"
    "tinv t'" "tinv x'" "tab_map t' = map_of (map (element_at (arrays x)) locs) ++ tab_map t1"
    "tab_map x' = (\<lambda>k. if k \<in> fst ` element_at (arrays x) ` List.set locs \<and> tab_map t1 k = None
      then None else tab_map x1 k)"
    "ctrl_size t' + ctrl_size x' = ctrl_size t1 + ctrl_size x1"
    unfolding x1(3) im by blast
  have mn: "map_of (map (element_at (arrays x)) locs) k = None"
    using kn by (simp add: map_of_eq_None_iff image_image)
  have "tab_map t' = map_of (map (element_at (arrays x)) (loc # locs)) ++ tab_map t"
    using IH(4) t1(3) kv(4) mn by (intro ext) (auto simp: map_add_def split: option.splits)
  moreover have "tab_map x' = (\<lambda>k'. if k' \<in> fst ` element_at (arrays x) ` List.set (loc # locs) \<and> tab_map t k' = None
      then None else tab_map x k')"
    using IH(5) t1(3) er(2) kv(4) kn by (intro ext) (auto simp: x1_def)
  moreover have "ctrl_size t' + ctrl_size x' = ctrl_size t + ctrl_size x"
    using IH(6) t1(4) er(3) by (auto simp: x1_def)
  moreover have "merge_locs T (loc # locs) t x = Some (t', x')"
    using t1(1) IH(1) kv(4) by (simp add: x1_def)
  ultimately show ?case using IH(2,3) by blast
qed simp

lemma table_merge_correct:
  fixes t x :: "('g, 'k \<times> 'v) table_core"
  assumes t: "tinv t" and x: "tinv x" and bound: "ctrl_size t + ctrl_size x < 2 ^ 60"
  shows "\<exists>t' x'. table_merge T t x = Some (t', x') \<and> tinv t' \<and> tinv x' \<and>
    tab_map t' = tab_map x ++ tab_map t \<and>
    tab_map x' = (\<lambda>k. if tab_map t k = None then None else tab_map x k) \<and>
    ctrl_size t' + ctrl_size x' = ctrl_size t + ctrl_size x"
proof -
  let ?locs = "all_locators T (arrays x)"
  have es: "map (element_at (arrays x)) ?locs = somes (slots (arrays x))"
    using all_elements_eq [OF tinvD(1) [OF x]] by (simp add: all_elements_def)
  then have len: "length ?locs = ctrl_size x" using tinvD(2) [OF x] by (metis length_map)
  have "k \<in> fst ` element_at (arrays x) ` List.set ?locs \<longleftrightarrow> tab_map x k \<noteq> None" for k
    unfolding fst_image_iff all_elements_map [OF x] by simp
  then have "(\<lambda>k. if k \<in> fst ` element_at (arrays x) ` List.set ?locs \<and> tab_map t k = None
      then None else tab_map x k) = (\<lambda>k. if tab_map t k = None then None else tab_map x k)"
    by auto
  moreover have "map_of (map (element_at (arrays x)) ?locs) = tab_map x"
    unfolding es by (simp add: tab_map_def arr_map_def)
  ultimately show ?thesis
    using merge_locs_correct [OF t x live_all [OF x]] bound by (simp add: table_merge_def len)
qed

end

end
