(* ===== verification/Boost_Iter.thy ===== *)
theory Boost_Iter
  imports Boost_Bulk
begin

text \<open>
  table_iterator: begin and the two increment functions, for the regular byte layout and for the
  interleaved one. Starting at begin, both visit the elements in slot order, each once, and reach
  the end at the sentinel.
\<close>

text \<open>
  The first loop of the regular increment: the rest of the current group. Left is the iterator
  found (None is end), Right the next group to look at.
\<close>

function inc_in_group :: "('g, 'k) foa_types \<Rightarrow> ('g, 'e) table_arrays \<Rightarrow> nat \<Rightarrow> nat \<Rightarrow> locator option + nat" where
  "inc_in_group T a pos n =
     (if n \<ge> group_N - 1 then Inr (pos + 1)
      else if \<not> g_is_occupied (grp T) (groups a ! pos) (n + 1) then inc_in_group T a pos (n + 1)
      else if g_is_sentinel (grp T) (groups a ! pos) (n + 1) then Inl None
      else Inl (Some (pos, n + 1)))"
  by auto
termination by (relation "measure (\<lambda>(T, a, pos, n). group_N - n)") (auto simp: group_N_def)

declare inc_in_group.simps [simp del]

partial_function (option) inc_groups ::
  "('g, 'k) foa_types \<Rightarrow> ('g, 'e) table_arrays \<Rightarrow> nat \<Rightarrow> locator option option" where
  "inc_groups T a pos =
     (let msk = g_match_occupied (grp T) (groups a ! pos)
      in if msk \<noteq> 0 then
           let n = unchecked_countr_zero msk
           in if g_is_sentinel (grp T) (groups a ! pos) n then Some None else Some (Some (pos, n))
         else inc_groups T a (pos + 1))"

definition increment_regular ::
  "('g, 'k) foa_types \<Rightarrow> ('g, 'e) table_arrays \<Rightarrow> locator \<Rightarrow> locator option option" where
  "increment_regular T a loc =
     (case inc_in_group T a (fst loc) (snd loc) of
        Inl it \<Rightarrow> Some it
      | Inr pos \<Rightarrow> inc_groups T a pos)"

definition increment_interleaved ::
  "('g, 'k) foa_types \<Rightarrow> ('g, 'e) table_arrays \<Rightarrow> locator \<Rightarrow> locator option option" where
  "increment_interleaved T a loc =
     (let pos = fst loc; n0 = snd loc;
          msk = push_bit (n0 + 1) (drop_bit (n0 + 1) (g_match_occupied (grp T) (groups a ! pos)))
      in if msk = 0 then inc_groups T a (pos + 1)
         else let n = unchecked_countr_zero msk
              in if g_is_sentinel (grp T) (groups a ! pos) n then Some None else Some (Some (pos, n)))"

definition increment where
  "increment T a loc =
     (if g_regular_layout (grp T) then increment_regular T a loc else increment_interleaved T a loc)"

definition table_begin where
  "table_begin T a =
     (if elements a = None then Some None
      else if \<not> bit (g_match_occupied (grp T) (groups a ! 0)) 0 then increment T a (0, 0)
      else Some (Some (0, 0)))"

text \<open>A range-for over the table.\<close>

partial_function (option) visit_from where
  "visit_from T a it =
     (case it of
        None \<Rightarrow> Some []
      | Some loc \<Rightarrow>
          Option.bind (increment T a loc)
            (\<lambda>it'. Option.bind (visit_from T a it') (\<lambda>locs. Some (loc # locs))))"

definition visit_all where
  "visit_all T a = Option.bind (table_begin T a) (visit_from T a)"

section \<open>Correctness\<close>

text \<open>The first occupied slot from an index on.\<close>

definition next_slot :: "'e option list \<Rightarrow> nat \<Rightarrow> locator option" where
  "next_slot es i = (case filter (\<lambda>i. es ! i \<noteq> None) [i..<length es] of [] \<Rightarrow> None | j # _ \<Rightarrow> Some (j div 15, j mod 15))"

lemma next_slot_here: "i < length es \<Longrightarrow> es ! i \<noteq> None \<Longrightarrow> next_slot es i = Some (i div 15, i mod 15)"
  by (simp add: next_slot_def upt_conv_Cons)

lemma next_slot_skip: "i < length es \<Longrightarrow> es ! i = None \<Longrightarrow> next_slot es i = next_slot es (i + 1)"
  by (simp add: next_slot_def upt_conv_Cons)

lemma next_slot_end: "length es \<le> i \<Longrightarrow> next_slot es i = None"
  by (simp add: next_slot_def)

lemma next_slot_skip_many:
  "i \<le> j \<Longrightarrow> (\<And>m. i \<le> m \<Longrightarrow> m < j \<Longrightarrow> m < length es \<and> es ! m = None) \<Longrightarrow> next_slot es i = next_slot es j"
proof (induction "j - i" arbitrary: i)
  case (Suc d)
  then have "next_slot es i = next_slot es (i + 1)" by (intro next_slot_skip) auto
  also have "\<dots> = next_slot es j" using Suc by (intro Suc.hyps(1)) auto
  finally show ?case .
qed simp

context foa_table
begin

text \<open>What a group's occupied mask says, sentinel included.\<close>

lemma occupied_slot:
  fixes a :: "('g, 'k \<times> 'v) table_arrays"
  assumes inv: "inv a" and el: "elements a \<noteq> None" and pos: "pos < 2 ^ a_exp a"
  shows "bit (g_match_occupied (grp T) (groups a ! pos)) n \<longleftrightarrow>
      n < 15 \<and> (length (slots a) \<le> pos * 15 + n \<or> slots a ! (pos * 15 + n) \<noteq> None)"
    and "n < 15 \<Longrightarrow> g_is_occupied (grp T) (groups a ! pos) n \<longleftrightarrow>
      (length (slots a) \<le> pos * 15 + n \<or> slots a ! (pos * 15 + n) \<noteq> None)"
    and "n < 15 \<Longrightarrow> g_is_sentinel (grp T) (groups a ! pos) n \<longleftrightarrow> length (slots a) \<le> pos * 15 + n"
proof -
  note sh = invD(1) [OF inv]
  have g: "ok (groups a ! pos)" by (rule shapeD(6) [OF sh pos])
  have b: "byte (groups a ! pos) m = expected_byte T a pos m" if "m < 15" for m by (rule invD(2) [OF inv pos that])
  have z: "(expected_byte T a pos m = 0) \<longleftrightarrow> pos * 15 + m < length (slots a) \<and> slots a ! (pos * 15 + m) = None"
    if "m < 15" for m
    using sentinel_slot [OF sh el pos that] el unfolding expected_zero by auto
  have o: "(expected_byte T a pos m = 1) \<longleftrightarrow> length (slots a) \<le> pos * 15 + m" if "m < 15" for m
    using sentinel_slot [OF sh el pos that] el unfolding expected_one by auto
  show "bit (g_match_occupied (grp T) (groups a ! pos)) n \<longleftrightarrow>
      n < 15 \<and> (length (slots a) \<le> pos * 15 + n \<or> slots a ! (pos * 15 + n) \<noteq> None)"
    using occupied_bits [OF g, of n] b [of n] z [of n] by auto
  show "n < 15 \<Longrightarrow> g_is_occupied (grp T) (groups a ! pos) n \<longleftrightarrow>
      (length (slots a) \<le> pos * 15 + n \<or> slots a ! (pos * 15 + n) \<noteq> None)"
    using occupied [OF g, of n] b [of n] z [of n] by auto
  show "g_is_sentinel (grp T) (groups a ! pos) n \<longleftrightarrow> length (slots a) \<le> pos * 15 + n" if "n < 15"
  proof -
    have "byte (groups a ! pos) n \<noteq> 1" if "n \<noteq> 14"
      using o [OF \<open>n < 15\<close>] b [OF \<open>n < 15\<close>] sentinel_slot [OF sh el pos \<open>n < 15\<close>] that by simp
    from is_sentinel [OF g that this] show ?thesis using b [OF that] o [OF that] by simp
  qed
qed

text \<open>Landing on the lowest set bit of a mask of occupied slots above a position.\<close>

lemma land:
  fixes a :: "('g, 'k \<times> 'v) table_arrays"
  assumes inv: "inv a" and el: "elements a \<noteq> None" and pos: "pos < 2 ^ a_exp a"
    and m: "msk \<noteq> 0" and bits: "\<And>n. bit msk n \<longleftrightarrow> lo \<le> n \<and> bit (g_match_occupied (grp T) (groups a ! pos)) n"
  defines "n \<equiv> unchecked_countr_zero msk"
  shows "(if g_is_sentinel (grp T) (groups a ! pos) n then None else Some (pos, n)) = next_slot (slots a) (pos * 15 + lo)"
proof -
  note occ = occupied_slot [OF inv el pos]
  have n: "lo \<le> n" "n < 15" "length (slots a) \<le> pos * 15 + n \<or> slots a ! (pos * 15 + n) \<noteq> None"
    using countr_zero_spec(1) [OF m] unfolding bits occ(1) n_def by blast+
  have "m < length (slots a) \<and> slots a ! m = None" if "pos * 15 + lo \<le> m" "m < pos * 15 + n" for m
  proof -
    define d where "d = m - pos * 15"
    then have d: "m = pos * 15 + d" "lo \<le> d" "d < n" using that by linarith+
    then have "\<not> bit msk d" using countr_zero_spec(2) [OF m] by (simp add: n_def)
    then show ?thesis using d n unfolding bits occ(1) by (auto simp del: not_None_eq)
  qed
  then have "next_slot (slots a) (pos * 15 + lo) = next_slot (slots a) (pos * 15 + n)"
    using n(1) by (intro next_slot_skip_many) auto
  also have "\<dots> = (if length (slots a) \<le> pos * 15 + n then None else Some (pos, n))"
    using n next_slot_end next_slot_here [of "pos * 15 + n" "slots a"] by auto
  finally show ?thesis using occ(3) [OF n(2)] by simp
qed

lemma skip_group:
  fixes a :: "('g, 'k \<times> 'v) table_arrays"
  assumes inv: "inv a" and el: "elements a \<noteq> None" and pos: "pos < 2 ^ a_exp a" and lo: "lo \<le> 15"
    and none: "\<And>n. lo \<le> n \<Longrightarrow> n < 15 \<Longrightarrow> \<not> bit (g_match_occupied (grp T) (groups a ! pos)) n"
  shows "next_slot (slots a) (pos * 15 + lo) = next_slot (slots a) ((pos + 1) * 15)"
proof -
  have "m < length (slots a) \<and> slots a ! m = None" if "pos * 15 + lo \<le> m" "m < (pos + 1) * 15" for m
  proof -
    define d where "d = m - pos * 15"
    have "m < pos * 15 + 15" using that(2) by simp
    then have "m = pos * 15 + d" "lo \<le> d" "d < 15" using that(1) unfolding d_def by linarith+
    then show ?thesis using none [of d] unfolding occupied_slot(1) [OF inv el pos] by (auto simp del: not_None_eq)
  qed
  then show ?thesis using lo by (intro next_slot_skip_many) auto
qed

lemma inc_groups_correct:
  fixes a :: "('g, 'k \<times> 'v) table_arrays"
  assumes inv: "inv a" and el: "elements a \<noteq> None" and pos: "pos < 2 ^ a_exp a"
  shows "inc_groups T a pos = Some (next_slot (slots a) (pos * 15))"
  using pos
proof (induction "2 ^ a_exp a - pos" arbitrary: pos rule: less_induct)
  case less
  note occ = occupied_slot(1) [OF inv el less.prems]
  define msk where "msk = g_match_occupied (grp T) (groups a ! pos)"
  show ?case
  proof (cases "msk = 0")
    case False
    with land [OF inv el less.prems False, of 0] show ?thesis
      by (subst inc_groups.simps) (auto simp: Let_def msk_def)
  next
    case True
    then have none: "\<not> bit (g_match_occupied (grp T) (groups a ! pos)) n" for n by (simp flip: msk_def)
    have "pos \<noteq> 2 ^ a_exp a - 1"
    proof
      assume "pos = 2 ^ a_exp a - 1"
      then have "length (slots a) \<le> pos * 15 + 14"
        using sentinel_slot [OF invD(1) [OF inv] el less.prems, of 14] by simp
      then show False using none [of 14] unfolding occ by simp
    qed
    then have "pos + 1 < 2 ^ a_exp a" using less.prems by simp
    then have "inc_groups T a (pos + 1) = Some (next_slot (slots a) ((pos + 1) * 15))"
      using less.prems by (intro less.hyps) auto
    then show ?thesis
      using True skip_group [OF inv el less.prems, of 0] none
      by (subst inc_groups.simps) (simp add: Let_def flip: msk_def)
  qed
qed

lemma inc_in_group_correct:
  fixes a :: "('g, 'k \<times> 'v) table_arrays"
  assumes inv: "inv a" and el: "elements a \<noteq> None" and pos: "pos < 2 ^ a_exp a" and n: "n < 15"
  shows "case inc_in_group T a pos n of
      Inl it \<Rightarrow> it = next_slot (slots a) (pos * 15 + n + 1)
    | Inr p \<Rightarrow> p = pos + 1 \<and> next_slot (slots a) (pos * 15 + n + 1) = next_slot (slots a) (p * 15)"
  using n
proof (induction "15 - n" arbitrary: n rule: less_induct)
  case less
  show ?case
  proof (cases "n = 14")
    case True
    then show ?thesis by (subst inc_in_group.simps) (simp add: group_N_def add.commute)
  next
    case False
    then have n1: "n + 1 < 15" using less.prems by simp
    note occ = occupied_slot(2,3) [OF inv el pos n1]
    show ?thesis
    proof (cases "g_is_occupied (grp T) (groups a ! pos) (n + 1)")
      case free: False
      then have "next_slot (slots a) (pos * 15 + n + 1) = next_slot (slots a) (pos * 15 + (n + 1) + 1)"
        unfolding occ by (subst next_slot_skip) (simp_all only: not_le de_Morgan_disj not_not add.assoc)
      moreover have "case inc_in_group T a pos (n + 1) of
          Inl it \<Rightarrow> it = next_slot (slots a) (pos * 15 + (n + 1) + 1)
        | Inr p \<Rightarrow> p = pos + 1 \<and> next_slot (slots a) (pos * 15 + (n + 1) + 1) = next_slot (slots a) (p * 15)"
        using n1 less.prems by (intro less.hyps) auto
      moreover have "inc_in_group T a pos n = inc_in_group T a pos (n + 1)"
        using free False less.prems by (subst inc_in_group.simps) (simp add: group_N_def)
      ultimately show ?thesis by (simp split: sum.splits)
    next
      case True
      have "inc_in_group T a pos n = Inl (if length (slots a) \<le> pos * 15 + (n + 1) then None else Some (pos, n + 1))"
        using True False less.prems occ(2) by (subst inc_in_group.simps) (simp add: group_N_def)
      moreover have "next_slot (slots a) (pos * 15 + (n + 1))
          = (if length (slots a) \<le> pos * 15 + (n + 1) then None else Some (pos, n + 1))"
        using True n1 unfolding occ
        by (auto simp: next_slot_end next_slot_here div_mult_self3 simp del: add_Suc_right)
      ultimately show ?thesis by (simp add: add.assoc)
    qed
  qed
qed

lemma shifted_bits: "bit (push_bit k (drop_bit k (m :: u32))) n \<longleftrightarrow> k \<le> n \<and> bit m n"
  using bit_imp_le_length [of m n] by (auto simp: bit_facts)

lemma increment_correct:
  fixes a :: "('g, 'k \<times> 'v) table_arrays"
  assumes inv: "inv a" and el: "elements a \<noteq> None" and pos: "pos < 2 ^ a_exp a" and n: "n < 15"
    and i: "pos * 15 + n < length (slots a)"
  shows "increment T a (pos, n) = Some (next_slot (slots a) (pos * 15 + n + 1))"
proof (cases "g_regular_layout (grp T)")
  case True
  have nxt: "p = pos + 1 \<Longrightarrow> next_slot (slots a) (pos * 15 + n + 1) = next_slot (slots a) (p * 15) \<Longrightarrow>
      inc_in_group T a pos n = Inr p \<Longrightarrow> p < 2 ^ a_exp a" for p
  proof (rule ccontr)
    assume p: "p = pos + 1" "inc_in_group T a pos n = Inr p" "\<not> p < 2 ^ a_exp a"
    then have last: "pos = 2 ^ a_exp a - 1" using pos by simp
    have run: "inc_in_group T a pos m = Inl (next_slot (slots a) (pos * 15 + m + 1))" if "m < 14" for m
      using that
    proof (induction "14 - m" arbitrary: m rule: less_induct)
      case less
      have m1: "m + 1 < 15" using less.prems by simp
      note occ = occupied_slot(2,3) [OF inv el pos m1]
      have sent: "length (slots a) \<le> pos * 15 + 14"
        using sentinel_slot [OF invD(1) [OF inv] el pos, of 14] last by simp
      show ?case
      proof (cases "g_is_occupied (grp T) (groups a ! pos) (m + 1)")
        case free: False
        then have "m + 1 \<noteq> 14" using sent occ(1) by auto
        then have "m + 1 < 14" using less.prems by simp
        then have "inc_in_group T a pos (m + 1) = Inl (next_slot (slots a) (pos * 15 + (m + 1) + 1))"
          using less.prems by (intro less.hyps) auto
        moreover have "inc_in_group T a pos m = inc_in_group T a pos (m + 1)"
          using free less.prems by (subst inc_in_group.simps) (simp add: group_N_def)
        moreover have "next_slot (slots a) (pos * 15 + m + 1) = next_slot (slots a) (pos * 15 + (m + 1) + 1)"
          using free unfolding occ(1) by (subst next_slot_skip) (simp_all only: not_le de_Morgan_disj not_not add.assoc)
        ultimately show ?thesis by simp
      next
        case True
        then have "inc_in_group T a pos m = Inl (if length (slots a) \<le> pos * 15 + (m + 1) then None else Some (pos, m + 1))"
          using less.prems occ(2) by (subst inc_in_group.simps) (simp add: group_N_def)
        with inc_in_group_correct [OF inv el pos, of m] less.prems show ?thesis by simp
      qed
    qed
    show False
    proof (cases "n = 14")
      case True
      then show False using i sentinel_slot [OF invD(1) [OF inv] el pos n] last by simp
    next
      case False
      with run [of n] n p(2) show False by simp
    qed
  qed
  show ?thesis
    using inc_in_group_correct [OF inv el pos n] nxt inc_groups_correct [OF inv el]
    by (simp add: True increment_def increment_regular_def split: sum.splits)
next
  case False
  define msk where "msk = push_bit (n + 1) (drop_bit (n + 1) (g_match_occupied (grp T) (groups a ! pos)))"
  have bits: "bit msk m \<longleftrightarrow> n + 1 \<le> m \<and> bit (g_match_occupied (grp T) (groups a ! pos)) m" for m
    unfolding msk_def by (rule shifted_bits)
  have step: "increment T a (pos, n) =
      (if msk = 0 then inc_groups T a (pos + 1)
       else Some (if g_is_sentinel (grp T) (groups a ! pos) (unchecked_countr_zero msk) then None
                  else Some (pos, unchecked_countr_zero msk)))"
    using False by (simp only: increment_def increment_interleaved_def Let_def fst_conv snd_conv msk_def if_False)
      (simp only: if_distrib [of Some])
  show ?thesis
  proof (cases "msk = 0")
    case z: True
    then have none: "\<not> bit (g_match_occupied (grp T) (groups a ! pos)) m" if "n + 1 \<le> m" for m
      using bits [of m] that by simp
    have "pos + 1 < 2 ^ a_exp a"
    proof (rule ccontr)
      assume "\<not> pos + 1 < 2 ^ a_exp a"
      then have last: "pos = 2 ^ a_exp a - 1" using pos by simp
      have "n \<noteq> 14" using i sentinel_slot [OF invD(1) [OF inv] el pos n] last by auto
      moreover have "length (slots a) \<le> pos * 15 + 14"
        using sentinel_slot [OF invD(1) [OF inv] el pos, of 14] last by simp
      ultimately show False using none [of 14] n unfolding occupied_slot(1) [OF inv el pos] by simp
    qed
    then have "inc_groups T a (pos + 1) = Some (next_slot (slots a) ((pos + 1) * 15))"
      by (rule inc_groups_correct [OF inv el])
    moreover have "next_slot (slots a) (pos * 15 + (n + 1)) = next_slot (slots a) ((pos + 1) * 15)"
      by (rule skip_group [OF inv el pos]) (use n none in auto)
    ultimately show ?thesis unfolding step using z by (simp add: add.assoc)
  next
    case nz: False
    from land [OF inv el pos nz bits] nz show ?thesis unfolding step by (simp add: add.assoc)
  qed
qed

lemma table_begin_correct:
  fixes a :: "('g, 'k \<times> 'v) table_arrays"
  assumes inv: "inv a"
  shows "table_begin T a = Some (next_slot (slots a) 0)"
proof (cases "elements a")
  case None
  then show ?thesis by (simp add: table_begin_def next_slot_def slots_def)
next
  case (Some es)
  then have el: "elements a \<noteq> None" by simp
  note sh = invD(1) [OF inv]
  have len: "0 < length (slots a)"
  proof -
    have "1 \<le> (2::nat) ^ a_exp a" by simp
    then show ?thesis using shapeD(7) [OF sh el] by linarith
  qed
  have b: "bit (g_match_occupied (grp T) (groups a ! 0)) 0 \<longleftrightarrow> slots a ! 0 \<noteq> None"
    using occupied_slot(1) [OF inv el, of 0 0] len by (simp del: not_None_eq)
  show ?thesis
  proof (cases "slots a ! 0 = None")
    case True
    then show ?thesis
      using increment_correct [OF inv el, of 0 0] next_slot_skip [OF len] len b el
      by (auto simp: table_begin_def)
  next
    case False
    then show ?thesis using next_slot_here [OF len] b el by (simp add: table_begin_def del: not_None_eq)
  qed
qed

lemma visit_from_correct:
  fixes a :: "('g, 'k \<times> 'v) table_arrays"
  assumes inv: "inv a"
  shows "visit_from T a (next_slot (slots a) i)
    = Some (map (\<lambda>j. (j div 15, j mod 15)) (filter (\<lambda>j. slots a ! j \<noteq> None) [i..<length (slots a)]))"
proof (induction "length (slots a) - i" arbitrary: i rule: less_induct)
  case less
  show ?case
  proof (cases "i < length (slots a)")
    case False
    then show ?thesis by (subst visit_from.simps) (simp add: next_slot_end)
  next
    case lt: True
    show ?thesis
    proof (cases "slots a ! i = None")
      case True
      then have "visit_from T a (next_slot (slots a) (i + 1))
        = Some (map (\<lambda>j. (j div 15, j mod 15)) (filter (\<lambda>j. slots a ! j \<noteq> None) [i + 1..<length (slots a)]))"
        using lt by (intro less.hyps) simp
      then show ?thesis using next_slot_skip [OF lt True] lt True by (simp add: upt_conv_Cons)
    next
      case False
      note sh = invD(1) [OF inv]
      have "visit_from T a (next_slot (slots a) (i + 1))
        = Some (map (\<lambda>j. (j div 15, j mod 15)) (filter (\<lambda>j. slots a ! j \<noteq> None) [i + 1..<length (slots a)]))"
        using lt by (intro less.hyps) simp
      moreover have "increment T a (i div 15, i mod 15) = Some (next_slot (slots a) (i + 1))"
        using increment_correct [OF inv slot_in_range(2) [OF sh lt] slot_in_range(1) [OF sh lt], of "i mod 15"] lt
        by (simp add: div_mult_mod_eq)
      moreover have "filter (\<lambda>j. slots a ! j \<noteq> None) [i..<length (slots a)]
        = i # filter (\<lambda>j. slots a ! j \<noteq> None) [i + 1..<length (slots a)]"
        using lt False by (simp add: upt_conv_Cons)
      ultimately show ?thesis using next_slot_here [OF lt False]
        by (subst visit_from.simps) simp
    qed
  qed
qed

text \<open>A full iteration visits the locators of all elements, in slot order, each once.\<close>

lemma visit_all_correct:
  fixes a :: "('g, 'k \<times> 'v) table_arrays"
  assumes inv: "inv a"
  shows "visit_all T a = Some (all_locators T a)"
proof -
  have "map (\<lambda>j. (j div 15, j mod 15)) (map (\<lambda>loc. fst loc * 15 + snd loc) (all_locators T a)) = all_locators T a"
    using all_locators_eq(2) [OF inv] by (simp add: o_def map_idI)
  then show ?thesis
    unfolding visit_all_def table_begin_correct [OF inv]
    by (simp add: visit_from_correct [OF inv] all_locators_eq(1) [OF inv])
qed

end

end
