(* ===== verification/Boost_FlatMap.thy ===== *)
theory Boost_FlatMap
  imports Boost_Iter
begin

text \<open>
  unordered_flat_map: the public class over the table. An iterator is a locator, None being
  end(); an operation that needs a rehash may run the emplacement loop, so its result is an
  option, None being a run that does not return. Where the class returns a reference the model
  returns the referenced value. The overloads that differ only in how arguments are forwarded
  are one definition.
\<close>

section \<open>Modifiers and lookup\<close>

datatype fm_error = OutOfRange string

definition fm_new :: "('g, 'k) foa_types \<Rightarrow> nat \<Rightarrow> ('g, 'e) table_core" where
  "fm_new T n = core_new T n"

definition fm_size :: "('g, 'e) table_core \<Rightarrow> nat" where
  "fm_size t = ctrl_size t"

definition fm_empty :: "('g, 'e) table_core \<Rightarrow> bool" where
  "fm_empty t = (fm_size t = 0)"

definition fm_emplace ::
  "('g, 'k) foa_types \<Rightarrow> 'k \<Rightarrow> 'v \<Rightarrow> ('g, 'k \<times> 'v) table_core \<Rightarrow>
   (('g, 'k \<times> 'v) table_core \<times> locator \<times> bool) option" where
  "fm_emplace T k v t = emplace_impl T (k, v) t"

fun fm_insert_range ::
  "('g, 'k) foa_types \<Rightarrow> ('k \<times> 'v) list \<Rightarrow> ('g, 'k \<times> 'v) table_core \<Rightarrow> ('g, 'k \<times> 'v) table_core option" where
  "fm_insert_range T [] t = Some t"
| "fm_insert_range T (e # es) t =
     (case fm_emplace T (fst e) (snd e) t of
        None \<Rightarrow> None
      | Some (t', _) \<Rightarrow> fm_insert_range T es t')"

definition fm_from_range where
  "fm_from_range T es n = fm_insert_range T es (fm_new T n)"

definition fm_clear :: "('g, 'k) foa_types \<Rightarrow> ('g, 'e) table_core \<Rightarrow> ('g, 'e) table_core" where
  "fm_clear T t = core_clear T t"

definition fm_assign_list where
  "fm_assign_list T il t = fm_insert_range T il (fm_clear T t)"

text \<open>Assigning through an iterator: \<open>it->second = obj\<close>.\<close>

definition assign_mapped :: "locator \<Rightarrow> 'v \<Rightarrow> ('g, 'k \<times> 'v) table_core \<Rightarrow> ('g, 'k \<times> 'v) table_core" where
  "assign_mapped loc v t =
     t\<lparr> arrays := set_element (arrays t) loc (Some (fst (element_at (arrays t) loc), v)) \<rparr>"

definition fm_insert_or_assign ::
  "('g, 'k) foa_types \<Rightarrow> 'k \<Rightarrow> 'v \<Rightarrow> ('g, 'k \<times> 'v) table_core \<Rightarrow>
   (('g, 'k \<times> 'v) table_core \<times> locator \<times> bool) option" where
  "fm_insert_or_assign T k obj t =
     (case fm_emplace T k obj t of
        None \<Rightarrow> None
      | Some (t', it, inserted) \<Rightarrow>
          if inserted then Some (t', it, inserted)
          else Some (assign_mapped it obj t', it, inserted))"

definition fm_find :: "('g, 'k) foa_types \<Rightarrow> 'k \<Rightarrow> ('g, 'k \<times> 'v) table_core \<Rightarrow> locator option" where
  "fm_find T k t = core_find T t k"

definition fm_at :: "('g, 'k) foa_types \<Rightarrow> 'k \<Rightarrow> ('g, 'k \<times> 'v) table_core \<Rightarrow> fm_error + 'v" where
  "fm_at T k t =
     (case fm_find T k t of
        Some pos \<Rightarrow> Inr (snd (element_at (arrays t) pos))
      | None \<Rightarrow> Inl (OutOfRange ''key was not found in unordered_flat_map''))"

text \<open>\<open>operator[]\<close>; the value a key gets when it was absent is the default one.\<close>

definition fm_index ::
  "('g, 'k) foa_types \<Rightarrow> 'v \<Rightarrow> 'k \<Rightarrow> ('g, 'k \<times> 'v) table_core \<Rightarrow> (('g, 'k \<times> 'v) table_core \<times> 'v) option" where
  "fm_index T d k t =
     (case fm_emplace T k d t of
        None \<Rightarrow> None
      | Some (t', it, _) \<Rightarrow> Some (t', snd (element_at (arrays t') it)))"

definition fm_count :: "('g, 'k) foa_types \<Rightarrow> 'k \<Rightarrow> ('g, 'k \<times> 'v) table_core \<Rightarrow> nat" where
  "fm_count T k t = (if fm_find T k t \<noteq> None then 1 else 0)"

definition fm_contains :: "('g, 'k) foa_types \<Rightarrow> 'k \<Rightarrow> ('g, 'k \<times> 'v) table_core \<Rightarrow> bool" where
  "fm_contains T k t = (fm_find T k t \<noteq> None)"

definition fm_equal_range where
  "fm_equal_range T k t =
     (case fm_find T k t of
        None \<Rightarrow> Some (None, None)
      | Some pos \<Rightarrow>
          (case increment T (arrays t) pos of
             None \<Rightarrow> None
           | Some next_it \<Rightarrow> Some (Some pos, next_it)))"

definition fm_erase_key :: "('g, 'k) foa_types \<Rightarrow> 'k \<Rightarrow> ('g, 'k \<times> 'v) table_core \<Rightarrow> ('g, 'k \<times> 'v) table_core \<times> nat" where
  "fm_erase_key T k t = table_erase T k t"

text \<open>
  Erasing through an iterator; the returned object converts to the next iterator, which is
  computed in the table after the erasure. \<open>extract\<close> hands the element out first.
\<close>

definition fm_erase_at where
  "fm_erase_at T loc t =
     (let t' = core_erase T loc t in (t', increment T (arrays t') loc))"

definition fm_extract ::
  "('g, 'k) foa_types \<Rightarrow> locator \<Rightarrow> ('g, 'k \<times> 'v) table_core \<Rightarrow> ('k \<times> 'v) \<times> ('g, 'k \<times> 'v) table_core" where
  "fm_extract T loc t = (element_at (arrays t) loc, core_erase T loc t)"

text \<open>
  Erasing a range: the iterator is advanced before its element goes. Advancing end() is undefined
  in the code and is None here.
\<close>

partial_function (option) fm_erase_range where
  "fm_erase_range T it1 it2 t =
     (if it1 = it2 then Some t
      else case it1 of
             None \<Rightarrow> None
           | Some loc \<Rightarrow>
               Option.bind (increment T (arrays t) loc)
                 (\<lambda>it'. fm_erase_range T it' it2 (core_erase T loc t)))"

definition fm_reserve where
  "fm_reserve T n t = core_reserve T n t"

definition fm_rehash where
  "fm_rehash T n t = core_rehash T n t"

definition fm_bucket_count :: "('g, 'e) table_core \<Rightarrow> nat" where
  "fm_bucket_count t = capacity (arrays t)"

definition fm_max_load :: "('g, 'e) table_core \<Rightarrow> nat" where
  "fm_max_load t = ctrl_ml t"

section \<open>Correctness\<close>

context foa_table
begin

lemma stores_element: "stores a loc e \<Longrightarrow> element_at a loc = e"
  using element_at_slot [of a "fst loc" "snd loc" e]
  by (cases "elements a") (auto simp: stores_def slots_def)

lemma stores_map:
  fixes t :: "('g, 'k \<times> 'v) table_core"
  assumes "tinv t" "stores (arrays t) loc (k, v)"
  shows "tab_map t k = Some v"
  using assms(2) unfolding tab_map_def arr_map_Some [OF invD(4) [OF tinvD(1) [OF assms(1)]]] stores_def by blast

lemma assign_inv:
  fixes a :: "('g, 'k \<times> 'v) table_arrays"
  assumes inv: "inv a" and st: "stores a (pos, n) (k, w)"
  shows "inv (set_element a (pos, n) (Some (k, v)))"
proof -
  let ?i = "pos * 15 + n" and ?b = "set_element a (pos, n) (Some (k, v))"
  have i: "n < 15" "?i < length (slots a)" "slots a ! ?i = Some (k, w)" using st by (simp_all add: stores_def)
  note sh = invD(1) [OF inv]
  have pos: "pos < 2 ^ a_exp a" using slot_in_range(1) [OF sh i(2)] slot_index [OF i(1), of pos] by simp
  have "inv (?b\<lparr> groups := (groups a)[pos := groups a ! pos] \<rparr>)"
  proof (rule inv_slot_update [OF inv i(1,2) shapeD(6) [OF sh pos]])
    fix m :: nat assume "m < 15"
    then show "byte (groups a ! pos) m = (if m = n then case Some (k, v) of None \<Rightarrow> 0
        | Some e \<Rightarrow> reduced (hash_for T (fst e)) else byte (groups a ! pos) m)"
      using invD(2) [OF inv pos i(1)] i slot_in_range(2) [OF sh i(2)] by (auto simp: expected_byte_def)
  next
    show "keys_unique ((slots a)[?i := Some (k, v)])"
      using invD(4) [OF inv] i(2,3) unfolding keys_unique_def
      by (auto simp: nth_list_update split: if_splits)
  next
    fix k' v' assume "Some (k, v) = Some (k', v')"
    then show "reachable_at ovf T a k' pos"
      using invD(3) [OF inv i(2,3)] slot_index [OF i(1), of pos] by simp
  qed simp
  then show ?thesis by (simp add: set_element_def)
qed

lemma assign_mapped_correct:
  fixes t :: "('g, 'k \<times> 'v) table_core"
  assumes t: "tinv t" and st: "stores (arrays t) loc (k, w)"
  shows "tinv (assign_mapped loc v t)" and "tab_map (assign_mapped loc v t) = (tab_map t)(k \<mapsto> v)"
    and "ctrl_size (assign_mapped loc v t) = ctrl_size t" and "stores (arrays (assign_mapped loc v t)) loc (k, v)"
    and "capacity (arrays (assign_mapped loc v t)) = capacity (arrays t)"
proof -
  note D = tinvD [OF t]
  obtain pos n where loc: "loc = (pos, n)" by (cases loc)
  let ?t = "assign_mapped loc v t" and ?i = "pos * 15 + n"
  have i: "n < 15" "?i < length (slots (arrays t))" "slots (arrays t) ! ?i = Some (k, w)"
    using st by (simp_all add: stores_def loc)
  have a: "arrays ?t = set_element (arrays t) (pos, n) (Some (k, v))"
    using stores_element [OF st] by (simp add: assign_mapped_def loc)
  have inv: "inv (arrays ?t)" unfolding a by (rule assign_inv [OF D(1) st [unfolded loc]])
  have sl: "slots (arrays ?t) = (slots (arrays t))[?i := Some (k, v)]" by (simp add: a)
  show "ctrl_size ?t = ctrl_size t" by (simp add: assign_mapped_def)
  show "stores (arrays ?t) loc (k, v)" using i sl by (simp add: stores_def loc)
  show cap: "capacity (arrays ?t) = capacity (arrays t)" by (simp add: a capacity_def)
  have "length (somes (slots (arrays ?t))) = length (somes (slots (arrays t)))"
    unfolding sl somes_split [OF i(2)] using somes_at [OF i(2)] i(3) by simp
  then show "tinv ?t" using inv t cap by (simp add: tab_inv_def assign_mapped_def)
  have "tab_map ?t x = Some u \<longleftrightarrow> ((tab_map t)(k \<mapsto> v)) x = Some u" for x u
  proof (cases "x = k")
    case True
    have "arr_map (arrays ?t) k = Some v"
      unfolding arr_map_Some [OF invD(4) [OF inv]] sl
      by (rule exI [of _ ?i]) (use i in simp)
    then show ?thesis using True by (simp add: tab_map_def)
  next
    case False
    have "(\<exists>j < length (slots (arrays ?t)). slots (arrays ?t) ! j = Some (x, u)) \<longleftrightarrow>
        (\<exists>j < length (slots (arrays t)). slots (arrays t) ! j = Some (x, u))"
      using False i(2,3) unfolding sl by (metis length_list_update nth_list_update option.inject prod.inject)
    with False show ?thesis
      unfolding tab_map_def arr_map_Some [OF invD(4) [OF inv]]
      using arr_map_Some [OF invD(4) [OF D(1)]] by simp
  qed
  then show "tab_map ?t = (tab_map t)(k \<mapsto> v)" by (metis ext not_None_eq)
qed

lemma fm_emplace_correct:
  fixes t :: "('g, 'k \<times> 'v) table_core"
  assumes "tinv t" "ctrl_size t < 2 ^ 60"
  obtains t' loc where "fm_emplace T k v t = Some (t', loc, tab_map t k = None)" "tinv t'"
    "tab_map t' = (if tab_map t k = None then (tab_map t)(k \<mapsto> v) else tab_map t)"
    "ctrl_size t' = (if tab_map t k = None then ctrl_size t + 1 else ctrl_size t)"
    "stores (arrays t') loc (k, the (tab_map t' k))"
  using emplace_impl_correct [OF assms, of k v] unfolding fm_emplace_def by blast

text \<open>Below the maximum load an insertion neither rehashes nor moves an element.\<close>

lemma fm_emplace_stable:
  fixes t :: "('g, 'k \<times> 'v) table_core"
  assumes t: "tinv t" and room: "ctrl_size t < ctrl_ml t" and r: "fm_emplace T k v t = Some (t', loc, b)"
  shows "capacity (arrays t') = capacity (arrays t)" and "ctrl_ml t' = ctrl_ml t"
    and "stores (arrays t) l x \<Longrightarrow> stores (arrays t') l x"
proof -
  note D = tinvD [OF t]
  have "t' = t \<or> (\<exists>a. placed (arrays t) (k, v) a loc \<and> arr_map (arrays t) k = None \<and>
      t' = t\<lparr> arrays := a, ctrl_size := ctrl_size t + 1 \<rparr>)"
  proof (cases "core_find T t k")
    case (Some l)
    with r show ?thesis by (simp add: fm_emplace_def emplace_impl_def core_find_def Let_def)
  next
    case None
    have k: "arr_map (arrays t) k = None"
      using core_find_element [OF D(1), of k] None by (cases "arr_map (arrays t) k") auto
    have "length (somes (slots (arrays t))) < length (slots (arrays t))" using room D(2-5) by linarith
    from nosize_emplace_correct [OF D(1) k this, of v] obtain a loc' where
      "nosize_unchecked_emplace_at T (arrays t) (position_for (hash_for T k) (arrays t)) (hash_for T k) (k, v)
        = Some (a, loc')" "placed (arrays t) (k, v) a loc'" by blast
    then show ?thesis using r None room k
      by (auto simp: fm_emplace_def emplace_impl_def core_find_def Let_def unchecked_emplace_at_def)
  qed
  then have "capacity (arrays t') = capacity (arrays t) \<and> ctrl_ml t' = ctrl_ml t \<and>
      (stores (arrays t) l x \<longrightarrow> stores (arrays t') l x)"
  proof
    assume "\<exists>a. placed (arrays t) (k, v) a loc \<and> arr_map (arrays t) k = None \<and>
      t' = t\<lparr> arrays := a, ctrl_size := ctrl_size t + 1 \<rparr>"
    then obtain a where a: "placed (arrays t) (k, v) a loc" "arr_map (arrays t) k = None"
      "t' = t\<lparr> arrays := a, ctrl_size := ctrl_size t + 1 \<rparr>" by blast
    from placedD(7) [OF a(1,2) D(1)] placed_stores(2) [OF a(1)] show ?thesis by (simp add: a(3))
  qed simp
  then show "capacity (arrays t') = capacity (arrays t)" "ctrl_ml t' = ctrl_ml t"
    "stores (arrays t) l x \<Longrightarrow> stores (arrays t') l x" by blast+
qed

text \<open>Erasing an element leaves the others where they are.\<close>

lemma table_erase_stable:
  fixes t :: "('g, 'k \<times> 'v) table_core"
  assumes t: "tinv t"
  shows "capacity (arrays (fst (table_erase T k t))) = capacity (arrays t)"
    and "ctrl_ml t - 1 \<le> ctrl_ml (fst (table_erase T k t))"
    and "stores (arrays t) l x \<Longrightarrow> fst x \<noteq> k \<Longrightarrow> stores (arrays (fst (table_erase T k t))) l x"
proof -
  have "fst (table_erase T k t) = t \<or> (\<exists>pos n v. stores (arrays t) (pos, n) (k, v) \<and>
      fst (table_erase T k t) = core_erase T (pos, n) t)"
  proof (cases "core_find T t k")
    case (Some loc)
    then show ?thesis using core_find_stores [OF t Some]
      by (cases loc) (auto simp: table_erase_def)
  qed (simp add: table_erase_def)
  moreover have "capacity (arrays (core_erase T (pos, n) t)) = capacity (arrays t) \<and>
      ctrl_ml t - 1 \<le> ctrl_ml (core_erase T (pos, n) t) \<and>
      (stores (arrays t) l x \<longrightarrow> fst x \<noteq> k \<longrightarrow> stores (arrays (core_erase T (pos, n) t)) l x)"
    if st: "stores (arrays t) (pos, n) (k, v)" for pos n v
  proof -
    have i: "n < 15" "pos * 15 + n < length (slots (arrays t))" "slots (arrays t) ! (pos * 15 + n) = Some (k, v)"
      using st by (simp_all add: stores_def)
    note E = core_erase_correct [OF t i]
    have "stores (arrays (core_erase T (pos, n) t)) l x" if "stores (arrays t) l x" "fst x \<noteq> k"
    proof -
      have "fst l * 15 + snd l \<noteq> pos * 15 + n" using that i(3) by (auto simp: stores_def)
      with that show ?thesis by (simp add: stores_def E(4))
    qed
    then show ?thesis using E(6,7) by blast
  qed
  ultimately show "capacity (arrays (fst (table_erase T k t))) = capacity (arrays t)"
    "ctrl_ml t - 1 \<le> ctrl_ml (fst (table_erase T k t))"
    "stores (arrays t) l x \<Longrightarrow> fst x \<noteq> k \<Longrightarrow> stores (arrays (fst (table_erase T k t))) l x"
    by (metis diff_le_self, metis diff_le_self, metis)
qed

lemma fm_insert_range_correct:
  fixes t :: "('g, 'k \<times> 'v) table_core"
  assumes "tinv t" "ctrl_size t + length es \<le> 2 ^ 60"
  shows "\<exists>t'. fm_insert_range T es t = Some t' \<and> tinv t' \<and> tab_map t' = map_of es ++ tab_map t \<and>
    ctrl_size t' \<le> ctrl_size t + length es"
  using assms
proof (induction es arbitrary: t)
  case Nil
  then show ?case by (simp add: map_add_def)
next
  case (Cons e es)
  obtain k v where e: "e = (k, v)" by (cases e)
  obtain t1 loc where t1: "fm_emplace T k v t = Some (t1, loc, tab_map t k = None)" "tinv t1"
    "tab_map t1 = (if tab_map t k = None then (tab_map t)(k \<mapsto> v) else tab_map t)"
    "ctrl_size t1 = (if tab_map t k = None then ctrl_size t + 1 else ctrl_size t)"
    by (rule fm_emplace_correct [OF Cons.prems(1), of k v]) (use Cons.prems(2) in simp_all)
  obtain t' where t': "fm_insert_range T es t1 = Some t'" "tinv t'" "tab_map t' = map_of es ++ tab_map t1"
    "ctrl_size t' \<le> ctrl_size t1 + length es"
    using Cons.IH [OF t1(2)] Cons.prems(2) t1(4) by (auto split: if_splits)
  have "map_of es ++ tab_map t1 = map_of (e # es) ++ tab_map t"
    using t1(3) by (auto simp: e map_add_def split: option.splits)
  moreover have "ctrl_size t' \<le> ctrl_size t + length (e # es)" using t'(4) t1(4) by (simp split: if_splits)
  ultimately show ?case using t1(1) t' by (simp add: e fun_upd_def)
qed

lemma fm_insert_or_assign_correct:
  fixes t :: "('g, 'k \<times> 'v) table_core"
  assumes "tinv t" "ctrl_size t < 2 ^ 60"
  shows "\<exists>t' loc. fm_insert_or_assign T k v t = Some (t', loc, tab_map t k = None) \<and> tinv t' \<and>
    tab_map t' = (tab_map t)(k \<mapsto> v) \<and>
    ctrl_size t' = (if tab_map t k = None then ctrl_size t + 1 else ctrl_size t)"
proof -
  obtain t1 loc where t1: "fm_emplace T k v t = Some (t1, loc, tab_map t k = None)" "tinv t1"
    "tab_map t1 = (if tab_map t k = None then (tab_map t)(k \<mapsto> v) else tab_map t)"
    "ctrl_size t1 = (if tab_map t k = None then ctrl_size t + 1 else ctrl_size t)"
    "stores (arrays t1) loc (k, the (tab_map t1 k))"
    by (rule fm_emplace_correct [OF assms, of k v])
  show ?thesis
  proof (cases "tab_map t k = None")
    case True
    with t1 show ?thesis by (simp add: fm_insert_or_assign_def)
  next
    case False
    with t1 show ?thesis
      using assign_mapped_correct [OF t1(2,5), of v] by (simp add: fm_insert_or_assign_def del: not_None_eq)
  qed
qed

lemma fm_index_correct:
  fixes t :: "('g, 'k \<times> 'v) table_core"
  assumes "tinv t" "ctrl_size t < 2 ^ 60"
  shows "\<exists>t'. fm_index T d k t = Some (t', case tab_map t k of None \<Rightarrow> d | Some v \<Rightarrow> v) \<and> tinv t' \<and>
    tab_map t' = (if tab_map t k = None then (tab_map t)(k \<mapsto> d) else tab_map t) \<and>
    ctrl_size t' = (if tab_map t k = None then ctrl_size t + 1 else ctrl_size t)"
proof -
  obtain t1 loc where t1: "fm_emplace T k d t = Some (t1, loc, tab_map t k = None)" "tinv t1"
    "tab_map t1 = (if tab_map t k = None then (tab_map t)(k \<mapsto> d) else tab_map t)"
    "ctrl_size t1 = (if tab_map t k = None then ctrl_size t + 1 else ctrl_size t)"
    "stores (arrays t1) loc (k, the (tab_map t1 k))"
    by (rule fm_emplace_correct [OF assms, of k d])
  then show ?thesis using stores_element [OF t1(5)]
    by (cases "tab_map t k") (simp_all add: fm_index_def)
qed

lemma fm_find_None:
  fixes t :: "('g, 'k \<times> 'v) table_core"
  assumes "tinv t"
  shows "fm_find T k t = None \<longleftrightarrow> tab_map t k = None"
  using core_find_element [OF tinvD(1) [OF assms], of k]
  by (cases "core_find T t k"; cases "tab_map t k") (auto simp: fm_find_def tab_map_def)

lemma fm_at_correct:
  fixes t :: "('g, 'k \<times> 'v) table_core"
  assumes "tinv t"
  shows "fm_at T k t = (case tab_map t k of Some v \<Rightarrow> Inr v
    | None \<Rightarrow> Inl (OutOfRange ''key was not found in unordered_flat_map''))"
  using core_find_element [OF tinvD(1) [OF assms], of k]
  by (cases "core_find T t k"; cases "tab_map t k") (auto simp: fm_at_def fm_find_def tab_map_def)

text \<open>A key's range is the one element found and the next one of the iteration order.\<close>

lemma fm_equal_range_correct:
  fixes t :: "('g, 'k \<times> 'v) table_core"
  assumes t: "tinv t"
  shows "fm_equal_range T k t = Some (case fm_find T k t of None \<Rightarrow> (None, None)
    | Some loc \<Rightarrow> (Some loc, next_slot (slots (arrays t)) (fst loc * 15 + snd loc + 1)))"
proof (cases "fm_find T k t")
  case (Some loc)
  obtain pos n where loc: "loc = (pos, n)" by (cases loc)
  have "stores (arrays t) loc (k, the (tab_map t k))"
    using core_find_stores [OF t] Some by (simp add: fm_find_def)
  then have i: "n < 15" "pos * 15 + n < length (slots (arrays t))" by (simp_all add: stores_def loc)
  note sh = invD(1) [OF tinvD(1) [OF t]]
  have pos: "pos < 2 ^ a_exp (arrays t)" using slot_in_range(1) [OF sh i(2)] slot_index [OF i(1), of pos] by simp
  from increment_correct [OF tinvD(1) [OF t] slot_in_range(2) [OF sh i(2)] pos i]
  show ?thesis by (simp add: fm_equal_range_def Some loc)
qed (simp add: fm_equal_range_def)

text \<open>Erasing at an iterator: the element goes, and the next iterator is right in the new table.\<close>

lemma fm_erase_at_correct:
  fixes t :: "('g, 'k \<times> 'v) table_core"
  assumes t: "tinv t" and st: "stores (arrays t) loc (k, v)" and r: "fm_erase_at T loc t = (t', it)"
  shows "tinv t'" and "tab_map t' = (tab_map t)(k := None)"
    and "it = Some (next_slot (slots (arrays t)) (fst loc * 15 + snd loc + 1))"
    and "fm_extract T loc t = ((k, v), t')"
proof -
  obtain pos n where loc: "loc = (pos, n)" by (cases loc)
  have i: "n < 15" "pos * 15 + n < length (slots (arrays t))" "slots (arrays t) ! (pos * 15 + n) = Some (k, v)"
    using st by (simp_all add: stores_def loc)
  have t': "t' = core_erase T (pos, n) t" "it = increment T (arrays t') (pos, n)"
    using r by (auto simp: fm_erase_at_def loc Let_def)
  note E = core_erase_correct [OF t i, folded t'(1)]
  show "tinv t'" "tab_map t' = (tab_map t)(k := None)" by (rule E)+
  note sh = invD(1) [OF tinvD(1) [OF E(1)]]
  have i': "pos * 15 + n < length (slots (arrays t'))" using i(2) by (simp add: E(4))
  have pos: "pos < 2 ^ a_exp (arrays t')" using slot_in_range(1) [OF sh i'] slot_index [OF i(1), of pos] by simp
  have "filter (\<lambda>m. slots (arrays t') ! m \<noteq> None) [pos * 15 + n + 1..<length (slots (arrays t))] =
      filter (\<lambda>m. slots (arrays t) ! m \<noteq> None) [pos * 15 + n + 1..<length (slots (arrays t))]"
    by (rule filter_cong) (auto simp: E(4))
  then show "it = Some (next_slot (slots (arrays t)) (fst loc * 15 + snd loc + 1))"
    using increment_correct [OF tinvD(1) [OF E(1)] slot_in_range(2) [OF sh i'] pos i(1) i']
    by (simp add: t'(2) loc next_slot_def E(4))
  show "fm_extract T loc t = ((k, v), t')"
    using stores_element [OF st] by (simp add: fm_extract_def t'(1) loc)
qed

section \<open>Moving and swapping\<close>

text \<open>A moved-from table is a valid empty one without storage; the moved-to table has the elements.\<close>

lemma moved_from_correct:
  fixes x :: "('g, 'k \<times> 'v) table_core"
  shows "tinv (moved_from T x)" and "tab_map (moved_from T x) = Map.empty" and "ctrl_size (moved_from T x) = 0"
    and "capacity (arrays (moved_from T x)) = 0"
proof -
  have z: "(0 :: nat) < 2 ^ 64" by simp
  let ?n = "core_new T 0 :: ('g, 'k \<times> 'v) table_core"
  have e: "arrays (moved_from T x) = arrays ?n" "ctrl_size (moved_from T x) = ctrl_size ?n"
    "ctrl_ml (moved_from T x) = ctrl_ml ?n"
    by (simp_all add: moved_from_def core_new_def Let_def)
  note new = core_new_correct [OF z refl, where 'v = 'v]
  show "tinv (moved_from T x)" "tab_map (moved_from T x) = Map.empty" "ctrl_size (moved_from T x) = 0"
    using new(1-3) unfolding tab_inv_def tab_map_def e by blast+
  show "capacity (arrays (moved_from T x)) = 0"
    by (simp add: moved_from_def capacity_def new_arrays_def set_arrays_def Let_def)
qed

lemma core_move_correct:
  fixes x t :: "('g, 'k \<times> 'v) table_core"
  assumes "tinv x" "tinv t"
  shows "core_move T x = (x, moved_from T x)"
    and "tinv (fst (core_move_assign T x t))" and "tab_map (fst (core_move_assign T x t)) = tab_map x"
    and "snd (core_move_assign T x t) = moved_from T x"
    and "tinv (fst (core_swap (t, x)))" and "tinv (snd (core_swap (t, x)))"
    and "tab_map (fst (core_swap (t, x))) = tab_map x" and "tab_map (snd (core_swap (t, x))) = tab_map t"
  using assms by (simp_all add: core_move_def core_move_assign_def core_swap_def Let_def tab_inv_def tab_map_def)

section \<open>Erasing a range\<close>

text \<open>The elements whose slots are in \<open>[i, j)\<close>, as the iteration order sees them.\<close>

lemma next_slot_None: "next_slot es i = None \<longleftrightarrow> (\<forall>m < length es. i \<le> m \<longrightarrow> es ! m = None)"
proof -
  have "next_slot es i = None \<longleftrightarrow> filter (\<lambda>m. es ! m \<noteq> None) [i..<length es] = []"
    by (cases "filter (\<lambda>m. es ! m \<noteq> None) [i..<length es]") (simp_all only: next_slot_def list.case, simp_all)
  then show ?thesis by (auto simp: filter_empty_conv)
qed

lemma next_slot_Some:
  assumes "next_slot es i = Some loc"
  obtains m where "i \<le> m" "m < length es" "es ! m \<noteq> None" "loc = (m div 15, m mod 15)"
    "next_slot es i = next_slot es m" "\<And>l. i \<le> l \<Longrightarrow> l < m \<Longrightarrow> es ! l = None"
proof -
  obtain m ms where f: "filter (\<lambda>m. es ! m \<noteq> None) [i..<length es] = m # ms" "loc = (m div 15, m mod 15)"
    using assms by (auto simp: next_slot_def split: list.splits)
  then obtain us vs where u: "[i..<length es] = us @ m # vs" "\<forall>u \<in> List.set us. es ! u = None" "es ! m \<noteq> None"
    by (auto simp: filter_eq_Cons_iff simp del: not_None_eq)
  have m: "i \<le> m" "m < length es" using u(1) by (metis atLeastLessThan_iff in_set_conv_decomp set_upt)+
  have "us = [i..<m]"
  proof -
    have "length us < length [i..<length es]" unfolding u(1) by simp
    then have lus: "length us < length es - i" by simp
    have "[i..<length es] ! length us = m" using u(1) by simp
    then have "m = i + length us" using lus by simp
    moreover have "us = take (length us) [i..<length es]" using u(1) by simp
    ultimately show ?thesis using lus by (simp add: take_upt)
  qed
  with u(2) have none: "es ! l = None" if "i \<le> l" "l < m" for l using that by simp
  have "next_slot es i = next_slot es m" using m none by (intro next_slot_skip_many) auto
  with that m u(3) f(2) none show thesis by blast
qed

lemma fm_erase_range_correct:
  fixes t :: "('g, 'k \<times> 'v) table_core"
  assumes "tinv t" "i \<le> j"
  shows "\<exists>t'. fm_erase_range T (next_slot (slots (arrays t)) i) (next_slot (slots (arrays t)) j) t = Some t' \<and>
    tinv t' \<and> ctrl_size t' \<le> ctrl_size t \<and> length (slots (arrays t')) = length (slots (arrays t)) \<and>
    (\<forall>m < length (slots (arrays t)). slots (arrays t') ! m =
      (if i \<le> m \<and> m < j then None else slots (arrays t) ! m))"
  using assms
proof (induction "length (slots (arrays t)) - i" arbitrary: i t rule: less_induct)
  case less
  let ?es = "slots (arrays t)"
  note D = tinvD [OF less.prems(1)]
  show ?case
  proof (cases "next_slot ?es i = next_slot ?es j")
    case True
    have "?es ! m = None" if "i \<le> m" "m < j" "m < length ?es" for m
    proof (cases "next_slot ?es i")
      case None
      then show ?thesis using that by (simp add: next_slot_None)
    next
      case (Some loc)
      obtain p where p: "i \<le> p" "loc = (p div 15, p mod 15)" "\<And>l. i \<le> l \<Longrightarrow> l < p \<Longrightarrow> ?es ! l = None"
        using next_slot_Some [OF Some] by blast
      have "next_slot ?es j = Some loc" using Some True by simp
      then obtain q where q: "j \<le> q" "loc = (q div 15, q mod 15)"
        using next_slot_Some by blast
      have "p = q" using p(2) q(2) by (metis div_mod_decomp prod.inject)
      with p(3) q(1) that show ?thesis by simp
    qed
    then have "\<forall>m < length ?es. ?es ! m = (if i \<le> m \<and> m < j then None else ?es ! m)" by simp
    with less.prems True show ?thesis by (subst fm_erase_range.simps) auto
  next
    case False
    show ?thesis
    proof (cases "next_slot ?es i")
      case None
      then have "next_slot ?es j = None" using less.prems(2) by (simp add: next_slot_None)
      with None False show ?thesis by simp
    next
      case (Some loc)
      obtain p where p: "i \<le> p" "p < length ?es" "?es ! p \<noteq> None" "loc = (p div 15, p mod 15)"
        "next_slot ?es i = next_slot ?es p" "\<And>l. i \<le> l \<Longrightarrow> l < p \<Longrightarrow> ?es ! l = None"
        using next_slot_Some [OF Some] by blast
      obtain k v where kv: "?es ! p = Some (k, v)" using p(3) by auto
      note sh = invD(1) [OF D(1)]
      have pj: "p < j"
      proof (rule ccontr)
        assume "\<not> p < j"
        then have "next_slot ?es j = next_slot ?es p" using p less.prems(2) by (intro next_slot_skip_many) auto
        with p(5) False show False by simp
      qed
      have nx: "increment T (arrays t) loc = Some (next_slot ?es (p + 1))"
        using increment_correct [OF D(1) slot_in_range(2) [OF sh p(2)] slot_in_range(1) [OF sh p(2)], of "p mod 15"] p(2)
        by (simp add: p(4) div_mult_mod_eq)
      let ?t = "core_erase T loc t"
      have ce: "tinv ?t" "ctrl_size ?t \<le> ctrl_size t" "slots (arrays ?t) = ?es[p := None]"
        using core_erase_correct [OF less.prems(1), of "p mod 15" "p div 15" k v] p(2) kv
        by (auto simp: p(4) div_mult_mod_eq)
      have later: "next_slot (slots (arrays ?t)) l = next_slot ?es l" if "p < l" for l
      proof -
        have "filter (\<lambda>m. ?es[p := None] ! m \<noteq> None) [l..<length ?es] = filter (\<lambda>m. ?es ! m \<noteq> None) [l..<length ?es]"
          using that by (intro filter_cong) auto
        then show ?thesis by (simp add: next_slot_def ce(3))
      qed
      have len: "length (slots (arrays ?t)) = length ?es" by (simp add: ce(3))
      have "length (slots (arrays ?t)) - (p + 1) < length ?es - i" using len p(1,2) by linarith
      from less.hyps [OF this ce(1)] pj later [of "p + 1"] later [of j] len
      obtain t' where t': "fm_erase_range T (next_slot ?es (p + 1)) (next_slot ?es j) ?t = Some t'"
        "tinv t'" "ctrl_size t' \<le> ctrl_size ?t" "length (slots (arrays t')) = length ?es"
        "\<forall>m < length ?es. slots (arrays t') ! m = (if p + 1 \<le> m \<and> m < j then None else ?es[p := None] ! m)"
        unfolding ce(3) by (metis Suc_eq_plus1 Suc_leI less_add_one)
      have "slots (arrays t') ! m = (if i \<le> m \<and> m < j then None else ?es ! m)" if "m < length ?es" for m
        using t'(5) that p(1,2,6) pj by (cases "m = p") (auto simp: less_Suc_eq_le dest: le_neq_implies_less)
      moreover have "fm_erase_range T (next_slot ?es i) (next_slot ?es j) t = Some t'"
        using False Some nx t'(1) by (subst fm_erase_range.simps) simp
      ultimately show ?thesis using t' ce by (intro exI [of _ t']) auto
    qed
  qed
qed

end

end
