(* ===== verification/Boost_History.thy ===== *)
theory Boost_History
  imports Boost_FlatMap
begin

text \<open>
  Histories of an unordered_flat_map: sequences of its operations, run on the table and on a
  finite map. The results agree, the invariant holds throughout and every run returns, as long as
  the elements inserted stay below 2^60. The public members that the history leaves out (iteration,
  ranges of iterators, merge, copy, comparison) have their own lemmas.
\<close>

datatype ('k, 'v) fm_op =
    Emplace 'k 'v
  | InsertRange "('k \<times> 'v) list"
  | InsertOrAssign 'k 'v
  | Index 'k
  | At 'k
  | Count 'k
  | EraseKey 'k
  | EraseIf "'k \<times> 'v \<Rightarrow> bool"
  | Clear
  | Rehash nat
  | Reserve nat
  | GetSize

datatype 'v fm_res = Done | Flag bool | Value "fm_error + 'v" | Number nat

definition run_op ::
  "('g, 'k) foa_types \<Rightarrow> 'v \<Rightarrow> ('k, 'v) fm_op \<Rightarrow> ('g, 'k \<times> 'v) table_core \<Rightarrow>
   (('g, 'k \<times> 'v) table_core \<times> 'v fm_res) option" where
  "run_op T d op t =
     (case op of
        Emplace k v \<Rightarrow> map_option (\<lambda>(t', _, b). (t', Flag b)) (fm_emplace T k v t)
      | InsertRange es \<Rightarrow> map_option (\<lambda>t'. (t', Done)) (fm_insert_range T es t)
      | InsertOrAssign k v \<Rightarrow> map_option (\<lambda>(t', _, b). (t', Flag b)) (fm_insert_or_assign T k v t)
      | Index k \<Rightarrow> map_option (\<lambda>(t', v). (t', Value (Inr v))) (fm_index T d k t)
      | At k \<Rightarrow> Some (t, Value (fm_at T k t))
      | Count k \<Rightarrow> Some (t, Number (fm_count T k t))
      | EraseKey k \<Rightarrow> (let (t', n) = fm_erase_key T k t in Some (t', Number n))
      | EraseIf pr \<Rightarrow> (let (t', n) = erase_if T pr t in Some (t', Number n))
      | Clear \<Rightarrow> Some (fm_clear T t, Done)
      | Rehash n \<Rightarrow> map_option (\<lambda>t'. (t', Done)) (fm_rehash T n t)
      | Reserve n \<Rightarrow> map_option (\<lambda>t'. (t', Done)) (fm_reserve T n t)
      | GetSize \<Rightarrow> Some (t, Number (fm_size t)))"

fun run_ops where
  "run_ops T d [] t = Some (t, [])"
| "run_ops T d (op # ops) t =
     (case run_op T d op t of
        None \<Rightarrow> None
      | Some (t', r) \<Rightarrow>
          (case run_ops T d ops t' of None \<Rightarrow> None | Some (t'', rs) \<Rightarrow> Some (t'', r # rs)))"

text \<open>What each operation promises.\<close>

definition spec_op :: "'v \<Rightarrow> ('k, 'v) fm_op \<Rightarrow> ('k \<rightharpoonup> 'v) \<Rightarrow> ('k \<rightharpoonup> 'v) \<times> 'v fm_res" where
  "spec_op d op m =
     (case op of
        Emplace k v \<Rightarrow> (if m k = None then m(k \<mapsto> v) else m, Flag (m k = None))
      | InsertRange es \<Rightarrow> (map_of es ++ m, Done)
      | InsertOrAssign k v \<Rightarrow> (m(k \<mapsto> v), Flag (m k = None))
      | Index k \<Rightarrow> (case m k of None \<Rightarrow> (m(k \<mapsto> d), Value (Inr d)) | Some v \<Rightarrow> (m, Value (Inr v)))
      | At k \<Rightarrow> (m, Value (case m k of Some v \<Rightarrow> Inr v
          | None \<Rightarrow> Inl (OutOfRange ''key was not found in unordered_flat_map'')))
      | Count k \<Rightarrow> (m, Number (if m k = None then 0 else 1))
      | EraseKey k \<Rightarrow> (m(k := None), Number (if m k = None then 0 else 1))
      | EraseIf pr \<Rightarrow>
          (\<lambda>k. case m k of None \<Rightarrow> None | Some v \<Rightarrow> if pr (k, v) then None else Some v,
           Number (card {k. \<exists>v. m k = Some v \<and> pr (k, v)}))
      | Clear \<Rightarrow> (Map.empty, Done)
      | Rehash n \<Rightarrow> (m, Done)
      | Reserve n \<Rightarrow> (m, Done)
      | GetSize \<Rightarrow> (m, Number (card (dom m))))"

fun spec_ops :: "'v \<Rightarrow> ('k, 'v) fm_op list \<Rightarrow> ('k \<rightharpoonup> 'v) \<Rightarrow> ('k \<rightharpoonup> 'v) \<times> 'v fm_res list" where
  "spec_ops d [] m = (m, [])"
| "spec_ops d (op # ops) m =
     (let (m', r) = spec_op d op m; (m'', rs) = spec_ops d ops m' in (m'', r # rs))"

text \<open>How many elements an operation can add, and the sizes it may ask for.\<close>

fun adds :: "('k, 'v) fm_op \<Rightarrow> nat" where
  "adds (Emplace k v) = 1"
| "adds (InsertRange es) = length es"
| "adds (InsertOrAssign k v) = 1"
| "adds (Index k) = 1"
| "adds _ = 0"

fun request_ok :: "('k, 'v) fm_op \<Rightarrow> bool" where
  "request_ok (Rehash n) = (n < 2 ^ 60)"
| "request_ok (Reserve n) = (n < 2 ^ 60)"
| "request_ok _ = True"

context foa_table
begin

lemma erase_if_number:
  fixes t :: "('g, 'k \<times> 'v) table_core"
  assumes t: "tinv t"
  shows "snd (erase_if T pr t) = card {k. \<exists>v. tab_map t k = Some v \<and> pr (k, v)}"
proof -
  let ?t = "fst (erase_if T pr t)" and ?A = "{k. \<exists>v. tab_map t k = Some v \<and> pr (k, v)}"
  note E = erase_if_correct [OF t, of pr]
  have "dom (tab_map ?t) = dom (tab_map t) - ?A"
    unfolding E(2) by (auto split: option.splits if_splits)
  moreover have sub: "?A \<subseteq> dom (tab_map t)" by auto
  ultimately have "card (dom (tab_map ?t)) = card (dom (tab_map t)) - card ?A"
    using card_Diff_subset [OF finite_subset [OF sub tab_map_card(2) [OF t]] sub] by simp
  moreover have "card ?A \<le> card (dom (tab_map t))" by (rule card_mono [OF tab_map_card(2) [OF t] sub])
  ultimately show ?thesis using E(3) tab_map_card(1) [OF t] tab_map_card(1) [OF E(1)] by simp
qed

lemma run_op_correct:
  fixes t :: "('g, 'k \<times> 'v) table_core"
  assumes t: "tinv t" and bound: "ctrl_size t + adds op \<le> 2 ^ 60" "ctrl_size t < 2 ^ 60" and req: "request_ok op"
  shows "\<exists>t'. run_op T d op t = Some (t', snd (spec_op d op (tab_map t))) \<and> tinv t' \<and>
    tab_map t' = fst (spec_op d op (tab_map t)) \<and> ctrl_size t' \<le> ctrl_size t + adds op"
proof (cases op)
  case (Emplace k v)
  then show ?thesis
    using emplace_impl_correct [OF t bound(2), of k v] by (auto simp: run_op_def spec_op_def fm_emplace_def)
next
  case (InsertRange es)
  then show ?thesis
    using fm_insert_range_correct [OF t, of es] bound(1) by (auto simp: run_op_def spec_op_def)
next
  case (InsertOrAssign k v)
  then show ?thesis
    using fm_insert_or_assign_correct [OF t bound(2), of k v] by (auto simp: run_op_def spec_op_def)
next
  case (Index k)
  then show ?thesis
    using fm_index_correct [OF t bound(2), of d k] by (auto simp: run_op_def spec_op_def split: option.splits)
next
  case (At k)
  then show ?thesis using fm_at_correct [OF t, of k] t by (simp add: run_op_def spec_op_def)
next
  case (Count k)
  then show ?thesis using fm_find_None [OF t, of k] t
    by (simp add: run_op_def spec_op_def fm_count_def del: not_None_eq)
next
  case (EraseKey k)
  then show ?thesis using table_erase_correct [OF t, of k]
    by (auto simp: run_op_def spec_op_def fm_erase_key_def split: prod.splits)
next
  case (EraseIf pr)
  then show ?thesis using erase_if_correct [OF t, of pr] erase_if_number [OF t, of pr]
    by (auto simp: run_op_def spec_op_def split: prod.splits)
next
  case Clear
  then show ?thesis using core_clear_correct [OF t] by (simp add: run_op_def spec_op_def fm_clear_def)
next
  case (Rehash n)
  then show ?thesis using core_rehash_correct [OF t bound(2), of n] req
    by (auto simp: run_op_def spec_op_def fm_rehash_def)
next
  case (Reserve n)
  then show ?thesis using core_reserve_correct [OF t bound(2), of n] req
    by (auto simp: run_op_def spec_op_def fm_reserve_def)
next
  case GetSize
  then show ?thesis using tab_map_card(1) [OF t] t by (simp add: run_op_def spec_op_def fm_size_def)
qed

lemma run_ops_correct:
  fixes t :: "('g, 'k \<times> 'v) table_core"
  assumes "tinv t" "ctrl_size t + sum_list (map adds ops) < 2 ^ 60" "list_all request_ok ops"
  shows "\<exists>t'. run_ops T d ops t = Some (t', snd (spec_ops d ops (tab_map t))) \<and> tinv t' \<and>
    tab_map t' = fst (spec_ops d ops (tab_map t))"
  using assms
proof (induction ops arbitrary: t)
  case (Cons op ops)
  obtain t1 where t1: "run_op T d op t = Some (t1, snd (spec_op d op (tab_map t)))" "tinv t1"
    "tab_map t1 = fst (spec_op d op (tab_map t))" "ctrl_size t1 \<le> ctrl_size t + adds op"
    using run_op_correct [OF Cons.prems(1), of op d] Cons.prems(2,3) by auto
  obtain t' where "run_ops T d ops t1 = Some (t', snd (spec_ops d ops (tab_map t1)))" "tinv t'"
    "tab_map t' = fst (spec_ops d ops (tab_map t1))"
    using Cons.IH [OF t1(2)] t1(4) Cons.prems(2,3) by auto
  with t1 show ?case by (auto simp: split_beta Let_def)
qed simp

end

section \<open>The three group layouts\<close>

text \<open>A table built on SSE2 groups, on NEON groups, and on the portable bit-interleaved ones.\<close>

definition sse2_types :: "('k \<Rightarrow> u64) \<Rightarrow> bool \<Rightarrow> (bytes_group, 'k) foa_types" where
  "sse2_types h av = \<lparr> grp = sse2_group, hash_fn = h, avalanching = av \<rparr>"

definition neon_types :: "('k \<Rightarrow> u64) \<Rightarrow> bool \<Rightarrow> (bytes_group, 'k) foa_types" where
  "neon_types h av = \<lparr> grp = neon_group, hash_fn = h, avalanching = av \<rparr>"

definition nosimd_types :: "('k \<Rightarrow> u64) \<Rightarrow> bool \<Rightarrow> (words_group, 'k) foa_types" where
  "nosimd_types h av = \<lparr> grp = nosimd_group, hash_fn = h, avalanching = av \<rparr>"

lemma types_sel [simp]:
  "grp (sse2_types h av) = sse2_group" "hash_fn (sse2_types h av) = h" "avalanching (sse2_types h av) = av"
  "grp (neon_types h av) = neon_group" "hash_fn (neon_types h av) = h" "avalanching (neon_types h av) = av"
  "grp (nosimd_types h av) = nosimd_group" "hash_fn (nosimd_types h av) = h" "avalanching (nosimd_types h av) = av"
  by (simp_all add: sse2_types_def neon_types_def nosimd_types_def)

interpretation sse2_table: foa_table "sse2_types h av" bytes_ok bytes_byte bytes_ovf for h :: "'k \<Rightarrow> u64" and av
  unfolding foa_table_def types_sel by (rule sse.group15_axioms)

interpretation neon_table: foa_table "neon_types h av" bytes_ok bytes_byte bytes_ovf for h :: "'k \<Rightarrow> u64" and av
  unfolding foa_table_def types_sel by (rule neon.group15_axioms)

interpretation nosimd_table: foa_table "nosimd_types h av" ns_ok ns_byte ns_ovf for h :: "'k \<Rightarrow> u64" and av
  unfolding foa_table_def types_sel by (rule ns.group15_axioms)

end
