(* ===== verification/Boost_Contracts.thy ===== *)
theory Boost_Contracts
  imports Boost_History
begin

text \<open>
  The contracts of the table operations that go through iterators, as predicates on a type
  configuration: they are proved once for every lawful group layout, and Boost_Props states them for
  the three layouts the header selects from, each with its own iterator.
\<close>

text \<open>\<open>find\<close>, \<open>at\<close> and \<open>equal_range\<close> of a key.\<close>

definition lookup_ok :: "('g, 'k) foa_types \<Rightarrow> 'k \<Rightarrow> ('g, 'k \<times> 'v) table_core \<Rightarrow> bool" where
  "lookup_ok T k t \<longleftrightarrow>
     (case fm_find T k t of
        None \<Rightarrow> tab_map t k = None \<and> fm_equal_range T k t = Some (None, None) \<and>
          fm_at T k t = Inl (OutOfRange ''key was not found in unordered_flat_map'')
      | Some loc \<Rightarrow> \<exists>v. tab_map t k = Some v \<and> stores (arrays t) loc (k, v) \<and>
          element_at (arrays t) loc = (k, v) \<and> fm_at T k t = Inr v \<and>
          fm_equal_range T k t = Some (Some loc, next_slot (slots (arrays t)) (fst loc * 15 + snd loc + 1)))"

text \<open>Erasing a key, and erasing and extracting the element an iterator points to.\<close>

definition erase_ok ::
  "('g, 'k) foa_types \<Rightarrow> (('g, 'k \<times> 'v) table_core \<Rightarrow> bool) \<Rightarrow> 'k \<Rightarrow> ('g, 'k \<times> 'v) table_core \<Rightarrow> bool" where
  "erase_ok T valid k t \<longleftrightarrow>
     (case fm_erase_key T k t of (t', n) \<Rightarrow>
        valid t' \<and> tab_map t' = (tab_map t)(k := None) \<and>
        n = (if tab_map t k = None then 0 else 1) \<and> ctrl_size t' + n = ctrl_size t \<and>
        capacity (arrays t') = capacity (arrays t) \<and> ctrl_ml t - 1 \<le> ctrl_ml t' \<and>
        (\<forall>l x. stores (arrays t) l x \<and> fst x \<noteq> k \<longrightarrow> stores (arrays t') l x)) \<and>
     (\<forall>loc v. stores (arrays t) loc (k, v) \<longrightarrow>
        (case fm_erase_at T loc t of (t1, it) \<Rightarrow>
           tab_map t1 = (tab_map t)(k := None) \<and> fm_extract T loc t = ((k, v), t1) \<and>
           it = Some (next_slot (slots (arrays t)) (fst loc * 15 + snd loc + 1))))"

text \<open>A range-for: every element once.\<close>

definition visits_each :: "('g, 'k) foa_types \<Rightarrow> ('g, 'k \<times> 'v) table_core \<Rightarrow> bool" where
  "visits_each T t \<longleftrightarrow>
     (\<exists>locs. visit_all T (arrays t) = Some locs \<and> distinct locs \<and> length locs = ctrl_size t \<and>
        distinct (map (fst \<circ> element_at (arrays t)) locs) \<and>
        map_of (map (element_at (arrays t)) locs) = tab_map t)"

text \<open>Erasing the elements between two iterators, and all of them.\<close>

definition erase_range_ok ::
  "('g, 'k) foa_types \<Rightarrow> (('g, 'k \<times> 'v) table_core \<Rightarrow> bool) \<Rightarrow> nat \<Rightarrow> nat \<Rightarrow> ('g, 'k \<times> 'v) table_core \<Rightarrow> bool" where
  "erase_range_ok T valid i j t \<longleftrightarrow>
     (\<exists>t'. fm_erase_range T (next_slot (slots (arrays t)) i) (next_slot (slots (arrays t)) j) t = Some t' \<and>
        valid t' \<and>
        (\<forall>loc e. stores (arrays t') loc e \<longleftrightarrow>
          stores (arrays t) loc e \<and> \<not> (i \<le> fst loc * 15 + snd loc \<and> fst loc * 15 + snd loc < j))) \<and>
     (\<exists>it t'. table_begin T (arrays t) = Some it \<and> fm_erase_range T it None t = Some t' \<and> tab_map t' = Map.empty)"

section \<open>Every lawful layout meets them\<close>

context foa_table
begin

lemma lookup_contract:
  fixes t :: "('g, 'k \<times> 'v) table_core"
  assumes t: "tinv t"
  shows "lookup_ok T k t"
proof (cases "fm_find T k t")
  case None
  then have "tab_map t k = None" using fm_find_None [OF t] by blast
  then show ?thesis
    using None fm_at_correct [OF t, of k] fm_equal_range_correct [OF t, of k] by (simp add: lookup_ok_def)
next
  case (Some loc)
  have st: "stores (arrays t) loc (k, the (tab_map t k))"
    using core_find_stores [OF t] Some by (simp add: fm_find_def)
  have "tab_map t k \<noteq> None" using fm_find_None [OF t, of k] Some by simp
  then obtain v where "tab_map t k = Some v" by auto
  with st show ?thesis
    using Some fm_at_correct [OF t, of k] fm_equal_range_correct [OF t, of k] stores_element [OF st]
    by (simp add: lookup_ok_def)
qed

lemma erase_contract:
  fixes t :: "('g, 'k \<times> 'v) table_core"
  assumes t: "tinv t"
  shows "erase_ok T tinv k t"
  unfolding erase_ok_def
proof (intro conjI allI impI)
  show "case fm_erase_key T k t of (t', n) \<Rightarrow>
        tinv t' \<and> tab_map t' = (tab_map t)(k := None) \<and>
        n = (if tab_map t k = None then 0 else 1) \<and> ctrl_size t' + n = ctrl_size t \<and>
        capacity (arrays t') = capacity (arrays t) \<and> ctrl_ml t - 1 \<le> ctrl_ml t' \<and>
        (\<forall>l x. stores (arrays t) l x \<and> fst x \<noteq> k \<longrightarrow> stores (arrays t') l x)"
    unfolding fm_erase_key_def case_prod_unfold
    using table_erase_correct [OF t, of k] table_erase_stable [OF t, where k = k] by blast
next
  fix loc v assume st: "stores (arrays t) loc (k, v)"
  obtain t1 it where r: "fm_erase_at T loc t = (t1, it)" by (cases "fm_erase_at T loc t")
  note E = fm_erase_at_correct [OF t st r]
  show "case fm_erase_at T loc t of (t1, it) \<Rightarrow>
           tab_map t1 = (tab_map t)(k := None) \<and> fm_extract T loc t = ((k, v), t1) \<and>
           it = Some (next_slot (slots (arrays t)) (fst loc * 15 + snd loc + 1))"
    unfolding r prod.case by (intro conjI E)
qed

lemma iteration_contract:
  fixes t :: "('g, 'k \<times> 'v) table_core"
  assumes t: "tinv t"
  shows "visits_each T t"
proof -
  note inv = tinvD(1) [OF t]
  have all: "map (element_at (arrays t)) (all_locators T (arrays t)) = somes (slots (arrays t))"
    using all_elements_eq [OF inv] by (simp add: all_elements_def)
  have "distinct (map fst (somes (slots (arrays t))))" by (rule keys_unique_distinct [OF invD(4) [OF inv]])
  then have d': "distinct (map (fst \<circ> element_at (arrays t)) (all_locators T (arrays t)))"
    using all by (metis map_map)
  moreover have "length (all_locators T (arrays t)) = ctrl_size t" using all tinvD(2) [OF t] by (metis length_map)
  moreover have "distinct (all_locators T (arrays t))" using d' by (simp add: distinct_map)
  ultimately show ?thesis
    using visit_all_correct [OF inv] all by (simp add: visits_each_def tab_map_def arr_map_def)
qed

lemma erase_range_contract:
  fixes t :: "('g, 'k \<times> 'v) table_core"
  assumes t: "tinv t" and le: "i \<le> j"
  shows "erase_range_ok T tinv i j t"
  unfolding erase_range_ok_def
proof (rule conjI)
  obtain t' where t': "fm_erase_range T (next_slot (slots (arrays t)) i) (next_slot (slots (arrays t)) j) t = Some t'"
      "tinv t'" "length (slots (arrays t')) = length (slots (arrays t))"
      "\<forall>m < length (slots (arrays t)). slots (arrays t') ! m = (if i \<le> m \<and> m < j then None else slots (arrays t) ! m)"
    using fm_erase_range_correct [OF t le] by blast
  then show "\<exists>t'. fm_erase_range T (next_slot (slots (arrays t)) i) (next_slot (slots (arrays t)) j) t = Some t' \<and>
        tinv t' \<and> (\<forall>loc e. stores (arrays t') loc e \<longleftrightarrow>
          stores (arrays t) loc e \<and> \<not> (i \<le> fst loc * 15 + snd loc \<and> fst loc * 15 + snd loc < j))"
    by (auto simp: stores_def split: if_splits)
next
  let ?n = "length (slots (arrays t))"
  obtain t' where t': "fm_erase_range T (next_slot (slots (arrays t)) 0) None t = Some t'"
    "length (slots (arrays t')) = ?n" "\<forall>m < ?n. slots (arrays t') ! m = None"
    using fm_erase_range_correct [OF t, of 0 ?n] next_slot_end [of "slots (arrays t)" ?n] by auto
  have "tab_map t' k = None" for k unfolding tab_map_def arr_map_None using t'(2,3) by simp
  then have "tab_map t' = Map.empty" by auto
  then show "\<exists>it t'. table_begin T (arrays t) = Some it \<and> fm_erase_range T it None t = Some t' \<and> tab_map t' = Map.empty"
    using t'(1) table_begin_correct [OF tinvD(1) [OF t]] by blast
qed

text \<open>The table a history builds from a new one.\<close>

lemma history_table:
  assumes "sum_list (map adds ops) < 2 ^ 60" "list_all request_ok ops"
  shows "\<exists>t :: ('g, 'k \<times> 'v) table_core. tinv t \<and> tab_map t = fst (spec_ops d ops Map.empty)"
proof -
  have z: "(0 :: nat) < 2 ^ 64" by simp
  note new = core_new_correct [OF z refl, where 'v = 'v]
  have "ctrl_size (core_new T 0 :: ('g, 'k \<times> 'v) table_core) + sum_list (map adds ops) < 2 ^ 60"
    using assms(1) new(3) by simp
  from run_ops_correct [OF new(1) this assms(2), of d] show ?thesis unfolding new(2) by blast
qed

end

end
