(* ===== verification/Boost_Props.thy ===== *)
theory Boost_Props
  imports Boost_Contracts
begin

text \<open>
  What boost's table promises, for the SSE2 group layout of x86-64, and for histories and everything
  that goes through iterators for all three layouts: histories agree with a finite map, insertion, lookup, erasure, rehashing, copying and
  comparison, iteration, merging; the prober, the 64-bit multiplication and the load bounds.
\<close>

section \<open>A small table\<close>

text \<open>The table a short history builds, for the concrete instances below.\<close>

definition demo_types :: "(bytes_group, u64) foa_types" where
  "demo_types = sse2_types (\<lambda>k. k) False"

definition demo_ops :: "(u64, u64) fm_op list" where
  "demo_ops = [Emplace 1 10, Emplace 2 20, Emplace 2 21, InsertOrAssign 1 11, EraseKey 5]"

lemma demo_runs:
  "sum_list (map adds demo_ops) < 2 ^ 60" "list_all request_ok demo_ops"
  "fst (spec_ops 0 demo_ops Map.empty) = [1 \<mapsto> 11, 2 \<mapsto> 20]"
  by (simp_all add: demo_ops_def spec_op_def fun_eq_iff)

lemma demo_table:
  obtains t :: "(bytes_group, u64 \<times> u64) table_core" where
    "tab_inv bytes_ok bytes_byte bytes_ovf (sse2_types (\<lambda>k. k) False) t"
    "tab_map t = [1 \<mapsto> 11, 2 \<mapsto> 20]" "ctrl_size t = 2"
proof -
  obtain t :: "(bytes_group, u64 \<times> u64) table_core" where
    t: "tab_inv bytes_ok bytes_byte bytes_ovf (sse2_types (\<lambda>k. k) False) t" "tab_map t = [1 \<mapsto> 11, 2 \<mapsto> 20]"
    using sse2_table.history_table [OF demo_runs(1,2), where d = 0] unfolding demo_runs(3) by blast
  then show thesis using that sse2_table.tab_map_card(1) [OF t(1)] by simp
qed

text \<open>The same history on the other two layouts.\<close>

lemma demo_table_neon:
  obtains t :: "(bytes_group, u64 \<times> u64) table_core" where
    "tab_inv bytes_ok bytes_byte bytes_ovf (neon_types (\<lambda>k. k) False) t"
    "tab_map t = [1 \<mapsto> 11, 2 \<mapsto> 20]" "ctrl_size t = 2"
proof -
  obtain t :: "(bytes_group, u64 \<times> u64) table_core" where
    t: "tab_inv bytes_ok bytes_byte bytes_ovf (neon_types (\<lambda>k. k) False) t" "tab_map t = [1 \<mapsto> 11, 2 \<mapsto> 20]"
    using neon_table.history_table [OF demo_runs(1,2), where d = 0] unfolding demo_runs(3) by blast
  then show thesis using that neon_table.tab_map_card(1) [OF t(1)] by simp
qed

lemma demo_table_nosimd:
  obtains t :: "(words_group, u64 \<times> u64) table_core" where
    "tab_inv ns_ok ns_byte ns_ovf (nosimd_types (\<lambda>k. k) False) t"
    "tab_map t = [1 \<mapsto> 11, 2 \<mapsto> 20]" "ctrl_size t = 2"
proof -
  obtain t :: "(words_group, u64 \<times> u64) table_core" where
    t: "tab_inv ns_ok ns_byte ns_ovf (nosimd_types (\<lambda>k. k) False) t" "tab_map t = [1 \<mapsto> 11, 2 \<mapsto> 20]"
    using nosimd_table.history_table [OF demo_runs(1,2), where d = 0] unfolding demo_runs(3) by blast
  then show thesis using that nosimd_table.tab_map_card(1) [OF t(1)] by simp
qed

section \<open>Histories\<close>

text \<open>
  C1. Every sequence of operations on an unordered_flat_map behaves as the same sequence on a
  finite map, returns, and gives the same results whether the metadata groups are the SSE2, the
  NEON or the portable ones: insertions, \<open>insert_or_assign\<close>, \<open>operator[]\<close>, \<open>at\<close> with its
  exception, \<open>count\<close>, erasure by key and by predicate, \<open>clear\<close>, \<open>rehash\<close>, \<open>reserve\<close> and
  \<open>size\<close>, in any order, while fewer than 2^60 elements are inserted.
\<close>

theorem boost_history_correct:
  assumes "sum_list (map adds ops) < 2 ^ 60" "list_all request_ok ops" "n < 2 ^ 60"
  shows "\<exists>t1 t2 t3 rs.
    run_ops (sse2_types h av) d ops (fm_new (sse2_types h av) n) = Some (t1, rs) \<and>
    run_ops (neon_types h av) d ops (fm_new (neon_types h av) n) = Some (t2, rs) \<and>
    run_ops (nosimd_types h av) d ops (fm_new (nosimd_types h av) n) = Some (t3, rs) \<and>
    tab_map t1 = fst (spec_ops d ops Map.empty) \<and> tab_map t2 = tab_map t1 \<and> tab_map t3 = tab_map t1 \<and>
    rs = snd (spec_ops d ops Map.empty)"
proof -
  have n: "n < 2 ^ 64" using assms(3) by simp
  note run = sse2_table.run_ops_correct neon_table.run_ops_correct nosimd_table.run_ops_correct
  note new = sse2_table.core_new_correct [OF n fm_new_def] neon_table.core_new_correct [OF n fm_new_def]
    nosimd_table.core_new_correct [OF n fm_new_def]
  have b: "0 + sum_list (map adds ops) < 2 ^ 60" using assms(1) by simp
  show ?thesis
    using run(1) [OF new(1) _ assms(2), of h av d] run(2) [OF new(5) _ assms(2), of h av d]
      run(3) [OF new(9) _ assms(2), of h av d] b
    unfolding new(2,3,6,7,10,11) by metis
qed

theorem boost_history_correct_witness:
  "\<exists>t rs. run_ops (sse2_types (\<lambda>k. k) False) 0 demo_ops (fm_new (sse2_types (\<lambda>k. k) False) 10) = Some (t, rs) \<and>
     rs = [Flag True, Flag True, Flag False, Flag False, Number 0] \<and> tab_map t 1 = Some 11"
  using boost_history_correct [of demo_ops 10 "\<lambda>k. k" False 0]
  by (auto simp: demo_ops_def spec_op_def)

section \<open>Single operations\<close>

text \<open>
  C6. Inserting returns an iterator to the element with the key and whether it is new; a present
  key keeps its value under \<open>emplace\<close> and takes the new one under \<open>insert_or_assign\<close>; below the
  maximum load no element moves and the capacity stays.
\<close>

theorem boost_insert_correct:
  fixes t :: "(bytes_group, 'k \<times> 'v) table_core"
  assumes "tab_inv bytes_ok bytes_byte bytes_ovf (sse2_types h av) t" "ctrl_size t < 2 ^ 60"
  shows "(\<exists>t' loc. fm_emplace (sse2_types h av) k v t = Some (t', loc, tab_map t k = None) \<and>
      tab_inv bytes_ok bytes_byte bytes_ovf (sse2_types h av) t' \<and>
      tab_map t' = (if tab_map t k = None then (tab_map t)(k \<mapsto> v) else tab_map t) \<and>
      stores (arrays t') loc (k, the (tab_map t' k)) \<and>
      (ctrl_size t < ctrl_ml t \<longrightarrow> capacity (arrays t') = capacity (arrays t) \<and>
        (\<forall>l x. stores (arrays t) l x \<longrightarrow> stores (arrays t') l x))) \<and>
    (\<exists>t' loc. fm_insert_or_assign (sse2_types h av) k v t = Some (t', loc, tab_map t k = None) \<and>
      tab_inv bytes_ok bytes_byte bytes_ovf (sse2_types h av) t' \<and> tab_map t' = (tab_map t)(k \<mapsto> v))"
proof (rule conjI)
  obtain t' loc where t': "fm_emplace (sse2_types h av) k v t = Some (t', loc, tab_map t k = None)"
    "tab_inv bytes_ok bytes_byte bytes_ovf (sse2_types h av) t'"
    "tab_map t' = (if tab_map t k = None then (tab_map t)(k \<mapsto> v) else tab_map t)"
    "stores (arrays t') loc (k, the (tab_map t' k))"
    by (rule sse2_table.fm_emplace_correct [OF assms, of k v])
  with sse2_table.fm_emplace_stable [OF assms(1) _ t'(1)]
  show "\<exists>t' loc. fm_emplace (sse2_types h av) k v t = Some (t', loc, tab_map t k = None) \<and>
      tab_inv bytes_ok bytes_byte bytes_ovf (sse2_types h av) t' \<and>
      tab_map t' = (if tab_map t k = None then (tab_map t)(k \<mapsto> v) else tab_map t) \<and>
      stores (arrays t') loc (k, the (tab_map t' k)) \<and>
      (ctrl_size t < ctrl_ml t \<longrightarrow> capacity (arrays t') = capacity (arrays t) \<and>
        (\<forall>l x. stores (arrays t) l x \<longrightarrow> stores (arrays t') l x))" by blast
next
  show "\<exists>t' loc. fm_insert_or_assign (sse2_types h av) k v t = Some (t', loc, tab_map t k = None) \<and>
      tab_inv bytes_ok bytes_byte bytes_ovf (sse2_types h av) t' \<and> tab_map t' = (tab_map t)(k \<mapsto> v)"
    using sse2_table.fm_insert_or_assign_correct [OF assms, of k v] by blast
qed

theorem boost_insert_correct_witness:
  "\<exists>t t' loc. fm_emplace (sse2_types (\<lambda>k. k) False) (2 :: u64) (99 :: u64) t = Some (t', loc, False) \<and>
    tab_map t' = [1 \<mapsto> 11, 2 \<mapsto> 20]"
proof -
  obtain t :: "(bytes_group, u64 \<times> u64) table_core" where
    t: "tab_inv bytes_ok bytes_byte bytes_ovf (sse2_types (\<lambda>k. k) False) t"
      "tab_map t = [1 \<mapsto> 11, 2 \<mapsto> 20]" "ctrl_size t = 2" by (rule demo_table)
  have b: "ctrl_size t < 2 ^ 60" by (simp add: t(3))
  from boost_insert_correct [OF t(1) b, of 2 99] show ?thesis by (auto simp: t(2))
qed

text \<open>
  C8. Lookup: \<open>find\<close> returns end() exactly for the absent keys and otherwise an iterator to the
  stored element, \<open>at\<close> returns the value or throws \<open>out_of_range\<close>, \<open>equal_range\<close> is the
  element and its successor in the iteration order (\<open>lookup_ok\<close>), in a table of each of the three
  layouts with the increment its iterator has.
\<close>

theorem boost_lookup_correct:
  fixes t1 t2 :: "(bytes_group, 'k \<times> 'v) table_core" and t3 :: "(words_group, 'k \<times> 'v) table_core"
  assumes "tab_inv bytes_ok bytes_byte bytes_ovf (sse2_types h av) t1"
    and "tab_inv bytes_ok bytes_byte bytes_ovf (neon_types h av) t2"
    and "tab_inv ns_ok ns_byte ns_ovf (nosimd_types h av) t3"
  shows "lookup_ok (sse2_types h av) k t1 \<and> lookup_ok (neon_types h av) k t2 \<and> lookup_ok (nosimd_types h av) k t3"
  using sse2_table.lookup_contract [OF assms(1)] neon_table.lookup_contract [OF assms(2)]
    nosimd_table.lookup_contract [OF assms(3)] by blast

theorem boost_lookup_correct_witness:
  "\<exists>(t1 :: (bytes_group, u64 \<times> u64) table_core) (t3 :: (words_group, u64 \<times> u64) table_core).
     ctrl_size t1 = 2 \<and> fm_at (sse2_types (\<lambda>k. k) False) 2 t1 = Inr 20 \<and>
     fm_find (sse2_types (\<lambda>k. k) False) 3 t1 = None \<and>
     ctrl_size t3 = 2 \<and> fm_at (nosimd_types (\<lambda>k. k) False) 2 t3 = Inr 20 \<and>
     fm_find (nosimd_types (\<lambda>k. k) False) 3 t3 = None"
proof -
  obtain t1 :: "(bytes_group, u64 \<times> u64) table_core" where
    t1: "tab_inv bytes_ok bytes_byte bytes_ovf (sse2_types (\<lambda>k. k) False) t1"
      "tab_map t1 = [1 \<mapsto> 11, 2 \<mapsto> 20]" "ctrl_size t1 = 2" by (rule demo_table)
  obtain t2 :: "(bytes_group, u64 \<times> u64) table_core" where
    t2: "tab_inv bytes_ok bytes_byte bytes_ovf (neon_types (\<lambda>k. k) False) t2"
      "tab_map t2 = [1 \<mapsto> 11, 2 \<mapsto> 20]" "ctrl_size t2 = 2" by (rule demo_table_neon)
  obtain t3 :: "(words_group, u64 \<times> u64) table_core" where
    t3: "tab_inv ns_ok ns_byte ns_ovf (nosimd_types (\<lambda>k. k) False) t3"
      "tab_map t3 = [1 \<mapsto> 11, 2 \<mapsto> 20]" "ctrl_size t3 = 2" by (rule demo_table_nosimd)
  from boost_lookup_correct [OF t1(1) t2(1) t3(1), of 2] boost_lookup_correct [OF t1(1) t2(1) t3(1), of 3]
  have "fm_at (sse2_types (\<lambda>k. k) False) 2 t1 = Inr 20" "fm_find (sse2_types (\<lambda>k. k) False) 3 t1 = None"
    "fm_at (nosimd_types (\<lambda>k. k) False) 2 t3 = Inr 20" "fm_find (nosimd_types (\<lambda>k. k) False) 3 t3 = None"
    by (simp_all add: lookup_ok_def t1(2) t3(2) split: option.splits)
  with t1(3) t3(3) show ?thesis by blast
qed

text \<open>
  C7. Erasing a key removes that element only, reports how many it removed, keeps the capacity and
  every other element's place, and lowers the maximum load by at most one without wrapping around;
  erasing through an iterator gives the following one of the new table, and \<open>extract\<close> the element
  (\<open>erase_ok\<close>), in a table of each of the three layouts.
\<close>

theorem boost_erase_correct:
  fixes t1 t2 :: "(bytes_group, 'k \<times> 'v) table_core" and t3 :: "(words_group, 'k \<times> 'v) table_core"
  assumes "tab_inv bytes_ok bytes_byte bytes_ovf (sse2_types h av) t1"
    and "tab_inv bytes_ok bytes_byte bytes_ovf (neon_types h av) t2"
    and "tab_inv ns_ok ns_byte ns_ovf (nosimd_types h av) t3"
  shows "erase_ok (sse2_types h av) (tab_inv bytes_ok bytes_byte bytes_ovf (sse2_types h av)) k t1 \<and>
    erase_ok (neon_types h av) (tab_inv bytes_ok bytes_byte bytes_ovf (neon_types h av)) k t2 \<and>
    erase_ok (nosimd_types h av) (tab_inv ns_ok ns_byte ns_ovf (nosimd_types h av)) k t3"
  using sse2_table.erase_contract [OF assms(1)] neon_table.erase_contract [OF assms(2)]
    nosimd_table.erase_contract [OF assms(3)] by blast

theorem boost_erase_correct_witness:
  "\<exists>t t'. tab_map t = [1 \<mapsto> 11, 2 \<mapsto> 20] \<and>
     fm_erase_key (sse2_types (\<lambda>k. k) False) (2 :: u64) (t :: (bytes_group, u64 \<times> u64) table_core) = (t', 1) \<and>
     tab_map t' = [1 \<mapsto> 11] \<and> ctrl_size t' = 1"
proof -
  obtain t1 :: "(bytes_group, u64 \<times> u64) table_core" where
    t1: "tab_inv bytes_ok bytes_byte bytes_ovf (sse2_types (\<lambda>k. k) False) t1"
      "tab_map t1 = [1 \<mapsto> 11, 2 \<mapsto> 20]" "ctrl_size t1 = 2" by (rule demo_table)
  obtain t2 :: "(bytes_group, u64 \<times> u64) table_core" where
    t2: "tab_inv bytes_ok bytes_byte bytes_ovf (neon_types (\<lambda>k. k) False) t2"
      "tab_map t2 = [1 \<mapsto> 11, 2 \<mapsto> 20]" "ctrl_size t2 = 2" by (rule demo_table_neon)
  obtain t3 :: "(words_group, u64 \<times> u64) table_core" where
    t3: "tab_inv ns_ok ns_byte ns_ovf (nosimd_types (\<lambda>k. k) False) t3"
      "tab_map t3 = [1 \<mapsto> 11, 2 \<mapsto> 20]" "ctrl_size t3 = 2" by (rule demo_table_nosimd)
  obtain t' n where r: "fm_erase_key (sse2_types (\<lambda>k. k) False) 2 t1 = (t', n)" by (metis surj_pair)
  from boost_erase_correct [OF t1(1) t2(1) t3(1), of 2, THEN conjunct1, unfolded erase_ok_def, THEN conjunct1] r
  show ?thesis by (intro exI [of _ t1] exI [of _ t']) (auto simp: t1(2,3) fun_eq_iff)
qed

section \<open>Whole-table operations\<close>

text \<open>
  C20. \<open>rehash\<close> and \<open>reserve\<close> return with the same elements and a capacity of at least the
  request. A call that changes the capacity leaves \<open>max_load()\<close> at the initial maximum load of the
  new arrays, so after \<open>reserve(n)\<close> it is at least n; one that does not is no change at all, and
  \<open>max_load()\<close> is then at least n unless earlier erasures have lowered it. A table constructed for
  \<open>ceil(n/mlf)\<close> accepts n elements; the floating-point maximum load never exceeds the capacity.
\<close>

theorem boost_reserve_correct:
  fixes t :: "(bytes_group, 'k \<times> 'v) table_core"
  assumes t: "tab_inv bytes_ok bytes_byte bytes_ovf (sse2_types h av) t" "ctrl_size t < 2 ^ 60" and n: "n < 2 ^ 60"
  shows "(\<exists>t1 t2. fm_rehash (sse2_types h av) n t = Some t1 \<and> fm_reserve (sse2_types h av) n t = Some t2 \<and>
      tab_inv bytes_ok bytes_byte bytes_ovf (sse2_types h av) t1 \<and>
      tab_inv bytes_ok bytes_byte bytes_ovf (sse2_types h av) t2 \<and>
      tab_map t1 = tab_map t \<and> tab_map t2 = tab_map t \<and> n \<le> fm_bucket_count t1 \<and>
      (if fm_bucket_count t1 = fm_bucket_count t then t1 = t else fm_max_load t1 = initial_max_load (arrays t1)) \<and>
      (if fm_bucket_count t2 = fm_bucket_count t then t2 = t else fm_max_load t2 = initial_max_load (arrays t2)) \<and>
      (fm_bucket_count t2 \<noteq> fm_bucket_count t \<or> fm_max_load t = initial_max_load (arrays t) \<longrightarrow>
        n \<le> fm_max_load t2) \<and>
      n \<le> initial_max_load (arrays t2) \<and> initial_max_load (arrays t2) \<le> fm_bucket_count t2) \<and>
    n \<le> fm_max_load (fm_new (sse2_types h av) (ceil_over_mlf n) :: (bytes_group, 'k \<times> 'v) table_core)"
proof (rule conjI)
  have n63: "n < 2 ^ 63" using n by simp
  obtain t1 where t1: "core_rehash (sse2_types h av) n t = Some t1"
    "tab_inv bytes_ok bytes_byte bytes_ovf (sse2_types h av) t1" "tab_map t1 = tab_map t" "n \<le> capacity (arrays t1)"
    "if capacity (arrays t1) = capacity (arrays t) then t1 = t else ctrl_ml t1 = initial_max_load (arrays t1)"
    using sse2_table.core_rehash_correct [OF t n63] by blast
  obtain t2 where t2: "core_reserve (sse2_types h av) n t = Some t2"
    "tab_inv bytes_ok bytes_byte bytes_ovf (sse2_types h av) t2" "tab_map t2 = tab_map t"
    "n \<le> initial_max_load (arrays t2)"
    "if capacity (arrays t2) = capacity (arrays t) then t2 = t else ctrl_ml t2 = initial_max_load (arrays t2)"
    using sse2_table.core_reserve_correct [OF t n] by blast
  have "initial_max_load (arrays t2) \<le> capacity (arrays t2)"
    using sse2_table.max_load_capacity sse2_table.invD(1) [OF sse2_table.tinvD(1) [OF t2(2)]] by blast
  moreover have "n \<le> ctrl_ml t2" if "capacity (arrays t2) \<noteq> capacity (arrays t) \<or> ctrl_ml t = initial_max_load (arrays t)"
    using t2(4,5) that by (auto split: if_splits)
  ultimately show "\<exists>t1 t2. fm_rehash (sse2_types h av) n t = Some t1 \<and> fm_reserve (sse2_types h av) n t = Some t2 \<and>
      tab_inv bytes_ok bytes_byte bytes_ovf (sse2_types h av) t1 \<and>
      tab_inv bytes_ok bytes_byte bytes_ovf (sse2_types h av) t2 \<and>
      tab_map t1 = tab_map t \<and> tab_map t2 = tab_map t \<and> n \<le> fm_bucket_count t1 \<and>
      (if fm_bucket_count t1 = fm_bucket_count t then t1 = t else fm_max_load t1 = initial_max_load (arrays t1)) \<and>
      (if fm_bucket_count t2 = fm_bucket_count t then t2 = t else fm_max_load t2 = initial_max_load (arrays t2)) \<and>
      (fm_bucket_count t2 \<noteq> fm_bucket_count t \<or> fm_max_load t = initial_max_load (arrays t) \<longrightarrow>
        n \<le> fm_max_load t2) \<and>
      n \<le> initial_max_load (arrays t2) \<and> initial_max_load (arrays t2) \<le> fm_bucket_count t2"
    using t1 t2 unfolding fm_rehash_def fm_reserve_def fm_bucket_count_def fm_max_load_def by blast
next
  show "n \<le> fm_max_load (fm_new (sse2_types h av) (ceil_over_mlf n) :: (bytes_group, 'k \<times> 'v) table_core)"
    unfolding fm_max_load_def by (rule sse2_table.core_new_fits [OF n fm_new_def])
qed

theorem boost_reserve_correct_witness:
  "\<exists>t t2 :: (bytes_group, u64 \<times> u64) table_core. tab_map t = [1 \<mapsto> 11, 2 \<mapsto> 20] \<and>
    fm_reserve (sse2_types (\<lambda>k. k) False) 1000 t = Some t2 \<and> tab_map t2 = tab_map t \<and> 1000 \<le> fm_bucket_count t2 \<and>
    1000 \<le> fm_max_load (fm_new (sse2_types (\<lambda>k :: u64. k) False) (ceil_over_mlf 1000) :: (bytes_group, u64 \<times> u64) table_core)"
proof -
  obtain t :: "(bytes_group, u64 \<times> u64) table_core" where
    t: "tab_inv bytes_ok bytes_byte bytes_ovf (sse2_types (\<lambda>k. k) False) t"
      "tab_map t = [1 \<mapsto> 11, 2 \<mapsto> 20]" "ctrl_size t = 2" by (rule demo_table)
  have "ctrl_size t < 2 ^ 60" "(1000 :: nat) < 2 ^ 60" using t(3) by simp_all
  note R = boost_reserve_correct [OF t(1) this]
  from R [THEN conjunct1] obtain t2 where
    t2: "fm_reserve (sse2_types (\<lambda>k. k) False) 1000 t = Some t2" "tab_map t2 = tab_map t"
    "1000 \<le> initial_max_load (arrays t2)" "initial_max_load (arrays t2) \<le> fm_bucket_count t2" by blast
  from t2(3,4) have "1000 \<le> fm_bucket_count t2" by (rule le_trans)
  with t2 t(2) R [THEN conjunct2] show ?thesis by blast
qed

text \<open>
  C19. Copying: the copy constructor and copy assignment, which either transplant the arrays or
  re-insert every element, return a table that compares equal to the source; equality of tables
  holds exactly when they hold the same map, whatever their capacities and histories. Move
  assignment hands the elements over and leaves a valid empty table behind.
\<close>

theorem boost_copy_correct:
  fixes x t :: "(bytes_group, 'k \<times> 'v) table_core"
  assumes x: "tab_inv bytes_ok bytes_byte bytes_ovf (sse2_types h av) x" "ctrl_size x < 2 ^ 60"
    and t: "tab_inv bytes_ok bytes_byte bytes_ovf (sse2_types h av) t"
  shows "(\<exists>c1 c2. core_copy (sse2_types h av) x = Some c1 \<and> core_copy_assign (sse2_types h av) x t = Some c2 \<and>
      core_eq (sse2_types h av) c1 x \<and> core_eq (sse2_types h av) x c2 \<and>
      tab_map c1 = tab_map x \<and> tab_map c2 = tab_map x) \<and>
    core_eq (sse2_types h av) x t = (tab_map x = tab_map t) \<and>
    (case core_move_assign (sse2_types h av) x t of (m, y) \<Rightarrow>
      core_eq (sse2_types h av) m x \<and> ctrl_size y = 0 \<and> tab_map y = Map.empty \<and>
      tab_inv bytes_ok bytes_byte bytes_ovf (sse2_types h av) y)"
proof (intro conjI)
  obtain c1 where c1: "core_copy (sse2_types h av) x = Some c1"
    "tab_inv bytes_ok bytes_byte bytes_ovf (sse2_types h av) c1" "tab_map c1 = tab_map x"
    using sse2_table.core_copy_correct [OF x] by blast
  obtain c2 where c2: "core_copy_assign (sse2_types h av) x t = Some c2"
    "tab_inv bytes_ok bytes_byte bytes_ovf (sse2_types h av) c2" "tab_map c2 = tab_map x"
    using sse2_table.core_copy_assign_correct [OF t x] by blast
  show "\<exists>c1 c2. core_copy (sse2_types h av) x = Some c1 \<and> core_copy_assign (sse2_types h av) x t = Some c2 \<and>
      core_eq (sse2_types h av) c1 x \<and> core_eq (sse2_types h av) x c2 \<and>
      tab_map c1 = tab_map x \<and> tab_map c2 = tab_map x"
    using c1 c2 sse2_table.core_eq_correct [OF c1(2) x(1)] sse2_table.core_eq_correct [OF x(1) c2(2)] by simp
next
  show "core_eq (sse2_types h av) x t = (tab_map x = tab_map t)" by (rule sse2_table.core_eq_correct [OF x(1) t])
next
  note M = sse2_table.core_move_correct [OF x(1) t]
  show "case core_move_assign (sse2_types h av) x t of (m, y) \<Rightarrow>
      core_eq (sse2_types h av) m x \<and> ctrl_size y = 0 \<and> tab_map y = Map.empty \<and>
      tab_inv bytes_ok bytes_byte bytes_ovf (sse2_types h av) y"
    unfolding case_prod_unfold M(4) sse2_table.core_eq_correct [OF M(2) x(1)]
    using M(3) sse2_table.moved_from_correct by blast
qed

theorem boost_copy_correct_witness:
  "\<exists>x c :: (bytes_group, u64 \<times> u64) table_core. tab_map x = [1 \<mapsto> 11, 2 \<mapsto> 20] \<and>
    core_copy (sse2_types (\<lambda>k. k) False) x = Some c \<and> core_eq (sse2_types (\<lambda>k. k) False) c x"
proof -
  obtain t :: "(bytes_group, u64 \<times> u64) table_core" where
    t: "tab_inv bytes_ok bytes_byte bytes_ovf (sse2_types (\<lambda>k. k) False) t"
      "tab_map t = [1 \<mapsto> 11, 2 \<mapsto> 20]" "ctrl_size t = 2" by (rule demo_table)
  have "ctrl_size t < 2 ^ 60" using t(3) by simp
  from boost_copy_correct [OF t(1) this t(1)] t(2) show ?thesis by blast
qed

text \<open>
  C18. A range-for over the table visits every element exactly once and ends (\<open>visits_each\<close>), in
  a table of SSE2 and of NEON groups with the increment of the regular layout, and in one of the
  portable groups with that of the interleaved layout.
\<close>

theorem boost_iteration_correct:
  fixes t1 t2 :: "(bytes_group, 'k \<times> 'v) table_core" and t3 :: "(words_group, 'k \<times> 'v) table_core"
  assumes "tab_inv bytes_ok bytes_byte bytes_ovf (sse2_types h av) t1"
    and "tab_inv bytes_ok bytes_byte bytes_ovf (neon_types h av) t2"
    and "tab_inv ns_ok ns_byte ns_ovf (nosimd_types h av) t3"
  shows "visits_each (sse2_types h av) t1 \<and> visits_each (neon_types h av) t2 \<and> visits_each (nosimd_types h av) t3"
  using sse2_table.iteration_contract [OF assms(1)] neon_table.iteration_contract [OF assms(2)]
    nosimd_table.iteration_contract [OF assms(3)] by blast

theorem boost_iteration_correct_witness:
  "\<exists>(t1 :: (bytes_group, u64 \<times> u64) table_core) locs1 (t2 :: (bytes_group, u64 \<times> u64) table_core) locs2
     (t3 :: (words_group, u64 \<times> u64) table_core) locs3.
    visit_all (sse2_types (\<lambda>k. k) False) (arrays t1) = Some locs1 \<and> length locs1 = 2 \<and>
    map_of (map (element_at (arrays t1)) locs1) = [1 \<mapsto> 11, 2 \<mapsto> 20] \<and>
    visit_all (neon_types (\<lambda>k. k) False) (arrays t2) = Some locs2 \<and> length locs2 = 2 \<and>
    map_of (map (element_at (arrays t2)) locs2) = [1 \<mapsto> 11, 2 \<mapsto> 20] \<and>
    visit_all (nosimd_types (\<lambda>k. k) False) (arrays t3) = Some locs3 \<and> length locs3 = 2 \<and>
    map_of (map (element_at (arrays t3)) locs3) = [1 \<mapsto> 11, 2 \<mapsto> 20]"
proof -
  obtain t1 :: "(bytes_group, u64 \<times> u64) table_core" where
    t1: "tab_inv bytes_ok bytes_byte bytes_ovf (sse2_types (\<lambda>k. k) False) t1"
      "tab_map t1 = [1 \<mapsto> 11, 2 \<mapsto> 20]" "ctrl_size t1 = 2" by (rule demo_table)
  obtain t2 :: "(bytes_group, u64 \<times> u64) table_core" where
    t2: "tab_inv bytes_ok bytes_byte bytes_ovf (neon_types (\<lambda>k. k) False) t2"
      "tab_map t2 = [1 \<mapsto> 11, 2 \<mapsto> 20]" "ctrl_size t2 = 2" by (rule demo_table_neon)
  obtain t3 :: "(words_group, u64 \<times> u64) table_core" where
    t3: "tab_inv ns_ok ns_byte ns_ovf (nosimd_types (\<lambda>k. k) False) t3"
      "tab_map t3 = [1 \<mapsto> 11, 2 \<mapsto> 20]" "ctrl_size t3 = 2" by (rule demo_table_nosimd)
  note V = boost_iteration_correct [OF t1(1) t2(1) t3(1), unfolded visits_each_def]
  from V [THEN conjunct1] V [THEN conjunct2, THEN conjunct1] V [THEN conjunct2, THEN conjunct2]
  obtain locs1 locs2 locs3 where
    "visit_all (sse2_types (\<lambda>k. k) False) (arrays t1) = Some locs1" "length locs1 = ctrl_size t1"
    "map_of (map (element_at (arrays t1)) locs1) = tab_map t1"
    "visit_all (neon_types (\<lambda>k. k) False) (arrays t2) = Some locs2" "length locs2 = ctrl_size t2"
    "map_of (map (element_at (arrays t2)) locs2) = tab_map t2"
    "visit_all (nosimd_types (\<lambda>k. k) False) (arrays t3) = Some locs3" "length locs3 = ctrl_size t3"
    "map_of (map (element_at (arrays t3)) locs3) = tab_map t3" by blast
  then show ?thesis unfolding t1(2,3) t2(2,3) t3(2,3) by blast
qed

text \<open>
  C21. Erasing the range between two iterators ends and removes exactly the elements between them
  in the iteration order, although the table changes under the iterator; the range from
  \<open>begin()\<close> to \<open>end()\<close> leaves it empty (\<open>erase_range_ok\<close>), in a table of each of the three layouts.
\<close>

theorem boost_erase_range_correct:
  fixes t1 t2 :: "(bytes_group, 'k \<times> 'v) table_core" and t3 :: "(words_group, 'k \<times> 'v) table_core"
  assumes "tab_inv bytes_ok bytes_byte bytes_ovf (sse2_types h av) t1"
    and "tab_inv bytes_ok bytes_byte bytes_ovf (neon_types h av) t2"
    and "tab_inv ns_ok ns_byte ns_ovf (nosimd_types h av) t3"
    and "i \<le> j"
  shows "erase_range_ok (sse2_types h av) (tab_inv bytes_ok bytes_byte bytes_ovf (sse2_types h av)) i j t1 \<and>
    erase_range_ok (neon_types h av) (tab_inv bytes_ok bytes_byte bytes_ovf (neon_types h av)) i j t2 \<and>
    erase_range_ok (nosimd_types h av) (tab_inv ns_ok ns_byte ns_ovf (nosimd_types h av)) i j t3"
  using sse2_table.erase_range_contract [OF assms(1,4)] neon_table.erase_range_contract [OF assms(2,4)]
    nosimd_table.erase_range_contract [OF assms(3,4)] by blast

theorem boost_erase_range_correct_witness:
  "\<exists>(t :: (bytes_group, u64 \<times> u64) table_core) t' it (u :: (words_group, u64 \<times> u64) table_core) u' it'.
    tab_map t = [1 \<mapsto> 11, 2 \<mapsto> 20] \<and> table_begin (sse2_types (\<lambda>k. k) False) (arrays t) = Some it \<and>
    fm_erase_range (sse2_types (\<lambda>k. k) False) it None t = Some t' \<and> tab_map t' = Map.empty \<and>
    tab_map u = [1 \<mapsto> 11, 2 \<mapsto> 20] \<and> table_begin (nosimd_types (\<lambda>k. k) False) (arrays u) = Some it' \<and>
    fm_erase_range (nosimd_types (\<lambda>k. k) False) it' None u = Some u' \<and> tab_map u' = Map.empty"
proof -
  obtain t1 :: "(bytes_group, u64 \<times> u64) table_core" where
    t1: "tab_inv bytes_ok bytes_byte bytes_ovf (sse2_types (\<lambda>k. k) False) t1"
      "tab_map t1 = [1 \<mapsto> 11, 2 \<mapsto> 20]" "ctrl_size t1 = 2" by (rule demo_table)
  obtain t2 :: "(bytes_group, u64 \<times> u64) table_core" where
    t2: "tab_inv bytes_ok bytes_byte bytes_ovf (neon_types (\<lambda>k. k) False) t2"
      "tab_map t2 = [1 \<mapsto> 11, 2 \<mapsto> 20]" "ctrl_size t2 = 2" by (rule demo_table_neon)
  obtain t3 :: "(words_group, u64 \<times> u64) table_core" where
    t3: "tab_inv ns_ok ns_byte ns_ovf (nosimd_types (\<lambda>k. k) False) t3"
      "tab_map t3 = [1 \<mapsto> 11, 2 \<mapsto> 20]" "ctrl_size t3 = 2" by (rule demo_table_nosimd)
  note R = boost_erase_range_correct [OF t1(1) t2(1) t3(1) order.refl, unfolded erase_range_ok_def]
  from R [THEN conjunct1] R [THEN conjunct2, THEN conjunct2] t1(2) t3(2) show ?thesis by blast
qed

text \<open>
  C28. Merging moves every element whose key the target lacks and leaves the others in the source;
  no element is lost or duplicated.
\<close>

theorem boost_merge_correct:
  fixes t x :: "(bytes_group, 'k \<times> 'v) table_core"
  assumes "tab_inv bytes_ok bytes_byte bytes_ovf (sse2_types h av) t"
    and "tab_inv bytes_ok bytes_byte bytes_ovf (sse2_types h av) x" and "ctrl_size t + ctrl_size x < 2 ^ 60"
  shows "\<exists>t' x'. table_merge (sse2_types h av) t x = Some (t', x') \<and>
    tab_map t' = tab_map x ++ tab_map t \<and>
    tab_map x' = (\<lambda>k. if tab_map t k = None then None else tab_map x k) \<and>
    ctrl_size t' + ctrl_size x' = ctrl_size t + ctrl_size x"
  using sse2_table.table_merge_correct [OF assms] by blast

theorem boost_merge_correct_witness:
  "\<exists>t t' x' :: (bytes_group, u64 \<times> u64) table_core. tab_map t = [1 \<mapsto> 11, 2 \<mapsto> 20] \<and>
    table_merge (sse2_types (\<lambda>k. k) False) (fm_new (sse2_types (\<lambda>k. k) False) 0) t = Some (t', x') \<and>
    tab_map t' = tab_map t \<and> tab_map x' = Map.empty"
proof -
  obtain t :: "(bytes_group, u64 \<times> u64) table_core" where
    t: "tab_inv bytes_ok bytes_byte bytes_ovf (sse2_types (\<lambda>k. k) False) t"
      "tab_map t = [1 \<mapsto> 11, 2 \<mapsto> 20]" "ctrl_size t = 2" by (rule demo_table)
  let ?n = "fm_new (sse2_types (\<lambda>k. k) False) 0 :: (bytes_group, u64 \<times> u64) table_core"
  have z: "(0 :: nat) < 2 ^ 64" by simp
  note new = sse2_table.core_new_correct [OF z fm_new_def, where h = "\<lambda>k :: u64. k" and av = False and 'v = u64]
  have "ctrl_size ?n + ctrl_size t < 2 ^ 60" using t(3) new(3) by simp
  from boost_merge_correct [OF new(1) t(1) this] obtain t' x' where
    "table_merge (sse2_types (\<lambda>k. k) False) ?n t = Some (t', x')"
    "tab_map t' = tab_map t" "tab_map x' = Map.empty" unfolding new(2) by (auto simp: fun_eq_iff)
  with t(2) show ?thesis by blast
qed

section \<open>The prober\<close>

text \<open>
  C29. The quadratic prober, started anywhere in an array of \<open>2^e\<close> groups, visits every group
  exactly once in \<open>2^e\<close> steps, and \<open>next\<close> says so: it is true before the last one and false
  after it. Lookups therefore end and a free slot is always found.
\<close>

theorem prober_visits_every_group:
  assumes "p < 2 ^ e"
  shows "bij_betw (\<lambda>j. ppos (((fst \<circ> prober_next (2 ^ e - 1)) ^^ j) (prober_start p))) {..<2 ^ e} {..<2 ^ e} \<and>
    (\<forall>j < 2 ^ e. snd (prober_next (2 ^ e - 1) (((fst \<circ> prober_next (2 ^ e - 1)) ^^ j) (prober_start p))) =
      (j + 1 < 2 ^ e))"
proof -
  have at: "((fst \<circ> prober_next (2 ^ e - 1)) ^^ j) (prober_start p) = prober_at (2 ^ e - 1) p j" for j
    by (induction j) (simp_all add: prober_start_at [of _ "2 ^ e - 1"] prober_next_at)
  have "inj_on (probe_seq (2 ^ e - Suc 0) p) {..<2 ^ e}"
    using probe_seq_inj [OF assms] by (auto simp: inj_on_def)
  then have "bij_betw (\<lambda>j. ppos (prober_at (2 ^ e - 1) p j)) {..<2 ^ e} {..<2 ^ e}"
    using probe_seq_image [OF assms] by (simp add: bij_betw_def)
  moreover have "snd (prober_next (2 ^ e - 1) (prober_at (2 ^ e - 1) p j)) = (j + 1 < 2 ^ e)" for j
    by (simp add: prober_next_at Suc_le_eq less_diff_conv le_diff_conv2)
  ultimately show ?thesis unfolding at by simp
qed

theorem prober_visits_every_group_witness:
  "(\<lambda>j. ppos (((fst \<circ> prober_next 7) ^^ j) (prober_start 5))) ` {..<8} = {..<8}"
  using prober_visits_every_group [of 5 3] by (simp add: bij_betw_def)

end
