(* ===== verification/Base.thy ===== *)
theory Base
  imports Prelude
begin

text \<open>
  The helpers of \<^verbatim>\<open>src/base.hpp\<close>: the cache-line constant, the size
  rounding of \<open>__aligned_alloc\<close> and the integer hash \<open>squirrel3\<close> that the
  two-way table uses. The hints (\<open>prefetch\<close>) and \<open>std::free\<close> have no
  effect on a value the program computes.
\<close>

section \<open>Definitions\<close>

definition CACHE_LINE :: "bool \<Rightarrow> u64" where
  "CACHE_LINE apple = (if apple then 128 else 64)"

text \<open>The byte count handed to the system allocator; \<open>size_t\<close> arithmetic wraps.\<close>

definition aligned_size :: "u64 \<Rightarrow> u64 \<Rightarrow> u64" where
  "aligned_size alignment sz = (sz + alignment - 1) AND NOT (alignment - 1)"

text \<open>
  \<open>__aligned_alloc\<close>: \<open>None\<close> is the null pointer. The system allocator is a
  parameter: \<open>sys_alloc n\<close> tells whether a request for \<open>n\<close> bytes succeeds;
  a successful request yields that many bytes.
\<close>

definition aligned_alloc :: "(nat \<Rightarrow> bool) \<Rightarrow> u64 \<Rightarrow> u64 \<Rightarrow> nat option" where
  "aligned_alloc sys_alloc alignment sz =
     (let n = unat (aligned_size alignment sz) in if sys_alloc n then Some n else None)"

definition squirrel3 :: "u64 \<Rightarrow> u64" where
  "squirrel3 at0 =
     (let BIT_NOISE1 = 0x9E3779B185EBCA87;
          BIT_NOISE2 = 0xC2B2AE3D27D4EB4F;
          BIT_NOISE3 = 0x27D4EB2F165667C5;
          at = at0 * BIT_NOISE1;
          at = at XOR drop_bit 8 at;
          at = at + BIT_NOISE2;
          at = at XOR push_bit 8 at;
          at = at * BIT_NOISE3;
          at = at XOR drop_bit 8 at
      in at)"

section \<open>The hash loses nothing\<close>

lemma squirrel3_eq_iff: "squirrel3 x = squirrel3 y \<longleftrightarrow> x = y"
proof -
  have u1: "(0x887493432badb37::u64) * 0x9E3779B185EBCA87 = 1" by simp
  have u3: "(0xc592c09fdfba7f0d::u64) * 0x27D4EB2F165667C5 = 1" by simp
  show ?thesis
    unfolding squirrel3_def Let_def
    by (simp only: inj_xor_drop_bit inj_xor_push_bit inj_mult_unit [OF u1] inj_mult_unit [OF u3]
        add_right_cancel zero_less_numeral)
qed

text \<open>
  The hash \<open>squirrel3\<close> is a bijection on 64-bit values: distinct keys always have
  distinct hashes, so two 64-bit keys never collide before the hash is masked to a slot.
\<close>

theorem squirrel3_bij: "bij squirrel3"
proof -
  have "inj squirrel3" by (simp add: inj_def squirrel3_eq_iff)
  then show ?thesis by (simp add: bij_def finite_UNIV_inj_surj)
qed

section \<open>Rounding a size up to the alignment\<close>

lemma and_not_low_mask:
  fixes x :: "'a::len word"
  shows "unat (x AND NOT (2 ^ k - 1)) = (unat x div 2 ^ k) * 2 ^ k"
proof -
  have "x AND NOT (2 ^ k - 1) = x AND NOT (mask k)" by (simp add: mask_eq_exp_minus_1)
  also have "\<dots> = push_bit k (drop_bit k x)"
    by (rule bit_word_eqI) (auto simp: bit_facts bit_mask_iff)
  finally have e: "x AND NOT (2 ^ k - 1) = push_bit k (drop_bit k x)" .
  have "unat (push_bit k (drop_bit k x)) = take_bit LENGTH('a) (push_bit k (unat (drop_bit k x)))"
    by (rule unsigned_push_bit_eq)
  also have "\<dots> = (unat x div 2 ^ k) * 2 ^ k mod 2 ^ LENGTH('a)"
    by (simp only: unat_drop_bit take_bit_eq_mod push_bit_eq_mult)
  also have "\<dots> = (unat x div 2 ^ k) * 2 ^ k"
  proof (rule mod_less)
    have "(unat x div 2 ^ k) * 2 ^ k \<le> unat x" by (rule div_times_less_eq_dividend)
    also have "\<dots> < 2 ^ LENGTH('a)" by (rule unsigned_less)
    finally show "(unat x div 2 ^ k) * 2 ^ k < 2 ^ LENGTH('a)" .
  qed
  finally show ?thesis by (simp only: e)
qed

lemma aligned_size_unat:
  assumes k: "k < 64"
  shows "unat (aligned_size (2 ^ k) sz) =
    ((unat sz + (2 ^ k - 1)) mod 2 ^ 64) div 2 ^ k * 2 ^ k"
proof -
  have p: "unat ((2::u64) ^ k - 1) = 2 ^ k - 1" using k by (simp add: unat_low_mask)
  have sum: "unat (sz + (2 ^ k - 1)) = (unat sz + (2 ^ k - 1)) mod 2 ^ 64"
    by (simp add: unat_word_ariths p)
  have reassoc: "sz + 2 ^ k - 1 = sz + (2 ^ k - 1)" by simp
  show ?thesis
    unfolding aligned_size_def and_not_low_mask reassoc sum ..
qed

text \<open>
  The size \<open>__aligned_alloc\<close> asks for, for every power-of-two alignment: a multiple
  of the alignment, not below the requested size and less than one alignment above it, as
  long as the sum does not pass \<open>2^64\<close>; past it the request wraps to 0 bytes.
\<close>

theorem aligned_size_spec:
  assumes k: "k < 64"
  shows "2 ^ k dvd unat (aligned_size (2 ^ k) sz) \<and>
    (if unat sz + (2 ^ k - 1) < 2 ^ 64
     then unat sz \<le> unat (aligned_size (2 ^ k) sz) \<and>
          unat (aligned_size (2 ^ k) sz) < unat sz + 2 ^ k
     else aligned_size (2 ^ k) sz = 0)"
proof (cases "unat sz + (2 ^ k - 1) < 2 ^ 64")
  case True
  then have "unat (aligned_size (2 ^ k) sz) = (unat sz + (2 ^ k - 1)) div 2 ^ k * 2 ^ k"
    by (simp only: aligned_size_unat [OF k] mod_less)
  with True round_up_bounds [of "2 ^ k" "unat sz"] show ?thesis by (simp only:) simp
next
  case False
  have "(unat sz + (2 ^ k - 1)) mod 2 ^ 64 div 2 ^ k = 0"
    using False k pow2_less_64 [OF k] unsigned_less [of sz] by (intro round_up_wraps) simp_all
  then have "unat (aligned_size (2 ^ k) sz) = 0" by (simp only: aligned_size_unat [OF k] mult_0)
  then have "aligned_size (2 ^ k) sz = 0" by (simp only: unsigned_eq_0_iff)
  with False show ?thesis by (simp only: if_False unsigned_0 dvd_0_right simp_thms)
qed

theorem aligned_size_spec_witness:
  "(6::nat) < 64 \<and> (64::nat) \<le> unat (aligned_size (2 ^ 6) 65)"
  using aligned_size_spec [of 6 65] by simp

end
