(* ===== verification/TwoWay.thy ===== *)
theory TwoWay
  imports Base
begin

text \<open>
  The two-choice bucketed hash table of \<^verbatim>\<open>src/TwoWay.hpp\<close>: the
  \<open>TableTrait\<close> parameters, the memory layout (an array of slots, each with
  \<open>BUCKET\<close> keys and \<open>BUCKET\<close> values), and every operation with the branches
  the code has. What the code does outside its preconditions is an error value: a read past
  a bucket or past the slot array is \<open>OutOfBounds\<close>, a value read before it was written
  is \<open>Uninitialised\<close>, a failed allocation (the null pointer is dereferenced by
  \<open>fill_empty\<close>) is \<open>OutOfMemory\<close>. The recursion between \<open>insert\<close> and
  \<open>grow\<close> takes fuel; \<open>OutOfFuel\<close> is its exhaustion, and 64 units are proved
  enough.
\<close>

section \<open>Template parameters and state\<close>

text \<open>
  \<open>TableTrait\<close> with the constants derived from it: the order of \<open>Key\<close> (\<open><\<close> is
  signed or unsigned with the key type), \<open>EMPTY = numeric_limits<Key>::max()\<close>, the
  hash, \<open>BUCKET\<close>, \<open>sizeof(Slot)\<close>, the cache line and the system allocator.
\<close>

record 'k table_trait =
  key_lt :: "'k \<Rightarrow> 'k \<Rightarrow> bool"
  EMPTY :: 'k
  trait_hash :: "'k \<Rightarrow> u64"
  BUCKET :: nat
  sizeof_slot :: nat
  cache_line :: u64
  sys_alloc :: "nat \<Rightarrow> bool"

record ('k, 'v) slot =
  slot_keys :: "'k list"
  slot_values :: "'v option list"

record ('k, 'v) two_way =
  data :: "('k, 'v) slot list"
  capacity :: u64
  tsize :: u64

datatype tw_error = OutOfFuel | OutOfMemory | OutOfBounds | Uninitialised

section \<open>Allocation\<close>

definition fill_empty :: "'k table_trait \<Rightarrow> ('k, 'v) slot list \<Rightarrow> ('k, 'v) slot list" where
  "fill_empty T slots = map (\<lambda>s. s\<lparr>slot_keys := replicate (BUCKET T) (EMPTY T)\<rparr>) slots"

text \<open>Fresh memory: the keys are written by \<open>fill_empty\<close> next, the values are not.\<close>

definition raw_slot :: "'k table_trait \<Rightarrow> ('k, 'v) slot" where
  "raw_slot T = \<lparr>slot_keys = [], slot_values = replicate (BUCKET T) None\<rparr>"

text \<open>
  \<open>data = aligned_alloc(CACHE_LINE, sizeof(Slot) * capacity); fill_empty(data, capacity)\<close>.
  The product is a \<open>size_t\<close>; a block smaller than the slots it should hold makes
  \<open>fill_empty\<close> write past it.
\<close>

definition alloc_slots :: "'k table_trait \<Rightarrow> u64 \<Rightarrow> tw_error + ('k, 'v) slot list" where
  "alloc_slots T cap =
     (case aligned_alloc (sys_alloc T) (cache_line T) (of_nat (sizeof_slot T) * cap) of
        None \<Rightarrow> Inl OutOfMemory
      | Some n \<Rightarrow> if n < sizeof_slot T * unat cap then Inl OutOfBounds
                 else Inr (fill_empty T (replicate (unat cap) (raw_slot T))))"

text \<open>The constructor.\<close>

definition tw_new :: "'k table_trait \<Rightarrow> tw_error + ('k, 'v) two_way" where
  "tw_new T = (case alloc_slots T 8 of
     Inl e \<Rightarrow> Inl e
   | Inr d \<Rightarrow> Inr \<lparr>data = d, capacity = 8, tsize = 0\<rparr>)"

section \<open>The two candidate slots of a key\<close>

definition index_1 :: "u64 \<Rightarrow> u64 \<Rightarrow> u64" where
  "index_1 hash cap = hash AND (cap - 1)"

definition index_2 :: "u64 \<Rightarrow> u64 \<Rightarrow> u64" where
  "index_2 hash cap = drop_bit 32 hash AND (cap - 1)"

text \<open>\<open>&data[index]\<close>, read through: past the array it is an error.\<close>

definition slot_at :: "('k, 'v) two_way \<Rightarrow> u64 \<Rightarrow> tw_error + ('k, 'v) slot" where
  "slot_at t i = (if unat i < length (data t) then Inr (data t ! unat i) else Inl OutOfBounds)"

definition candidates :: "('k, 'v) two_way \<Rightarrow> u64 \<Rightarrow> tw_error + ('k, 'v) slot \<times> ('k, 'v) slot" where
  "candidates t hash =
     (case slot_at t (index_1 hash (capacity t)) of
        Inl e \<Rightarrow> Inl e
      | Inr s1 \<Rightarrow>
          (case slot_at t (index_2 hash (capacity t)) of
             Inl e \<Rightarrow> Inl e
           | Inr s2 \<Rightarrow> Inr (s1, s2)))"

section \<open>insert and grow\<close>

text \<open>\<open>while (slot->keys[n] < EMPTY && ++n < BUCKET);\<close>\<close>

function count_used :: "'k table_trait \<Rightarrow> 'k list \<Rightarrow> nat \<Rightarrow> nat" where
  "count_used T ks n =
     (if key_lt T (ks ! n) (EMPTY T)
      then if Suc n < BUCKET T then count_used T ks (Suc n) else Suc n
      else n)"
  by pat_completeness auto
termination
  by (relation "measure (\<lambda>(T, ks, n). BUCKET T - n)") auto

definition put_slot :: "('k, 'v) slot \<Rightarrow> nat \<Rightarrow> 'k \<Rightarrow> 'v \<Rightarrow> ('k, 'v) slot" where
  "put_slot s n key val =
     s\<lparr>slot_keys := (slot_keys s)[n := key], slot_values := (slot_values s)[n := Some val]\<rparr>"

text \<open>
  The inner loop of \<open>grow\<close>: \<open>for (j = 0; j < BUCKET && slot->keys[j] != EMPTY; j++)
  insert(slot->keys[j], slot->values[j]);\<close> with \<open>insert\<close> as an argument.
\<close>

function reinsert_slot ::
  "('k \<Rightarrow> 'v \<Rightarrow> ('k, 'v) two_way \<Rightarrow> tw_error + ('k, 'v) two_way) \<Rightarrow> 'k table_trait \<Rightarrow>
   ('k, 'v) slot \<Rightarrow> nat \<Rightarrow> ('k, 'v) two_way \<Rightarrow> tw_error + ('k, 'v) two_way" where
  "reinsert_slot ins T s j t =
     (if j < BUCKET T \<and> slot_keys s ! j \<noteq> EMPTY T
      then case slot_values s ! j of
             None \<Rightarrow> Inl Uninitialised
           | Some v \<Rightarrow>
               (case ins (slot_keys s ! j) v t of
                  Inl e \<Rightarrow> Inl e
                | Inr t' \<Rightarrow> reinsert_slot ins T s (Suc j) t')
      else Inr t)"
  by pat_completeness auto
termination
  by (relation "measure (\<lambda>(ins, T, s, j, t). BUCKET T - j)") auto

text \<open>The outer loop, over the slots of the old array.\<close>

fun reinsert_all ::
  "('k \<Rightarrow> 'v \<Rightarrow> ('k, 'v) two_way \<Rightarrow> tw_error + ('k, 'v) two_way) \<Rightarrow> 'k table_trait \<Rightarrow>
   ('k, 'v) slot list \<Rightarrow> ('k, 'v) two_way \<Rightarrow> tw_error + ('k, 'v) two_way" where
  "reinsert_all ins T [] t = Inr t"
| "reinsert_all ins T (s # ss) t =
     (case reinsert_slot ins T s 0 t of
        Inl e \<Rightarrow> Inl e
      | Inr t' \<Rightarrow> reinsert_all ins T ss t')"

definition grow_with ::
  "('k \<Rightarrow> 'v \<Rightarrow> ('k, 'v) two_way \<Rightarrow> tw_error + ('k, 'v) two_way) \<Rightarrow> 'k table_trait \<Rightarrow>
   ('k, 'v) two_way \<Rightarrow> tw_error + ('k, 'v) two_way" where
  "grow_with ins T t =
     (let old_data = data t; cap = capacity t * 2
      in case alloc_slots T cap of
           Inl e \<Rightarrow> Inl e
         | Inr d \<Rightarrow> reinsert_all ins T old_data \<lparr>data = d, capacity = cap, tsize = 0\<rparr>)"

fun tw_insert ::
  "nat \<Rightarrow> 'k table_trait \<Rightarrow> 'k \<Rightarrow> 'v \<Rightarrow> ('k, 'v) two_way \<Rightarrow> tw_error + ('k, 'v) two_way" where
  "tw_insert fuel T key val t =
     (let hash = trait_hash T key;
          i1 = index_1 hash (capacity t);
          i2 = index_2 hash (capacity t)
      in case candidates t hash of
           Inl e \<Rightarrow> Inl e
         | Inr (s1, s2) \<Rightarrow>
             (let n1 = count_used T (slot_keys s1) 0;
                  n2 = count_used T (slot_keys s2) 0
              in if n1 = BUCKET T \<and> n2 = BUCKET T
                 then (case fuel of
                         0 \<Rightarrow> Inl OutOfFuel
                       | Suc f \<Rightarrow>
                           (case grow_with (tw_insert f T) T t of
                              Inl e \<Rightarrow> Inl e
                            | Inr t' \<Rightarrow> tw_insert f T key val t'))
                 else if n1 \<le> n2
                 then Inr (t\<lparr>data := (data t)[unat i1 := put_slot s1 n1 key val],
                             tsize := tsize t + 1\<rparr>)
                 else Inr (t\<lparr>data := (data t)[unat i2 := put_slot s2 n2 key val],
                             tsize := tsize t + 1\<rparr>)))"

declare tw_insert.simps [simp del] count_used.simps [simp del] reinsert_slot.simps [simp del]

definition tw_grow ::
  "nat \<Rightarrow> 'k table_trait \<Rightarrow> ('k, 'v) two_way \<Rightarrow> tw_error + ('k, 'v) two_way" where
  "tw_grow fuel T t = grow_with (tw_insert fuel T) T t"

section \<open>Lookups\<close>

text \<open>
  The loop of \<open>find\<close> and \<open>find_indexed\<close>: the two buckets are read in turn with no
  bound on \<open>i\<close>; at \<open>i = BUCKET\<close> the read leaves the key array.
\<close>

function find_loop ::
  "'k table_trait \<Rightarrow> ('k, 'v) slot \<Rightarrow> ('k, 'v) slot \<Rightarrow> 'k \<Rightarrow> nat \<Rightarrow> u64 \<Rightarrow> tw_error + 'v \<times> u64" where
  "find_loop T s1 s2 key i steps =
     (if BUCKET T \<le> i then Inl OutOfBounds
      else if slot_keys s1 ! i = key
      then (case slot_values s1 ! i of None \<Rightarrow> Inl Uninitialised | Some v \<Rightarrow> Inr (v, steps))
      else if slot_keys s2 ! i = key
      then (case slot_values s2 ! i of None \<Rightarrow> Inl Uninitialised | Some v \<Rightarrow> Inr (v, steps + 1))
      else find_loop T s1 s2 key (Suc i) (steps + 1 + 1))"
  by pat_completeness auto
termination
  by (relation "measure (\<lambda>(T, s1, s2, key, i, steps). BUCKET T - i)") auto

definition index_for :: "'k table_trait \<Rightarrow> 'k \<Rightarrow> u64" where
  "index_for T key = trait_hash T key"

definition tw_find_indexed ::
  "'k table_trait \<Rightarrow> ('k, 'v) two_way \<Rightarrow> 'k \<Rightarrow> u64 \<Rightarrow> u64 \<Rightarrow> tw_error + 'v \<times> u64" where
  "tw_find_indexed T t key hash steps =
     (case candidates t hash of
        Inl e \<Rightarrow> Inl e
      | Inr (s1, s2) \<Rightarrow> find_loop T s1 s2 key 0 steps)"

definition tw_find ::
  "'k table_trait \<Rightarrow> ('k, 'v) two_way \<Rightarrow> 'k \<Rightarrow> u64 \<Rightarrow> tw_error + 'v \<times> u64" where
  "tw_find T t key steps =
     (let hash = trait_hash T key
      in case candidates t hash of
           Inl e \<Rightarrow> Inl e
         | Inr (s1, s2) \<Rightarrow> find_loop T s1 s2 key 0 steps)"

function contains_loop ::
  "'k table_trait \<Rightarrow> ('k, 'v) slot \<Rightarrow> ('k, 'v) slot \<Rightarrow> 'k \<Rightarrow> nat \<Rightarrow> u64 \<Rightarrow> bool \<times> u64" where
  "contains_loop T s1 s2 key i steps =
     (if i < BUCKET T \<and> (slot_keys s1 ! i \<noteq> EMPTY T \<or> slot_keys s2 ! i \<noteq> EMPTY T)
      then if slot_keys s1 ! i = key then (True, steps)
           else if slot_keys s2 ! i = key then (True, steps + 1)
           else contains_loop T s1 s2 key (Suc i) (steps + 1 + 1)
      else (False, steps))"
  by pat_completeness auto
termination
  by (relation "measure (\<lambda>(T, s1, s2, key, i, steps). BUCKET T - i)") auto

definition tw_contains ::
  "'k table_trait \<Rightarrow> ('k, 'v) two_way \<Rightarrow> 'k \<Rightarrow> u64 \<Rightarrow> tw_error + bool \<times> u64" where
  "tw_contains T t key steps =
     (case candidates t (trait_hash T key) of
        Inl e \<Rightarrow> Inl e
      | Inr (s1, s2) \<Rightarrow> Inr (contains_loop T s1 s2 key 0 steps))"

section \<open>erase, clear and the observers\<close>

text \<open>\<open>for (j = i; j < BUCKET - 1; j++) { keys[j] = keys[j+1]; values[j] = values[j+1]; }\<close>\<close>

function shift_down :: "'k table_trait \<Rightarrow> ('k, 'v) slot \<Rightarrow> nat \<Rightarrow> ('k, 'v) slot" where
  "shift_down T s j =
     (if j < BUCKET T - 1
      then shift_down T
        (s\<lparr>slot_keys := (slot_keys s)[j := slot_keys s ! Suc j],
           slot_values := (slot_values s)[j := slot_values s ! Suc j]\<rparr>) (Suc j)
      else s)"
  by pat_completeness auto
termination
  by (relation "measure (\<lambda>(T, s, j). BUCKET T - j)") auto

definition remove_at :: "'k table_trait \<Rightarrow> ('k, 'v) slot \<Rightarrow> nat \<Rightarrow> ('k, 'v) slot" where
  "remove_at T s i =
     (let s' = shift_down T s i
      in s'\<lparr>slot_keys := (slot_keys s')[BUCKET T - 1 := EMPTY T]\<rparr>)"

function erase_loop ::
  "'k table_trait \<Rightarrow> u64 \<Rightarrow> u64 \<Rightarrow> ('k, 'v) slot \<Rightarrow> ('k, 'v) slot \<Rightarrow> 'k \<Rightarrow> nat \<Rightarrow>
   ('k, 'v) two_way \<Rightarrow> tw_error + ('k, 'v) two_way" where
  "erase_loop T i1 i2 s1 s2 key i t =
     (if BUCKET T \<le> i then Inl OutOfBounds
      else if slot_keys s1 ! i = key
      then Inr (t\<lparr>data := (data t)[unat i1 := remove_at T s1 i], tsize := tsize t - 1\<rparr>)
      else if slot_keys s2 ! i = key
      then Inr (t\<lparr>data := (data t)[unat i2 := remove_at T s2 i], tsize := tsize t - 1\<rparr>)
      else erase_loop T i1 i2 s1 s2 key (Suc i) t)"
  by pat_completeness auto
termination
  by (relation "measure (\<lambda>(T, i1, i2, s1, s2, key, i, t). BUCKET T - i)") auto

definition tw_erase ::
  "'k table_trait \<Rightarrow> 'k \<Rightarrow> ('k, 'v) two_way \<Rightarrow> tw_error + ('k, 'v) two_way" where
  "tw_erase T key t =
     (let hash = trait_hash T key
      in case candidates t hash of
           Inl e \<Rightarrow> Inl e
         | Inr (s1, s2) \<Rightarrow>
             erase_loop T (index_1 hash (capacity t)) (index_2 hash (capacity t)) s1 s2 key 0 t)"

definition tw_clear :: "'k table_trait \<Rightarrow> ('k, 'v) two_way \<Rightarrow> ('k, 'v) two_way" where
  "tw_clear T t = t\<lparr>tsize := 0, data := fill_empty T (data t)\<rparr>"

definition tw_size :: "('k, 'v) two_way \<Rightarrow> u64" where
  "tw_size t = tsize t"

definition memory_usage :: "'k table_trait \<Rightarrow> u64 \<Rightarrow> ('k, 'v) two_way \<Rightarrow> u64" where
  "memory_usage T sizeof_two_way t = of_nat (sizeof_slot T) * capacity t + sizeof_two_way"

text \<open>\<open>sum_all_values\<close>: the inner loop over a bucket, then the loop over the slots.\<close>

function sum_slot ::
  "'k table_trait \<Rightarrow> ('k, 'v::comm_monoid_add) slot \<Rightarrow> nat \<Rightarrow> 'v \<Rightarrow> tw_error + 'v" where
  "sum_slot T s j acc =
     (if j < BUCKET T \<and> slot_keys s ! j \<noteq> EMPTY T
      then case slot_values s ! j of
             None \<Rightarrow> Inl Uninitialised
           | Some v \<Rightarrow> sum_slot T s (Suc j) (acc + v)
      else Inr acc)"
  by pat_completeness auto
termination
  by (relation "measure (\<lambda>(T, s, j, acc). BUCKET T - j)") auto

fun sum_slots ::
  "'k table_trait \<Rightarrow> ('k, 'v::comm_monoid_add) slot list \<Rightarrow> 'v \<Rightarrow> tw_error + 'v" where
  "sum_slots T [] acc = Inr acc"
| "sum_slots T (s # ss) acc =
     (case sum_slot T s 0 acc of Inl e \<Rightarrow> Inl e | Inr acc' \<Rightarrow> sum_slots T ss acc')"

definition sum_all_values ::
  "'k table_trait \<Rightarrow> ('k, 'v::comm_monoid_add) two_way \<Rightarrow> tw_error + 'v" where
  "sum_all_values T t = sum_slots T (data t) 0"

declare find_loop.simps [simp del] contains_loop.simps [simp del] shift_down.simps [simp del]
  erase_loop.simps [simp del] sum_slot.simps [simp del]

section \<open>The traits the repository instantiates\<close>

text \<open>
  \<open>detail::U64ToU64TableTrait\<close> of \<^verbatim>\<open>src/bench.hpp\<close> with
  \<open>BUCKET = 4\<close>: a slot is four 8-byte keys and four 8-byte values. No allocator grants
  \<open>2^62\<close> bytes, so a larger request is a null pointer whatever \<open>alloc\<close> says.
\<close>

definition u64_trait :: "(nat \<Rightarrow> bool) \<Rightarrow> u64 table_trait" where
  "u64_trait alloc = \<lparr>key_lt = (<), EMPTY = 0xFFFFFFFFFFFFFFFF, trait_hash = squirrel3,
     BUCKET = 4, sizeof_slot = 64, cache_line = CACHE_LINE False, sys_alloc = (\<lambda>n. n < 2 ^ 62 \<and> alloc n)\<rparr>"

text \<open>\<open>Int32ToU32TableTrait\<close> of the tests: a signed 32-bit key, sign-extended to hash.\<close>

definition i32_trait :: "(nat \<Rightarrow> bool) \<Rightarrow> u32 table_trait" where
  "i32_trait alloc = \<lparr>key_lt = word_sless, EMPTY = 0x7FFFFFFF,
     trait_hash = (\<lambda>k. squirrel3 (scast k)),
     BUCKET = 4, sizeof_slot = 32, cache_line = CACHE_LINE False, sys_alloc = (\<lambda>n. n < 2 ^ 62 \<and> alloc n)\<rparr>"

end
