(* ===== verification/TwoWay_Correct.thy ===== *)
theory TwoWay_Correct
  imports TwoWay "HOL-Library.Multiset"
begin

text \<open>
  Correctness of the two-way table in two refinement steps: a slot represents a list of
  entries (\<open>slot_rel\<close>), a table represents the list of its buckets, and the buckets
  represent a finite map (\<open>tw_map\<close>). The laws a key type must satisfy are the locale
  \<open>two_way\<close>; the invariant \<open>tw_inv\<close> is kept by every operation, and every operation
  is the corresponding one on the map.
\<close>

section \<open>Representation and invariant\<close>

definition slot_entries :: "'k table_trait \<Rightarrow> ('k, 'v) slot \<Rightarrow> ('k \<times> 'v) list" where
  "slot_entries T s =
     (let n = length (takeWhile (\<lambda>k. k \<noteq> EMPTY T) (slot_keys s))
      in zip (take n (slot_keys s)) (map the (take n (slot_values s))))"

definition slot_rel :: "'k table_trait \<Rightarrow> ('k, 'v) slot \<Rightarrow> ('k \<times> 'v) list \<Rightarrow> bool" where
  "slot_rel T s es \<longleftrightarrow>
     length es \<le> BUCKET T \<and>
     slot_keys s = map fst es @ replicate (BUCKET T - length es) (EMPTY T) \<and>
     length (slot_values s) = BUCKET T \<and>
     take (length es) (slot_values s) = map (Some \<circ> snd) es \<and>
     EMPTY T \<notin> fst ` set es"

definition buckets :: "'k table_trait \<Rightarrow> ('k, 'v) two_way \<Rightarrow> ('k \<times> 'v) list list" where
  "buckets T t = map (slot_entries T) (data t)"

definition tw_entries :: "'k table_trait \<Rightarrow> ('k, 'v) two_way \<Rightarrow> ('k \<times> 'v) list" where
  "tw_entries T t = concat (buckets T t)"

definition tw_map :: "'k table_trait \<Rightarrow> ('k, 'v) two_way \<Rightarrow> 'k \<rightharpoonup> 'v" where
  "tw_map T t = map_of (tw_entries T t)"

text \<open>
  The array has a power of two of slots, \<open>capacity\<close> is its length, and it lies in a block
  the system allocator granted.
\<close>

definition cap_ok :: "'k table_trait \<Rightarrow> ('k, 'v) two_way \<Rightarrow> bool" where
  "cap_ok T t \<longleftrightarrow> (\<exists>m. length (data t) = 2 ^ m) \<and> unat (capacity t) = length (data t) \<and>
     (\<exists>n. sys_alloc T n \<and> sizeof_slot T * length (data t) \<le> n)"

definition home :: "'k table_trait \<Rightarrow> u64 \<Rightarrow> 'k \<Rightarrow> nat \<Rightarrow> bool" where
  "home T cap k i \<longleftrightarrow>
     i = unat (index_1 (trait_hash T k) cap) \<or> i = unat (index_2 (trait_hash T k) cap)"

definition tw_inv :: "'k table_trait \<Rightarrow> ('k, 'v) two_way \<Rightarrow> bool" where
  "tw_inv T t \<longleftrightarrow>
     cap_ok T t \<and>
     (\<forall>s \<in> set (data t). slot_rel T s (slot_entries T s)) \<and>
     (\<forall>i \<in> {0..<length (data t)}. \<forall>p \<in> set (buckets T t ! i). home T (capacity t) (fst p) i) \<and>
     distinct (map fst (tw_entries T t)) \<and>
     tsize t = of_nat (length (tw_entries T t))"

text \<open>
  The laws of a trait: \<open>EMPTY\<close> is the largest key, a bucket holds at least one entry, a
  slot takes between two bytes and 4 GiB, and no system allocator grants \<open>2^62\<close> bytes or more
  (far above what a 64-bit address space offers).
\<close>

definition trait_ok :: "'k table_trait \<Rightarrow> bool" where
  "trait_ok T \<longleftrightarrow> (\<forall>k. key_lt T k (EMPTY T) \<longleftrightarrow> k \<noteq> EMPTY T) \<and>
     0 < BUCKET T \<and> 2 \<le> sizeof_slot T \<and> sizeof_slot T < 2 ^ 32 \<and> cache_line T \<in> {64, 128} \<and>
     (\<forall>n. sys_alloc T n \<longrightarrow> n < 2 ^ 62)"

locale two_way =
  fixes T :: "'k table_trait"
  assumes lt_empty: "key_lt T k (EMPTY T) \<longleftrightarrow> k \<noteq> EMPTY T"
    and bucket_pos: "0 < BUCKET T"
    and slot_bytes: "2 \<le> sizeof_slot T" "sizeof_slot T < 2 ^ 32"
    and cache_line: "cache_line T \<in> {64, 128}"
    and alloc_bound: "sys_alloc T n \<Longrightarrow> n < 2 ^ 62"

lemma two_wayI: "trait_ok T \<Longrightarrow> two_way T"
  by (simp add: trait_ok_def two_way_def)

section \<open>Lists of buckets\<close>

lemma mset_concat_update:
  "i < length b \<Longrightarrow> mset (concat (b[i := ys])) + mset (b ! i) = mset (concat b) + mset ys"
  by (induction b arbitrary: i) (auto split: nat.split)

lemma distinct_map_mset: "mset xs = mset ys \<Longrightarrow> distinct (map f xs) = distinct (map f ys)"
  by (metis mset_eq_imp_distinct_iff mset_map)

lemma map_of_mset:
  assumes "mset xs = mset ys" "distinct (map fst xs)"
  shows "map_of xs = map_of ys"
  using assms by (metis distinct_map_mset map_of_inject_set mset_eq_setD)

lemma set_nth_concat: "i < length b \<Longrightarrow> set (b ! i) \<subseteq> set (concat b)"
  by (auto intro: nth_mem)

lemma shift_last:
  assumes "length xs = Suc i"
  shows "take i xs @ drop (Suc i) xs @ [last xs] = xs"
proof -
  have "xs \<noteq> []" "butlast xs = take i xs" using assms by (auto simp: butlast_conv_take)
  with assms append_butlast_last_id [of xs] show ?thesis by simp
qed

lemma shift_step:
  assumes "Suc i < length xs"
  shows "take (Suc i) (xs[i := xs ! Suc i]) @ drop (Suc (Suc i)) (xs[i := xs ! Suc i]) @
    [last (xs[i := xs ! Suc i])] = take i xs @ drop (Suc i) xs @ [last xs]"
proof -
  have "drop (Suc i) xs = xs ! Suc i # drop (Suc (Suc i)) xs"
    using assms by (simp add: Cons_nth_drop_Suc)
  moreover have "last (xs[i := xs ! Suc i]) = last xs"
    using assms by (cases xs rule: rev_cases) (auto simp: last_conv_nth nth_list_update)
  ultimately show ?thesis using assms by (simp add: take_Suc_conv_app_nth)
qed

section \<open>One slot\<close>

context two_way
begin

lemma slot_rel_entries:
  assumes "slot_rel T s es"
  shows "slot_entries T s = es"
proof -
  let ?r = "replicate (BUCKET T - length es) (EMPTY T)"
  have "takeWhile (\<lambda>k. k \<noteq> EMPTY T) (map fst es @ ?r) = map fst es @ takeWhile (\<lambda>k. k \<noteq> EMPTY T) ?r"
    using assms by (intro takeWhile_append2) (force simp: slot_rel_def)
  also have "takeWhile (\<lambda>k. k \<noteq> EMPTY T) ?r = []" by (simp add: takeWhile_eq_Nil_iff)
  finally have "length (takeWhile (\<lambda>k. k \<noteq> EMPTY T) (slot_keys s)) = length es"
    using assms by (simp add: slot_rel_def)
  then show ?thesis
    using assms by (simp add: slot_entries_def slot_rel_def zip_map_fst_snd comp_def)
qed

lemma slot_rel_empty:
  "length (slot_values s) = BUCKET T \<Longrightarrow> slot_keys s = replicate (BUCKET T) (EMPTY T) \<Longrightarrow>
   slot_rel T s []"
  by (simp add: slot_rel_def)

lemma slot_key_nth:
  assumes "slot_rel T s es" "i < BUCKET T"
  shows "slot_keys s ! i = (if i < length es then fst (es ! i) else EMPTY T)"
  using assms by (simp add: slot_rel_def nth_append)

lemma slot_key_empty:
  assumes "slot_rel T s es" "i < BUCKET T"
  shows "slot_keys s ! i \<noteq> EMPTY T \<longleftrightarrow> i < length es"
  using assms slot_key_nth [OF assms] by (auto simp: slot_rel_def) (metis imageI nth_mem)

lemma slot_key_eq:
  assumes "slot_rel T s es" "i < BUCKET T" "key \<noteq> EMPTY T"
  shows "slot_keys s ! i = key \<longleftrightarrow> i < length es \<and> fst (es ! i) = key"
  using assms(3) slot_key_nth [OF assms(1,2)] by auto

lemma slot_value_nth:
  assumes "slot_rel T s es" "i < length es"
  shows "slot_values s ! i = Some (snd (es ! i))"
proof -
  have "take (length es) (slot_values s) ! i = map (Some \<circ> snd) es ! i"
    using assms by (simp add: slot_rel_def)
  with assms show ?thesis by simp
qed

lemma count_used_from:
  assumes "slot_rel T s es" "n \<le> length es" "n < BUCKET T"
  shows "count_used T (slot_keys s) n = length es"
  using assms(2,3)
proof (induction "BUCKET T - n" arbitrary: n rule: less_induct)
  case less
  have len: "length es \<le> BUCKET T" using assms(1) by (simp add: slot_rel_def)
  show ?case
  proof (cases "n < length es")
    case False
    then have "n = length es" using less.prems by simp
    moreover have "slot_keys s ! n = EMPTY T"
      using slot_key_nth [OF assms(1) less.prems(2)] False by simp
    ultimately show ?thesis by (subst count_used.simps) (simp add: lt_empty)
  next
    case True
    then have lt: "key_lt T (slot_keys s ! n) (EMPTY T)"
      using slot_key_empty [OF assms(1) less.prems(2)] by (simp add: lt_empty)
    show ?thesis
    proof (cases "Suc n < BUCKET T")
      case True
      then have "count_used T (slot_keys s) (Suc n) = length es"
        using \<open>n < length es\<close> by (intro less.hyps) auto
      with lt True show ?thesis by (simp add: count_used.simps [of T "slot_keys s" n])
    next
      case False
      then have "length es = Suc n" using len \<open>n < length es\<close> by simp
      with lt False show ?thesis by (simp add: count_used.simps [of T "slot_keys s" n])
    qed
  qed
qed

lemma count_used_eq: "slot_rel T s es \<Longrightarrow> count_used T (slot_keys s) 0 = length es"
  using bucket_pos by (simp add: count_used_from)

lemma put_slot_rel:
  assumes "slot_rel T s es" "length es < BUCKET T" "key \<noteq> EMPTY T"
  shows "slot_rel T (put_slot s (length es) key v) (es @ [(key, v)])"
proof -
  have "replicate (BUCKET T - length es) (EMPTY T)
      = EMPTY T # replicate (BUCKET T - Suc (length es)) (EMPTY T)"
    using assms(2) by (metis Suc_diff_Suc replicate_Suc)
  moreover have "take (Suc (length es)) ((slot_values s)[length es := Some v])
      = take (length es) (slot_values s) @ [Some v]"
    using assms by (simp add: slot_rel_def take_Suc_conv_app_nth)
  ultimately show ?thesis
    using assms by (auto simp: slot_rel_def put_slot_def list_update_append)
qed

lemma shift_down_keys:
  assumes "length (slot_keys s) = BUCKET T" "length (slot_values s) = BUCKET T" "i < BUCKET T"
  shows "slot_keys (shift_down T s i) = take i (slot_keys s) @ drop (Suc i) (slot_keys s) @ [last (slot_keys s)]
    \<and> slot_values (shift_down T s i) =
        take i (slot_values s) @ drop (Suc i) (slot_values s) @ [last (slot_values s)]"
  using assms
proof (induction "BUCKET T - i" arbitrary: i s rule: less_induct)
  case less
  show ?case
  proof (cases "i < BUCKET T - 1")
    case False
    then have "Suc i = BUCKET T" using less.prems by simp
    with less.prems shift_last [of "slot_keys s" i] shift_last [of "slot_values s" i]
    show ?thesis using False by (simp only: shift_down.simps [of T s i] if_False simp_thms)
  next
    case True
    let ?s = "s\<lparr>slot_keys := (slot_keys s)[i := slot_keys s ! Suc i],
                slot_values := (slot_values s)[i := slot_values s ! Suc i]\<rparr>"
    have "slot_keys (shift_down T ?s (Suc i)) =
        take (Suc i) (slot_keys ?s) @ drop (Suc (Suc i)) (slot_keys ?s) @ [last (slot_keys ?s)] \<and>
      slot_values (shift_down T ?s (Suc i)) =
        take (Suc i) (slot_values ?s) @ drop (Suc (Suc i)) (slot_values ?s) @ [last (slot_values ?s)]"
      using True less.prems by (intro less.hyps) auto
    then have IH: "slot_keys (shift_down T ?s (Suc i)) =
          take i (slot_keys s) @ drop (Suc i) (slot_keys s) @ [last (slot_keys s)] \<and>
        slot_values (shift_down T ?s (Suc i)) =
          take i (slot_values s) @ drop (Suc i) (slot_values s) @ [last (slot_values s)]"
      using True less.prems shift_step [of i "slot_keys s"] shift_step [of i "slot_values s"] by simp
    show ?thesis using True IH by (simp only: shift_down.simps [of T s i] if_True)
  qed
qed

lemma remove_at_rel:
  assumes r: "slot_rel T s es" and i: "i < length es"
  shows "slot_rel T (remove_at T s i) (take i es @ drop (Suc i) es)"
proof -
  have len: "length (slot_keys s) = BUCKET T" "length (slot_values s) = BUCKET T" "length es \<le> BUCKET T"
    using r by (auto simp: slot_rel_def)
  let ?n = "length es - 1"
  have iB: "i < BUCKET T" using i len(3) by simp
  note sd = shift_down_keys [OF len(1,2) iB]
  have keys: "slot_keys (remove_at T s i) =
      (take i (slot_keys s) @ drop (Suc i) (slot_keys s)) @ [EMPTY T]"
  proof -
    let ?xs = "take i (slot_keys s) @ drop (Suc i) (slot_keys s)"
    have "length ?xs = BUCKET T - 1" using len(1) iB by simp
    then have "(?xs @ [last (slot_keys s)])[BUCKET T - 1 := EMPTY T] = ?xs @ [EMPTY T]"
      by (metis list_update_length)
    then show ?thesis using sd by (simp add: remove_at_def Let_def)
  qed
  have vals: "slot_values (remove_at T s i) =
      take i (slot_values s) @ drop (Suc i) (slot_values s) @ [last (slot_values s)]"
    using sd by (simp add: remove_at_def Let_def)
  have split: "take i (slot_keys s) @ drop (Suc i) (slot_keys s) =
      map fst (take i es @ drop (Suc i) es) @ replicate (BUCKET T - length es) (EMPTY T)"
    using r i by (simp add: slot_rel_def take_map drop_map)
  have rep: "replicate (BUCKET T - length es) (EMPTY T) @ [EMPTY T] = replicate (BUCKET T - ?n) (EMPTY T)"
  proof -
    have "BUCKET T - ?n = Suc (BUCKET T - length es)" using i len(3) by simp
    then show ?thesis by (simp add: replicate_append_same)
  qed
  have tv: "take (length es) (slot_values s) = map (Some \<circ> snd) es" using r by (simp add: slot_rel_def)
  have "take ?n (slot_values (remove_at T s i)) =
      take i (slot_values s) @ drop (Suc i) (take (length es) (slot_values s))"
  proof -
    have "Suc (length es - Suc 0) = length es" using i by simp
    moreover have "take (length es - Suc 0) (slot_values s) = take i (slot_values s)"
      if "length es - Suc 0 \<le> i"
    proof -
      have "length es - Suc 0 = i" using that i by simp
      then show ?thesis by simp
    qed
    ultimately show ?thesis using i len by (auto simp: vals take_drop min_def)
  qed
  also have "\<dots> = map (Some \<circ> snd) (take i es @ drop (Suc i) es)"
  proof -
    have "take i (slot_values s) = take i (take (length es) (slot_values s))" using i by simp
    then show ?thesis by (simp add: tv take_map drop_map)
  qed
  finally have tvals: "take ?n (slot_values (remove_at T s i)) = map (Some \<circ> snd) (take i es @ drop (Suc i) es)" .
  have sub: "set (take i es @ drop (Suc i) es) \<subseteq> set es"
    by (auto dest: in_set_takeD in_set_dropD)
  have l: "length (take i es @ drop (Suc i) es) = ?n" using i by simp
  have lv: "length (slot_values (remove_at T s i)) = BUCKET T" using len iB by (simp add: vals)
  have nodup: "EMPTY T \<notin> fst ` set (take i es @ drop (Suc i) es)"
    using sub r by (auto simp: slot_rel_def)
  have k: "slot_keys (remove_at T s i) =
      map fst (take i es @ drop (Suc i) es) @ replicate (BUCKET T - ?n) (EMPTY T)"
    by (simp only: keys split append_assoc rep)
  show ?thesis
    unfolding slot_rel_def l using len(3) by (intro conjI k lv tvals nodup) simp
qed

lemma find_loop_hit:
  assumes r: "slot_rel T s1 e1" "slot_rel T s2 e2" and key: "key \<noteq> EMPTY T"
    and vals: "\<forall>p \<in> set e1 \<union> set e2. fst p = key \<longrightarrow> snd p = v"
    and hit: "i \<le> i0" "(i0 < length e1 \<and> fst (e1 ! i0) = key) \<or> (i0 < length e2 \<and> fst (e2 ! i0) = key)"
  shows "\<exists>c. find_loop T s1 s2 key i steps = Inr (v, steps + of_nat c) \<and> c \<le> 2 * (i0 - i) + 1"
  using hit
proof (induction "BUCKET T - i" arbitrary: i steps rule: less_induct)
  case less
  have len: "length e1 \<le> BUCKET T" "length e2 \<le> BUCKET T" using r by (auto simp: slot_rel_def)
  then have iB: "i < BUCKET T" using less.prems by auto
  note k1 = slot_key_eq [OF r(1) iB key] and k2 = slot_key_eq [OF r(2) iB key]
  show ?case
  proof (cases "slot_keys s1 ! i = key")
    case True
    then have "slot_values s1 ! i = Some v"
      using k1 slot_value_nth [OF r(1), of i] vals by auto
    with True iB show ?thesis
      by (intro exI [of _ 0]) (subst find_loop.simps, simp)
  next
    case n1: False
    show ?thesis
    proof (cases "slot_keys s2 ! i = key")
      case True
      then have "slot_values s2 ! i = Some v"
        using k2 slot_value_nth [OF r(2), of i] vals by auto
      with True n1 iB show ?thesis
        by (intro exI [of _ 1]) (subst find_loop.simps, simp)
    next
      case False
      have "i \<noteq> i0" using n1 False k1 k2 less.prems by auto
      then have "\<exists>c. find_loop T s1 s2 key (Suc i) (steps + 1 + 1) = Inr (v, (steps + 1 + 1) + of_nat c) \<and>
          c \<le> 2 * (i0 - Suc i) + 1"
        using less.prems iB by (intro less.hyps) auto
      then obtain c where c: "find_loop T s1 s2 key (Suc i) (steps + 1 + 1) = Inr (v, (steps + 1 + 1) + of_nat c)"
        "c \<le> 2 * (i0 - Suc i) + 1" by blast
      have "find_loop T s1 s2 key i steps = Inr (v, steps + of_nat (c + 2))"
        using n1 False iB c(1) by (subst find_loop.simps) (simp add: add.assoc)
      moreover have "c + 2 \<le> 2 * (i0 - i) + 1" using c(2) less.prems \<open>i \<noteq> i0\<close> by simp
      ultimately show ?thesis by blast
    qed
  qed
qed

lemma find_loop_miss:
  assumes r: "slot_rel T s1 e1" "slot_rel T s2 e2" and key: "key \<noteq> EMPTY T"
    and miss: "\<forall>p \<in> set e1 \<union> set e2. fst p \<noteq> key"
  shows "find_loop T s1 s2 key i steps = Inl OutOfBounds"
proof (induction "BUCKET T - i" arbitrary: i steps rule: less_induct)
  case less
  show ?case
  proof (cases "i < BUCKET T")
    case True
    have "slot_keys s1 ! i \<noteq> key" "slot_keys s2 ! i \<noteq> key"
      using slot_key_eq [OF r(1) True key] slot_key_eq [OF r(2) True key] miss by auto
    moreover have "find_loop T s1 s2 key (Suc i) (steps + 1 + 1) = Inl OutOfBounds"
      using True by (intro less.hyps) simp
    ultimately show ?thesis using True by (subst find_loop.simps) simp
  next
    case False
    then show ?thesis by (subst find_loop.simps) simp
  qed
qed

lemma contains_loop_iff:
  assumes r: "slot_rel T s1 e1" "slot_rel T s2 e2" and key: "key \<noteq> EMPTY T"
  shows "fst (contains_loop T s1 s2 key i steps) \<longleftrightarrow>
    (\<exists>j\<ge>i. (j < length e1 \<and> fst (e1 ! j) = key) \<or> (j < length e2 \<and> fst (e2 ! j) = key))"
proof (induction "BUCKET T - i" arbitrary: i steps rule: less_induct)
  case less
  have len: "length e1 \<le> BUCKET T" "length e2 \<le> BUCKET T" using r by (auto simp: slot_rel_def)
  show ?case
  proof (cases "i < BUCKET T \<and> (slot_keys s1 ! i \<noteq> EMPTY T \<or> slot_keys s2 ! i \<noteq> EMPTY T)")
    case True
    then have iB: "i < BUCKET T" by simp
    note k = slot_key_eq [OF r(1) iB key] slot_key_eq [OF r(2) iB key]
    show ?thesis
    proof (cases "slot_keys s1 ! i = key \<or> slot_keys s2 ! i = key")
      case hit: True
      then have "fst (contains_loop T s1 s2 key i steps)" using True by (subst contains_loop.simps) auto
      then show ?thesis using hit k by auto
    next
      case False
      then have "contains_loop T s1 s2 key i steps = contains_loop T s1 s2 key (Suc i) (steps + 1 + 1)"
        using True by (subst contains_loop.simps) simp
      moreover have "fst (contains_loop T s1 s2 key (Suc i) (steps + 1 + 1)) \<longleftrightarrow>
        (\<exists>j\<ge>Suc i. (j < length e1 \<and> fst (e1 ! j) = key) \<or> (j < length e2 \<and> fst (e2 ! j) = key))"
        using iB by (intro less.hyps) simp
      ultimately show ?thesis using False k by (metis Suc_leD le_antisym not_less_eq_eq)
    qed
  next
    case False
    then have stop: "\<not> (i < length e1 \<or> i < length e2)"
      using slot_key_empty [OF r(1), of i] slot_key_empty [OF r(2), of i] len by auto
    have "\<not> fst (contains_loop T s1 s2 key i steps)" using False by (subst contains_loop.simps) auto
    with stop show ?thesis by auto
  qed
qed

lemma sum_slot_eq:
  assumes r: "slot_rel T s es"
  shows "j \<le> length es \<Longrightarrow> sum_slot T s j acc = Inr (acc + sum_list (map snd (drop j es)))"
proof (induction "BUCKET T - j" arbitrary: j acc rule: less_induct)
  case less
  have len: "length es \<le> BUCKET T" using r by (simp add: slot_rel_def)
  show ?case
  proof (cases "j < length es")
    case True
    then have jB: "j < BUCKET T" using len by simp
    have "sum_slot T s (Suc j) (acc + snd (es ! j)) = Inr ((acc + snd (es ! j)) + sum_list (map snd (drop (Suc j) es)))"
      using True jB by (intro less.hyps) auto
    moreover have "drop j es = es ! j # drop (Suc j) es" using True by (simp add: Cons_nth_drop_Suc)
    ultimately show ?thesis
      using True jB slot_key_empty [OF r jB] slot_value_nth [OF r True]
      by (subst sum_slot.simps) (simp add: add.assoc)
  next
    case False
    then have "\<not> (j < BUCKET T \<and> slot_keys s ! j \<noteq> EMPTY T)" using slot_key_empty [OF r, of j] by auto
    with False show ?thesis by (subst sum_slot.simps) auto
  qed
qed

end

end
