(* ===== verification/TwoWay_Map.thy ===== *)
theory TwoWay_Map
  imports TwoWay_Correct
begin

text \<open>
  The two-way table as a finite map: every operation of \<^verbatim>\<open>src/TwoWay.hpp\<close> keeps the
  invariant and is the corresponding operation on \<open>tw_map\<close>. The properties at the end are
  stated for every lawful trait; the interpretations give them for the traits the repository
  instantiates.
\<close>

section \<open>Reading the invariant\<close>

context two_way
begin

lemma cap_word:
  assumes "cap_ok T t"
  obtains m where "m < 61" "length (data t) = 2 ^ m" "capacity t = 2 ^ m"
    "sizeof_slot T * 2 ^ m < 2 ^ 62"
proof -
  obtain m n where m: "length (data t) = 2 ^ m" and n: "sys_alloc T n" "sizeof_slot T * 2 ^ m \<le> n"
    using assms by (auto simp: cap_ok_def)
  have lt: "sizeof_slot T * 2 ^ m < 2 ^ 62" using n alloc_bound by (metis le_less_trans)
  have "(2::nat) ^ Suc m \<le> sizeof_slot T * 2 ^ m" using slot_bytes by simp
  with lt have "(2::nat) ^ Suc m < 2 ^ 62" by (rule le_less_trans [rotated])
  then have m61: "m < 61" using power_less_imp_less_exp [of "2::nat" "Suc m" 62] by simp
  then have "unat ((2::u64) ^ m) = 2 ^ m" by (simp add: unat_two_power)
  then have "unat (capacity t) = unat ((2::u64) ^ m)" using assms m by (simp add: cap_ok_def)
  then have "capacity t = 2 ^ m" by (simp only: word_unat_eq_iff)
  with m61 m lt show thesis by (intro that)
qed

lemma index_bound:
  assumes "cap_ok T t"
  shows "unat (index_1 h (capacity t)) < length (data t)" "unat (index_2 h (capacity t)) < length (data t)"
  using assms by (auto elim!: cap_word simp: index_1_def index_2_def and_mask_mod)

lemma inv_cap: "tw_inv T t \<Longrightarrow> cap_ok T t"
  by (simp add: tw_inv_def)

lemma length_buckets: "length (buckets T t) = length (data t)"
  by (simp add: buckets_def)

lemma inv_slot: "tw_inv T t \<Longrightarrow> i < length (data t) \<Longrightarrow> slot_rel T (data t ! i) (buckets T t ! i)"
  by (simp add: tw_inv_def buckets_def)

lemma inv_home: "tw_inv T t \<Longrightarrow> i < length (data t) \<Longrightarrow> p \<in> set (buckets T t ! i) \<Longrightarrow>
    home T (capacity t) (fst p) i"
  by (simp add: tw_inv_def)

lemma inv_distinct: "tw_inv T t \<Longrightarrow> distinct (map fst (tw_entries T t))"
  by (simp add: tw_inv_def)

lemma inv_no_empty: "tw_inv T t \<Longrightarrow> EMPTY T \<notin> fst ` set (tw_entries T t)"
  by (auto simp: tw_inv_def tw_entries_def buckets_def slot_rel_def)

lemma candidates_eq:
  "cap_ok T t \<Longrightarrow> candidates t h =
     Inr (data t ! unat (index_1 h (capacity t)), data t ! unat (index_2 h (capacity t)))"
  using index_bound [of t h] by (simp add: candidates_def slot_at_def)

lemma dom_tw_map: "dom (tw_map T t) = fst ` set (tw_entries T t)"
  by (simp add: tw_map_def dom_map_of_conv_image_fst)

lemma bucket_entries: "i < length (data t) \<Longrightarrow> set (buckets T t ! i) \<subseteq> set (tw_entries T t)"
  unfolding tw_entries_def by (rule set_nth_concat) (simp add: length_buckets)

lemma bucket_lookup:
  "tw_inv T t \<Longrightarrow> i < length (data t) \<Longrightarrow> p \<in> set (buckets T t ! i) \<Longrightarrow> tw_map T t (fst p) = Some (snd p)"
  using bucket_entries [of i t] inv_distinct [of t] by (auto simp: tw_map_def)

lemma lookup_bucket:
  assumes inv: "tw_inv T t" and k: "tw_map T t k = Some v"
  defines "b1 \<equiv> buckets T t ! unat (index_1 (trait_hash T k) (capacity t))"
    and "b2 \<equiv> buckets T t ! unat (index_2 (trait_hash T k) (capacity t))"
  shows "(k, v) \<in> set b1 \<or> (k, v) \<in> set b2"
proof -
  have "(k, v) \<in> set (tw_entries T t)" using k by (auto simp: tw_map_def dest: map_of_SomeD)
  then obtain i where i: "i < length (data t)" "(k, v) \<in> set (buckets T t ! i)"
    unfolding tw_entries_def set_concat by (metis UN_E in_set_conv_nth length_buckets)
  with inv_home [OF inv i] show ?thesis by (auto simp: home_def b1_def b2_def)
qed

section \<open>Replacing one slot\<close>

lemma buckets_update:
  assumes "slot_rel T s es"
  shows "buckets T (t\<lparr>data := (data t)[i := s], tsize := n\<rparr>) = (buckets T t)[i := es]"
  using slot_rel_entries [OF assms] by (simp add: buckets_def map_update)

lemma entries_update:
  assumes "slot_rel T s es" "i < length (data t)"
  shows "mset (tw_entries T (t\<lparr>data := (data t)[i := s], tsize := n\<rparr>)) + mset (buckets T t ! i) =
    mset (tw_entries T t) + mset es"
  using mset_concat_update [of i "buckets T t" es] assms(2)
  by (simp add: tw_entries_def buckets_update [OF assms(1)] length_buckets)

lemma inv_update:
  assumes inv: "tw_inv T t" and s: "slot_rel T s es" and i: "i < length (data t)"
    and homes: "\<forall>p \<in> set es. home T (capacity t) (fst p) i"
    and t': "t' = t\<lparr>data := (data t)[i := s], tsize := of_nat (length (tw_entries T t'))\<rparr>"
    and dis: "distinct (map fst (tw_entries T t'))"
  shows "tw_inv T t'"
proof -
  let ?n = "of_nat (length (tw_entries T t'))"
  have b: "buckets T t' = (buckets T t)[i := es]"
    using buckets_update [OF s] by (subst t')
  have d: "data t' = (data t)[i := s]" and c: "capacity t' = capacity t" and z: "tsize t' = ?n"
    by (subst t', simp)+
  have "cap_ok T t'" using inv by (simp add: tw_inv_def cap_ok_def d c)
  moreover have "\<forall>x \<in> set (data t'). slot_rel T x (slot_entries T x)"
    using inv s slot_rel_entries [OF s] set_update_subset_insert [of "data t" i s]
    by (auto simp: d tw_inv_def)
  moreover have "\<forall>j \<in> {0..<length (data t')}. \<forall>p \<in> set (buckets T t' ! j). home T (capacity t') (fst p) j"
    using inv_home [OF inv] homes i by (auto simp: b c d nth_list_update length_buckets)
  ultimately show ?thesis using dis z by (simp add: tw_inv_def)
qed

lemma inv_put:
  fixes t :: "('k, 'v) two_way" and v :: 'v
  assumes inv: "tw_inv T t" and i: "i < length (data t)" and room: "length (buckets T t ! i) < BUCKET T"
    and home: "home T (capacity t) key i" and key: "key \<noteq> EMPTY T" "tw_map T t key = None"
  defines "t' \<equiv> t\<lparr>data := (data t)[i := put_slot (data t ! i) (length (buckets T t ! i)) key v],
    tsize := tsize t + 1\<rparr>"
  shows "tw_inv T t' \<and> tw_map T t' = (tw_map T t)(key \<mapsto> v) \<and> length (data t') = length (data t)"
proof -
  let ?s = "put_slot (data t ! i) (length (buckets T t ! i)) key v"
  have r: "slot_rel T ?s (buckets T t ! i @ [(key, v)])"
    by (rule put_slot_rel [OF inv_slot [OF inv i] room key(1)])
  have m: "mset (tw_entries T t') = mset ((key, v) # tw_entries T t)"
    using entries_update [OF r i, of "tsize t + 1"] by (simp add: t'_def)
  then have len: "length (tw_entries T t') = Suc (length (tw_entries T t))"
    by (metis length_Cons size_mset)
  have fresh: "key \<notin> fst ` set (tw_entries T t)" using key(2) dom_tw_map [of t] by auto
  then have "distinct (map fst ((key, v) # tw_entries T t))" using inv_distinct [OF inv] by simp
  then have dis: "distinct (map fst (tw_entries T t'))" using distinct_map_mset [OF m, of fst] by simp
  have "tsize t + 1 = of_nat (length (tw_entries T t'))" using inv by (simp add: len tw_inv_def)
  then have "t' = t\<lparr>data := (data t)[i := ?s], tsize := of_nat (length (tw_entries T t'))\<rparr>"
    by (simp only: t'_def)
  then have "tw_inv T t'"
    using inv_home [OF inv i] home dis by (intro inv_update [OF inv r i]) auto
  moreover have "tw_map T t' = (tw_map T t)(key \<mapsto> v)"
    using map_of_mset [OF m dis] by (simp add: tw_map_def)
  ultimately show ?thesis by (simp add: t'_def)
qed

lemma inv_remove:
  assumes inv: "tw_inv T t" and i: "i < length (data t)" and j: "j < length (buckets T t ! i)"
    and key: "fst (buckets T t ! i ! j) = key"
  defines "t' \<equiv> t\<lparr>data := (data t)[i := remove_at T (data t ! i) j], tsize := tsize t - 1\<rparr>"
  shows "tw_inv T t' \<and> tw_map T t' = (tw_map T t)(key := None)"
proof -
  let ?b = "buckets T t ! i" and ?s = "remove_at T (data t ! i) j"
  let ?es = "take j ?b @ drop (Suc j) ?b"
  have r: "slot_rel T ?s ?es" by (rule remove_at_rel [OF inv_slot [OF inv i] j])
  have "?b = take j ?b @ ?b ! j # drop (Suc j) ?b" using j by (rule id_take_nth_drop)
  then have "mset ?b = mset ?es + {#?b ! j#}" by (metis mset_append mset.simps(2) union_mset_add_mset_right add_mset_add_single)
  then have m: "mset (tw_entries T t) = mset (?b ! j # tw_entries T t')"
    using entries_update [OF r i, of "tsize t - 1"] by (simp add: t'_def)
  then have len: "length (tw_entries T t) = Suc (length (tw_entries T t'))"
    by (metis length_Cons size_mset)
  have dis: "distinct (map fst (?b ! j # tw_entries T t'))"
    using distinct_map_mset [OF m, of fst] inv_distinct [OF inv] by simp
  have "tsize t - 1 = of_nat (length (tw_entries T t'))" using inv by (simp add: len tw_inv_def)
  then have "t' = t\<lparr>data := (data t)[i := ?s], tsize := of_nat (length (tw_entries T t'))\<rparr>"
    by (simp only: t'_def)
  then have "tw_inv T t'"
    using inv_home [OF inv i] dis
    by (intro inv_update [OF inv r i]) (auto dest: in_set_takeD in_set_dropD)
  moreover have "map_of (tw_entries T t) = map_of (?b ! j # tw_entries T t')"
    using map_of_mset [OF m] inv_distinct [OF inv] by simp
  then have "tw_map T t = (tw_map T t')(key \<mapsto> snd (?b ! j))"
    using key by (simp add: tw_map_def split_def)
  moreover have "tw_map T t' key = None" using dis key by (simp add: tw_map_def map_of_eq_None_iff)
  ultimately show ?thesis by (auto simp: fun_eq_iff)
qed

end

end
