(* ===== verification/TwoWay_Grow.thy ===== *)
theory TwoWay_Grow
  imports TwoWay_Map
begin

text \<open>
  Allocation, \<open>insert\<close> and \<open>grow\<close> of the two-way table. The two operations call each
  other, so \<open>ins_spec\<close> states what an insert promises on tables of at least \<open>2^L\<close>
  slots; \<open>grow\<close> is verified for any insert with that promise, and the insert itself by
  induction on its fuel: each growth doubles the array, and no array reaches \<open>2^61\<close> slots.
\<close>

definition tw_result ::
  "'k table_trait \<Rightarrow> nat \<Rightarrow> ('k \<rightharpoonup> 'v) \<Rightarrow> tw_error + ('k, 'v) two_way \<Rightarrow> bool" where
  "tw_result T L m r =
     (case r of
        Inl e \<Rightarrow> e = OutOfMemory
      | Inr t \<Rightarrow> tw_inv T t \<and> tw_map T t = m \<and> 2 ^ L \<le> length (data t))"

definition ins_spec ::
  "'k table_trait \<Rightarrow> nat \<Rightarrow> ('k \<Rightarrow> 'v \<Rightarrow> ('k, 'v) two_way \<Rightarrow> tw_error + ('k, 'v) two_way) \<Rightarrow> bool" where
  "ins_spec T L ins \<longleftrightarrow>
     (\<forall>k v t. tw_inv T t \<and> k \<noteq> EMPTY T \<and> tw_map T t k = None \<and> 2 ^ L \<le> length (data t)
       \<longrightarrow> tw_result T L ((tw_map T t)(k \<mapsto> v)) (ins k v t))"

lemma tw_result_Inl [simp]: "tw_result T L m (Inl e) \<longleftrightarrow> e = OutOfMemory"
  by (simp add: tw_result_def)

lemma tw_result_Inr [simp]:
  "tw_result T L m (Inr t) \<longleftrightarrow> tw_inv T t \<and> tw_map T t = m \<and> 2 ^ L \<le> length (data t)"
  by (simp add: tw_result_def)

lemma ins_specD:
  "ins_spec T L ins \<Longrightarrow> tw_inv T t \<Longrightarrow> k \<noteq> EMPTY T \<Longrightarrow> tw_map T t k = None \<Longrightarrow>
   2 ^ L \<le> length (data t) \<Longrightarrow> tw_result T L ((tw_map T t)(k \<mapsto> v)) (ins k v t)"
  by (simp add: ins_spec_def)

context two_way
begin

section \<open>Allocation\<close>

lemma cache_line_power: "\<exists>k \<in> {6, 7}. cache_line T = 2 ^ k"
  using cache_line by auto

lemma aligned_size_ge:
  assumes "unat sz < 2 ^ 63"
  shows "unat sz \<le> unat (aligned_size (cache_line T) sz)"
proof -
  obtain k where k: "k \<in> {6, 7}" "cache_line T = 2 ^ k" using cache_line_power by blast
  have "(unat sz + (2 ^ k - 1)) mod 2 ^ 64 = unat sz + (2 ^ k - 1)"
    using assms k(1) by (intro mod_less) auto
  then have "unat (aligned_size (cache_line T) sz) = (unat sz + (2 ^ k - 1)) div 2 ^ k * 2 ^ k"
    using aligned_size_unat [of k sz] k by auto
  then show ?thesis using round_up_bounds(1) [of "2 ^ k" "unat sz"] by simp
qed

lemma fresh_slot: "slot_rel T ((raw_slot T)\<lparr>slot_keys := replicate (BUCKET T) (EMPTY T)\<rparr>) []"
  by (rule slot_rel_empty) (simp_all add: raw_slot_def)

lemma alloc_slots_spec:
  fixes cap :: u64
  assumes cap: "unat cap = 2 ^ m" and small: "sizeof_slot T * 2 ^ m < 2 ^ 63"
  shows "alloc_slots T cap = (Inl OutOfMemory :: tw_error + ('k, 'v) slot list) \<or>
    (\<exists>d. alloc_slots T cap = Inr d \<and> length d = 2 ^ m \<and>
      (\<forall>s \<in> set d. slot_rel T s ([] :: ('k \<times> 'v) list)) \<and>
      (\<exists>n. sys_alloc T n \<and> sizeof_slot T * length d \<le> n))"
proof -
  let ?sz = "of_nat (sizeof_slot T) * cap"
  let ?n = "unat (aligned_size (cache_line T) ?sz)"
  have "(1::nat) \<le> 2 ^ m" by simp
  then have "sizeof_slot T \<le> sizeof_slot T * 2 ^ m" by (metis mult_le_mono2 nat_mult_1_right)
  then have "sizeof_slot T < 2 ^ 63" using small by (rule le_less_trans)
  then have "sizeof_slot T < 2 ^ 64" by simp
  then have "unat (of_nat (sizeof_slot T) :: u64) = sizeof_slot T"
    by (simp only: unsigned_of_nat) (simp add: take_bit_nat_eq_self)
  then have sz: "unat ?sz = sizeof_slot T * 2 ^ m"
    using small cap by (simp add: unat_word_ariths)
  have ge: "sizeof_slot T * 2 ^ m \<le> ?n" using aligned_size_ge [of ?sz] small sz by simp
  show ?thesis
  proof (cases "sys_alloc T ?n")
    case False
    then show ?thesis by (simp add: alloc_slots_def aligned_alloc_def Let_def)
  next
    case True
    let ?d = "fill_empty T (replicate (2 ^ m) (raw_slot T)) :: ('k, 'v) slot list"
    have "alloc_slots T cap = Inr ?d"
      using True ge cap by (simp add: alloc_slots_def aligned_alloc_def Let_def)
    moreover have "length ?d = 2 ^ m" "\<forall>s \<in> set ?d. slot_rel T s []"
      using fresh_slot by (auto simp: fill_empty_def)
    ultimately show ?thesis using True ge by auto
  qed
qed

lemma fresh_table:
  fixes d :: "('k, 'v) slot list"
  assumes d: "length d = 2 ^ m" "\<forall>s \<in> set d. slot_rel T s ([] :: ('k \<times> 'v) list)"
    and cap: "unat cap = 2 ^ m" and blk: "\<exists>n. sys_alloc T n \<and> sizeof_slot T * length d \<le> n"
  shows "tw_inv T \<lparr>data = d, capacity = cap, tsize = 0\<rparr> \<and>
    tw_map T \<lparr>data = d, capacity = cap, tsize = 0\<rparr> = Map.empty"
proof -
  let ?t = "\<lparr>data = d, capacity = cap, tsize = 0\<rparr>"
  have se: "\<forall>s \<in> set d. slot_entries T s = []" using d(2) slot_rel_entries by blast
  have b: "buckets T ?t = replicate (length d) []"
    using se by (auto simp: buckets_def intro!: replicate_eqI)
  then have e: "tw_entries T ?t = []" by (simp add: tw_entries_def)
  have "cap_ok T ?t" using d cap blk by (auto simp: cap_ok_def)
  moreover have "\<forall>s \<in> set d. slot_rel T s (slot_entries T s)" using d(2) se by simp
  ultimately show ?thesis by (simp add: tw_inv_def b e tw_map_def)
qed

lemma tw_new_result: "tw_result T 3 Map.empty (tw_new T :: tw_error + ('k, 'v) two_way)"
proof -
  have c: "unat (8::u64) = 2 ^ 3" by simp
  have small: "sizeof_slot T * 2 ^ 3 < 2 ^ 63" using slot_bytes by simp
  from alloc_slots_spec [OF c small, where 'v = 'v] show ?thesis
  proof (elim disjE exE conjE)
    fix d :: "('k, 'v) slot list" and n
    assume a: "alloc_slots T 8 = Inr d" and d: "length d = 2 ^ 3"
      "\<forall>s \<in> set d. slot_rel T s ([] :: ('k \<times> 'v) list)" "sys_alloc T n" "sizeof_slot T * length d \<le> n"
    then have "\<exists>n. sys_alloc T n \<and> sizeof_slot T * length d \<le> n" by blast
    from fresh_table [OF d(1,2) c this] a d(1) show ?thesis by (simp add: tw_new_def)
  qed (simp add: tw_new_def)
qed

section \<open>Reinserting the old entries\<close>

lemma reinsert_slot_result:
  assumes ins: "ins_spec T L ins" and r: "slot_rel T s es" and j: "j \<le> length es"
    and inv: "tw_inv T t" "2 ^ L \<le> length (data t)"
    and dis: "distinct (map fst (drop j es))" "\<forall>p \<in> set (drop j es). tw_map T t (fst p) = None"
  shows "tw_result T L (tw_map T t ++ map_of (drop j es)) (reinsert_slot ins T s j t)"
  using j inv dis
proof (induction "BUCKET T - j" arbitrary: j t rule: less_induct)
  case less
  have len: "length es \<le> BUCKET T" using r by (simp add: slot_rel_def)
  show ?case
  proof (cases "j < length es")
    case False
    then have "\<not> (j < BUCKET T \<and> slot_keys s ! j \<noteq> EMPTY T)" using slot_key_empty [OF r, of j] by auto
    then have "reinsert_slot ins T s j t = Inr t" by (subst reinsert_slot.simps) auto
    then show ?thesis using False less.prems by simp
  next
    case True
    then have jB: "j < BUCKET T" using len by simp
    let ?k = "fst (es ! j)" and ?v = "snd (es ! j)"
    have k: "slot_keys s ! j = ?k" "?k \<noteq> EMPTY T"
      using slot_key_nth [OF r jB] slot_key_empty [OF r jB] True by auto
    have v: "slot_values s ! j = Some ?v" by (rule slot_value_nth [OF r True])
    have dr: "drop j es = es ! j # drop (Suc j) es" using True by (simp add: Cons_nth_drop_Suc)
    have step: "reinsert_slot ins T s j t =
        (case ins ?k ?v t of Inl e \<Rightarrow> Inl e | Inr t' \<Rightarrow> reinsert_slot ins T s (Suc j) t')"
      using jB k v by (subst reinsert_slot.simps) simp
    have fresh: "tw_map T t ?k = None" using less.prems(5) by (simp add: dr)
    have ir: "tw_result T L ((tw_map T t)(?k \<mapsto> ?v)) (ins ?k ?v t)"
      by (rule ins_specD [OF ins less.prems(2) k(2) fresh less.prems(3)])
    show ?thesis
    proof (cases "ins ?k ?v t")
      case (Inl e)
      with ir step show ?thesis by simp
    next
      case (Inr t')
      with ir have t': "tw_inv T t'" "tw_map T t' = (tw_map T t)(?k \<mapsto> ?v)" "2 ^ L \<le> length (data t')"
        by auto
      have "tw_result T L (tw_map T t' ++ map_of (drop (Suc j) es)) (reinsert_slot ins T s (Suc j) t')"
      proof (rule less.hyps)
        show "\<forall>p \<in> set (drop (Suc j) es). tw_map T t' (fst p) = None"
          using less.prems(4,5) by (auto simp: t'(2) dr rev_image_eqI)
        show "distinct (map fst (drop (Suc j) es))" using less.prems(4) by (simp add: dr)
      qed (use True jB t' in auto)
      moreover have "tw_map T t' ++ map_of (drop (Suc j) es) = tw_map T t ++ map_of (drop j es)"
        using less.prems(4) by (simp add: dr t'(2) split_def map_add_upd_left dom_map_of_conv_image_fst)
      ultimately show ?thesis using step Inr by simp
    qed
  qed
qed

lemma reinsert_all_result:
  assumes ins: "ins_spec T L ins" and r: "\<forall>s \<in> set ss. slot_rel T s (slot_entries T s)"
    and inv: "tw_inv T t" "2 ^ L \<le> length (data t)"
    and dis: "distinct (map fst (concat (map (slot_entries T) ss)))"
      "\<forall>p \<in> set (concat (map (slot_entries T) ss)). tw_map T t (fst p) = None"
  shows "tw_result T L (tw_map T t ++ map_of (concat (map (slot_entries T) ss))) (reinsert_all ins T ss t)"
  using r inv dis
proof (induction ss arbitrary: t)
  case Nil
  then show ?case by simp
next
  case (Cons s ss)
  let ?e = "slot_entries T s" and ?r = "concat (map (slot_entries T) ss)"
  have rs: "tw_result T L (tw_map T t ++ map_of (drop 0 ?e)) (reinsert_slot ins T s 0 t)"
    using Cons.prems by (intro reinsert_slot_result [OF ins]) auto
  show ?case
  proof (cases "reinsert_slot ins T s 0 t")
    case (Inl e)
    with rs show ?thesis by simp
  next
    case (Inr t')
    with rs have t': "tw_inv T t'" "tw_map T t' = tw_map T t ++ map_of ?e" "2 ^ L \<le> length (data t')"
      by auto
    have disj: "fst ` set ?e \<inter> fst ` set ?r = {}" using Cons.prems(4) by auto
    have "tw_result T L (tw_map T t' ++ map_of ?r) (reinsert_all ins T ss t')"
    proof (rule Cons.IH)
      show "\<forall>p \<in> set ?r. tw_map T t' (fst p) = None"
      proof
        fix p assume p: "p \<in> set ?r"
        then have "fst p \<notin> fst ` set ?e" using disj by auto
        then have "map_of ?e (fst p) = None" by (simp add: map_of_eq_None_iff)
        with p Cons.prems(5) show "tw_map T t' (fst p) = None" by (simp add: t'(2) map_add_def)
      qed
    qed (use Cons.prems t' in auto)
    moreover have "tw_map T t' ++ map_of ?r = tw_map T t ++ map_of (?e @ ?r)"
    proof -
      have "map_of ?r ++ map_of ?e = map_of ?e ++ map_of ?r"
        using disj by (intro map_add_comm) (auto simp: dom_map_of_conv_image_fst)
      then show ?thesis by (simp add: t'(2))
    qed
    ultimately show ?thesis using Inr by simp
  qed
qed

section \<open>grow and insert\<close>

lemma grow_with_result:
  fixes t :: "('k, 'v) two_way"
  assumes ins: "ins_spec T (Suc m) ins" and inv: "tw_inv T t" and len: "length (data t) = 2 ^ m"
  shows "tw_result T (Suc m) (tw_map T t) (grow_with ins T t)"
proof -
  obtain m' where m': "m' < 61" "length (data t) = 2 ^ m'" "capacity t = 2 ^ m'"
    "sizeof_slot T * 2 ^ m' < 2 ^ 62"
    using cap_word [OF inv_cap [OF inv]] .
  then have mm: "m' = m" using len by simp
  have cap: "capacity t * 2 = (2::u64) ^ Suc m" using m' mm by simp
  have c: "unat (capacity t * 2) = 2 ^ Suc m" unfolding cap using m'(1) mm by (intro unat_two_power) simp
  have small: "sizeof_slot T * 2 ^ Suc m < 2 ^ 63" using m'(4) mm by simp
  from alloc_slots_spec [OF c small, where 'v = 'v] show ?thesis
  proof (elim disjE exE conjE)
    assume "alloc_slots T (capacity t * 2) = (Inl OutOfMemory :: tw_error + ('k, 'v) slot list)"
    then show ?thesis by (simp add: grow_with_def Let_def)
  next
    fix d :: "('k, 'v) slot list" and n
    let ?t = "\<lparr>data = d, capacity = capacity t * 2, tsize = 0\<rparr>"
    assume a: "alloc_slots T (capacity t * 2) = Inr d" and d: "length d = 2 ^ Suc m"
      "\<forall>s \<in> set d. slot_rel T s ([] :: ('k \<times> 'v) list)" "sys_alloc T n" "sizeof_slot T * length d \<le> n"
    then have "\<exists>n. sys_alloc T n \<and> sizeof_slot T * length d \<le> n" by blast
    from fresh_table [OF d(1,2) c this] have f: "tw_inv T ?t" "tw_map T ?t = Map.empty" by auto
    have e: "concat (map (slot_entries T) (data t)) = tw_entries T t"
      by (simp add: tw_entries_def buckets_def)
    have "tw_result T (Suc m) (tw_map T ?t ++ map_of (concat (map (slot_entries T) (data t))))
        (reinsert_all ins T (data t) ?t)"
      using inv f d(1) inv_distinct [OF inv]
      by (intro reinsert_all_result [OF ins]) (auto simp: tw_inv_def e)
    then show ?thesis by (simp add: grow_with_def Let_def a f(2) e tw_map_def [of T t])
  qed
qed

lemma tw_result_mono: "tw_result T L' m r \<Longrightarrow> L \<le> L' \<Longrightarrow> tw_result T L m r"
  by (auto simp: tw_result_def split: sum.splits intro: le_trans [OF power_increasing])

lemma insert_step:
  fixes t :: "('k, 'v) two_way"
  assumes inv: "tw_inv T t" and k: "k \<noteq> EMPTY T" "tw_map T t k = None" and L: "2 ^ L \<le> length (data t)"
    and rec: "length (buckets T t ! unat (index_1 (trait_hash T k) (capacity t))) = BUCKET T \<Longrightarrow>
        length (buckets T t ! unat (index_2 (trait_hash T k) (capacity t))) = BUCKET T \<Longrightarrow>
        tw_result T L ((tw_map T t)(k \<mapsto> v))
          (case fuel of
             0 \<Rightarrow> Inl OutOfFuel
           | Suc f \<Rightarrow> (case grow_with (tw_insert f T) T t of
                        Inl e \<Rightarrow> Inl e
                      | Inr t' \<Rightarrow> tw_insert f T k v t'))"
  shows "tw_result T L ((tw_map T t)(k \<mapsto> v)) (tw_insert fuel T k v t)"
proof -
  let ?i1 = "unat (index_1 (trait_hash T k) (capacity t))"
  let ?i2 = "unat (index_2 (trait_hash T k) (capacity t))"
  let ?b1 = "buckets T t ! ?i1" and ?b2 = "buckets T t ! ?i2"
  note b = index_bound [OF inv_cap [OF inv], of "trait_hash T k"]
  note r = inv_slot [OF inv b(1)] inv_slot [OF inv b(2)]
  have le: "length ?b1 \<le> BUCKET T" "length ?b2 \<le> BUCKET T" using r by (auto simp: slot_rel_def)
  have homes: "home T (capacity t) k ?i1" "home T (capacity t) k ?i2" by (auto simp: home_def)
  note ins = tw_insert.simps [of fuel T k v t] candidates_eq [OF inv_cap [OF inv]]
    count_used_eq [OF r(1)] count_used_eq [OF r(2)]
  consider (full) "length ?b1 = BUCKET T" "length ?b2 = BUCKET T"
    | (first) "length ?b1 < BUCKET T" "length ?b1 \<le> length ?b2"
    | (second) "length ?b2 < BUCKET T" "\<not> length ?b1 \<le> length ?b2"
    using le by linarith
  then show ?thesis
  proof cases
    case full
    then show ?thesis using rec by (simp add: ins Let_def)
  next
    case first
    from inv_put [OF inv b(1) first(1) homes(1) k, of v] L first show ?thesis by (simp add: ins Let_def)
  next
    case second
    from inv_put [OF inv b(2) second(1) homes(2) k, of v] L second show ?thesis by (simp add: ins Let_def)
  qed
qed

lemma insert_grow:
  fixes t :: "('k, 'v) two_way"
  assumes inv: "tw_inv T t" and k: "k \<noteq> EMPTY T" "tw_map T t k = None"
    and len: "length (data t) = 2 ^ m" and rec: "ins_spec T (Suc m) (tw_insert f T :: _ \<Rightarrow> 'v \<Rightarrow> _)"
  shows "tw_result T (Suc m) ((tw_map T t)(k \<mapsto> v))
    (case grow_with (tw_insert f T) T t of Inl e \<Rightarrow> Inl e | Inr t' \<Rightarrow> tw_insert f T k v t')"
proof (cases "grow_with (tw_insert f T) T t")
  case (Inl e)
  with grow_with_result [OF rec inv len] show ?thesis by simp
next
  case (Inr t')
  with grow_with_result [OF rec inv len]
  have t': "tw_inv T t'" "tw_map T t' = tw_map T t" "2 ^ Suc m \<le> length (data t')" by auto
  have "tw_result T (Suc m) ((tw_map T t')(k \<mapsto> v)) (tw_insert f T k v t')"
    using k t'(2) by (intro ins_specD [OF rec t'(1) k(1) _ t'(3)]) simp
  with Inr t'(2) show ?thesis by simp
qed

lemma insert_spec:
  assumes "62 \<le> L + fuel"
  shows "ins_spec T L (tw_insert fuel T :: _ \<Rightarrow> 'v \<Rightarrow> _)"
  using assms
proof (induction fuel arbitrary: L)
  case 0
  have "\<not> tw_inv T t" if "2 ^ L \<le> length (data t)" for t :: "('k, 'v) two_way"
  proof
    assume "tw_inv T t"
    then obtain m where "m < 61" "length (data t) = 2 ^ m" using cap_word [OF inv_cap] by metis
    moreover from this that have "L \<le> m" by (metis power_increasing_iff one_less_numeral_iff semiring_norm(76))
    ultimately show False using 0 by simp
  qed
  then show ?case by (auto simp: ins_spec_def)
next
  case (Suc f)
  show ?case
    unfolding ins_spec_def
  proof (intro allI impI, elim conjE)
    fix k and v :: 'v and t :: "('k, 'v) two_way"
    assume inv: "tw_inv T t" and k: "k \<noteq> EMPTY T" "tw_map T t k = None" and L: "2 ^ L \<le> length (data t)"
    obtain m where m: "length (data t) = 2 ^ m" using cap_word [OF inv_cap [OF inv]] by metis
    have Lm: "L \<le> m" using L unfolding m by (metis power_increasing_iff one_less_numeral_iff semiring_norm(76))
    have "ins_spec T (Suc m) (tw_insert f T :: _ \<Rightarrow> 'v \<Rightarrow> _)" using Suc.prems Lm by (intro Suc.IH) simp
    from insert_grow [OF inv k m this, of v] show "tw_result T L ((tw_map T t)(k \<mapsto> v)) (tw_insert (Suc f) T k v t)"
      using Lm by (intro insert_step [OF inv k L]) (auto intro: tw_result_mono [of "Suc m"])
  qed
qed

end

end
