(* ===== verification/TwoWay_Props.thy ===== *)
theory TwoWay_Props
  imports TwoWay_Grow
begin

text \<open>
  Lookups, \<open>erase\<close>, \<open>clear\<close> and \<open>sum_all_values\<close> as operations on the map a table
  represents, then the properties of the two-way table, for every lawful trait, and the
  interpretations at the two traits of the repository.
\<close>

context two_way
begin

section \<open>Lookups\<close>

lemma lookup_loops:
  fixes t :: "('k, 'v) two_way"
  assumes inv: "tw_inv T t" and key: "key \<noteq> EMPTY T"
  defines "i1 \<equiv> unat (index_1 (trait_hash T key) (capacity t))"
    and "i2 \<equiv> unat (index_2 (trait_hash T key) (capacity t))"
  shows "case tw_map T t key of
      None \<Rightarrow> find_loop T (data t ! i1) (data t ! i2) key 0 steps = Inl OutOfBounds
    | Some v \<Rightarrow> \<exists>c<2 * BUCKET T. find_loop T (data t ! i1) (data t ! i2) key 0 steps = Inr (v, steps + of_nat c)"
    and "fst (contains_loop T (data t ! i1) (data t ! i2) key 0 steps) \<longleftrightarrow> key \<in> dom (tw_map T t)"
proof -
  let ?b1 = "buckets T t ! i1" and ?b2 = "buckets T t ! i2"
  note b = index_bound [OF inv_cap [OF inv], of "trait_hash T key", folded i1_def i2_def]
  note r = inv_slot [OF inv b(1)] inv_slot [OF inv b(2)]
  have le: "length ?b1 \<le> BUCKET T" "length ?b2 \<le> BUCKET T" using r by (auto simp: slot_rel_def)
  have val: "\<forall>p \<in> set ?b1 \<union> set ?b2. tw_map T t (fst p) = Some (snd p)"
    using bucket_lookup [OF inv b(1)] bucket_lookup [OF inv b(2)] by blast
  have there: "\<exists>i0. (i0 < length ?b1 \<and> fst (?b1 ! i0) = key) \<or> (i0 < length ?b2 \<and> fst (?b2 ! i0) = key)"
    if "tw_map T t key = Some v" for v
    using lookup_bucket [OF inv that] by (fold i1_def i2_def) (metis fst_conv in_set_conv_nth)
  show "case tw_map T t key of
      None \<Rightarrow> find_loop T (data t ! i1) (data t ! i2) key 0 steps = Inl OutOfBounds
    | Some v \<Rightarrow> \<exists>c<2 * BUCKET T. find_loop T (data t ! i1) (data t ! i2) key 0 steps = Inr (v, steps + of_nat c)"
  proof (cases "tw_map T t key")
    case None
    then have "\<forall>p \<in> set ?b1 \<union> set ?b2. fst p \<noteq> key" using val by (metis option.distinct(1))
    from find_loop_miss [OF r key this] None show ?thesis by simp
  next
    case (Some v)
    from there [OF this] obtain i0 where
      i0: "(i0 < length ?b1 \<and> fst (?b1 ! i0) = key) \<or> (i0 < length ?b2 \<and> fst (?b2 ! i0) = key)" ..
    have vals: "\<forall>p \<in> set ?b1 \<union> set ?b2. fst p = key \<longrightarrow> snd p = v" using val Some by (metis option.inject)
    from find_loop_hit [OF r key vals le0 i0, of steps] obtain c where
      c: "find_loop T (data t ! i1) (data t ! i2) key 0 steps = Inr (v, steps + of_nat c)" "c \<le> 2 * i0 + 1"
      by auto
    have "c < 2 * BUCKET T" using c(2) i0 le by auto
    with c(1) Some show ?thesis by auto
  qed
  have "(\<exists>j\<ge>0. (j < length ?b1 \<and> fst (?b1 ! j) = key) \<or> (j < length ?b2 \<and> fst (?b2 ! j) = key)) \<longleftrightarrow>
      key \<in> dom (tw_map T t)"
  proof
    assume "\<exists>j\<ge>0. (j < length ?b1 \<and> fst (?b1 ! j) = key) \<or> (j < length ?b2 \<and> fst (?b2 ! j) = key)"
    then obtain p where "p \<in> set ?b1 \<union> set ?b2" "fst p = key" by (metis UnI1 UnI2 nth_mem)
    with val show "key \<in> dom (tw_map T t)" by auto
  qed (use there in auto)
  then show "fst (contains_loop T (data t ! i1) (data t ! i2) key 0 steps) \<longleftrightarrow> key \<in> dom (tw_map T t)"
    by (simp only: contains_loop_iff [OF r key])
qed

lemma find_result:
  assumes "tw_inv T t" "key \<noteq> EMPTY T"
  shows "case tw_map T t key of
      None \<Rightarrow> tw_find T t key steps = Inl OutOfBounds
    | Some v \<Rightarrow> \<exists>c<2 * BUCKET T. tw_find T t key steps = Inr (v, steps + of_nat c)"
  using lookup_loops(1) [OF assms, of steps] candidates_eq [OF inv_cap [OF assms(1)]]
  by (auto simp: tw_find_def Let_def split: option.splits)

lemma contains_result:
  assumes "tw_inv T t" "key \<noteq> EMPTY T"
  shows "\<exists>c. tw_contains T t key steps = Inr (key \<in> dom (tw_map T t), c)"
  using lookup_loops(2) [OF assms, of steps] candidates_eq [OF inv_cap [OF assms(1)]]
  by (auto simp: tw_contains_def Let_def prod_eq_iff)

section \<open>erase, clear and the sum\<close>

lemma erase_loop_hit:
  fixes t :: "('k, 'v) two_way"
  assumes inv: "tw_inv T t" and key: "key \<noteq> EMPTY T" and m: "tw_map T t key = Some v"
    and b: "unat i1 < length (data t)" "unat i2 < length (data t)"
    and hit: "i \<le> i0" "(i0 < length (buckets T t ! unat i1) \<and> fst (buckets T t ! unat i1 ! i0) = key) \<or>
      (i0 < length (buckets T t ! unat i2) \<and> fst (buckets T t ! unat i2 ! i0) = key)"
  shows "\<exists>t'. erase_loop T i1 i2 (data t ! unat i1) (data t ! unat i2) key i t = Inr t' \<and>
    tw_inv T t' \<and> tw_map T t' = (tw_map T t)(key := None)"
  using hit
proof (induction "BUCKET T - i" arbitrary: i rule: less_induct)
  case less
  let ?s1 = "data t ! unat i1" and ?s2 = "data t ! unat i2"
  note r = inv_slot [OF inv b(1)] inv_slot [OF inv b(2)]
  have le: "length (buckets T t ! unat i1) \<le> BUCKET T" "length (buckets T t ! unat i2) \<le> BUCKET T"
    using r by (auto simp: slot_rel_def)
  then have iB: "i < BUCKET T" using less.prems by auto
  note k1 = slot_key_eq [OF r(1) iB key] and k2 = slot_key_eq [OF r(2) iB key]
  consider "slot_keys ?s1 ! i = key" | "slot_keys ?s1 ! i \<noteq> key" "slot_keys ?s2 ! i = key"
    | "slot_keys ?s1 ! i \<noteq> key" "slot_keys ?s2 ! i \<noteq> key" by blast
  then show ?case
  proof cases
    case 1
    then show ?thesis using inv_remove [OF inv b(1), of i key] k1 iB
      by (subst erase_loop.simps) simp
  next
    case 2
    then show ?thesis using inv_remove [OF inv b(2), of i key] k2 iB
      by (subst erase_loop.simps) simp
  next
    case 3
    then have "i \<noteq> i0" using k1 k2 less.prems by auto
    then have "\<exists>t'. erase_loop T i1 i2 ?s1 ?s2 key (Suc i) t = Inr t' \<and>
        tw_inv T t' \<and> tw_map T t' = (tw_map T t)(key := None)"
      using less.prems iB by (intro less.hyps) auto
    then show ?thesis using 3 iB by (subst erase_loop.simps) simp
  qed
qed

lemma erase_loop_miss:
  assumes inv: "tw_inv T t" and key: "key \<noteq> EMPTY T" and m: "tw_map T t key = None"
    and b: "unat i1 < length (data t)" "unat i2 < length (data t)"
  shows "erase_loop T i1 i2 (data t ! unat i1) (data t ! unat i2) key i t = Inl OutOfBounds"
proof (induction "BUCKET T - i" arbitrary: i rule: less_induct)
  case less
  show ?case
  proof (cases "i < BUCKET T")
    case True
    have "slot_keys (data t ! unat j) ! i \<noteq> key" if "unat j < length (data t)" for j :: u64
      using slot_key_eq [OF inv_slot [OF inv that] True key] bucket_lookup [OF inv that] m
      by (metis nth_mem option.distinct(1))
    moreover have "erase_loop T i1 i2 (data t ! unat i1) (data t ! unat i2) key (Suc i) t = Inl OutOfBounds"
      using True by (intro less.hyps) simp
    ultimately show ?thesis using True b by (subst erase_loop.simps) simp
  next
    case False
    then show ?thesis by (subst erase_loop.simps) simp
  qed
qed

lemma erase_result:
  assumes inv: "tw_inv T t" and key: "key \<noteq> EMPTY T"
  shows "case tw_map T t key of
      None \<Rightarrow> tw_erase T key t = Inl OutOfBounds
    | Some v \<Rightarrow> \<exists>t'. tw_erase T key t = Inr t' \<and> tw_inv T t' \<and> tw_map T t' = (tw_map T t)(key := None)"
proof -
  let ?i1 = "index_1 (trait_hash T key) (capacity t)" and ?i2 = "index_2 (trait_hash T key) (capacity t)"
  note b = index_bound [OF inv_cap [OF inv], of "trait_hash T key"]
  have e: "tw_erase T key t = erase_loop T ?i1 ?i2 (data t ! unat ?i1) (data t ! unat ?i2) key 0 t"
    using candidates_eq [OF inv_cap [OF inv]] by (simp add: tw_erase_def Let_def)
  show ?thesis
  proof (cases "tw_map T t key")
    case None
    with erase_loop_miss [OF inv key None b] e show ?thesis by simp
  next
    case (Some v)
    from lookup_bucket [OF inv Some] obtain i0 where
      "(i0 < length (buckets T t ! unat ?i1) \<and> fst (buckets T t ! unat ?i1 ! i0) = key) \<or>
       (i0 < length (buckets T t ! unat ?i2) \<and> fst (buckets T t ! unat ?i2 ! i0) = key)"
      by (metis fst_conv in_set_conv_nth)
    from erase_loop_hit [OF inv key Some b le0 this] e Some show ?thesis by simp
  qed
qed

lemma clear_result:
  assumes inv: "tw_inv T t"
  shows "tw_inv T (tw_clear T t) \<and> tw_map T (tw_clear T t) = Map.empty \<and> capacity (tw_clear T t) = capacity t"
proof -
  obtain m where m: "m < 61" "length (data t) = 2 ^ m" "capacity t = 2 ^ m"
    using cap_word [OF inv_cap [OF inv]] by metis
  let ?d = "fill_empty T (data t)"
  have d: "length ?d = 2 ^ m" by (simp add: fill_empty_def m)
  have v: "\<forall>s \<in> set (data t). length (slot_values s) = BUCKET T"
    using inv by (auto simp: tw_inv_def slot_rel_def)
  have "\<forall>s \<in> set ?d. slot_rel T s []" using v by (auto simp: fill_empty_def intro!: slot_rel_empty)
  moreover have "unat (capacity t) = 2 ^ m" using m by (simp add: unat_two_power)
  moreover have "\<exists>n. sys_alloc T n \<and> sizeof_slot T * length ?d \<le> n"
    using inv_cap [OF inv] by (simp add: cap_ok_def fill_empty_def)
  ultimately have "tw_inv T \<lparr>data = ?d, capacity = capacity t, tsize = 0\<rparr> \<and>
      tw_map T \<lparr>data = ?d, capacity = capacity t, tsize = 0\<rparr> = Map.empty"
    using d by (intro fresh_table) auto
  moreover have "tw_clear T t = \<lparr>data = ?d, capacity = capacity t, tsize = 0\<rparr>" by (simp add: tw_clear_def)
  ultimately show ?thesis by simp
qed

lemma sum_slots_eq:
  assumes "\<forall>s \<in> set ss. slot_rel T s (slot_entries T s)"
  shows "sum_slots T ss acc = Inr (acc + sum_list (map snd (concat (map (slot_entries T) ss))))"
  using assms
proof (induction ss arbitrary: acc)
  case (Cons s ss)
  then have "sum_slot T s 0 acc = Inr (acc + sum_list (map snd (slot_entries T s)))"
    using sum_slot_eq [of s "slot_entries T s" 0 acc] by simp
  with Cons show ?case by (simp add: add.assoc)
qed simp

lemma sum_result:
  assumes inv: "tw_inv T t"
  shows "sum_all_values T t = Inr (\<Sum>k\<in>dom (tw_map T t). the (tw_map T t k))"
proof -
  let ?es = "tw_entries T t"
  have dis: "distinct (map fst ?es)" by (rule inv_distinct [OF inv])
  have "sum_all_values T t = Inr (sum_list (map snd ?es))"
    using inv sum_slots_eq [of "data t" 0]
    by (simp add: sum_all_values_def tw_inv_def tw_entries_def buckets_def)
  also have "sum_list (map snd ?es) = sum_list (map (\<lambda>k. the (tw_map T t k)) (map fst ?es))"
    using dis by (auto simp: tw_map_def comp_def intro!: arg_cong [where f = sum_list] map_cong)
  also have "\<dots> = (\<Sum>k\<in>set (map fst ?es). the (tw_map T t k))"
    using dis by (rule sum_list_distinct_conv_sum_set)
  finally show ?thesis by (simp add: dom_tw_map)
qed

lemma size_result: "tw_inv T t \<Longrightarrow> tw_size t = of_nat (card (dom (tw_map T t)))"
  using inv_distinct [of t] distinct_card [of "map fst (tw_entries T t)"]
  by (simp add: tw_size_def dom_tw_map tw_inv_def)

lemma length_pos: "tw_inv T t \<Longrightarrow> Suc 0 \<le> length (data t)"
  by (metis cap_word inv_cap one_le_numeral one_le_power One_nat_def)

section \<open>Keys that share a hash\<close>

lemma hash_class_card:
  assumes inv: "tw_inv T t"
  shows "card {k \<in> dom (tw_map T t). trait_hash T k = h} \<le> 2 * BUCKET T"
proof -
  let ?i1 = "unat (index_1 h (capacity t))" and ?i2 = "unat (index_2 h (capacity t))"
  let ?b1 = "buckets T t ! ?i1" and ?b2 = "buckets T t ! ?i2"
  note b = index_bound [OF inv_cap [OF inv], of h]
  have len: "length ?b1 \<le> BUCKET T" "length ?b2 \<le> BUCKET T"
    using inv_slot [OF inv b(1)] inv_slot [OF inv b(2)] by (auto simp: slot_rel_def)
  have "{k \<in> dom (tw_map T t). trait_hash T k = h} \<subseteq> fst ` set ?b1 \<union> fst ` set ?b2"
  proof
    fix k assume "k \<in> {k \<in> dom (tw_map T t). trait_hash T k = h}"
    then obtain v where "tw_map T t k = Some v" "trait_hash T k = h" by auto
    with lookup_bucket [OF inv, of k v] show "k \<in> fst ` set ?b1 \<union> fst ` set ?b2" by (auto simp: rev_image_eqI)
  qed
  then have "card {k \<in> dom (tw_map T t). trait_hash T k = h} \<le> card (fst ` set ?b1 \<union> fst ` set ?b2)"
    by (intro card_mono) auto
  also have "\<dots> \<le> card (fst ` set ?b1) + card (fst ` set ?b2)" by (rule card_Un_le)
  also have "\<dots> \<le> length ?b1 + length ?b2"
    by (intro add_mono order_trans [OF card_image_le] card_length) auto
  finally show ?thesis using len by simp
qed

end

section \<open>The traits of the repository\<close>

lemma u64_trait_ok: "trait_ok (u64_trait alloc)"
proof -
  have "k < 0xFFFFFFFFFFFFFFFF \<longleftrightarrow> k \<noteq> 0xFFFFFFFFFFFFFFFF" for k :: u64
  proof -
    have m: "unat (0xFFFFFFFFFFFFFFFF :: u64) = 2 ^ 64 - 1" by simp
    have "unat k < 2 ^ 64" using unsigned_less [of k] by simp
    then show ?thesis unfolding word_less_nat_alt word_unat_eq_iff m by linarith
  qed
  then show ?thesis by (simp add: trait_ok_def u64_trait_def CACHE_LINE_def)
qed

lemma i32_trait_ok: "trait_ok (i32_trait alloc)"
proof -
  have "word_sless k 0x7FFFFFFF \<longleftrightarrow> k \<noteq> 0x7FFFFFFF" for k :: u32
  proof -
    have m: "sint (0x7FFFFFFF :: u32) = 2 ^ 31 - 1" by simp
    have "sint k < 2 ^ 31" using sint_lt [of k] by simp
    moreover have "k = 0x7FFFFFFF \<longleftrightarrow> sint k = sint (0x7FFFFFFF :: u32)" by (metis signed_word_eqI)
    ultimately show ?thesis unfolding word_sless_alt m by linarith
  qed
  then show ?thesis by (simp add: trait_ok_def i32_trait_def CACHE_LINE_def)
qed

lemma u64_EMPTY [simp]: "EMPTY (u64_trait alloc) = 0xFFFFFFFFFFFFFFFF"
  by (simp add: u64_trait_def)

interpretation u64: two_way "u64_trait alloc" for alloc
  by (rule two_wayI [OF u64_trait_ok])

interpretation i32: two_way "i32_trait alloc" for alloc
  by (rule two_wayI [OF i32_trait_ok])

section \<open>Histories of operations\<close>

text \<open>
  A client's history over the mutating operations, run on the table and, as the
  specification, on a finite map that refuses the histories the code does not support
  (inserting \<open>EMPTY\<close> or a key that is present, erasing a key that is absent).
\<close>

datatype ('k, 'v) tw_op = Insert 'k 'v | Erase 'k | Grow | Clear

fun tw_step :: "'k table_trait \<Rightarrow> ('k, 'v) tw_op \<Rightarrow> ('k, 'v) two_way \<Rightarrow> tw_error + ('k, 'v) two_way" where
  "tw_step T (Insert k v) t = tw_insert 64 T k v t"
| "tw_step T (Erase k) t = tw_erase T k t"
| "tw_step T Grow t = tw_grow 64 T t"
| "tw_step T Clear t = Inr (tw_clear T t)"

fun tw_run :: "'k table_trait \<Rightarrow> ('k, 'v) tw_op list \<Rightarrow> ('k, 'v) two_way \<Rightarrow> tw_error + ('k, 'v) two_way" where
  "tw_run T [] t = Inr t"
| "tw_run T (op # ops) t = (case tw_step T op t of Inl e \<Rightarrow> Inl e | Inr t' \<Rightarrow> tw_run T ops t')"

fun map_step :: "'k table_trait \<Rightarrow> ('k, 'v) tw_op \<Rightarrow> ('k \<rightharpoonup> 'v) \<Rightarrow> ('k \<rightharpoonup> 'v) option" where
  "map_step T (Insert k v) m = (if k = EMPTY T \<or> m k \<noteq> None then None else Some (m(k \<mapsto> v)))"
| "map_step T (Erase k) m = (if k = EMPTY T \<or> m k = None then None else Some (m(k := None)))"
| "map_step T Grow m = Some m"
| "map_step T Clear m = Some Map.empty"

fun map_run :: "'k table_trait \<Rightarrow> ('k, 'v) tw_op list \<Rightarrow> ('k \<rightharpoonup> 'v) \<Rightarrow> ('k \<rightharpoonup> 'v) option" where
  "map_run T [] m = Some m"
| "map_run T (op # ops) m = Option.bind (map_step T op m) (map_run T ops)"

context two_way
begin

lemma grow_result:
  fixes t :: "('k, 'v) two_way"
  assumes inv: "tw_inv T t" and fuel: "62 \<le> fuel" and m: "length (data t) = 2 ^ m"
  shows "tw_result T (Suc m) (tw_map T t) (tw_grow fuel T t)"
  unfolding tw_grow_def using fuel by (intro grow_with_result insert_spec inv m) simp

lemma step_result:
  fixes t :: "('k, 'v) two_way"
  assumes inv: "tw_inv T t" and m: "map_step T op (tw_map T t) = Some m'"
  shows "tw_result T 0 m' (tw_step T op t)"
proof (cases op)
  case (Insert k v)
  have "ins_spec T 0 (tw_insert 64 T :: _ \<Rightarrow> 'v \<Rightarrow> _)" by (rule insert_spec) simp
  from ins_specD [OF this inv, of k v] m Insert one_le_numeral
  show ?thesis
    by (cases "k = EMPTY T \<or> tw_map T t k \<noteq> None") (auto intro: length_pos inv)
next
  case (Erase k)
  then show ?thesis
    using erase_result [OF inv, of k] m length_pos
    by (auto split: option.splits if_splits)
next
  case Grow
  obtain j where "length (data t) = 2 ^ j" using cap_word [OF inv_cap [OF inv]] by metis
  from grow_result [OF inv _ this, of 64] tw_result_mono [of "Suc j" _ _ 0] m Grow
  show ?thesis by simp
next
  case Clear
  with clear_result [OF inv] m length_pos [of "tw_clear T t"] show ?thesis by simp
qed

lemma run_result:
  assumes "tw_inv T t" "map_run T ops (tw_map T t) = Some m'"
  shows "tw_result T 0 m' (tw_run T ops t)"
  using assms
proof (induction ops arbitrary: t)
  case Nil
  then show ?case using length_pos by simp
next
  case (Cons op ops)
  then obtain m1 where m1: "map_step T op (tw_map T t) = Some m1" "map_run T ops m1 = Some m'"
    by (cases "map_step T op (tw_map T t)") auto
  from step_result [OF Cons.prems(1) m1(1)] Cons.IH m1(2) show ?case
    by (cases "tw_step T op t") auto
qed

end

context two_way
begin

lemma finite_dom: "finite (dom (tw_map T t))"
  by (simp add: dom_tw_map)

lemma insert_result:
  fixes t :: "('k, 'v) two_way"
  assumes "tw_inv T t" "key \<noteq> EMPTY T" "tw_map T t key = None"
  shows "case tw_insert 64 T key val t of
      Inl e \<Rightarrow> e = OutOfMemory
    | Inr t' \<Rightarrow> tw_inv T t' \<and> tw_map T t' = (tw_map T t)(key \<mapsto> val) \<and>
               tw_size t' = of_nat (card (dom (tw_map T t)) + 1)"
proof -
  have "ins_spec T 0 (tw_insert 64 T :: _ \<Rightarrow> 'v \<Rightarrow> _)" by (rule insert_spec) simp
  from ins_specD [OF this assms, of val] length_pos [OF assms(1)]
  have r: "tw_result T 0 ((tw_map T t)(key \<mapsto> val)) (tw_insert 64 T key val t)" by simp
  have "card (insert key (dom (tw_map T t))) = card (dom (tw_map T t)) + 1"
    using assms(3) by (subst card_insert_disjoint) (auto simp: dom_tw_map [of t, symmetric] domIff finite_dom)
  with r show ?thesis by (auto split: sum.splits simp: size_result)
qed

lemma hash_class_full:
  fixes t :: "('k, 'v) two_way"
  assumes inv: "tw_inv T t" and key: "key \<noteq> EMPTY T" "tw_map T t key = None"
    and full: "card {k \<in> dom (tw_map T t). trait_hash T k = trait_hash T key} = 2 * BUCKET T"
  shows "tw_insert 64 T key val t = Inl OutOfMemory"
proof (cases "tw_insert 64 T key val t")
  case (Inl e)
  with insert_result [OF inv key, of val] show ?thesis by simp
next
  case (Inr t')
  with insert_result [OF inv key, of val]
  have t': "tw_inv T t'" "tw_map T t' = (tw_map T t)(key \<mapsto> val)" by auto
  let ?S = "{k \<in> dom (tw_map T t). trait_hash T k = trait_hash T key}"
  have "{k \<in> dom (tw_map T t'). trait_hash T k = trait_hash T key} = insert key ?S"
    using t'(2) by auto
  moreover have "finite ?S" by (simp add: dom_tw_map)
  moreover have "key \<notin> ?S" using key(2) by auto
  ultimately have "card {k \<in> dom (tw_map T t'). trait_hash T k = trait_hash T key} = Suc (2 * BUCKET T)"
    using full by simp
  with hash_class_card [OF t'(1), of "trait_hash T key"] show ?thesis by simp
qed

lemma grow_property:
  fixes t :: "('k, 'v) two_way"
  assumes "tw_inv T t"
  shows "case tw_grow 64 T t of
      Inl e \<Rightarrow> e = OutOfMemory
    | Inr t' \<Rightarrow> tw_inv T t' \<and> tw_map T t' = tw_map T t \<and> 2 * length (data t) \<le> length (data t')"
proof -
  obtain j where j: "length (data t) = 2 ^ j" using cap_word [OF inv_cap [OF assms]] by metis
  from grow_result [OF assms _ j, of 64] show ?thesis by (auto split: sum.splits simp: j)
qed

end

section \<open>A concrete table\<close>

text \<open>The table the constructor builds when the allocation succeeds, and the one after an insertion.\<close>

definition all_alloc :: "nat \<Rightarrow> bool" where
  "all_alloc n = True"

definition u64_new :: "(u64, u64) two_way" where
  "u64_new = \<lparr>data = replicate 8 \<lparr>slot_keys = replicate 4 0xFFFFFFFFFFFFFFFF, slot_values = replicate 4 None\<rparr>,
     capacity = 8, tsize = 0\<rparr>"

definition u64_one :: "(u64, u64) two_way" where
  "u64_one = projr (tw_insert 64 (u64_trait all_alloc) 7 70 u64_new)"

lemma tw_new_u64: "tw_new (u64_trait all_alloc) = Inr u64_new"
  by (simp add: tw_new_def alloc_slots_def aligned_alloc_def aligned_size_def u64_trait_def
      CACHE_LINE_def all_alloc_def Let_def fill_empty_def raw_slot_def u64_new_def)

lemma u64_new_ok: "tw_inv (u64_trait all_alloc) u64_new \<and> tw_map (u64_trait all_alloc) u64_new = Map.empty"
  using u64.tw_new_result [of all_alloc, where 'v = u64] by (simp add: tw_new_u64)

lemma u64_one_eq: "\<exists>t. tw_insert 64 (u64_trait all_alloc) 7 (70::u64) u64_new = Inr t"
  by (subst tw_insert.simps)
    (simp add: candidates_def slot_at_def u64_new_def u64_trait_def squirrel3_def Let_def index_1_def index_2_def
      count_used.simps)

lemma u64_one_ok:
  "tw_inv (u64_trait all_alloc) u64_one \<and> tw_map (u64_trait all_alloc) u64_one = [7 \<mapsto> 70]"
proof -
  have e: "(7::u64) \<noteq> EMPTY (u64_trait all_alloc)" by simp
  from u64_one_eq obtain t where "tw_insert 64 (u64_trait all_alloc) 7 (70::u64) u64_new = Inr t" ..
  then show ?thesis
    using u64.insert_result [of all_alloc u64_new 7 70] u64_new_ok e by (auto simp: u64_one_def)
qed

text \<open>A table of one-byte keys whose hashes all agree, two buckets of one entry filled.\<close>

definition same_trait :: "u8 table_trait" where
  "same_trait = \<lparr>key_lt = (<), EMPTY = 255, trait_hash = (\<lambda>k. 1), BUCKET = 1, sizeof_slot = 2,
     cache_line = 64, sys_alloc = (\<lambda>n. n < 2 ^ 62)\<rparr>"

definition same_new :: "(u8, u8) two_way" where
  "same_new = \<lparr>data = replicate 8 \<lparr>slot_keys = [255], slot_values = [None]\<rparr>, capacity = 8, tsize = 0\<rparr>"

definition same_two :: "(u8, u8) two_way" where
  "same_two = same_new\<lparr>data := (replicate 8 \<lparr>slot_keys = [255], slot_values = [None]\<rparr>)
     [1 := \<lparr>slot_keys = [5], slot_values = [Some 50]\<rparr>, 0 := \<lparr>slot_keys = [6], slot_values = [Some 60]\<rparr>],
     tsize := 2\<rparr>"

lemma same_trait_ok: "trait_ok same_trait"
proof -
  have "k < 255 \<longleftrightarrow> k \<noteq> 255" for k :: u8
  proof -
    have m: "unat (255 :: u8) = 255" by simp
    have "unat k < 2 ^ 8" using unsigned_less [of k] by simp
    then show ?thesis unfolding word_less_nat_alt word_unat_eq_iff m by auto
  qed
  then show ?thesis by (simp add: trait_ok_def same_trait_def)
qed

lemma same_trait_simps [simp]:
  "EMPTY same_trait = 255" "BUCKET same_trait = 1" "trait_hash same_trait k = 1"
  by (simp_all add: same_trait_def)

lemma same_two_ok: "tw_inv same_trait same_two \<and> tw_map same_trait same_two = [5 \<mapsto> 50, 6 \<mapsto> 60]"
proof -
  note T = two_wayI [OF same_trait_ok]
  have new: "tw_new same_trait = Inr same_new"
    by (simp add: tw_new_def alloc_slots_def aligned_alloc_def aligned_size_def same_trait_def
        Let_def fill_empty_def raw_slot_def same_new_def)
  have ok: "tw_inv same_trait same_new \<and> tw_map same_trait same_new = Map.empty"
    using two_way.tw_new_result [OF T, where 'v = u8] by (simp add: new)
  have run: "tw_run same_trait [Insert 5 50, Insert 6 60] same_new = Inr same_two"
    by (simp add: tw_insert.simps candidates_def slot_at_def same_new_def same_two_def same_trait_def
        Let_def index_1_def index_2_def count_used.simps put_slot_def)
  show ?thesis
    using two_way.run_result [OF T, of same_new "[Insert 5 50, Insert 6 60]" "[5 \<mapsto> 50, 6 \<mapsto> 60]"] ok run
    by (simp add: same_trait_def)
qed

section \<open>Properties\<close>

text \<open>
  C9. \<open>insert\<close> refines map update: on a table that keeps its invariant, for a fresh key
  other than \<open>EMPTY\<close>, it ends (64 nested growths are more than any table has room for)
  and either yields a table that keeps the invariant, represents the updated map and counts
  one more element, or an allocation failed; it never leaves the arrays it owns.
\<close>

theorem tw_insert_correct:
  assumes "trait_ok T" "tw_inv T t" "key \<noteq> EMPTY T" "tw_map T t key = None"
  shows "case tw_insert 64 T key val t of
      Inl e \<Rightarrow> e = OutOfMemory
    | Inr t' \<Rightarrow> tw_inv T t' \<and> tw_map T t' = (tw_map T t)(key \<mapsto> val) \<and>
               tw_size t' = of_nat (card (dom (tw_map T t)) + 1)"
  using assms by (intro two_way.insert_result [OF two_wayI])

theorem tw_insert_correct_witness:
  "\<exists>t'. tw_insert 64 (u64_trait all_alloc) 7 (70::u64) u64_new = Inr t' \<and> tw_map (u64_trait all_alloc) t' = [7 \<mapsto> 70]"
  using u64_one_eq tw_insert_correct [of "u64_trait all_alloc" u64_new 7 70] u64_new_ok
  by (auto simp: u64_trait_ok)

text \<open>
  C23. \<open>find\<close> returns the value of a key that is present after comparing at most
  \<open>2 * BUCKET\<close> keys (\<open>steps\<close> grows by less), and \<open>find_indexed\<close> with
  \<open>index_for\<close> does the same; on a key that is absent both read past the bucket.
\<close>

theorem tw_find_correct:
  assumes "trait_ok T" "tw_inv T t" "key \<noteq> EMPTY T"
  shows "(case tw_map T t key of
      None \<Rightarrow> tw_find T t key steps = Inl OutOfBounds
    | Some v \<Rightarrow> \<exists>c<2 * BUCKET T. tw_find T t key steps = Inr (v, steps + of_nat c)) \<and>
    tw_find_indexed T t key (index_for T key) steps = tw_find T t key steps"
  using two_way.find_result [OF two_wayI [OF assms(1)] assms(2,3), of steps]
  by (simp add: tw_find_def tw_find_indexed_def index_for_def Let_def)

theorem tw_find_correct_witness:
  "tw_find (u64_trait all_alloc) u64_one 8 0 = Inl OutOfBounds \<and>
   (\<exists>c. tw_find (u64_trait all_alloc) u64_one 7 0 = Inr (70, c))"
  using tw_find_correct [OF u64_trait_ok, of all_alloc u64_one 8 0]
    tw_find_correct [OF u64_trait_ok, of all_alloc u64_one 7 0] u64_one_ok
  by auto

text \<open>\<open>contains\<close> decides membership, for every key but \<open>EMPTY\<close>, within the buckets.\<close>

theorem tw_contains_correct:
  assumes "trait_ok T" "tw_inv T t" "key \<noteq> EMPTY T"
  shows "\<exists>c. tw_contains T t key steps = Inr (key \<in> dom (tw_map T t), c)"
  using assms by (intro two_way.contains_result [OF two_wayI])

theorem tw_contains_correct_witness:
  "\<exists>c. tw_contains (u64_trait all_alloc) u64_one 7 0 = Inr (True, c)"
  using tw_contains_correct [OF u64_trait_ok, of all_alloc u64_one 7 0] u64_one_ok
  by auto

text \<open>
  C10. \<open>erase\<close> of a key that is present removes exactly it and keeps the invariant, so the
  entries behind it in the bucket stay reachable; of an absent key it runs off the bucket.
\<close>

theorem tw_erase_correct:
  assumes "trait_ok T" "tw_inv T t" "key \<noteq> EMPTY T"
  shows "case tw_map T t key of
      None \<Rightarrow> tw_erase T key t = Inl OutOfBounds
    | Some v \<Rightarrow> \<exists>t'. tw_erase T key t = Inr t' \<and> tw_inv T t' \<and> tw_map T t' = (tw_map T t)(key := None)"
  using assms by (intro two_way.erase_result [OF two_wayI])

theorem tw_erase_correct_witness:
  "\<exists>t'. tw_erase (u64_trait all_alloc) 7 u64_one = Inr t' \<and> tw_map (u64_trait all_alloc) t' = Map.empty"
  using tw_erase_correct [OF u64_trait_ok, of all_alloc u64_one 7] u64_one_ok
  by auto

text \<open>
  C22. \<open>grow\<close> keeps the represented map and the invariant and at least doubles the number of
  slots (an insertion that finds both new buckets full grows again), or fails to allocate.
\<close>

theorem tw_grow_correct:
  assumes "trait_ok T" "tw_inv T t"
  shows "case tw_grow 64 T t of
      Inl e \<Rightarrow> e = OutOfMemory
    | Inr t' \<Rightarrow> tw_inv T t' \<and> tw_map T t' = tw_map T t \<and> 2 * length (data t) \<le> length (data t')"
  using assms by (intro two_way.grow_property [OF two_wayI])

theorem tw_grow_correct_witness:
  "case tw_grow 64 (u64_trait all_alloc) u64_one of Inl e \<Rightarrow> e = OutOfMemory
   | Inr t' \<Rightarrow> tw_map (u64_trait all_alloc) t' = [7 \<mapsto> 70]"
  using tw_grow_correct [OF u64_trait_ok, of all_alloc u64_one] u64_one_ok
  by (auto split: sum.splits)

text \<open>\<open>sum_all_values\<close> reads initialised memory only and is the sum over the represented map.\<close>

theorem sum_all_values_correct:
  fixes t :: "('k, 'v::comm_monoid_add) two_way"
  assumes "trait_ok T" "tw_inv T t"
  shows "sum_all_values T t = Inr (\<Sum>k\<in>dom (tw_map T t). the (tw_map T t k))"
  using assms by (intro two_way.sum_result [OF two_wayI])

theorem sum_all_values_correct_witness:
  "sum_all_values (u64_trait all_alloc) u64_one = Inr 70"
  using sum_all_values_correct [OF u64_trait_ok, of all_alloc u64_one] u64_one_ok by simp

text \<open>
  A table cannot hold more than \<open>2 * BUCKET\<close> keys with one hash: with that many present,
  inserting another key of the same hash doubles the table until an allocation fails.
\<close>

theorem tw_insert_same_hash:
  assumes "trait_ok T" "tw_inv T t" "key \<noteq> EMPTY T" "tw_map T t key = None"
    and "card {k \<in> dom (tw_map T t). trait_hash T k = trait_hash T key} = 2 * BUCKET T"
  shows "tw_insert 64 T key val t = Inl OutOfMemory"
  by (rule two_way.hash_class_full [OF two_wayI [OF assms(1)] assms(2-5)])

theorem tw_insert_same_hash_witness: "tw_insert 64 same_trait 7 70 same_two = Inl OutOfMemory"
proof -
  have m: "tw_map same_trait same_two = [5 \<mapsto> 50, 6 \<mapsto> 60]" and inv: "tw_inv same_trait same_two"
    using same_two_ok by auto
  have d: "{k \<in> dom (tw_map same_trait same_two). trait_hash same_trait k = trait_hash same_trait 7} = {5, 6}"
    unfolding m by auto
  have "card {k \<in> dom (tw_map same_trait same_two). trait_hash same_trait k = trait_hash same_trait 7}
      = 2 * BUCKET same_trait" unfolding d by simp
  from tw_insert_same_hash [OF same_trait_ok inv _ _ this] show ?thesis by (simp add: m)
qed

text \<open>
  C3. Every history of insertions, erasures, growths and clears the code supports, run from a
  new table, ends in a table that keeps the invariant and represents what the same history does
  to a finite map, unless an allocation fails.
\<close>

theorem tw_history_correct:
  fixes ops :: "('k, 'v) tw_op list"
  assumes "trait_ok T" "map_run T ops Map.empty = Some m" "tw_new T = Inr t"
  shows "case tw_run T ops t of
      Inl e \<Rightarrow> e = OutOfMemory
    | Inr t' \<Rightarrow> tw_inv T t' \<and> tw_map T t' = m \<and> tw_size t' = of_nat (card (dom m))"
proof -
  note T = two_wayI [OF assms(1)]
  have t: "tw_inv T t \<and> tw_map T t = Map.empty"
    using two_way.tw_new_result [OF T, where 'v = 'v] assms(3) by simp
  then have "tw_result T 0 m (tw_run T ops t)"
    using assms(2) by (intro two_way.run_result [OF T]) auto
  then show ?thesis using two_way.size_result [OF T] by (auto split: sum.splits)
qed

theorem tw_history_correct_witness:
  "case tw_run (u64_trait all_alloc) [Insert 7 (70::u64), Insert 9 1, Erase 7] u64_new of
     Inl e \<Rightarrow> e = OutOfMemory
   | Inr t' \<Rightarrow> tw_map (u64_trait all_alloc) t' = [9 \<mapsto> 1]"
proof -
  let ?ops = "[Insert 7 (70::u64), Insert 9 1, Erase 7]"
  have "map_run (u64_trait all_alloc) ?ops Map.empty = Some [9 \<mapsto> 1]"
    by simp
  from tw_history_correct [OF u64_trait_ok this tw_new_u64] show ?thesis
    by (cases "tw_run (u64_trait all_alloc) ?ops u64_new") (simp_all only: sum.case)
qed

end
