(* ===== verification/Bench.thy ===== *)
theory Bench
  imports TwoWay_Props Perf
begin

text \<open>
  The benchmark driver of \<^verbatim>\<open>src/bench.hpp\<close>: timing loops over a lookup function,
  and the benchmarks of the tables, which all build a map from the keys and look the lookup sets
  up in it. What a table must promise for that is the locale \<open>bench_map\<close>. The recorder is a
  parameter: what it reads is a function of what happened so far.
\<close>

section \<open>Results, events and errors\<close>

record bench_result =
  counter :: perf_counters
  bench_sum :: u64
  lookup_count :: u64

datatype bench_event = RDisable | REnable perf_counter_set | RGet perf_counter_set | Lookup u64

type_synonym clock = "bench_event list \<Rightarrow> perf_counter_set \<Rightarrow> perf_counters"

text \<open>An index past the span, a division by zero, or an error of the table under test.\<close>

datatype 'e bench_error = BadSpan | DivByZero | MapError 'e

type_synonym 'e lookup_fn = "u64 \<Rightarrow> u64 \<Rightarrow> 'e + u64 \<times> u64"

section \<open>The timing loops\<close>

text \<open>\<open>sum += lookup_fn(batch[i], &steps)\<close> for the \<open>n\<close> lookups from index \<open>idx\<close>.\<close>

fun batch_loop ::
  "'e lookup_fn \<Rightarrow> u64 list \<Rightarrow> nat \<Rightarrow> nat \<Rightarrow> u64 \<times> u64 \<times> bench_event list \<Rightarrow>
   'e bench_error + u64 \<times> u64 \<times> bench_event list" where
  "batch_loop f lookups idx 0 st = Inr st"
| "batch_loop f lookups idx (Suc n) (acc, steps, tr) =
     (if length lookups \<le> idx then Inl BadSpan
      else case f (lookups ! idx) steps of
             Inl e \<Rightarrow> Inl (MapError e)
           | Inr (v, steps') \<Rightarrow>
               batch_loop f lookups (Suc idx) n (acc + v, steps', tr @ [Lookup (lookups ! idx)]))"

fun iter_loop ::
  "'e lookup_fn \<Rightarrow> u64 list \<Rightarrow> nat \<Rightarrow> nat \<Rightarrow> nat \<Rightarrow> u64 \<times> u64 \<times> bench_event list \<Rightarrow>
   'e bench_error + u64 \<times> u64 \<times> bench_event list" where
  "iter_loop f lookups batch_size offset 0 st = Inr st"
| "iter_loop f lookups batch_size offset (Suc n) st =
     (if length lookups \<le> offset then Inl BadSpan
      else case batch_loop f lookups offset batch_size st of
             Inl e \<Rightarrow> Inl e
           | Inr st' \<Rightarrow> iter_loop f lookups batch_size (offset + batch_size) n st')"

definition benchmark_batch ::
  "clock \<Rightarrow> u64 list \<Rightarrow> nat \<Rightarrow> nat \<Rightarrow> 'e lookup_fn \<Rightarrow> perf_counter_set \<Rightarrow> nat \<Rightarrow> bench_event list \<Rightarrow>
   'e bench_error + perf_counters \<times> u64 \<times> bench_event list" where
  "benchmark_batch clk lookups batch_size iters f cset warmup_iters tr =
     (case (if 0 < warmup_iters then iter_loop f lookups batch_size 0 (min warmup_iters iters) (0, 0, tr)
            else Inr (0, 0, tr)) of
        Inl e \<Rightarrow> Inl e
      | Inr (warmup_sum, warmup_steps, tr) \<Rightarrow>
          (let tr = tr @ [RDisable, REnable cset];
               start = clk tr cset;
               tr = tr @ [RGet cset]
           in case iter_loop f lookups batch_size 0 iters (0, 0, tr) of
                Inl e \<Rightarrow> Inl e
              | Inr (acc, steps, tr) \<Rightarrow>
                  (let end_counters = clk tr cset
                   in Inr (pc_sub end_counters start, acc, tr @ [RGet cset, RDisable]))))"

definition merge_cache :: "perf_counters \<Rightarrow> perf_counters \<Rightarrow> perf_counters" where
  "merge_cache c d = c\<lparr>l1d_accesses := l1d_accesses d, l1d_misses := l1d_misses d,
     l1d_time_enabled := l1d_time_enabled d, l1d_time_running := l1d_time_running d,
     llc_accesses := llc_accesses d, llc_misses := llc_misses d,
     llc_time_enabled := llc_time_enabled d, llc_time_running := llc_time_running d\<rparr>"

definition benchmark_split ::
  "bool \<Rightarrow> clock \<Rightarrow> u64 list \<Rightarrow> nat \<Rightarrow> 'e lookup_fn \<Rightarrow> bench_event list \<Rightarrow>
   'e bench_error + bench_result \<times> bench_event list" where
  "benchmark_split linux clk lookups iters f tr =
     (if iters = 0 then Inl DivByZero
      else
        let batch_size = length lookups div iters
        in case benchmark_batch clk lookups batch_size iters f core_set 1 tr of
             Inl e \<Rightarrow> Inl e
           | Inr (cnt, acc, tr) \<Rightarrow>
               if \<not> linux
               then Inr (\<lparr>counter = cnt, bench_sum = acc, lookup_count = of_nat (length lookups)\<rparr>, tr)
               else
                 (case benchmark_batch clk lookups batch_size iters f cache_set 1 tr of
                    Inl e \<Rightarrow> Inl e
                  | Inr (cache_counter, cache_sum, tr) \<Rightarrow>
                      Inr (\<lparr>counter = merge_cache cnt cache_counter, bench_sum = acc + cache_sum,
                        lookup_count = of_nat (length lookups)\<rparr>, tr)))"

fun split_all ::
  "bool \<Rightarrow> clock \<Rightarrow> nat \<Rightarrow> 'e lookup_fn \<Rightarrow> u64 list list \<Rightarrow> bench_event list \<Rightarrow>
   'e bench_error + bench_result list \<times> bench_event list" where
  "split_all linux clk iters f [] tr = Inr ([], tr)"
| "split_all linux clk iters f (lookups # rest) tr =
     (case benchmark_split linux clk lookups iters f tr of
        Inl e \<Rightarrow> Inl e
      | Inr (r, tr) \<Rightarrow>
          (case split_all linux clk iters f rest tr of
             Inl e \<Rightarrow> Inl e
           | Inr (rs, tr) \<Rightarrow> Inr (r # rs, tr)))"

section \<open>The benchmarks\<close>

text \<open>
  The operations the benchmarks call on a table: construct one with room for \<open>n\<close> elements,
  add a key that is not in it, look a key up.
\<close>

record ('e, 's) map_impl =
  mk :: "nat \<Rightarrow> 'e + 's"
  add :: "u64 \<Rightarrow> u64 \<Rightarrow> 's \<Rightarrow> 'e + 's"
  look :: "'s \<Rightarrow> 'e lookup_fn"

fun add_keys :: "('e, 's) map_impl \<Rightarrow> u64 list \<Rightarrow> 's \<Rightarrow> 'e + 's" where
  "add_keys I [] s = Inr s"
| "add_keys I (k # ks) s = (case add I k k s of Inl e \<Rightarrow> Inl e | Inr s' \<Rightarrow> add_keys I ks s')"

text \<open>The common body of the \<open>benchmark_*\<close> functions.\<close>

definition benchmark_map ::
  "('e, 's) map_impl \<Rightarrow> bool \<Rightarrow> clock \<Rightarrow> u64 list \<Rightarrow> u64 list list \<Rightarrow> nat \<Rightarrow> bench_event list \<Rightarrow>
   'e bench_error + bench_result list \<times> bench_event list" where
  "benchmark_map I linux clk keys lookup_sets iters tr =
     (case mk I (length keys * 2) of
        Inl e \<Rightarrow> Inl (MapError e)
      | Inr s0 \<Rightarrow>
          (case add_keys I keys s0 of
             Inl e \<Rightarrow> Inl (MapError e)
           | Inr s \<Rightarrow> split_all linux clk iters (look I s) lookup_sets tr))"

definition twoway_impl :: "(nat \<Rightarrow> bool) \<Rightarrow> (tw_error, (u64, u64) two_way) map_impl" where
  "twoway_impl alloc = \<lparr>mk = (\<lambda>n. tw_new (u64_trait alloc)),
     add = tw_insert 64 (u64_trait alloc), look = tw_find (u64_trait alloc)\<rparr>"

definition benchmark_twoway ::
  "(nat \<Rightarrow> bool) \<Rightarrow> bool \<Rightarrow> clock \<Rightarrow> u64 list \<Rightarrow> u64 list list \<Rightarrow> nat \<Rightarrow> bench_event list \<Rightarrow>
   tw_error bench_error + bench_result list \<times> bench_event list" where
  "benchmark_twoway alloc = benchmark_map (twoway_impl alloc)"

text \<open>
  The standard maps: \<open>std::unordered_map\<close> is a finite map, \<open>std::flat_map\<close> built from
  \<open>sorted_unique\<close> items is the list of its items, searched by bisection on the keys; the
  iterator \<open>end()\<close> must not be read.
\<close>

datatype end_deref = EndDeref | NotSortedUnique

definition std_unordered_impl :: "(end_deref, u64 \<rightharpoonup> u64) map_impl" where
  "std_unordered_impl = \<lparr>mk = (\<lambda>n. Inr Map.empty),
     add = (\<lambda>k v m. Inr (if m k = None then m(k \<mapsto> v) else m)),
     look = (\<lambda>m k steps. case m k of None \<Rightarrow> Inl EndDeref | Some v \<Rightarrow> Inr (v, steps))\<rparr>"

definition benchmark_std_unordered_map ::
  "bool \<Rightarrow> clock \<Rightarrow> u64 list \<Rightarrow> u64 list list \<Rightarrow> nat \<Rightarrow> bench_event list \<Rightarrow>
   end_deref bench_error + bench_result list \<times> bench_event list" where
  "benchmark_std_unordered_map = benchmark_map std_unordered_impl"

text \<open>\<open>lower_bound\<close> on a sorted vector: the first index whose key is not below \<open>k\<close>.\<close>

function lower_bound :: "(u64 \<times> u64) list \<Rightarrow> u64 \<Rightarrow> nat \<Rightarrow> nat \<Rightarrow> nat" where
  "lower_bound items k lo hi =
     (if lo < hi
      then let mid = lo + (hi - lo) div 2
           in if fst (items ! mid) < k then lower_bound items k (Suc mid) hi
              else lower_bound items k lo mid
      else lo)"
  by pat_completeness auto
termination
  by (relation "measure (\<lambda>(items, k, lo, hi). hi - lo)") auto

definition flat_find :: "(u64 \<times> u64) list \<Rightarrow> u64 \<Rightarrow> u64 option" where
  "flat_find items k =
     (let i = lower_bound items k 0 (length items)
      in if i < length items \<and> fst (items ! i) = k then Some (snd (items ! i)) else None)"

definition benchmark_std_flat_map ::
  "bool \<Rightarrow> clock \<Rightarrow> u64 list \<Rightarrow> u64 list list \<Rightarrow> nat \<Rightarrow> bench_event list \<Rightarrow>
   end_deref bench_error + bench_result list \<times> bench_event list" where
  "benchmark_std_flat_map linux clk keys lookup_sets iters tr =
     (let items = map (\<lambda>key. (key, key)) keys
      in if \<not> sorted_wrt (<) (map fst items) then Inl (MapError NotSortedUnique)
         else split_all linux clk iters
           (\<lambda>k steps. case flat_find items k of None \<Rightarrow> Inl EndDeref | Some v \<Rightarrow> Inr (v, steps))
           lookup_sets tr)"

section \<open>What the loops compute\<close>

text \<open>A lookup function that finds every key of a list, whatever the step count.\<close>

definition finds :: "'e lookup_fn \<Rightarrow> (u64 \<Rightarrow> u64) \<Rightarrow> u64 list \<Rightarrow> bool" where
  "finds f g ks \<longleftrightarrow> (\<forall>k \<in> set ks. \<forall>steps. \<exists>steps'. f k steps = Inr (g k, steps'))"

lemma batch_loop_sum:
  assumes "finds f g lookups" "idx + n \<le> length lookups"
  shows "\<exists>steps'. batch_loop f lookups idx n (acc, steps, tr) =
    Inr (acc + sum_list (map g (take n (drop idx lookups))), steps',
         tr @ map Lookup (take n (drop idx lookups)))"
  using assms(2)
proof (induction n arbitrary: idx acc steps tr)
  case (Suc n)
  let ?k = "lookups ! idx"
  have d: "drop idx lookups = ?k # drop (Suc idx) lookups" using Suc.prems by (simp add: Cons_nth_drop_Suc)
  have "?k \<in> set lookups" using Suc.prems by simp
  then obtain s1 where "f ?k steps = Inr (g ?k, s1)" using assms(1) by (fastforce simp: finds_def)
  moreover obtain s2 where "batch_loop f lookups (Suc idx) n (acc + g ?k, s1, tr @ [Lookup ?k]) =
      Inr (acc + g ?k + sum_list (map g (take n (drop (Suc idx) lookups))), s2,
        (tr @ [Lookup ?k]) @ map Lookup (take n (drop (Suc idx) lookups)))"
    using Suc.IH [of "Suc idx"] Suc.prems by fastforce
  ultimately show ?case using Suc.prems by (simp add: d add.assoc)
qed simp

lemma iter_loop_sum:
  assumes f: "finds f g lookups" and "offset + n * b \<le> length lookups" "0 < b"
  shows "\<exists>steps'. iter_loop f lookups b offset n (acc, steps, tr) =
    Inr (acc + sum_list (map g (take (n * b) (drop offset lookups))), steps',
         tr @ map Lookup (take (n * b) (drop offset lookups)))"
  using assms(2)
proof (induction n arbitrary: offset acc steps tr)
  case (Suc n)
  let ?l1 = "take b (drop offset lookups)" and ?l2 = "take (n * b) (drop (offset + b) lookups)"
  have split: "take (Suc n * b) (drop offset lookups) = ?l1 @ ?l2"
    by (simp add: take_add add.commute)
  obtain s1 where s1: "batch_loop f lookups offset b (acc, steps, tr) =
      Inr (acc + sum_list (map g ?l1), s1, tr @ map Lookup ?l1)"
    using batch_loop_sum [OF f, of offset b acc steps tr] Suc.prems by auto
  obtain s2 where "iter_loop f lookups b (offset + b) n (acc + sum_list (map g ?l1), s1, tr @ map Lookup ?l1) =
      Inr ((acc + sum_list (map g ?l1)) + sum_list (map g ?l2), s2, (tr @ map Lookup ?l1) @ map Lookup ?l2)"
    using Suc.IH [of "offset + b"] Suc.prems by fastforce
  then show ?case using s1 Suc.prems assms(3) unfolding split by (simp add: add.assoc)
qed simp

lemma batch_result:
  fixes warmup :: nat and cset :: perf_counter_set and tr :: "bench_event list"
  assumes f: "finds f g lookups" and "iters * b \<le> length lookups" "0 < b"
  defines "w \<equiv> (if 0 < warmup then map Lookup (take (min warmup iters * b) lookups) else [])"
  defines "t1 \<equiv> tr @ w @ [RDisable, REnable cset]"
  defines "t2 \<equiv> t1 @ [RGet cset] @ map Lookup (take (iters * b) lookups)"
  shows "benchmark_batch clk lookups b iters f cset warmup tr =
    Inr (pc_sub (clk t2 cset) (clk t1 cset), sum_list (map g (take (iters * b) lookups)), t2 @ [RGet cset, RDisable])"
proof -
  have m: "min warmup iters * b \<le> length lookups"
    using assms(2) by (meson min.cobounded2 mult_le_mono1 order_trans)
  obtain s0 where w: "iter_loop f lookups b 0 (min warmup iters) (0, 0, tr) =
      Inr (sum_list (map g (take (min warmup iters * b) lookups)), s0,
        tr @ map Lookup (take (min warmup iters * b) lookups))"
    using iter_loop_sum [OF f, of 0 "min warmup iters" b 0 0 tr] m assms(3) by auto
  obtain s1 where l: "iter_loop f lookups b 0 iters (0, 0, t1 @ [RGet cset]) =
      Inr (sum_list (map g (take (iters * b) lookups)), s1, (t1 @ [RGet cset]) @ map Lookup (take (iters * b) lookups))"
    using iter_loop_sum [OF f, of 0 iters b 0 0 "t1 @ [RGet cset]"] assms(2,3) by auto
  show ?thesis
  proof (cases "0 < warmup")
    case True
    then have t1: "t1 = (tr @ map Lookup (take (min warmup iters * b) lookups)) @ [RDisable, REnable cset]"
      by (simp add: t1_def w_def)
    show ?thesis using True l w by (simp add: benchmark_batch_def Let_def t1 t2_def)
  next
    case False
    then have t1: "t1 = tr @ [RDisable, REnable cset]" by (simp add: t1_def w_def)
    show ?thesis using False l by (simp add: benchmark_batch_def Let_def t1 t2_def)
  qed
qed

lemma split_result:
  assumes f: "finds f g lookups" and iters: "0 < iters" "iters dvd length lookups" and ne: "lookups \<noteq> []"
  shows "\<exists>r tr'. benchmark_split linux clk lookups iters f tr = Inr (r, tr') \<and>
    bench_sum r = (if linux then 2 else 1) * sum_list (map g lookups) \<and>
    lookup_count r = of_nat (length lookups)"
proof -
  let ?b = "length lookups div iters"
  have b: "iters * ?b = length lookups" using iters by simp
  have b0: "0 < ?b" using iters ne by (metis b length_0_conv mult_0_right neq0_conv)
  have le: "iters * ?b \<le> length lookups" using b by simp
  obtain c1 t1 where 1: "benchmark_batch clk lookups ?b iters f core_set 1 tr = Inr (c1, sum_list (map g lookups), t1)"
    using batch_result [OF f le b0, of clk core_set 1 tr] b by simp
  obtain c2 t2 where 2: "benchmark_batch clk lookups ?b iters f cache_set 1 t1 = Inr (c2, sum_list (map g lookups), t2)"
    using batch_result [OF f le b0, of clk cache_set 1 t1] b by simp
  show ?thesis using iters by (cases linux) (simp_all add: benchmark_split_def Let_def 1 [unfolded One_nat_def] 2 [unfolded One_nat_def])
qed

lemma split_all_result:
  assumes "0 < iters"
    and "\<forall>ls \<in> set sets. finds f g ls \<and> iters dvd length ls \<and> ls \<noteq> []"
  shows "\<exists>rs tr'. split_all linux clk iters f sets tr = Inr (rs, tr') \<and>
    map bench_sum rs = map (\<lambda>ls. (if linux then 2 else 1) * sum_list (map g ls)) sets \<and>
    map lookup_count rs = map (\<lambda>ls. of_nat (length ls)) sets"
  using assms(2)
proof (induction sets arbitrary: tr)
  case (Cons ls sets)
  from Cons.prems obtain r t1 where 1: "benchmark_split linux clk ls iters f tr = Inr (r, t1)"
    "bench_sum r = (if linux then 2 else 1) * sum_list (map g ls)" "lookup_count r = of_nat (length ls)"
    using split_result [of f g ls iters linux clk tr] assms(1) by auto
  from Cons.IH [of t1] Cons.prems obtain rs t2 where "split_all linux clk iters f sets t1 = Inr (rs, t2)"
    "map bench_sum rs = map (\<lambda>ls. (if linux then 2 else 1) * sum_list (map g ls)) sets"
    "map lookup_count rs = map (\<lambda>ls. of_nat (length ls)) sets" by auto
  with 1 show ?case by simp
qed simp

section \<open>What a table must promise\<close>

text \<open>
  \<open>invar\<close> and \<open>abs\<close> are the representation of the table, \<open>fits\<close> the sizes it can be asked to
  reserve, \<open>key_ok\<close> the keys it accepts, \<open>may_fail\<close> the errors the environment can cause (a failed allocation).
\<close>

locale bench_map =
  fixes I :: "('e, 's) map_impl" and invar :: "'s \<Rightarrow> bool" and abs :: "'s \<Rightarrow> u64 \<rightharpoonup> u64"
    and fits :: "nat \<Rightarrow> bool" and key_ok :: "u64 \<Rightarrow> bool" and may_fail :: "'e \<Rightarrow> bool"
  assumes mk_ok: "fits n \<Longrightarrow> case mk I n of Inl e \<Rightarrow> may_fail e | Inr s \<Rightarrow> invar s \<and> abs s = Map.empty"
    and add_ok: "invar s \<Longrightarrow> key_ok k \<Longrightarrow> abs s k = None \<Longrightarrow>
      case add I k v s of Inl e \<Rightarrow> may_fail e | Inr s' \<Rightarrow> invar s' \<and> abs s' = (abs s)(k \<mapsto> v)"
    and look_ok: "invar s \<Longrightarrow> key_ok k \<Longrightarrow> abs s k = Some v \<Longrightarrow> \<exists>steps'. look I s k steps = Inr (v, steps')"
begin

lemma add_keys_ok:
  assumes "invar s" "\<forall>k \<in> set ks. key_ok k \<and> abs s k = None" "distinct ks"
  shows "case add_keys I ks s of Inl e \<Rightarrow> may_fail e
    | Inr s' \<Rightarrow> invar s' \<and> abs s' = abs s ++ (\<lambda>k. if k \<in> set ks then Some k else None)"
  using assms
proof (induction ks arbitrary: s)
  case Nil
  then show ?case by (simp add: map_add_def)
next
  case (Cons k ks)
  from add_ok [of s k k] Cons.prems
  have r: "case add I k k s of Inl e \<Rightarrow> may_fail e | Inr s' \<Rightarrow> invar s' \<and> abs s' = (abs s)(k \<mapsto> k)" by simp
  show ?case
  proof (cases "add I k k s")
    case (Inl e)
    with r show ?thesis by simp
  next
    case (Inr s')
    with r have s': "invar s'" "abs s' = (abs s)(k \<mapsto> k)" by auto
    have "case add_keys I ks s' of Inl e \<Rightarrow> may_fail e
      | Inr s'' \<Rightarrow> invar s'' \<and> abs s'' = abs s' ++ (\<lambda>k. if k \<in> set ks then Some k else None)"
      using Cons.prems s' by (intro Cons.IH) auto
    moreover have "abs s' ++ (\<lambda>k. if k \<in> set ks then Some k else None) =
        abs s ++ (\<lambda>j. if j \<in> set (k # ks) then Some j else None)"
      using s'(2) by (auto simp: map_add_def fun_eq_iff)
    ultimately show ?thesis using Inr by (simp split: sum.splits)
  qed
qed

text \<open>Once the keys are in, the lookups cannot fail.\<close>

lemma benchmark_returns:
  assumes keys: "distinct keys" "\<forall>k \<in> set keys. key_ok k" and fits: "fits (length keys * 2)"
    and iters: "0 < iters"
    and sets: "\<forall>ls \<in> set sets. set ls \<subseteq> set keys \<and> iters dvd length ls \<and> ls \<noteq> []"
    and mk: "mk I (length keys * 2) = Inr s0" and add: "add_keys I keys s0 = Inr s"
  shows "\<exists>rs tr'. benchmark_map I linux clk keys sets iters tr = Inr (rs, tr') \<and>
    map bench_sum rs = map (\<lambda>ls. (if linux then 2 else 1) * sum_list ls) sets"
proof -
  from mk_ok [OF fits] mk have s0: "invar s0" "abs s0 = Map.empty" by auto
  have "case add_keys I keys s0 of Inl e \<Rightarrow> may_fail e
    | Inr s' \<Rightarrow> invar s' \<and> abs s' = abs s0 ++ (\<lambda>k. if k \<in> set keys then Some k else None)"
    using s0 keys by (intro add_keys_ok) auto
  then have s': "invar s" "abs s = (\<lambda>k. if k \<in> set keys then Some k else None)"
    using s0(2) add by (auto simp: map_add_def fun_eq_iff split: option.splits)
  have "finds (look I s) (\<lambda>k. k) ls" if "set ls \<subseteq> set keys" for ls
    unfolding finds_def using that keys(2) s' by (intro ballI allI look_ok) auto
  then have "\<forall>ls \<in> set sets. finds (look I s) (\<lambda>k. k) ls \<and> iters dvd length ls \<and> ls \<noteq> []"
    using sets by simp
  from split_all_result [OF iters this, of linux clk tr] show ?thesis
    using mk add by (auto simp: benchmark_map_def)
qed

lemma benchmark_sums:
  assumes keys: "distinct keys" "\<forall>k \<in> set keys. key_ok k" and fits: "fits (length keys * 2)"
    and iters: "0 < iters"
    and sets: "\<forall>ls \<in> set sets. set ls \<subseteq> set keys \<and> iters dvd length ls \<and> ls \<noteq> []"
  shows "case benchmark_map I linux clk keys sets iters tr of
      Inl e \<Rightarrow> \<exists>e'. e = MapError e' \<and> may_fail e'
    | Inr (rs, tr') \<Rightarrow> map bench_sum rs = map (\<lambda>ls. (if linux then 2 else 1) * sum_list ls) sets"
proof (cases "mk I (length keys * 2)")
  case (Inl e)
  with mk_ok [OF fits] show ?thesis by (simp add: benchmark_map_def)
next
  case (Inr s0)
  with mk_ok [OF fits] have s0: "invar s0" "abs s0 = Map.empty" by auto
  have a: "case add_keys I keys s0 of Inl e \<Rightarrow> may_fail e
    | Inr s' \<Rightarrow> invar s' \<and> abs s' = abs s0 ++ (\<lambda>k. if k \<in> set keys then Some k else None)"
    using s0 keys by (intro add_keys_ok) auto
  show ?thesis
  proof (cases "add_keys I keys s0")
    case (Inl e)
    with a Inr show ?thesis by (simp add: benchmark_map_def)
  next
    case s: (Inr s)
    from benchmark_returns [OF keys fits iters sets Inr s, of linux clk tr] show ?thesis by auto
  qed
qed

end

section \<open>The tables under test\<close>

interpretation twoway: bench_map "twoway_impl alloc" "tw_inv (u64_trait alloc)" "tw_map (u64_trait alloc)"
  "\<lambda>n. True" "\<lambda>k. k \<noteq> 0xFFFFFFFFFFFFFFFF" "\<lambda>e. e = OutOfMemory" for alloc
proof
  fix n
  show "case mk (twoway_impl alloc) n of Inl e \<Rightarrow> e = OutOfMemory
    | Inr s \<Rightarrow> tw_inv (u64_trait alloc) s \<and> tw_map (u64_trait alloc) s = Map.empty"
    using u64.tw_new_result [of alloc, where 'v = u64] by (simp add: twoway_impl_def tw_result_def split: sum.splits)
next
  fix s :: "(u64, u64) two_way" and k v
  assume "tw_inv (u64_trait alloc) s" "k \<noteq> 0xFFFFFFFFFFFFFFFF" "tw_map (u64_trait alloc) s k = None"
  then show "case add (twoway_impl alloc) k v s of Inl e \<Rightarrow> e = OutOfMemory
    | Inr s' \<Rightarrow> tw_inv (u64_trait alloc) s' \<and> tw_map (u64_trait alloc) s' = (tw_map (u64_trait alloc) s)(k \<mapsto> v)"
    using u64.insert_result [of alloc s k v] by (simp add: twoway_impl_def split: sum.splits)
next
  fix s :: "(u64, u64) two_way" and k v steps
  assume "tw_inv (u64_trait alloc) s" "k \<noteq> 0xFFFFFFFFFFFFFFFF" "tw_map (u64_trait alloc) s k = Some v"
  then show "\<exists>steps'. look (twoway_impl alloc) s k steps = Inr (v, steps')"
    using u64.find_result [of alloc s k steps] by (auto simp: twoway_impl_def)
qed

interpretation std_unordered: bench_map std_unordered_impl "\<lambda>m. True" "\<lambda>m. m" "\<lambda>n. True" "\<lambda>k. True" "\<lambda>e. False"
  by standard (auto simp: std_unordered_impl_def)

section \<open>The flat map\<close>

declare lower_bound.simps [simp del]

lemma lower_bound_inv:
  assumes "sorted_wrt (<) (map fst items)" "lo \<le> hi" "hi \<le> length items"
    and "\<forall>i<lo. fst (items ! i) < k" "\<forall>i. hi \<le> i \<and> i < length items \<longrightarrow> \<not> fst (items ! i) < k"
  shows "lower_bound items k lo hi \<le> length items \<and>
    (\<forall>i<lower_bound items k lo hi. fst (items ! i) < k) \<and>
    (\<forall>i. lower_bound items k lo hi \<le> i \<and> i < length items \<longrightarrow> \<not> fst (items ! i) < k)"
  using assms(2-)
proof (induction "hi - lo" arbitrary: lo hi rule: less_induct)
  case less
  have mono: "fst (items ! i) < fst (items ! j)" if "i < j" "j < length items" for i j
    using assms(1) that by (simp add: sorted_wrt_iff_nth_less)
  show ?case
  proof (cases "lo < hi")
    case False
    then have "lower_bound items k lo hi = lo" by (subst lower_bound.simps) simp
    moreover have "lo = hi" using False less.prems(1) by simp
    ultimately show ?thesis using less.prems by simp
  next
    case True
    let ?m = "lo + (hi - lo) div 2"
    have m: "lo \<le> ?m" "?m < hi" using True by auto
    show ?thesis
    proof (cases "fst (items ! ?m) < k")
      case b: True
      have "\<forall>i<Suc ?m. fst (items ! i) < k"
      proof (intro allI impI)
        fix i assume "i < Suc ?m"
        then consider "i = ?m" | "i < ?m" by linarith
        then show "fst (items ! i) < k"
          using b mono [of i ?m] m less.prems by cases (simp, force)
      qed
      then have "lower_bound items k (Suc ?m) hi \<le> length items \<and>
          (\<forall>i<lower_bound items k (Suc ?m) hi. fst (items ! i) < k) \<and>
          (\<forall>i. lower_bound items k (Suc ?m) hi \<le> i \<and> i < length items \<longrightarrow> \<not> fst (items ! i) < k)"
        using less.prems m by (intro less.hyps) auto
      moreover have "lower_bound items k lo hi = lower_bound items k (Suc ?m) hi"
        using True b by (subst lower_bound.simps) (simp add: Let_def)
      ultimately show ?thesis by simp
    next
      case b: False
      have "\<forall>i. ?m \<le> i \<and> i < length items \<longrightarrow> \<not> fst (items ! i) < k"
      proof (intro allI impI)
        fix i assume i: "?m \<le> i \<and> i < length items"
        then consider "i = ?m" | "?m < i" by linarith
        then show "\<not> fst (items ! i) < k"
          using b mono [of ?m i] i by cases (simp, force)
      qed
      then have "lower_bound items k lo ?m \<le> length items \<and>
          (\<forall>i<lower_bound items k lo ?m. fst (items ! i) < k) \<and>
          (\<forall>i. lower_bound items k lo ?m \<le> i \<and> i < length items \<longrightarrow> \<not> fst (items ! i) < k)"
        using less.prems m by (intro less.hyps) auto
      moreover have "lower_bound items k lo hi = lower_bound items k lo ?m"
        using True b by (subst lower_bound.simps) (simp add: Let_def)
      ultimately show ?thesis by simp
    qed
  qed
qed

lemma flat_find_map_of:
  assumes s: "sorted_wrt (<) (map fst items)"
  shows "flat_find items k = map_of items k"
proof -
  define i where "i = lower_bound items k 0 (length items)"
  have i: "\<forall>j<i. fst (items ! j) < k" "\<forall>j. i \<le> j \<and> j < length items \<longrightarrow> \<not> fst (items ! j) < k"
  proof -
    have "\<forall>j<0. fst (items ! j) < k" "\<forall>j. length items \<le> j \<and> j < length items \<longrightarrow> \<not> fst (items ! j) < k"
      by (simp, meson leD)
    from lower_bound_inv [OF s le0 order.refl this] show
      "\<forall>j<i. fst (items ! j) < k" "\<forall>j. i \<le> j \<and> j < length items \<longrightarrow> \<not> fst (items ! j) < k"
      unfolding i_def by blast+
  qed
  have f: "flat_find items k = (if i < length items \<and> fst (items ! i) = k then Some (snd (items ! i)) else None)"
    by (simp only: flat_find_def Let_def i_def)
  have mono: "fst (items ! a) < fst (items ! b)" if "a < b" "b < length items" for a b
    using s that by (simp add: sorted_wrt_iff_nth_less)
  have dis: "distinct (map fst items)"
    using s by (simp only: strict_sorted_iff)
  have hit: "i = j" if "j < length items" "fst (items ! j) = k" for j
  proof (rule antisym)
    show "i \<le> j" using i(1) that(2) by (auto simp: not_less [symmetric])
    show "j \<le> i"
    proof (rule ccontr)
      assume "\<not> j \<le> i"
      then have "fst (items ! i) < k" using mono [of i j] that by simp
      with i(2) that(1) \<open>\<not> j \<le> i\<close> show False by simp
    qed
  qed
  show ?thesis
  proof (cases "map_of items k")
    case None
    then have "k \<notin> fst ` set items" by (simp add: map_of_eq_None_iff)
    then have "\<not> (i < length items \<and> fst (items ! i) = k)" by (metis imageI nth_mem)
    with None f show ?thesis by simp
  next
    case (Some v)
    then have "(k, v) \<in> set items" by (rule map_of_SomeD)
    then obtain j where j: "j < length items" "items ! j = (k, v)" by (auto simp: in_set_conv_nth)
    then have "i = j" by (intro hit) simp_all
    with j f Some show ?thesis by simp
  qed
qed

lemma flat_map_sums:
  assumes "sorted_wrt (<) keys" "0 < iters"
    and sets: "\<forall>ls \<in> set sets. set ls \<subseteq> set keys \<and> iters dvd length ls \<and> ls \<noteq> []"
  shows "\<exists>rs tr'. benchmark_std_flat_map linux clk keys sets iters tr = Inr (rs, tr') \<and>
    map bench_sum rs = map (\<lambda>ls. (if linux then 2 else 1) * sum_list ls) sets"
proof -
  let ?items = "map (\<lambda>key. (key, key)) keys"
  let ?f = "\<lambda>k steps. case flat_find ?items k of None \<Rightarrow> Inl EndDeref | Some v \<Rightarrow> Inr (v, steps)"
  have s: "sorted_wrt (<) (map fst ?items)" using assms(1) by (simp add: comp_def)
  have "flat_find ?items k = Some k" if "k \<in> set keys" for k
    unfolding flat_find_map_of [OF s] using that by (induction keys) auto
  then have "finds ?f (\<lambda>k. k) ls" if "set ls \<subseteq> set keys" for ls
    using that by (auto simp: finds_def)
  then have "\<forall>ls \<in> set sets. finds ?f (\<lambda>k. k) ls \<and> iters dvd length ls \<and> ls \<noteq> []" using sets by simp
  from split_all_result [OF assms(2) this, of linux clk tr] s show ?thesis
    by (auto simp: benchmark_std_flat_map_def Let_def)
qed

end
