(* ===== verification/Report.thy ===== *)
theory Report
  imports Bench
begin

text \<open>
  The program of \<^verbatim>\<open>src/main.cpp\<close>: keys and lookup sets, the six benchmarks of one
  size, the result table and its printing, and \<open>main\<close>. The random generator and the
  distribution are parameters. Output is the list of printed lines; \<open>None\<close> is undefined
  behaviour (signed overflow of the 128-bit product, an index past a vector).
\<close>

section \<open>Keys and lookup sets\<close>

definition ITERS :: nat where "ITERS = 100000"
definition BATCH_SIZE :: "nat list" where "BATCH_SIZE = [1, 2, 4, 8, 16, 32, 64, 128]"
definition NUM_KEYS_SHIFT :: "nat list" where "NUM_KEYS_SHIFT = [8, 10, 12, 14, 16]"

definition make_keys :: "nat \<Rightarrow> u64 list" where
  "make_keys num_keys = map (\<lambda>i. of_nat i + 1) [0..<num_keys]"

text \<open>\<open>dist(rng)\<close>: the next index and the generator after it.\<close>

fun draw_keys :: "('g \<Rightarrow> nat \<times> 'g) \<Rightarrow> u64 list \<Rightarrow> nat \<Rightarrow> 'g \<Rightarrow> u64 list \<times> 'g" where
  "draw_keys draw keys 0 g = ([], g)"
| "draw_keys draw keys (Suc n) g =
     (let (i, g) = draw g; (ks, g) = draw_keys draw keys n g in (keys ! i # ks, g))"

fun random_sets :: "('g \<Rightarrow> nat \<times> 'g) \<Rightarrow> u64 list \<Rightarrow> nat list \<Rightarrow> 'g \<Rightarrow> u64 list list \<times> 'g" where
  "random_sets draw keys [] g = ([], g)"
| "random_sets draw keys (b # bs) g =
     (let (ls, g) = draw_keys draw keys (ITERS * b) g; (rest, g) = random_sets draw keys bs g
      in (ls # rest, g))"

definition make_random_lookup_sets :: "('g \<Rightarrow> nat \<times> 'g) \<Rightarrow> u64 list \<Rightarrow> 'g \<Rightarrow> u64 list list \<times> 'g" where
  "make_random_lookup_sets draw keys g = random_sets draw keys BATCH_SIZE g"

definition make_dense_lookup_sets :: "u64 list \<Rightarrow> u64 list list" where
  "make_dense_lookup_sets keys =
     map (\<lambda>batch_size. map (\<lambda>i. keys ! (i mod length keys)) [0..<ITERS * batch_size]) BATCH_SIZE"

section \<open>The six benchmarks\<close>

record bench_set =
  shift :: nat
  boost :: "bench_result list"
  twoway :: "bench_result list"
  absl :: "bench_result list"
  fph :: "bench_result list"
  std_map :: "bench_result list"
  flat :: "bench_result list"

type_synonym 'e benchmark =
  "u64 list \<Rightarrow> u64 list list \<Rightarrow> nat \<Rightarrow> bench_event list \<Rightarrow> 'e bench_error + bench_result list \<times> bench_event list"

record 'e benchmarks =
  benchmark_boost :: "'e benchmark"
  benchmark_two_way :: "'e benchmark"
  benchmark_absl :: "'e benchmark"
  benchmark_fph :: "'e benchmark"
  benchmark_std :: "'e benchmark"
  benchmark_flat :: "'e benchmark"

fun run_all :: "'e benchmark list \<Rightarrow> u64 list \<Rightarrow> u64 list list \<Rightarrow> bench_event list \<Rightarrow>
    'e bench_error + bench_result list list \<times> bench_event list" where
  "run_all [] keys sets tr = Inr ([], tr)"
| "run_all (b # bs) keys sets tr =
     (case b keys sets ITERS tr of
        Inl e \<Rightarrow> Inl e
      | Inr (rs, tr) \<Rightarrow>
          (case run_all bs keys sets tr of Inl e \<Rightarrow> Inl e | Inr (rest, tr) \<Rightarrow> Inr (rs # rest, tr)))"

text \<open>The braced initialiser evaluates the six calls in order.\<close>

definition run_benchmarks ::
  "'e benchmarks \<Rightarrow> nat \<Rightarrow> u64 list \<Rightarrow> u64 list list \<Rightarrow> bench_event list \<Rightarrow>
   'e bench_error + bench_set \<times> bench_event list" where
  "run_benchmarks B sh keys sets tr =
     (case run_all [benchmark_boost B, benchmark_two_way B, benchmark_absl B, benchmark_fph B,
        benchmark_std B, benchmark_flat B] keys sets tr of
        Inl e \<Rightarrow> Inl e
      | Inr (rs, tr) \<Rightarrow> Inr (\<lparr>shift = sh, boost = rs ! 0, twoway = rs ! 1, absl = rs ! 2, fph = rs ! 3,
          std_map = rs ! 4, flat = rs ! 5\<rparr>, tr))"

section \<open>Cells\<close>

definition hit_rate_percent :: "u64 \<Rightarrow> u64 \<Rightarrow> string" where
  "hit_rate_percent accs miss =
     (if accs = 0 then ''na''
      else if accs \<le> miss then ''0''
      else dec_u64 (100 - miss * 100 div accs))"

text \<open>
  The product is a signed 128-bit multiplication of non-negative values, undefined from
  \<open>2^127\<close> on.
\<close>

definition scale_counter :: "u64 \<Rightarrow> u64 \<Rightarrow> u64 \<Rightarrow> u64 option" where
  "scale_counter cnt enabled running =
     (if enabled = 0 \<or> running = 0 then Some cnt
      else if enabled = running then Some cnt
      else if 2 ^ 127 \<le> unat cnt * unat enabled then None
      else Some (of_nat (unat cnt * unat enabled div unat running)))"

definition format_cell :: "bench_result \<Rightarrow> string option" where
  "format_cell r =
     (let c = counter r in
      Option.bind (scale_counter (cycles c) (core_time_enabled c) (core_time_running c)) (\<lambda>cyc.
      Option.bind (scale_counter (branches c) (core_time_enabled c) (core_time_running c)) (\<lambda>br.
      Option.bind (scale_counter (missed_branches c) (core_time_enabled c) (core_time_running c)) (\<lambda>mbr.
      Option.bind (scale_counter (l1d_accesses c) (l1d_time_enabled c) (l1d_time_running c)) (\<lambda>l1a.
      Option.bind (scale_counter (l1d_misses c) (l1d_time_enabled c) (l1d_time_running c)) (\<lambda>l1m.
      Option.bind (scale_counter (llc_accesses c) (llc_time_enabled c) (llc_time_running c)) (\<lambda>lla.
      Option.bind (scale_counter (llc_misses c) (llc_time_enabled c) (llc_time_running c)) (\<lambda>llm.
        let per_lookup = (if lookup_count r = 0 then 0 else cyc div lookup_count r)
        in Some (dec_u64 per_lookup @ ''/'' @ hit_rate_percent br mbr @ ''/'' @
             hit_rate_percent l1a l1m @ ''/'' @ hit_rate_percent lla llm)))))))))"

section \<open>The table\<close>

record table =
  headers :: "string list"
  rows :: "string list list"
  widths :: "nat list"

fun all_some :: "'a option list \<Rightarrow> 'a list option" where
  "all_some [] = Some []"
| "all_some (x # xs) = Option.bind x (\<lambda>y. Option.bind (all_some xs) (\<lambda>ys. Some (y # ys)))"

definition make_row :: "string \<Rightarrow> bench_result list \<Rightarrow> string list option" where
  "make_row name results = Option.bind (all_some (map format_cell results)) (\<lambda>cells. Some (name # cells))"

text \<open>\<open>row[idx]\<close> of a row shorter than the headers is a read past the vector.\<close>

definition column_width :: "string list \<Rightarrow> string list list \<Rightarrow> nat \<Rightarrow> nat option" where
  "column_width hs rs idx =
     (if \<exists>row \<in> set rs. length row \<le> idx then None
      else Some (fold (\<lambda>row w. max w (length (row ! idx))) rs (max 0 (length (hs ! idx))) + 2))"

definition make_table :: "bench_set \<Rightarrow> table option" where
  "make_table s =
     (let hs = ''kind'' # map dec_digits BATCH_SIZE in
      Option.bind (all_some [make_row ''boost'' (boost s), make_row ''twoway'' (twoway s),
        make_row ''absl'' (absl s), make_row ''fph'' (fph s), make_row ''std'' (std_map s),
        make_row ''flat'' (flat s)]) (\<lambda>rs.
      Option.bind (all_some (map (column_width hs rs) [0..<length hs])) (\<lambda>ws.
        Some \<lparr>headers = hs, rows = rs, widths = ws\<rparr>)))"

definition grid_width :: "nat list \<Rightarrow> nat" where
  "grid_width ws = fold (\<lambda>column_width width. width + (column_width + 1)) ws 1"

definition align_cell :: "string \<Rightarrow> nat \<Rightarrow> bool \<Rightarrow> string" where
  "align_cell v width right_align =
     (if width \<le> length v then v
      else let padding = width - length v
           in if right_align then replicate padding CHR '' '' @ v else v @ replicate padding CHR '' '')"

definition rule_line :: "nat list \<Rightarrow> string" where
  "rule_line ws = concat (map (\<lambda>w. CHR ''+'' # replicate w CHR ''-'') ws) @ ''+''"

text \<open>
  \<open>print_row\<close>: the widths drive the loop. A width below 2 wraps the unsigned difference and a
  short row is read past its end.
\<close>

fun row_cells :: "nat list \<Rightarrow> bool list \<Rightarrow> string list \<Rightarrow> string option" where
  "row_cells [] aligns row = Some []"
| "row_cells (w # ws) (a # aligns) (cell # row) =
     (if w < 2 then None
      else Option.bind (row_cells ws aligns row) (\<lambda>rest. Some (''| '' @ align_cell cell (w - 2) a @ '' '' @ rest)))"
| "row_cells ws aligns row = None"

definition row_line :: "nat list \<Rightarrow> bool list \<Rightarrow> string list \<Rightarrow> string option" where
  "row_line ws aligns row = map_option (\<lambda>l. l @ ''|'') (row_cells ws aligns row)"

definition print_table :: "table \<Rightarrow> string list option" where
  "print_table t =
     (let aligns = (replicate (length (headers t)) True)[0 := False]; ws = widths t in
      Option.bind (row_line ws aligns (headers t)) (\<lambda>h.
      Option.bind (all_some (map (row_line ws aligns) (rows t))) (\<lambda>rs.
        Some ([rule_line ws, h, rule_line ws] @ rs @ [rule_line ws]))))"

text \<open>\<open>"{:^{}}"\<close>: centred, the odd blank on the right.\<close>

definition centre :: "string \<Rightarrow> nat \<Rightarrow> string" where
  "centre title width =
     (if width \<le> length title then title
      else let total = width - length title; left = total div 2
           in replicate left CHR '' '' @ title @ replicate (total - left) CHR '' '')"

fun print_entries :: "nat \<Rightarrow> (nat \<times> table) list \<Rightarrow> string list option" where
  "print_entries max_width [] = Some []"
| "print_entries max_width ((sh, t) # rest) =
     Option.bind (print_table t) (\<lambda>lines.
     Option.bind (print_entries max_width rest) (\<lambda>more.
       Some ([[], centre (''N = '' @ dec_digits (2 ^ sh) @ '' (1 << '' @ dec_digits sh @ '')'') max_width]
         @ lines @ [[]] @ more)))"

definition print_section :: "string \<Rightarrow> bench_set list \<Rightarrow> string list option" where
  "print_section title results =
     Option.bind (all_some (map make_table results)) (\<lambda>ts.
       let max_width = fold (\<lambda>t w. max w (grid_width (widths t))) ts 0
       in Option.bind (print_entries max_width (zip (map shift results) ts)) (\<lambda>lines.
            Some ([replicate max_width CHR ''-'', [], centre title max_width] @ lines)))"

section \<open>main\<close>

definition bench_shift ::
  "'e benchmarks \<Rightarrow> (u64 \<Rightarrow> 'g) \<Rightarrow> (nat \<Rightarrow> 'g \<Rightarrow> nat \<times> 'g) \<Rightarrow> nat \<Rightarrow> bench_event list \<Rightarrow>
   'e bench_error + (bench_set \<times> bench_set) \<times> bench_event list" where
  "bench_shift B seed draw sh tr =
     (let num_keys = 2 ^ sh;
          keys = make_keys num_keys;
          lookup_sets = fst (make_random_lookup_sets (draw (length keys)) keys (seed (0xC0FFEE XOR of_nat num_keys)));
          dense_lookup_sets = make_dense_lookup_sets keys
      in case run_benchmarks B sh keys lookup_sets tr of
           Inl e \<Rightarrow> Inl e
         | Inr (random_set, tr) \<Rightarrow>
             (case run_benchmarks B sh keys dense_lookup_sets tr of
                Inl e \<Rightarrow> Inl e
              | Inr (dense_set, tr) \<Rightarrow> Inr ((random_set, dense_set), tr)))"

fun bench_shifts ::
  "'e benchmarks \<Rightarrow> (u64 \<Rightarrow> 'g) \<Rightarrow> (nat \<Rightarrow> 'g \<Rightarrow> nat \<times> 'g) \<Rightarrow> nat list \<Rightarrow> bench_event list \<Rightarrow>
   'e bench_error + (bench_set \<times> bench_set) list \<times> bench_event list" where
  "bench_shifts B seed draw [] tr = Inr ([], tr)"
| "bench_shifts B seed draw (sh # shs) tr =
     (case bench_shift B seed draw sh tr of
        Inl e \<Rightarrow> Inl e
      | Inr (p, tr) \<Rightarrow>
          (case bench_shifts B seed draw shs tr of Inl e \<Rightarrow> Inl e | Inr (ps, tr) \<Rightarrow> Inr (p # ps, tr)))"

definition report_main ::
  "'e benchmarks \<Rightarrow> (u64 \<Rightarrow> 'g) \<Rightarrow> (nat \<Rightarrow> 'g \<Rightarrow> nat \<times> 'g) \<Rightarrow> 'e bench_error + string list option" where
  "report_main B seed draw =
     (case bench_shifts B seed draw NUM_KEYS_SHIFT [] of
        Inl e \<Rightarrow> Inl e
      | Inr (ps, tr) \<Rightarrow> Inr (
          Option.bind (print_section ''Spare elements'' (map fst ps)) (\<lambda>l1.
          Option.bind (print_section ''Dense set of elements'' (map snd ps)) (\<lambda>l2. Some (l1 @ l2)))))"

section \<open>Lemmas on lookup sets\<close>

lemma all_some_length: "all_some xs = Some ys \<Longrightarrow> length ys = length xs"
  by (induction xs arbitrary: ys) (auto simp: bind_eq_Some_conv)

lemma all_some_nth: "all_some xs = Some ys \<Longrightarrow> i < length xs \<Longrightarrow> xs ! i = Some (ys ! i)"
  by (induction xs arbitrary: ys i) (auto simp: bind_eq_Some_conv nth_Cons split: nat.split)

lemma all_some_conv: "(\<forall>x \<in> set xs. x \<noteq> None) \<longleftrightarrow> all_some xs \<noteq> None"
  by (induction xs) (auto split: Option.bind_splits)

lemma list_all2_mem: "list_all2 P xs ys \<Longrightarrow> x \<in> set xs \<Longrightarrow> \<exists>y \<in> set ys. P x y"
  by (induction rule: list_all2_induct) auto

lemma make_keys_facts:
  assumes "n < 2 ^ 64 - 1"
  shows "distinct (make_keys n)" "sorted_wrt (<) (make_keys n)" "0xFFFFFFFFFFFFFFFF \<notin> set (make_keys n)"
    "length (make_keys n) = n"
proof -
  have u: "unat (of_nat i + 1 :: u64) = Suc i" if "i < n" for i
  proof -
    have "unat (of_nat (Suc i) :: u64) = Suc i"
      using that assms by (simp only: unsigned_of_nat) (simp add: take_bit_nat_eq_self)
    then show ?thesis by (simp add: add.commute)
  qed
  show l: "length (make_keys n) = n" by (simp add: make_keys_def)
  have nth: "unat (make_keys n ! i) = Suc i" if "i < n" for i using that u by (simp add: make_keys_def)
  show s: "sorted_wrt (<) (make_keys n)"
    by (auto simp: sorted_wrt_iff_nth_less l word_less_nat_alt nth)
  then show "distinct (make_keys n)" by (simp only: strict_sorted_iff)
  show "0xFFFFFFFFFFFFFFFF \<notin> set (make_keys n)"
  proof
    assume "0xFFFFFFFFFFFFFFFF \<in> set (make_keys n)"
    then obtain i where "i < n" "make_keys n ! i = 0xFFFFFFFFFFFFFFFF" by (auto simp: in_set_conv_nth l)
    with nth [of i] assms show False by simp
  qed
qed

lemma draw_keys_facts:
  assumes "\<And>g. fst (draw g) < length keys"
  shows "set (fst (draw_keys draw keys n g)) \<subseteq> set keys \<and> length (fst (draw_keys draw keys n g)) = n"
proof (induction n arbitrary: g)
  case (Suc n)
  have "keys ! fst (draw g) \<in> set keys" using assms by simp
  with Suc show ?case by (simp add: Let_def split_def)
qed simp

lemma random_sets_facts:
  assumes "\<And>g. fst (draw g) < length keys"
  shows "list_all2 (\<lambda>ls b. set ls \<subseteq> set keys \<and> length ls = ITERS * b) (fst (random_sets draw keys bs g)) bs"
proof (induction bs arbitrary: g)
  case (Cons b bs)
  with draw_keys_facts [OF assms] show ?case by (simp add: Let_def split_def)
qed simp

lemma batch_sizes_pos: "\<forall>b \<in> set BATCH_SIZE. 0 < b"
  by (simp add: BATCH_SIZE_def)

lemma ITERS_pos: "0 < ITERS"
  by (simp add: ITERS_def)

definition good_sets :: "u64 list \<Rightarrow> u64 list list \<Rightarrow> bool" where
  "good_sets keys sets \<longleftrightarrow>
     (\<forall>ls \<in> set sets. set ls \<subseteq> set keys \<and> ITERS dvd length ls \<and> ls \<noteq> []) \<and> length sets = 8"

lemma random_sets_good:
  assumes "\<And>g. fst (draw g) < length keys"
  shows "good_sets keys (fst (make_random_lookup_sets draw keys g))"
proof -
  let ?s = "fst (random_sets draw keys BATCH_SIZE g)"
  have a: "list_all2 (\<lambda>ls b. set ls \<subseteq> set keys \<and> length ls = ITERS * b) ?s BATCH_SIZE"
    by (rule random_sets_facts [OF assms])
  have "set ls \<subseteq> set keys \<and> ITERS dvd length ls \<and> ls \<noteq> []" if ls: "ls \<in> set ?s" for ls
  proof -
    obtain b where "b \<in> set BATCH_SIZE" "set ls \<subseteq> set keys" "length ls = ITERS * b"
      using list_all2_mem [OF a ls] by blast
    moreover have "0 < ITERS * b" using batch_sizes_pos ITERS_pos \<open>b \<in> set BATCH_SIZE\<close> by simp
    ultimately show ?thesis by (metis dvd_triv_left length_greater_0_conv)
  qed
  moreover have "length ?s = 8" using list_all2_lengthD [OF a] by (simp add: BATCH_SIZE_def)
  ultimately show ?thesis by (simp add: good_sets_def make_random_lookup_sets_def)
qed

lemma dense_sets_good:
  assumes "keys \<noteq> []"
  shows "good_sets keys (make_dense_lookup_sets keys)"
proof -
  have "set ls \<subseteq> set keys \<and> ITERS dvd length ls \<and> ls \<noteq> []" if ls: "ls \<in> set (make_dense_lookup_sets keys)" for ls
  proof -
    obtain b where b: "b \<in> set BATCH_SIZE" "ls = map (\<lambda>i. keys ! (i mod length keys)) [0..<ITERS * b]"
      using ls by (auto simp: make_dense_lookup_sets_def)
    have "0 < ITERS * b" using batch_sizes_pos ITERS_pos b(1) by simp
    moreover have "length ls = ITERS * b" using b(2) by simp
    ultimately have "ITERS dvd length ls" "ls \<noteq> []" by (simp_all, metis length_0_conv less_irrefl)
    moreover have "set ls \<subseteq> set keys" using b(2) assms by auto
    ultimately show ?thesis by simp
  qed
  then show ?thesis by (simp add: good_sets_def make_dense_lookup_sets_def BATCH_SIZE_def)
qed

text \<open>Every key is looked up equally often in the dense sets, up to one.\<close>

lemma count_mod:
  assumes "0 < n"
  shows "card {i. i < m \<and> i mod n = j} = (if j < n then m div n + (if j < m mod n then 1 else 0) else 0)"
proof (induction m)
  case 0
  then show ?case by simp
next
  case (Suc m)
  have s: "{i. i < Suc m \<and> i mod n = j} =
      (if m mod n = j then insert m {i. i < m \<and> i mod n = j} else {i. i < m \<and> i mod n = j})"
    by (auto simp: less_Suc_eq)
  have f: "finite {i. i < m \<and> i mod n = j}" by simp
  show ?case
  proof (cases "m mod n = j")
    case True
    then have "j < n" using assms by auto
    have "card {i. i < Suc m \<and> i mod n = j} = Suc (card {i. i < m \<and> i mod n = j})"
      using True f s by simp
    also have "\<dots> = Suc (m div n)" using Suc True \<open>j < n\<close> by simp
    also have "\<dots> = Suc m div n + (if j < Suc m mod n then 1 else 0)"
      using True by (auto simp: div_Suc mod_Suc)
    finally show ?thesis using \<open>j < n\<close> by simp
  next
    case False
    have "m div n + (if j < m mod n then 1 else 0) = Suc m div n + (if j < Suc m mod n then 1 else 0)" if "j < n"
      using False that by (auto simp: div_Suc mod_Suc)
    with False Suc s show ?thesis by simp
  qed
qed

section \<open>Lemmas on the table\<close>

lemma fold_max_ge: "(w::nat) \<le> fold (\<lambda>row w. max w (f row)) rs w \<and>
    (\<forall>row \<in> set rs. f row \<le> fold (\<lambda>row w. max w (f row)) rs w)"
proof (induction rs arbitrary: w)
  case (Cons r rs)
  from Cons [of "max w (f r)"] show ?case by auto
qed simp

lemma column_width_ge:
  assumes "column_width hs rs idx = Some w"
  shows "length (hs ! idx) + 2 \<le> w \<and> (\<forall>row \<in> set rs. idx < length row \<and> length (row ! idx) + 2 \<le> w)"
  using assms fold_max_ge [of "length (hs ! idx)" "\<lambda>row. length (row ! idx)" rs]
  by (auto simp: column_width_def not_le split: if_splits)

lemma grid_width_eq: "grid_width ws = 1 + (\<Sum>w\<leftarrow>ws. w + 1)"
proof -
  have "fold (\<lambda>column_width width. width + (column_width + 1)) ws k = k + (\<Sum>w\<leftarrow>ws. w + 1)" for k
    by (induction ws arbitrary: k) simp_all
  then show ?thesis by (simp only: grid_width_def)
qed

lemma rule_line_length: "length (rule_line ws) = grid_width ws"
  by (simp add: rule_line_def grid_width_eq length_concat comp_def)

lemma align_cell_length: "length v \<le> w \<Longrightarrow> length (align_cell v w a) = w"
  by (auto simp: align_cell_def Let_def)

lemma row_cells_length:
  assumes "list_all2 (\<lambda>w cell. length cell + 2 \<le> w) ws row" "length aligns = length ws"
  shows "\<exists>l. row_cells ws aligns row = Some l \<and> length l = (\<Sum>w\<leftarrow>ws. w + 1)"
  using assms
proof (induction arbitrary: aligns rule: list_all2_induct)
  case (Cons w ws cell row)
  then obtain a as where a: "aligns = a # as" "length as = length ws" by (cases aligns) auto
  from Cons.IH [OF a(2)] obtain l where "row_cells ws as row = Some l" "length l = (\<Sum>w\<leftarrow>ws. w + 1)" by blast
  moreover have "length (align_cell cell (w - 2) a) = w - 2" using Cons.hyps by (intro align_cell_length) simp
  ultimately show ?case using Cons.hyps a by simp
qed simp

lemma row_line_length:
  assumes "list_all2 (\<lambda>w cell. length cell + 2 \<le> w) ws row" "length aligns = length ws"
  shows "\<exists>l. row_line ws aligns row = Some l \<and> length l = grid_width ws"
  using row_cells_length [OF assms] by (auto simp: row_line_def grid_width_eq)

definition table_ok :: "table \<Rightarrow> bool" where
  "table_ok t \<longleftrightarrow> list_all2 (\<lambda>w cell. length cell + 2 \<le> w) (widths t) (headers t) \<and>
     (\<forall>row \<in> set (rows t). list_all2 (\<lambda>w cell. length cell + 2 \<le> w) (widths t) row)"

lemma print_table_ok:
  assumes "table_ok t"
  shows "\<exists>lines. print_table t = Some lines \<and> length lines = length (rows t) + 4 \<and>
    (\<forall>l \<in> set lines. length l = grid_width (widths t))"
proof -
  let ?ws = "widths t" and ?al = "(replicate (length (headers t)) True)[0 := False]"
  have len: "length ?al = length ?ws"
    using assms list_all2_lengthD [of _ "widths t" "headers t"] by (auto simp: table_ok_def)
  obtain h where h: "row_line ?ws ?al (headers t) = Some h" "length h = grid_width ?ws"
    using row_line_length [OF _ len, of "headers t"] assms by (auto simp: table_ok_def)
  have each: "\<exists>l. row_line ?ws ?al row = Some l \<and> length l = grid_width ?ws" if "row \<in> set (rows t)" for row
    using row_line_length [OF _ len, of row] assms that by (auto simp: table_ok_def)
  then have "all_some (map (row_line ?ws ?al) (rows t)) \<noteq> None"
    by (subst all_some_conv [symmetric]) fastforce
  then obtain ls where ls: "all_some (map (row_line ?ws ?al) (rows t)) = Some ls" by auto
  have "length l = grid_width ?ws" if l: "l \<in> set ls" for l
  proof -
    obtain i where i: "i < length ls" "l = ls ! i" using l by (auto simp: in_set_conv_nth)
    then have "row_line ?ws ?al (rows t ! i) = Some l"
      using all_some_nth [OF ls, of i] all_some_length [OF ls] by simp
    moreover have "rows t ! i \<in> set (rows t)" using i all_some_length [OF ls] by simp
    ultimately show ?thesis using each by fastforce
  qed
  then show ?thesis using h ls all_some_length [OF ls]
    by (auto simp: print_table_def Let_def rule_line_length)
qed

definition set_lists :: "bench_set \<Rightarrow> bench_result list list" where
  "set_lists s = [boost s, twoway s, absl s, fph s, std_map s, flat s]"

text \<open>A result the cell of which can be computed.\<close>

definition cells_ok :: "bench_set \<Rightarrow> bool" where
  "cells_ok s \<longleftrightarrow> (\<forall>rs \<in> set (set_lists s). length rs = 8 \<and> (\<forall>r \<in> set rs. format_cell r \<noteq> None))"

lemma make_row_ok:
  assumes "length results = 8" "\<forall>r \<in> set results. format_cell r \<noteq> None"
  shows "\<exists>row. make_row name results = Some row \<and> length row = 9"
proof -
  have "all_some (map format_cell results) \<noteq> None"
    using assms(2) by (subst all_some_conv [symmetric]) auto
  then obtain cells where "all_some (map format_cell results) = Some cells" by auto
  with all_some_length [OF this] assms(1) show ?thesis by (simp add: make_row_def)
qed

lemma make_table_ok:
  assumes "cells_ok s"
  shows "\<exists>t. make_table s = Some t \<and> table_ok t \<and> length (rows t) = 6 \<and>
    headers t = ''kind'' # map dec_digits BATCH_SIZE"
proof -
  let ?hs = "''kind'' # map dec_digits BATCH_SIZE"
  have hs: "length ?hs = 9" by (simp add: BATCH_SIZE_def)
  have r: "\<exists>row. make_row name rs = Some row \<and> length row = 9" if "rs \<in> set (set_lists s)" for name rs
    using assms that by (intro make_row_ok) (auto simp: cells_ok_def)
  obtain r1 r2 r3 r4 r5 r6 where rs: "make_row ''boost'' (boost s) = Some r1" "length r1 = 9"
    "make_row ''twoway'' (twoway s) = Some r2" "length r2 = 9"
    "make_row ''absl'' (absl s) = Some r3" "length r3 = 9"
    "make_row ''fph'' (fph s) = Some r4" "length r4 = 9"
    "make_row ''std'' (std_map s) = Some r5" "length r5 = 9"
    "make_row ''flat'' (flat s) = Some r6" "length r6 = 9"
    using r [of "boost s" "''boost''"] r [of "twoway s" "''twoway''"] r [of "absl s" "''absl''"]
      r [of "fph s" "''fph''"] r [of "std_map s" "''std''"] r [of "flat s" "''flat''"]
    by (auto simp: set_lists_def)
  let ?rs = "[r1, r2, r3, r4, r5, r6]"
  have cw: "column_width ?hs ?rs i \<noteq> None" if "i < 9" for i
    using that rs by (auto simp: column_width_def)
  then have "all_some (map (column_width ?hs ?rs) [0..<length ?hs]) \<noteq> None"
    by (subst all_some_conv [symmetric]) (use hs in auto)
  then obtain ws where ws: "all_some (map (column_width ?hs ?rs) [0..<length ?hs]) = Some ws" by auto
  have lw: "length ws = 9" using all_some_length [OF ws] hs by simp
  have w: "column_width ?hs ?rs i = Some (ws ! i)" if "i < 9" for i
    using all_some_nth [OF ws, of i] that unfolding hs by (simp del: upt_Suc)
  have tab: "make_table s = Some \<lparr>headers = ?hs, rows = ?rs, widths = ws\<rparr>"
    using rs ws by (simp add: make_table_def Let_def)
  have "list_all2 (\<lambda>w cell. length cell + 2 \<le> w) ws ?hs"
    using column_width_ge [OF w] lw hs by (simp only: list_all2_conv_all_nth) simp
  moreover have "list_all2 (\<lambda>w cell. length cell + 2 \<le> w) ws row" if "row \<in> set ?rs" for row
  proof -
    have "length (row ! i) + 2 \<le> ws ! i" if "i < 9" for i
      using column_width_ge [OF w [OF that]] \<open>row \<in> set ?rs\<close> by blast
    moreover have "length row = 9" using that rs by auto
    ultimately show ?thesis using lw by (simp only: list_all2_conv_all_nth) simp
  qed
  ultimately show ?thesis using tab by (simp add: table_ok_def)
qed

lemma print_entries_ok:
  assumes "\<forall>t \<in> set ts. table_ok t \<and> length (rows t) = 6" "length shs = length ts"
  shows "\<exists>lines. print_entries mw (zip shs ts) = Some lines \<and> length lines = 13 * length ts"
  using assms
proof (induction ts arbitrary: shs)
  case (Cons t ts)
  then obtain sh shs' where shs: "shs = sh # shs'" "length shs' = length ts" by (cases shs) auto
  obtain ls where "print_table t = Some ls" "length ls = 10" using print_table_ok [of t] Cons.prems by auto
  moreover obtain more where "print_entries mw (zip shs' ts) = Some more" "length more = 13 * length ts"
    using Cons.IH [OF _ shs(2)] Cons.prems by auto
  ultimately show ?case by (simp add: shs(1))
qed simp

lemma word_mult_mod: "unat (a * b :: u64) = unat a * unat b mod 2 ^ 64"
  by (simp add: unat_word_ariths)

lemma percent_bound:
  assumes "m < (a::nat)" "a < 2 ^ 64"
  shows "(m * 100 mod 2 ^ 64) div a \<le> 100"
proof (cases "m * 100 < 2 ^ 64")
  case True
  have "m * 100 div a \<le> a * 100 div a" using assms(1) by (intro div_le_mono) simp
  also have "\<dots> = 100" using assms(1) by simp
  finally show ?thesis using True by simp
next
  case False
  then have "2 ^ 64 \<le> m * 100" by simp
  moreover have "m * 100 < a * 100" using assms(1) by simp
  ultimately have "(2::nat) ^ 64 < a * 100" by linarith
  moreover have "m * 100 mod 2 ^ 64 < (2::nat) ^ 64" by simp
  ultimately have "m * 100 mod 2 ^ 64 < 100 * a" by linarith
  then have "(m * 100 mod 2 ^ 64) div a < 100" by (rule less_mult_imp_div_less)
  then show ?thesis by simp
qed

section \<open>Properties\<close>

text \<open>
  A printed hit rate is never more than 100, even where \<open>misses * 100\<close> wraps, and where it
  does not wrap it is 100 minus the miss percentage rounded down; no accesses print as
  \<open>na\<close>.
\<close>

theorem hit_rate_percent_spec:
  "if accs = 0 then hit_rate_percent accs miss = ''na''
   else \<exists>p\<le>100. hit_rate_percent accs miss = dec_digits p \<and>
     (if unat miss * 100 < 2 ^ 64 then p = 100 - min 100 (unat miss * 100 div unat accs) else True)"
proof (cases "accs = 0")
  case a0: False
  show ?thesis
  proof (cases "accs \<le> miss")
    case True
    have "of_char (CHR ''0'') = (48::nat)" by simp
    then have "char_of (48::nat) = CHR ''0''" by (metis char_of_char)
    then have z: "dec_digits 0 = ''0''" by (simp add: dec_digits.simps)
    have "100 \<le> unat miss * 100 div unat accs"
    proof -
      have "unat accs * 100 div unat accs \<le> unat miss * 100 div unat accs"
        using True by (intro div_le_mono) (simp add: word_le_nat_alt)
      moreover have "0 < unat accs" using a0 by (simp add: unat_gt_0)
      ultimately show ?thesis by simp
    qed
    then show ?thesis using a0 True z by (intro if_not_P [THEN iffD2] exI [of _ 0]) (auto simp: hit_rate_percent_def)
  next
    case False
    then have m: "unat miss < unat accs" by (simp add: word_le_nat_alt)
    let ?q = "(unat miss * 100 mod 2 ^ 64) div unat accs"
    have q: "?q \<le> 100" using m unsigned_less [of accs] by (intro percent_bound) simp_all
    have d: "unat (miss * 100 div accs) = ?q" by (simp add: unat_div word_mult_mod)
    have "miss * 100 div accs \<le> 100" using q by (simp add: word_le_nat_alt d)
    then have "unat (100 - miss * 100 div accs) = 100 - ?q" by (simp add: unat_sub d)
    then have "hit_rate_percent accs miss = dec_digits (100 - ?q)"
      using a0 False by (simp add: hit_rate_percent_def dec_u64_def)
    moreover have "100 - ?q = 100 - min 100 (unat miss * 100 div unat accs)" if "unat miss * 100 < 2 ^ 64"
    proof -
      have "?q = unat miss * 100 div unat accs" by (simp only: mod_less [OF that])
      with q show ?thesis by (simp only: min_absorb2)
    qed
    ultimately show ?thesis using a0 by (metis diff_le_self)
  qed
qed (simp add: hit_rate_percent_def)

theorem hit_rate_percent_spec_witness: "\<exists>p\<le>100. hit_rate_percent 200 3 = dec_digits p \<and> p = 99"
  using hit_rate_percent_spec [of 200 3] by simp

text \<open>
  Scaling a multiplexed counter: an event group that ran all the time it was enabled, or never,
  keeps its count; otherwise the count is scaled by enabled over running time, without loss while
  the 128-bit product is below \<open>2^127\<close> and the result fits 64 bits, and is undefined beyond.
\<close>

theorem scale_counter_spec:
  "case scale_counter cnt enabled running of
     None \<Rightarrow> enabled \<noteq> running \<and> running \<noteq> 0 \<and> 2 ^ 127 \<le> unat cnt * unat enabled
   | Some c \<Rightarrow>
       (if enabled = 0 \<or> running = 0 \<or> enabled = running then c = cnt
        else unat c = unat cnt * unat enabled div unat running mod 2 ^ 64 \<and>
          (running \<le> enabled \<and> unat cnt * unat enabled div unat running < 2 ^ 64 \<longrightarrow> cnt \<le> c))"
proof -
  have "unat cnt \<le> unat cnt * unat enabled div unat running" if "running \<le> enabled" "running \<noteq> 0"
  proof -
    have "unat cnt * unat running \<le> unat cnt * unat enabled" using that(1) by (simp add: word_le_nat_alt)
    then have "unat cnt * unat running div unat running \<le> unat cnt * unat enabled div unat running"
      by (rule div_le_mono)
    moreover have "0 < unat running" using that(2) by (simp add: unat_gt_0)
    ultimately show ?thesis by simp
  qed
  moreover have "unat (of_nat k :: u64) = k mod 2 ^ 64" for k
    by (simp only: unsigned_of_nat) (simp add: take_bit_eq_mod)
  ultimately show ?thesis by (auto simp: scale_counter_def word_le_nat_alt)
qed

theorem scale_counter_spec_witness: "\<exists>c. scale_counter 1000 50 20 = Some c \<and> unat c = 2500 \<and> 1000 \<le> c"
  using scale_counter_spec [of 1000 50 20] by (simp add: scale_counter_def)

text \<open>
  The dense sets look every key up equally often, up to one lookup, and both kinds of lookup
  sets look up keys only, in batches that fill all iterations (\<open>dist\<close> draws indices of the
  keys).
\<close>

theorem lookup_sets_correct:
  assumes "distinct keys" "keys \<noteq> []" "\<And>g. fst (draw g) < length keys"
  shows "good_sets keys (make_dense_lookup_sets keys) \<and>
    good_sets keys (fst (make_random_lookup_sets draw keys g)) \<and>
    (\<forall>ls \<in> set (make_dense_lookup_sets keys). \<forall>j<length keys.
       card {i. i < length ls \<and> ls ! i = keys ! j} \<in>
         {length ls div length keys, length ls div length keys + 1})"
proof -
  have "card {i. i < length ls \<and> ls ! i = keys ! j} \<in>
      {length ls div length keys, length ls div length keys + 1}"
    if ls: "ls \<in> set (make_dense_lookup_sets keys)" and j: "j < length keys" for ls j
  proof -
    obtain b where b: "ls = map (\<lambda>i. keys ! (i mod length keys)) [0..<ITERS * b]"
      using ls by (auto simp: make_dense_lookup_sets_def)
    have n: "0 < length keys" using assms(2) by simp
    have "{i. i < length ls \<and> ls ! i = keys ! j} = {i. i < length ls \<and> i mod length keys = j}"
      using assms(1) j n by (auto simp: b nth_eq_iff_index_eq)
    then show ?thesis using count_mod [OF n, of "length ls" j] j by simp
  qed
  then show ?thesis using dense_sets_good [OF assms(2)] random_sets_good [of draw keys g] assms(3) by blast
qed

theorem lookup_sets_correct_witness:
  "good_sets (make_keys 3) (make_dense_lookup_sets (make_keys 3)) \<and>
   good_sets (make_keys 3) (fst (make_random_lookup_sets (\<lambda>g::nat. (g mod 3, g + 1)) (make_keys 3) 5))"
  using lookup_sets_correct [of "make_keys 3" "\<lambda>g::nat. (g mod 3, g + 1)" 5] make_keys_facts [of 3]
  by force

text \<open>
  A section of results prints completely, and every line of a table is as wide as the rule:
  for sets of eight results whose cells are defined, each table has a rule, the headers, a rule, the
  six rows and a rule, all of \<open>grid_width\<close> characters.
\<close>

theorem print_section_aligned:
  assumes "\<forall>s \<in> set results. cells_ok s"
  shows "(\<exists>lines. print_section title results = Some lines \<and> length lines = 3 + 13 * length results) \<and>
    (\<forall>s \<in> set results. \<exists>t lines. make_table s = Some t \<and> print_table t = Some lines \<and>
       length lines = 10 \<and> (\<forall>l \<in> set lines. length l = grid_width (widths t)))"
proof -
  have each: "\<exists>t. make_table s = Some t \<and> table_ok t \<and> length (rows t) = 6" if "s \<in> set results" for s
    using make_table_ok [of s] assms that by auto
  then have "all_some (map make_table results) \<noteq> None"
    by (subst all_some_conv [symmetric]) fastforce
  then obtain ts where ts: "all_some (map make_table results) = Some ts" by auto
  have lt: "length ts = length results" using all_some_length [OF ts] by simp
  have "table_ok t \<and> length (rows t) = 6" if "t \<in> set ts" for t
  proof -
    obtain i where i: "i < length ts" "t = ts ! i" using \<open>t \<in> set ts\<close> by (auto simp: in_set_conv_nth)
    then have "make_table (results ! i) = Some t" using all_some_nth [OF ts, of i] lt by simp
    with each [of "results ! i"] i lt show ?thesis by auto
  qed
  then obtain lines where "print_entries (fold (\<lambda>t w. max w (grid_width (widths t))) ts 0)
      (zip (map shift results) ts) = Some lines" "length lines = 13 * length results"
    using print_entries_ok [of ts "map shift results"] lt by force
  then have "\<exists>lines. print_section title results = Some lines \<and> length lines = 3 + 13 * length results"
    by (simp add: print_section_def ts Let_def)
  moreover have "\<exists>t lines. make_table s = Some t \<and> print_table t = Some lines \<and>
       length lines = 10 \<and> (\<forall>l \<in> set lines. length l = grid_width (widths t))" if s: "s \<in> set results" for s
  proof -
    obtain t where "make_table s = Some t" "table_ok t" "length (rows t) = 6" using each [OF s] by blast
    with print_table_ok [of t] show ?thesis by auto
  qed
  ultimately show ?thesis by blast
qed

text \<open>A set of results with nothing counted.\<close>

definition demo_set :: bench_set where
  "demo_set = (let rs = replicate 8 \<lparr>counter = pc_zero, bench_sum = 0, lookup_count = 0\<rparr>
     in \<lparr>shift = 8, boost = rs, twoway = rs, absl = rs, fph = rs, std_map = rs, flat = rs\<rparr>)"

theorem print_section_aligned_witness:
  "\<exists>lines. print_section ''Spare elements'' [demo_set, demo_set] = Some lines \<and> length lines = 29"
proof -
  have "cells_ok demo_set"
    by (simp add: cells_ok_def set_lists_def demo_set_def Let_def format_cell_def scale_counter_def pc_zero_def)
  then show ?thesis using print_section_aligned [of "[demo_set, demo_set]"] by simp
qed

text \<open>
  C38. The tables agree: for the keys \<open>1..n\<close> and lookup sets over them, the standard maps and
  the two-way table report the same sums, twice the sum of the looked-up keys on Linux (one pass
  for each counter set); the two-way table alone may fail to allocate.
\<close>

theorem tables_agree:
  fixes linux :: bool
  assumes "n < 2 ^ 64 - 1" "good_sets (make_keys n) sets"
  defines "expected \<equiv> map (\<lambda>ls. (if linux then 2 else 1) * sum_list ls) sets"
  shows "(\<exists>rs tr'. benchmark_std_unordered_map linux clk (make_keys n) sets ITERS tr = Inr (rs, tr') \<and>
      map bench_sum rs = expected) \<and>
    (\<exists>rs tr'. benchmark_std_flat_map linux clk (make_keys n) sets ITERS tr = Inr (rs, tr') \<and>
      map bench_sum rs = expected) \<and>
    (case benchmark_twoway alloc linux clk (make_keys n) sets ITERS tr of
       Inl e \<Rightarrow> e = MapError OutOfMemory
     | Inr (rs, tr') \<Rightarrow> map bench_sum rs = expected)"
proof -
  note k = make_keys_facts [OF assms(1)]
  have sets: "\<forall>ls \<in> set sets. set ls \<subseteq> set (make_keys n) \<and> ITERS dvd length ls \<and> ls \<noteq> []"
    using assms(2) by (simp add: good_sets_def)
  have u: "case benchmark_map std_unordered_impl linux clk (make_keys n) sets ITERS tr of
      Inl e \<Rightarrow> \<exists>e'. e = MapError e' \<and> False | Inr (rs, tr') \<Rightarrow> map bench_sum rs = expected"
    unfolding expected_def using k sets ITERS_pos by (intro std_unordered.benchmark_sums) auto
  have t: "case benchmark_map (twoway_impl alloc) linux clk (make_keys n) sets ITERS tr of
      Inl e \<Rightarrow> \<exists>e'. e = MapError e' \<and> e' = OutOfMemory | Inr (rs, tr') \<Rightarrow> map bench_sum rs = expected"
    unfolding expected_def using k sets ITERS_pos by (intro twoway.benchmark_sums) auto
  have f: "\<exists>rs tr'. benchmark_std_flat_map linux clk (make_keys n) sets ITERS tr = Inr (rs, tr') \<and>
      map bench_sum rs = expected"
    unfolding expected_def using k(2) ITERS_pos sets by (intro flat_map_sums) auto
  show ?thesis using u t f
    by (auto simp: benchmark_std_unordered_map_def benchmark_twoway_def split: sum.splits)
qed

theorem tables_agree_witness:
  "\<exists>rs tr'. benchmark_std_flat_map True (\<lambda>tr c. pc_zero) (make_keys 3) (make_dense_lookup_sets (make_keys 3)) ITERS [] =
     Inr (rs, tr') \<and> map bench_sum rs = map (\<lambda>ls. 2 * sum_list ls) (make_dense_lookup_sets (make_keys 3))"
proof -
  have "make_keys 3 \<noteq> []" using make_keys_facts(4) [of 3] by force
  then show ?thesis
    using tables_agree [of 3 "make_dense_lookup_sets (make_keys 3)" True "\<lambda>tr c. pc_zero" "[]" "\<lambda>n. True"]
      dense_sets_good [of "make_keys 3"] by simp
qed

end
