(* ===== verification/Bench_Boost.thy ===== *)
theory Bench_Boost
  imports Report Boost_History
begin

text \<open>
  The benchmark of boost's unordered_flat_map: the table with 64-bit keys and values, its hash the
  identity of boost::hash on integers followed by the table's own mixing. The std::allocator
  refuses a request beyond its maximum size, or when memory runs out (\<open>alloc\<close>).
\<close>

section \<open>The map under test\<close>

datatype boost_error = BadAlloc | DerefEnd | NoReturn

text \<open>A value is two 64-bit words; a group of metadata takes 16 bytes in each of the layouts.\<close>

definition std_allocate :: "(nat \<Rightarrow> bool) \<Rightarrow> nat \<Rightarrow> bool" where
  "std_allocate alloc n = (n \<le> (2 ^ 63 - 1) div 16 \<and> alloc n)"

definition allocated :: "(nat \<Rightarrow> bool) \<Rightarrow> ('g, 'e) table_core \<Rightarrow> bool" where
  "allocated alloc t =
     (elements (arrays t) = None \<or> std_allocate alloc (buffer_size 16 16 (groups_size_mask (arrays t) + 1)))"

definition boost_impl ::
  "('g, u64) foa_types \<Rightarrow> (nat \<Rightarrow> bool) \<Rightarrow> (boost_error, ('g, u64 \<times> u64) table_core) map_impl" where
  "boost_impl T alloc =
     \<lparr> mk = (\<lambda>n. case fm_reserve T n (fm_new T 0) of
          None \<Rightarrow> Inl NoReturn
        | Some t \<Rightarrow> if allocated alloc t then Inr t else Inl BadAlloc),
       add = (\<lambda>k v t. case fm_emplace T k v t of
          None \<Rightarrow> Inl NoReturn
        | Some (t', _) \<Rightarrow> if allocated alloc t' then Inr t' else Inl BadAlloc),
       look = (\<lambda>t k steps. case fm_find T k t of
          None \<Rightarrow> Inl DerefEnd
        | Some it \<Rightarrow> Inr (snd (element_at (arrays t) it), steps)) \<rparr>"

definition boost_benchmark ::
  "('g, u64) foa_types \<Rightarrow> (nat \<Rightarrow> bool) \<Rightarrow> bool \<Rightarrow> clock \<Rightarrow> u64 list \<Rightarrow> u64 list list \<Rightarrow> nat \<Rightarrow> bench_event list \<Rightarrow>
   boost_error bench_error + bench_result list \<times> bench_event list" where
  "boost_benchmark T alloc = benchmark_map (boost_impl T alloc)"

section \<open>It keeps the contract of the benchmarks\<close>

context foa_table
begin

lemma allocated_bound:
  fixes t :: "('g, 'k \<times> 'v) table_core"
  assumes t: "tinv t" and al: "allocated alloc t"
  shows "ctrl_size t < 2 ^ 60"
proof (cases "elements (arrays t) = None")
  case True
  then show ?thesis using tinvD(3,4) [OF t] by (simp add: capacity_def)
next
  case False
  let ?g = "groups_size_mask (arrays t) + 1"
  have "(16 * (?g * 15 - 1)) div 16 \<le> buffer_size 16 16 ?g"
    unfolding buffer_size_def group_N_def Let_def by (intro div_le_mono) simp
  moreover have "buffer_size 16 16 ?g \<le> (2 ^ 63 - 1) div 16"
    using al False by (simp add: allocated_def std_allocate_def)
  ultimately have "?g * 15 - 1 < 2 ^ 60" by simp
  moreover have "capacity (arrays t) = ?g * 15 - 1" using False by (simp add: capacity_def group_N_def)
  ultimately show ?thesis using tinvD(3,4) [OF t] by linarith
qed

end

lemma boost_impl_contract:
  fixes T :: "('g, u64) foa_types"
  assumes "foa_table T ok byte ovf"
  shows "bench_map (boost_impl T alloc) (\<lambda>t. tab_inv ok byte ovf T t \<and> allocated alloc t) tab_map
    (\<lambda>n. n < 2 ^ 60) (\<lambda>k. True) (\<lambda>e. e = BadAlloc)"
proof
  fix n :: nat assume n: "n < 2 ^ 60"
  have "\<exists>t. fm_reserve T n (fm_new T 0) = Some t \<and> tab_inv ok byte ovf T t \<and> tab_map t = (Map.empty :: u64 \<rightharpoonup> u64)"
    using foa_table.core_reserve_correct [OF assms foa_table.core_new_correct(1) [OF assms _ refl] _ n, of 0]
      foa_table.core_new_correct(2,3) [OF assms, of 0 "core_new T 0 :: ('g, u64 \<times> u64) table_core"]
    unfolding fm_reserve_def fm_new_def by (metis zero_less_numeral zero_less_power)
  then show "case mk (boost_impl T alloc) n of Inl e \<Rightarrow> e = BadAlloc
    | Inr s \<Rightarrow> (tab_inv ok byte ovf T s \<and> allocated alloc s) \<and> tab_map s = Map.empty"
    by (auto simp: boost_impl_def)
next
  fix s :: "('g, u64 \<times> u64) table_core" and k v
  assume s: "tab_inv ok byte ovf T s \<and> allocated alloc s" and k: "tab_map s k = None"
  from foa_table.allocated_bound [OF assms] s have "ctrl_size s < 2 ^ 60" by blast
  from foa_table.emplace_impl_correct [OF assms conjunct1 [OF s] this, of k v] k
  show "case add (boost_impl T alloc) k v s of Inl e \<Rightarrow> e = BadAlloc
    | Inr s' \<Rightarrow> (tab_inv ok byte ovf T s' \<and> allocated alloc s') \<and> tab_map s' = (tab_map s)(k \<mapsto> v)"
    by (auto simp: boost_impl_def fm_emplace_def)
next
  fix s :: "('g, u64 \<times> u64) table_core" and k v steps
  assume s: "tab_inv ok byte ovf T s \<and> allocated alloc s" and k: "tab_map s k = Some v"
  have "map_option (element_at (arrays s)) (core_find T s k) = Some (k, v)"
    using foa_table.core_find_element [OF assms foa_table.tinvD(1) [OF assms conjunct1 [OF s]], of k] k
    by (simp add: tab_map_def)
  then show "\<exists>steps'. look (boost_impl T alloc) s k steps = Inr (v, steps')"
    by (auto simp: boost_impl_def fm_find_def)
qed

interpretation boost_sse2: bench_map "boost_impl (sse2_types h av) alloc"
  "\<lambda>t. tab_inv bytes_ok bytes_byte bytes_ovf (sse2_types h av) t \<and> allocated alloc t" tab_map
  "\<lambda>n. n < 2 ^ 60" "\<lambda>k. True" "\<lambda>e. e = BadAlloc" for h av alloc
  by (rule boost_impl_contract) unfold_locales

interpretation boost_neon: bench_map "boost_impl (neon_types h av) alloc"
  "\<lambda>t. tab_inv bytes_ok bytes_byte bytes_ovf (neon_types h av) t \<and> allocated alloc t" tab_map
  "\<lambda>n. n < 2 ^ 60" "\<lambda>k. True" "\<lambda>e. e = BadAlloc" for h av alloc
  by (rule boost_impl_contract) unfold_locales

interpretation boost_nosimd: bench_map "boost_impl (nosimd_types h av) alloc"
  "\<lambda>t. tab_inv ns_ok ns_byte ns_ovf (nosimd_types h av) t \<and> allocated alloc t" tab_map
  "\<lambda>n. n < 2 ^ 60" "\<lambda>k. True" "\<lambda>e. e = BadAlloc" for h av alloc
  by (rule boost_impl_contract) unfold_locales

section \<open>Enough memory is enough\<close>

context foa_table
begin

lemma ceil_over_mlf_0: "ceil_over_mlf 0 = 0"
  by code_simp

lemma fresh_reserve:
  fixes t :: "('g, 'k \<times> 'v) table_core"
  assumes n: "n \<le> 2 ^ 50" and r: "core_reserve T n (core_new T 0) = Some t"
  shows "ctrl_ml t = initial_max_load (arrays t)" and "allocated (\<lambda>_. True) t"
proof -
  let ?t = "core_new T 0 :: ('g, 'k \<times> 'v) table_core"
  have z: "(0 :: nat) < 2 ^ 64" by simp
  note new = core_new_correct [OF z refl, where 'v = 'v]
  have el: "elements (arrays ?t) = None"
    by (simp add: core_new_def new_arrays_def set_arrays_def Let_def)
  have fresh: "all_elements T (arrays ?t) = []" "capacity (arrays ?t) = 0"
    using el by (simp_all add: all_elements_def all_locators_def capacity_def)
  define m where "m = ceil_over_mlf n"
  have "n \<le> 105 * 2 ^ 48" using n by simp
  then have m: "m \<le> 120 * 2 ^ 48" unfolding m_def by (rule ceil_over_mlf_bound)
  define c where "c = (if m \<noteq> 0 then capacity_for m else m)"
  have t: "t = (if c \<noteq> 0 then ?t\<lparr> arrays := new_arrays T c, ctrl_ml := initial_max_load (new_arrays T c :: ('g, 'k \<times> 'v) table_arrays) \<rparr> else ?t)"
    using r new(3) fresh
    by (auto simp: core_reserve_def core_rehash_def Let_def ceil_over_mlf_0 unchecked_rehash_def
        c_def m_def [symmetric] split: if_splits)
  show "ctrl_ml t = initial_max_load (arrays t)"
    unfolding t by (simp add: core_new_def Let_def)
  show "allocated (\<lambda>_. True) t"
  proof (cases "c = 0")
    case True
    then show ?thesis using el by (simp add: t allocated_def)
  next
    case False
    define e where "e = req_exp m"
    have "m div 15 + 1 \<le> 2 ^ 52" using m by simp
    then have e: "1 \<le> e" "e \<le> 52"
      unfolding e_def req_exp_def using policy_exp_pos policy_exp_bound [of _ 52] by simp_all
    have "c = cap_of e" using False m by (simp add: c_def capacity_for_eq e_def split: if_splits)
    then have c: "req_exp c = e" using req_exp_cap_of [OF e(1)] by simp
    have "policy_size (size_index_for c) = 2 ^ e"
      unfolding size_index_for_def group_N_def
      using c policy_size_index [of "c div 15 + 1"] e(2) by (simp add: req_exp_def)
    then have "groups_size_mask (arrays t) + 1 = 2 ^ e"
      using False by (simp add: t new_arrays_def set_arrays_def Let_def)
    moreover have "buffer_size 16 16 (2 ^ e) \<le> (2 ^ 63 - 1) div 16"
    proof -
      have "(2::nat) ^ e \<le> 2 ^ 52" by (rule power_increasing [OF e(2)]) simp
      then have "16 * (2 ^ e * 15 - 1) + 16 * (2 ^ e + 1) - 1 + 16 - 1 \<le> (2 ^ 60 + 16 :: nat)" by simp
      then have "buffer_size 16 16 (2 ^ e) \<le> (2 ^ 60 + 16) div 16"
        unfolding buffer_size_def group_N_def Let_def by (rule div_le_mono)
      also have "\<dots> \<le> (2 ^ 63 - 1) div 16" by simp
      finally show ?thesis .
    qed
    ultimately show ?thesis by (simp add: allocated_def std_allocate_def)
  qed
qed

end

lemma add_keys_room:
  fixes T :: "('g, u64) foa_types"
  assumes tab: "foa_table T ok byte ovf"
    and "tab_inv ok byte ovf T t" "allocated (\<lambda>_. True) t" "ctrl_size t + length ks \<le> ctrl_ml t"
  shows "\<exists>t'. add_keys (boost_impl T (\<lambda>_. True)) ks t = Inr t'"
  using assms(2-)
proof (induction ks arbitrary: t)
  case (Cons k ks)
  have b: "ctrl_size t < 2 ^ 60" by (rule foa_table.allocated_bound [OF tab Cons.prems(1,2)])
  obtain t1 loc where t1: "fm_emplace T k k t = Some (t1, loc, tab_map t k = None)" "tab_inv ok byte ovf T t1"
    "ctrl_size t1 = (if tab_map t k = None then ctrl_size t + 1 else ctrl_size t)"
    by (rule foa_table.fm_emplace_correct [OF tab Cons.prems(1) b, of k k])
  have room: "ctrl_size t < ctrl_ml t" using Cons.prems(3) by simp
  note st = foa_table.fm_emplace_stable [OF tab Cons.prems(1) room t1(1)]
  have cap: "capacity (arrays t) \<noteq> 0" using room foa_table.tinvD(4) [OF tab Cons.prems(1)] by simp
  then have el: "elements (arrays t) \<noteq> None" "elements (arrays t1) \<noteq> None"
    using st(1) by (auto simp: capacity_def simp del: not_None_eq split: if_splits)
  have "groups_size_mask (arrays t1) = groups_size_mask (arrays t)"
    using st(1) cap el by (simp add: capacity_def group_N_def)
  then have al: "allocated (\<lambda>_. True) t1" using Cons.prems(2) el by (simp add: allocated_def)
  have "ctrl_size t1 + length ks \<le> ctrl_ml t1" using Cons.prems(3) t1(3) st(2) by (simp split: if_splits)
  from Cons.IH [OF t1(2) al this] show ?case using t1(1) al by (simp add: boost_impl_def)
qed simp

lemma boost_runs:
  fixes T :: "('g, u64) foa_types"
  assumes tab: "foa_table T ok byte ovf" and keys: "length keys * 2 \<le> 2 ^ 50" "distinct keys"
    and iters: "0 < iters"
    and sets: "\<forall>ls \<in> set sets. set ls \<subseteq> set keys \<and> iters dvd length ls \<and> ls \<noteq> []"
  shows "\<exists>rs tr'. boost_benchmark T (\<lambda>_. True) linux clk keys sets iters tr = Inr (rs, tr') \<and>
    map bench_sum rs = map (\<lambda>ls. (if linux then 2 else 1) * sum_list ls) sets"
proof -
  have fits: "length keys * 2 < 2 ^ 60" using keys(1) by simp
  have z: "(0 :: nat) < 2 ^ 64" by simp
  let ?t = "core_new T 0 :: ('g, u64 \<times> u64) table_core"
  note new = foa_table.core_new_correct [OF tab z refl, where 'v = u64]
  have "ctrl_size ?t < 2 ^ 60" using new(3) by simp
  from foa_table.core_reserve_correct [OF tab new(1) this fits] obtain t where
    t: "core_reserve T (length keys * 2) ?t = Some t" "tab_inv ok byte ovf T t" "ctrl_size t = 0"
      "length keys * 2 \<le> initial_max_load (arrays t)" using new(3) by auto
  note f = foa_table.fresh_reserve [OF tab keys(1) t(1)]
  have mk: "mk (boost_impl T (\<lambda>_. True)) (length keys * 2) = Inr t"
    using t(1) f(2) by (simp add: boost_impl_def fm_reserve_def fm_new_def)
  have "ctrl_size t + length keys \<le> ctrl_ml t" using t(3,4) f(1) by simp
  from add_keys_room [OF tab t(2) f(2) this] obtain t' where
    "add_keys (boost_impl T (\<lambda>_. True)) keys t = Inr t'" by blast
  from bench_map.benchmark_returns [OF boost_impl_contract [OF tab] keys(2) _ fits iters sets mk this]
  show ?thesis by (simp add: boost_benchmark_def)
qed

section \<open>The benchmark\<close>

text \<open>
  C25. The benchmark of boost's map reports, for the keys \<open>1..n\<close> and lookup sets over them, the same
  sums as the other tables whatever group layout it was compiled for, unless an allocation fails;
  with enough memory it always finishes, for up to 2^49 keys.
\<close>

theorem boost_benchmark_sums:
  fixes linux :: bool
  assumes n: "n < 2 ^ 59" and good: "good_sets (make_keys n) sets"
  defines "expected \<equiv> map (\<lambda>ls. (if linux then 2 else 1) * sum_list ls) sets"
  shows "(case boost_benchmark (sse2_types hash_integral False) alloc linux clk (make_keys n) sets ITERS tr of
      Inl e \<Rightarrow> e = MapError BadAlloc | Inr (rs, tr') \<Rightarrow> map bench_sum rs = expected) \<and>
    (case boost_benchmark (neon_types hash_integral False) alloc linux clk (make_keys n) sets ITERS tr of
      Inl e \<Rightarrow> e = MapError BadAlloc | Inr (rs, tr') \<Rightarrow> map bench_sum rs = expected) \<and>
    (case boost_benchmark (nosimd_types hash_integral False) alloc linux clk (make_keys n) sets ITERS tr of
      Inl e \<Rightarrow> e = MapError BadAlloc | Inr (rs, tr') \<Rightarrow> map bench_sum rs = expected) \<and>
    (n \<le> 2 ^ 49 \<longrightarrow> (\<exists>rs tr'. boost_benchmark (sse2_types hash_integral False) (\<lambda>_. True) linux clk
      (make_keys n) sets ITERS tr = Inr (rs, tr') \<and> map bench_sum rs = expected))"
proof (intro conjI impI)
  have n64: "n < 2 ^ 64 - 1" using n by simp
  note k = make_keys_facts [OF n64]
  have sets: "\<forall>ls \<in> set sets. set ls \<subseteq> set (make_keys n) \<and> ITERS dvd length ls \<and> ls \<noteq> []"
    using good by (simp add: good_sets_def)
  have fits: "length (make_keys n) * 2 < 2 ^ 60" using n by (simp add: k)
  have all: "\<forall>k \<in> set (make_keys n). True" by simp
  show "case boost_benchmark (sse2_types hash_integral False) alloc linux clk (make_keys n) sets ITERS tr of
      Inl e \<Rightarrow> e = MapError BadAlloc | Inr (rs, tr') \<Rightarrow> map bench_sum rs = expected"
    using boost_sse2.benchmark_sums [OF k(1) all fits ITERS_pos sets,
      where h = hash_integral and av = False and linux = linux and clk = clk and tr = tr and alloc = alloc, folded expected_def]
    unfolding boost_benchmark_def by (auto split: sum.splits)
  show "case boost_benchmark (neon_types hash_integral False) alloc linux clk (make_keys n) sets ITERS tr of
      Inl e \<Rightarrow> e = MapError BadAlloc | Inr (rs, tr') \<Rightarrow> map bench_sum rs = expected"
    using boost_neon.benchmark_sums [OF k(1) all fits ITERS_pos sets,
      where h = hash_integral and av = False and linux = linux and clk = clk and tr = tr and alloc = alloc, folded expected_def]
    unfolding boost_benchmark_def by (auto split: sum.splits)
  show "case boost_benchmark (nosimd_types hash_integral False) alloc linux clk (make_keys n) sets ITERS tr of
      Inl e \<Rightarrow> e = MapError BadAlloc | Inr (rs, tr') \<Rightarrow> map bench_sum rs = expected"
    using boost_nosimd.benchmark_sums [OF k(1) all fits ITERS_pos sets,
      where h = hash_integral and av = False and linux = linux and clk = clk and tr = tr and alloc = alloc, folded expected_def]
    unfolding boost_benchmark_def by (auto split: sum.splits)
  show "\<exists>rs tr'. boost_benchmark (sse2_types hash_integral False) (\<lambda>_. True) linux clk
      (make_keys n) sets ITERS tr = Inr (rs, tr') \<and> map bench_sum rs = expected" if "n \<le> 2 ^ 49"
  proof -
    have "length (make_keys n) * 2 \<le> 2 ^ 50" using that by (simp add: k)
    from boost_runs [OF sse2_table.foa_table_axioms this k(1) ITERS_pos sets] show ?thesis
      unfolding expected_def by blast
  qed
qed

theorem boost_benchmark_sums_witness:
  "\<exists>rs tr'. boost_benchmark (sse2_types hash_integral False) (\<lambda>_. True) True (\<lambda>tr c. pc_zero) (make_keys 3)
     (make_dense_lookup_sets (make_keys 3)) ITERS [] = Inr (rs, tr') \<and>
   map bench_sum rs = map (\<lambda>ls. 2 * sum_list ls) (make_dense_lookup_sets (make_keys 3))"
proof -
  have "make_keys 3 \<noteq> []" using make_keys_facts(4) [of 3] by force
  then show ?thesis
    using boost_benchmark_sums [where n = 3 and sets = "make_dense_lookup_sets (make_keys 3)" and linux = True
        and clk = "\<lambda>tr c. pc_zero" and tr = "[]"]
      dense_sets_good [of "make_keys 3"] by simp
qed

end
