(* ===== verification/Boost_Container_Hash.thy ===== *)
theory Boost_Container_Hash
  imports Boost_Hash "HOL-Library.Multiset"
begin

text \<open>
  boost::hash for sequences: the mixers, combination of hashes, and the hash of a range of
  characters, which exists in two versions, one reading blocks through random-access iterators
  and one reading bytes through input iterators, for 64-bit and for 32-bit size_t. A range of
  characters is a list of bytes.
\<close>

section \<open>Mixing and combining\<close>

definition hash_mix64 :: "u64 \<Rightarrow> u64" where
  "hash_mix64 x =
     (let m = 0xe9846af9b1a615d;
          x = x XOR drop_bit 32 x;
          x = x * m;
          x = x XOR drop_bit 32 x;
          x = x * m;
          x = x XOR drop_bit 28 x
      in x)"

definition hash_mix32 :: "u32 \<Rightarrow> u32" where
  "hash_mix32 x =
     (let m1 = 0x21f0aaad;
          m2 = 0x735a2d97;
          x = x XOR drop_bit 16 x;
          x = x * m1;
          x = x XOR drop_bit 15 x;
          x = x * m2;
          x = x XOR drop_bit 15 x
      in x)"

definition hash_combine :: "('a \<Rightarrow> u64) \<Rightarrow> u64 \<Rightarrow> 'a \<Rightarrow> u64" where
  "hash_combine h seed v = hash_mix64 (seed + 0x9e3779b9 + h v)"

text \<open>The generic range, and the pair, which combines its two hashes.\<close>

fun hash_range_generic :: "('a \<Rightarrow> u64) \<Rightarrow> u64 \<Rightarrow> 'a list \<Rightarrow> u64" where
  "hash_range_generic h seed [] = seed"
| "hash_range_generic h seed (v # vs) = hash_range_generic h (hash_combine h seed v) vs"

definition hash_pair :: "('a \<Rightarrow> u64) \<Rightarrow> ('b \<Rightarrow> u64) \<Rightarrow> 'a \<times> 'b \<Rightarrow> u64" where
  "hash_pair f g p = hash_combine g (hash_combine f 0 (fst p)) (snd p)"

text \<open>The unordered range: every element is combined with the same seed, the results are added.\<close>

fun unordered_loop :: "('a \<Rightarrow> u64) \<Rightarrow> u64 \<Rightarrow> u64 \<Rightarrow> 'a list \<Rightarrow> u64" where
  "unordered_loop h s2 r [] = r"
| "unordered_loop h s2 r (v # vs) = (let s3 = hash_combine h s2 v in unordered_loop h s2 (r + s3) vs)"

definition hash_unordered_range :: "('a \<Rightarrow> u64) \<Rightarrow> u64 \<Rightarrow> 'a list \<Rightarrow> u64" where
  "hash_unordered_range h seed vs = seed + unordered_loop h seed 0 vs"

text \<open>128-bit integers on a 64-bit platform: the two halves.\<close>

definition hash_integral_128 :: "128 word \<Rightarrow> u64" where
  "hash_integral_128 v =
     (let seed = 0;
          seed = ucast (drop_bit 64 v) + hash_mix64 seed;
          seed = ucast v + hash_mix64 seed
      in seed)"

definition hash_integral_signed_128 :: "128 word \<Rightarrow> u64" where
  "hash_integral_signed_128 v =
     (if 0 <=s v then hash_integral_128 v else NOT (hash_integral_128 (NOT v)))"

section \<open>Reading bytes\<close>

definition read32le :: "u8 list \<Rightarrow> nat \<Rightarrow> u32" where
  "read32le p i =
     ucast (p ! i) OR push_bit 8 (ucast (p ! (i + 1))) OR push_bit 16 (ucast (p ! (i + 2)))
       OR push_bit 24 (ucast (p ! (i + 3)))"

definition read64le :: "u8 list \<Rightarrow> nat \<Rightarrow> u64" where
  "read64le p i =
     ucast (p ! i) OR push_bit 8 (ucast (p ! (i + 1))) OR push_bit 16 (ucast (p ! (i + 2)))
       OR push_bit 24 (ucast (p ! (i + 3))) OR push_bit 32 (ucast (p ! (i + 4)))
       OR push_bit 40 (ucast (p ! (i + 5))) OR push_bit 48 (ucast (p ! (i + 6)))
       OR push_bit 56 (ucast (p ! (i + 7)))"

text \<open>The multiplications: 32 bits wide, and 64 bits folded, with and without 128-bit integers.\<close>

definition mul32 :: "u32 \<Rightarrow> u32 \<Rightarrow> u64" where
  "mul32 x y = ucast x * ucast y"

definition hash_mulx :: "u64 \<Rightarrow> u64 \<Rightarrow> u64" where
  "hash_mulx x y =
     (let r = (ucast x :: 128 word) * ucast y
      in ucast r XOR ucast (drop_bit 64 r))"

definition hash_mulx_portable :: "u64 \<Rightarrow> u64 \<Rightarrow> u64" where
  "hash_mulx_portable x y =
     (let x1 = low32 x;
          x2 = drop_bit 32 x;
          y1 = low32 y;
          y2 = drop_bit 32 y;
          r3 = x2 * y2;
          r2a = x1 * y2;
          r3 = r3 + drop_bit 32 r2a;
          r2b = x2 * y1;
          r3 = r3 + drop_bit 32 r2b;
          r1 = x1 * y1;
          r2 = drop_bit 32 r1 + low32 r2a + low32 r2b;
          r1 = push_bit 32 r2 + low32 r1;
          r3 = r3 + drop_bit 32 r2
      in r1 XOR r3)"

section \<open>Ranges of characters, 64 bits\<close>

definition q64 :: u64 where "q64 = 0x9e3779b97f4a7c15"
definition k64 :: u64 where "k64 = 0xdf442d22ce4859b9"

text \<open>Random access: the loop over whole blocks of eight bytes.\<close>

function blocks64 :: "u8 list \<Rightarrow> u64 \<Rightarrow> u64 \<Rightarrow> u8 list \<times> u64 \<times> u64" where
  "blocks64 p w h =
     (if 8 \<le> length p then
        let v1 = read64le p 0; w = w + q64
        in blocks64 (drop 8 p) w (h XOR hash_mulx (v1 + w) k64)
      else (p, w, h))"
  by pat_completeness auto
termination by (relation "measure (\<lambda>(p, w, h). length p)") auto

declare blocks64.simps [simp del]

definition tail64 :: "u8 list \<Rightarrow> u64" where
  "tail64 p =
     (let n = length p
      in if 4 \<le> n then push_bit ((n - 4) * 8) (ucast (read32le p (n - 4))) OR ucast (read32le p 0)
         else if 1 \<le> n then
           let x1 = (n - 1) AND 2; x2 = n div 2
           in push_bit (x1 * 8) (ucast (p ! x1)) OR push_bit (x2 * 8) (ucast (p ! x2)) OR ucast (p ! 0)
         else 0)"

definition hash_range64 :: "u64 \<Rightarrow> u8 list \<Rightarrow> u64" where
  "hash_range64 seed p =
     (let w = hash_mulx (seed + q64) k64;
          h = w XOR of_nat (length p);
          (p, w, h) = blocks64 p w h;
          v1 = tail64 p;
          w = w + q64;
          h = h XOR hash_mulx (v1 + w) k64
      in hash_mulx (h + w) k64)"

text \<open>
  Input iterators: the eight unrolled steps that each read one byte and count it, leaving the
  loop at the end of the range. The result tells whether the end was met.
\<close>

fun read_steps64 :: "nat \<Rightarrow> nat \<Rightarrow> u64 \<Rightarrow> u64 \<Rightarrow> u8 list \<Rightarrow> u64 \<times> u64 \<times> u8 list \<times> bool" where
  "read_steps64 0 i v1 n p = (v1, n, p, False)"
| "read_steps64 (Suc m) i v1 n [] = (v1, n, [], True)"
| "read_steps64 (Suc m) i v1 n (b # p) = read_steps64 m (i + 1) (v1 OR push_bit (8 * i) (ucast b)) (n + 1) p"

lemma read_steps64_less: "read_steps64 (Suc m) i v1 n p = (v', n', p', False) \<Longrightarrow> length p' < length p"
proof -
  have le: "read_steps64 m i v1 n p = (v', n', p', e) \<Longrightarrow> length p' \<le> length p" for m i v1 n p e
    by (induction m i v1 n p rule: read_steps64.induct) auto
  assume "read_steps64 (Suc m) i v1 n p = (v', n', p', False)"
  then show ?thesis by (cases p) (auto dest: le)
qed

lemma read_steps64_block: "(v', n', p', False) = read_steps64 8 0 0 n p \<Longrightarrow> length p' < length p"
  using read_steps64_less [of 7 0 0 n p v' n' p'] by simp

function input_loop64 :: "u8 list \<Rightarrow> u64 \<Rightarrow> u64 \<Rightarrow> u64 \<Rightarrow> u64 \<times> u64 \<times> u64 \<times> u64" where
  "input_loop64 p w h n =
     (case read_steps64 8 0 0 n p of
        (v1, n, p', at_end) \<Rightarrow>
          if at_end then (v1, w, h, n)
          else let w = w + q64 in input_loop64 p' w (h XOR hash_mulx (v1 + w) k64) n)"
  by pat_completeness auto
termination
  by (relation "measure (\<lambda>(p, w, h, n). length p)") (auto dest: read_steps64_block)

declare input_loop64.simps [simp del]

definition hash_range64_input :: "u64 \<Rightarrow> u8 list \<Rightarrow> u64" where
  "hash_range64_input seed p =
     (let w = hash_mulx (seed + q64) k64;
          h = w;
          (v1, w, h, n) = input_loop64 p w h 0;
          h = h XOR n;
          w = w + q64;
          h = h XOR hash_mulx (v1 + w) k64
      in hash_mulx (h + w) k64)"

section \<open>Ranges of characters, 32 bits\<close>

definition q32 :: u32 where "q32 = 0x9e3779b9"
definition k32 :: u32 where "k32 = 0xe35e67b1"

function blocks32 :: "u8 list \<Rightarrow> u32 \<Rightarrow> u64 \<Rightarrow> u8 list \<times> u32 \<times> u64" where
  "blocks32 p w h =
     (if 4 \<le> length p then
        let v1 = read32le p 0; w = w + q32
        in blocks32 (drop 4 p) w (h XOR mul32 (v1 + w) k32)
      else (p, w, h))"
  by pat_completeness auto
termination by (relation "measure (\<lambda>(p, w, h). length p)") auto

declare blocks32.simps [simp del]

definition tail32 :: "u8 list \<Rightarrow> u32" where
  "tail32 p =
     (let n = length p
      in if 1 \<le> n then
           let x1 = (n - 1) AND 2; x2 = n div 2
           in push_bit (x1 * 8) (ucast (p ! x1)) OR push_bit (x2 * 8) (ucast (p ! x2)) OR ucast (p ! 0)
         else 0)"

definition finish32 :: "u32 \<Rightarrow> u64 \<Rightarrow> u32" where
  "finish32 w h =
     (let w = w + q32;
          h = h XOR mul32 (ucast h + w) (ucast (drop_bit 32 h) + w + k32)
      in ucast h XOR ucast (drop_bit 32 h))"

definition hash_range32 :: "u32 \<Rightarrow> u8 list \<Rightarrow> u32" where
  "hash_range32 seed p =
     (let h = mul32 (seed + q32) k32;
          w = ucast h;
          n = of_nat (length p) :: u32;
          (p, w, h) = blocks32 p w (h XOR ucast n);
          v1 = tail32 p;
          w = w + q32;
          h = h XOR mul32 (v1 + w) k32
      in finish32 w h)"

fun read_steps32 :: "nat \<Rightarrow> nat \<Rightarrow> u32 \<Rightarrow> u32 \<Rightarrow> u8 list \<Rightarrow> u32 \<times> u32 \<times> u8 list \<times> bool" where
  "read_steps32 0 i v1 n p = (v1, n, p, False)"
| "read_steps32 (Suc m) i v1 n [] = (v1, n, [], True)"
| "read_steps32 (Suc m) i v1 n (b # p) = read_steps32 m (i + 1) (v1 OR push_bit (8 * i) (ucast b)) (n + 1) p"

lemma read_steps32_less: "read_steps32 (Suc m) i v1 n p = (v', n', p', False) \<Longrightarrow> length p' < length p"
proof -
  have le: "read_steps32 m i v1 n p = (v', n', p', e) \<Longrightarrow> length p' \<le> length p" for m i v1 n p e
    by (induction m i v1 n p rule: read_steps32.induct) auto
  assume "read_steps32 (Suc m) i v1 n p = (v', n', p', False)"
  then show ?thesis by (cases p) (auto dest: le)
qed

lemma read_steps32_block: "(v', n', p', False) = read_steps32 4 0 0 n p \<Longrightarrow> length p' < length p"
  using read_steps32_less [of 3 0 0 n p v' n' p'] by simp

function input_loop32 :: "u8 list \<Rightarrow> u32 \<Rightarrow> u64 \<Rightarrow> u32 \<Rightarrow> u32 \<times> u32 \<times> u64 \<times> u32" where
  "input_loop32 p w h n =
     (case read_steps32 4 0 0 n p of
        (v1, n, p', at_end) \<Rightarrow>
          if at_end then (v1, w, h, n)
          else let w = w + q32 in input_loop32 p' w (h XOR mul32 (v1 + w) k32) n)"
  by pat_completeness auto
termination
  by (relation "measure (\<lambda>(p, w, h, n). length p)") (auto dest: read_steps32_block)

declare input_loop32.simps [simp del]

definition hash_range32_input :: "u32 \<Rightarrow> u8 list \<Rightarrow> u32" where
  "hash_range32_input seed p =
     (let h = mul32 (seed + q32) k32;
          w = ucast h;
          (v1, w, h, n) = input_loop32 p w h 0;
          h = h XOR ucast n;
          w = w + q32;
          h = h XOR mul32 (v1 + w) k32
      in finish32 w h)"

section \<open>Both versions compute the same hash\<close>

text \<open>A few bytes, the first in the low bits.\<close>

primrec le_bytes :: "u8 list \<Rightarrow> 'a::len word" where
  "le_bytes [] = 0"
| "le_bytes (b # p) = ucast b OR push_bit 8 (le_bytes p)"

lemma push_push: "push_bit m (push_bit n (x :: 'a::len word)) = push_bit (m + n) x"
  by (simp add: push_bit_push_bit)

lemma read_steps64_value:
  "read_steps64 m i v1 n p =
    (v1 OR push_bit (8 * i) (le_bytes (take m p)), n + of_nat (min m (length p)), drop m p, length p < m)"
proof (induction m i v1 n p rule: read_steps64.induct)
  case (3 m i v1 n b p)
  have "(v1 OR push_bit (8 * i) (ucast b)) OR push_bit (8 * (i + 1)) (le_bytes (take m p)) =
      v1 OR push_bit (8 * i) (le_bytes (take (Suc m) (b # p)))"
    by (simp add: push_bit_or push_push or.assoc add.commute)
  with 3 show ?case by (simp add: ac_simps)
qed simp_all

lemma read_steps32_value:
  "read_steps32 m i v1 n p =
    (v1 OR push_bit (8 * i) (le_bytes (take m p)), n + of_nat (min m (length p)), drop m p, length p < m)"
proof (induction m i v1 n p rule: read_steps32.induct)
  case (3 m i v1 n b p)
  have "(v1 OR push_bit (8 * i) (ucast b)) OR push_bit (8 * (i + 1)) (le_bytes (take m p)) =
      v1 OR push_bit (8 * i) (le_bytes (take (Suc m) (b # p)))"
    by (simp add: push_bit_or push_push or.assoc add.commute)
  with 3 show ?case by (simp add: ac_simps)
qed simp_all

lemma bytes_cases:
  assumes "length p < 8"
  obtains "p = []" | b0 where "p = [b0]" | b0 b1 where "p = [b0, b1]" | b0 b1 b2 where "p = [b0, b1, b2]"
    | b0 b1 b2 b3 where "p = [b0, b1, b2, b3]" | b0 b1 b2 b3 b4 where "p = [b0, b1, b2, b3, b4]"
    | b0 b1 b2 b3 b4 b5 where "p = [b0, b1, b2, b3, b4, b5]"
    | b0 b1 b2 b3 b4 b5 b6 where "p = [b0, b1, b2, b3, b4, b5, b6]"
  using assms by (auto simp: less_Suc_eq numeral_eq_Suc length_Suc_conv)

lemma ucast_or: "(ucast (x OR y :: 'a::len word) :: 'b::len word) = ucast x OR ucast y"
  by (rule bit_word_eqI) (auto simp: bit_simps)

lemma widen_byte:
  assumes "j + 8 \<le> 32"
  shows "(ucast (push_bit j (ucast (b :: u8)) :: u32) :: u64) = push_bit j (ucast b)"
proof (rule bit_word_eqI)
  fix n assume "n < LENGTH(64)"
  have "bit b (n - j) \<Longrightarrow> n - j < 8" using bit_imp_le_length [of b "n - j"] by simp
  then show "bit (ucast (push_bit j (ucast b :: u32)) :: u64) n = bit (push_bit j (ucast b :: u64)) n"
    using assms by (auto simp: bit_simps)
qed

lemma widen_byte0: "(ucast (ucast (b :: u8) :: u32) :: u64) = ucast b"
  using widen_byte [of 0 b] by simp

lemma two_and_two: "Suc (Suc 0) AND 2 = (2 :: nat)"
  by (simp add: numeral_2_eq_2 [symmetric])

lemmas word_orders = or.assoc or.commute or.left_commute or.left_idem or.idem

lemma tail64_le:
  assumes "length p < 8"
  shows "tail64 p = le_bytes p"
  by (rule bytes_cases [OF assms])
    (simp_all add: tail64_def read32le_def Let_def ucast_or widen_byte widen_byte0 push_bit_or push_push word_orders two_and_two)

lemma tail32_le:
  assumes "length p < 4"
  shows "tail32 p = le_bytes p"
proof -
  have "length p < 8" using assms by simp
  then show ?thesis
    by (rule bytes_cases) (use assms in \<open>simp_all add: tail32_def Let_def push_bit_or push_push word_orders two_and_two\<close>)
qed

lemma read64le_block: "8 \<le> length p \<Longrightarrow> read64le p 0 = le_bytes (take 8 p)"
proof -
  assume "8 \<le> length p"
  then obtain b0 b1 b2 b3 b4 b5 b6 b7 r where "p = b0 # b1 # b2 # b3 # b4 # b5 # b6 # b7 # r"
    by (auto simp: numeral_eq_Suc Suc_le_length_iff)
  then show ?thesis by (simp add: read64le_def push_bit_or push_push word_orders)
qed

lemma read32le_block: "4 \<le> length p \<Longrightarrow> read32le p 0 = le_bytes (take 4 p)"
proof -
  assume "4 \<le> length p"
  then obtain b0 b1 b2 b3 r where "p = b0 # b1 # b2 # b3 # r"
    by (auto simp: numeral_eq_Suc Suc_le_length_iff)
  then show ?thesis by (simp add: read32le_def push_bit_or push_push word_orders)
qed

lemma blocks64_rest: "blocks64 p w h = (r, w', h') \<Longrightarrow> length r < 8"
proof (induction p w h rule: blocks64.induct)
  case (1 p w h)
  then show ?case by (cases "8 \<le> length p") (simp_all add: blocks64.simps [of p w h] Let_def)
qed

lemma blocks64_xor: "blocks64 p w (h XOR c) = (case blocks64 p w h of (r, w', h') \<Rightarrow> (r, w', h' XOR c))"
proof (induction p w h rule: blocks64.induct)
  case (1 p w h)
  have c: "(h XOR c) XOR x = (h XOR x) XOR c" for x by (simp add: ac_simps)
  show ?case
  proof (cases "8 \<le> length p")
    case True
    with "1" [OF True refl refl] show ?thesis
      by (subst (1 2) blocks64.simps) (simp add: Let_def c)
  qed (simp add: blocks64.simps [of p])
qed

lemma input_loop64_blocks:
  "input_loop64 p w h n = (case blocks64 p w h of (r, w', h') \<Rightarrow> (le_bytes r, w', h', n + of_nat (length p)))"
proof (induction p w h arbitrary: n rule: blocks64.induct)
  case (1 p w h)
  show ?case
  proof (cases "8 \<le> length p")
    case True
    have len: "(8 :: u64) + of_nat (length p - 8) = of_nat (length p)" using True by (simp add: of_nat_diff)
    show ?thesis
      using "1" [OF True refl refl, of "n + 8"] True len
      by (subst input_loop64.simps, subst blocks64.simps)
        (simp add: read_steps64_value Let_def read64le_block add.assoc)
  next
    case False
    then show ?thesis
      by (subst input_loop64.simps, subst blocks64.simps) (simp add: read_steps64_value min_def)
  qed
qed

lemma blocks32_rest: "blocks32 p w h = (r, w', h') \<Longrightarrow> length r < 4"
proof (induction p w h rule: blocks32.induct)
  case (1 p w h)
  then show ?case by (cases "4 \<le> length p") (simp_all add: blocks32.simps [of p w h] Let_def)
qed

lemma blocks32_xor: "blocks32 p w (h XOR c) = (case blocks32 p w h of (r, w', h') \<Rightarrow> (r, w', h' XOR c))"
proof (induction p w h rule: blocks32.induct)
  case (1 p w h)
  have c: "(h XOR c) XOR x = (h XOR x) XOR c" for x by (simp add: ac_simps)
  show ?case
  proof (cases "4 \<le> length p")
    case True
    with "1" [OF True refl refl] show ?thesis
      by (subst (1 2) blocks32.simps) (simp add: Let_def c)
  qed (simp add: blocks32.simps [of p])
qed

lemma input_loop32_blocks:
  "input_loop32 p w h n = (case blocks32 p w h of (r, w', h') \<Rightarrow> (le_bytes r, w', h', n + of_nat (length p)))"
proof (induction p w h arbitrary: n rule: blocks32.induct)
  case (1 p w h)
  show ?case
  proof (cases "4 \<le> length p")
    case True
    have len: "(4 :: u32) + of_nat (length p - 4) = of_nat (length p)" using True by (simp add: of_nat_diff)
    show ?thesis
      using "1" [OF True refl refl, of "n + 4"] True len
      by (subst input_loop32.simps, subst blocks32.simps)
        (simp add: read_steps32_value Let_def read32le_block add.assoc)
  next
    case False
    then show ?thesis
      by (subst input_loop32.simps, subst blocks32.simps) (simp add: read_steps32_value min_def)
  qed
qed

text \<open>
  C31. The hash of a range of characters does not depend on the kind of iterator: the version for
  random-access iterators, which reads blocks of eight (or four) bytes and the rest with
  overlapping reads, and the version for input iterators, which counts the bytes as it reads them
  one by one, agree on every range, for 64-bit and for 32-bit hashes.
\<close>

theorem hash_range_iterator_independent:
  "hash_range64 seed p = hash_range64_input seed p \<and> hash_range32 seed' p = hash_range32_input seed' p"
proof (rule conjI)
  show "hash_range64 seed p = hash_range64_input seed p"
  proof -
    let ?w = "hash_mulx (seed + q64) k64"
    obtain r w' h' where b: "blocks64 p ?w ?w = (r, w', h')" by (metis surj_pair)
    from blocks64_rest [OF b] have "tail64 r = le_bytes r" by (rule tail64_le)
    then show ?thesis
      by (simp add: hash_range64_def hash_range64_input_def Let_def blocks64_xor input_loop64_blocks b)
  qed
  show "hash_range32 seed' p = hash_range32_input seed' p"
  proof -
    let ?h = "mul32 (seed' + q32) k32"
    obtain r w' h' where b: "blocks32 p (ucast ?h) ?h = (r, w', h')" by (metis surj_pair)
    from blocks32_rest [OF b] have "tail32 r = le_bytes r" by (rule tail32_le)
    then show ?thesis
      by (simp add: hash_range32_def hash_range32_input_def Let_def blocks32_xor input_loop32_blocks b)
  qed
qed

section \<open>The other hashes\<close>

text \<open>
  The portable 64-by-64-bit multiplications, which work on 32-bit halves, compute the same
  folded products as those on 128-bit integers: the one of the table's mixing and the one of the
  range hash.
\<close>

theorem folded_products_agree:
  "mulx64_portable x y = mulx64 x y \<and> hash_mulx_portable x y = hash_mulx x y"
  using mulx64_portable_eq [of x y]
  by (simp add: hash_mulx_portable_def hash_mulx_def mulx64_portable_def mulx64_def)

lemma hash_mix_eq_iff:
  "hash_mix64 x = hash_mix64 y \<longleftrightarrow> x = y" "hash_mix32 a = hash_mix32 b \<longleftrightarrow> a = b"
proof -
  have u: "(0x153ed04bd89cfaf5 :: u64) * 0xe9846af9b1a615d = 1" by simp
  have u1: "(0x333c4925 :: u32) * 0x21f0aaad = 1" by simp
  have u2: "(0x97132227 :: u32) * 0x735a2d97 = 1" by simp
  show "hash_mix64 x = hash_mix64 y \<longleftrightarrow> x = y"
    unfolding hash_mix64_def Let_def by (simp only: inj_xor_drop_bit inj_mult_unit [OF u] zero_less_numeral)
  show "hash_mix32 a = hash_mix32 b \<longleftrightarrow> a = b"
    unfolding hash_mix32_def Let_def
    by (simp only: inj_xor_drop_bit inj_mult_unit [OF u1] inj_mult_unit [OF u2] zero_less_numeral)
qed

lemma unordered_loop_sum: "unordered_loop h s r vs = r + sum_list (map (hash_combine h s) vs)"
  by (induction vs arbitrary: r) (simp_all add: Let_def add.assoc)

text \<open>
  Combining loses nothing: the mixers are bijective, so for a fixed seed two values with
  different hashes combine to different seeds; and the hash of an unordered range depends only on
  the multiset of its elements, as equality of unordered containers does.
\<close>

theorem hash_combine_lossless:
  "bij hash_mix64 \<and> bij hash_mix32 \<and>
   (hash_combine h seed u = hash_combine h seed v \<longleftrightarrow> h u = h v) \<and>
   (hash_combine h s1 u = hash_combine h s2 u \<longleftrightarrow> s1 = s2) \<and>
   (mset us = mset vs \<longrightarrow> hash_unordered_range h seed us = hash_unordered_range h seed vs)"
proof -
  have "bij hash_mix64" "bij hash_mix32"
    by (simp_all add: bij_def finite_UNIV_inj_surj inj_def hash_mix_eq_iff)
  moreover have "hash_unordered_range h seed us = hash_unordered_range h seed vs" if "mset us = mset vs"
    using that
    by (simp add: hash_unordered_range_def unordered_loop_sum flip: sum_mset_sum_list mset_map)
      (metis mset_map)
  ultimately show ?thesis by (simp add: hash_combine_def hash_mix_eq_iff)
qed

theorem hash_combine_lossless_witness:
  "hash_unordered_range (\<lambda>v. v) 7 [1, 2, 3 :: u64] = hash_unordered_range (\<lambda>v. v) 7 [3, 1, 2]"
  using hash_combine_lossless [of "\<lambda>v. v" 7 0 0 0 0 "[1, 2, 3 :: u64]" "[3, 1, 2]"] by simp

end
