(* ===== verification/Boost_Serialize.thy ===== *)
theory Boost_Serialize
  imports Boost_History
begin

text \<open>
  Saving an unordered_flat_map to an archive and loading it back. The archive is a template
  parameter of the code; what it is used for is to be read in the order it was written, so here
  it is the list of the items written. An item of another kind than the one asked for, or a
  missing one, is an error of the archive.
\<close>

datatype ('k, 'v) item =
    ItemCount nat
  | ItemKeyVersion nat
  | ItemMappedVersion nat
  | ItemKey 'k
  | ItemMapped 'v

datatype load_error = ArchiveError | BadArchive | LoadNoReturn

section \<open>Saving\<close>

definition save_element :: "'k \<times> 'v \<Rightarrow> ('k, 'v) item list" where
  "save_element e = [ItemKey (fst e), ItemMapped (snd e)]"

definition save_map where
  "save_map T key_version mapped_version x =
     map_option
       (\<lambda>locs. [ItemCount (fm_size x), ItemKeyVersion key_version, ItemMappedVersion mapped_version]
          @ concat (map (\<lambda>loc. save_element (element_at (arrays x) loc)) locs))
       (visit_all T (arrays x))"

section \<open>Loading\<close>

fun load_items ::
  "('g, 'k) foa_types \<Rightarrow> nat \<Rightarrow> ('k, 'v) item list \<Rightarrow> ('g, 'k \<times> 'v) table_core \<Rightarrow>
   load_error + ('g, 'k \<times> 'v) table_core \<times> ('k, 'v) item list" where
  "load_items T 0 ar x = Inr (x, ar)"
| "load_items T (Suc n) (ItemKey k # ItemMapped v # ar) x =
     (case fm_emplace T k v x of
        None \<Rightarrow> Inl LoadNoReturn
      | Some (x', _, inserted) \<Rightarrow> if \<not> inserted then Inl BadArchive else load_items T n ar x')"
| "load_items T (Suc n) ar x = Inl ArchiveError"

definition load_map ::
  "('g, 'k) foa_types \<Rightarrow> ('k, 'v) item list \<Rightarrow> ('g, 'k \<times> 'v) table_core \<Rightarrow>
   load_error + ('g, 'k \<times> 'v) table_core \<times> ('k, 'v) item list" where
  "load_map T ar x =
     (case ar of
        ItemCount s # ItemKeyVersion kv # ItemMappedVersion mv # ar \<Rightarrow>
          (case fm_reserve T s (fm_clear T x) of
             None \<Rightarrow> Inl LoadNoReturn
           | Some x \<Rightarrow> load_items T s ar x)
      | _ \<Rightarrow> Inl ArchiveError)"

section \<open>Loading what was saved\<close>

context foa_table
begin

lemma load_items_correct:
  fixes t :: "('g, 'k \<times> 'v) table_core"
  assumes "tinv t" "ctrl_size t + length es \<le> 2 ^ 60"
  shows "if distinct (map fst es) \<and> (\<forall>e \<in> List.set es. tab_map t (fst e) = None)
    then \<exists>t'. load_items T (length es) (concat (map save_element es) @ rest) t = Inr (t', rest) \<and>
      tinv t' \<and> tab_map t' = tab_map t ++ map_of es
    else load_items T (length es) (concat (map save_element es) @ rest) t = Inl BadArchive"
  using assms
proof (induction es arbitrary: t)
  case (Cons e es)
  obtain k v where e: "e = (k, v)" by (cases e)
  obtain t1 loc where t1: "fm_emplace T k v t = Some (t1, loc, tab_map t k = None)" "tinv t1"
    "tab_map t1 = (if tab_map t k = None then (tab_map t)(k \<mapsto> v) else tab_map t)"
    "ctrl_size t1 = (if tab_map t k = None then ctrl_size t + 1 else ctrl_size t)"
    by (rule fm_emplace_correct [OF Cons.prems(1), of k v]) (use Cons.prems(2) in simp_all)
  show ?case
  proof (cases "tab_map t k = None")
    case False
    with t1(1) show ?thesis by (auto simp: e save_element_def)
  next
    case True
    have step: "load_items T (length (e # es)) (concat (map save_element (e # es)) @ rest) t =
        load_items T (length es) (concat (map save_element es) @ rest) t1"
      using t1(1) True by (simp add: e save_element_def)
    have fresh: "distinct (map fst (e # es)) \<and> (\<forall>x \<in> List.set (e # es). tab_map t (fst x) = None) \<longleftrightarrow>
        distinct (map fst es) \<and> (\<forall>x \<in> List.set es. tab_map t1 (fst x) = None)"
      using True t1(3) by (force simp: e)
    have merged: "tab_map t1 ++ map_of es = tab_map t ++ map_of (e # es)" if "distinct (map fst (e # es))"
    proof -
      have "map_of es k = None" using that by (simp add: e map_of_eq_None_iff)
      then show ?thesis using True t1(3) by (auto simp: e map_add_def fun_eq_iff split: option.splits)
    qed
    have "ctrl_size t1 + length es \<le> 2 ^ 60" using Cons.prems(2) t1(4) True by simp
    note IH = Cons.IH [OF t1(2) this]
    show ?thesis
    proof (cases "distinct (map fst es) \<and> (\<forall>x \<in> List.set es. tab_map t1 (fst x) = None)")
      case D: True
      then have "distinct (map fst (e # es))" using fresh by blast
      then have m: "tab_map t1 ++ map_of es = tab_map t ++ map_of (e # es)"
        by (rule merged)
      show ?thesis using IH unfolding step fresh if_P [OF D] m .
    next
      case D: False
      show ?thesis using IH unfolding step fresh if_not_P [OF D] .
    qed
  qed
qed (simp add: map_add_def)

lemma save_map_correct:
  fixes t :: "('g, 'k \<times> 'v) table_core"
  assumes t: "tinv t"
  shows "save_map T kv mv t = Some ([ItemCount (ctrl_size t), ItemKeyVersion kv, ItemMappedVersion mv]
    @ concat (map save_element (somes (slots (arrays t)))))"
proof -
  note inv = tinvD(1) [OF t]
  have "map (element_at (arrays t)) (all_locators T (arrays t)) = somes (slots (arrays t))"
    using all_elements_eq [OF inv] by (simp add: all_elements_def)
  from arg_cong [OF this, of "map save_element"]
  have "map (\<lambda>loc. save_element (element_at (arrays t) loc)) (all_locators T (arrays t)) =
      map save_element (somes (slots (arrays t)))" by (simp add: comp_def)
  then show ?thesis
    unfolding save_map_def visit_all_correct [OF inv] by (simp add: fm_size_def)
qed

text \<open>Loading a sequence of elements into any table.\<close>

lemma load_map_correct:
  fixes x :: "('g, 'k \<times> 'v) table_core"
  assumes x: "tinv x" and len: "length es < 2 ^ 60"
  shows "if distinct (map fst es)
    then \<exists>x'. load_map T ([ItemCount (length es), ItemKeyVersion kv, ItemMappedVersion mv]
        @ concat (map save_element es) @ rest) x = Inr (x', rest) \<and> tinv x' \<and> tab_map x' = map_of es
    else load_map T ([ItemCount (length es), ItemKeyVersion kv, ItemMappedVersion mv]
        @ concat (map save_element es) @ rest) x = Inl BadArchive"
proof -
  note c = core_clear_correct [OF x]
  have "ctrl_size (core_clear T x) < 2 ^ 60" using c(3) by simp
  from core_reserve_correct [OF c(1) this len] obtain x1 where
    x1: "core_reserve T (length es) (core_clear T x) = Some x1" "tinv x1" "tab_map x1 = Map.empty" "ctrl_size x1 = 0"
    using c(2,3) by auto
  have "ctrl_size x1 + length es \<le> 2 ^ 60" using len x1(4) by simp
  note L = load_items_correct [OF x1(2) this, of rest]
  have step: "load_map T ([ItemCount (length es), ItemKeyVersion kv, ItemMappedVersion mv]
      @ concat (map save_element es) @ rest) x = load_items T (length es) (concat (map save_element es) @ rest) x1"
    by (simp add: load_map_def fm_clear_def fm_reserve_def x1(1))
  have D: "distinct (map fst es) \<and> (\<forall>e \<in> List.set es. tab_map x1 (fst e) = None) \<longleftrightarrow> distinct (map fst es)"
    by (simp add: x1(3))
  have e: "Map.empty ++ map_of es = map_of es" by simp
  show ?thesis using L unfolding D unfolding step x1(3) e .
qed

end

text \<open>
  C30. Saving a map and loading it back gives an equal map and leaves the archive after it, whatever
  the table loaded into held, also when the program that loads was compiled for another group
  layout than the one that saved, in both directions; loading an archive in which a key occurs twice fails with bad_archive.
\<close>

theorem save_load_roundtrip:
  fixes t :: "(bytes_group, 'k \<times> 'v) table_core" and x :: "(words_group, 'k \<times> 'v) table_core"
  assumes t: "tab_inv bytes_ok bytes_byte bytes_ovf (sse2_types h av) t" "ctrl_size t < 2 ^ 60"
    and x: "tab_inv ns_ok ns_byte ns_ovf (nosimd_types h' av') x" and es: "length es < 2 ^ 60"
  shows "(\<exists>ar. save_map (sse2_types h av) kv mv t = Some ar \<and>
      (\<exists>x'. load_map (nosimd_types h' av') (ar @ rest) x = Inr (x', rest) \<and> tab_map x' = tab_map t) \<and>
      (\<exists>t'. load_map (sse2_types h av) (ar @ rest) t = Inr (t', rest) \<and> core_eq (sse2_types h av) t t')) \<and>
    (ctrl_size x < 2 ^ 60 \<longrightarrow> (\<exists>ar. save_map (nosimd_types h' av') kv mv x = Some ar \<and>
      (\<exists>t'. load_map (sse2_types h av) (ar @ rest) t = Inr (t', rest) \<and> tab_map t' = tab_map x))) \<and>
    (\<not> distinct (map fst es) \<longrightarrow>
      load_map (sse2_types h av) (ItemCount (length es) # ItemKeyVersion kv # ItemMappedVersion mv #
        concat (map save_element es) @ rest) t = Inl BadArchive)"
proof -
  let ?es = "somes (slots (arrays t))"
  have d: "distinct (map fst ?es)"
    by (rule keys_unique_distinct [OF sse2_table.invD(4) [OF sse2_table.tinvD(1) [OF t(1)]]])
  have len: "length ?es = ctrl_size t" using sse2_table.tinvD(2) [OF t(1)] by simp
  have m: "map_of ?es = tab_map t" by (simp add: tab_map_def arr_map_def)
  have b: "length ?es < 2 ^ 60" using len t(2) by simp
  obtain x' where x': "load_map (nosimd_types h' av') ([ItemCount (length ?es), ItemKeyVersion kv, ItemMappedVersion mv]
      @ concat (map save_element ?es) @ rest) x = Inr (x', rest)" "tab_map x' = tab_map t"
    using nosimd_table.load_map_correct [OF x b, where rest = rest and kv = kv and mv = mv] d m by auto
  obtain t' where t': "load_map (sse2_types h av) ([ItemCount (length ?es), ItemKeyVersion kv, ItemMappedVersion mv]
      @ concat (map save_element ?es) @ rest) t = Inr (t', rest)" "tab_map t' = tab_map t"
      "tab_inv bytes_ok bytes_byte bytes_ovf (sse2_types h av) t'"
    using sse2_table.load_map_correct [OF t(1) b, where rest = rest and kv = kv and mv = mv] d m by auto
  have "core_eq (sse2_types h av) t t'" using sse2_table.core_eq_correct [OF t(1) t'(3)] t'(2) by simp
  with x' t' have "\<exists>ar. save_map (sse2_types h av) kv mv t = Some ar \<and>
      (\<exists>x'. load_map (nosimd_types h' av') (ar @ rest) x = Inr (x', rest) \<and> tab_map x' = tab_map t) \<and>
      (\<exists>t'. load_map (sse2_types h av) (ar @ rest) t = Inr (t', rest) \<and> core_eq (sse2_types h av) t t')"
    unfolding sse2_table.save_map_correct [OF t(1)] by (simp add: len)
  moreover have "load_map (sse2_types h av) (ItemCount (length es) # ItemKeyVersion kv # ItemMappedVersion mv #
        concat (map save_element es) @ rest) t = Inl BadArchive" if "\<not> distinct (map fst es)"
    using sse2_table.load_map_correct [OF t(1) es, where rest = rest and kv = kv and mv = mv]
    unfolding if_not_P [OF that] by (simp only: append_Cons append_Nil)
  moreover have "\<exists>ar. save_map (nosimd_types h' av') kv mv x = Some ar \<and>
      (\<exists>t'. load_map (sse2_types h av) (ar @ rest) t = Inr (t', rest) \<and> tab_map t' = tab_map x)"
    if "ctrl_size x < 2 ^ 60"
  proof -
    let ?xs = "somes (slots (arrays x))"
    have d: "distinct (map fst ?xs)"
      by (rule keys_unique_distinct [OF nosimd_table.invD(4) [OF nosimd_table.tinvD(1) [OF x]]])
    have len: "length ?xs = ctrl_size x" using nosimd_table.tinvD(2) [OF x] by simp
    have m: "map_of ?xs = tab_map x" by (simp add: tab_map_def arr_map_def)
    have b: "length ?xs < 2 ^ 60" using len that by simp
    show ?thesis
      using sse2_table.load_map_correct [OF t(1) b, where rest = rest and kv = kv and mv = mv] d m
      unfolding nosimd_table.save_map_correct [OF x] by (auto simp: len)
  qed
  ultimately show ?thesis by blast
qed

text \<open>An archive with a key twice.\<close>

theorem save_load_roundtrip_witness:
  "load_map (sse2_types (\<lambda>k. k) False) [ItemCount 2, ItemKeyVersion 0, ItemMappedVersion 0,
     ItemKey (1 :: u64), ItemMapped (5 :: u64), ItemKey 1, ItemMapped 6] (fm_new (sse2_types (\<lambda>k. k) False) 0)
   = Inl BadArchive"
proof -
  have z: "(0 :: nat) < 2 ^ 64" by simp
  note s = sse2_table.core_new_correct [OF z fm_new_def, where h = "\<lambda>k :: u64. k" and av = False and 'v = u64]
  note n = nosimd_table.core_new_correct [OF z fm_new_def, where h = "\<lambda>k :: u64. k" and av = False and 'v = u64]
  have b: "ctrl_size (fm_new (sse2_types (\<lambda>k. k) False) 0 :: (bytes_group, u64 \<times> u64) table_core) < 2 ^ 60"
    using s(3) by simp
  have "length [(1 :: u64, 5 :: u64), (1, 6)] < 2 ^ 60" by simp
  from save_load_roundtrip [OF s(1) b n(1) this, of 0 0 "[]"] show ?thesis
    by (simp add: save_element_def numeral_2_eq_2)
qed

end
