(* ===== verification/Fph_Util.thy ===== *)
theory Fph_Util
  imports Floats "HOL-Library.Multiset"
begin

text \<open>
  The arithmetic of dynamic_fph_table.hpp: rounding to powers of two and to bit masks, rotation,
  and the counting sort that orders the buckets. The templates over unsigned types are generic in
  the length of the word.
\<close>

section \<open>Powers of two and masks\<close>

definition count_leading_zero :: "'a::len word \<Rightarrow> 'a word" where
  "count_leading_zero x = of_nat (LENGTH('a) - bitlen_nat (unat x))"

definition round_up_log2 :: "'a::len word \<Rightarrow> 'a word" where
  "round_up_log2 x = (if x \<le> 1 then x else of_nat LENGTH('a) - count_leading_zero (x - 1))"

definition gen_bit_mask :: "nat \<Rightarrow> 'a::len word" where
  "gen_bit_mask mask_len = (if LENGTH('a) \<le> mask_len then - 1 else push_bit mask_len 1 - 1)"

definition ceil2 :: "'a::len word \<Rightarrow> 'a word" where
  "ceil2 x = push_bit (unat (round_up_log2 x)) 1"

definition ceil_to_mask :: "'a::len word \<Rightarrow> 'a word" where
  "ceil_to_mask x =
     (let roundup_log_2 = unat (round_up_log2 x)
      in if x = - 1 then x
         else if x = push_bit roundup_log_2 1 then gen_bit_mask (roundup_log_2 + 1)
         else gen_bit_mask roundup_log_2)"

definition rotate_r :: "'a::len word \<Rightarrow> 'b::len word \<Rightarrow> 'a word" where
  "rotate_r v b =
     (let count_mask = of_nat (LENGTH('a) - 1);
          mb = b AND count_mask
      in drop_bit (unat mb) v OR push_bit (unat (- mb AND count_mask)) v)"

section \<open>What they compute\<close>

text \<open>The exponent that the rounding finds, and the least power of two not below a number.\<close>

definition log2_up :: "nat \<Rightarrow> nat" where
  "log2_up n = (if n \<le> 1 then n else bitlen_nat (n - 1))"

lemma log2_up_bounds:
  assumes "2 \<le> n"
  shows "n \<le> 2 ^ log2_up n" and "2 ^ (log2_up n - 1) < n" and "1 \<le> log2_up n"
  using bitlen_nat_bounds [of "n - 1"] assms by (auto simp: log2_up_def)

lemma log2_up_le: "n \<le> 2 ^ m \<Longrightarrow> 1 \<le> m \<Longrightarrow> log2_up n \<le> m"
proof -
  assume n: "n \<le> 2 ^ m" and m: "1 \<le> m"
  show ?thesis
  proof (cases "2 \<le> n")
    case True
    with n have "(2::nat) ^ (log2_up n - 1) < 2 ^ m" using log2_up_bounds(2) [OF True] by linarith
    then show ?thesis using power_less_imp_less_exp [of "2::nat" "log2_up n - 1" m] by linarith
  next
    case False
    with m show ?thesis by (simp add: log2_up_def)
  qed
qed

lemma log2_up_pow2: "1 \<le> m \<Longrightarrow> log2_up (2 ^ m) = m"
proof (rule antisym)
  assume m: "1 \<le> m"
  show "log2_up (2 ^ m) \<le> m" using m by (intro log2_up_le) simp_all
  have "(2::nat) ^ 1 \<le> 2 ^ m" using m by (intro power_increasing) simp_all
  then have "(2::nat) ^ m \<le> 2 ^ log2_up (2 ^ m)" by (intro log2_up_bounds(1)) simp
  then show "m \<le> log2_up (2 ^ m)" by simp
qed

lemma bitlen_nat_le: "0 < n \<Longrightarrow> n < 2 ^ m \<Longrightarrow> bitlen_nat n \<le> m"
proof -
  assume "0 < n" "n < 2 ^ m"
  with bitlen_nat_bounds [of n] have b: "(2::nat) ^ (bitlen_nat n - 1) < 2 ^ m" "0 < bitlen_nat n"
    by (meson le_less_trans)+
  have "bitlen_nat n - 1 < m" by (rule power_less_imp_less_exp [OF _ b(1)]) simp
  with b(2) show ?thesis by linarith
qed

lemma unat_round_up_log2:
  fixes x :: "'a::len word"
  assumes "2 \<le> LENGTH('a)"
  shows "unat (round_up_log2 x) = log2_up (unat x)"
proof (cases "x \<le> 1")
  case True
  have "(unat x \<le> unat (1 :: 'a word)) = (x \<le> 1)" by (simp add: word_le_nat_alt)
  with True have "unat x \<le> 1" by simp
  with True show ?thesis by (simp add: round_up_log2_def log2_up_def)
next
  case False
  have "(unat x \<le> unat (1 :: 'a word)) = (x \<le> 1)" by (simp add: word_le_nat_alt)
  with False have x: "1 < unat x" by simp
  have m1: "unat (x - 1) = unat x - 1" using x by (subst unat_minus_one) auto
  have lt: "unat x < 2 ^ LENGTH('a)" by simp
  have b: "bitlen_nat (unat x - 1) \<le> LENGTH('a)" using x lt by (intro bitlen_nat_le) linarith+
  have "of_nat LENGTH('a) - count_leading_zero (x - 1) = (of_nat (bitlen_nat (unat x - 1)) :: 'a word)"
    using b by (simp add: count_leading_zero_def m1 of_nat_diff)
  moreover have "LENGTH('a) < 2 ^ LENGTH('a)" by simp
  with b have "bitlen_nat (unat x - 1) < 2 ^ LENGTH('a)" by linarith
  then have "unat (of_nat (bitlen_nat (unat x - 1)) :: 'a word) = bitlen_nat (unat x - 1)"
    by (simp add: unsigned_of_nat take_bit_nat_eq_self)
  ultimately show ?thesis using False x by (simp add: round_up_log2_def log2_up_def)
qed

lemma ceil2_eq:
  fixes x :: "'a::len word"
  assumes "2 \<le> LENGTH('a)"
  shows "ceil2 x = 2 ^ log2_up (unat x)"
  using unat_round_up_log2 [OF assms, of x] by (simp add: ceil2_def push_bit_eq_mult)

lemma unat_gen_bit_mask: "m \<le> LENGTH('a) \<Longrightarrow> unat (gen_bit_mask m :: 'a::len word) = 2 ^ m - 1"
proof -
  assume m: "m \<le> LENGTH('a)"
  have "gen_bit_mask m = (2 ^ m - 1 :: 'a word)"
    using m by (auto simp: gen_bit_mask_def push_bit_eq_mult)
  with unat_low_mask [OF m] show ?thesis by simp
qed

lemma unat_push_one: "unat (push_bit k (1 :: 'a::len word)) = (if k < LENGTH('a) then 2 ^ k else 0)"
proof (cases "k < LENGTH('a)")
  case True
  with unat_two_power [where 'a = 'a and m = k] show ?thesis by (simp add: push_bit_eq_mult)
next
  case False
  then have "push_bit k (1 :: 'a word) = 0" by (intro bit_word_eqI) (simp only: bit_push_bit_iff, simp)
  with False show ?thesis by (simp only: if_False unat_0)
qed

lemma bitlen_log2_up: "2 \<le> n \<Longrightarrow> bitlen_nat n = (if n = 2 ^ log2_up n then log2_up n + 1 else log2_up n)"
proof -
  assume n: "2 \<le> n"
  let ?k = "log2_up n"
  note lb = log2_up_bounds [OF n]
  note bb = bitlen_nat_bounds [of n]
  show ?thesis
  proof (cases "n = 2 ^ ?k")
    case True
    have "(2::nat) ^ ?k < 2 ^ bitlen_nat n" using True bb n by simp
    then have "?k < bitlen_nat n" by simp
    moreover have "bitlen_nat n \<le> ?k + 1" by (rule bitlen_nat_le) (use True n in simp_all)
    ultimately show ?thesis using True by simp
  next
    case False
    with lb have lt: "n < 2 ^ ?k" by simp
    then have "bitlen_nat n \<le> ?k" using n by (intro bitlen_nat_le) simp_all
    moreover have "(2::nat) ^ (?k - 1) < 2 ^ bitlen_nat n" using lb bb n by linarith
    then have "?k - 1 < bitlen_nat n" by simp
    ultimately show ?thesis using False lb(3) by simp
  qed
qed

lemma unat_ceil_to_mask:
  fixes x :: "'a::len word"
  assumes L: "2 \<le> LENGTH('a)"
  shows "unat (ceil_to_mask x) = 2 ^ bitlen_nat (unat x) - 1"
proof -
  let ?k = "log2_up (unat x)"
  have all: "unat (- 1 :: 'a word) = 2 ^ LENGTH('a) - 1" by (simp add: unsigned_minus_1_eq_mask mask_eq_exp_minus_1)
  have lt: "unat x < 2 ^ LENGTH('a)" by simp
  have small: "unat x \<le> 2 ^ LENGTH('a)" using lt by (rule less_imp_le)
  have k: "?k \<le> LENGTH('a)" using log2_up_le [OF small] L by simp
  consider "x = - 1" | "x \<noteq> - 1" "unat x \<le> 1" | "x \<noteq> - 1" "2 \<le> unat x" by linarith
  then show ?thesis
  proof cases
    case 1
    have "bitlen_nat (2 ^ LENGTH('a) - 1) = LENGTH('a)"
    proof -
      have "(2::nat) ^ 1 \<le> 2 ^ LENGTH('a)" using L by (intro power_increasing) auto
      then have p: "0 < (2::nat) ^ LENGTH('a) - 1" by simp
      have "(2::nat) ^ LENGTH('a) - 1 < 2 ^ bitlen_nat (2 ^ LENGTH('a) - 1)" using bitlen_nat_bounds [OF p] by simp
      then have "(2::nat) ^ LENGTH('a) \<le> 2 ^ bitlen_nat (2 ^ LENGTH('a) - 1)" by linarith
      then have "LENGTH('a) \<le> bitlen_nat (2 ^ LENGTH('a) - 1)" by simp
      moreover have "bitlen_nat (2 ^ LENGTH('a) - 1) \<le> LENGTH('a)" by (rule bitlen_nat_le [OF p]) simp
      ultimately show ?thesis by simp
    qed
    then show ?thesis using 1 by (simp add: ceil_to_mask_def all)
  next
    case 2
    then consider "unat x = 0" | "unat x = 1" by linarith
    then show ?thesis
    proof cases
      case 1
      then have "x = 0" by (simp add: unat_eq_0)
      then show ?thesis
        using 2 by (simp add: ceil_to_mask_def round_up_log2_def gen_bit_mask_def bitlen_nat.simps)
    next
      case 2
      then have x: "x = 1" by (simp add: word_unat_eq_iff)
      have "(1 :: 'a word) \<noteq> push_bit 1 1"
        using unat_push_one [where k = 1 and 'a = 'a] L by (metis One_nat_def n_not_Suc_n numeral_2_eq_2
          power_one_right unsigned_1 less_le_trans lessI numerals(2))
      moreover have "unat (gen_bit_mask 1 :: 'a word) = 2 ^ 1 - 1" using L by (intro unat_gen_bit_mask) simp
      ultimately show ?thesis
        using \<open>x \<noteq> - 1\<close> unfolding x by (simp add: ceil_to_mask_def round_up_log2_def bitlen_nat.simps)
    qed
  next
    case 3
    have eq: "x = push_bit ?k 1 \<longleftrightarrow> unat x = 2 ^ ?k"
    proof (cases "?k < LENGTH('a)")
      case True
      then show ?thesis by (simp only: word_unat_eq_iff unat_push_one if_True)
    next
      case False
      with k have "?k = LENGTH('a)" by simp
      moreover have "unat x \<noteq> 2 ^ LENGTH('a)" using lt by (rule less_imp_neq)
      ultimately show ?thesis using 3 by (simp only: word_unat_eq_iff unat_push_one) simp
    qed
    have "unat x = 2 ^ ?k \<Longrightarrow> ?k + 1 \<le> LENGTH('a)"
      using lt by (metis Suc_eq_plus1 Suc_leI power_less_imp_less_exp one_less_numeral_iff semiring_norm(76))
    then show ?thesis
      using 3 k eq by (simp add: ceil_to_mask_def unat_round_up_log2 [OF L] bitlen_log2_up unat_gen_bit_mask)
  qed
qed

lemma unat_ceil2:
  fixes x :: "'a::len word"
  assumes "2 \<le> LENGTH('a)" "unat x \<le> 2 ^ (LENGTH('a) - 1)"
  shows "unat (ceil2 x) = 2 ^ log2_up (unat x)"
proof -
  have "log2_up (unat x) \<le> LENGTH('a) - 1" using assms by (intro log2_up_le) simp_all
  then show ?thesis using assms by (simp only: ceil2_def unat_round_up_log2 unat_push_one) simp
qed

lemma unat_neg: "x \<noteq> 0 \<Longrightarrow> unat (- x) = 2 ^ LENGTH('a) - unat (x :: 'a::len word)"
proof -
  assume x: "x \<noteq> 0"
  have "unat x \<noteq> 0" "unat x < 2 ^ LENGTH('a)" using x by (auto simp: unat_eq_0)
  moreover have "x + - x = 0" by simp
  then have "(unat x + unat (- x)) mod 2 ^ LENGTH('a) = 0" by (metis unat_0 unat_word_ariths(1))
  then obtain q where "unat x + unat (- x) = 2 ^ LENGTH('a) * q" by auto
  moreover have "unat (- x) < 2 ^ LENGTH('a)" by simp
  moreover have "q = 1"
  proof -
    have "0 < 2 ^ LENGTH('a) * q" "2 ^ LENGTH('a) * q < 2 ^ LENGTH('a) * 2" using calculation by linarith+
    then show ?thesis by simp
  qed
  ultimately show ?thesis by simp
qed

lemma rotate_r_eq:
  fixes v :: "'a::len word" and b :: "'b::len word"
  assumes L: "LENGTH('a) = 2 ^ i" and small: "i \<le> LENGTH('b)"
  shows "rotate_r v b = word_rotr (unat b) v"
proof -
  let ?L = "LENGTH('a)"
  define m where "m = unat b mod ?L"
  have cm: "of_nat (?L - 1) = (2 ^ i - 1 :: 'b word)" by (simp add: L of_nat_diff)
  have mb: "unat (b AND (2 ^ i - 1)) = m" by (simp add: and_mask_mod m_def L)
  have m: "m < ?L" by (simp add: m_def)
  have neg: "unat (- (b AND (2 ^ i - 1)) AND (2 ^ i - 1)) = (?L - m) mod ?L"
  proof -
    have d: "(2::nat) ^ i dvd 2 ^ LENGTH('b)" using small by (rule le_imp_power_dvd)
    have "m < 2 ^ LENGTH('b)" unfolding mb [symmetric] by simp
    have "unat (- (b AND (2 ^ i - 1))) mod 2 ^ i = (2 ^ LENGTH('b) - m) mod 2 ^ i"
    proof (cases "m = 0")
      case True
      then have "b AND (2 ^ i - 1) = 0" using mb by (simp add: unat_eq_0)
      then show ?thesis using d True by simp
    next
      case False
      then have "unat (- (b AND (2 ^ i - 1))) = 2 ^ LENGTH('b) - m"
        using mb by (subst unat_neg) auto
      then show ?thesis by simp
    qed
    also have "\<dots> = (?L - m) mod ?L"
    proof -
      obtain q where q: "(2::nat) ^ LENGTH('b) = 2 ^ i * q" using d ..
      then have "0 < q" using gr0I by fastforce
      then obtain q' where q': "q = Suc q'" by (metis gr0_implies_Suc)
      have "2 ^ LENGTH('b) - m = (2 ^ i - m) + 2 ^ i * q'" using q q' m L by simp
      then show ?thesis by (simp add: L)
    qed
    finally show ?thesis by (simp only: and_mask_mod)
  qed
  show ?thesis
  proof (rule bit_word_eqI)
    fix n assume n: "n < ?L"
    have e: "(n + unat b) mod ?L = (n + m) mod ?L" by (simp add: m_def mod_add_right_eq)
    have l: "bit (rotate_r v b) n \<longleftrightarrow> bit v (m + n) \<or> ((?L - m) mod ?L \<le> n \<and> bit v (n - (?L - m) mod ?L))"
      using n unfolding rotate_r_def Let_def cm mb neg by (simp add: bit_facts)
    show "bit (rotate_r v b) n = bit (word_rotr (unat b) v) n"
    proof (cases "m = 0")
      case True
      then show ?thesis using n by (simp add: l bit_word_rotr_iff e)
    next
      case False
      show ?thesis
      proof (cases "n + m < ?L")
        case True
        then have "\<not> ?L - m \<le> n" by linarith
        with True show ?thesis using n False m by (simp add: l bit_word_rotr_iff e add.commute)
      next
        case nlt: False
        have "\<not> bit v (m + n)" using nlt by (auto dest: bit_imp_le_length simp: add.commute)
        moreover have "(n + m) mod ?L = n - (?L - m)" using nlt n m by (simp add: mod_if)
        moreover have "?L - m \<le> n" using nlt by linarith
        ultimately show ?thesis using n nlt False m by (simp add: l bit_word_rotr_iff e)
      qed
    qed
  qed
qed

section \<open>Counting sort\<close>

text \<open>
  \<open>CountSortOutIndex\<close> sorts indices: the keys are counted, the counts summed up, and the
  elements placed from the last to the first, each at the place its counter says (from the end of
  the output for a descending order). The vectors are lists; the output array \<open>d_first\<close> is one
  of at least the length of the input. The caller passes the largest key, or lets it be found.
\<close>

fun count_keys :: "nat list \<Rightarrow> nat list \<Rightarrow> nat list" where
  "count_keys [] count_array = count_array"
| "count_keys (temp_key # keys) count_array =
     count_keys keys (count_array[temp_key := count_array ! temp_key + 1])"

fun sum_counts :: "nat list \<Rightarrow> nat list \<Rightarrow> nat list" where
  "sum_counts [] count_array = count_array"
| "sum_counts (i # is) count_array =
     sum_counts is (count_array[i := count_array ! i + count_array ! (i - 1)])"

fun place_indices :: "bool \<Rightarrow> nat list \<Rightarrow> nat \<Rightarrow> nat list \<Rightarrow> nat list \<Rightarrow> nat list" where
  "place_indices is_descend keys 0 count_array d = d"
| "place_indices is_descend keys (Suc i) count_array d =
     (let temp_key = keys ! i;
          count_array = count_array[temp_key := count_array ! temp_key - 1];
          dest_index = (if \<not> is_descend then count_array ! temp_key
                        else length keys - count_array ! temp_key - 1)
      in place_indices is_descend keys i count_array (d[dest_index := i]))"

definition count_sort_out_index :: "bool \<Rightarrow> nat list \<Rightarrow> nat list \<Rightarrow> nat \<Rightarrow> nat list" where
  "count_sort_out_index is_descend keys d max_key =
     (if keys = [] then d
      else let count_array = replicate (max_key + 1) 0;
               count_array = count_keys keys count_array;
               count_array = sum_counts [1..<Suc max_key] count_array
           in place_indices is_descend keys (length keys) count_array d)"

fun find_max_key :: "nat list \<Rightarrow> nat \<Rightarrow> nat" where
  "find_max_key [] max_key = max_key"
| "find_max_key (temp_key # keys) max_key = find_max_key keys (if max_key < temp_key then temp_key else max_key)"

definition count_sort_out_index_max :: "bool \<Rightarrow> nat list \<Rightarrow> nat list \<Rightarrow> nat list" where
  "count_sort_out_index_max is_descend keys d = count_sort_out_index is_descend keys d (find_max_key keys 0)"

fun place_values :: "bool \<Rightarrow> nat list \<Rightarrow> 'a list \<Rightarrow> nat \<Rightarrow> nat list \<Rightarrow> 'a list \<Rightarrow> 'a list" where
  "place_values is_descend keys xs 0 count_array d = d"
| "place_values is_descend keys xs (Suc i) count_array d =
     (let temp_key = keys ! i;
          count_array = count_array[temp_key := count_array ! temp_key - 1];
          dest_index = (if \<not> is_descend then count_array ! temp_key
                        else length keys - count_array ! temp_key - 1)
      in place_values is_descend keys xs i count_array (d[dest_index := xs ! i]))"

definition count_sort :: "('a \<Rightarrow> nat) \<Rightarrow> bool \<Rightarrow> 'a list \<Rightarrow> 'a list \<Rightarrow> nat \<Rightarrow> 'a list" where
  "count_sort get_key is_descend xs d max_key =
     (if xs = [] then d
      else let count_array = replicate (max_key + 1) 0;
               count_array = count_keys (map get_key xs) count_array;
               count_array = sum_counts [1..<Suc max_key] count_array
           in place_values is_descend (map get_key xs) xs (length xs) count_array d)"

subsection \<open>The counters\<close>

lemma count_keys_length [simp]: "length (count_keys keys c) = length c"
  by (induction keys c rule: count_keys.induct) auto

lemma sum_counts_length [simp]: "length (sum_counts is c) = length c"
  by (induction "is" c rule: sum_counts.induct) auto

lemma count_keys_nth:
  assumes "\<forall>k \<in> set keys. k < length c" "j < length c"
  shows "count_keys keys c ! j = c ! j + card {i. i < length keys \<and> keys ! i = j}"
proof -
  have "count_keys keys c ! j = c ! j + length (filter (\<lambda>k. k = j) keys)"
    using assms by (induction keys c rule: count_keys.induct) (auto simp: nth_list_update)
  then show ?thesis by (simp add: length_filter_conv_card)
qed

lemma sum_counts_append: "sum_counts (is @ js) c = sum_counts js (sum_counts is c)"
  by (induction "is" c rule: sum_counts.induct) auto

lemma sum_counts_nth:
  assumes "m < length c"
  shows "sum_counts [1..<Suc m] c ! j = (if j \<le> m then \<Sum>i\<le>j. c ! i else c ! j)"
  using assms
proof (induction m arbitrary: j)
  case (Suc m)
  have "[1..<Suc (Suc m)] = [1..<Suc m] @ [Suc m]" by simp
  then have "sum_counts [1..<Suc (Suc m)] c = sum_counts [Suc m] (sum_counts [1..<Suc m] c)"
    by (simp only: sum_counts_append)
  then show ?case using Suc by (cases "j = Suc m") (auto simp: nth_list_update simp del: upt_Suc)
qed simp

lemma card_at_most:
  fixes f :: "nat \<Rightarrow> nat"
  shows "(\<Sum>j\<le>k. card {i. i < n \<and> f i = j}) = card {i. i < n \<and> f i \<le> k}"
proof (induction k)
  case (Suc k)
  have "{i. i < n \<and> f i \<le> Suc k} = {i. i < n \<and> f i \<le> k} \<union> {i. i < n \<and> f i = Suc k}" by auto
  moreover have "{i. i < n \<and> f i \<le> k} \<inter> {i. i < n \<and> f i = Suc k} = {}" by auto
  ultimately have "card {i. i < n \<and> f i \<le> Suc k} = card {i. i < n \<and> f i \<le> k} + card {i. i < n \<and> f i = Suc k}"
    by (simp only:) (rule card_Un_disjoint, auto)
  then show ?case using Suc by simp
qed simp

subsection \<open>The places\<close>

text \<open>The position of an index in the stable ascending order of the keys.\<close>

definition stable_rank :: "nat list \<Rightarrow> nat \<Rightarrow> nat" where
  "stable_rank keys i =
     card {j. j < length keys \<and> (keys ! j < keys ! i \<or> keys ! j = keys ! i \<and> j < i)}"

lemma stable_rank_less:
  assumes "i < length keys" "keys ! i < keys ! j \<or> keys ! i = keys ! j \<and> i < j"
  shows "stable_rank keys i < stable_rank keys j"
  unfolding stable_rank_def using assms by (intro psubset_card_mono) auto

lemma stable_rank_mono:
  assumes "i < length keys" "j < length keys" "stable_rank keys i < stable_rank keys j"
  shows "keys ! i < keys ! j \<or> keys ! i = keys ! j \<and> i < j"
  using stable_rank_less [of j keys i] assms by (metis linorder_neqE_nat not_less_iff_gr_or_eq)

lemma stable_rank_bound: "i < length keys \<Longrightarrow> stable_rank keys i < length keys"
proof -
  assume "i < length keys"
  then have "stable_rank keys i < card {..<length keys}"
    unfolding stable_rank_def by (intro psubset_card_mono) auto
  then show ?thesis by simp
qed

lemma stable_rank_inj: "inj_on (stable_rank keys) {..<length keys}"
  by (rule inj_onI) (metis lessThan_iff linorder_neqE_nat nat_neq_iff stable_rank_less)

lemma stable_rank_onto: "p < length keys \<Longrightarrow> \<exists>i < length keys. stable_rank keys i = p"
proof -
  have "stable_rank keys ` {..<length keys} = {..<length keys}"
    using stable_rank_bound by (intro endo_inj_surj stable_rank_inj) auto
  then show "p < length keys \<Longrightarrow> ?thesis" by (metis imageE lessThan_iff)
qed

text \<open>The counters when the indices below \<open>i\<close> are still to be placed.\<close>

definition counters_at :: "nat list \<Rightarrow> nat \<Rightarrow> nat list \<Rightarrow> bool" where
  "counters_at keys i c \<longleftrightarrow>
     (\<forall>k < length c. c ! k = card {j. j < length keys \<and> (keys ! j < k \<or> keys ! j = k \<and> j < i)})"

lemma counters_at_step:
  assumes "counters_at keys (Suc i) c" "i < length keys" "keys ! i < length c"
  shows "counters_at keys i (c[keys ! i := c ! (keys ! i) - 1])"
    and "c ! (keys ! i) - 1 = stable_rank keys i"
proof -
  let ?S = "\<lambda>i k. {j. j < length keys \<and> (keys ! j < k \<or> keys ! j = k \<and> j < i)}"
  have same: "?S (Suc i) (keys ! i) = insert i (?S i (keys ! i))" using assms(2) by (auto simp: less_Suc_eq)
  have other: "k \<noteq> keys ! i \<Longrightarrow> ?S (Suc i) k = ?S i k" for k by (auto simp: less_Suc_eq)
  have "card (?S (Suc i) (keys ! i)) = Suc (card (?S i (keys ! i)))" unfolding same by simp
  then have c: "c ! (keys ! i) - 1 = card (?S i (keys ! i))" using assms by (simp add: counters_at_def)
  then show "c ! (keys ! i) - 1 = stable_rank keys i" by (simp add: stable_rank_def)
  show "counters_at keys i (c[keys ! i := c ! (keys ! i) - 1])"
    unfolding counters_at_def
  proof (intro allI impI)
    fix k assume "k < length (c[keys ! i := c ! (keys ! i) - 1])"
    then show "c[keys ! i := c ! (keys ! i) - 1] ! k = card (?S i k)"
      using assms(1,3) c other [of k] by (cases "k = keys ! i") (simp_all add: counters_at_def)
  qed
qed

definition sort_place :: "bool \<Rightarrow> nat list \<Rightarrow> nat \<Rightarrow> nat" where
  "sort_place is_descend keys i =
     (if is_descend then length keys - stable_rank keys i - 1 else stable_rank keys i)"

lemma sort_place_bound: "i < length keys \<Longrightarrow> sort_place desc keys i < length keys"
  using stable_rank_bound [of i keys] by (auto simp: sort_place_def)

lemma sort_place_inj: "i < length keys \<Longrightarrow> j < length keys \<Longrightarrow>
    sort_place desc keys i = sort_place desc keys j \<longleftrightarrow> i = j"
  using stable_rank_bound [of i keys] stable_rank_bound [of j keys] stable_rank_inj [of keys]
  by (fastforce simp: sort_place_def inj_on_def split: if_splits)

lemma sort_place_onto: "p < length keys \<Longrightarrow> \<exists>i < length keys. sort_place desc keys i = p"
proof (cases desc)
  case True
  assume p: "p < length keys"
  then obtain i where "i < length keys" "stable_rank keys i = length keys - p - 1"
    using stable_rank_onto [of "length keys - p - 1" keys] by (metis diff_less diff_diff_left zero_less_Suc Suc_eq_plus1
      bot_nat_0.not_eq_extremum less_nat_zero_code)
  with p True show ?thesis by (intro exI [of _ i]) (simp add: sort_place_def)
next
  case False
  then show "p < length keys \<Longrightarrow> ?thesis" using stable_rank_onto by (simp add: sort_place_def)
qed

lemma place_indices_step:
  assumes "counters_at keys (Suc i) c" "Suc i \<le> length keys" "\<forall>k \<in> set keys. k < length c"
  shows "\<exists>c'. length c' = length c \<and> counters_at keys i c' \<and>
    place_indices desc keys (Suc i) c d = place_indices desc keys i c' (d[sort_place desc keys i := i])"
proof -
  have i: "i < length keys" "keys ! i < length c" using assms by auto
  note st = counters_at_step [OF assms(1) i]
  have "place_indices desc keys (Suc i) c d =
    place_indices desc keys i (c[keys ! i := c ! (keys ! i) - 1]) (d[sort_place desc keys i := i])"
    using i st(2) by (cases desc) (simp_all add: Let_def sort_place_def)
  with st(1) show ?thesis by (intro exI conjI) simp_all
qed

lemma place_indices_nth:
  assumes "counters_at keys i c" "i \<le> length keys" "\<forall>k \<in> set keys. k < length c" "length keys \<le> length d"
  shows "length (place_indices desc keys i c d) = length d \<and>
    (\<forall>p. place_indices desc keys i c d ! p =
       (if \<exists>j<i. p = sort_place desc keys j then THE j. j < i \<and> p = sort_place desc keys j else d ! p))"
  using assms
proof (induction i arbitrary: c d)
  case (Suc i)
  obtain c' where c': "length c' = length c" "counters_at keys i c'"
    "place_indices desc keys (Suc i) c d = place_indices desc keys i c' (d[sort_place desc keys i := i])"
    using place_indices_step [OF Suc.prems(1,2,3)] by blast
  let ?d = "d[sort_place desc keys i := i]"
  have i: "i < length keys" using Suc.prems by simp
  have IH: "length (place_indices desc keys i c' ?d) = length ?d \<and>
    (\<forall>p. place_indices desc keys i c' ?d ! p =
       (if \<exists>j<i. p = sort_place desc keys j then THE j. j < i \<and> p = sort_place desc keys j else ?d ! p))"
    using Suc.prems c' by (intro Suc.IH) auto
  have the: "j < m \<Longrightarrow> m \<le> length keys \<Longrightarrow> (THE j'. j' < m \<and> sort_place desc keys j = sort_place desc keys j') = j" for j m
    by (rule the_equality) (simp, metis sort_place_inj less_le_trans)
  show ?case unfolding c'(3)
  proof (intro conjI allI)
    fix p
    consider j where "j < i" "p = sort_place desc keys j" | "p = sort_place desc keys i" "\<nexists>j. j < i \<and> p = sort_place desc keys j"
      | "\<nexists>j. j < Suc i \<and> p = sort_place desc keys j" using less_Suc_eq by blast
    then show "place_indices desc keys i c' ?d ! p =
      (if \<exists>j<Suc i. p = sort_place desc keys j then THE j. j < Suc i \<and> p = sort_place desc keys j else d ! p)"
    proof cases
      case 1
      then have "\<exists>j'<Suc i. p = sort_place desc keys j'" "\<exists>j'<i. p = sort_place desc keys j'" by (blast intro: less_SucI)+
      then show ?thesis using IH 1 the [of j i] the [of j "Suc i"] i by simp
    next
      case 2
      then have "place_indices desc keys i c' ?d ! p = i"
        using IH sort_place_bound [OF i, of desc] Suc.prems(4) by auto
      then show ?thesis using 2 the [of i "Suc i"] i by auto
    next
      case 3
      then have "\<nexists>j. j < i \<and> p = sort_place desc keys j" "p \<noteq> sort_place desc keys i" by (auto simp: less_Suc_eq)
      moreover from this(2) have "?d ! p = d ! p" by simp
      ultimately show ?thesis using 3 spec [OF conjunct2 [OF IH], of p] by (simp only: if_False)
    qed
  qed (use IH in simp)
qed simp

lemma initial_counters:
  assumes "\<forall>k \<in> set keys. k \<le> max_key"
  shows "counters_at keys (length keys)
    (sum_counts [1..<Suc max_key] (count_keys keys (replicate (max_key + 1) 0)))"
proof -
  let ?c = "count_keys keys (replicate (max_key + 1) 0)"
  have ck: "j \<le> max_key \<Longrightarrow> ?c ! j = card {i. i < length keys \<and> keys ! i = j}" for j
    using count_keys_nth [of keys "replicate (max_key + 1) 0" j] assms
    by (simp add: less_Suc_eq_le del: replicate_Suc)
  have "k \<le> max_key \<Longrightarrow> sum_counts [1..<Suc max_key] ?c ! k =
      card {j. j < length keys \<and> (keys ! j < k \<or> keys ! j = k \<and> j < length keys)}" for k
  proof -
    assume k: "k \<le> max_key"
    have "sum_counts [1..<Suc max_key] ?c ! k = (\<Sum>i\<le>k. ?c ! i)"
      using k sum_counts_nth [of max_key ?c k] by (simp del: upt_Suc replicate_Suc)
    also have "\<dots> = (\<Sum>i\<le>k. card {j. j < length keys \<and> keys ! j = i})"
      using ck k by (intro sum.cong) auto
    also have "\<dots> = card {i. i < length keys \<and> keys ! i \<le> k}" by (rule card_at_most)
    finally show ?thesis by (simp add: le_less Collect_conj_eq cong: conj_cong)
  qed
  then show ?thesis by (simp add: counters_at_def less_Suc_eq_le del: upt_Suc replicate_Suc)
qed

text \<open>The order in which the output lists the indices.\<close>

definition sorts_before :: "bool \<Rightarrow> nat list \<Rightarrow> nat \<Rightarrow> nat \<Rightarrow> bool" where
  "sorts_before is_descend keys i j =
     (if is_descend then keys ! j < keys ! i \<or> keys ! j = keys ! i \<and> j < i
      else keys ! i < keys ! j \<or> keys ! i = keys ! j \<and> i < j)"

lemma sort_place_before:
  assumes "i < length keys" "j < length keys" "sort_place desc keys i < sort_place desc keys j"
  shows "sorts_before desc keys i j"
proof (cases desc)
  case True
  have "stable_rank keys j < stable_rank keys i"
    using assms stable_rank_bound [OF assms(1)] stable_rank_bound [OF assms(2)] True by (simp add: sort_place_def)
  from stable_rank_mono [OF assms(2,1) this] True show ?thesis by (simp add: sorts_before_def)
next
  case False
  with stable_rank_mono [OF assms(1,2)] assms(3) show ?thesis by (simp add: sorts_before_def sort_place_def)
qed

lemma count_sort_places:
  fixes desc :: bool
  assumes "\<forall>k \<in> set keys. k \<le> max_key" "length keys \<le> length d"
  defines "d' \<equiv> count_sort_out_index desc keys d max_key"
  shows "length d' = length d" and "j < length keys \<Longrightarrow> d' ! sort_place desc keys j = j"
    and "length keys \<le> p \<Longrightarrow> d' ! p = d ! p"
proof -
  let ?c = "sum_counts [1..<Suc max_key] (count_keys keys (replicate (max_key + 1) 0))"
  have d': "d' = (if keys = [] then d else place_indices desc keys (length keys) ?c d)"
    by (simp add: d'_def count_sort_out_index_def Let_def del: upt_Suc replicate_Suc)
  have pl: "length (place_indices desc keys (length keys) ?c d) = length d \<and>
    (\<forall>p. place_indices desc keys (length keys) ?c d ! p =
      (if \<exists>j<length keys. p = sort_place desc keys j then THE j. j < length keys \<and> p = sort_place desc keys j else d ! p))"
    using assms(1,2) by (intro place_indices_nth initial_counters) (auto simp: less_Suc_eq_le)
  show "length d' = length d" using pl by (simp add: d')
  show "d' ! sort_place desc keys j = j" if j: "j < length keys"
  proof -
    have "(THE j'. j' < length keys \<and> sort_place desc keys j = sort_place desc keys j') = j"
      by (rule the_equality) (simp add: j, metis j sort_place_inj)
    moreover have "\<exists>j'<length keys. sort_place desc keys j = sort_place desc keys j'" using j by blast
    moreover have "keys \<noteq> []" using j by auto
    ultimately show ?thesis using pl by (simp only: d' if_False if_True)
  qed
  show "d' ! p = d ! p" if "length keys \<le> p"
  proof -
    have "\<not> (\<exists>j<length keys. p = sort_place desc keys j)" using sort_place_bound that by (metis leD)
    with spec [OF conjunct2 [OF pl], of p]
    have "place_indices desc keys (length keys) ?c d ! p = d ! p" by (simp only: if_False)
    then show ?thesis by (simp add: d' del: upt_Suc replicate_Suc)
  qed
qed

lemma count_sort_out_index_correct:
  fixes desc :: bool
  assumes keys: "\<forall>k \<in> set keys. k \<le> max_key" and d: "length keys \<le> length d"
  defines "out \<equiv> take (length keys) (count_sort_out_index desc keys d max_key)"
  shows "length out = length keys" and "distinct out" and "set out = {..<length keys}"
    and "sorted_wrt (sorts_before desc keys) out"
proof -
  note pl = count_sort_places [OF keys d, where desc = desc]
  show len: "length out = length keys" using d pl(1) by (simp add: out_def)
  have out: "j < length keys \<Longrightarrow> out ! sort_place desc keys j = j" for j
    using pl(2) sort_place_bound by (simp add: out_def)
  have ex: "\<exists>i < length keys. p = sort_place desc keys i \<and> out ! p = i" if "p < length keys" for p
    using sort_place_onto [OF that, of desc] out by metis
  show "distinct out" unfolding distinct_conv_nth len using ex by metis
  show "set out = {..<length keys}"
  proof (intro equalityI subsetI)
    fix j assume "j \<in> set out"
    then obtain p where "p < length keys" "j = out ! p" by (auto simp: in_set_conv_nth len)
    with ex show "j \<in> {..<length keys}" by auto
  next
    fix j assume "j \<in> {..<length keys}"
    then show "j \<in> set out" using out [of j] sort_place_bound [of j keys desc] len by (metis lessThan_iff nth_mem)
  qed
  show "sorted_wrt (sorts_before desc keys) out" unfolding sorted_wrt_iff_nth_less len
  proof (intro allI impI)
    fix p q assume pq: "p < q" "q < length keys"
    then obtain i j where "i < length keys" "p = sort_place desc keys i" "out ! p = i"
      "j < length keys" "q = sort_place desc keys j" "out ! q = j" using ex less_trans by metis
    with sort_place_before [of i keys j desc] pq show "sorts_before desc keys (out ! p) (out ! q)" by simp
  qed
qed

text \<open>Equal keys keep the order of the input when sorting upwards, and come out reversed downwards.\<close>

lemma equal_keys_order:
  fixes desc :: bool
  assumes keys: "\<forall>k \<in> set keys. k \<le> max_key" and d: "length keys \<le> length d"
  shows "filter (\<lambda>i. keys ! i = k) (take (length keys) (count_sort_out_index desc keys d max_key)) =
    (if desc then rev else id) (filter (\<lambda>i. keys ! i = k) [0..<length keys])"
    (is "filter ?P ?out = _ (filter ?P ?is)")
proof -
  note C = count_sort_out_index_correct [OF keys d, where desc = desc]
  have s: "set (filter ?P ?out) = set (filter ?P ?is)" using C(3) by auto
  have up: "sorted_wrt (<) (filter ?P ?is)" by (intro sorted_wrt_filter) simp
  have o: "sorted_wrt (sorts_before desc keys) (filter ?P ?out)" by (intro sorted_wrt_filter C(4))
  show ?thesis
  proof (cases desc)
    case True
    have "sorted_wrt (\<lambda>i j. j < i) (filter ?P ?out)"
      by (rule sorted_wrt_mono_rel [OF _ o]) (auto simp: sorts_before_def True)
    then have "sorted_wrt (<) (rev (filter ?P ?out))" by (simp add: sorted_wrt_rev)
    with up s have "rev (filter ?P ?out) = filter ?P ?is" by (intro strict_sorted_equal) simp_all
    then show ?thesis using True by (simp add: rev_swap)
  next
    case False
    have "sorted_wrt (<) (filter ?P ?out)"
      by (rule sorted_wrt_mono_rel [OF _ o]) (auto simp: sorts_before_def False)
    with up s have "filter ?P ?out = filter ?P ?is" by (intro strict_sorted_equal) simp_all
    then show ?thesis using False by simp
  qed
qed

lemma find_max_key_bound: "k \<in> set keys \<or> k = m \<Longrightarrow> k \<le> find_max_key keys m"
proof (induction keys m arbitrary: k rule: find_max_key.induct)
  case (2 a keys m)
  have "(if m < a then a else m) \<le> find_max_key keys (if m < a then a else m)" by (rule 2(1)) simp
  then have "a \<le> find_max_key (a # keys) m \<and> m \<le> find_max_key (a # keys) m" by (auto split: if_splits)
  then show ?case using 2 by auto
qed simp

lemma find_max_key_mem: "find_max_key keys m = m \<or> find_max_key keys m \<in> set keys"
  by (induction keys m rule: find_max_key.induct) (auto split: if_splits)

text \<open>Sorting the elements is sorting their indices and following them.\<close>

definition overlay :: "'a list \<Rightarrow> nat list \<Rightarrow> 'a list \<Rightarrow> 'a list" where
  "overlay xs js d = map2 (\<lambda>j v. if j < length xs then xs ! j else v) js d"

lemma overlay_update: "i < length xs \<Longrightarrow> overlay xs (js[p := i]) d = (overlay xs js d)[p := xs ! i]"
  unfolding overlay_def
proof (rule nth_equalityI)
  fix q assume "i < length xs" "q < length (map2 (\<lambda>j v. if j < length xs then xs ! j else v) (js[p := i]) d)"
  then show "map2 (\<lambda>j v. if j < length xs then xs ! j else v) (js[p := i]) d ! q =
      (map2 (\<lambda>j v. if j < length xs then xs ! j else v) js d)[p := xs ! i] ! q"
    by (cases "q = p") simp_all
qed simp

lemma place_values_overlay:
  "i \<le> length xs \<Longrightarrow> place_values desc keys xs i c (overlay xs js d) = overlay xs (place_indices desc keys i c js) d"
  by (induction i arbitrary: c js) (simp_all add: Let_def overlay_update [symmetric])

lemma overlay_none: "length js = length d \<Longrightarrow> \<forall>j \<in> set js. length xs \<le> j \<Longrightarrow> overlay xs js d = d"
  unfolding overlay_def by (rule nth_equalityI) (auto simp: all_set_conv_all_nth)

lemma count_sort_eq:
  "count_sort get_key desc xs d max_key =
     overlay xs (count_sort_out_index desc (map get_key xs) (replicate (length d) (length xs)) max_key) d"
  using place_values_overlay [of "length xs" xs desc "map get_key xs" _ "replicate (length d) (length xs)" d]
  by (simp add: count_sort_def count_sort_out_index_def Let_def overlay_none del: upt_Suc replicate_Suc)

lemma count_sort_correct:
  fixes desc :: bool
  assumes keys: "\<forall>x \<in> set xs. get_key x \<le> max_key" and d: "length xs \<le> length d"
  defines "out \<equiv> take (length xs) (count_sort get_key desc xs d max_key)"
  shows "mset out = mset xs" and "sorted_wrt (\<lambda>x y. if desc then get_key y \<le> get_key x else get_key x \<le> get_key y) out"
    and "filter (\<lambda>x. get_key x = v) out = (if desc then rev else id) (filter (\<lambda>x. get_key x = v) xs)"
    and "length (count_sort get_key desc xs d max_key) = length d"
    and "drop (length xs) (count_sort get_key desc xs d max_key) = drop (length xs) d"
proof -
  let ?keys = "map get_key xs"
  define js where "js = count_sort_out_index desc ?keys (replicate (length d) (length xs)) max_key"
  define ix where "ix = take (length xs) js"
  have k: "\<forall>k \<in> set ?keys. k \<le> max_key" and l: "length ?keys \<le> length (replicate (length d) (length xs))"
    using keys d by auto
  have ix: "length ix = length xs" "distinct ix" "set ix = {..<length xs}" "sorted_wrt (sorts_before desc ?keys) ix"
    using count_sort_out_index_correct [OF k l, where desc = desc] by (simp_all add: ix_def js_def)
  have lj: "length js = length d" using count_sort_places(1) [OF k l, where desc = desc] by (simp add: js_def)
  have cs: "count_sort get_key desc xs d max_key = overlay xs js d" by (simp add: count_sort_eq js_def)
  have out: "out = map ((!) xs) ix"
  proof (rule nth_equalityI)
    show "length out = length (map ((!) xs) ix)" using ix(1) lj d by (simp add: out_def cs overlay_def)
    fix i assume "i < length out"
    then have i: "i < length xs" by (simp add: out_def)
    then have "ix ! i \<in> {..<length xs}" using ix(1) nth_mem [of i ix] ix(3) by simp
    then show "out ! i = map ((!) xs) ix ! i"
      using i lj d by (simp add: out_def cs overlay_def ix_def)
  qed
  have "set ix = set [0..<length xs]" unfolding ix(3) by auto
  then have "mset ix = mset [0..<length xs]" using ix(2) set_eq_iff_mset_eq_distinct distinct_upt by blast
  then have "mset out = mset (map ((!) xs) [0..<length xs])" by (simp only: out mset_map)
  then show "mset out = mset xs" by (simp only: map_nth)
  have "sorted_wrt (\<lambda>i j. if desc then get_key (xs ! j) \<le> get_key (xs ! i) else get_key (xs ! i) \<le> get_key (xs ! j)) ix"
  proof (rule sorted_wrt_mono_rel [OF _ ix(4)])
    fix i j assume "i \<in> set ix" "j \<in> set ix" and b: "sorts_before desc ?keys i j"
    then have "i < length xs" "j < length xs" unfolding ix(3) by simp_all
    with b show "if desc then get_key (xs ! j) \<le> get_key (xs ! i) else get_key (xs ! i) \<le> get_key (xs ! j)"
      by (cases desc) (auto simp: sorts_before_def)
  qed
  then show "sorted_wrt (\<lambda>x y. if desc then get_key y \<le> get_key x else get_key x \<le> get_key y) out"
    by (simp add: out sorted_wrt_map)
  have at: "filter (\<lambda>x. get_key x = v) (map ((!) xs) is) = map ((!) xs) (filter (\<lambda>i. ?keys ! i = v) is)"
    if "set is \<subseteq> {..<length xs}" for "is"
  proof -
    have "filter (\<lambda>i. get_key (xs ! i) = v) is = filter (\<lambda>i. ?keys ! i = v) is"
      using that by (intro filter_cong) auto
    then show ?thesis by (simp add: filter_map o_def)
  qed
  have "filter (\<lambda>i. ?keys ! i = v) ix = (if desc then rev else id) (filter (\<lambda>i. ?keys ! i = v) [0..<length xs])"
    using equal_keys_order [OF k l, of v desc] by (simp add: ix_def js_def)
  then have "filter (\<lambda>x. get_key x = v) out =
      (if desc then rev else id) (map ((!) xs) (filter (\<lambda>i. ?keys ! i = v) [0..<length xs]))"
    using at [of ix] ix(3) by (simp add: out rev_map)
  also have "map ((!) xs) (filter (\<lambda>i. ?keys ! i = v) [0..<length xs]) = filter (\<lambda>x. get_key x = v) xs"
    using at [of "[0..<length xs]"] by (simp add: map_nth atLeast0LessThan)
  finally show "filter (\<lambda>x. get_key x = v) out = (if desc then rev else id) (filter (\<lambda>x. get_key x = v) xs)" .
  show lc: "length (count_sort get_key desc xs d max_key) = length d" using lj by (simp add: cs overlay_def)
  show "drop (length xs) (count_sort get_key desc xs d max_key) = drop (length xs) d"
  proof (rule nth_equalityI)
    fix i assume "i < length (drop (length xs) (count_sort get_key desc xs d max_key))"
    then have i: "length xs + i < length d" using lc by simp
    have "js ! (length xs + i) = length xs"
      using count_sort_places(3) [OF k l, of "length xs + i" desc] i by (simp add: js_def)
    then show "drop (length xs) (count_sort get_key desc xs d max_key) ! i = drop (length xs) d ! i"
      using i lj d by (simp add: cs overlay_def)
  qed (simp add: lc)
qed

section \<open>Properties\<close>

text \<open>
  C36. The two counting sorts are correct: for keys up to the given maximum, \<open>CountSortOutIndex\<close>
  lists every index exactly once and \<open>CountSort\<close> every element as often as the input has it, ordered
  by descending or ascending keys, and the rest of the output array is not touched. The ascending
  sort is stable; the descending one, which is the one the table sorts its buckets with, is not: it
  lists equal keys in the reverse of their order in the input.
\<close>

theorem count_sort_sorts:
  assumes "\<forall>k \<in> set keys. k \<le> max_key" "length keys \<le> length d" "map get_key xs = keys" "length keys \<le> length e"
  shows "let out = count_sort_out_index desc keys d max_key; s = count_sort get_key desc xs e max_key;
      n = length keys
    in length out = length d \<and> drop n out = drop n d \<and> distinct (take n out) \<and>
       set (take n out) = {..<n} \<and> sorted_wrt (sorts_before desc keys) (take n out) \<and>
       filter (\<lambda>i. keys ! i = k) (take n out) = (if desc then rev else id) (filter (\<lambda>i. keys ! i = k) [0..<n]) \<and>
       length s = length e \<and> drop n s = drop n e \<and> mset (take n s) = mset xs \<and>
       sorted_wrt (\<lambda>x y. if desc then get_key y \<le> get_key x else get_key x \<le> get_key y) (take n s) \<and>
       filter (\<lambda>x. get_key x = k) (take n s) = (if desc then rev else id) (filter (\<lambda>x. get_key x = k) xs)"
proof -
  have xs: "\<forall>x \<in> set xs. get_key x \<le> max_key" "length xs \<le> length e" and n: "length keys = length xs"
    using assms by auto
  note O = count_sort_out_index_correct [OF assms(1,2), where desc = desc]
    equal_keys_order [OF assms(1,2), where desc = desc and k = k]
  note S = count_sort_correct(1,2,4,5) [OF xs, where desc = desc]
    count_sort_correct(3) [OF xs, where desc = desc and v = k]
  note P = count_sort_places(1,3) [OF assms(1,2), where desc = desc]
  have "drop (length keys) (count_sort_out_index desc keys d max_key) = drop (length keys) d"
    by (rule nth_equalityI) (simp_all add: P)
  then show ?thesis unfolding Let_def n using O P(1) S by (simp only: n)
qed

theorem count_sort_sorts_witness:
  "set [1, 0, 2, 1::nat] \<subseteq> {..2} \<and> length [1, 0, 2, 1::nat] \<le> length (replicate 4 (0::nat)) \<and>
   count_sort_out_index True [1, 0, 2, 1] (replicate 4 0) 2 = [2, 3, 0, 1] \<and>
   sorted_wrt (sorts_before True [1, 0, 2, 1]) (take 4 (count_sort_out_index True [1, 0, 2, 1] (replicate 4 0) 2)) \<and>
   filter (\<lambda>x. fst x = 1) (take 4 (count_sort fst True [(1, ''a''), (0, ''b''), (2, ''c''), (1, ''d'')]
     (replicate 4 (0, [])) 2)) = [(1, ''d''), (1, ''a'')]"
proof -
  let ?keys = "[1, 0, 2, 1 :: nat]" and ?d = "replicate 4 (0 :: nat)"
  let ?xs = "[(1, ''a''), (0, ''b''), (2, ''c''), (1, ''d'')] :: (nat \<times> string) list"
  let ?e = "replicate 4 (0, []) :: (nat \<times> string) list"
  have h: "\<forall>k \<in> set ?keys. k \<le> 2" "length ?keys \<le> length ?d" "map fst ?xs = ?keys" "length ?keys \<le> length ?e"
    by simp_all
  have four: "length ?keys = 4" by simp
  note T = count_sort_sorts [OF h, of True 1, unfolded Let_def four]
  then have "sorted_wrt (sorts_before True ?keys) (take 4 (count_sort_out_index True ?keys ?d 2))" by blast
  moreover have "filter (\<lambda>x. fst x = 1) (take 4 (count_sort fst True ?xs ?e 2)) =
      (if True then rev else id) (filter (\<lambda>x. fst x = 1) ?xs)" using T by blast
  moreover have "(if True then rev else id) (filter (\<lambda>x. fst x = 1) ?xs) = [(1, ''d''), (1, ''a'')]" by simp
  moreover have "count_sort_out_index True ?keys ?d 2 = [2, 3, 0, 1]"
    by (simp add: count_sort_out_index_def Let_def eval_nat_numeral)
  moreover have "set ?keys \<subseteq> {..2}" by simp
  ultimately show ?thesis using h(2) by (simp only:)
qed

text \<open>
  The rounding functions: \<open>CeilToMask\<close> gives the mask of the bits up to the highest one
  set; \<open>RotateR\<close> is the rotation, whatever the distance; \<open>Ceil2\<close> gives the least power of
  two not below its argument, except that it gives 2 for 1, although its comment promises the
  smallest such power, and that it shifts everything out above the largest power of two.
\<close>

theorem fph_rounding_correct:
  fixes x v :: u64 and b :: u32
  shows "unat (ceil_to_mask x) = 2 ^ bitlen_nat (unat x) - 1 \<and>
    rotate_r v b = word_rotr (unat b) v \<and>
    ceil2 x = (if unat x \<le> 1 then x + 1 else if unat x \<le> 2 ^ 63 then 2 ^ bitlen_nat (unat x - 1) else 0)"
proof (intro conjI)
  show "unat (ceil_to_mask x) = 2 ^ bitlen_nat (unat x) - 1" by (rule unat_ceil_to_mask) simp
  show "rotate_r v b = word_rotr (unat b) v" by (rule rotate_r_eq [where i = 6]) simp_all
  show "ceil2 x = (if unat x \<le> 1 then x + 1 else if unat x \<le> 2 ^ 63 then 2 ^ bitlen_nat (unat x - 1) else 0)"
  proof -
    consider "unat x = 0" | "unat x = 1" | "2 \<le> unat x" "unat x \<le> 2 ^ 63" | "2 ^ 63 < unat x" by linarith
    then show ?thesis
    proof cases
      case 1
      then have "x = 0" by (simp add: unat_eq_0)
      then show ?thesis by (simp add: ceil2_eq log2_up_def)
    next
      case 2
      then have "x = 1" by (simp add: word_unat_eq_iff)
      then show ?thesis by (simp add: ceil2_eq log2_up_def)
    next
      case 3
      then show ?thesis by (simp add: ceil2_eq log2_up_def)
    next
      case 4
      then have x: "2 \<le> unat x" by simp
      have "(2::nat) ^ 63 < 2 ^ log2_up (unat x)" using 4 log2_up_bounds(1) [OF x] by linarith
      then have "63 < log2_up (unat x)" by (rule power_less_imp_less_exp [rotated]) simp
      then have "64 \<le> log2_up (unat x)" by simp
      then obtain j where "log2_up (unat x) = 64 + j" using le_Suc_ex by blast
      moreover have "ceil2 x = 2 ^ log2_up (unat x)" by (rule ceil2_eq) simp
      ultimately have "ceil2 x = 2 ^ 64 * 2 ^ j" by (simp only: power_add)
      also have "(2 :: u64) ^ 64 = 0" by simp
      finally show ?thesis using 4 by simp
    qed
  qed
qed

end
