(* ===== verification/Fph_Policy.thy ===== *)
theory Fph_Policy
  imports Fph_Util
begin

text \<open>
  How a hash becomes an index of the perfect hash table. The table is a template over the policy;
  both policies of the code keep the contract \<open>index_map\<close>: a shift of the hash by the reverse
  map of an offset rotates the index by that offset.
\<close>

record 'p index_policy =
  map_to_index :: "'p \<Rightarrow> u64 \<Rightarrow> u64"
  reverse_map :: "'p \<Rightarrow> u64 \<Rightarrow> u64"
  slot_num :: "'p \<Rightarrow> u64"
  policy_for :: "u64 \<Rightarrow> 'p"

section \<open>The contract\<close>

lemma rotate_inj: "a < n \<Longrightarrow> b < n \<Longrightarrow> (a + c) mod n = (b + c) mod n \<longleftrightarrow> a = (b :: nat)"
proof -
  have le: "a \<le> b \<Longrightarrow> b < n \<Longrightarrow> (a + c) mod n = (b + c) mod n \<Longrightarrow> a = b" for a b
  proof -
    assume "a \<le> b" "b < n" "(a + c) mod n = (b + c) mod n"
    then have "n dvd b - a" using mod_eq_dvd_iff_nat [of "a + c" "b + c" n] by simp
    with \<open>a \<le> b\<close> \<open>b < n\<close> show ?thesis by (auto dest: dvd_imp_le)
  qed
  assume "a < n" "b < n"
  then show ?thesis using le [of a b] le [of b a] by (metis nat_le_linear)
qed

text \<open>A policy for \<open>2^m\<close> slots.\<close>

definition policy_for_slots :: "('p, 'more) index_policy_scheme \<Rightarrow> 'p \<Rightarrow> nat \<Rightarrow> bool" where
  "policy_for_slots P p m \<longleftrightarrow>
     (\<exists>e. p = policy_for P e \<and> 2 \<le> unat e \<and> unat e \<le> 2 ^ 63 \<and> log2_up (unat e) = m)"

locale index_map =
  fixes P :: "('p, 'more) index_policy_scheme"
  assumes slot_num_pow2: "2 \<le> unat e \<Longrightarrow> unat e \<le> 2 ^ 63 \<Longrightarrow>
      unat (slot_num P (policy_for P e)) = 2 ^ log2_up (unat e)"
    and index_bound: "2 \<le> unat e \<Longrightarrow> unat e \<le> 2 ^ 63 \<Longrightarrow>
      unat (map_to_index P (policy_for P e) h) < 2 ^ log2_up (unat e)"
    and index_shift: "2 \<le> unat e \<Longrightarrow> unat e \<le> 2 ^ 63 \<Longrightarrow>
      unat (map_to_index P (policy_for P e) (h + reverse_map P (policy_for P e) off)) =
      (unat (map_to_index P (policy_for P e) h) + unat off) mod 2 ^ log2_up (unat e)"
    and policy_unique: "2 \<le> unat e \<Longrightarrow> unat e \<le> 2 ^ 63 \<Longrightarrow> 2 \<le> unat e' \<Longrightarrow> unat e' \<le> 2 ^ 63 \<Longrightarrow>
      log2_up (unat e) = log2_up (unat e') \<Longrightarrow> policy_for P e = policy_for P e'"
begin

abbreviation policy_ok :: "'p \<Rightarrow> nat \<Rightarrow> bool" where
  "policy_ok \<equiv> policy_for_slots P"

lemma policy_ok_for: "2 \<le> unat e \<Longrightarrow> unat e \<le> 2 ^ 63 \<Longrightarrow> policy_ok (policy_for P e) (log2_up (unat e))"
  unfolding policy_for_slots_def by blast

lemma policy_ok_unique: "policy_ok p m \<Longrightarrow> policy_ok p' m \<Longrightarrow> p = p'"
proof -
  assume "policy_ok p m" "policy_ok p' m"
  then obtain e e' where e: "p = policy_for P e" "2 \<le> unat e" "unat e \<le> 2 ^ 63" "log2_up (unat e) = m"
    "p' = policy_for P e'" "2 \<le> unat e'" "unat e' \<le> 2 ^ 63" "log2_up (unat e') = m"
    unfolding policy_for_slots_def by blast
  show "p = p'" unfolding e(1,5) by (rule policy_unique) (use e in simp_all)
qed

lemma policy_slot_num: "policy_ok p m \<Longrightarrow> unat (slot_num P p) = 2 ^ m"
  unfolding policy_for_slots_def using slot_num_pow2 by blast

lemma policy_index_bound: "policy_ok p m \<Longrightarrow> unat (map_to_index P p h) < 2 ^ m"
  unfolding policy_for_slots_def using index_bound by blast

lemma policy_index_shift:
  "policy_ok p m \<Longrightarrow>
   unat (map_to_index P p (h + reverse_map P p off)) = (unat (map_to_index P p h) + unat off) mod 2 ^ m"
  unfolding policy_for_slots_def using index_shift by blast

text \<open>For two hashes, equal shifted indices mean equal indices, and the offset that is searched hits its slot.\<close>

lemma shift_inj:
  assumes "policy_ok p m"
  shows "map_to_index P p (h + reverse_map P p off) = map_to_index P p (h' + reverse_map P p off) \<longleftrightarrow>
    map_to_index P p h = map_to_index P p h'"
proof -
  have b: "unat (map_to_index P p h) < 2 ^ m" "unat (map_to_index P p h') < 2 ^ m"
    using policy_index_bound [OF assms] by simp_all
  have "(unat (map_to_index P p h) + unat off) mod 2 ^ m = (unat (map_to_index P p h') + unat off) mod 2 ^ m
    \<longleftrightarrow> unat (map_to_index P p h) = unat (map_to_index P p h')"
    using b by (rule rotate_inj)
  then show ?thesis using policy_index_shift [OF assms] by (simp add: word_unat_eq_iff)
qed

end

section \<open>The high bits of the hash\<close>

record high_bits_policy = shift_bits :: u32

definition high_update :: "u64 \<Rightarrow> high_bits_policy" where
  "high_update element_num =
     (let round_up_log2_slot_num = round_up_log2 element_num
      in \<lparr> shift_bits = 64 - ucast round_up_log2_slot_num \<rparr>)"

definition high_map_to_index :: "high_bits_policy \<Rightarrow> u64 \<Rightarrow> u64" where
  "high_map_to_index p hash = drop_bit (unat (shift_bits p)) hash"

definition high_reverse_map :: "high_bits_policy \<Rightarrow> u64 \<Rightarrow> u64" where
  "high_reverse_map p idx = push_bit (unat (shift_bits p)) idx"

definition high_slot_num :: "high_bits_policy \<Rightarrow> u64" where
  "high_slot_num p = push_bit (unat (64 - shift_bits p)) 1"

definition high_bits :: "high_bits_policy index_policy" where
  "high_bits = \<lparr> map_to_index = high_map_to_index, reverse_map = high_reverse_map,
     slot_num = high_slot_num, policy_for = high_update \<rparr>"

section \<open>The low bits of the hash\<close>

record low_bits_policy = bits_mask :: u64

definition low_update :: "u64 \<Rightarrow> low_bits_policy" where
  "low_update element_num = \<lparr> bits_mask = gen_bit_mask (unat (ucast (round_up_log2 element_num) :: u32)) \<rparr>"

definition low_map_to_index :: "low_bits_policy \<Rightarrow> u64 \<Rightarrow> u64" where
  "low_map_to_index p hash = hash AND bits_mask p"

definition low_reverse_map :: "low_bits_policy \<Rightarrow> u64 \<Rightarrow> u64" where
  "low_reverse_map p idx = idx"

definition low_slot_num :: "low_bits_policy \<Rightarrow> u64" where
  "low_slot_num p = bits_mask p + 1"

definition low_bits :: "low_bits_policy index_policy" where
  "low_bits = \<lparr> map_to_index = low_map_to_index, reverse_map = low_reverse_map,
     slot_num = low_slot_num, policy_for = low_update \<rparr>"

section \<open>Both keep the contract\<close>

lemma log2_up_range:
  assumes "2 \<le> n" "n \<le> 2 ^ 63"
  shows "1 \<le> log2_up n" and "log2_up n \<le> 63"
  using log2_up_bounds(3) [OF assms(1)] log2_up_le [OF assms(2)] by simp_all

lemma unat_ucast_log2:
  fixes e :: u64
  assumes "2 \<le> unat e" "unat e \<le> 2 ^ 63"
  shows "unat (ucast (round_up_log2 e) :: u32) = log2_up (unat e)"
proof -
  have "unat (round_up_log2 e) = log2_up (unat e)" by (rule unat_round_up_log2) simp
  moreover have "log2_up (unat e) \<le> 63" by (rule log2_up_range(2) [OF assms])
  ultimately show ?thesis by (simp add: unsigned_ucast_eq take_bit_nat_eq_self)
qed

lemma shift_bits_eq:
  fixes e :: u64
  assumes "2 \<le> unat e" "unat e \<le> 2 ^ 63"
  shows "unat (shift_bits (high_update e)) = 64 - log2_up (unat e)"
    and "unat (64 - shift_bits (high_update e)) = log2_up (unat e)"
proof -
  note r = log2_up_range [OF assms]
  have "unat (64 - ucast (round_up_log2 e) :: u32) = unat (64 :: u32) - log2_up (unat e)"
    using r unat_ucast_log2 [OF assms] by (subst unat_sub) (simp_all add: word_le_nat_alt)
  then show "unat (shift_bits (high_update e)) = 64 - log2_up (unat e)" by (simp add: high_update_def Let_def)
  show "unat (64 - shift_bits (high_update e)) = log2_up (unat e)"
    using unat_ucast_log2 [OF assms] by (simp add: high_update_def Let_def)
qed

lemma round_up_log2_cong:
  fixes e e' :: u64
  assumes "log2_up (unat e) = log2_up (unat e')"
  shows "round_up_log2 e = round_up_log2 e'"
  using assms unat_round_up_log2 [of e] unat_round_up_log2 [of e'] by (simp add: word_unat_eq_iff)

interpretation high: index_map high_bits
proof
  show "policy_for high_bits e = policy_for high_bits e'" if "log2_up (unat e) = log2_up (unat e')" for e e'
    using round_up_log2_cong [OF that] by (simp add: high_bits_def high_update_def)
next
  fix e h off :: u64
  assume e: "2 \<le> unat e" "unat e \<le> 2 ^ 63"
  let ?m = "log2_up (unat e)"
  note r = log2_up_range [OF e]
  note s = shift_bits_eq [OF e]
  have p: "(2::nat) ^ 64 = 2 ^ (64 - ?m) * 2 ^ ?m" using r by (simp flip: power_add)
  show "unat (slot_num high_bits (policy_for high_bits e)) = 2 ^ ?m"
    using r by (simp add: high_bits_def high_slot_num_def s unat_push_one del: push_bit_of_1)
  have idx: "unat (drop_bit (64 - ?m) x) = unat x div 2 ^ (64 - ?m)" for x :: u64 by (rule unat_drop_bit)
  show "unat (map_to_index high_bits (policy_for high_bits e) h) < 2 ^ ?m"
  proof -
    have "unat h < 2 ^ (64 - ?m) * 2 ^ ?m" using unsigned_less [of h, where ?'a = nat] p by simp
    then show ?thesis by (simp add: high_bits_def high_map_to_index_def s idx less_mult_imp_div_less mult.commute)
  qed
  show "unat (map_to_index high_bits (policy_for high_bits e) (h + reverse_map high_bits (policy_for high_bits e) off)) =
    (unat (map_to_index high_bits (policy_for high_bits e) h) + unat off) mod 2 ^ ?m"
  proof -
    let ?M = "(2::nat) ^ (64 - ?m)"
    have "unat (2 ^ (64 - ?m) :: u64) = ?M" using r by (intro unat_two_power) simp
    then have "unat (push_bit (64 - ?m) off) = (?M * unat off) mod 2 ^ 64"
      by (simp add: push_bit_eq_mult unat_word_ariths mult.commute)
    then have "unat (h + push_bit (64 - ?m) off) = (unat h + ?M * unat off) mod (?M * 2 ^ ?m)"
      by (simp add: unat_word_ariths p [symmetric] mod_add_right_eq)
    then have "unat (h + push_bit (64 - ?m) off) div ?M = ((unat h + ?M * unat off) div ?M) mod 2 ^ ?m"
      by (simp add: mod_mult2_eq)
    also have "(unat h + ?M * unat off) div ?M = unat h div ?M + unat off" by simp
    finally show ?thesis by (simp add: high_bits_def high_map_to_index_def high_reverse_map_def s idx)
  qed
qed

interpretation low: index_map low_bits
proof
  show "policy_for low_bits e = policy_for low_bits e'" if "log2_up (unat e) = log2_up (unat e')" for e e'
    using round_up_log2_cong [OF that] by (simp add: low_bits_def low_update_def)
next
  fix e h off :: u64
  assume e: "2 \<le> unat e" "unat e \<le> 2 ^ 63"
  let ?m = "log2_up (unat e)"
  note r = log2_up_range [OF e]
  have m: "bits_mask (low_update e) = 2 ^ ?m - 1"
    using r by (simp add: low_update_def unat_ucast_log2 [OF e] gen_bit_mask_def push_bit_eq_mult)
  show "unat (slot_num low_bits (policy_for low_bits e)) = 2 ^ ?m"
    using r by (simp add: low_bits_def low_slot_num_def m unat_two_power)
  show "unat (map_to_index low_bits (policy_for low_bits e) h) < 2 ^ ?m"
    by (simp add: low_bits_def low_map_to_index_def m and_mask_mod)
  have d: "(2::nat) ^ ?m dvd 2 ^ 64" using r by (intro le_imp_power_dvd) simp
  have "unat (h + off) mod 2 ^ ?m = (unat h mod 2 ^ ?m + unat off) mod 2 ^ ?m"
    using d by (simp add: unat_word_ariths mod_mod_cancel mod_add_left_eq)
  then show "unat (map_to_index low_bits (policy_for low_bits e) (h + reverse_map low_bits (policy_for low_bits e) off)) =
    (unat (map_to_index low_bits (policy_for low_bits e) h) + unat off) mod 2 ^ ?m"
    by (simp add: low_bits_def low_map_to_index_def low_reverse_map_def m and_mask_mod)
qed

end
