(* ===== verification/Fph_Perm.thy ===== *)
theory Fph_Perm
  imports Prelude "HOL-Library.Multiset"
begin

text \<open>
  The two index arrays of the perfect hash table: \<open>random_table_\<close> lists the slots in random
  order, the filled ones first, \<open>map_table_\<close> is its inverse, and \<open>filled_count_\<close> their
  number. Filling or freeing a slot swaps it to the border. The same swaps are written out at every
  place of the code that fills or frees a slot.
\<close>

record perm_tables =
  random_table :: "nat list"
  map_table :: "nat list"
  filled_count :: nat

definition swap_at :: "nat list \<Rightarrow> nat \<Rightarrow> nat \<Rightarrow> nat list" where
  "swap_at xs i j = xs[i := xs ! j, j := xs ! i]"

definition fill_slot :: "nat \<Rightarrow> 'a perm_tables_scheme \<Rightarrow> 'a perm_tables_scheme" where
  "fill_slot pos t =
     (let y_pos = map_table t ! pos;
          rt = swap_at (random_table t) (filled_count t) y_pos;
          mt = swap_at (map_table t) (rt ! filled_count t) (rt ! y_pos)
      in t\<lparr> random_table := rt, map_table := mt, filled_count := filled_count t + 1 \<rparr>)"

definition free_slot :: "nat \<Rightarrow> 'a perm_tables_scheme \<Rightarrow> 'a perm_tables_scheme" where
  "free_slot pos t =
     (let y_pos = map_table t ! pos;
          rt = swap_at (random_table t) (filled_count t - 1) y_pos;
          mt = swap_at (map_table t) (rt ! (filled_count t - 1)) (rt ! y_pos)
      in t\<lparr> random_table := rt, map_table := mt, filled_count := filled_count t - 1 \<rparr>)"

fun fill_slots :: "nat list \<Rightarrow> 'a perm_tables_scheme \<Rightarrow> 'a perm_tables_scheme" where
  "fill_slots [] t = t"
| "fill_slots (pos # ps) t = fill_slots ps (fill_slot pos t)"

fun free_slots :: "nat list \<Rightarrow> 'a perm_tables_scheme \<Rightarrow> 'a perm_tables_scheme" where
  "free_slots [] t = t"
| "free_slots (pos # ps) t = free_slots ps (free_slot pos t)"

text \<open>The debugging check \<open>IsRandomTableValid\<close>.\<close>

definition is_random_table_valid :: "nat list \<Rightarrow> nat list \<Rightarrow> bool" where
  "is_random_table_valid rt mt = (\<forall>i < length mt. rt ! (mt ! i) = i)"

text \<open>The table starts with a shuffled list of the slots and its inverse.\<close>

fun invert_table :: "nat list \<Rightarrow> nat \<Rightarrow> nat list \<Rightarrow> nat list" where
  "invert_table [] i mt = mt"
| "invert_table (p # ps) i mt = invert_table ps (Suc i) (mt[p := i])"

section \<open>The invariant\<close>

definition perm_ok :: "nat \<Rightarrow> 'a perm_tables_scheme \<Rightarrow> bool" where
  "perm_ok n t \<longleftrightarrow>
     length (random_table t) = n \<and> length (map_table t) = n \<and> filled_count t \<le> n \<and>
     (\<forall>i < n. random_table t ! i < n \<and> map_table t ! (random_table t ! i) = i) \<and>
     (\<forall>p < n. map_table t ! p < n \<and> random_table t ! (map_table t ! p) = p)"

definition is_filled :: "'a perm_tables_scheme \<Rightarrow> nat \<Rightarrow> bool" where
  "is_filled t p \<longleftrightarrow> p < length (map_table t) \<and> map_table t ! p < filled_count t"

definition filled_set :: "'a perm_tables_scheme \<Rightarrow> nat set" where
  "filled_set t = {p. is_filled t p}"

lemma perm_okD:
  assumes "perm_ok n t"
  shows "length (random_table t) = n" and "length (map_table t) = n" and "filled_count t \<le> n"
    and "i < n \<Longrightarrow> random_table t ! i < n" and "i < n \<Longrightarrow> map_table t ! (random_table t ! i) = i"
    and "p < n \<Longrightarrow> map_table t ! p < n" and "p < n \<Longrightarrow> random_table t ! (map_table t ! p) = p"
  using assms by (auto simp: perm_ok_def)

lemma perm_ok_valid: "perm_ok n t \<Longrightarrow> is_random_table_valid (random_table t) (map_table t)"
  by (simp add: perm_ok_def is_random_table_valid_def)

lemma filled_set_random: "perm_ok n t \<Longrightarrow> filled_set t = (!) (random_table t) ` {..<filled_count t}"
proof (intro equalityI subsetI)
  assume t: "perm_ok n t"
  note d = perm_okD [OF t]
  fix p
  show "p \<in> (!) (random_table t) ` {..<filled_count t}" if "p \<in> filled_set t"
  proof (rule image_eqI [of _ _ "map_table t ! p"])
    show "p = random_table t ! (map_table t ! p)" using that d(2,7) by (simp add: filled_set_def is_filled_def)
  qed (use that in \<open>simp add: filled_set_def is_filled_def\<close>)
  show "p \<in> filled_set t" if "p \<in> (!) (random_table t) ` {..<filled_count t}"
    using that d(2,3,4,5) by (auto simp: filled_set_def is_filled_def)
qed

lemma filled_set_card: "perm_ok n t \<Longrightarrow> card (filled_set t) = filled_count t"
proof -
  assume t: "perm_ok n t"
  have "inj_on ((!) (random_table t)) {..<filled_count t}"
    by (rule inj_onI) (metis lessThan_iff less_le_trans perm_okD(3) [OF t] perm_okD(5) [OF t])
  then show ?thesis by (simp add: filled_set_random [OF t] card_image)
qed

lemma filled_set_bound: "perm_ok n t \<Longrightarrow> filled_set t \<subseteq> {..<n}"
  by (auto simp: filled_set_def is_filled_def perm_ok_def)

lemma filled_set_finite [simp]: "finite (filled_set t)"
  by (rule finite_subset [of _ "{..<length (map_table t)}"]) (auto simp: filled_set_def is_filled_def)

section \<open>Filling and freeing\<close>

lemma swap_at_nth: "i < length xs \<Longrightarrow> j < length xs \<Longrightarrow>
    swap_at xs i j ! k = (if k = i then xs ! j else if k = j then xs ! i else xs ! k)"
  by (auto simp: swap_at_def nth_list_update)

lemma swap_at_length [simp]: "length (swap_at xs i j) = length xs"
  by (simp add: swap_at_def)

lemma swap_inverse:
  fixes R M :: "nat \<Rightarrow> nat"
  assumes R: "\<And>i. i < n \<Longrightarrow> R i < n" and MR: "\<And>i. i < n \<Longrightarrow> M (R i) = i"
    and M: "\<And>p. p < n \<Longrightarrow> M p < n" and RM: "\<And>p. p < n \<Longrightarrow> R (M p) = p"
    and pos: "pos < n" and b: "b < n"
  defines "R' \<equiv> \<lambda>i. if i = b then pos else if i = M pos then R b else R i"
    and "M' \<equiv> \<lambda>p. if p = pos then b else if p = R b then M pos else M p"
  shows "i < n \<Longrightarrow> R' i < n" and "i < n \<Longrightarrow> M' (R' i) = i"
    and "p < n \<Longrightarrow> M' p < n" and "p < n \<Longrightarrow> R' (M' p) = p"
proof -
  show "i < n \<Longrightarrow> R' i < n" using pos b R by (simp add: R'_def)
  show "p < n \<Longrightarrow> M' p < n" using pos b M by (simp add: M'_def)
  show "M' (R' i) = i" if "i < n"
  proof (cases "i = b \<or> i = M pos")
    case True
    then show ?thesis using MR [OF b] RM [OF pos] by (auto simp: R'_def M'_def)
  next
    case False
    have "R i \<noteq> pos" "R i \<noteq> R b" using False MR [OF that] MR [OF b] by auto
    then show ?thesis using False MR [OF that] by (simp add: R'_def M'_def)
  qed
  show "R' (M' p) = p" if "p < n"
  proof (cases "p = pos \<or> p = R b")
    case True
    then show ?thesis using MR [OF b] RM [OF pos] by (auto simp: R'_def M'_def)
  next
    case False
    have "M p \<noteq> b" "M p \<noteq> M pos" using False RM [OF that] RM [OF pos] by auto
    then show ?thesis using False RM [OF that] by (simp add: R'_def M'_def)
  qed
qed

text \<open>Swapping the slot \<open>pos\<close> with the one at place \<open>b\<close> of the list.\<close>

lemma swap_tables:
  assumes t: "perm_ok n t" and pos: "pos < n" and b: "b < n" and m: "m \<le> n"
  defines "rt \<equiv> swap_at (random_table t) b (map_table t ! pos)"
  shows "perm_ok n (t\<lparr> random_table := rt,
      map_table := swap_at (map_table t) (rt ! b) (rt ! (map_table t ! pos)), filled_count := m \<rparr>)"
    and "p < n \<Longrightarrow> swap_at (map_table t) (rt ! b) (rt ! (map_table t ! pos)) ! p =
      (if p = pos then b else if p = random_table t ! b then map_table t ! pos else map_table t ! p)"
proof -
  note d = perm_okD [OF t]
  let ?y = "map_table t ! pos"
  have y: "?y < n" "random_table t ! ?y = pos" using d(6,7) pos by auto
  have rt: "rt ! k = (if k = b then pos else if k = ?y then random_table t ! b else random_table t ! k)" for k
    using b y d(1) by (simp add: rt_def swap_at_nth)
  have e: "rt ! b = pos" "rt ! ?y = random_table t ! b" using y(2) by (auto simp: rt)
  have mt: "swap_at (map_table t) (rt ! b) (rt ! ?y) ! p =
      (if p = pos then b else if p = random_table t ! b then ?y else map_table t ! p)" for p
    using d(2,4,5) b pos unfolding e by (subst swap_at_nth) auto
  show "p < n \<Longrightarrow> swap_at (map_table t) (rt ! b) (rt ! ?y) ! p =
      (if p = pos then b else if p = random_table t ! b then ?y else map_table t ! p)" by (rule mt)
  note sf = swap_inverse [of n "(!) (random_table t)" "(!) (map_table t)", OF d(4,5,6,7) pos b]
  have r1: "i < n \<Longrightarrow> rt ! i < n \<and> swap_at (map_table t) (rt ! b) (rt ! ?y) ! (rt ! i) = i" for i
    using sf(1,2) by (simp only: mt) (simp only: rt)
  have r2: "p < n \<Longrightarrow> swap_at (map_table t) (rt ! b) (rt ! ?y) ! p < n \<and>
      rt ! (swap_at (map_table t) (rt ! b) (rt ! ?y) ! p) = p" for p
    using sf(3,4) by (simp only: mt) (simp only: rt)
  show "perm_ok n (t\<lparr> random_table := rt,
      map_table := swap_at (map_table t) (rt ! b) (rt ! ?y), filled_count := m \<rparr>)"
    unfolding perm_ok_def using d(1,2) m r1 r2 by (simp add: rt_def)
qed

lemma fill_slot_ok:
  assumes t: "perm_ok n t" and pos: "pos < n" "pos \<notin> filled_set t"
  shows "perm_ok n (fill_slot pos t)" and "filled_set (fill_slot pos t) = insert pos (filled_set t)"
    and "filled_count (fill_slot pos t) = filled_count t + 1"
proof -
  note d = perm_okD [OF t]
  have y: "filled_count t \<le> map_table t ! pos" "map_table t ! pos < n"
    using pos d(2,6) by (auto simp: filled_set_def is_filled_def)
  then have b: "filled_count t < n" by simp
  note sw = swap_tables [OF t pos(1) b, of "filled_count t + 1"]
  show "perm_ok n (fill_slot pos t)" using sw(1) b by (simp add: fill_slot_def Let_def)
  have "is_filled (fill_slot pos t) p \<longleftrightarrow> p = pos \<or> is_filled t p" for p
  proof (cases "p < n")
    case True
    have "map_table (fill_slot pos t) ! p =
      (if p = pos then filled_count t else if p = random_table t ! filled_count t then map_table t ! pos
       else map_table t ! p)"
      using sw(2) [OF _ True] b by (simp add: fill_slot_def Let_def)
    then show ?thesis using True y d(2) d(5) [OF b] d(7) [OF True] d(7) [OF pos(1)]
      by (auto simp: is_filled_def fill_slot_def Let_def less_Suc_eq)
  next
    case False
    then show ?thesis using pos d(2) by (auto simp: is_filled_def fill_slot_def Let_def)
  qed
  then show "filled_set (fill_slot pos t) = insert pos (filled_set t)" by (auto simp: filled_set_def)
  show "filled_count (fill_slot pos t) = filled_count t + 1" by (simp add: fill_slot_def Let_def)
qed

lemma free_slot_ok:
  assumes t: "perm_ok n t" and pos: "pos \<in> filled_set t"
  shows "perm_ok n (free_slot pos t)" and "filled_set (free_slot pos t) = filled_set t - {pos}"
    and "filled_count (free_slot pos t) = filled_count t - 1"
proof -
  note d = perm_okD [OF t]
  have p: "pos < n" and y: "map_table t ! pos < filled_count t"
    using pos d(2) by (auto simp: filled_set_def is_filled_def)
  then have b: "filled_count t - 1 < n" "filled_count t - 1 \<le> n" using d(3) by simp_all
  note sw = swap_tables [OF t p b]
  show "perm_ok n (free_slot pos t)" using sw(1) by (simp add: free_slot_def Let_def)
  have "is_filled (free_slot pos t) q \<longleftrightarrow> q \<noteq> pos \<and> is_filled t q" for q
  proof (cases "q < n")
    case True
    have m: "map_table (free_slot pos t) ! q =
      (if q = pos then filled_count t - 1 else if q = random_table t ! (filled_count t - 1) then map_table t ! pos
       else map_table t ! q)"
      using sw(2) [OF True] by (simp add: free_slot_def Let_def)
    have e: "is_filled (free_slot pos t) q \<longleftrightarrow> map_table (free_slot pos t) ! q < filled_count t - 1"
      "is_filled t q \<longleftrightarrow> map_table t ! q < filled_count t"
      using True d(2) by (simp_all add: is_filled_def free_slot_def Let_def)
    have r: "map_table t ! q = filled_count t - 1 \<longleftrightarrow> q = random_table t ! (filled_count t - 1)"
      "map_table t ! pos = filled_count t - 1 \<longleftrightarrow> pos = random_table t ! (filled_count t - 1)"
      using d(5) [OF b(1)] d(7) [OF True] d(7) [OF p] by metis+
    consider "q = pos" | "q \<noteq> pos" "q = random_table t ! (filled_count t - 1)"
      | "q \<noteq> pos" "q \<noteq> random_table t ! (filled_count t - 1)" by blast
    then show ?thesis
    proof cases
      case 2
      then have "map_table t ! pos \<noteq> filled_count t - 1" using r(2) by simp
      then show ?thesis using 2 y r(1) unfolding e m by simp
    next
      case 3
      then have "map_table t ! q \<noteq> filled_count t - 1" using r(1) by simp
      then show ?thesis using 3 unfolding e m by auto
    next
      case 1
      then show ?thesis unfolding e m by simp
    qed
  next
    case False
    then show ?thesis using d(2) by (auto simp: is_filled_def free_slot_def Let_def)
  qed
  then show "filled_set (free_slot pos t) = filled_set t - {pos}" by (auto simp: filled_set_def)
  show "filled_count (free_slot pos t) = filled_count t - 1" by (simp add: free_slot_def Let_def)
qed

lemma fill_slots_ok:
  assumes "perm_ok n t" "distinct ps" "set ps \<subseteq> {..<n} - filled_set t"
  shows "perm_ok n (fill_slots ps t) \<and> filled_set (fill_slots ps t) = filled_set t \<union> set ps"
  using assms
proof (induction ps t rule: fill_slots.induct)
  case (2 pos ps t)
  then have p: "pos < n" "pos \<notin> filled_set t" by auto
  note f = fill_slot_ok [OF 2(2) p]
  show ?case using 2 f by auto
qed simp

lemma free_slots_ok:
  assumes "perm_ok n t" "distinct ps" "set ps \<subseteq> filled_set t"
  shows "perm_ok n (free_slots ps t) \<and> filled_set (free_slots ps t) = filled_set t - set ps"
  using assms
proof (induction ps t rule: free_slots.induct)
  case (2 pos ps t)
  note f = free_slot_ok [OF 2(2), of pos]
  show ?case using 2 f by auto
qed simp

text \<open>The frame: only the two tables and the counter change.\<close>

lemma fill_slots_more: "perm_tables.more (fill_slots ps t) = perm_tables.more t"
  by (induction ps t rule: fill_slots.induct) (simp_all add: fill_slot_def Let_def)

lemma free_slots_more: "perm_tables.more (free_slots ps t) = perm_tables.more t"
  by (induction ps t rule: free_slots.induct) (simp_all add: free_slot_def Let_def)

section \<open>A fresh shuffle\<close>

lemma invert_table_length [simp]: "length (invert_table ps i mt) = length mt"
  by (induction ps i mt rule: invert_table.induct) auto

lemma invert_table_other: "p \<notin> set ps \<Longrightarrow> invert_table ps i mt ! p = mt ! p"
  by (induction ps i mt rule: invert_table.induct) auto

lemma invert_table_nth:
  "distinct ps \<Longrightarrow> \<forall>p \<in> set ps. p < length mt \<Longrightarrow> j < length ps \<Longrightarrow> invert_table ps i mt ! (ps ! j) = i + j"
proof (induction ps i mt arbitrary: j rule: invert_table.induct)
  case (2 p ps i mt)
  then show ?case by (cases j) (auto simp: invert_table_other)
qed simp

lemma fresh_tables_ok:
  assumes "mset rt = mset [0..<n]" "length mt = n"
  shows "perm_ok n (t\<lparr> random_table := rt, map_table := invert_table rt 0 mt, filled_count := 0 \<rparr>)"
    and "filled_set (t\<lparr> random_table := rt, map_table := invert_table rt 0 mt, filled_count := 0 \<rparr>) = {}"
proof -
  have len: "length rt = n" using assms(1) by (metis length_upt minus_nat.diff_0 size_mset)
  have dist: "distinct rt" using assms(1) by (metis distinct_upt mset_eq_imp_distinct_iff)
  have st: "set rt = {..<n}" using assms(1) by (metis atLeast_upt set_mset_mset)
  have inv: "j < n \<Longrightarrow> invert_table rt 0 mt ! (rt ! j) = j" for j
    using invert_table_nth [OF dist, of mt j 0] st assms(2) len by auto
  have bound: "j < n \<Longrightarrow> rt ! j < n" for j using st len nth_mem by blast
  have "p < n \<Longrightarrow> \<exists>j < n. rt ! j = p" for p using st len by (metis in_set_conv_nth lessThan_iff)
  then have onto: "p < n \<Longrightarrow> invert_table rt 0 mt ! p < n \<and> rt ! (invert_table rt 0 mt ! p) = p" for p
    using inv by metis
  show "perm_ok n (t\<lparr> random_table := rt, map_table := invert_table rt 0 mt, filled_count := 0 \<rparr>)"
    using assms len inv bound onto by (simp add: perm_ok_def)
  show "filled_set (t\<lparr> random_table := rt, map_table := invert_table rt 0 mt, filled_count := 0 \<rparr>) = {}"
    by (simp add: filled_set_def is_filled_def)
qed

end
