(* ===== verification/Fph_Table.thy ===== *)
theory Fph_Table
  imports Fph_Policy Fph_Perm
begin

text \<open>
  The state of the dynamic perfect hash table (\<open>DynamicRawSet\<close> of dynamic_fph_table.hpp), where
  a key lives, and the operations that look keys up, iterate, erase and clear. A pointer to a slot
  is its index. The object that \<open>param_\<close> points to and the members of the table are one record.

  Parameters: the policy, the seeded hash, the random engines, and the memory a new array of bucket
  parameters is made of, which the code leaves uninitialised.
\<close>

record ('p, 'k, 'r, 'g) fph_types = "'p index_policy" +
  seed_hash :: "'k \<Rightarrow> u64 \<Rightarrow> u64"
  seed_engine :: "u64 \<Rightarrow> 'r"
  next_random :: "'r \<Rightarrow> u64 \<times> 'r"
  next_key :: "'g \<Rightarrow> 'k \<times> 'g"
  raw_param :: "nat \<Rightarrow> u32"

datatype fph_error = InvalidArgument | RuntimeError | OutOfRange

record 'a fph_bucket =
  entry_cnt :: nat
  bucket_idx :: nat
  key_array :: "'a list"

text \<open>
  A slot is the union of a key and a value: an empty slot holds a key only. \<open>key_array\<close> holds
  pointers to the keys in the slots.
\<close>

record ('p, 'k, 'v, 'g) fph = perm_tables +
  slot_policy :: 'p
  bucket_policy :: 'p
  seed0 :: u64
  seed1 :: u64
  seed2 :: u64
  bucket_p :: "u32 list"
  slots :: "('k \<times> 'v option) list"
  item_num :: nat
  item_num_ceil :: nat
  bucket_num :: nat
  slot_capacity :: nat
  bucket_capacity :: nat
  should_expand_item_num :: nat
  default_fill_key :: 'k
  second_default_key :: 'k
  default_fill_key_address :: nat
  default_fill_key_bucket_index :: nat
  key_gen :: 'g
  max_load :: rat
  begin_it :: "nat option"
  seed2_test_table :: "bool list"
  bucket_array :: "nat fph_bucket list"

section \<open>Constants\<close>

definition DEFAULT_MAX_LOAD_FACTOR :: rat where
  "DEFAULT_MAX_LOAD_FACTOR = fl 53 (6 / 10)"

definition DEFAULT_INIT_ITEM_NUM_CEIL :: nat where
  "DEFAULT_INIT_ITEM_NUM_CEIL = 8"

definition bucket_param_type_num_bits :: nat where
  "bucket_param_type_num_bits = 32 - 1"

definition MAX_ITEM_NUM_CEIL_LIMIT :: nat where
  "MAX_ITEM_NUM_CEIL_LIMIT = 2 ^ bucket_param_type_num_bits"

text \<open>Conversions: a count to a double is exact below \<open>2^53\<close>; \<open>CeilToSize\<close> rounds up.\<close>

definition ceil_to_size :: "rat \<Rightarrow> nat" where
  "ceil_to_size value = nat \<lceil>value\<rceil>"

definition ceil2_size :: "nat \<Rightarrow> nat" where
  "ceil2_size n = unat (ceil2 (of_nat n :: u64))"

section \<open>Where a key lives\<close>

definition mix_seed_and_bit :: "u64 \<Rightarrow> u64 \<Rightarrow> u64" where
  "mix_seed_and_bit seed optional_bit = seed + optional_bit"

definition mid_hash :: "u64 \<Rightarrow> u64 \<Rightarrow> u64" where
  "mid_hash hash_k_seed0 seed = hash_k_seed0 * seed"

definition complete_hash where
  "complete_hash T t key seed = mid_hash (seed_hash T key (seed0 t)) seed"

definition get_bucket_index where
  "get_bucket_index T t k_seed0_hash =
     unat (map_to_index T (bucket_policy t) (mid_hash k_seed0_hash (seed1 t)))"

definition complete_get_bucket_index where
  "complete_get_bucket_index T t key = get_bucket_index T t (seed_hash T key (seed0 t))"

definition get_slot_pos_at where
  "get_slot_pos_at T t key offset optional_bit =
     (let temp_hash_value = mid_hash (seed_hash T key (seed0 t)) (mix_seed_and_bit (seed2 t) optional_bit);
          reverse_offset = reverse_map T (slot_policy t) offset
      in unat (map_to_index T (slot_policy t) (temp_hash_value + reverse_offset)))"

definition get_slot_pos_by_seed0_hash where
  "get_slot_pos_by_seed0_hash T t k_seed0_hash =
     (let bucket_index = get_bucket_index T t k_seed0_hash;
          bucket_param = bucket_p t ! bucket_index;
          temp_offset = ucast (drop_bit 1 bucket_param) :: u64;
          optional_bit = ucast (bucket_param AND 1) :: u64;
          temp_hash_value = mid_hash k_seed0_hash (mix_seed_and_bit (seed2 t) optional_bit);
          reverse_offset = reverse_map T (slot_policy t) temp_offset
      in unat (map_to_index T (slot_policy t) (temp_hash_value + reverse_offset)))"

definition get_slot_pos where
  "get_slot_pos T t key = get_slot_pos_by_seed0_hash T t (seed_hash T key (seed0 t))"

definition is_slot_empty where
  "is_slot_empty t pos =
     (if pos \<noteq> default_fill_key_address t then fst (slots t ! pos) = default_fill_key t
      else fst (slots t ! pos) = second_default_key t)"

section \<open>Iteration\<close>

fun next_slot_loop where
  "next_slot_loop t 0 p = None"
| "next_slot_loop t (Suc slot_dis) p =
     (let p = (if item_num_ceil t \<le> p + 1 then 0 else p + 1)
      in if \<not> is_slot_empty t p then Some p else next_slot_loop t slot_dis p)"

definition get_next_slot_address where
  "get_next_slot_address t p = next_slot_loop t (item_num_ceil t - 1) p"

record fph_iterator =
  value_ptr :: "nat option"
  iterate_cnt :: nat

definition fph_begin where
  "fph_begin t = \<lparr> value_ptr = begin_it t, iterate_cnt = 0 \<rparr>"

definition fph_end :: fph_iterator where
  "fph_end = \<lparr> value_ptr = None, iterate_cnt = 0 \<rparr>"

definition iterator_at :: "nat option \<Rightarrow> fph_iterator" where
  "iterator_at p = \<lparr> value_ptr = p, iterate_cnt = 0 \<rparr>"

definition iterator_inc where
  "iterator_inc t it =
     (let cnt = iterate_cnt it + 1
      in if item_num t \<le> cnt then \<lparr> value_ptr = None, iterate_cnt = cnt \<rparr>
         else \<lparr> value_ptr = Option.bind (value_ptr it) (get_next_slot_address t), iterate_cnt = cnt \<rparr>)"

text \<open>The loop \<open>for (auto it = ...; it != end(); ++it)\<close>: the slots it visits.\<close>

function fph_visit where
  "fph_visit t it =
     (case value_ptr it of None \<Rightarrow> [] | Some p \<Rightarrow> p # fph_visit t (iterator_inc t it))"
  by pat_completeness auto
termination
  by (relation "measure (\<lambda>(t, it). case value_ptr it of None \<Rightarrow> 0 | Some p \<Rightarrow> Suc (item_num t - iterate_cnt it))")
    (auto simp: iterator_inc_def Let_def split: option.split)

declare fph_visit.simps [simp del]

section \<open>Lookup\<close>

definition fph_find where
  "fph_find T t key =
     (let slot_pos = get_slot_pos T t key
      in if fst (slots t ! slot_pos) = key then iterator_at (Some slot_pos) else fph_end)"

definition fph_count :: "('p, 'k, 'r, 'g) fph_types \<Rightarrow> ('p, 'k, 'v, 'g) fph \<Rightarrow> 'k \<Rightarrow> nat" where
  "fph_count T t key = (let pos = get_slot_pos T t key in if fst (slots t ! pos) = key then 1 else 0)"

definition fph_contains where
  "fph_contains T t key = (let pos = get_slot_pos T t key in fst (slots t ! pos) = key)"

definition fph_equal_range where
  "fph_equal_range T t key =
     (let it = fph_find T t key
      in if value_ptr it \<noteq> None then (it, iterator_inc t it) else (it, it))"

definition get_pointer_no_check where
  "get_pointer_no_check T t key = get_slot_pos T t key"

definition fph_at where
  "fph_at T t key =
     (let pair_ptr = get_pointer_no_check T t key
      in if fst (slots t ! pair_ptr) \<noteq> key then Inl OutOfRange else Inr (snd (slots t ! pair_ptr)))"

definition fph_size where
  "fph_size t = item_num t"

definition fph_empty where
  "fph_empty t = (item_num t = 0)"

definition fph_bucket_count where
  "fph_bucket_count t = item_num_ceil t"

section \<open>Erasure\<close>

text \<open>The loop over \<open>key_array\<close> removes the first pointer to the slot.\<close>

definition erase_imp where
  "erase_imp T t slot_ptr =
     (let bucket_index = complete_get_bucket_index T t (fst (slots t ! slot_ptr));
          b = bucket_array t ! bucket_index;
          b = b\<lparr> key_array := remove1 slot_ptr (key_array b), entry_cnt := entry_cnt b - 1 \<rparr>;
          t = t\<lparr> bucket_array := (bucket_array t)[bucket_index := b] \<rparr>;
          t = free_slot slot_ptr t;
          key = (if slot_ptr \<noteq> get_slot_pos T t (default_fill_key t) then default_fill_key t
                 else second_default_key t);
          t = t\<lparr> slots := (slots t)[slot_ptr := (key, None)], item_num := item_num t - 1 \<rparr>;
          next_slot_ptr = get_next_slot_address t slot_ptr
      in (t\<lparr> begin_it := next_slot_ptr \<rparr>, iterator_at next_slot_ptr))"

definition erase_key :: "('p, 'k, 'r, 'g) fph_types \<Rightarrow> ('p, 'k, 'v, 'g) fph \<Rightarrow> 'k \<Rightarrow> ('p, 'k, 'v, 'g) fph \<times> nat" where
  "erase_key T t key =
     (let pos = get_slot_pos T t key
      in if fst (slots t ! pos) = key then (fst (erase_imp T t pos), 1) else (t, 0))"

definition fph_clear where
  "fph_clear T t =
     (let t = t\<lparr> item_num := 0,
            slot_policy := policy_for T (if 0 < item_num_ceil t then of_nat (item_num_ceil t) else 0),
            begin_it := None \<rparr>;
          t = t\<lparr> slots := replicate (item_num_ceil t) (default_fill_key t, None) \<rparr>;
          default_key_slot_index = get_slot_pos T t (default_fill_key t);
          t = (if 0 < item_num_ceil t
            then t\<lparr> slots := (slots t)[default_key_slot_index := (second_default_key t, None)],
              default_fill_key_bucket_index := complete_get_bucket_index T t (default_fill_key t),
              default_fill_key_address := default_key_slot_index \<rparr>
            else t)
      in t\<lparr> filled_count := 0,
           bucket_array := map (\<lambda>b. b\<lparr> key_array := [], entry_cnt := 0 \<rparr>) (bucket_array t) \<rparr>)"

definition set_max_load_factor where
  "set_max_load_factor ml t =
     (if 0 < ml \<and> ml < 1
      then t\<lparr> max_load := ml, should_expand_item_num := ceil_to_size (fl 53 (of_nat (item_num_ceil t) * ml)) \<rparr>
      else t)"

definition fph_load_factor :: "('p, 'k, 'v, 'g) fph \<Rightarrow> rat" where
  "fph_load_factor t = fl 53 (of_nat (item_num t) / of_nat (item_num_ceil t))"

end
