(* ===== verification/Fph_Build.thy ===== *)
theory Fph_Build
  imports Fph_Table
begin

text \<open>
  Building the perfect hash (\<open>BuildImp\<close>): the keys are distributed to buckets, and the buckets,
  the largest first, each look for an offset (and, the second time, another seed) that sends their
  keys to free slots. Three nested loops choose new seeds until all buckets have found one.
\<close>

section \<open>Collisions\<close>

fun collision_loop :: "nat list \<Rightarrow> bool list \<Rightarrow> nat list \<Rightarrow> bool \<times> bool list \<times> nat list" where
  "collision_loop [] test_table tested = (True, test_table, tested)"
| "collision_loop (temp_pos # ps) test_table tested =
     (if test_table ! temp_pos then (False, test_table, tested)
      else collision_loop ps (test_table[temp_pos := True]) (tested @ [temp_pos]))"

fun clear_tested :: "nat list \<Rightarrow> bool list \<Rightarrow> bool list" where
  "clear_tested [] test_table = test_table"
| "clear_tested (p # ps) test_table = clear_tested ps (test_table[p := False])"

definition test_hash_vec_self_collision where
  "test_hash_vec_self_collision T t hash_vec test_table =
     (let ps = map (\<lambda>temp_hash. unat (map_to_index T (slot_policy t) temp_hash)) hash_vec;
          (test_pass_flag, test_table, tested_hash_vec) = collision_loop ps test_table []
      in (test_pass_flag, clear_tested tested_hash_vec test_table))"

definition test_bucket_self_collision where
  "test_bucket_self_collision T t keys seed test_table =
     (let ps = map (\<lambda>key. unat (map_to_index T (slot_policy t) (complete_hash T t key seed))) keys;
          (test_pass_flag, test_table, tested_hash_vec) = collision_loop ps test_table []
      in (test_pass_flag, clear_tested (rev tested_hash_vec) test_table))"

fun test_buckets where
  "test_buckets T t seed bs [] test_table = (True, test_table)"
| "test_buckets T t seed bs (i # is) test_table =
     (let (pass_test_flag, test_table) = test_bucket_self_collision T t (key_array (bs ! i)) seed test_table
      in if \<not> pass_test_flag then (False, test_table) else test_buckets T t seed bs is test_table)"

section \<open>The offset of a bucket\<close>

definition pattern_positions where
  "pattern_positions T t bucket_pattern temp_offset =
     map (\<lambda>temp_hash_value. unat (map_to_index T (slot_policy t)
            (temp_hash_value + reverse_map T (slot_policy t) (of_nat temp_offset)))) bucket_pattern"

text \<open>The loop over the free slots, the elements of \<open>random_table_\<close> from \<open>filled_count_\<close> on.\<close>

fun search_offset where
  "search_offset T t item_num_mask bucket_pattern [] = None"
| "search_offset T t item_num_mask bucket_pattern (r # rs) =
     (let temp_offset = (item_num_ceil t + r - unat (map_to_index T (slot_policy t) (bucket_pattern ! 0)))
            AND item_num_mask
      in if \<forall>temp_pos \<in> set (pattern_positions T t bucket_pattern temp_offset).
              \<not> map_table t ! temp_pos < filled_count t
         then Some temp_offset else search_offset T t item_num_mask bucket_pattern rs)"

definition bucket_param_value :: "nat \<Rightarrow> nat \<Rightarrow> u32" where
  "bucket_param_value temp_offset bucket_try_bit = of_nat (push_bit 1 temp_offset OR bucket_try_bit)"

definition try_offset where
  "try_offset T t item_num_mask bucket_pattern bucket_index bucket_try_bit =
     (case search_offset T t item_num_mask bucket_pattern (drop (filled_count t) (random_table t)) of
        None \<Rightarrow> (t, False)
      | Some temp_offset \<Rightarrow>
          (let t = fill_slots (pattern_positions T t bucket_pattern temp_offset) t
           in (t\<lparr> bucket_p := (bucket_p t)[bucket_index := bucket_param_value temp_offset bucket_try_bit] \<rparr>, True)))"

fun place_bucket where
  "place_bucket T b [] t = (t, False)"
| "place_bucket T b (bucket_try_bit # bits) t =
     (let try_seed = mix_seed_and_bit (seed2 t) (of_nat bucket_try_bit);
          bucket_pattern = map (\<lambda>key. complete_hash T t key try_seed) (key_array b);
          (no_collision, test_table) =
            (if 0 < bucket_try_bit then test_hash_vec_self_collision T t bucket_pattern (seed2_test_table t)
             else (True, seed2_test_table t));
          t = t\<lparr> seed2_test_table := test_table \<rparr>
      in if \<not> no_collision then (t, False)
         else let item_num_mask = unat (slot_num T (slot_policy t)) - 1;
                  (t, pattern_matched_flag) = try_offset T t item_num_mask bucket_pattern (bucket_idx b) bucket_try_bit
              in if pattern_matched_flag then (t, True) else place_bucket T b bits t)"

fun place_buckets where
  "place_buckets T bs [] t = (t, True)"
| "place_buckets T bs (i # is) t =
     (let b = bs ! i
      in if entry_cnt b = 0 then place_buckets T bs is t
         else let (t, pattern_matched_flag) = place_bucket T b [0, 1] t
              in if pattern_matched_flag then place_buckets T bs is t else (t, False))"

section \<open>The seeds\<close>

definition random_odd where
  "random_odd T random_engine = (let (x, random_engine) = next_random T random_engine in (x OR 1, random_engine))"

fun find_seed2 where
  "find_seed2 T bs index_order 0 t random_engine = (False, t, random_engine)"
| "find_seed2 T bs index_order (Suc seed_time) t random_engine =
     (let (x, random_engine) = random_odd T random_engine;
          t = t\<lparr> seed2 := x \<rparr>;
          (pass_test_flag, test_table) = test_buckets T t (seed2 t) bs index_order (seed2_test_table t);
          t = t\<lparr> seed2_test_table := test_table \<rparr>
      in if pass_test_flag then (True, t, random_engine)
         else find_seed2 T bs index_order seed_time t random_engine)"

text \<open>
  \<open>std::shuffle\<close>: every place is exchanged with one not above it. How the choices are drawn from
  the engine is left to the library, here a remainder; the engine is a parameter, so that any choices
  are possible.
\<close>

fun shuffle_table where
  "shuffle_table T 0 xs random_engine = (xs, random_engine)"
| "shuffle_table T (Suc i) xs random_engine =
     (let (x, random_engine) = next_random T random_engine
      in shuffle_table T i (swap_at xs (Suc i) (unat x mod (i + 2))) random_engine)"

fun try_seed2 where
  "try_seed2 T bs index_order max_reseed2_time 0 t random_engine = (False, t, random_engine)"
| "try_seed2 T bs index_order max_reseed2_time (Suc try_seed2_time) t random_engine =
     (let (found_useful_seed2, t, random_engine) = find_seed2 T bs index_order max_reseed2_time t random_engine
      in if \<not> found_useful_seed2 then try_seed2 T bs index_order max_reseed2_time try_seed2_time t random_engine
         else let (rt, random_engine) = shuffle_table T (item_num_ceil t - 1) [0..<item_num_ceil t] random_engine;
                  t = t\<lparr> random_table := rt, map_table := invert_table rt 0 (map_table t), filled_count := 0 \<rparr>;
                  (t, this_try_seed2_succeed_flag) = place_buckets T bs index_order t
              in if this_try_seed2_succeed_flag then (True, t, random_engine)
                 else try_seed2 T bs index_order max_reseed2_time try_seed2_time t random_engine)"

section \<open>The buckets\<close>

definition new_buckets :: "nat \<Rightarrow> 'a fph_bucket list" where
  "new_buckets n = map (\<lambda>i. \<lparr> entry_cnt = 0, bucket_idx = i, key_array = [] \<rparr>) [0..<n]"

fun update_buckets where
  "update_buckets T t [] bs max_bucket_size = (bs, max_bucket_size)"
| "update_buckets T t (key # keys) bs max_bucket_size =
     (let hash_value = complete_get_bucket_index T t key;
          b = bs ! hash_value;
          b = b\<lparr> entry_cnt := entry_cnt b + 1, key_array := key_array b @ [key] \<rparr>
      in update_buckets T t keys (bs[hash_value := b])
           (if max_bucket_size < entry_cnt b then entry_cnt b else max_bucket_size))"

definition resize :: "nat \<Rightarrow> 'a \<Rightarrow> 'a list \<Rightarrow> 'a list" where
  "resize n x xs = take n xs @ replicate (n - length xs) x"

fun try_seed1 where
  "try_seed1 T keys try2 reseed2 0 t random_engine = (None, t, random_engine)"
| "try_seed1 T keys try2 reseed2 (Suc try_seed1_time) t random_engine =
     (let (x, random_engine) = random_odd T random_engine;
          t = t\<lparr> seed1 := x \<rparr>;
          (bs, max_bucket_size) = update_buckets T t keys (new_buckets (bucket_num t)) 0;
          sorted_index_array = count_sort_out_index True (map entry_cnt bs) (replicate (bucket_num t) 0) max_bucket_size;
          t = t\<lparr> seed2_test_table := resize (item_num_ceil t) False (seed2_test_table t),
                  random_table := resize (item_num_ceil t) 0 (random_table t),
                  map_table := resize (item_num_ceil t) 0 (map_table t) \<rparr>;
          (ok, t, random_engine) = try_seed2 T bs sorted_index_array reseed2 try2 t random_engine
      in if ok then (Some bs, t, random_engine)
         else try_seed1 T keys try2 reseed2 try_seed1_time t random_engine)"

fun try_seed0 where
  "try_seed0 T keys try1 try2 reseed2 0 t random_engine = (None, t, random_engine)"
| "try_seed0 T keys try1 try2 reseed2 (Suc try_seed0_time) t random_engine =
     (let (x, random_engine) = random_odd T random_engine;
          t = t\<lparr> seed0 := x \<rparr>;
          (bs, t, random_engine) = try_seed1 T keys try2 reseed2 try1 t random_engine
      in if bs \<noteq> None then (bs, t, random_engine)
         else try_seed0 T keys try1 try2 reseed2 try_seed0_time t random_engine)"

section \<open>Sizes\<close>

text \<open>
  The number of buckets wanted for \<open>n\<close> keys or slots, at the default of 2 bits per key:
  \<open>2 n\<close> over \<open>ceil (log2 n + 1)\<close>, rounded up. The logarithm of an integer below \<open>2^53\<close> is an
  integer only when it is exactly one, and the rounding of the quotient never reaches an integer
  it does not equal, so the computation in doubles is the one in integers.
\<close>

definition ceil_log2_plus_1 :: "nat \<Rightarrow> nat" where
  "ceil_log2_plus_1 n = (if n \<le> 1 then 1 else log2_up n + 1)"

definition wanted_buckets :: "nat \<Rightarrow> nat" where
  "wanted_buckets n = (2 * n + ceil_log2_plus_1 n - 1) div ceil_log2_plus_1 n"

definition set_slot_policy where
  "set_slot_policy T is_rehash key_num t =
     (if key_num \<noteq> 0 then
        let t = (if \<not> is_rehash
              then t\<lparr> slot_policy := policy_for T (of_nat (ceil_to_size (fl 53 (of_nat key_num / max_load t)))) \<rparr>
              else t);
            temp_slot_num = unat (slot_num T (slot_policy t));
            temp_slot_num = max temp_slot_num DEFAULT_INIT_ITEM_NUM_CEIL;
            temp_slot_num = min temp_slot_num MAX_ITEM_NUM_CEIL_LIMIT
        in t\<lparr> slot_policy := policy_for T (of_nat temp_slot_num) \<rparr>
      else if \<not> is_rehash then t\<lparr> slot_policy := policy_for T (of_nat DEFAULT_INIT_ITEM_NUM_CEIL) \<rparr>
      else t)"

definition set_slot_count where
  "set_slot_count T called_by_rehash t =
     (let c = unat (slot_num T (slot_policy t))
      in t\<lparr> item_num_ceil := c,
           should_expand_item_num := ceil_to_size (fl 53 (of_nat c * max_load t)),
           slot_capacity := (if called_by_rehash then c else max c (slot_capacity t)) \<rparr>)"

definition set_buckets where
  "set_buckets T is_rehash called_by_rehash key_num t =
     (let temp_bucket_num = wanted_buckets (if 0 < key_num \<and> \<not> is_rehash then key_num else item_num_ceil t);
          old_bucket_capacity = bucket_capacity t;
          n = ceil2_size temp_bucket_num;
          n = (if n \<le> 1 then 2 else n);
          c = (if called_by_rehash then n else max n old_bucket_capacity)
      in t\<lparr> bucket_num := n,
           bucket_policy := policy_for T (of_nat n),
           bucket_capacity := c,
           bucket_p := (if old_bucket_capacity < c \<or> c < old_bucket_capacity \<and> called_by_rehash
             then map (raw_param T) [0..<c] else bucket_p t) \<rparr>)"

section \<open>The default keys\<close>

text \<open>Another key is drawn until it has another slot; the code gives up after 100000 draws.\<close>

fun draw_fill_key where
  "draw_fill_key T t pos 0 fill_key gen = None"
| "draw_fill_key T t pos (Suc tries) fill_key gen =
     (if get_slot_pos T t fill_key = pos
      then if tries = 0 then None
           else let (fill_key, gen) = next_key T gen in draw_fill_key T t pos tries fill_key gen
      else Some (fill_key, gen))"

definition fill_default_keys where
  "fill_default_keys T max_tries t =
     (let (default_key, gen) = next_key T (key_gen t);
          t = t\<lparr> slots := replicate (item_num_ceil t) (default_key, None) \<rparr>;
          default_key_slot_index = get_slot_pos T t default_key;
          (fill_key, gen) = next_key T gen
      in map_option (\<lambda>(fill_key, gen).
           t\<lparr> key_gen := gen, default_fill_key := default_key, second_default_key := fill_key,
              slots := (slots t)[default_key_slot_index := (fill_key, None)],
              default_fill_key_address := default_key_slot_index,
              default_fill_key_bucket_index := complete_get_bucket_index T t default_key \<rparr>)
         (draw_fill_key T t default_key_slot_index (Suc max_tries) fill_key gen))"

section \<open>The elements\<close>

text \<open>An element whose value is not constructed yet is a key alone.\<close>

fun construct_pairs where
  "construct_pairs T t [] = t"
| "construct_pairs T t ((key, value) # es) =
     construct_pairs T (t\<lparr> slots := (slots t)[get_slot_pos T t key := (key, value)] \<rparr>) es"

fun register_keys where
  "register_keys T t [] bs = bs"
| "register_keys T t (p # ps) bs =
     (let i = complete_get_bucket_index T t (fst (slots t ! p));
          b = bs ! i
      in register_keys T t ps (bs[i := b\<lparr> key_array := key_array b @ [p] \<rparr>]))"

text \<open>The numbers of attempts that \<open>Build\<close> passes on, and the bound for the second default key.\<close>

record fph_limits =
  max_try_seed0_time :: nat
  max_try_seed1_time :: nat
  max_try_seed2_time :: nat
  max_reseed2_time :: nat
  max_fill_key_time :: nat
  max_second_key_time :: nat

definition build_limits :: fph_limits where
  "build_limits = \<lparr> max_try_seed0_time = 10, max_try_seed1_time = 100, max_try_seed2_time = 1000,
     max_reseed2_time = 1000, max_fill_key_time = 100000, max_second_key_time = 10000 \<rparr>"

definition build_imp where
  "build_imp T L is_rehash called_by_rehash es seed t =
     (let key_num = length es;
          t = t\<lparr> item_num := key_num \<rparr>;
          t = set_slot_policy T is_rehash key_num t;
          t = set_slot_count T called_by_rehash t
      in if item_num_ceil t < key_num then Inl InvalidArgument
         else let t = set_buckets T is_rehash called_by_rehash key_num t;
                  (found, t, random_engine) =
                    try_seed0 T (map fst es) (max_try_seed1_time L) (max_try_seed2_time L) (max_reseed2_time L)
                      (max_try_seed0_time L) t (seed_engine T seed)
              in case found of
                   None \<Rightarrow> Inl InvalidArgument
                 | Some bs \<Rightarrow>
                     (case fill_default_keys T (max_fill_key_time L) t of
                        None \<Rightarrow> Inl InvalidArgument
                      | Some t \<Rightarrow>
                          let t = construct_pairs T t es;
                              t = t\<lparr> begin_it := (if 0 < item_num t then Some (random_table t ! 0) else None) \<rparr>;
                              bs = map (\<lambda>b. \<lparr> entry_cnt = entry_cnt b, bucket_idx = bucket_idx b, key_array = [] \<rparr>) bs
                          in Inr (t\<lparr> bucket_array := register_keys T t (fph_visit t (fph_begin t)) bs \<rparr>)))"

end
