(* ===== verification/Fph_Build_Correct.thy ===== *)
theory Fph_Build_Correct
  imports Fph_Build
begin

text \<open>
  What building the perfect hash achieves: when it succeeds, every key has a slot of its own, the
  filled slots are those of the keys, and the arrays agree with each other.
\<close>

locale fph_table = index_map T for T :: "('p, 'k, 'r, 'g) fph_types"

section \<open>The collision test\<close>

lemma clear_tested_nth: "p < length tbl \<Longrightarrow> clear_tested ps tbl ! p = (tbl ! p \<and> p \<notin> set ps)"
proof (induction ps tbl rule: clear_tested.induct)
  case (2 q ps tbl)
  then show ?case by (cases "p = q") auto
qed simp

lemma clear_tested_length [simp]: "length (clear_tested ps tbl) = length tbl"
  by (induction ps tbl rule: clear_tested.induct) auto

lemma collision_loop_marks:
  assumes "collision_loop ps tbl tested = (ok, tbl', tested')" "length tbl = n" "\<forall>p \<in> set ps. p < n"
    "\<forall>p < n. tbl ! p \<longleftrightarrow> p \<in> set tested"
  shows "ok \<longleftrightarrow> distinct ps \<and> set ps \<inter> set tested = {}"
    and "length tbl' = n" and "\<forall>p < n. tbl' ! p \<longleftrightarrow> p \<in> set tested'"
  using assms by (induction ps tbl tested rule: collision_loop.induct)
    (auto simp: nth_list_update split: if_splits)

lemma collision_test:
  assumes "collision_loop ps (replicate n False) [] = (ok, tbl, tested)" "\<forall>p \<in> set ps. p < n"
  shows "ok = distinct ps" and "clear_tested tested tbl = replicate n False"
    and "clear_tested (rev tested) tbl = replicate n False"
proof -
  note c = collision_loop_marks [OF assms(1) length_replicate assms(2)]
  show "ok = distinct ps" using c(1) by simp
  show "clear_tested tested tbl = replicate n False" "clear_tested (rev tested) tbl = replicate n False"
    using c(2,3) by (auto intro!: nth_equalityI simp: clear_tested_nth)
qed

section \<open>What the search leaves alone\<close>

text \<open>The fields the search for seeds and offsets writes; the others make up the frame.\<close>

definition frame :: "('p, 'k, 'v, 'g) fph \<Rightarrow> ('p, 'k, 'v, 'g) fph" where
  "frame t = t\<lparr> random_table := [], map_table := [], filled_count := 0, bucket_p := [],
     seed2_test_table := [], seed0 := 0, seed1 := 0, seed2 := 0 \<rparr>"

lemma frame_update [simp]:
  "frame (t\<lparr> random_table := a \<rparr>) = frame t" "frame (t\<lparr> map_table := a \<rparr>) = frame t"
  "frame (t\<lparr> filled_count := n \<rparr>) = frame t" "frame (t\<lparr> bucket_p := b \<rparr>) = frame t"
  "frame (t\<lparr> seed2_test_table := c \<rparr>) = frame t" "frame (t\<lparr> seed0 := s \<rparr>) = frame t"
  "frame (t\<lparr> seed1 := s \<rparr>) = frame t" "frame (t\<lparr> seed2 := s \<rparr>) = frame t"
  by (simp_all add: frame_def)

lemma frame_fill_slot [simp]: "frame (fill_slot p t) = frame t"
  by (simp add: fill_slot_def Let_def)

lemma frame_fill_slots [simp]: "frame (fill_slots ps t) = frame t"
  by (induction ps t rule: fill_slots.induct) auto

lemma frame_eqD:
  assumes "frame t = frame t'"
  shows "slot_policy t = slot_policy t'" "bucket_policy t = bucket_policy t'" "slots t = slots t'"
    "item_num t = item_num t'" "item_num_ceil t = item_num_ceil t'" "bucket_num t = bucket_num t'"
    "slot_capacity t = slot_capacity t'" "bucket_capacity t = bucket_capacity t'"
    "should_expand_item_num t = should_expand_item_num t'" "default_fill_key t = default_fill_key t'"
    "second_default_key t = second_default_key t'" "default_fill_key_address t = default_fill_key_address t'"
    "default_fill_key_bucket_index t = default_fill_key_bucket_index t'" "key_gen t = key_gen t'"
    "max_load t = max_load t'" "begin_it t = begin_it t'" "bucket_array t = bucket_array t'"
  using arg_cong [OF assms, of slot_policy] arg_cong [OF assms, of bucket_policy] arg_cong [OF assms, of slots]
    arg_cong [OF assms, of item_num] arg_cong [OF assms, of item_num_ceil] arg_cong [OF assms, of bucket_num]
    arg_cong [OF assms, of slot_capacity] arg_cong [OF assms, of bucket_capacity]
    arg_cong [OF assms, of should_expand_item_num] arg_cong [OF assms, of default_fill_key]
    arg_cong [OF assms, of second_default_key] arg_cong [OF assms, of default_fill_key_address]
    arg_cong [OF assms, of default_fill_key_bucket_index] arg_cong [OF assms, of key_gen]
    arg_cong [OF assms, of max_load] arg_cong [OF assms, of begin_it] arg_cong [OF assms, of bucket_array]
  by (simp_all add: frame_def)

lemma fill_slot_fields [simp]:
  "bucket_p (fill_slot p t) = bucket_p t" "seed0 (fill_slot p t) = seed0 t" "seed1 (fill_slot p t) = seed1 t"
  "seed2 (fill_slot p t) = seed2 t" "seed2_test_table (fill_slot p t) = seed2_test_table t"
  by (simp_all add: fill_slot_def Let_def)

lemma fill_slots_fields [simp]:
  "bucket_p (fill_slots ps t) = bucket_p t" "seed0 (fill_slots ps t) = seed0 t" "seed1 (fill_slots ps t) = seed1 t"
  "seed2 (fill_slots ps t) = seed2 t" "seed2_test_table (fill_slots ps t) = seed2_test_table t"
  by (induction ps t rule: fill_slots.induct) auto

lemma fill_slots_map_length [simp]: "length (map_table (fill_slots ps t)) = length (map_table t)"
  by (induction ps t rule: fill_slots.induct) (auto simp: fill_slot_def Let_def)

text \<open>Where a key lives depends on the policies, the seeds and the parameter of its bucket.\<close>

lemma bucket_index_cong:
  "bucket_policy t = bucket_policy t' \<Longrightarrow> seed0 t = seed0 t' \<Longrightarrow> seed1 t = seed1 t' \<Longrightarrow>
   complete_get_bucket_index T t key = complete_get_bucket_index T t' key"
  by (simp add: complete_get_bucket_index_def get_bucket_index_def)

lemma slot_pos_at_cong:
  "slot_policy t = slot_policy t' \<Longrightarrow> seed0 t = seed0 t' \<Longrightarrow> seed2 t = seed2 t' \<Longrightarrow>
   get_slot_pos_at T t key off ob = get_slot_pos_at T t' key off ob"
  by (simp add: get_slot_pos_at_def)

lemma get_slot_pos_eq:
  "get_slot_pos T t key =
     get_slot_pos_at T t key (ucast (drop_bit 1 (bucket_p t ! complete_get_bucket_index T t key)))
       (ucast (bucket_p t ! complete_get_bucket_index T t key AND 1))"
  by (simp add: get_slot_pos_def get_slot_pos_by_seed0_hash_def get_slot_pos_at_def
      complete_get_bucket_index_def Let_def)

lemma slot_pos_cong:
  assumes "slot_policy t = slot_policy t'" "bucket_policy t = bucket_policy t'"
    "seed0 t = seed0 t'" "seed1 t = seed1 t'" "seed2 t = seed2 t'"
    "bucket_p t ! complete_get_bucket_index T t' key = bucket_p t' ! complete_get_bucket_index T t' key"
  shows "get_slot_pos T t key = get_slot_pos T t' key"
  unfolding get_slot_pos_eq bucket_index_cong [OF assms(2,3,4), of T key] assms(6)
  by (rule slot_pos_at_cong [OF assms(1,3,5)])

section \<open>Bucket parameters\<close>

text \<open>A parameter holds the offset and the bit.\<close>

lemma bucket_param_value_eq:
  assumes "off < 2 ^ 31" "ob \<le> 1"
  shows "unat (bucket_param_value off ob) = 2 * off + ob"
proof -
  have "push_bit 1 off OR ob = 2 * off + ob"
  proof (cases "ob = 0")
    case False
    then have "ob = 1" using assms(2) by simp
    then have "push_bit 1 off OR ob = 2 * off OR 1" by (simp add: push_bit_eq_mult mult.commute)
    also have "\<dots> = 2 * off + 1" by (simp add: or_one_eq del: One_nat_def)
    finally show ?thesis using \<open>ob = 1\<close> by simp
  qed (simp add: push_bit_eq_mult)
  then have "bucket_param_value off ob = of_nat (2 * off + ob)" by (simp only: bucket_param_value_def)
  moreover have "unat (of_nat (2 * off + ob) :: u32) = 2 * off + ob"
    using assms by (intro unat_of_nat_small) simp
  ultimately show ?thesis by simp
qed

lemma bucket_param_decode:
  assumes "off < 2 ^ 31" "ob \<le> 1"
  shows "(ucast (drop_bit 1 (bucket_param_value off ob)) :: u64) = of_nat off"
    and "(ucast (bucket_param_value off ob AND 1) :: u64) = of_nat ob"
proof -
  note v = bucket_param_value_eq [OF assms]
  have "unat (drop_bit 1 (bucket_param_value off ob)) = off"
    using assms(2) by (simp add: unat_drop_bit v)
  then have "of_nat (unat (drop_bit 1 (bucket_param_value off ob))) = (of_nat off :: u64)" by simp
  then show "(ucast (drop_bit 1 (bucket_param_value off ob)) :: u64) = of_nat off" by simp
  have "unat (bucket_param_value off ob AND 1) = ob"
    using assms(2) and_mask_mod [of "bucket_param_value off ob" 1] by (simp add: v)
  then have "of_nat (unat (bucket_param_value off ob AND 1)) = (of_nat ob :: u64)" by simp
  then show "(ucast (bucket_param_value off ob AND 1) :: u64) = of_nat ob" by simp
qed

section \<open>Placing a bucket\<close>

lemma perm_tables_cong:
  "random_table t = random_table t' \<Longrightarrow> map_table t = map_table t' \<Longrightarrow> filled_count t = filled_count t' \<Longrightarrow>
   perm_ok n t = perm_ok n t' \<and> filled_set t = filled_set t'"
  by (simp add: perm_ok_def filled_set_def is_filled_def)

lemma perm_update [simp]:
  "perm_ok n (t\<lparr> bucket_p := a \<rparr>) = perm_ok n t" "filled_set (t\<lparr> bucket_p := a \<rparr>) = filled_set t"
  "perm_ok n (t\<lparr> seed2_test_table := b \<rparr>) = perm_ok n t" "filled_set (t\<lparr> seed2_test_table := b \<rparr>) = filled_set t"
  by (simp_all add: perm_ok_def filled_set_def is_filled_def)

lemma distinct_map_cong:
  "(\<And>x y. x \<in> set xs \<Longrightarrow> y \<in> set xs \<Longrightarrow> f x = f y \<longleftrightarrow> g x = g y) \<Longrightarrow> distinct (map f xs) = distinct (map g xs)"
proof (induction xs)
  case (Cons a xs)
  then have "f a \<in> f ` set xs \<longleftrightarrow> g a \<in> g ` set xs" by (auto simp: image_iff)
  with Cons show ?case by simp
qed simp

context fph_table
begin

abbreviation slot_idx :: "('p, 'k, 'v, 'g) fph \<Rightarrow> u64 \<Rightarrow> nat" where
  "slot_idx t h \<equiv> unat (map_to_index T (slot_policy t) h)"

lemma hash_vec_test:
  assumes "policy_ok (slot_policy t) m"
  shows "test_hash_vec_self_collision T t hs (replicate (2 ^ m) False) =
    (distinct (map (slot_idx t) hs), replicate (2 ^ m) False)"
proof -
  obtain ok tbl tested where c: "collision_loop (map (slot_idx t) hs) (replicate (2 ^ m) False) [] = (ok, tbl, tested)"
    by (metis surj_pair)
  have "\<forall>p \<in> set (map (slot_idx t) hs). p < 2 ^ m" using policy_index_bound [OF assms] by auto
  from collision_test [OF c this] c show ?thesis by (simp add: test_hash_vec_self_collision_def)
qed

lemma bucket_test:
  assumes "policy_ok (slot_policy t) m"
  shows "test_bucket_self_collision T t keys seed (replicate (2 ^ m) False) =
    (distinct (map (\<lambda>key. slot_idx t (complete_hash T t key seed)) keys), replicate (2 ^ m) False)"
proof -
  let ?ps = "map (\<lambda>key. slot_idx t (complete_hash T t key seed)) keys"
  obtain ok tbl tested where c: "collision_loop ?ps (replicate (2 ^ m) False) [] = (ok, tbl, tested)"
    by (metis surj_pair)
  have "\<forall>p \<in> set ?ps. p < 2 ^ m" using policy_index_bound [OF assms] by auto
  from collision_test [OF c this] c show ?thesis by (simp add: test_bucket_self_collision_def)
qed

lemma buckets_test:
  assumes "policy_ok (slot_policy t) m"
  shows "test_buckets T t seed bs is (replicate (2 ^ m) False) =
    ((\<forall>i \<in> set is. distinct (map (\<lambda>key. slot_idx t (complete_hash T t key seed)) (key_array (bs ! i)))),
     replicate (2 ^ m) False)"
  by (induction "is") (auto simp: bucket_test [OF assms])

lemma pattern_positions_at:
  "pattern_positions T t (map (\<lambda>k. complete_hash T t k (mix_seed_and_bit (seed2 t) ob)) ks) off =
   map (\<lambda>k. get_slot_pos_at T t k (of_nat off) ob) ks"
  by (simp add: pattern_positions_def get_slot_pos_at_def complete_hash_def Let_def)

lemma pattern_positions_distinct:
  assumes "policy_ok (slot_policy t) m"
  shows "distinct (pattern_positions T t hs off) = distinct (map (slot_idx t) hs)"
  unfolding pattern_positions_def
  by (rule distinct_map_cong) (simp add: shift_inj [OF assms] flip: word_unat_eq_iff)

lemma pattern_positions_bound:
  "policy_ok (slot_policy t) m \<Longrightarrow> set (pattern_positions T t hs off) \<subseteq> {..<2 ^ m}"
  using policy_index_bound by (auto simp: pattern_positions_def)

lemma slot_pos_at_bound: "policy_ok (slot_policy t) m \<Longrightarrow> get_slot_pos_at T t k off ob < 2 ^ m"
  using policy_index_bound by (simp add: get_slot_pos_at_def Let_def)

lemma slot_pos_bound: "policy_ok (slot_policy t) m \<Longrightarrow> get_slot_pos T t k < 2 ^ m"
  by (simp add: get_slot_pos_eq slot_pos_at_bound)

lemma bucket_index_bound: "policy_ok (bucket_policy t) b \<Longrightarrow> complete_get_bucket_index T t k < 2 ^ b"
  using policy_index_bound by (simp add: complete_get_bucket_index_def get_bucket_index_def)

lemma nat_and_low: "(n :: nat) AND (2 ^ m - 1) < 2 ^ m"
  by (metis mask_eq_exp_minus_1 mod_less_divisor take_bit_eq_mask take_bit_eq_mod zero_less_numeral zero_less_power)

lemma search_offset_Some:
  assumes "search_offset T t (2 ^ m - 1) pat rs = Some off"
  shows "off < 2 ^ m" and "\<forall>p \<in> set (pattern_positions T t pat off). \<not> map_table t ! p < filled_count t"
  using assms
  by (induction rs) (auto simp: Let_def nat_and_low simp del: One_nat_def split: if_splits)

lemma try_offset_ok:
  assumes r: "try_offset T t (2 ^ m - 1) pat b ob = (t', ok)"
    and t: "perm_ok (2 ^ m) t" "policy_ok (slot_policy t) m" and d: "distinct (map (slot_idx t) pat)"
  shows "if ok then \<exists>off < 2 ^ m. let ps = pattern_positions T t pat off in
      t' = (fill_slots ps t)\<lparr> bucket_p := (bucket_p t)[b := bucket_param_value off ob] \<rparr> \<and>
      perm_ok (2 ^ m) t' \<and> filled_set t' = filled_set t \<union> set ps \<and> distinct ps \<and> set ps \<inter> filled_set t = {}
    else t' = t"
proof (cases "search_offset T t (2 ^ m - 1) pat (drop (filled_count t) (random_table t))")
  case None
  with r show ?thesis by (simp add: try_offset_def)
next
  case (Some off)
  let ?ps = "pattern_positions T t pat off"
  note so = search_offset_Some [OF Some]
  have dist: "distinct ?ps" using d by (simp add: pattern_positions_distinct [OF t(2)])
  have free: "set ?ps \<inter> filled_set t = {}"
    using so(2) by (auto simp: filled_set_def is_filled_def)
  have sub: "set ?ps \<subseteq> {..<2 ^ m} - filled_set t" using pattern_positions_bound [OF t(2)] free by blast
  note fs = fill_slots_ok [OF t(1) dist sub]
  from r Some have "ok" "t' = (fill_slots ?ps t)\<lparr> bucket_p := (bucket_p t)[b := bucket_param_value off ob] \<rparr>"
    by (simp_all add: try_offset_def Let_def)
  then show ?thesis using so(1) fs dist free by (auto simp: Let_def)
qed

text \<open>What the placement of one bucket keeps, whether it succeeds or not.\<close>

definition same_hash :: "('p, 'k, 'v, 'g) fph \<Rightarrow> ('p, 'k, 'v, 'g) fph \<Rightarrow> bool" where
  "same_hash t' t \<longleftrightarrow> frame t' = frame t \<and> seed0 t' = seed0 t \<and> seed1 t' = seed1 t \<and> seed2 t' = seed2 t \<and>
     length (bucket_p t') = length (bucket_p t) \<and> length (map_table t') = length (map_table t) \<and>
     seed2_test_table t' = seed2_test_table t"

lemma same_hash_refl [simp]: "same_hash t t"
  by (simp add: same_hash_def)

lemma same_hash_trans: "same_hash t'' t' \<Longrightarrow> same_hash t' t \<Longrightarrow> same_hash t'' t"
  by (simp add: same_hash_def)

lemma same_hash_bucket: "same_hash t' t \<Longrightarrow> complete_get_bucket_index T t' k = complete_get_bucket_index T t k"
  by (rule bucket_index_cong) (auto simp: same_hash_def intro: frame_eqD(2))

lemma same_hash_policy: "same_hash t' t \<Longrightarrow> slot_policy t' = slot_policy t"
  by (rule frame_eqD(1)) (simp add: same_hash_def)

lemma place_bucket_ok:
  assumes r: "place_bucket T b bits t = (t', ok)" and bits: "set bits \<subseteq> {0, 1}"
    and t: "perm_ok (2 ^ m) t" "policy_ok (slot_policy t) m" "m \<le> 31" "seed2_test_table t = replicate (2 ^ m) False"
    and d: "distinct (map (\<lambda>k. slot_idx t (complete_hash T t k (seed2 t))) (key_array b))"
  shows "same_hash t' t \<and> (if ok then perm_ok (2 ^ m) t' \<and> (\<exists>off < 2 ^ m. \<exists>ob \<le> 1.
      let ps = map (\<lambda>k. get_slot_pos_at T t k (of_nat off) (of_nat ob)) (key_array b) in
      bucket_p t' = (bucket_p t)[bucket_idx b := bucket_param_value off ob] \<and>
      filled_set t' = filled_set t \<union> set ps \<and> distinct ps \<and> set ps \<inter> filled_set t = {})
    else t' = t)"
  using r bits
proof (induction bits)
  case (Cons ob bits)
  have ob: "ob \<le> 1" using Cons.prems(2) by auto
  let ?pat = "map (\<lambda>key. complete_hash T t key (mix_seed_and_bit (seed2 t) (of_nat ob))) (key_array b)"
  have mask: "unat (slot_num T (slot_policy t)) - 1 = 2 ^ m - 1" by (simp add: policy_slot_num [OF t(2)])
  have upd: "t\<lparr> seed2_test_table := replicate (2 ^ m) False \<rparr> = t" using t(4) by simp
  have test: "(if 0 < ob then test_hash_vec_self_collision T t ?pat (seed2_test_table t) else (True, seed2_test_table t)) =
      (ob = 0 \<or> distinct (map (slot_idx t) ?pat), replicate (2 ^ m) False)"
    by (simp add: t(4) hash_vec_test [OF t(2)])
  show ?case
  proof (cases "ob = 0 \<or> distinct (map (slot_idx t) ?pat)")
    case False
    then have "t' = t" "\<not> ok" using Cons.prems(1) unfolding place_bucket.simps Let_def test by (auto simp: upd)
    then show ?thesis by simp
  next
    case True
    have dp: "distinct (map (slot_idx t) ?pat)"
      using True d by (auto simp: comp_def mix_seed_and_bit_def)
    obtain t1 f where t1: "try_offset T t (2 ^ m - 1) ?pat (bucket_idx b) ob = (t1, f)" by (metis surj_pair)
    have step: "place_bucket T b (ob # bits) t = (if f then (t1, True) else place_bucket T b bits t1)"
      using True unfolding place_bucket.simps Let_def test by (simp add: upd mask t1 del: One_nat_def)
    note to = try_offset_ok [OF t1 t(1,2) dp]
    show ?thesis
    proof (cases f)
      case False
      then have "place_bucket T b bits t = (t', ok)" using to step Cons.prems(1) by simp
      moreover have "set bits \<subseteq> {0, 1}" using Cons.prems(2) by simp
      ultimately show ?thesis by (rule Cons.IH)
    next
      case True
      with step Cons.prems(1) have e: "t' = t1" "ok" by simp_all
      obtain off where off: "off < 2 ^ m" and "let ps = pattern_positions T t ?pat off in
          t1 = (fill_slots ps t)\<lparr> bucket_p := (bucket_p t)[bucket_idx b := bucket_param_value off ob] \<rparr> \<and>
          perm_ok (2 ^ m) t1 \<and> filled_set t1 = filled_set t \<union> set ps \<and> distinct ps \<and> set ps \<inter> filled_set t = {}"
        using to True by auto
      note this(2)
      then have h: "let ps = map (\<lambda>k. get_slot_pos_at T t k (of_nat off) (of_nat ob)) (key_array b) in
          t1 = (fill_slots ps t)\<lparr> bucket_p := (bucket_p t)[bucket_idx b := bucket_param_value off ob] \<rparr> \<and>
          perm_ok (2 ^ m) t1 \<and> filled_set t1 = filled_set t \<union> set ps \<and> distinct ps \<and> set ps \<inter> filled_set t = {}"
        unfolding pattern_positions_at .
      note h' = h [unfolded Let_def]
      note e1 = conjunct1 [OF h'] and ok1 = conjunct1 [OF conjunct2 [OF h']]
        and fd = conjunct2 [OF conjunct2 [OF h']]
      have "same_hash t1 t" and "bucket_p t1 = (bucket_p t)[bucket_idx b := bucket_param_value off ob]"
        unfolding e1 by (simp_all add: same_hash_def)
      with ok1 fd off ob show ?thesis unfolding e(1) if_P [OF e(2)] Let_def
        by - (rule conjI, assumption, rule conjI, assumption, rule exI [of _ off], rule conjI, assumption,
          rule exI [of _ ob], intro conjI, simp_all)
    qed
  qed
qed simp

section \<open>Placing all buckets\<close>

text \<open>The buckets of a list of keys.\<close>

definition bucket_of_keys where
  "bucket_of_keys t keys i =
     \<lparr> entry_cnt = length (filter (\<lambda>k. complete_get_bucket_index T t k = i) keys), bucket_idx = i,
       key_array = filter (\<lambda>k. complete_get_bucket_index T t k = i) keys \<rparr>"

text \<open>The keys of the buckets in \<open>D\<close> have got slots of their own, and these are the filled ones.\<close>

definition placed :: "('p, 'k, 'v, 'g) fph \<Rightarrow> 'k list \<Rightarrow> nat set \<Rightarrow> bool" where
  "placed t keys D \<longleftrightarrow>
     filled_set t = get_slot_pos T t ` {k \<in> set keys. complete_get_bucket_index T t k \<in> D} \<and>
     inj_on (get_slot_pos T t) {k \<in> set keys. complete_get_bucket_index T t k \<in> D}"

lemma placed_step:
  assumes p: "placed t keys D" "i \<notin> D" and sh: "same_hash t' t" and i: "i < length (bucket_p t)"
    and off: "off < 2 ^ 31" "ob \<le> 1" and bp: "bucket_p t' = (bucket_p t)[i := bucket_param_value off ob]"
    and ks: "ks = filter (\<lambda>k. complete_get_bucket_index T t k = i) keys"
    and ps: "ps = map (\<lambda>k. get_slot_pos_at T t k (of_nat off) (of_nat ob)) ks"
    and f: "filled_set t' = filled_set t \<union> set ps" "distinct ps" "set ps \<inter> filled_set t = {}"
  shows "placed t' keys (insert i D)"
proof -
  let ?B = "complete_get_bucket_index T t"
  have B: "complete_get_bucket_index T t' k = ?B k" for k using sh by (rule same_hash_bucket)
  have pol: "slot_policy t' = slot_policy t" "bucket_policy t' = bucket_policy t"
    using sh frame_eqD(1,2) unfolding same_hash_def by blast+
  have seeds: "seed0 t' = seed0 t" "seed1 t' = seed1 t" "seed2 t' = seed2 t" using sh by (simp_all add: same_hash_def)
  have old: "get_slot_pos T t' k = get_slot_pos T t k" if "?B k \<noteq> i" for k
    using that bp by (intro slot_pos_cong) (simp_all add: pol seeds)
  have new: "get_slot_pos T t' k = get_slot_pos_at T t k (of_nat off) (of_nat ob)" if "?B k = i" for k
  proof -
    have "get_slot_pos T t' k = get_slot_pos_at T t' k (of_nat off) (of_nat ob)"
      unfolding get_slot_pos_eq B that using i bucket_param_decode [OF off] by (simp add: bp)
    also have "\<dots> = get_slot_pos_at T t k (of_nat off) (of_nat ob)"
      by (rule slot_pos_at_cong) (simp_all add: pol seeds)
    finally show ?thesis .
  qed
  let ?Kd = "{k \<in> set keys. ?B k \<in> D}" and ?Ki = "{k \<in> set keys. ?B k = i}"
  have split: "{k \<in> set keys. ?B k \<in> insert i D} = ?Kd \<union> ?Ki" by auto
  have sp: "set ps = get_slot_pos T t' ` ?Ki" using new by (auto simp: ps ks)
  have od: "get_slot_pos T t' ` ?Kd = get_slot_pos T t ` ?Kd" using p(2) by (intro image_cong refl old) auto
  have fd: "filled_set t = get_slot_pos T t' ` ?Kd" using p(1) od by (simp add: placed_def)
  have "inj_on (\<lambda>k. get_slot_pos_at T t k (of_nat off) (of_nat ob)) (set ks)"
    using f(2) by (simp add: ps distinct_map)
  then have ii: "inj_on (get_slot_pos T t') ?Ki"
    using new by (auto simp: ks inj_on_def)
  have id: "inj_on (get_slot_pos T t') ?Kd"
    using p old unfolding placed_def inj_on_def by (metis (mono_tags, lifting) mem_Collect_eq)
  have "inj_on (get_slot_pos T t') (?Kd \<union> ?Ki)"
    using id ii f(3) fd sp by (simp add: inj_on_Un) blast
  then show ?thesis using f(1) fd sp by (simp only: placed_def B split image_Un)
qed

lemma placed_empty_bucket:
  "placed t keys D \<Longrightarrow> filter (\<lambda>k. complete_get_bucket_index T t k = i) keys = [] \<Longrightarrow> placed t keys (insert i D)"
proof -
  assume p: "placed t keys D" and e: "filter (\<lambda>k. complete_get_bucket_index T t k = i) keys = []"
  have "{k \<in> set keys. complete_get_bucket_index T t k \<in> insert i D} = {k \<in> set keys. complete_get_bucket_index T t k \<in> D}"
    using e by (auto simp: filter_empty_conv)
  with p show ?thesis by (simp add: placed_def)
qed

lemma place_buckets_ok:
  assumes "place_buckets T bs is t = (t', ok)" "perm_ok (2 ^ m) t" "policy_ok (slot_policy t) m" "m \<le> 31"
    "seed2_test_table t = replicate (2 ^ m) False" "placed t keys D" "distinct is" "set is \<inter> D = {}"
    "\<forall>i \<in> set is. i < length (bucket_p t) \<and> bs ! i = bucket_of_keys t keys i \<and>
       distinct (map (\<lambda>k. slot_idx t (complete_hash T t k (seed2 t))) (key_array (bs ! i)))"
  shows "same_hash t' t \<and> (ok \<longrightarrow> perm_ok (2 ^ m) t' \<and> placed t' keys (D \<union> set is))"
  using assms
proof (induction "is" arbitrary: t D)
  case (Cons i "is")
  let ?b = "bs ! i"
  have b: "?b = bucket_of_keys t keys i" "i < length (bucket_p t)"
    "distinct (map (\<lambda>k. slot_idx t (complete_hash T t k (seed2 t))) (key_array ?b))"
    using bspec [OF Cons.prems(9) list.set_intros(1)] by blast+
  have rest: "\<forall>i \<in> set is. i < length (bucket_p t) \<and> bs ! i = bucket_of_keys t keys i \<and>
      distinct (map (\<lambda>k. slot_idx t (complete_hash T t k (seed2 t))) (key_array (bs ! i)))"
    using Cons.prems(9) by (meson list.set_intros(2))
  have D: "insert i D \<union> set is = D \<union> set (i # is)" by auto
  show ?case
  proof (cases "entry_cnt ?b = 0")
    case True
    then have "filter (\<lambda>k. complete_get_bucket_index T t k = i) keys = []" by (simp add: b bucket_of_keys_def)
    then have p: "placed t keys (insert i D)" using Cons.prems(6) by (rule placed_empty_bucket [rotated])
    have "place_buckets T bs is t = (t', ok)" using Cons.prems(1) True by (simp add: Let_def)
    from Cons.IH [OF this Cons.prems(2,3,4,5) p _ _ rest] Cons.prems(7,8) show ?thesis unfolding D by simp
  next
    case False
    obtain t1 f where t1: "place_bucket T ?b [0, 1] t = (t1, f)" by (metis surj_pair)
    have pb: "same_hash t1 t \<and> (if f then perm_ok (2 ^ m) t1 \<and> (\<exists>off < 2 ^ m. \<exists>ob \<le> 1.
      let ps = map (\<lambda>k. get_slot_pos_at T t k (of_nat off) (of_nat ob)) (key_array ?b) in
      bucket_p t1 = (bucket_p t)[bucket_idx ?b := bucket_param_value off ob] \<and>
      filled_set t1 = filled_set t \<union> set ps \<and> distinct ps \<and> set ps \<inter> filled_set t = {})
      else t1 = t)"
      by (rule place_bucket_ok [OF t1 _ Cons.prems(2,3,4,5) b(3)]) simp
    have step: "(if f then place_buckets T bs is t1 else (t1, False)) = (t', ok)"
      using Cons.prems(1) False t1 by (simp add: Let_def)
    show ?thesis
    proof (cases f)
      case False
      then show ?thesis using pb step by simp
    next
      case True
      with pb have sh: "same_hash t1 t" and ok1: "perm_ok (2 ^ m) t1" by simp_all
      obtain off ob where o: "off < 2 ^ m" "ob \<le> 1" and r:
        "bucket_p t1 = (bucket_p t)[bucket_idx ?b := bucket_param_value off ob]"
        "filled_set t1 = filled_set t \<union> set (map (\<lambda>k. get_slot_pos_at T t k (of_nat off) (of_nat ob)) (key_array ?b))"
        "distinct (map (\<lambda>k. get_slot_pos_at T t k (of_nat off) (of_nat ob)) (key_array ?b))"
        "set (map (\<lambda>k. get_slot_pos_at T t k (of_nat off) (of_nat ob)) (key_array ?b)) \<inter> filled_set t = {}"
        using pb True unfolding Let_def by auto
      have off: "off < 2 ^ 31"
        using o(1) Cons.prems(4) power_increasing [of m 31 "2::nat"] by simp
      have p1: "placed t1 keys (insert i D)"
        by (rule placed_step [OF Cons.prems(6) _ sh b(2) off o(2) _ refl refl])
          (use r Cons.prems(8) b(1) in \<open>simp_all add: bucket_of_keys_def\<close>)
      have pol: "slot_policy t1 = slot_policy t" using sh by (rule same_hash_policy)
      have ch: "complete_hash T t1 k (seed2 t1) = complete_hash T t k (seed2 t)" for k
        using sh by (simp add: complete_hash_def same_hash_def)
      have bk: "bucket_of_keys t1 keys j = bucket_of_keys t keys j" for j
        by (simp add: bucket_of_keys_def same_hash_bucket [OF sh])
      have len: "length (bucket_p t1) = length (bucket_p t)" and st: "seed2_test_table t1 = seed2_test_table t"
        using sh by (simp_all add: same_hash_def)
      have "place_buckets T bs is t1 = (t', ok)" using step True by simp
      note pl = this
      have rest1: "\<forall>i \<in> set is. i < length (bucket_p t1) \<and> bs ! i = bucket_of_keys t1 keys i \<and>
          distinct (map (\<lambda>k. slot_idx t1 (complete_hash T t1 k (seed2 t1))) (key_array (bs ! i)))"
        using rest unfolding pol ch bk len .
      have pol1: "policy_ok (slot_policy t1) m" and st1: "seed2_test_table t1 = replicate (2 ^ m) False"
        using Cons.prems(3,5) by (simp_all only: pol st)
      have d: "distinct is" "set is \<inter> insert i D = {}" using Cons.prems(7,8) by auto
      have "same_hash t' t1 \<and> (ok \<longrightarrow> perm_ok (2 ^ m) t' \<and> placed t' keys (insert i D \<union> set is))"
        by (rule Cons.IH [OF pl ok1 pol1 Cons.prems(4) st1 p1 d rest1])
      then show ?thesis using same_hash_trans sh D by metis
    qed
  qed
qed simp

section \<open>Choosing the seeds\<close>

text \<open>The keys of every bucket have different hashes under the second seed.\<close>

definition no_self_collision where
  "no_self_collision t bs is \<longleftrightarrow>
     (\<forall>i \<in> set is. distinct (map (\<lambda>k. slot_idx t (complete_hash T t k (seed2 t))) (key_array (bs ! i))))"

definition same_frame :: "('p, 'k, 'v, 'g) fph \<Rightarrow> ('p, 'k, 'v, 'g) fph \<Rightarrow> bool" where
  "same_frame t' t \<longleftrightarrow> frame t' = frame t \<and> length (bucket_p t') = length (bucket_p t)"

lemma same_frame_refl [simp]: "same_frame t t"
  by (simp add: same_frame_def)

lemma same_frame_trans: "same_frame t'' t' \<Longrightarrow> same_frame t' t \<Longrightarrow> same_frame t'' t"
  by (simp add: same_frame_def)

lemma same_hash_frame: "same_hash t' t \<Longrightarrow> same_frame t' t"
  by (simp add: same_hash_def same_frame_def)

lemma find_seed2_ok:
  assumes "find_seed2 T bs is n t r = (ok, t', r')" "policy_ok (slot_policy t) m"
    "seed2_test_table t = replicate (2 ^ m) False"
  shows "same_frame t' t \<and> seed0 t' = seed0 t \<and> seed1 t' = seed1 t \<and> length (map_table t') = length (map_table t) \<and>
    seed2_test_table t' = seed2_test_table t \<and> (ok \<longrightarrow> no_self_collision t' bs is)"
  using assms
proof (induction n arbitrary: t r)
  case (Suc n)
  obtain x r1 where x: "random_odd T r = (x, r1)" by (metis surj_pair)
  let ?t = "t\<lparr> seed2 := x \<rparr>"
  have pol: "policy_ok (slot_policy ?t) m" using Suc.prems(2) by simp
  have tb: "seed2_test_table t = replicate (2 ^ m) False" by (rule Suc.prems(3))
  note bt = buckets_test [OF pol, of x bs "is"]
  have upd: "t\<lparr> seed2 := x, seed2_test_table := replicate (2 ^ m) False \<rparr> = ?t" using tb by simp
  show ?case
  proof (cases "no_self_collision ?t bs is")
    case True
    then have "find_seed2 T bs is (Suc n) t r = (True, ?t, r1)"
      using bt by (simp add: x tb no_self_collision_def upd)
    then show ?thesis using Suc.prems(1) True by (auto simp: same_frame_def)
  next
    case False
    then have "find_seed2 T bs is (Suc n) t r = find_seed2 T bs is n ?t r1"
      using bt by (auto simp: x tb no_self_collision_def upd Let_def)
    with Suc.IH [of ?t r1] Suc.prems pol show ?thesis by (simp add: same_frame_def)
  qed
qed simp

lemma shuffle_perm: "i < length xs \<Longrightarrow> mset (fst (shuffle_table T i xs r)) = mset xs"
proof (induction i arbitrary: xs r)
  case (Suc i)
  obtain x r1 where x: "next_random T r = (x, r1)" by (metis surj_pair)
  let ?j = "unat x mod (i + 2)"
  have j: "?j < i + 2" by simp
  have "mset (swap_at xs (Suc i) ?j) = mset xs"
    unfolding swap_at_def using Suc.prems j by (intro mset_swap) linarith+
  moreover have "mset (fst (shuffle_table T i (swap_at xs (Suc i) ?j) r1)) = mset (swap_at xs (Suc i) ?j)"
    using Suc.prems by (intro Suc.IH) simp
  ultimately show ?case by (simp add: x)
qed simp

lemma try_seed2_ok:
  assumes "try_seed2 T bs is n2 n t r = (ok, t', r')" "policy_ok (slot_policy t) m" "m \<le> 31"
    "item_num_ceil t = 2 ^ m" "length (map_table t) = 2 ^ m" "seed2_test_table t = replicate (2 ^ m) False"
    "distinct is" "\<forall>i \<in> set is. i < length (bucket_p t) \<and> bs ! i = bucket_of_keys t keys i"
  shows "same_frame t' t \<and> seed0 t' = seed0 t \<and> seed1 t' = seed1 t \<and> seed2_test_table t' = seed2_test_table t \<and>
    (ok \<longrightarrow> perm_ok (2 ^ m) t' \<and> placed t' keys (set is) \<and> no_self_collision t' bs is)"
  using assms
proof (induction n arbitrary: t r)
  case (Suc n)
  obtain f t1 r1 where t1: "find_seed2 T bs is n2 t r = (f, t1, r1)" by (metis surj_pair)
  note fs = find_seed2_ok [OF t1 Suc.prems(2,6)]
  have pol: "slot_policy t1 = slot_policy t" "item_num_ceil t1 = item_num_ceil t" "bucket_policy t1 = bucket_policy t"
    using fs frame_eqD(1,2,5) unfolding same_frame_def by blast+
  have B: "complete_get_bucket_index T t1 k = complete_get_bucket_index T t k" for k
    using fs by (intro bucket_index_cong) (simp_all add: pol)
  have bk: "bucket_of_keys t1 keys i = bucket_of_keys t keys i" for i by (simp add: bucket_of_keys_def B)
  show ?case
  proof (cases f)
    case False
    then have "try_seed2 T bs is n2 n t1 r1 = (ok, t', r')" using Suc.prems(1) t1 by simp
    moreover have "\<forall>i \<in> set is. i < length (bucket_p t1) \<and> bs ! i = bucket_of_keys t1 keys i"
      using Suc.prems(8) fs unfolding bk same_frame_def by simp
    ultimately have "same_frame t' t1 \<and> seed0 t' = seed0 t1 \<and> seed1 t' = seed1 t1 \<and> seed2_test_table t' = seed2_test_table t1 \<and>
        (ok \<longrightarrow> perm_ok (2 ^ m) t' \<and> placed t' keys (set is) \<and> no_self_collision t' bs is)"
      using Suc.prems(2-7) fs pol by (intro Suc.IH) simp_all
    then show ?thesis using fs same_frame_trans [of t' t1 t] by simp
  next
    case True
    obtain rt r2 where rt: "shuffle_table T (item_num_ceil t1 - 1) [0..<item_num_ceil t1] r1 = (rt, r2)" by (metis surj_pair)
    let ?t = "t1\<lparr> random_table := rt, map_table := invert_table rt 0 (map_table t1), filled_count := 0 \<rparr>"
    obtain t3 g where t3: "place_buckets T bs is ?t = (t3, g)" by (metis surj_pair)
    have "mset (fst (shuffle_table T (item_num_ceil t1 - 1) [0..<item_num_ceil t1] r1)) = mset [0..<item_num_ceil t1]"
      using Suc.prems(4) pol by (intro shuffle_perm) simp
    then have ms: "mset rt = mset [0..<2 ^ m]" using rt Suc.prems(4) pol by (simp del: mset_upt)
    have len: "length (map_table t1) = 2 ^ m" using fs Suc.prems(5) by simp
    note fr = fresh_tables_ok [OF ms len, of t1]
    have nc: "no_self_collision t1 bs is" using fs True by simp
    have rest: "\<forall>i \<in> set is. i < length (bucket_p ?t) \<and> bs ! i = bucket_of_keys ?t keys i \<and>
        distinct (map (\<lambda>k. slot_idx ?t (complete_hash T ?t k (seed2 ?t))) (key_array (bs ! i)))"
    proof (intro ballI conjI)
      fix i assume i: "i \<in> set is"
      show "i < length (bucket_p ?t)" using i Suc.prems(8) fs by (simp add: same_frame_def)
      have "bucket_of_keys ?t keys i = bucket_of_keys t1 keys i"
        by (simp add: bucket_of_keys_def complete_get_bucket_index_def get_bucket_index_def)
      then show "bs ! i = bucket_of_keys ?t keys i" using i Suc.prems(8) bk by simp
      show "distinct (map (\<lambda>k. slot_idx ?t (complete_hash T ?t k (seed2 ?t))) (key_array (bs ! i)))"
        using bspec [OF nc [unfolded no_self_collision_def] i] by (simp add: complete_hash_def)
    qed
    have p0: "placed ?t keys {}" using fr(2) by (simp add: placed_def)
    have pb: "same_hash t3 ?t \<and> (g \<longrightarrow> perm_ok (2 ^ m) t3 \<and> placed t3 keys ({} \<union> set is))"
      by (rule place_buckets_ok [OF t3 fr(1) _ Suc.prems(3) _ p0 Suc.prems(7) _ rest])
        (use Suc.prems(2,6) fs pol in simp_all)
    have sf: "same_frame t3 t" using pb fs by (simp add: same_hash_def same_frame_def)
    have sd: "seed0 t3 = seed0 t" "seed1 t3 = seed1 t" "seed2_test_table t3 = seed2_test_table t"
      using pb fs by (simp_all add: same_hash_def)
    show ?thesis
    proof (cases g)
      case True
      with \<open>f\<close> have "t' = t3" "ok" using Suc.prems(1) t1 rt t3 by simp_all
      moreover have "no_self_collision t3 bs is"
      proof -
        have "slot_policy t3 = slot_policy t1" using pb same_hash_policy by fastforce
        moreover have "complete_hash T t3 k (seed2 t3) = complete_hash T t1 k (seed2 t1)" for k
          using pb by (simp add: complete_hash_def same_hash_def)
        ultimately show ?thesis using nc by (simp add: no_self_collision_def)
      qed
      ultimately show ?thesis using pb True sf sd by simp
    next
      case False
      with \<open>f\<close> have pl: "try_seed2 T bs is n2 n t3 r2 = (ok, t', r')" using Suc.prems(1) t1 rt t3 by simp
      have pol3: "slot_policy t3 = slot_policy t" "item_num_ceil t3 = item_num_ceil t" "bucket_policy t3 = bucket_policy t"
        using sf frame_eqD(1,2,5) unfolding same_frame_def by blast+
      have "complete_get_bucket_index T t3 k = complete_get_bucket_index T t k" for k
        using sd by (intro bucket_index_cong) (simp_all add: pol3)
      then have "\<forall>i \<in> set is. i < length (bucket_p t3) \<and> bs ! i = bucket_of_keys t3 keys i"
        using Suc.prems(8) sf unfolding same_frame_def bucket_of_keys_def by simp
      moreover have "length (map_table t3) = 2 ^ m" using pb len by (simp add: same_hash_def)
      ultimately have "same_frame t' t3 \<and> seed0 t' = seed0 t3 \<and> seed1 t' = seed1 t3 \<and> seed2_test_table t' = seed2_test_table t3 \<and>
        (ok \<longrightarrow> perm_ok (2 ^ m) t' \<and> placed t' keys (set is) \<and> no_self_collision t' bs is)"
        using Suc.prems(2-7) pol3 sd pl by (intro Suc.IH) simp_all
      then show ?thesis using sf sd same_frame_trans [of t' t3 t] by simp
    qed
  qed
qed simp

section \<open>Distributing the keys\<close>

lemma update_buckets_nth:
  assumes "update_buckets T t keys bs mx = (bs', mx')" "\<forall>k \<in> set keys. complete_get_bucket_index T t k < length bs"
    "\<forall>i < length bs. entry_cnt (bs ! i) \<le> mx"
  shows "length bs' = length bs \<and> mx \<le> mx' \<and> (\<forall>i < length bs.
    bs' ! i = (bs ! i)\<lparr> entry_cnt := entry_cnt (bs ! i) + length (filter (\<lambda>k. complete_get_bucket_index T t k = i) keys),
      key_array := key_array (bs ! i) @ filter (\<lambda>k. complete_get_bucket_index T t k = i) keys \<rparr> \<and>
    entry_cnt (bs' ! i) \<le> mx')"
  using assms
proof (induction keys arbitrary: bs mx)
  case (Cons k keys)
  let ?i = "complete_get_bucket_index T t k"
  let ?b = "(bs ! ?i)\<lparr> entry_cnt := entry_cnt (bs ! ?i) + 1, key_array := key_array (bs ! ?i) @ [k] \<rparr>"
  let ?mx = "if mx < entry_cnt ?b then entry_cnt ?b else mx"
  have i: "?i < length bs" using Cons.prems(2) by simp
  have step: "update_buckets T t keys (bs[?i := ?b]) ?mx = (bs', mx')"
    using Cons.prems(1) by (simp only: update_buckets.simps Let_def)
  have IH: "length bs' = length (bs[?i := ?b]) \<and> ?mx \<le> mx' \<and> (\<forall>j < length (bs[?i := ?b]).
    bs' ! j = (bs[?i := ?b] ! j)\<lparr> entry_cnt := entry_cnt (bs[?i := ?b] ! j) + length (filter (\<lambda>k. complete_get_bucket_index T t k = j) keys),
      key_array := key_array (bs[?i := ?b] ! j) @ filter (\<lambda>k. complete_get_bucket_index T t k = j) keys \<rparr> \<and>
    entry_cnt (bs' ! j) \<le> mx')"
    using Cons.prems(2,3) by (intro Cons.IH [OF step]) (auto simp: nth_list_update)
  show ?case
  proof (intro conjI allI impI)
    show "length bs' = length bs" using IH by simp
    show "mx \<le> mx'" using IH by (auto split: if_splits)
    fix j assume j: "j < length bs"
    then have "j < length (bs[?i := ?b])" by simp
    with IH show "entry_cnt (bs' ! j) \<le> mx'" by blast
    from j show "bs' ! j = (bs ! j)\<lparr> entry_cnt := entry_cnt (bs ! j) + length (filter (\<lambda>k. complete_get_bucket_index T t k = j) (k # keys)),
      key_array := key_array (bs ! j) @ filter (\<lambda>k. complete_get_bucket_index T t k = j) (k # keys) \<rparr>"
      using IH j i by (cases "j = ?i") simp_all
  qed
qed simp

lemma update_new_buckets:
  assumes "update_buckets T t keys (new_buckets n) 0 = (bs, mx)" "policy_ok (bucket_policy t) b" "n = 2 ^ b"
  shows "bs = map (bucket_of_keys t keys) [0..<n]" and "\<forall>k \<in> set (map entry_cnt bs). k \<le> mx"
proof -
  have "\<forall>k \<in> set keys. complete_get_bucket_index T t k < length (new_buckets n :: 'k fph_bucket list)"
    using bucket_index_bound [OF assms(2)] assms(3) by (simp add: new_buckets_def)
  note u = update_buckets_nth [OF assms(1) this]
  have "\<forall>i < length (new_buckets n :: 'k fph_bucket list). entry_cnt (new_buckets n ! i :: 'k fph_bucket) \<le> 0"
    by (simp add: new_buckets_def)
  note u = u [OF this]
  show "bs = map (bucket_of_keys t keys) [0..<n]"
    using u by (auto intro!: nth_equalityI simp: new_buckets_def bucket_of_keys_def)
  show "\<forall>k \<in> set (map entry_cnt bs). k \<le> mx" using u by (auto simp: all_set_conv_all_nth)
qed

lemma distinct_by_buckets: "(\<And>i. distinct (map f (filter (\<lambda>k. B k = i) keys))) \<Longrightarrow> distinct keys"
proof (induction keys)
  case (Cons k keys)
  have "distinct (map f (filter (\<lambda>k'. B k' = i) keys))" for i
    using Cons.prems [of i] by (auto split: if_splits)
  then have "distinct keys" by (rule Cons.IH)
  moreover have "k \<notin> set keys" using Cons.prems [of "B k"] by auto
  ultimately show ?case by simp
qed simp

lemma resize_length [simp]: "length (resize n x xs) = n"
  by (simp add: resize_def)

lemma resize_false: "set xs \<subseteq> {False} \<Longrightarrow> resize n False xs = replicate n False"
  unfolding resize_def by (rule nth_equalityI) (auto simp: nth_append dest: nth_mem)

text \<open>What a successful search establishes.\<close>

definition search_done :: "('p, 'k, 'v, 'g) fph \<Rightarrow> 'k list \<Rightarrow> nat \<Rightarrow> nat \<Rightarrow> 'k fph_bucket list \<Rightarrow> bool" where
  "search_done t keys m n bs \<longleftrightarrow>
     perm_ok (2 ^ m) t \<and> filled_set t = get_slot_pos T t ` set keys \<and> inj_on (get_slot_pos T t) (set keys) \<and>
     distinct keys \<and> bs = map (bucket_of_keys t keys) [0..<n] \<and> seed2_test_table t = replicate (2 ^ m) False"

lemma try_seed1_ok:
  assumes "try_seed1 T keys n2 nr n t r = (res, t', r')" "policy_ok (slot_policy t) m" "m \<le> 31"
    "item_num_ceil t = 2 ^ m" "policy_ok (bucket_policy t) b" "bucket_num t = 2 ^ b" "2 ^ b \<le> length (bucket_p t)"
    "set (seed2_test_table t) \<subseteq> {False}"
  shows "same_frame t' t \<and> seed0 t' = seed0 t \<and> set (seed2_test_table t') \<subseteq> {False} \<and>
    (\<forall>bs. res = Some bs \<longrightarrow> search_done t' keys m (bucket_num t) bs)"
  using assms
proof (induction n arbitrary: t r)
  case (Suc n)
  obtain x r1 where x: "random_odd T r = (x, r1)" by (metis surj_pair)
  let ?t1 = "t\<lparr> seed1 := x \<rparr>"
  obtain bs mx where bs: "update_buckets T ?t1 keys (new_buckets (bucket_num ?t1)) 0 = (bs, mx)" by (metis surj_pair)
  define ix where "ix = count_sort_out_index True (map entry_cnt bs) (replicate (bucket_num ?t1) 0) mx"
  define t2 where "t2 = ?t1\<lparr> seed2_test_table := resize (item_num_ceil ?t1) False (seed2_test_table ?t1),
      random_table := resize (item_num_ceil ?t1) 0 (random_table ?t1),
      map_table := resize (item_num_ceil ?t1) 0 (map_table ?t1) \<rparr>"
  obtain ok t3 r2 where t3: "try_seed2 T bs ix nr n2 t2 r1 = (ok, t3, r2)" by (metis surj_pair)
  have step: "(if ok then (Some bs, t3, r2) else try_seed1 T keys n2 nr n t3 r2) = (res, t', r')"
    using Suc.prems(1) x bs t3 by (simp add: Let_def ix_def t2_def)
  note ub = update_new_buckets [OF bs, where b = b]
  have ub: "bs = map (bucket_of_keys ?t1 keys) [0..<2 ^ b]" "\<forall>k \<in> set (map entry_cnt bs). k \<le> mx"
    using ub Suc.prems(5,6) by simp_all
  have lb: "length (map entry_cnt bs) = 2 ^ b" by (simp add: ub(1))
  have ix: "length ix = 2 ^ b" "distinct ix" "set ix = {..<2 ^ b}"
  proof -
    have le: "length (map entry_cnt bs) \<le> length (replicate (bucket_num ?t1) (0::nat))" using lb Suc.prems(6) by simp
    have l: "length ix = 2 ^ b" using count_sort_places(1) [OF ub(2) le, where desc = True] lb Suc.prems(6)
      by (simp add: ix_def)
    then show "length ix = 2 ^ b" .
    show "distinct ix" "set ix = {..<2 ^ b}"
      using count_sort_out_index_correct(2,3) [OF ub(2) le, where desc = True] l lb by (simp_all add: ix_def)
  qed
  have bk: "bucket_of_keys t2 keys i = bucket_of_keys ?t1 keys i" for i
    by (simp add: bucket_of_keys_def t2_def complete_get_bucket_index_def get_bucket_index_def)
  have tt: "seed2_test_table t2 = replicate (2 ^ m) False"
    using Suc.prems(4,8) by (simp add: t2_def resize_false)
  have rest: "\<forall>i \<in> set ix. i < length (bucket_p t2) \<and> bs ! i = bucket_of_keys t2 keys i"
    using Suc.prems(7) ix(3) unfolding bk by (auto simp: t2_def ub(1))
  have ts: "same_frame t3 t2 \<and> seed0 t3 = seed0 t2 \<and> seed1 t3 = seed1 t2 \<and> seed2_test_table t3 = seed2_test_table t2 \<and>
    (ok \<longrightarrow> perm_ok (2 ^ m) t3 \<and> placed t3 keys (set ix) \<and> no_self_collision t3 bs ix)"
    by (rule try_seed2_ok [OF t3 _ Suc.prems(3) _ _ tt ix(2) rest]) (use Suc.prems(2,4) in \<open>simp_all add: t2_def\<close>)
  have sf: "same_frame t3 t" "seed0 t3 = seed0 t" using ts by (simp_all add: same_frame_def t2_def)
  have pol3: "slot_policy t3 = slot_policy t" "item_num_ceil t3 = item_num_ceil t" "bucket_policy t3 = bucket_policy t"
    "bucket_num t3 = bucket_num t"
    using sf(1) frame_eqD(1,2,5,6) unfolding same_frame_def by blast+
  show ?case
  proof (cases ok)
    case True
    then have e: "res = Some bs" "t' = t3" using step by simp_all
    have B: "complete_get_bucket_index T t3 k = complete_get_bucket_index T ?t1 k" for k
      using ts by (intro bucket_index_cong) (simp_all add: pol3 t2_def)
    have b3: "bucket_of_keys t3 keys i = bucket_of_keys ?t1 keys i" for i by (simp add: bucket_of_keys_def B)
    have bound: "complete_get_bucket_index T t3 k < 2 ^ b" for k
      using bucket_index_bound [of t3 b] Suc.prems(5) by (simp add: pol3)
    then have all: "{k \<in> set keys. complete_get_bucket_index T t3 k \<in> set ix} = set keys" by (simp add: ix(3))
    have "distinct (map (\<lambda>k. slot_idx t3 (complete_hash T t3 k (seed2 t3)))
        (filter (\<lambda>k. complete_get_bucket_index T t3 k = i) keys))" for i
    proof (cases "i < 2 ^ b")
      case True
      then have "bs ! i = bucket_of_keys t3 keys i" by (simp add: ub(1) b3)
      moreover have "i \<in> set ix" using True ix(3) by simp
      ultimately show ?thesis using ts \<open>ok\<close> by (fastforce simp: no_self_collision_def bucket_of_keys_def)
    next
      case False
      then have "filter (\<lambda>k. complete_get_bucket_index T t3 k = i) keys = []"
        using bound by (auto simp: filter_empty_conv)
      then show ?thesis by simp
    qed
    then have dk: "distinct keys" by (rule distinct_by_buckets)
    have "search_done t3 keys m (bucket_num t) bs"
      using ts True dk Suc.prems(6) tt by (simp add: search_done_def placed_def all ub(1) b3)
    then show ?thesis using e sf ts tt by simp
  next
    case False
    then have pl: "try_seed1 T keys n2 nr n t3 r2 = (res, t', r')" using step by simp
    have "same_frame t' t3 \<and> seed0 t' = seed0 t3 \<and> set (seed2_test_table t') \<subseteq> {False} \<and>
      (\<forall>bs. res = Some bs \<longrightarrow> search_done t' keys m (bucket_num t3) bs)"
      using Suc.prems sf ts tt pol3 by (intro Suc.IH [OF pl]) (simp_all add: same_frame_def)
    then show ?thesis using sf same_frame_trans [of t' t3 t] pol3 by simp
  qed
qed simp

lemma try_seed0_ok:
  assumes "try_seed0 T keys n1 n2 nr n t r = (res, t', r')" "policy_ok (slot_policy t) m" "m \<le> 31"
    "item_num_ceil t = 2 ^ m" "policy_ok (bucket_policy t) b" "bucket_num t = 2 ^ b" "2 ^ b \<le> length (bucket_p t)"
    "set (seed2_test_table t) \<subseteq> {False}"
  shows "same_frame t' t \<and> (\<forall>bs. res = Some bs \<longrightarrow> search_done t' keys m (bucket_num t) bs)"
  using assms
proof (induction n arbitrary: t r)
  case (Suc n)
  obtain x r1 where x: "random_odd T r = (x, r1)" by (metis surj_pair)
  let ?t1 = "t\<lparr> seed0 := x \<rparr>"
  obtain res1 t2 r2 where t2: "try_seed1 T keys n2 nr n1 ?t1 r1 = (res1, t2, r2)" by (metis surj_pair)
  have ts: "same_frame t2 ?t1 \<and> seed0 t2 = seed0 ?t1 \<and> set (seed2_test_table t2) \<subseteq> {False} \<and>
    (\<forall>bs. res1 = Some bs \<longrightarrow> search_done t2 keys m (bucket_num ?t1) bs)"
    by (rule try_seed1_ok [OF t2, where b = b]) (use Suc.prems in simp_all)
  have sf: "same_frame t2 t" using ts by (simp add: same_frame_def)
  have pol: "slot_policy t2 = slot_policy t" "item_num_ceil t2 = item_num_ceil t" "bucket_policy t2 = bucket_policy t"
    "bucket_num t2 = bucket_num t"
    using sf frame_eqD(1,2,5,6) unfolding same_frame_def by blast+
  show ?case
  proof (cases "res1 = None")
    case False
    then have "res = res1" "t' = t2" using Suc.prems(1) x t2 by auto
    then show ?thesis using ts sf by simp
  next
    case True
    then have pl: "try_seed0 T keys n1 n2 nr n t2 r2 = (res, t', r')" using Suc.prems(1) x t2 by simp
    have "same_frame t' t2 \<and> (\<forall>bs. res = Some bs \<longrightarrow> search_done t' keys m (bucket_num t2) bs)"
      using Suc.prems sf ts pol by (intro Suc.IH [OF pl]) (simp_all add: same_frame_def)
    then show ?thesis using sf same_frame_trans [of t' t2 t] pol by simp
  qed
qed simp

end

end
