(* ===== verification/Fph_Inv.thy ===== *)
theory Fph_Inv
  imports Fph_Build_Correct
begin

text \<open>
  The invariant of the dynamic perfect hash table, and what lookups, iteration, erasure and clearing
  do on it.
\<close>

section \<open>The invariant\<close>

text \<open>What an empty slot holds: the default key, or the second one in the slot of the default key.\<close>

definition empty_key :: "('p, 'k, 'v, 'g) fph \<Rightarrow> nat \<Rightarrow> 'k" where
  "empty_key t p = (if p = default_fill_key_address t then second_default_key t else default_fill_key t)"

definition layout_ok :: "('p, 'k, 'r, 'g) fph_types \<Rightarrow> nat \<Rightarrow> nat \<Rightarrow> ('p, 'k, 'v, 'g) fph \<Rightarrow> bool" where
  "layout_ok T m b t \<longleftrightarrow>
     policy_for_slots T (slot_policy t) m \<and> 3 \<le> m \<and> m \<le> 31 \<and> item_num_ceil t = 2 ^ m \<and> length (slots t) = 2 ^ m \<and>
     policy_for_slots T (bucket_policy t) b \<and> bucket_num t = 2 ^ b \<and> 2 ^ b \<le> length (bucket_p t) \<and>
     length (bucket_p t) = bucket_capacity t \<and> perm_ok (2 ^ m) t \<and> seed2_test_table t = replicate (2 ^ m) False"

definition defaults_ok :: "('p, 'k, 'r, 'g) fph_types \<Rightarrow> ('p, 'k, 'v, 'g) fph \<Rightarrow> bool" where
  "defaults_ok T t \<longleftrightarrow>
     default_fill_key_address t = get_slot_pos T t (default_fill_key t) \<and>
     default_fill_key_bucket_index t = complete_get_bucket_index T t (default_fill_key t) \<and>
     get_slot_pos T t (second_default_key t) \<noteq> default_fill_key_address t"

definition slots_ok :: "('p, 'k, 'r, 'g) fph_types \<Rightarrow> nat \<Rightarrow> ('p, 'k, 'v, 'g) fph \<Rightarrow> bool" where
  "slots_ok T m t \<longleftrightarrow>
     (\<forall>p < 2 ^ m. if p \<in> filled_set t then get_slot_pos T t (fst (slots t ! p)) = p
        else slots t ! p = (empty_key t p, None))"

definition buckets_ok :: "('p, 'k, 'r, 'g) fph_types \<Rightarrow> nat \<Rightarrow> ('p, 'k, 'v, 'g) fph \<Rightarrow> bool" where
  "buckets_ok T b t \<longleftrightarrow>
     length (bucket_array t) = 2 ^ b \<and>
     (\<forall>i < 2 ^ b. bucket_idx (bucket_array t ! i) = i \<and>
        entry_cnt (bucket_array t ! i) = length (key_array (bucket_array t ! i)) \<and>
        distinct (key_array (bucket_array t ! i)) \<and>
        set (key_array (bucket_array t ! i)) =
          {p \<in> filled_set t. complete_get_bucket_index T t (fst (slots t ! p)) = i})"

definition counts_ok :: "('p, 'k, 'v, 'g) fph \<Rightarrow> bool" where
  "counts_ok t \<longleftrightarrow> item_num t = filled_count t \<and>
     (case begin_it t of None \<Rightarrow> item_num t = 0 | Some p \<Rightarrow> p \<in> filled_set t)"

definition fph_ok :: "('p, 'k, 'r, 'g) fph_types \<Rightarrow> nat \<Rightarrow> nat \<Rightarrow> ('p, 'k, 'v, 'g) fph \<Rightarrow> bool" where
  "fph_ok T m b t \<longleftrightarrow> layout_ok T m b t \<and> defaults_ok T t \<and> slots_ok T m t \<and> buckets_ok T b t \<and> counts_ok t"

definition fph_inv :: "('p, 'k, 'r, 'g) fph_types \<Rightarrow> ('p, 'k, 'v, 'g) fph \<Rightarrow> bool" where
  "fph_inv T t \<longleftrightarrow> (\<exists>m b. fph_ok T m b t) \<and> (\<forall>p \<in> filled_set t. snd (slots t ! p) \<noteq> None)"

text \<open>The map the table stands for.\<close>

definition fph_map :: "('p, 'k, 'r, 'g) fph_types \<Rightarrow> ('p, 'k, 'v, 'g) fph \<Rightarrow> 'k \<rightharpoonup> 'v" where
  "fph_map T t k = (let p = get_slot_pos T t k in if fst (slots t ! p) = k then snd (slots t ! p) else None)"

section \<open>Empty and filled slots\<close>

context fph_table
begin

lemma layoutD:
  assumes "layout_ok T m b t"
  shows "policy_ok (slot_policy t) m" "3 \<le> m" "m \<le> 31" "item_num_ceil t = 2 ^ m" "length (slots t) = 2 ^ m"
    "policy_ok (bucket_policy t) b" "bucket_num t = 2 ^ b" "2 ^ b \<le> length (bucket_p t)"
    "length (bucket_p t) = bucket_capacity t" "perm_ok (2 ^ m) t" "seed2_test_table t = replicate (2 ^ m) False"
  using assms by (simp_all add: layout_ok_def)

lemma fph_okD:
  assumes "fph_ok T m b t"
  shows "layout_ok T m b t" "defaults_ok T t" "slots_ok T m t" "buckets_ok T b t" "counts_ok t"
  using assms by (simp_all add: fph_ok_def)

lemma filled_key: "slots_ok T m t \<Longrightarrow> p < 2 ^ m \<Longrightarrow> p \<in> filled_set t \<Longrightarrow> get_slot_pos T t (fst (slots t ! p)) = p"
  by (auto simp: slots_ok_def)

lemma empty_slot: "slots_ok T m t \<Longrightarrow> p < 2 ^ m \<Longrightarrow> p \<notin> filled_set t \<Longrightarrow> slots t ! p = (empty_key t p, None)"
  by (auto simp: slots_ok_def)

text \<open>The key of an empty slot does not live there, so a key that is found is in a filled slot.\<close>

lemma empty_key_elsewhere: "defaults_ok T t \<Longrightarrow> get_slot_pos T t (empty_key t p) \<noteq> p"
  by (auto simp: defaults_ok_def empty_key_def)

lemma is_slot_empty_iff:
  assumes "slots_ok T m t" "defaults_ok T t" "p < 2 ^ m"
  shows "is_slot_empty t p \<longleftrightarrow> p \<notin> filled_set t"
proof -
  have e: "is_slot_empty t p \<longleftrightarrow> fst (slots t ! p) = empty_key t p"
    by (auto simp: is_slot_empty_def empty_key_def)
  show ?thesis
  proof
    assume "is_slot_empty t p"
    then have "fst (slots t ! p) = empty_key t p" by (simp add: e)
    then show "p \<notin> filled_set t" using filled_key [OF assms(1,3)] empty_key_elsewhere [OF assms(2), of p] by auto
  next
    assume "p \<notin> filled_set t"
    then show "is_slot_empty t p" using empty_slot [OF assms(1,3)] by (simp add: e)
  qed
qed

lemma found_iff:
  assumes "layout_ok T m b t" "slots_ok T m t" "defaults_ok T t"
  shows "fst (slots t ! get_slot_pos T t k) = k \<longleftrightarrow> (\<exists>p \<in> filled_set t. fst (slots t ! p) = k)"
proof -
  let ?p = "get_slot_pos T t k"
  have p: "?p < 2 ^ m" using slot_pos_bound layoutD(1) [OF assms(1)] .
  have b: "filled_set t \<subseteq> {..<2 ^ m}" using filled_set_bound layoutD(10) [OF assms(1)] .
  show ?thesis
  proof
    assume k: "fst (slots t ! ?p) = k"
    have "?p \<in> filled_set t"
    proof (rule ccontr)
      assume "?p \<notin> filled_set t"
      then have "k = empty_key t ?p" using empty_slot [OF assms(2) p] k by simp
      then show False using empty_key_elsewhere [OF assms(3), of ?p] by simp
    qed
    with k show "\<exists>p \<in> filled_set t. fst (slots t ! p) = k" by blast
  next
    assume "\<exists>p \<in> filled_set t. fst (slots t ! p) = k"
    then obtain p where "p \<in> filled_set t" "fst (slots t ! p) = k" by blast
    moreover then have "?p = p" using filled_key [OF assms(2), of p] b by auto
    ultimately show "fst (slots t ! ?p) = k" by simp
  qed
qed

lemma found_filled:
  assumes "layout_ok T m b t" "slots_ok T m t" "defaults_ok T t" "fst (slots t ! get_slot_pos T t k) = k"
  shows "get_slot_pos T t k \<in> filled_set t"
proof -
  obtain p where p: "p \<in> filled_set t" "fst (slots t ! p) = k" using found_iff [OF assms(1,2,3)] assms(4) by blast
  moreover have "p < 2 ^ m" using filled_set_bound [OF layoutD(10) [OF assms(1)]] p by auto
  ultimately have "get_slot_pos T t k = p" using filled_key [OF assms(2)] by blast
  with p show ?thesis by simp
qed

lemma filled_bound: "layout_ok T m b t \<Longrightarrow> p \<in> filled_set t \<Longrightarrow> p < 2 ^ m"
  using filled_set_bound layoutD(10) by blast

lemma fph_map_filled:
  assumes "layout_ok T m b t" "slots_ok T m t" "p \<in> filled_set t"
  shows "fph_map T t (fst (slots t ! p)) = snd (slots t ! p)"
  using filled_key [OF assms(2) filled_bound [OF assms(1,3)] assms(3)] by (simp add: fph_map_def Let_def)

section \<open>Iteration\<close>

text \<open>The slot \<open>d\<close> places on, cyclically, and the next filled one.\<close>

lemma next_slot_loop_spec:
  assumes "p < n" "item_num_ceil t = n"
  shows "case next_slot_loop t d p of
      None \<Rightarrow> \<forall>i. 1 \<le> i \<and> i \<le> d \<longrightarrow> is_slot_empty t ((p + i) mod n)
    | Some q \<Rightarrow> \<exists>j. 1 \<le> j \<and> j \<le> d \<and> q = (p + j) mod n \<and> \<not> is_slot_empty t q \<and>
        (\<forall>i. 1 \<le> i \<and> i < j \<longrightarrow> is_slot_empty t ((p + i) mod n))"
  using assms(1)
proof (induction d arbitrary: p)
  case (Suc d)
  let ?q = "if n \<le> p + 1 then 0 else p + 1"
  have q: "?q = (p + 1) mod n" "?q < n" using Suc.prems by (cases "p + 1 = n"; simp)+
  have shift: "(?q + i) mod n = (p + Suc i) mod n" for i
    unfolding q(1) by (simp add: mod_add_left_eq)
  have e: "next_slot_loop t (Suc d) p = (if \<not> is_slot_empty t ?q then Some ?q else next_slot_loop t d ?q)"
    by (simp add: Let_def assms(2))
  show ?case
  proof (cases "is_slot_empty t ?q")
    case False
    then have "next_slot_loop t (Suc d) p = Some ?q" using e by simp
    moreover have "1 \<le> (1::nat) \<and> 1 \<le> Suc d \<and> ?q = (p + 1) mod n \<and> \<not> is_slot_empty t ?q \<and>
        (\<forall>i. 1 \<le> i \<and> i < 1 \<longrightarrow> is_slot_empty t ((p + i) mod n))" using q(1) False by simp
    then have "\<exists>j. 1 \<le> j \<and> j \<le> Suc d \<and> ?q = (p + j) mod n \<and> \<not> is_slot_empty t ?q \<and>
        (\<forall>i. 1 \<le> i \<and> i < j \<longrightarrow> is_slot_empty t ((p + i) mod n))" by (rule exI)
    ultimately show ?thesis by (simp only: option.case)
  next
    case True
    note IH = Suc.IH [OF q(2), unfolded shift]
    have one: "is_slot_empty t ((p + 1) mod n)" using True unfolding q(1) .
    have e': "next_slot_loop t (Suc d) p = next_slot_loop t d ?q" using e True by simp
    have ext: "is_slot_empty t ((p + i) mod n)"
      if "1 \<le> i" "i \<le> k + 1" "\<forall>i. 1 \<le> i \<and> i \<le> k \<longrightarrow> is_slot_empty t ((p + Suc i) mod n)" for i k
      using that one by (cases i; cases "i = 1") auto
    show ?thesis
    proof (cases "next_slot_loop t d ?q")
      case None
      then have all: "\<forall>i. 1 \<le> i \<and> i \<le> d \<longrightarrow> is_slot_empty t ((p + Suc i) mod n)" using IH by simp
      show ?thesis unfolding e' None option.case using ext [OF _ _ all] by simp
    next
      case (Some r)
      then obtain j where j: "1 \<le> j" "j \<le> d" "r = (p + Suc j) mod n" "\<not> is_slot_empty t r"
        "\<forall>i. 1 \<le> i \<and> i < j \<longrightarrow> is_slot_empty t ((p + Suc i) mod n)" using IH unfolding Some option.case by (elim exE conjE)
      have "\<forall>i. 1 \<le> i \<and> i \<le> j - 1 \<longrightarrow> is_slot_empty t ((p + Suc i) mod n)" using j(5) by auto
      note x = ext [OF _ _ this]
      have "1 \<le> Suc j \<and> Suc j \<le> Suc d \<and> r = (p + Suc j) mod n \<and> \<not> is_slot_empty t r \<and>
        (\<forall>i. 1 \<le> i \<and> i < Suc j \<longrightarrow> is_slot_empty t ((p + i) mod n))"
        using j(1-4) x by simp
      then show ?thesis unfolding e' Some option.case by (rule exI)
    qed
  qed
qed simp

text \<open>The slots as seen from the slot \<open>p0\<close>: \<open>d\<close> places on.\<close>

lemma rotated_inj:
  fixes p0 n d e :: nat
  assumes "d < n" "e < n" "(p0 + d) mod n = (p0 + e) mod n"
  shows "d = e"
  using rotate_inj [OF assms(1,2), of p0] assms(3) by (simp add: add.commute)

lemma rotated_onto:
  fixes p0 n p :: nat
  assumes "p0 < n" "p < n"
  shows "\<exists>d < n. (p0 + d) mod n = p"
proof (cases "p0 \<le> p")
  case True
  then show ?thesis using assms by (intro exI [of _ "p - p0"]) simp
next
  case False
  then have "p0 + (p + n - p0) = p + n" "p + n - p0 < n" using assms by simp_all
  then show ?thesis using assms by (intro exI [of _ "p + n - p0"]) simp
qed

lemma sorted_list_above:
  fixes E :: "nat set"
  assumes "finite E" "d \<in> E"
  shows "sorted_list_of_set {e \<in> E. d \<le> e} = d # sorted_list_of_set {e \<in> E. d < e}"
proof -
  have m: "Min {e \<in> E. d \<le> e} = d" using assms by (intro Min_eqI) auto
  have "{e \<in> E. d \<le> e} - {d} = {e \<in> E. d < e}" by auto
  moreover have "{e \<in> E. d \<le> e} \<noteq> {}" using assms(2) by auto
  ultimately show ?thesis using sorted_list_of_set_nonempty [of "{e \<in> E. d \<le> e}"] assms(1) m by simp
qed

lemma visit_rotated:
  assumes emp: "\<And>p. p < n \<Longrightarrow> is_slot_empty t p \<longleftrightarrow> p \<notin> F" and n: "item_num_ceil t = n" and p0: "p0 < n"
    and F: "F \<subseteq> {..<n}" "item_num t = card F"
  defines "E \<equiv> {d. d < n \<and> (p0 + d) mod n \<in> F}"
  assumes d: "d \<in> E" "c = card {e \<in> E. e < d}"
  shows "fph_visit t \<lparr> value_ptr = Some ((p0 + d) mod n), iterate_cnt = c \<rparr> =
    map (\<lambda>d. (p0 + d) mod n) (sorted_list_of_set {e \<in> E. d \<le> e})"
  using d
proof (induction "n - d" arbitrary: d c rule: less_induct)
  case less
  let ?s = "\<lambda>d. (p0 + d) mod n"
  have finE: "finite E" by (rule finite_subset [of _ "{..<n}"]) (auto simp: E_def)
  have dn: "d < n" using less.prems(1) by (simp add: E_def)
  have n0: "0 < n" using p0 by simp
  have inj: "inj_on ?s E" by (rule inj_onI) (auto simp: E_def intro: rotated_inj)
  have img: "?s ` E = F"
  proof (intro equalityI subsetI)
    fix p assume "p \<in> F"
    moreover then obtain e where "e < n" "?s e = p" using rotated_onto [OF p0, of p] F(1) by auto
    ultimately show "p \<in> ?s ` E" by (auto simp: E_def)
  qed (auto simp: E_def)
  have N: "item_num t = card E" using card_image [OF inj] img F(2) by simp
  have "E = {e \<in> E. e < d} \<union> {e \<in> E. d \<le> e}" by auto
  moreover have "card ({e \<in> E. e < d} \<union> {e \<in> E. d \<le> e}) = card {e \<in> E. e < d} + card {e \<in> E. d \<le> e}"
    using finE by (intro card_Un_disjoint) auto
  ultimately have split: "card E = c + card {e \<in> E. d \<le> e}" using less.prems(2) by simp
  have ge: "{e \<in> E. d \<le> e} = insert d {e \<in> E. d < e}" using less.prems(1) by auto
  have cge: "card {e \<in> E. d \<le> e} = Suc (card {e \<in> E. d < e})" unfolding ge using finE by simp
  show ?case
  proof (cases "{e \<in> E. d < e} = {}")
    case True
    then have "item_num t \<le> c + 1" using N split cge by (simp only: True card.empty)
    then have "iterator_inc t \<lparr> value_ptr = Some (?s d), iterate_cnt = c \<rparr> = \<lparr> value_ptr = None, iterate_cnt = c + 1 \<rparr>"
      by (simp add: iterator_inc_def)
    then have "fph_visit t \<lparr> value_ptr = Some (?s d), iterate_cnt = c \<rparr> = [?s d]"
      by (simp add: fph_visit.simps)
    then show ?thesis using sorted_list_above [OF finE less.prems(1)] True by simp
  next
    case False
    define d' where "d' = Min {e \<in> E. d < e}"
    have fin': "finite {e \<in> E. d < e}" using finE by simp
    have d': "d' \<in> E" "d < d'" "d' < n" using Min_in [OF fin' False] by (auto simp: d'_def E_def)
    have min: "e \<in> E \<Longrightarrow> d < e \<Longrightarrow> d' \<le> e" for e using fin' by (simp add: d'_def)
    have pos: "0 < card {e \<in> E. d < e}" using False fin' by (simp add: card_gt_0_iff)
    have add: "(?s d + i) mod n = ?s (d + i)" for i by (simp add: mod_add_left_eq add.assoc)
    have ne: "\<not> is_slot_empty t (?s d')" using emp [of "?s d'"] d'(1) n0 by (simp add: E_def)
    have sn: "?s d < n" using n0 by simp
    have dd: "d + (d' - d) = d'" "1 \<le> d' - d" "d' - d \<le> n - 1" using d' by simp_all
    note spec = next_slot_loop_spec [OF sn n, of "n - 1"]
    have nx: "next_slot_loop t (n - 1) (?s d) = Some (?s d')"
    proof (cases "next_slot_loop t (n - 1) (?s d)")
      case None
      then have "is_slot_empty t (?s (d + (d' - d)))" using spec dd(2,3) by (simp only: option.case add)
      then show ?thesis using ne dd(1) by simp
    next
      case (Some q)
      then obtain j where j: "1 \<le> j" "q = ?s (d + j)" "\<not> is_slot_empty t q"
        "\<forall>i. 1 \<le> i \<and> i < j \<longrightarrow> is_slot_empty t (?s (d + i))"
        using spec by (auto simp: add)
      have "\<not> d' - d < j" using j(4) dd(1,2) ne by metis
      then have jl: "d + j \<le> d'" using dd(1) by linarith
      then have "d + j \<in> E" using j(2,3) emp [of q] d'(3) n0 by (simp add: E_def)
      then have "d' \<le> d + j" using min j(1) by simp
      with jl have "d + j = d'" by simp
      with Some j(2) show ?thesis by simp
    qed
    have inc: "iterator_inc t \<lparr> value_ptr = Some (?s d), iterate_cnt = c \<rparr> = \<lparr> value_ptr = Some (?s d'), iterate_cnt = c + 1 \<rparr>"
      using N split cge pos nx by (simp add: iterator_inc_def get_next_slot_address_def n)
    have "{e \<in> E. e < d'} = insert d {e \<in> E. e < d}"
    proof (intro equalityI subsetI)
      fix e assume e: "e \<in> {e \<in> E. e < d'}"
      then have "\<not> d < e" using min [of e] by auto
      then show "e \<in> insert d {e \<in> E. e < d}" using e by auto
    qed (use d' less.prems(1) in auto)
    then have c': "c + 1 = card {e \<in> E. e < d'}" using finE less.prems(2) by simp
    have "fph_visit t \<lparr> value_ptr = Some (?s d'), iterate_cnt = c + 1 \<rparr> = map ?s (sorted_list_of_set {e \<in> E. d' \<le> e})"
      using d' dn by (intro less.hyps c') simp_all
    moreover have "{e \<in> E. d' \<le> e} = {e \<in> E. d < e}" using min d' by auto
    ultimately show ?thesis
      using sorted_list_above [OF finE less.prems(1)] by (subst fph_visit.simps) (simp add: inc)
  qed
qed

text \<open>An iteration that starts at an element visits every element once, wherever it starts.\<close>

lemma visit_all:
  assumes "layout_ok T m b t" "slots_ok T m t" "defaults_ok T t" "item_num t = filled_count t" "p \<in> filled_set t"
  shows "distinct (fph_visit t (iterator_at (Some p)))" and "set (fph_visit t (iterator_at (Some p))) = filled_set t"
proof -
  let ?n = "2 ^ m :: nat" and ?F = "filled_set t"
  let ?E = "{d. d < ?n \<and> (p + d) mod ?n \<in> ?F}"
  have pn: "p < ?n" using filled_bound [OF assms(1,5)] .
  have E0: "0 \<in> ?E" using pn assms(5) by simp
  have c0: "0 = card {e \<in> ?E. e < 0}" by simp
  have "fph_visit t \<lparr> value_ptr = Some ((p + 0) mod ?n), iterate_cnt = 0 \<rparr> =
      map (\<lambda>d. (p + d) mod ?n) (sorted_list_of_set {e \<in> ?E. 0 \<le> e})"
    by (rule visit_rotated [OF is_slot_empty_iff [OF assms(2,3)] layoutD(4) [OF assms(1)] pn _ _ E0 c0])
      (use filled_set_bound [OF layoutD(10) [OF assms(1)]] filled_set_card [OF layoutD(10) [OF assms(1)]] assms(4) in simp_all)
  then have v: "fph_visit t (iterator_at (Some p)) = map (\<lambda>d. (p + d) mod ?n) (sorted_list_of_set ?E)"
    using pn by (simp add: iterator_at_def)
  have fin: "finite ?E" by (rule finite_subset [of _ "{..<?n}"]) auto
  have inj: "inj_on (\<lambda>d. (p + d) mod ?n) ?E" by (rule inj_onI) (auto intro: rotated_inj)
  show "distinct (fph_visit t (iterator_at (Some p)))" using inj fin by (simp add: v distinct_map)
  show "set (fph_visit t (iterator_at (Some p))) = ?F"
  proof -
    have "(\<lambda>d. (p + d) mod ?n) ` ?E = ?F"
    proof (intro equalityI subsetI)
      fix q assume q: "q \<in> ?F"
      obtain e where "e < ?n" "(p + e) mod ?n = q" using rotated_onto [OF pn filled_bound [OF assms(1) q]] by blast
      with q show "q \<in> (\<lambda>d. (p + d) mod ?n) ` ?E" by auto
    qed auto
    then show ?thesis using fin by (simp add: v)
  qed
qed

end

end
