(* ===== verification/Fph_Ops.thy ===== *)
theory Fph_Ops
  imports Fph_Inv
begin

text \<open>
  Lookups, erasure and clearing of the dynamic perfect hash table, against the map it stands for.
\<close>

section \<open>What the invariant does not depend on\<close>

lemma update_buckets_array [simp]:
  "get_slot_pos T (t\<lparr> bucket_array := bs \<rparr>) k = get_slot_pos T t k"
  "get_slot_pos T (t\<lparr> slots := ss \<rparr>) k = get_slot_pos T t k"
  "get_slot_pos T (t\<lparr> item_num := n \<rparr>) k = get_slot_pos T t k"
  "get_slot_pos T (t\<lparr> begin_it := it \<rparr>) k = get_slot_pos T t k"
  "get_slot_pos T (free_slot p t) k = get_slot_pos T t k"
  "get_slot_pos T (fill_slot p t) k = get_slot_pos T t k"
  "complete_get_bucket_index T (t\<lparr> bucket_array := bs \<rparr>) k = complete_get_bucket_index T t k"
  "complete_get_bucket_index T (t\<lparr> slots := ss \<rparr>) k = complete_get_bucket_index T t k"
  "complete_get_bucket_index T (t\<lparr> item_num := n \<rparr>) k = complete_get_bucket_index T t k"
  "complete_get_bucket_index T (t\<lparr> begin_it := it \<rparr>) k = complete_get_bucket_index T t k"
  "complete_get_bucket_index T (free_slot p t) k = complete_get_bucket_index T t k"
  "complete_get_bucket_index T (fill_slot p t) k = complete_get_bucket_index T t k"
  by (simp_all add: get_slot_pos_def get_slot_pos_by_seed0_hash_def complete_get_bucket_index_def get_bucket_index_def
      free_slot_def fill_slot_def Let_def)

lemma update_filled [simp]:
  "filled_set (t\<lparr> bucket_array := bs \<rparr>) = filled_set t" "filled_set (t\<lparr> slots := ss \<rparr>) = filled_set t"
  "filled_set (t\<lparr> item_num := n \<rparr>) = filled_set t" "filled_set (t\<lparr> begin_it := it \<rparr>) = filled_set t"
  "perm_ok n' (t\<lparr> bucket_array := bs \<rparr>) = perm_ok n' t" "perm_ok n' (t\<lparr> slots := ss \<rparr>) = perm_ok n' t"
  "perm_ok n' (t\<lparr> item_num := n \<rparr>) = perm_ok n' t" "perm_ok n' (t\<lparr> begin_it := it \<rparr>) = perm_ok n' t"
  by (simp_all add: filled_set_def is_filled_def perm_ok_def)

lemma update_empty_key [simp]:
  "empty_key (t\<lparr> bucket_array := bs \<rparr>) p = empty_key t p" "empty_key (t\<lparr> slots := ss \<rparr>) p = empty_key t p"
  "empty_key (t\<lparr> item_num := n \<rparr>) p = empty_key t p" "empty_key (t\<lparr> begin_it := it \<rparr>) p = empty_key t p"
  "empty_key (free_slot q t) p = empty_key t p" "empty_key (fill_slot q t) p = empty_key t p"
  by (simp_all add: empty_key_def free_slot_def fill_slot_def Let_def)

lemma update_defaults [simp]:
  "defaults_ok T (t\<lparr> bucket_array := bs \<rparr>) = defaults_ok T t" "defaults_ok T (t\<lparr> slots := ss \<rparr>) = defaults_ok T t"
  "defaults_ok T (t\<lparr> item_num := n \<rparr>) = defaults_ok T t" "defaults_ok T (t\<lparr> begin_it := it \<rparr>) = defaults_ok T t"
  "defaults_ok T (free_slot p t) = defaults_ok T t" "defaults_ok T (fill_slot p t) = defaults_ok T t"
  by (simp_all add: defaults_ok_def) (simp_all add: fill_slot_def free_slot_def Let_def)

lemma slot_swap_fields [simp]:
  "slots (free_slot p t) = slots t" "slots (fill_slot p t) = slots t"
  "bucket_array (free_slot p t) = bucket_array t" "bucket_array (fill_slot p t) = bucket_array t"
  "item_num (free_slot p t) = item_num t" "item_num (fill_slot p t) = item_num t"
  "item_num_ceil (free_slot p t) = item_num_ceil t" "item_num_ceil (fill_slot p t) = item_num_ceil t"
  "default_fill_key (free_slot p t) = default_fill_key t" "second_default_key (free_slot p t) = second_default_key t"
  "default_fill_key_address (free_slot p t) = default_fill_key_address t"
  "filled_count (free_slot p t) = filled_count t - 1" "filled_count (fill_slot p t) = filled_count t + 1"
  by (simp_all add: fill_slot_def free_slot_def Let_def)

lemma update_layout:
  assumes "layout_ok T m b t"
  shows "layout_ok T m b (t\<lparr> bucket_array := bs \<rparr>)" "layout_ok T m b (t\<lparr> item_num := n \<rparr>)"
    "layout_ok T m b (t\<lparr> begin_it := it \<rparr>)" "layout_ok T m b (t\<lparr> slots := (slots t)[p := e] \<rparr>)"
  using assms by (simp_all add: layout_ok_def perm_ok_def)

lemma swap_layout:
  assumes "layout_ok T m b t"
  shows "perm_ok (2 ^ m) (free_slot p t) \<Longrightarrow> layout_ok T m b (free_slot p t)"
    and "perm_ok (2 ^ m) (fill_slot p t) \<Longrightarrow> layout_ok T m b (fill_slot p t)"
  using assms by (simp_all add: layout_ok_def) (simp_all add: fill_slot_def free_slot_def Let_def)

lemma empty_update [simp]:
  "is_slot_empty (t\<lparr> begin_it := it \<rparr>) p = is_slot_empty t p"
  by (simp add: is_slot_empty_def)

context fph_table
begin

text \<open>An element is where its key lives, so no other slot has its key.\<close>

lemma filled_keys_inj:
  assumes "layout_ok T m b t" "slots_ok T m t" "p \<in> filled_set t" "q \<in> filled_set t" "fst (slots t ! p) = fst (slots t ! q)"
  shows "p = q"
proof -
  have "p = get_slot_pos T t (fst (slots t ! p))"
    using filled_key [OF assms(2) filled_bound [OF assms(1,3)] assms(3)] by (rule sym)
  also have "\<dots> = q" unfolding assms(5) by (rule filled_key [OF assms(2) filled_bound [OF assms(1,4)] assms(4)])
  finally show ?thesis .
qed

lemma fph_map_Some:
  assumes "layout_ok T m b t" "slots_ok T m t" "defaults_ok T t"
  shows "fph_map T t k = Some v \<longleftrightarrow> (\<exists>p \<in> filled_set t. slots t ! p = (k, Some v))"
proof
  assume "fph_map T t k = Some v"
  then have k: "fst (slots t ! get_slot_pos T t k) = k" "snd (slots t ! get_slot_pos T t k) = Some v"
    by (auto simp: fph_map_def Let_def split: if_splits)
  then have "slots t ! get_slot_pos T t k = (k, Some v)" by (simp add: prod_eq_iff)
  with found_filled [OF assms k(1)] show "\<exists>p \<in> filled_set t. slots t ! p = (k, Some v)" by blast
next
  assume "\<exists>p \<in> filled_set t. slots t ! p = (k, Some v)"
  then obtain p where p: "p \<in> filled_set t" "slots t ! p = (k, Some v)" by blast
  then show "fph_map T t k = Some v" using fph_map_filled [OF assms(1,2) p(1)] by simp
qed

lemma fph_inv_ok: "fph_inv T t \<Longrightarrow> \<exists>m b. fph_ok T m b t"
  by (simp add: fph_inv_def)

lemma fph_dom:
  assumes "fph_ok T m b t" "\<forall>p \<in> filled_set t. snd (slots t ! p) \<noteq> None"
  shows "fph_map T t k = None \<longleftrightarrow> fst (slots t ! get_slot_pos T t k) \<noteq> k"
  using found_filled [OF fph_okD(1,3,2) [OF assms(1)], of k] assms(2) by (auto simp: fph_map_def Let_def)

section \<open>Erasure\<close>

text \<open>The next element is the next filled slot; there is none when the table has none.\<close>

lemma next_slot_ok:
  assumes "layout_ok T m b t" "slots_ok T m t" "defaults_ok T t" "p < 2 ^ m" "p \<notin> filled_set t"
  shows "case get_next_slot_address t p of None \<Rightarrow> filled_set t = {} | Some q \<Rightarrow> q \<in> filled_set t"
proof -
  let ?n = "2 ^ m :: nat"
  note emp = is_slot_empty_iff [OF assms(2,3)]
  have n: "item_num_ceil t = ?n" by (rule layoutD(4) [OF assms(1)])
  note s = next_slot_loop_spec [OF assms(4) n, of "item_num_ceil t - 1"]
  show ?thesis
  proof (cases "get_next_slot_address t p")
    case None
    then have all: "\<forall>i. 1 \<le> i \<and> i \<le> ?n - 1 \<longrightarrow> is_slot_empty t ((p + i) mod ?n)"
      using s by (simp add: get_next_slot_address_def n)
    have "q \<notin> filled_set t" for q
    proof
      assume q: "q \<in> filled_set t"
      then have qn: "q < ?n" by (rule filled_bound [OF assms(1)])
      obtain d where d: "d < ?n" "(p + d) mod ?n = q" using rotated_onto [OF assms(4) qn] by blast
      have "d \<noteq> 0" using d(2) q assms(4,5) by (cases "d = 0") auto
      then have "is_slot_empty t q" using all d by auto
      then show False using emp [OF qn] q by simp
    qed
    with None show ?thesis by auto
  next
    case (Some q)
    then obtain j where "q = (p + j) mod ?n" "\<not> is_slot_empty t q"
      using s by (auto simp: get_next_slot_address_def n)
    then have "q \<in> filled_set t" using emp [of q] by simp
    with Some show ?thesis by simp
  qed
qed

lemma erase_imp_ok:
  assumes t: "fph_ok T m b t" and p: "p \<in> filled_set t" and e: "erase_imp T t p = (t', it)"
  shows "fph_ok T m b t'" and "filled_set t' = filled_set t - {p}"
    and "slots t' = (slots t)[p := (empty_key t p, None)]"
    and "\<And>k. get_slot_pos T t' k = get_slot_pos T t k"
    and "it = iterator_at (begin_it t')"
proof -
  note d = fph_okD [OF t]
  note l = layoutD [OF d(1)]
  have pn: "p < 2 ^ m" by (rule filled_bound [OF d(1) p])
  define i where "i = complete_get_bucket_index T t (fst (slots t ! p))"
  define bk where "bk = (bucket_array t ! i)\<lparr> key_array := remove1 p (key_array (bucket_array t ! i)),
     entry_cnt := entry_cnt (bucket_array t ! i) - 1 \<rparr>"
  define t1 where "t1 = t\<lparr> bucket_array := (bucket_array t)[i := bk] \<rparr>"
  define t2 where "t2 = free_slot p t1"
  define t3 where "t3 = t2\<lparr> slots := (slots t2)[p := (empty_key t p, None)] \<rparr>"
  define t4 where "t4 = t3\<lparr> item_num := item_num t3 - 1 \<rparr>"
  have key: "(if p \<noteq> get_slot_pos T t2 (default_fill_key t2) then default_fill_key t2 else second_default_key t2) = empty_key t p"
    using d(2) by (simp add: t2_def t1_def empty_key_def defaults_ok_def)
  have t': "t' = t4\<lparr> begin_it := get_next_slot_address t4 p \<rparr>" "it = iterator_at (get_next_slot_address t4 p)"
    using e key unfolding erase_imp_def Let_def i_def [symmetric]
    by (auto simp: t4_def t3_def t2_def t1_def bk_def empty_key_def)
  have ib: "i < 2 ^ b" unfolding i_def by (rule bucket_index_bound [OF l(6)])
  have p1: "perm_ok (2 ^ m) t1" "filled_set t1 = filled_set t" using l(10) by (simp_all add: t1_def)
  note f = free_slot_ok [OF p1(1), of p, unfolded p1(2), OF p]
  have pos: "get_slot_pos T t4 k = get_slot_pos T t k" "complete_get_bucket_index T t4 k = complete_get_bucket_index T t k" for k
    by (simp_all add: t4_def t3_def t2_def t1_def)
  have F: "filled_set t4 = filled_set t - {p}" using f(2) by (simp add: t4_def t3_def t2_def)
  have sl: "slots t4 = (slots t)[p := (empty_key t p, None)]" by (simp add: t4_def t3_def t2_def t1_def)
  have ba: "bucket_array t4 = (bucket_array t)[i := bk]" by (simp add: t4_def t3_def t2_def t1_def)
  have ek: "empty_key t4 q = empty_key t q" for q by (simp add: t4_def t3_def t2_def t1_def)
  have nth: "slots t4 ! q = (if q = p then (empty_key t p, None) else slots t ! q)" if "q < 2 ^ m" for q
    using l(5) that unfolding sl by (simp add: nth_list_update)
  have L: "layout_ok T m b t4"
    unfolding t4_def t3_def t2_def
    by (intro update_layout swap_layout f(1)) (simp add: t1_def update_layout [OF d(1)])
  have D: "defaults_ok T t4" using d(2) by (simp add: t4_def t3_def t2_def t1_def)
  have S: "slots_ok T m t4" unfolding slots_ok_def F pos ek
    using filled_key [OF d(3)] empty_slot [OF d(3)] nth by simp
  have B: "buckets_ok T b t4"
    unfolding buckets_ok_def
  proof (intro conjI allI impI)
    show "length (bucket_array t4) = 2 ^ b" using d(4) by (simp add: ba buckets_ok_def)
    fix j assume j: "j < (2::nat) ^ b"
    have o: "bucket_idx (bucket_array t ! j) = j" "entry_cnt (bucket_array t ! j) = length (key_array (bucket_array t ! j))"
      "distinct (key_array (bucket_array t ! j))" "set (key_array (bucket_array t ! j)) =
        {q \<in> filled_set t. complete_get_bucket_index T t (fst (slots t ! q)) = j}" "length (bucket_array t) = 2 ^ b"
      using d(4) j by (auto simp: buckets_ok_def)
    have bj: "bucket_array t4 ! j = (if j = i then bk else bucket_array t ! j)"
      using o(5) j by (auto simp: ba nth_list_update)
    have mem: "i = j \<Longrightarrow> p \<in> set (key_array (bucket_array t ! j))" using o(4) p by (simp add: i_def)
    have set4: "{q \<in> filled_set t4. complete_get_bucket_index T t4 (fst (slots t4 ! q)) = j} =
        {q \<in> filled_set t. complete_get_bucket_index T t (fst (slots t ! q)) = j} - {p}"
      unfolding F pos using nth filled_bound [OF d(1)] by auto
    show "bucket_idx (bucket_array t4 ! j) = j" unfolding bj using o(1) by (cases "j = i") (simp_all add: bk_def)
    show "entry_cnt (bucket_array t4 ! j) = length (key_array (bucket_array t4 ! j))"
      unfolding bj using o(2) mem by (cases "j = i") (simp_all add: bk_def length_remove1)
    show "distinct (key_array (bucket_array t4 ! j))" unfolding bj using o(3) by (cases "j = i") (simp_all add: bk_def)
    have "i \<noteq> j \<Longrightarrow> p \<notin> set (key_array (bucket_array t ! j))" using o(4) by (simp add: i_def)
    then show "set (key_array (bucket_array t4 ! j)) = {q \<in> filled_set t4. complete_get_bucket_index T t4 (fst (slots t4 ! q)) = j}"
      unfolding set4 o(4) [symmetric] bj using o(3) by (cases "j = i") (auto simp: bk_def)
  qed
  have N: "item_num t4 = filled_count t4"
    using d(5) f(3) by (simp add: t4_def t3_def t2_def t1_def counts_ok_def)
  have nx: "case get_next_slot_address t4 p of None \<Rightarrow> filled_set t4 = {} | Some q \<Rightarrow> q \<in> filled_set t4"
    by (rule next_slot_ok [OF L S D pn]) (simp add: F)
  have C: "counts_ok t'"
    using nx N filled_set_card [OF layoutD(10) [OF L]] unfolding t'(1) counts_ok_def
    by (auto split: option.splits)
  show "fph_ok T m b t'" unfolding fph_ok_def
    using L D S B C by (auto simp: t'(1) slots_ok_def buckets_ok_def update_layout)
  show "filled_set t' = filled_set t - {p}" "slots t' = (slots t)[p := (empty_key t p, None)]"
    "get_slot_pos T t' k = get_slot_pos T t k" "it = iterator_at (begin_it t')" for k
    using F sl pos by (simp_all add: t')
qed

text \<open>Erasing removes the key, and nothing else, from the map.\<close>

lemma erase_imp_map:
  assumes t: "fph_ok T m b t" and p: "p \<in> filled_set t" and e: "erase_imp T t p = (t', it)"
  shows "fph_map T t' = (fph_map T t)(fst (slots t ! p) := None)"
proof (rule ext)
  fix k
  note d = fph_okD [OF t]
  note s = erase_imp_ok [OF t p e]
  have pn: "p < 2 ^ m" by (rule filled_bound [OF d(1) p])
  have len: "length (slots t) = 2 ^ m" by (rule layoutD(5) [OF d(1)])
  have kp: "get_slot_pos T t (fst (slots t ! p)) = p" by (rule filled_key [OF d(3) pn p])
  have ek: "get_slot_pos T t (empty_key t p) \<noteq> p" by (rule empty_key_elsewhere [OF d(2)])
  show "fph_map T t' k = ((fph_map T t)(fst (slots t ! p) := None)) k"
  proof (cases "get_slot_pos T t k = p")
    case True
    then have "k \<noteq> empty_key t p" using ek by auto
    then have "fph_map T t' k = None" using True pn len by (simp add: fph_map_def Let_def s(3,4))
    moreover have "fph_map T t k = None" if "k \<noteq> fst (slots t ! p)"
      using that True by (auto simp: fph_map_def Let_def)
    ultimately show ?thesis by auto
  next
    case False
    then have "k \<noteq> fst (slots t ! p)" using kp by auto
    then show ?thesis using False by (simp add: fph_map_def Let_def s(3,4))
  qed
qed

lemma erase_key_ok:
  assumes t: "fph_ok T m b t" and v: "\<forall>p \<in> filled_set t. snd (slots t ! p) \<noteq> None" and e: "erase_key T t k = (t', n)"
  shows "fph_ok T m b t' \<and> fph_map T t' = (fph_map T t)(k := None) \<and> n = (if fph_map T t k = None then 0 else 1) \<and>
    (\<forall>p \<in> filled_set t'. snd (slots t' ! p) \<noteq> None)"
proof (cases "fph_map T t k = None")
  case True
  then have "t' = t" "n = 0" using e fph_dom [OF t v, of k] by (simp_all add: erase_key_def Let_def)
  then show ?thesis using True t v by auto
next
  case False
  let ?p = "get_slot_pos T t k"
  have k: "fst (slots t ! ?p) = k" using False fph_dom [OF t v, of k] by simp
  have p: "?p \<in> filled_set t" by (rule found_filled [OF fph_okD(1,3,2) [OF t] k])
  obtain t1 it where t1: "erase_imp T t ?p = (t1, it)" by (metis surj_pair)
  then have "t' = t1" "n = 1" using e k by (simp_all add: erase_key_def Let_def)
  moreover have "snd (slots t1 ! q) \<noteq> None" if "q \<in> filled_set t1" for q
    using that v erase_imp_ok(2,3) [OF t p t1] by (auto simp: nth_list_update)
  ultimately show ?thesis using erase_imp_ok(1) [OF t p t1] erase_imp_map [OF t p t1] k False by auto
qed

section \<open>Clearing\<close>

lemma clear_ok:
  assumes t: "fph_ok T m b t"
  shows "fph_ok T m b (fph_clear T t)" and "filled_set (fph_clear T t) = {}" and "fph_map T (fph_clear T t) = Map.empty"
    and "item_num (fph_clear T t) = 0"
proof -
  note d = fph_okD [OF t]
  note l = layoutD [OF d(1)]
  let ?n = "2 ^ m :: nat"
  let ?c = "fph_clear T t"
  have r: "?n < 2 ^ 64" "2 \<le> ?n" "?n \<le> 2 ^ 63"
  proof -
    have "(2::nat) ^ m \<le> 2 ^ 31" by (rule power_increasing) (use l(3) in simp_all)
    moreover have "(2::nat) ^ 1 \<le> 2 ^ m" by (rule power_increasing) (use l(2) in simp_all)
    ultimately show "?n < 2 ^ 64" "2 \<le> ?n" "?n \<le> 2 ^ 63" by simp_all
  qed
  have u: "unat (of_nat ?n :: u64) = ?n" using r(1) by (intro unat_of_nat_small) simp
  have "policy_ok (policy_for T (of_nat ?n)) (log2_up ?n)"
    using policy_ok_for [of "of_nat ?n"] r u by simp
  then have pol: "policy_for T (of_nat ?n) = slot_policy t"
    using policy_ok_unique [OF _ l(1)] log2_up_pow2 [of m] l(2) by simp
  let ?a = "get_slot_pos T t (default_fill_key t)"
  have cl: "?c = t\<lparr> item_num := 0, begin_it := None,
      slots := (replicate ?n (default_fill_key t, None))[?a := (second_default_key t, None)],
      default_fill_key_bucket_index := complete_get_bucket_index T t (default_fill_key t),
      default_fill_key_address := ?a, filled_count := 0,
      bucket_array := map (\<lambda>b. b\<lparr> key_array := [], entry_cnt := 0 \<rparr>) (bucket_array t) \<rparr>"
    by (simp add: fph_clear_def Let_def l(4) pol [simplified] get_slot_pos_def get_slot_pos_by_seed0_hash_def
        complete_get_bucket_index_def get_bucket_index_def)
  have pos: "get_slot_pos T ?c k = get_slot_pos T t k" "complete_get_bucket_index T ?c k = complete_get_bucket_index T t k" for k
    unfolding cl by (simp_all add: get_slot_pos_def get_slot_pos_by_seed0_hash_def
        complete_get_bucket_index_def get_bucket_index_def)
  show F: "filled_set ?c = {}" by (simp add: cl filled_set_def is_filled_def)
  have L: "layout_ok T m b ?c" using l by (simp add: cl layout_ok_def perm_ok_def)
  have D: "defaults_ok T ?c" using d(2) unfolding defaults_ok_def pos by (simp add: cl)
  have an: "?a < ?n" by (rule slot_pos_bound [OF l(1)])
  have S: "slots_ok T m ?c"
    unfolding slots_ok_def F using an by (simp add: cl empty_key_def nth_list_update)
  have B: "buckets_ok T b ?c" using d(4) unfolding buckets_ok_def F by (simp add: cl)
  have C: "counts_ok ?c" by (simp add: counts_ok_def cl)
  show "fph_ok T m b ?c" using L D S B C by (simp add: fph_ok_def)
  show "item_num ?c = 0" by (simp add: cl)
  show "fph_map T ?c = Map.empty"
  proof (rule ext)
    fix k
    have "fst (slots ?c ! get_slot_pos T ?c k) \<noteq> k"
      using found_iff [OF L S D, of k] F by simp
    then show "fph_map T ?c k = Map.empty k" by (simp add: fph_map_def Let_def)
  qed
qed

section \<open>Lookups\<close>

lemma find_ok:
  assumes t: "fph_ok T m b t" and v: "\<forall>p \<in> filled_set t. snd (slots t ! p) \<noteq> None"
  shows "case fph_map T t k of
      None \<Rightarrow> fph_find T t k = fph_end \<and> \<not> fph_contains T t k \<and> fph_count T t k = 0 \<and> fph_at T t k = Inl OutOfRange \<and>
        fph_equal_range T t k = (fph_end, fph_end)
    | Some x \<Rightarrow> fph_contains T t k \<and> fph_count T t k = 1 \<and> fph_at T t k = Inr (Some x) \<and>
        (\<exists>p \<in> filled_set t. slots t ! p = (k, Some x) \<and> fph_find T t k = iterator_at (Some p) \<and> get_pointer_no_check T t k = p \<and>
           fph_equal_range T t k = (iterator_at (Some p), iterator_inc t (iterator_at (Some p))))"
proof (cases "fph_map T t k")
  case None
  then have "fst (slots t ! get_slot_pos T t k) \<noteq> k" using fph_dom [OF t v] by simp
  then show ?thesis unfolding None option.case
    by (simp add: fph_find_def fph_contains_def fph_count_def fph_at_def fph_equal_range_def get_pointer_no_check_def
        Let_def fph_end_def)
next
  case (Some x)
  let ?p = "get_slot_pos T t k"
  have s: "fst (slots t ! ?p) = k" "snd (slots t ! ?p) = Some x"
    using Some by (auto simp: fph_map_def Let_def split: if_splits)
  have p: "?p \<in> filled_set t" by (rule found_filled [OF fph_okD(1,3,2) [OF t] s(1)])
  have "slots t ! ?p = (k, Some x)" using s by (simp add: prod_eq_iff)
  moreover have "fph_find T t k = iterator_at (Some ?p)" using s(1) by (simp add: fph_find_def Let_def)
  ultimately have "\<exists>p \<in> filled_set t. slots t ! p = (k, Some x) \<and> fph_find T t k = iterator_at (Some p) \<and>
      get_pointer_no_check T t k = p \<and> fph_equal_range T t k = (iterator_at (Some p), iterator_inc t (iterator_at (Some p)))"
    using p by (intro bexI [of _ ?p]) (simp_all add: get_pointer_no_check_def fph_equal_range_def iterator_at_def Let_def)
  then show ?thesis using s unfolding Some option.case
    by (simp add: fph_contains_def fph_count_def fph_at_def get_pointer_no_check_def Let_def)
qed

text \<open>Iteration visits the elements of the map, each once.\<close>

lemma visit_begin:
  assumes "layout_ok T m b t" "slots_ok T m t" "defaults_ok T t" "counts_ok t"
  shows "distinct (fph_visit t (fph_begin t)) \<and> set (fph_visit t (fph_begin t)) = filled_set t"
proof (cases "begin_it t")
  case None
  then have "item_num t = 0" "item_num t = filled_count t" using assms(4) by (simp_all add: counts_ok_def)
  then have "card (filled_set t) = 0" using filled_set_card [OF layoutD(10) [OF assms(1)]] by simp
  then have "filled_set t = {}" by simp
  then show ?thesis using None by (simp add: fph_begin_def fph_visit.simps)
next
  case (Some p)
  then have "p \<in> filled_set t" "item_num t = filled_count t" using assms(4) by (simp_all add: counts_ok_def)
  then show ?thesis using visit_all [OF assms(1-3)] Some by (simp add: fph_begin_def iterator_at_def)
qed

lemma iterate_ok:
  assumes t: "fph_ok T m b t" and v: "\<forall>p \<in> filled_set t. snd (slots t ! p) \<noteq> None"
  defines "es \<equiv> map (\<lambda>p. slots t ! p) (fph_visit t (fph_begin t))"
  shows "distinct (map fst es)" and "map_of es = (\<lambda>k. map_option Some (fph_map T t k))" and "length es = fph_size t"
proof -
  note d = fph_okD [OF t]
  note ps = visit_begin [OF d(1,3,2,5)]
  have inj: "inj_on (\<lambda>p. fst (slots t ! p)) (filled_set t)"
    by (rule inj_onI) (rule filled_keys_inj [OF d(1,3)])
  show dist: "distinct (map fst es)" using ps inj by (simp add: es_def distinct_map comp_def inj_on_def)
  show "length es = fph_size t"
    using ps distinct_card [of "fph_visit t (fph_begin t)"] filled_set_card [OF layoutD(10) [OF d(1)]] d(5)
    by (simp add: es_def fph_size_def counts_ok_def)
  show "map_of es = (\<lambda>k. map_option Some (fph_map T t k))"
  proof (rule ext)
    fix k
    have mem: "(k, w) \<in> set es \<longleftrightarrow> (\<exists>p \<in> filled_set t. slots t ! p = (k, w))" for w
      using ps by (force simp: es_def)
    show "map_of es k = map_option Some (fph_map T t k)"
    proof (cases "fph_map T t k")
      case (Some x)
      then have "(k, Some x) \<in> set es" using fph_map_Some [OF d(1,3,2)] mem by simp
      then show ?thesis using dist Some by simp
    next
      case None
      have "k \<notin> fst ` set es"
      proof
        assume "k \<in> fst ` set es"
        then obtain w where "(k, w) \<in> set es" by auto
        then obtain p where p: "p \<in> filled_set t" "slots t ! p = (k, w)" using mem by blast
        then show False using fph_map_filled [OF d(1,3) p(1)] v None by auto
      qed
      then show ?thesis using None by (simp add: map_of_eq_None_iff)
    qed
  qed
qed

lemma max_load_ok:
  assumes "fph_ok T m b t"
  shows "fph_ok T m b (set_max_load_factor ml t)"
proof -
  let ?t = "set_max_load_factor ml t"
  have pos: "get_slot_pos T ?t k = get_slot_pos T t k" "complete_get_bucket_index T ?t k = complete_get_bucket_index T t k"
    "filled_set ?t = filled_set t" "empty_key ?t p = empty_key t p" for k p
    by (simp_all add: set_max_load_factor_def get_slot_pos_def get_slot_pos_by_seed0_hash_def filled_set_def is_filled_def
        complete_get_bucket_index_def get_bucket_index_def empty_key_def)
  note d = fph_okD [OF assms]
  have "layout_ok T m b ?t" using d(1) by (simp add: set_max_load_factor_def layout_ok_def perm_ok_def)
  moreover have "defaults_ok T ?t" using d(2) unfolding defaults_ok_def pos by (simp add: set_max_load_factor_def)
  moreover have "slots_ok T m ?t" using d(3) unfolding slots_ok_def pos by (simp add: set_max_load_factor_def)
  moreover have "buckets_ok T b ?t" using d(4) unfolding buckets_ok_def pos by (simp add: set_max_load_factor_def)
  moreover have "counts_ok ?t" using d(5) unfolding counts_ok_def pos
    by (auto simp: set_max_load_factor_def split: option.splits)
  ultimately show ?thesis by (simp add: fph_ok_def)
qed

end

end
