(* ===== verification/Fph_Rebuild.thy ===== *)
theory Fph_Rebuild
  imports Fph_Ops
begin

text \<open>
  Building the table establishes the invariant: the sizes are powers of two within the limits, every
  element is where its key lives, the default keys fill the other slots, and the buckets list the
  elements. The map of the table is that of the elements.
\<close>

section \<open>Sizes\<close>

lemma pow2_range:
  assumes "1 \<le> m" "m \<le> (62 :: nat)"
  shows "(2::nat) \<le> 2 ^ m" and "(2::nat) ^ m \<le> 2 ^ 63" and "unat (of_nat (2 ^ m) :: u64) = 2 ^ m"
proof -
  have "(2::nat) ^ 1 \<le> 2 ^ m" by (rule power_increasing) (use assms in simp_all)
  then show "(2::nat) \<le> 2 ^ m" by simp
  have le: "(2::nat) ^ m \<le> 2 ^ 62" by (rule power_increasing) (use assms in simp_all)
  then show "(2::nat) ^ m \<le> 2 ^ 63" by simp
  have "(2::nat) ^ m < 2 ^ LENGTH(64)" using le by simp
  then show "unat (of_nat (2 ^ m) :: u64) = 2 ^ m" by (rule unat_of_nat_small)
qed

lemma wanted_buckets_le: "wanted_buckets n \<le> 2 * n"
proof -
  have "1 \<le> ceil_log2_plus_1 n" by (simp add: ceil_log2_plus_1_def)
  then have "wanted_buckets n * ceil_log2_plus_1 n \<le> 2 * n + ceil_log2_plus_1 n - 1"
    unfolding wanted_buckets_def by (metis div_times_less_eq_dividend)
  show ?thesis
  proof (cases "n = 0")
    case False
    let ?c = "ceil_log2_plus_1 n"
    have c: "1 \<le> ?c" by (simp add: ceil_log2_plus_1_def)
    have "2 * n + ?c - 1 \<le> 2 * n * ?c"
    proof -
      have "(2 * n - 1) * 1 \<le> (2 * n - 1) * ?c" using c by (intro mult_le_mono2) simp
      then show ?thesis using False by (simp add: algebra_simps diff_mult_distrib)
    qed
    then have "(2 * n + ?c - 1) div ?c \<le> (2 * n * ?c) div ?c" by (rule div_le_mono)
    then show ?thesis using c by (simp add: wanted_buckets_def)
  qed (simp add: wanted_buckets_def ceil_log2_plus_1_def)
qed

lemma ceil2_size_ok:
  assumes "n \<le> 2 ^ 33"
  shows "\<exists>b. 1 \<le> b \<and> b \<le> 33 \<and> (if ceil2_size n \<le> 1 then 2 else ceil2_size n) = 2 ^ b"
proof -
  have u: "unat (of_nat n :: u64) = n" using assms by (intro unat_of_nat_small) simp
  have c: "ceil2_size n = 2 ^ log2_up n"
    unfolding ceil2_size_def using unat_ceil2 [of "of_nat n :: u64"] u assms by simp
  show ?thesis
  proof (cases "ceil2_size n \<le> 1")
    case False
    have "1 \<le> log2_up n" using False by (cases "log2_up n = 0") (auto simp: c)
    moreover have "log2_up n \<le> 33" using log2_up_le [OF assms] by simp
    ultimately show ?thesis using False c by auto
  qed (auto intro: exI [of _ 1])
qed

text \<open>The second default key comes from the key generator.\<close>

definition second_generated :: "('p, 'k, 'r, 'g) fph_types \<Rightarrow> ('p, 'k, 'v, 'g) fph \<Rightarrow> bool" where
  "second_generated T t \<longleftrightarrow> second_default_key t \<in> range (\<lambda>g. fst (next_key T g))"

context fph_table
begin

lemma policy_pow2:
  assumes "1 \<le> m" "m \<le> 62"
  shows "policy_ok (policy_for T (of_nat (2 ^ m))) m"
  using policy_ok_for [of "of_nat (2 ^ m)"] log2_up_pow2 [OF assms(1)] pow2_range [OF assms] by simp

text \<open>A number of slots within the limits.\<close>

lemma clipped_policy:
  assumes "8 \<le> n" "n \<le> 2 ^ 31"
  shows "policy_ok (policy_for T (of_nat n)) (log2_up n)" and "3 \<le> log2_up n" and "log2_up n \<le> 31"
proof -
  have "unat (of_nat n :: u64) = n" by (intro unat_of_nat_small le_less_trans [OF assms(2)]) simp
  then show "policy_ok (policy_for T (of_nat n)) (log2_up n)"
    using policy_ok_for [of "of_nat n"] assms by simp
  show "log2_up n \<le> 31" using log2_up_le [OF assms(2)] by simp
  show "3 \<le> log2_up n"
  proof (rule ccontr)
    assume "\<not> 3 \<le> log2_up n"
    then have "(2::nat) ^ log2_up n \<le> 2 ^ 2" by (intro power_increasing) simp_all
    then show False using log2_up_bounds(1) [of n] assms(1) by simp
  qed
qed

text \<open>The slot policy that is chosen is one for at least 8 and at most \<open>2^31\<close> slots.\<close>

lemma set_slot_policy_ok:
  fixes t :: "('p, 'k, 'v, 'g) fph"
  assumes "is_rehash \<Longrightarrow> policy_ok (slot_policy t) m0 \<and> 3 \<le> m0 \<and> m0 \<le> 31"
  shows "\<exists>m. policy_ok (slot_policy (set_slot_policy T is_rehash n t)) m \<and> 3 \<le> m \<and> m \<le> 31 \<and> (is_rehash \<longrightarrow> m = m0)"
proof (cases "n = 0")
  case True
  have "policy_ok (policy_for T (of_nat DEFAULT_INIT_ITEM_NUM_CEIL)) 3"
    using policy_pow2 [of 3] by (simp add: DEFAULT_INIT_ITEM_NUM_CEIL_def)
  then show ?thesis using True assms by (cases is_rehash) (auto simp: set_slot_policy_def)
next
  case False
  define s where "s = (\<lambda>p. min (max (unat (slot_num T p)) DEFAULT_INIT_ITEM_NUM_CEIL) MAX_ITEM_NUM_CEIL_LIMIT)"
  have b: "8 \<le> s p" "s p \<le> 2 ^ 31" for p
    by (simp_all add: s_def DEFAULT_INIT_ITEM_NUM_CEIL_def MAX_ITEM_NUM_CEIL_LIMIT_def bucket_param_type_num_bits_def)
  note pol = clipped_policy [OF b]
  obtain p where p: "slot_policy (set_slot_policy T is_rehash n t) = policy_for T (of_nat (s p))"
    and r: "is_rehash \<Longrightarrow> p = slot_policy t"
    using False by (cases is_rehash) (auto simp: set_slot_policy_def Let_def s_def)
  have "is_rehash \<longrightarrow> log2_up (s p) = m0"
  proof
    assume is_rehash
    then have m0: "policy_ok p m0" "3 \<le> m0" "m0 \<le> 31" using assms r by simp_all
    have "(2::nat) ^ 3 \<le> 2 ^ m0" "(2::nat) ^ m0 \<le> 2 ^ 31" using m0 by (simp_all only: power_increasing_iff)
    then have "s p = 2 ^ m0"
      using policy_slot_num [OF m0(1)]
      by (simp add: s_def DEFAULT_INIT_ITEM_NUM_CEIL_def MAX_ITEM_NUM_CEIL_LIMIT_def bucket_param_type_num_bits_def)
    then show "log2_up (s p) = m0" using log2_up_pow2 [of m0] m0 by simp
  qed
  then show ?thesis using pol unfolding p by blast
qed

lemma set_buckets_ok:
  fixes t :: "('p, 'k, 'v, 'g) fph" and is_rehash called_by_rehash
  assumes "n \<le> item_num_ceil t" "item_num_ceil t \<le> 2 ^ 31" "length (bucket_p t) = bucket_capacity t"
  defines "t' \<equiv> set_buckets T is_rehash called_by_rehash n t"
  shows "\<exists>b. policy_ok (bucket_policy t') b \<and> bucket_num t' = 2 ^ b" and "bucket_num t' \<le> length (bucket_p t')"
    and "length (bucket_p t') = bucket_capacity t'"
proof -
  define w where "w = wanted_buckets (if 0 < n \<and> \<not> is_rehash then n else item_num_ceil t)"
  have "w \<le> 2 * 2 ^ 31" using wanted_buckets_le [of n] wanted_buckets_le [of "item_num_ceil t"] assms(1,2)
    by (auto simp: w_def)
  then obtain b where b: "1 \<le> b" "b \<le> 33" "(if ceil2_size w \<le> 1 then 2 else ceil2_size w) = 2 ^ b"
    using ceil2_size_ok [of w] by auto
  have "bucket_num t' = (if ceil2_size w \<le> 1 then 2 else ceil2_size w)"
    by (simp add: t'_def set_buckets_def Let_def w_def [symmetric])
  moreover have "bucket_policy t' = policy_for T (of_nat (bucket_num t'))"
    by (simp add: t'_def set_buckets_def Let_def)
  ultimately have n: "bucket_num t' = 2 ^ b" "bucket_policy t' = policy_for T (of_nat (2 ^ b))"
    unfolding b(3) by simp_all
  then show "\<exists>b. policy_ok (bucket_policy t') b \<and> bucket_num t' = 2 ^ b" using policy_pow2 [of b] b by auto
  show l: "length (bucket_p t') = bucket_capacity t'"
    using assms(3) by (auto simp: t'_def set_buckets_def Let_def)
  show "bucket_num t' \<le> length (bucket_p t')" unfolding l by (auto simp: t'_def set_buckets_def Let_def)
qed

section \<open>Filling the slots\<close>

lemma draw_fill_key_ok:
  "draw_fill_key T t pos n fill_key gen = Some (k, g) \<Longrightarrow> get_slot_pos T t k \<noteq> pos"
  by (induction n arbitrary: fill_key gen) (auto split: if_splits prod.splits)

lemma fill_default_keys_ok:
  assumes "fill_default_keys T n t = Some t'"
  shows "\<exists>g dk fk. t' = t\<lparr> key_gen := g, default_fill_key := dk, second_default_key := fk,
      slots := (replicate (item_num_ceil t) (dk, None))[get_slot_pos T t dk := (fk, None)],
      default_fill_key_address := get_slot_pos T t dk,
      default_fill_key_bucket_index := complete_get_bucket_index T t dk \<rparr> \<and>
    get_slot_pos T t fk \<noteq> get_slot_pos T t dk"
proof -
  obtain dk g1 where dk: "next_key T (key_gen t) = (dk, g1)" by (metis surj_pair)
  obtain fk1 g2 where fk1: "next_key T g1 = (fk1, g2)" by (metis surj_pair)
  let ?t = "t\<lparr> slots := replicate (item_num_ceil t) (dk, None) \<rparr>"
  obtain fk g where fk: "draw_fill_key T ?t (get_slot_pos T ?t dk) (Suc n) fk1 g2 = Some (fk, g)"
    and t': "t' = ?t\<lparr> key_gen := g, default_fill_key := dk, second_default_key := fk,
      slots := (slots ?t)[get_slot_pos T ?t dk := (fk, None)],
      default_fill_key_address := get_slot_pos T ?t dk,
      default_fill_key_bucket_index := complete_get_bucket_index T ?t dk \<rparr>"
    using assms unfolding fill_default_keys_def Let_def dk fk1 prod.case by (auto simp del: draw_fill_key.simps)
  have "get_slot_pos T t fk \<noteq> get_slot_pos T t dk" using draw_fill_key_ok [OF fk] by simp
  then show ?thesis unfolding t' by (intro exI [of _ g] exI [of _ dk] exI [of _ fk]) simp
qed

lemma construct_pairs_ok:
  assumes "distinct (map (\<lambda>e. get_slot_pos T t (fst e)) es)" "\<forall>e \<in> set es. get_slot_pos T t (fst e) < length (slots t)"
  shows "\<exists>ss. construct_pairs T t es = t\<lparr> slots := ss \<rparr> \<and> length ss = length (slots t) \<and>
    (\<forall>q. q \<notin> (\<lambda>e. get_slot_pos T t (fst e)) ` set es \<longrightarrow> ss ! q = slots t ! q) \<and>
    (\<forall>e \<in> set es. ss ! get_slot_pos T t (fst e) = e)"
  using assms
proof (induction es arbitrary: t)
  case (Cons e es)
  let ?t = "t\<lparr> slots := (slots t)[get_slot_pos T t (fst e) := e] \<rparr>"
  have step: "construct_pairs T t (e # es) = construct_pairs T ?t es" by (cases e) simp
  have "\<exists>ss. construct_pairs T ?t es = ?t\<lparr> slots := ss \<rparr> \<and> length ss = length (slots ?t) \<and>
    (\<forall>q. q \<notin> (\<lambda>e. get_slot_pos T ?t (fst e)) ` set es \<longrightarrow> ss ! q = slots ?t ! q) \<and>
    (\<forall>e \<in> set es. ss ! get_slot_pos T ?t (fst e) = e)"
    using Cons.prems by (intro Cons.IH) simp_all
  then obtain ss where ss: "construct_pairs T ?t es = ?t\<lparr> slots := ss \<rparr>" "length ss = length (slots t)"
    "\<And>q. q \<notin> (\<lambda>e. get_slot_pos T t (fst e)) ` set es \<Longrightarrow> ss ! q = slots ?t ! q"
    "\<And>e. e \<in> set es \<Longrightarrow> ss ! get_slot_pos T t (fst e) = e" by auto
  have e: "ss ! get_slot_pos T t (fst e) = e" using ss(3) [of "get_slot_pos T t (fst e)"] Cons.prems by simp
  show ?case unfolding step ss(1)
    by (rule exI [of _ ss]) (use ss e in auto)
next
  case Nil
  show ?case by (rule exI [of _ "slots t"]) simp
qed

lemma register_keys_nth:
  assumes "\<forall>p \<in> set ps. complete_get_bucket_index T t (fst (slots t ! p)) < length bs"
  shows "length (register_keys T t ps bs) = length bs \<and> (\<forall>i < length bs. register_keys T t ps bs ! i =
    (bs ! i)\<lparr> key_array := key_array (bs ! i) @ filter (\<lambda>p. complete_get_bucket_index T t (fst (slots t ! p)) = i) ps \<rparr>)"
  using assms
proof (induction ps arbitrary: bs)
  case (Cons p ps)
  let ?i = "complete_get_bucket_index T t (fst (slots t ! p))"
  let ?bs = "bs[?i := (bs ! ?i)\<lparr> key_array := key_array (bs ! ?i) @ [p] \<rparr>]"
  have step: "register_keys T t (p # ps) bs = register_keys T t ps ?bs" by (simp add: Let_def)
  have IH: "length (register_keys T t ps ?bs) = length ?bs \<and> (\<forall>i < length ?bs. register_keys T t ps ?bs ! i =
    (?bs ! i)\<lparr> key_array := key_array (?bs ! i) @ filter (\<lambda>p. complete_get_bucket_index T t (fst (slots t ! p)) = i) ps \<rparr>)"
    using Cons.prems by (intro Cons.IH) simp
  show ?case
  proof (intro conjI allI impI)
    show "length (register_keys T t (p # ps) bs) = length bs" using IH unfolding step by simp
    fix i assume i: "i < length bs"
    then have "i < length ?bs" by simp
    then have "register_keys T t ps ?bs ! i =
      (?bs ! i)\<lparr> key_array := key_array (?bs ! i) @ filter (\<lambda>p. complete_get_bucket_index T t (fst (slots t ! p)) = i) ps \<rparr>"
      using IH by blast
    then show "register_keys T t (p # ps) bs ! i =
      (bs ! i)\<lparr> key_array := key_array (bs ! i) @ filter (\<lambda>p. complete_get_bucket_index T t (fst (slots t ! p)) = i) (p # ps) \<rparr>"
      using i unfolding step by (cases "i = ?i") simp_all
  qed
qed simp

section \<open>Building\<close>

lemma build_steps:
  fixes t :: "('p, 'k, 'v, 'g) fph"
  assumes "build_imp T L is_rehash called_by_rehash es seed t = Inr t'"
  defines "t0 \<equiv> set_buckets T is_rehash called_by_rehash (length es)
      (set_slot_count T called_by_rehash (set_slot_policy T is_rehash (length es) (t\<lparr> item_num := length es \<rparr>)))"
  shows "\<exists>t1 t2 t3 bs r. length es \<le> item_num_ceil t0 \<and>
    try_seed0 T (map fst es) (max_try_seed1_time L) (max_try_seed2_time L) (max_reseed2_time L)
      (max_try_seed0_time L) t0 (seed_engine T seed) = (Some bs, t1, r) \<and>
    fill_default_keys T (max_fill_key_time L) t1 = Some t2 \<and>
    t3 = (construct_pairs T t2 es)\<lparr> begin_it := (if 0 < item_num (construct_pairs T t2 es)
      then Some (random_table (construct_pairs T t2 es) ! 0) else None) \<rparr> \<and>
    t' = t3\<lparr> bucket_array := register_keys T t3 (fph_visit t3 (fph_begin t3))
      (map (\<lambda>b. \<lparr> entry_cnt = entry_cnt b, bucket_idx = bucket_idx b, key_array = [] \<rparr>) bs) \<rparr>"
proof -
  let ?s = "set_slot_count T called_by_rehash (set_slot_policy T is_rehash (length es) (t\<lparr> item_num := length es \<rparr>))"
  obtain found t1 r where s: "try_seed0 T (map fst es) (max_try_seed1_time L) (max_try_seed2_time L) (max_reseed2_time L)
      (max_try_seed0_time L) t0 (seed_engine T seed) = (found, t1, r)" by (metis surj_pair)
  have c: "item_num_ceil t0 = item_num_ceil ?s" by (simp add: t0_def set_buckets_def Let_def)
  have b: "\<not> item_num_ceil ?s < length es" using assms(1) by (auto simp: build_imp_def Let_def)
  note e = assms(1) [unfolded build_imp_def Let_def if_not_P [OF b] t0_def [symmetric] s prod.case]
  then obtain bs where bs: "found = Some bs" by (cases found) auto
  then obtain t2 where t2: "fill_default_keys T (max_fill_key_time L) t1 = Some t2" using e
    by (cases "fill_default_keys T (max_fill_key_time L) t1") auto
  show ?thesis
    by (intro exI conjI) (use b c s e bs t2 in \<open>simp_all add: eq_commute [of t']\<close>)
qed

text \<open>Where a key lives is not affected by what fills the slots.\<close>

lemma fill_pos [simp]:
  "get_slot_pos T (t\<lparr> key_gen := g, default_fill_key := dk, second_default_key := fk, slots := ss,
     default_fill_key_address := a, default_fill_key_bucket_index := i \<rparr>) k = get_slot_pos T t k"
  "complete_get_bucket_index T (t\<lparr> key_gen := g, default_fill_key := dk, second_default_key := fk, slots := ss,
     default_fill_key_address := a, default_fill_key_bucket_index := i \<rparr>) k = complete_get_bucket_index T t k"
  by (simp_all add: get_slot_pos_def get_slot_pos_by_seed0_hash_def complete_get_bucket_index_def get_bucket_index_def)

lemma fill_elements_ok:
  fixes t1 :: "('p, 'k, 'v, 'g) fph"
  assumes sd: "search_done t1 (map fst es) m (2 ^ b) bs"
    and l: "policy_ok (slot_policy t1) m" "3 \<le> m" "m \<le> 31" "item_num_ceil t1 = 2 ^ m"
      "policy_ok (bucket_policy t1) b" "bucket_num t1 = 2 ^ b" "2 ^ b \<le> length (bucket_p t1)"
      "length (bucket_p t1) = bucket_capacity t1" "item_num t1 = length es"
    and t2: "fill_default_keys T n t1 = Some t2"
    and t3: "t3 = (construct_pairs T t2 es)\<lparr> begin_it := (if 0 < item_num (construct_pairs T t2 es)
      then Some (random_table (construct_pairs T t2 es) ! 0) else None) \<rparr>"
    and t': "t' = t3\<lparr> bucket_array := register_keys T t3 (fph_visit t3 (fph_begin t3))
      (map (\<lambda>b. \<lparr> entry_cnt = entry_cnt b, bucket_idx = bucket_idx b, key_array = [] \<rparr>) bs) \<rparr>"
  shows "fph_ok T m b t'" and "max_load t' = max_load t1"
    and "filled_set t' = (\<lambda>e. get_slot_pos T t' (fst e)) ` set es"
    and "\<forall>e \<in> set es. slots t' ! get_slot_pos T t' (fst e) = e"
proof -
  let ?pos = "get_slot_pos T t1" and ?n = "2 ^ m :: nat" and ?B = "complete_get_bucket_index T t1"
  have sd: "perm_ok ?n t1" "filled_set t1 = ?pos ` fst ` set es" "inj_on ?pos (fst ` set es)"
    "distinct (map fst es)" "bs = map (bucket_of_keys t1 (map fst es)) [0..<2 ^ b]"
    "seed2_test_table t1 = replicate ?n False"
    using sd by (simp_all add: search_done_def)
  obtain g dk fk where e2: "t2 = t1\<lparr> key_gen := g, default_fill_key := dk, second_default_key := fk,
      slots := (replicate ?n (dk, None))[?pos dk := (fk, None)],
      default_fill_key_address := ?pos dk, default_fill_key_bucket_index := ?B dk \<rparr>"
    and fk: "?pos fk \<noteq> ?pos dk"
    using fill_default_keys_ok [OF t2] l(4) by auto
  have pos2: "get_slot_pos T t2 k = ?pos k" for k unfolding e2 by (rule fill_pos)
  have bnd: "?pos k < ?n" for k by (rule slot_pos_bound [OF l(1)])
  have len2: "length (slots t2) = ?n" by (simp add: e2)
  have "distinct (map ?pos (map fst es))" using sd(3,4) by (simp add: distinct_map inj_on_def)
  then have d2: "distinct (map (\<lambda>e. get_slot_pos T t2 (fst e)) es)" by (simp add: pos2 comp_def)
  obtain ss where ss: "construct_pairs T t2 es = t2\<lparr> slots := ss \<rparr>" "length ss = ?n"
    "\<And>q. q \<notin> (\<lambda>e. ?pos (fst e)) ` set es \<Longrightarrow> ss ! q = slots t2 ! q" "\<And>e. e \<in> set es \<Longrightarrow> ss ! ?pos (fst e) = e"
    using construct_pairs_ok [OF d2] bnd by (auto simp: pos2 len2)
  have e3: "t3 = t1\<lparr> key_gen := g, default_fill_key := dk, second_default_key := fk, slots := ss,
      default_fill_key_address := ?pos dk, default_fill_key_bucket_index := ?B dk,
      begin_it := (if 0 < length es then Some (random_table t1 ! 0) else None) \<rparr>"
    unfolding t3 ss by (simp add: e2 l(9))
  have pos3: "get_slot_pos T t3 k = ?pos k" "complete_get_bucket_index T t3 k = ?B k" for k
    unfolding e3 by simp_all
  have F: "filled_set t3 = (\<lambda>e. ?pos (fst e)) ` set es"
    using sd(2) by (simp add: e3 filled_set_def is_filled_def image_image)
  have st3: "slots t3 = ss" by (simp add: e3)
  have L: "layout_ok T m b t3" using l sd(1,6) ss(2) by (simp add: layout_ok_def perm_ok_def e3)
  have D: "defaults_ok T t3" unfolding defaults_ok_def pos3 using fk by (simp add: e3)
  have S: "slots_ok T m t3" unfolding slots_ok_def
  proof (intro allI impI)
    fix p assume p: "p < ?n"
    show "if p \<in> filled_set t3 then get_slot_pos T t3 (fst (slots t3 ! p)) = p else slots t3 ! p = (empty_key t3 p, None)"
    proof (cases "p \<in> filled_set t3")
      case True
      then obtain e where "e \<in> set es" "p = ?pos (fst e)" by (auto simp: F)
      then show ?thesis using True ss(4) by (simp add: pos3 st3)
    next
      case False
      then have "ss ! p = slots t2 ! p" by (intro ss(3)) (simp add: F)
      then show ?thesis using False p by (simp add: st3) (simp add: e2 e3 nth_list_update empty_key_def)
    qed
  qed
  have "filled_count t3 = card (filled_set t3)" using filled_set_card [OF layoutD(10) [OF L]] by simp
  also have "\<dots> = card ((?pos \<circ> fst) ` set es)" by (simp add: F comp_def)
  also have "\<dots> = card (fst ` set es)" unfolding image_comp [symmetric] by (rule card_image [OF sd(3)])
  also have "\<dots> = length es" using distinct_card [OF sd(4)] by simp
  finally have N: "filled_count t3 = length es" .
  have C: "item_num t3 = filled_count t3" using N by (simp add: e3 l(9))
  have it: "case begin_it t3 of None \<Rightarrow> item_num t3 = 0 | Some p \<Rightarrow> p \<in> filled_set t3"
  proof (cases "0 < length es")
    case True
    have "random_table t3 ! 0 \<in> filled_set t3"
      using filled_set_random [OF layoutD(10) [OF L]] N True by simp
    then show ?thesis using True by (simp add: e3 filled_set_def is_filled_def)
  next
    case False
    then show ?thesis by (simp add: e3 l(9))
  qed
  have C: "counts_ok t3" using C it by (simp add: counts_ok_def)
  let ?vs = "fph_visit t3 (fph_begin t3)"
  let ?es = "map (\<lambda>b. \<lparr> entry_cnt = entry_cnt b, bucket_idx = bucket_idx b, key_array = [] \<rparr>) bs :: nat fph_bucket list"
  have vs: "distinct ?vs" "set ?vs = filled_set t3" using visit_begin [OF L S D C] by simp_all
  have "\<forall>p \<in> set ?vs. complete_get_bucket_index T t3 (fst (slots t3 ! p)) < length ?es"
    using bucket_index_bound [OF l(5)] by (simp add: pos3 sd(5))
  note rk = register_keys_nth [OF this]
  have ba: "length (bucket_array t') = 2 ^ b" "i < 2 ^ b \<Longrightarrow> bucket_array t' ! i =
    \<lparr> entry_cnt = length (filter (\<lambda>k. ?B k = i) (map fst es)), bucket_idx = i,
      key_array = filter (\<lambda>p. ?B (fst (ss ! p)) = i) ?vs \<rparr>" for i
    using rk by (simp_all add: t' sd(5) bucket_of_keys_def pos3 st3)
  have pos': "get_slot_pos T t' k = ?pos k" "complete_get_bucket_index T t' k = ?B k" for k
    by (simp_all add: t' pos3)
  have t'': "filled_set t' = filled_set t3" "slots t' = ss" by (simp_all add: t' st3)
  have B: "buckets_ok T b t'"
    unfolding buckets_ok_def
  proof (intro conjI allI impI)
    fix i assume i: "i < (2::nat) ^ b"
    let ?ka = "key_array (bucket_array t' ! i)"
    show "bucket_idx (bucket_array t' ! i) = i" "distinct ?ka" using vs(1) by (simp_all add: ba(2) [OF i])
    show set: "set ?ka = {p \<in> filled_set t'. complete_get_bucket_index T t' (fst (slots t' ! p)) = i}"
      using vs(2) unfolding t'' pos' by (auto simp: ba(2) [OF i])
    have "set ?ka = ?pos ` {k \<in> fst ` set es. ?B k = i}"
      unfolding set t'' pos' F using ss(4) by force
    then have "length ?ka = card (?pos ` {k \<in> fst ` set es. ?B k = i})"
      using distinct_card [OF \<open>distinct ?ka\<close>] by simp
    also have "\<dots> = card {k \<in> fst ` set es. ?B k = i}"
      by (rule card_image) (rule inj_on_subset [OF sd(3)], auto)
    also have "\<dots> = length (filter (\<lambda>k. ?B k = i) (map fst es))"
      using distinct_card [OF distinct_filter [OF sd(4), of "\<lambda>k. ?B k = i"]] by simp
    finally show "entry_cnt (bucket_array t' ! i) = length ?ka" by (simp add: ba(2) [OF i])
  qed (rule ba(1))
  have "layout_ok T m b t'" "defaults_ok T t'" "slots_ok T m t'" "counts_ok t'"
    using L D S C by (auto simp: t' update_layout slots_ok_def counts_ok_def split: option.splits)
  with B show "fph_ok T m b t'" by (simp add: fph_ok_def)
  show "max_load t' = max_load t1" by (simp add: t' e3)
  show "filled_set t' = (\<lambda>e. get_slot_pos T t' (fst e)) ` set es" by (simp add: t'' pos' F)
  show "\<forall>e \<in> set es. slots t' ! get_slot_pos T t' (fst e) = e" using ss(4) by (simp add: t'' pos')
qed

lemma build_imp_ok:
  fixes t :: "('p, 'k, 'v, 'g) fph"
  assumes bld: "build_imp T L is_rehash called_by_rehash es seed t = Inr t'"
    and cap: "length (bucket_p t) = bucket_capacity t" and tst: "set (seed2_test_table t) \<subseteq> {False}"
    and pol: "is_rehash \<Longrightarrow> policy_ok (slot_policy t) m0 \<and> 3 \<le> m0 \<and> m0 \<le> 31"
  shows "\<exists>m b. fph_ok T m b t' \<and> (is_rehash \<longrightarrow> m = m0) \<and> distinct (map fst es) \<and> max_load t' = max_load t \<and>
    filled_set t' = (\<lambda>e. get_slot_pos T t' (fst e)) ` set es \<and> (\<forall>e \<in> set es. slots t' ! get_slot_pos T t' (fst e) = e)"
proof -
  let ?keys = "map fst es"
  define t0 where "t0 = set_buckets T is_rehash called_by_rehash (length es)
      (set_slot_count T called_by_rehash (set_slot_policy T is_rehash (length es) (t\<lparr> item_num := length es \<rparr>)))"
  obtain t1 t2 t3 bs r where fit: "length es \<le> item_num_ceil t0"
    and t1: "try_seed0 T ?keys (max_try_seed1_time L) (max_try_seed2_time L) (max_reseed2_time L)
      (max_try_seed0_time L) t0 (seed_engine T seed) = (Some bs, t1, r)"
    and t2: "fill_default_keys T (max_fill_key_time L) t1 = Some t2"
    and t3: "t3 = (construct_pairs T t2 es)\<lparr> begin_it := (if 0 < item_num (construct_pairs T t2 es)
      then Some (random_table (construct_pairs T t2 es) ! 0) else None) \<rparr>"
    and t': "t' = t3\<lparr> bucket_array := register_keys T t3 (fph_visit t3 (fph_begin t3))
      (map (\<lambda>b. \<lparr> entry_cnt = entry_cnt b, bucket_idx = bucket_idx b, key_array = [] \<rparr>) bs) \<rparr>"
    using build_steps [OF bld] unfolding t0_def [symmetric] by (elim exE conjE)
  let ?sp = "set_slot_policy T is_rehash (length es) (t\<lparr> item_num := length es \<rparr>)"
  obtain m where m: "policy_ok (slot_policy ?sp) m" "3 \<le> m" "m \<le> 31" "is_rehash \<longrightarrow> m = m0"
    using set_slot_policy_ok [of is_rehash "t\<lparr> item_num := length es \<rparr>" m0 "length es"] pol by auto
  have sp: "bucket_p ?sp = bucket_p t" "bucket_capacity ?sp = bucket_capacity t" "seed2_test_table ?sp = seed2_test_table t"
    "item_num ?sp = length es" "max_load ?sp = max_load t" by (simp_all add: set_slot_policy_def Let_def)
  let ?sc = "set_slot_count T called_by_rehash ?sp"
  have sc: "item_num_ceil ?sc = 2 ^ m" "slot_policy ?sc = slot_policy ?sp" "bucket_p ?sc = bucket_p t"
    "bucket_capacity ?sc = bucket_capacity t" "seed2_test_table ?sc = seed2_test_table t"
    "item_num ?sc = length es" "max_load ?sc = max_load t"
    using policy_slot_num [OF m(1)] by (simp_all add: set_slot_count_def Let_def sp)
  have t0: "item_num_ceil t0 = 2 ^ m" "slot_policy t0 = slot_policy ?sp" "seed2_test_table t0 = seed2_test_table t"
    "item_num t0 = length es" "max_load t0 = max_load t"
    by (simp_all add: t0_def set_buckets_def Let_def sc)
  have "(2::nat) ^ m \<le> 2 ^ 31" by (rule power_increasing) (use m in simp_all)
  then have "length es \<le> item_num_ceil ?sc" "item_num_ceil ?sc \<le> 2 ^ 31" "length (bucket_p ?sc) = bucket_capacity ?sc"
    using fit cap by (simp_all add: sc t0)
  note sb = set_buckets_ok [OF this, of is_rehash called_by_rehash, folded t0_def]
  obtain b where b: "policy_ok (bucket_policy t0) b" "bucket_num t0 = 2 ^ b" using sb(1) by blast
  have p0: "policy_ok (slot_policy t0) m" "2 ^ b \<le> length (bucket_p t0)" "set (seed2_test_table t0) \<subseteq> {False}"
    using m(1) sb(2) b(2) tst by (simp_all add: t0)
  note ts = try_seed0_ok [OF t1 p0(1) m(3) t0(1) b(1,2) p0(2,3)]
  have sf: "frame t1 = frame t0" "length (bucket_p t1) = length (bucket_p t0)" using ts by (simp_all add: same_frame_def)
  note fr = frame_eqD [OF sf(1)]
  have sd: "search_done t1 ?keys m (2 ^ b) bs" using ts b(2) by simp
  have l: "policy_ok (slot_policy t1) m" "item_num_ceil t1 = 2 ^ m" "policy_ok (bucket_policy t1) b" "bucket_num t1 = 2 ^ b"
    "2 ^ b \<le> length (bucket_p t1)" "length (bucket_p t1) = bucket_capacity t1" "item_num t1 = length es"
    using p0(1,2) b sf(2) sb(3) t0 by (simp_all add: fr)
  note fe = fill_elements_ok [OF sd l(1) m(2,3) l(2-7) t2 t3 t']
  show ?thesis
  proof (rule exI [of _ m], rule exI [of _ b], intro conjI)
    show "is_rehash \<longrightarrow> m = m0" by (rule m(4))
    show "distinct (map fst es)" using sd by (simp add: search_done_def)
    show "max_load t' = max_load t" using fe(2) t0(5) by (simp add: fr)
  qed (use fe in simp_all)
qed

lemma draw_generated:
  "draw_fill_key T t pos n fill_key gen = Some (k, g) \<Longrightarrow> fill_key \<in> range (\<lambda>g. fst (next_key T g)) \<Longrightarrow>
   k \<in> range (\<lambda>g. fst (next_key T g))"
proof (induction n arbitrary: fill_key gen)
  case (Suc n)
  have r: "fst (next_key T gen) \<in> range (\<lambda>g. fst (next_key T g))" by blast
  show ?case
  proof (cases "get_slot_pos T t fill_key = pos \<and> n \<noteq> 0")
    case True
    then have "draw_fill_key T t pos n (fst (next_key T gen)) (snd (next_key T gen)) = Some (k, g)"
      using Suc.prems(1) by (simp add: case_prod_beta)
    then show ?thesis using r by (rule Suc.IH)
  next
    case False
    then show ?thesis using Suc.prems by (auto split: if_splits)
  qed
qed simp

lemma construct_pairs_second [simp]: "second_default_key (construct_pairs T t es) = second_default_key t"
  by (induction T t es rule: construct_pairs.induct) simp_all

lemma build_second:
  assumes "build_imp T L is_rehash called_by_rehash es seed t = Inr t'"
  shows "second_generated T t'"
proof -
  obtain t1 t2 t3 and bs :: "'k fph_bucket list" where t2: "fill_default_keys T (max_fill_key_time L) t1 = Some t2"
    and t3: "t3 = (construct_pairs T t2 es)\<lparr> begin_it := (if 0 < item_num (construct_pairs T t2 es)
      then Some (random_table (construct_pairs T t2 es) ! 0) else None) \<rparr>"
    and t': "t' = t3\<lparr> bucket_array := register_keys T t3 (fph_visit t3 (fph_begin t3))
      (map (\<lambda>b. \<lparr> entry_cnt = entry_cnt b, bucket_idx = bucket_idx b, key_array = [] \<rparr>) bs) \<rparr>"
    using build_steps [OF assms] by (elim exE conjE) (rule that)
  obtain dk g1 where dk: "next_key T (key_gen t1) = (dk, g1)" by (metis surj_pair)
  obtain fk1 g2 where fk1: "next_key T g1 = (fk1, g2)" by (metis surj_pair)
  have r: "fk1 \<in> range (\<lambda>g. fst (next_key T g))" using fk1 by (intro image_eqI [of _ _ g1]) simp_all
  obtain fk g where "draw_fill_key T (t1\<lparr> slots := replicate (item_num_ceil t1) (dk, None) \<rparr>)
      (get_slot_pos T t1 dk) (Suc (max_fill_key_time L)) fk1 g2 = Some (fk, g)" "second_default_key t2 = fk"
    using t2 unfolding fill_default_keys_def Let_def dk fk1 prod.case by (auto simp del: draw_fill_key.simps)
  then have "second_default_key t2 \<in> range (\<lambda>g. fst (next_key T g))" using draw_generated r by metis
  then show ?thesis by (simp add: second_generated_def t' t3)
qed

end

end
