(* ===== verification/Fph_Insert.thy ===== *)
theory Fph_Insert
  imports Fph_Build
begin

text \<open>
  Insertion (\<open>FindOrAlloc\<close> and the operations on top of it), rehashing and construction of the
  dynamic perfect hash table. An exception leaves no table behind.
\<close>

section \<open>Rehashing\<close>

definition rehash_slots :: "('p, 'k, 'v, 'g) fph \<Rightarrow> nat \<Rightarrow> nat" where
  "rehash_slots t n =
     (let new_item_ceil_num = ceil2_size (ceil_to_size (fl 53 (of_nat (item_num t) / max_load t)));
          new_item_ceil_num = (if new_item_ceil_num < n then ceil2_size n else new_item_ceil_num);
          new_item_ceil_num = min new_item_ceil_num MAX_ITEM_NUM_CEIL_LIMIT
      in max new_item_ceil_num DEFAULT_INIT_ITEM_NUM_CEIL)"

definition fph_rehash where
  "fph_rehash T L n t =
     (let new_item_ceil_num = rehash_slots t n
      in if new_item_ceil_num \<noteq> item_num_ceil t then
           let t = t\<lparr> slot_policy := policy_for T (of_nat new_item_ceil_num) \<rparr>;
               temp_pair_buf = map (\<lambda>p. slots t ! p) (fph_visit t (fph_begin t))
           in build_imp T L True True temp_pair_buf (seed1 t) t
         else Inr t)"

definition fph_reserve where
  "fph_reserve T L n t = fph_rehash T L (ceil_to_size (fl 53 (of_nat n / max_load t))) t"

section \<open>Construction\<close>

text \<open>The members before the first \<open>Build\<close>; the memory of the slots is not allocated yet.\<close>

definition initial_fph where
  "initial_fph T n gen key =
     (let c = ceil2_size (max n 4)
      in \<lparr> random_table = [], map_table = [], filled_count = 0, slot_policy = policy_for T (of_nat c),
           bucket_policy = policy_for T 0, seed0 = 0, seed1 = 0, seed2 = 0, bucket_p = [], slots = [], item_num = 0,
           item_num_ceil = c, bucket_num = 0, slot_capacity = 0, bucket_capacity = 0, should_expand_item_num = 0,
           default_fill_key = key, second_default_key = key, default_fill_key_address = 0,
           default_fill_key_bucket_index = 0, key_gen = gen, max_load = DEFAULT_MAX_LOAD_FACTOR, begin_it = None,
           seed2_test_table = [], bucket_array = [] \<rparr>)"

definition fph_new where
  "fph_new T L n gen key = build_imp T L False False [] 0 (initial_fph T n gen key)"

section \<open>A free slot\<close>

definition new_iterator where
  "new_iterator p t = t\<lparr> begin_it := Some p \<rparr>"

definition alloc_empty where
  "alloc_empty T k_seed0_hash possible_pos t =
     (let t = fill_slot possible_pos t;
          bucket_index = get_bucket_index T t k_seed0_hash;
          b = bucket_array t ! bucket_index;
          b = b\<lparr> key_array := key_array b @ [possible_pos], entry_cnt := entry_cnt b + 1 \<rparr>;
          t = new_iterator possible_pos (t\<lparr> bucket_array := (bucket_array t)[bucket_index := b] \<rparr>)
      in t\<lparr> item_num := item_num t + 1 \<rparr>)"

section \<open>A new place for the bucket\<close>

text \<open>
  The elements of the bucket and the new key, the last of \<open>ks\<close>, are sent to free slots together.
  In the first round the slots of the elements are freed.
\<close>

fun match_pattern where
  "match_pattern T ks bucket_index bucket_offset is_first_try [] t = (t, False)"
| "match_pattern T ks bucket_index bucket_offset is_first_try (bucket_try_bit # bits) t =
     (let try_seed = mix_seed_and_bit (seed2 t) (of_nat bucket_try_bit);
          bucket_pattern = map (\<lambda>key. complete_hash T t key try_seed) ks;
          t = (if is_first_try then free_slots (pattern_positions T t (butlast bucket_pattern) bucket_offset) t else t);
          (no_collision, test_table) = test_hash_vec_self_collision T t bucket_pattern (seed2_test_table t);
          t = t\<lparr> seed2_test_table := test_table \<rparr>
      in if \<not> no_collision then match_pattern T ks bucket_index bucket_offset False bits t
         else let item_num_mask = item_num_ceil t - 1;
                  (t, pattern_matched_flag) = try_offset T t item_num_mask bucket_pattern bucket_index bucket_try_bit
              in if pattern_matched_flag then (t, True)
                 else match_pattern T ks bucket_index bucket_offset False bits t)"

text \<open>Without a place, everything is built anew with the new key as an element without a value.\<close>

definition rebuild_with_key where
  "rebuild_with_key T L key t =
     (let temp_value_buf = map (\<lambda>p. slots t ! p) (fph_visit t (fph_begin t)) @ [(key, None)];
          t = t\<lparr> item_num := item_num t + 1 \<rparr>
      in case build_imp T L True False temp_value_buf (seed1 t) t of
           Inl e \<Rightarrow> Inl e
         | Inr t \<Rightarrow> Inr (t, get_slot_pos T t key, True))"

section \<open>Moving the elements of the bucket\<close>

text \<open>What the two loops over the bucket keep track of beside the table.\<close>

record 'a move_state =
  pair_buf :: "'a list"
  contain_default :: bool
  contain_second :: bool
  fill_new_default :: bool
  original_empty :: bool

text \<open>
  The first loop moves the elements out, and leaves the default keys behind. \<open>new_pos\<close> is the new
  slot of the default key, \<open>old_pos\<close> the one before.
\<close>

fun move_out where
  "move_out T off ob new_pos old_pos [] t ms = (t, ms)"
| "move_out T off ob new_pos old_pos (key_ptr # ps) t ms =
     (let key = fst (slots t ! key_ptr);
          p = get_slot_pos_at T t key off ob;
          ms = (if key = default_fill_key t then ms\<lparr> contain_default := True \<rparr> else ms);
          ms = (if key = second_default_key t then ms\<lparr> contain_second := True \<rparr> else ms);
          ms = ms\<lparr> pair_buf := pair_buf ms @ [slots t ! p] \<rparr>;
          fill_key = (if p \<noteq> new_pos then default_fill_key t else second_default_key t);
          ms = (if p \<noteq> new_pos then ms
            else let ms = ms\<lparr> fill_new_default := True \<rparr>
                 in if p = old_pos then ms\<lparr> original_empty := True \<rparr> else ms)
      in move_out T off ob new_pos old_pos ps (t\<lparr> slots := (slots t)[p := (fill_key, None)] \<rparr>) ms)"

text \<open>The second loop moves them in. Beside the table it yields the new pointers and the flag.\<close>

fun move_in where
  "move_in T old_pos [] t ptrs empty_status = (t, ptrs, empty_status)"
| "move_in T old_pos (e # es) t ptrs empty_status =
     (let p = get_slot_pos T t (fst e)
      in move_in T old_pos es (t\<lparr> slots := (slots t)[p := e] \<rparr>) (ptrs @ [p])
           (if p = old_pos then False else empty_status))"

text \<open>Constructing a key in a slot leaves the value.\<close>

definition set_key where
  "set_key p k t = t\<lparr> slots := (slots t)[p := (k, snd (slots t ! p))] \<rparr>"

fun draw_second_key where
  "draw_second_key T t pos avoid tries new_key gen =
     (if pos = get_slot_pos T t new_key \<or> new_key = avoid
      then case tries of 0 \<Rightarrow> None
           | Suc n \<Rightarrow> let (new_key, gen) = next_key T gen in draw_second_key T t pos avoid n new_key gen
      else Some (new_key, gen))"

definition renew_second_key where
  "renew_second_key T max_tries ms t =
     (let pos = get_slot_pos T t (default_fill_key t)
      in if pos \<noteq> get_slot_pos T t (second_default_key t) then Inr t
         else let (new_key, gen) = next_key T (key_gen t)
              in case draw_second_key T t pos (fst (slots t ! default_fill_key_address t)) max_tries new_key gen of
                   None \<Rightarrow> Inl RuntimeError
                 | Some (new_key, gen) \<Rightarrow>
                     let t = t\<lparr> key_gen := gen \<rparr>;
                         t = (if original_empty ms then set_key (default_fill_key_address t) new_key t else t);
                         t = (if \<not> contain_second ms \<and> fill_new_default ms \<and> fst (slots t ! pos) = second_default_key t
                           then set_key pos new_key t else t)
                     in Inr (t\<lparr> second_default_key := new_key \<rparr>))"

definition move_default_address where
  "move_default_address T bucket_index bucket_param ms t =
     (if bucket_index = default_fill_key_bucket_index t \<and> bucket_p t ! bucket_index \<noteq> bucket_param then
        let pos = get_slot_pos T t (default_fill_key t);
            t = (if \<not> contain_default ms then
                   let t = (if fst (slots t ! pos) = default_fill_key t then set_key pos (second_default_key t) t else t);
                       second_pos = get_slot_pos T t (second_default_key t)
                   in if pos \<noteq> default_fill_key_address t \<and>
                         fst (slots t ! default_fill_key_address t) = second_default_key t \<and>
                         \<not> (contain_second ms \<and> default_fill_key_address t = second_pos)
                      then set_key (default_fill_key_address t) (default_fill_key t) t else t
                 else t)
        in t\<lparr> default_fill_key_address := pos \<rparr>
      else t)"

definition move_bucket where
  "move_bucket T L key bucket_index bucket_param old_pos empty_status t =
     (let off = ucast (drop_bit 1 bucket_param);
          ob = ucast (bucket_param AND 1);
          b = bucket_array t ! bucket_index;
          ms = \<lparr> pair_buf = [], contain_default = False, contain_second = False, fill_new_default = False,
                 original_empty = empty_status \<rparr>;
          (t, ms) = move_out T off ob (get_slot_pos T t (default_fill_key t)) old_pos (key_array b) t ms;
          (t, ptrs, empty_status) = move_in T old_pos (pair_buf ms) t [] (original_empty ms);
          ms = ms\<lparr> original_empty := empty_status \<rparr>
      in case renew_second_key T (max_second_key_time L) ms t of
           Inl e \<Rightarrow> Inl e
         | Inr t \<Rightarrow>
             (let t = move_default_address T bucket_index bucket_param ms t;
                  temp_pos = get_slot_pos T t key;
                  b = b\<lparr> key_array := ptrs @ [temp_pos], entry_cnt := entry_cnt b + 1 \<rparr>;
                  t = new_iterator temp_pos (t\<lparr> bucket_array := (bucket_array t)[bucket_index := b] \<rparr>)
              in Inr (t\<lparr> item_num := item_num t + 1 \<rparr>, temp_pos, True)))"

section \<open>Insertion\<close>

definition expand_when_full where
  "expand_when_full T L t =
     (if should_expand_item_num t < item_num t + 1 \<and> ceil2_size (item_num_ceil t + 1) \<le> MAX_ITEM_NUM_CEIL_LIMIT
      then fph_rehash T L (item_num_ceil t + 1) t else Inr t)"

definition place_key where
  "place_key T L key t =
     (let k_seed0_hash = seed_hash T key (seed0 t);
          possible_pos = get_slot_pos_by_seed0_hash T t k_seed0_hash
      in if fst (slots t ! possible_pos) = key then Inr (t, possible_pos, False)
         else if is_slot_empty t possible_pos then Inr (alloc_empty T k_seed0_hash possible_pos t, possible_pos, True)
         else let old_pos = get_slot_pos T t (default_fill_key t);
                  empty_status = is_slot_empty t old_pos;
                  bucket_index = get_bucket_index T t k_seed0_hash;
                  bucket_param = bucket_p t ! bucket_index;
                  bucket_offset = unat (drop_bit 1 bucket_param);
                  optional_bit = unat (bucket_param AND 1);
                  b = bucket_array t ! bucket_index;
                  ks = map (\<lambda>p. fst (slots t ! p)) (key_array b) @ [key];
                  (t, pattern_matched_flag) =
                    match_pattern T ks (bucket_idx b) bucket_offset True [optional_bit..<2] t
              in if \<not> pattern_matched_flag then rebuild_with_key T L key t
                 else move_bucket T L key bucket_index bucket_param old_pos empty_status t)"

definition find_or_alloc where
  "find_or_alloc T L key t =
     (case expand_when_full T L t of
        Inl e \<Rightarrow> Inl e
      | Inr t \<Rightarrow> place_key T L key t)"

text \<open>The operations construct the element in the slot that was allocated.\<close>

definition construct_at where
  "construct_at p key value t = t\<lparr> slots := (slots t)[p := (key, Some value)] \<rparr>"

definition try_emplace where
  "try_emplace T L key value t =
     (case find_or_alloc T L key t of
        Inl e \<Rightarrow> Inl e
      | Inr (t, slot_address, alloc_happen) \<Rightarrow>
          Inr (if alloc_happen then construct_at slot_address key value t else t,
               iterator_at (Some slot_address), alloc_happen))"

definition fph_emplace where
  "fph_emplace T L key value t = try_emplace T L key value t"

definition fph_insert where
  "fph_insert T L e t = try_emplace T L (fst e) (snd e) t"

fun fph_insert_range where
  "fph_insert_range T L [] t = Inr t"
| "fph_insert_range T L (e # es) t =
     (case fph_insert T L e t of
        Inl err \<Rightarrow> Inl err
      | Inr (t, it, inserted) \<Rightarrow> fph_insert_range T L es t)"

text \<open>\<open>InsertNoDuplicated\<close> builds an empty table from the range at once.\<close>

definition insert_no_duplicated where
  "insert_no_duplicated T L es t =
     (if item_num t \<noteq> 0 then fph_insert_range T L es t
      else build_imp T L False False (map (\<lambda>(k, v). (k, Some v)) es) (seed1 t) t)"

text \<open>\<open>operator[]\<close> creates a default value for a key that is not there.\<close>

definition fph_subscript where
  "fph_subscript T L key init t =
     (case try_emplace T L key init t of
        Inl e \<Rightarrow> Inl e
      | Inr (t, it, inserted) \<Rightarrow> Inr (t, value_ptr it))"

section \<open>Copying\<close>

text \<open>
  The copy constructor: the bucket parameters in use are copied, the rest of their array is left as
  allocated, and the pointers of the buckets are computed anew from the keys.
\<close>

definition fph_copy where
  "fph_copy T t =
     (let bp = take (bucket_num t) (bucket_p t) @ map (raw_param T) [bucket_num t..<bucket_capacity t];
          t' = t\<lparr> bucket_p := bp \<rparr>
      in t'\<lparr> bucket_array := map (\<lambda>b. b\<lparr> key_array := map (\<lambda>p. get_slot_pos T t' (fst (slots t ! p))) (key_array b) \<rparr>)
           (bucket_array t) \<rparr>)"

end
