(* ===== verification/Fph_Insert_Correct.thy ===== *)
theory Fph_Insert_Correct
  imports Fph_Rebuild Fph_Insert
begin

text \<open>
  Rehashing keeps the elements, and an insertion adds one: whichever way the new key gets its slot,
  once the element is constructed in it the table has the invariant again.
\<close>

section \<open>The elements\<close>

definition fph_elements :: "('p, 'k, 'v, 'g) fph \<Rightarrow> ('k \<times> 'v option) set" where
  "fph_elements t = (\<lambda>p. slots t ! p) ` filled_set t"

lemma next_slot_loop_cong:
  assumes "slots t' = slots t" "item_num_ceil t' = item_num_ceil t" "default_fill_key t' = default_fill_key t"
    "second_default_key t' = second_default_key t" "default_fill_key_address t' = default_fill_key_address t"
  shows "next_slot_loop t' n p = next_slot_loop t n p"
  by (induction n arbitrary: p) (simp_all add: is_slot_empty_def assms)

lemma fph_visit_cong:
  assumes "slots t' = slots t" "item_num_ceil t' = item_num_ceil t" "default_fill_key t' = default_fill_key t"
    "second_default_key t' = second_default_key t" "default_fill_key_address t' = default_fill_key_address t"
    "item_num t' = item_num t"
  shows "fph_visit t' it = fph_visit t it"
  using assms
proof (induction t it rule: fph_visit.induct)
  case (1 t it)
  have "get_next_slot_address t' p = get_next_slot_address t p" for p
    using next_slot_loop_cong [OF 1(2-6)] 1(3) by (simp add: get_next_slot_address_def)
  then have "get_next_slot_address t' = get_next_slot_address t" by (rule ext)
  then have inc: "iterator_inc t' it = iterator_inc t it" using 1(7) by (simp add: iterator_inc_def)
  show ?case
  proof (cases "value_ptr it")
    case (Some p)
    from 1(1) [OF this 1(2-7)] show ?thesis
      by (subst (1 2) fph_visit.simps) (simp add: Some inc)
  qed (simp add: fph_visit.simps)
qed

lemma update_elements:
  assumes "p \<in> filled_set t" "p < length (slots t)" "\<And>q. q \<in> filled_set t \<Longrightarrow> fst (slots t ! q) = k \<longleftrightarrow> q = p"
  shows "fph_elements (t\<lparr> slots := (slots t)[p := e] \<rparr>) = insert e {e \<in> fph_elements t. fst e \<noteq> k}"
proof -
  have "(!) ((slots t)[p := e]) ` filled_set t = insert e ((!) ((slots t)[p := e]) ` (filled_set t - {p}))"
    by (subst insert_Diff [OF assms(1), symmetric], subst image_insert) (simp add: assms(2))
  also have "(!) ((slots t)[p := e]) ` (filled_set t - {p}) = (!) (slots t) ` (filled_set t - {p})"
    by (rule image_cong) auto
  also have "filled_set t - {p} = {q \<in> filled_set t. fst (slots t ! q) \<noteq> k}" using assms(3) by auto
  also have "(!) (slots t) ` \<dots> = {e \<in> (!) (slots t) ` filled_set t. fst e \<noteq> k}" by auto
  finally show ?thesis by (simp add: fph_elements_def)
qed

context fph_table
begin

lemma elements_map:
  assumes "fph_ok T m b t"
  shows "fph_map T t k = Some v \<longleftrightarrow> (k, Some v) \<in> fph_elements t"
  unfolding fph_elements_def image_iff using fph_map_Some [OF fph_okD(1,3,2) [OF assms], of k v] by metis

lemma elements_keys:
  assumes "fph_ok T m b t" "(k, x) \<in> fph_elements t" "(k, y) \<in> fph_elements t"
  shows "x = y"
proof -
  obtain p q where p: "p \<in> filled_set t" "slots t ! p = (k, x)" and q: "q \<in> filled_set t" "slots t ! q = (k, y)"
    using assms(2,3) by (auto simp: fph_elements_def)
  then have "p = q" by (intro filled_keys_inj [OF fph_okD(1,3) [OF assms(1)]]) simp_all
  with p q show ?thesis by simp
qed

lemma visit_elements:
  assumes "fph_ok T m b t"
  shows "set (map (\<lambda>p. slots t ! p) (fph_visit t (fph_begin t))) = fph_elements t"
    and "length (fph_visit t (fph_begin t)) = item_num t"
proof -
  note d = fph_okD [OF assms]
  note v = visit_begin [OF d(1,3,2,5)]
  show "set (map (\<lambda>p. slots t ! p) (fph_visit t (fph_begin t))) = fph_elements t"
    using v by (simp add: fph_elements_def)
  show "length (fph_visit t (fph_begin t)) = item_num t"
    using v distinct_card [of "fph_visit t (fph_begin t)"] filled_set_card [OF layoutD(10) [OF d(1)]] d(5)
    by (simp add: counts_ok_def)
qed

text \<open>Changing the value of an element.\<close>

lemma update_value_ok:
  assumes t: "fph_ok T m b t" and p: "p \<in> filled_set t"
  shows "fph_ok T m b (t\<lparr> slots := (slots t)[p := (fst (slots t ! p), x)] \<rparr>)"
proof -
  note d = fph_okD [OF t]
  let ?u = "t\<lparr> slots := (slots t)[p := (fst (slots t ! p), x)] \<rparr>"
  have pn: "p < 2 ^ m" by (rule filled_bound [OF d(1) p])
  have nth: "slots ?u ! q = (if q = p then (fst (slots t ! p), x) else slots t ! q)" if "q < 2 ^ m" for q
    using layoutD(5) [OF d(1)] that by (simp add: nth_list_update)
  have fst: "fst (slots ?u ! q) = fst (slots t ! q)" if "q < 2 ^ m" for q using nth [OF that] by simp
  have "layout_ok T m b ?u" by (rule update_layout [OF d(1)])
  moreover have "defaults_ok T ?u" using d(2) by simp
  moreover have "slots_ok T m ?u" unfolding slots_ok_def
  proof (intro allI impI)
    fix q assume q: "q < (2::nat) ^ m"
    have "\<not> q \<in> filled_set t \<Longrightarrow> q \<noteq> p" using p by auto
    then show "if q \<in> filled_set ?u then get_slot_pos T ?u (fst (slots ?u ! q)) = q else slots ?u ! q = (empty_key ?u q, None)"
      unfolding fst [OF q] using d(3) q by (cases "q = p") (auto simp: slots_ok_def)
  qed
  moreover have "{q \<in> filled_set t. complete_get_bucket_index T t (fst (slots ?u ! q)) = i} =
      {q \<in> filled_set t. complete_get_bucket_index T t (fst (slots t ! q)) = i}" for i
    using fst filled_bound [OF d(1)] by auto
  then have "buckets_ok T b ?u" using d(4) by (simp add: buckets_ok_def)
  moreover have "counts_ok ?u" using d(5) by (auto simp: counts_ok_def split: option.splits)
  ultimately show ?thesis by (simp add: fph_ok_def)
qed

section \<open>Rehashing\<close>

lemma rehash_ok:
  assumes t: "fph_ok T m b t" and r: "fph_rehash T L n t = Inr t'"
  shows "\<exists>m b. fph_ok T m b t'" and "fph_elements t' = fph_elements t" and "max_load t' = max_load t"
    and "second_generated T t \<Longrightarrow> second_generated T t'"
proof -
  let ?r = "rehash_slots t n"
  have "(\<exists>m b. fph_ok T m b t') \<and> fph_elements t' = fph_elements t \<and> max_load t' = max_load t \<and>
    (second_generated T t \<longrightarrow> second_generated T t')"
  proof (cases "?r = item_num_ceil t")
    case True
    then have "t' = t" using r by (simp add: fph_rehash_def Let_def)
    then show ?thesis using t by blast
  next
    case False
    let ?t = "t\<lparr> slot_policy := policy_for T (of_nat ?r) \<rparr>"
    let ?es = "map (\<lambda>p. slots t ! p) (fph_visit t (fph_begin t))"
    have "fph_visit ?t (fph_begin ?t) = fph_visit t (fph_begin t)"
      using fph_visit_cong [of ?t t] by (simp add: fph_begin_def)
    then have bld: "build_imp T L True True ?es (seed1 t) ?t = Inr t'"
      using r False by (simp add: fph_rehash_def Let_def)
    have "8 \<le> ?r" "?r \<le> 2 ^ 31"
      by (simp_all add: rehash_slots_def Let_def DEFAULT_INIT_ITEM_NUM_CEIL_def MAX_ITEM_NUM_CEIL_LIMIT_def
          bucket_param_type_num_bits_def)
    note pol = clipped_policy [OF this]
    have "\<exists>m' b. fph_ok T m' b t' \<and> (True \<longrightarrow> m' = log2_up ?r) \<and> distinct (map fst ?es) \<and> max_load t' = max_load ?t \<and>
      filled_set t' = (\<lambda>e. get_slot_pos T t' (fst e)) ` set ?es \<and> (\<forall>e \<in> set ?es. slots t' ! get_slot_pos T t' (fst e) = e)"
      by (rule build_imp_ok [OF bld]) (use pol layoutD(9,11) [OF fph_okD(1) [OF t]] in auto)
    then obtain m' b' where b: "fph_ok T m' b' t'" "max_load t' = max_load t"
      "filled_set t' = (\<lambda>e. get_slot_pos T t' (fst e)) ` fph_elements t"
      "\<forall>e \<in> fph_elements t. slots t' ! get_slot_pos T t' (fst e) = e"
      unfolding visit_elements(1) [OF t] by auto
    have "fph_elements t' = fph_elements t"
      unfolding fph_elements_def [of t'] b(3) using b(4) by (force simp: image_image)
    with b(1,2) build_second [OF bld] show ?thesis by blast
  qed
  then show "\<exists>m b. fph_ok T m b t'" "fph_elements t' = fph_elements t" "max_load t' = max_load t"
    "second_generated T t \<Longrightarrow> second_generated T t'" by blast+
qed

section \<open>A free slot\<close>

text \<open>What an allocation of a slot for a key achieves: constructing an element with this key there adds it.\<close>

definition alloc_done :: "('p, 'k, 'v, 'g) fph \<Rightarrow> 'k \<Rightarrow> ('p, 'k, 'v, 'g) fph \<Rightarrow> nat \<Rightarrow> bool" where
  "alloc_done t key t' p \<longleftrightarrow>
     (\<forall>x. (\<exists>m b. fph_ok T m b (t'\<lparr> slots := (slots t')[p := (key, x)] \<rparr>)) \<and>
        fph_elements (t'\<lparr> slots := (slots t')[p := (key, x)] \<rparr>) = insert (key, x) (fph_elements t) \<and>
        p \<in> filled_set (t'\<lparr> slots := (slots t')[p := (key, x)] \<rparr>) \<and> p < length (slots t')) \<and>
     (second_generated T t \<longrightarrow> second_generated T t')"

lemma alloc_empty_ok:
  assumes t: "fph_ok T m b t" and e: "is_slot_empty t (get_slot_pos T t key)"
  shows "alloc_done t key (alloc_empty T (seed_hash T key (seed0 t)) (get_slot_pos T t key) t) (get_slot_pos T t key)"
proof -
  note d = fph_okD [OF t]
  note l = layoutD [OF d(1)]
  let ?p = "get_slot_pos T t key" and ?i = "complete_get_bucket_index T t key"
  let ?bk = "(bucket_array t ! ?i)\<lparr> key_array := key_array (bucket_array t ! ?i) @ [?p],
     entry_cnt := entry_cnt (bucket_array t ! ?i) + 1 \<rparr>"
  define t' where "t' = alloc_empty T (seed_hash T key (seed0 t)) ?p t"
  have pn: "?p < 2 ^ m" by (rule slot_pos_bound [OF l(1)])
  have free: "?p \<notin> filled_set t" using is_slot_empty_iff [OF d(3,2) pn] e by simp
  have ib: "?i < 2 ^ b" by (rule bucket_index_bound [OF l(6)])
  note f = fill_slot_ok [OF l(10) pn free]
  have gi: "get_bucket_index T (fill_slot ?p t) (seed_hash T key (seed0 t)) = ?i"
    by (simp add: complete_get_bucket_index_def get_bucket_index_def fill_slot_def Let_def)
  have e': "t' = (fill_slot ?p t)\<lparr> bucket_array := (bucket_array t)[?i := ?bk], begin_it := Some ?p, item_num := item_num t + 1 \<rparr>"
    by (simp add: t'_def alloc_empty_def Let_def gi new_iterator_def)
  have "alloc_done t key t' ?p"
    unfolding alloc_done_def
  proof (intro conjI allI impI)
    fix x
    let ?u = "t'\<lparr> slots := (slots t')[?p := (key, x)] \<rparr>"
    have pos: "get_slot_pos T ?u k = get_slot_pos T t k" "complete_get_bucket_index T ?u k = complete_get_bucket_index T t k" for k
      by (simp_all add: e')
    have F: "filled_set ?u = insert ?p (filled_set t)" using f(2) by (simp add: e')
    have nth: "slots ?u ! q = (if q = ?p then (key, x) else slots t ! q)" if "q < 2 ^ m" for q
      using l(5) that by (simp add: e' nth_list_update)
    have ba: "bucket_array ?u = (bucket_array t)[?i := ?bk]" by (simp add: e')
    have ek: "empty_key ?u q = empty_key t q" for q by (simp add: e')
    show "?p \<in> filled_set ?u" unfolding F by simp
    show "?p < length (slots t')" using pn l(5) by (simp add: e')
    have L: "layout_ok T m b ?u" unfolding e' by (intro update_layout swap_layout f(1) d(1))
    have D: "defaults_ok T ?u" using d(2) by (simp add: e')
    have S: "slots_ok T m ?u" unfolding slots_ok_def F pos ek
    proof (intro allI impI)
      fix q assume q: "q < (2::nat) ^ m"
      show "if q \<in> insert ?p (filled_set t) then get_slot_pos T t (fst (slots ?u ! q)) = q
        else slots ?u ! q = (empty_key t q, None)"
        unfolding nth [OF q] using filled_key [OF d(3) q] empty_slot [OF d(3) q] by simp
    qed
    have B: "buckets_ok T b ?u" unfolding buckets_ok_def
    proof (intro conjI allI impI)
      show "length (bucket_array ?u) = 2 ^ b" unfolding ba using d(4) by (simp add: buckets_ok_def)
      fix j assume j: "j < (2::nat) ^ b"
      have o: "bucket_idx (bucket_array t ! j) = j" "entry_cnt (bucket_array t ! j) = length (key_array (bucket_array t ! j))"
        "distinct (key_array (bucket_array t ! j))" "set (key_array (bucket_array t ! j)) =
          {q \<in> filled_set t. complete_get_bucket_index T t (fst (slots t ! q)) = j}" "length (bucket_array t) = 2 ^ b"
        using d(4) j by (auto simp: buckets_ok_def)
      have bj: "bucket_array ?u ! j = (if j = ?i then ?bk else bucket_array t ! j)"
        unfolding ba using o(5) j by (auto simp: nth_list_update)
      have other: "slots ?u ! q = slots t ! q" if "q \<in> filled_set t" for q
        unfolding nth [OF filled_bound [OF d(1) that]] using that free by auto
      have setu: "{q \<in> filled_set ?u. complete_get_bucket_index T ?u (fst (slots ?u ! q)) = j} =
          (if j = ?i then {?p} else {}) \<union> {q \<in> filled_set t. complete_get_bucket_index T t (fst (slots t ! q)) = j}"
      proof -
        have split: "{q \<in> insert ?p A. P q} = (if P ?p then {?p} else {}) \<union> {q \<in> A. P q}" for A P by auto
        have "{q \<in> filled_set t. complete_get_bucket_index T t (fst (slots ?u ! q)) = j} =
            {q \<in> filled_set t. complete_get_bucket_index T t (fst (slots t ! q)) = j}"
          by (intro Collect_cong conj_cong refl) (simp only: other)
        then show ?thesis unfolding F pos split nth [OF pn] by auto
      qed
      show "bucket_idx (bucket_array ?u ! j) = j" unfolding bj using o(1) by (cases "j = ?i") simp_all
      show "entry_cnt (bucket_array ?u ! j) = length (key_array (bucket_array ?u ! j))"
        unfolding bj using o(2) by (cases "j = ?i") simp_all
      show "distinct (key_array (bucket_array ?u ! j))"
        unfolding bj using o(3,4) free by (cases "j = ?i") auto
      show "set (key_array (bucket_array ?u ! j)) = {q \<in> filled_set ?u. complete_get_bucket_index T ?u (fst (slots ?u ! q)) = j}"
        unfolding setu bj using o(4) by (cases "j = ?i") auto
    qed
    have C: "counts_ok ?u" using d(5) F f(3) by (auto simp: counts_ok_def e')
    show "\<exists>m b. fph_ok T m b ?u" using L D S B C unfolding fph_ok_def by blast
    have "(!) (slots ?u) ` filled_set t = (!) (slots t) ` filled_set t"
      by (rule image_cong) (use nth filled_bound [OF d(1)] free in auto)
    moreover have "slots ?u ! ?p = (key, x)" using nth [OF pn] by simp
    ultimately show "fph_elements ?u = insert (key, x) (fph_elements t)" unfolding fph_elements_def F by simp
  next
    assume "second_generated T t"
    then show "second_generated T t'" by (simp add: second_generated_def e') (simp add: fill_slot_def Let_def)
  qed
  then show ?thesis by (simp add: t'_def)
qed

section \<open>Building anew\<close>

text \<open>The state that is rebuilt has the elements of the table; its index arrays do not matter.\<close>

lemma rebuild_ok:
  assumes t: "fph_ok T m b t0" and fr: "frame t = frame t0" and len: "length (bucket_p t) = length (bucket_p t0)"
    and tst: "seed2_test_table t = seed2_test_table t0"
    and r: "rebuild_with_key T L key t = Inr (t', p, ins)"
  shows "alloc_done t0 key t' p" and "ins"
proof -
  note d = fph_okD [OF t]
  note l = layoutD [OF d(1)]
  note fe = frame_eqD [OF fr]
  let ?ps = "fph_visit t0 (fph_begin t0)"
  let ?es = "map (\<lambda>p. slots t0 ! p) ?ps @ [(key, None)]"
  let ?t = "t\<lparr> item_num := item_num t + 1 \<rparr>"
  have "fph_visit t (fph_begin t) = ?ps"
    using fph_visit_cong [of t t0] fe by (simp add: fph_begin_def)
  then obtain bld: "build_imp T L True False ?es (seed1 t) ?t = Inr t'" and p: "p = get_slot_pos T t' key" and ins
    using r by (auto simp: rebuild_with_key_def Let_def fe split: sum.splits)
  then show ins by simp
  have "\<exists>m' b. fph_ok T m' b t' \<and> (True \<longrightarrow> m' = m) \<and> distinct (map fst ?es) \<and> max_load t' = max_load ?t \<and>
      filled_set t' = (\<lambda>e. get_slot_pos T t' (fst e)) ` set ?es \<and> (\<forall>e \<in> set ?es. slots t' ! get_slot_pos T t' (fst e) = e)"
    by (rule build_imp_ok [OF bld]) (use l len tst in \<open>simp_all add: fe\<close>)
  then obtain b' where b: "fph_ok T m b' t'" "distinct (map fst ?es)"
    "filled_set t' = (\<lambda>e. get_slot_pos T t' (fst e)) ` set ?es" "\<forall>e \<in> set ?es. slots t' ! get_slot_pos T t' (fst e) = e"
    by auto
  note d' = fph_okD [OF b(1)]
  have pf: "p \<in> filled_set t'" "slots t' ! p = (key, None)" using b(3,4) by (auto simp: p)
  have pn: "p < length (slots t')" using filled_bound [OF d'(1) pf(1)] layoutD(5) [OF d'(1)] by simp
  have el: "fph_elements t' = insert (key, None) (fph_elements t0)"
  proof -
    have "fph_elements t' = set ?es" unfolding fph_elements_def b(3) using b(4) by (force simp: image_image)
    then show ?thesis using visit_elements(1) [OF t] by simp
  qed
  have nk: "key \<notin> fst ` fph_elements t0" 
  proof -
    have "key \<notin> set (map fst (map (\<lambda>p. slots t0 ! p) ?ps))" using b(2) by simp
    then show ?thesis unfolding set_map visit_elements(1) [OF t, unfolded set_map] .
  qed
  show "alloc_done t0 key t' p"
    unfolding alloc_done_def
  proof (intro conjI allI impI)
    fix x
    let ?u = "t'\<lparr> slots := (slots t')[p := (key, x)] \<rparr>"
    show "\<exists>m b. fph_ok T m b ?u" using update_value_ok [OF b(1) pf(1), of x] pf(2) by auto
    show "p \<in> filled_set ?u" using pf by simp
    show "p < length (slots t')" by (rule pn)
    show "fph_elements ?u = insert (key, x) (fph_elements t0)"
    proof -
      have "fst (slots t' ! q) = key \<longleftrightarrow> q = p" if "q \<in> filled_set t'" for q
        using filled_keys_inj [OF d'(1,3) that pf(1)] pf(2) by auto
      then have "fph_elements ?u = insert (key, x) {e \<in> fph_elements t'. fst e \<noteq> key}"
        using update_elements [OF pf(1) pn, of key "(key, x)"] by simp
      then show ?thesis using nk unfolding el by auto
    qed
  next
    show "second_generated T t'" by (rule build_second [OF bld])
  qed
qed

end

end
