(* ===== verification/Fph_Move_Correct.thy ===== *)
theory Fph_Move_Correct
  imports Fph_Insert_Correct
begin

text \<open>
  When the slot of a new key is taken, its bucket is moved: the elements and the key get new slots
  together. Here it is shown that nothing else is moved and that the default keys are left where
  empty slots need them.
\<close>

section \<open>The new place\<close>

lemma frame_free_slot [simp]: "frame (free_slot p t) = frame t"
  by (simp add: free_slot_def Let_def)

lemma free_slot_fields [simp]:
  "bucket_p (free_slot p t) = bucket_p t" "seed0 (free_slot p t) = seed0 t" "seed1 (free_slot p t) = seed1 t"
  "seed2 (free_slot p t) = seed2 t" "seed2_test_table (free_slot p t) = seed2_test_table t"
  "slot_policy (free_slot p t) = slot_policy t" "length (map_table (free_slot p t)) = length (map_table t)"
  by (simp_all add: free_slot_def Let_def)

lemma frame_free_slots [simp]: "frame (free_slots ps t) = frame t"
  by (induction ps t rule: free_slots.induct) auto

lemma free_slots_fields [simp]:
  "bucket_p (free_slots ps t) = bucket_p t" "seed0 (free_slots ps t) = seed0 t" "seed1 (free_slots ps t) = seed1 t"
  "seed2 (free_slots ps t) = seed2 t" "seed2_test_table (free_slots ps t) = seed2_test_table t"
  "slot_policy (free_slots ps t) = slot_policy t" "length (map_table (free_slots ps t)) = length (map_table t)"
  "item_num_ceil (free_slots ps t) = item_num_ceil t"
  by (induction ps t rule: free_slots.induct) auto

section \<open>The default keys in the gaps\<close>

text \<open>
  Between the steps an empty slot holds the second key where the default key belongs: in the old slot
  of the default key, for a slot that was just left in the new one.
\<close>

definition gaps :: "nat \<Rightarrow> nat set \<Rightarrow> nat set \<Rightarrow> nat \<Rightarrow> nat \<Rightarrow> 'k \<Rightarrow> 'k \<Rightarrow> ('k \<times> 'v option) list \<Rightarrow> bool" where
  "gaps n F K old new d s ss \<longleftrightarrow>
     (\<forall>q < n. q \<notin> F \<longrightarrow> ss ! q = ((if q = (if q \<in> K then new else old) then s else d), None))"

lemma gapsD: "gaps n F K old new d s ss \<Longrightarrow> q < n \<Longrightarrow> q \<notin> F \<Longrightarrow>
    ss ! q = ((if q = (if q \<in> K then new else old) then s else d), None)"
  by (simp add: gaps_def)

text \<open>The new second key is put where the old one was.\<close>

lemma renew_gaps:
  assumes g: "gaps n F K old new d s ss" and n: "old < n" "new < n" "length ss = n" and ds: "s' \<noteq> s"
    and E: "E \<subseteq> F" "\<forall>q \<in> E. fst (ss ! q) \<noteq> s"
    and oe: "old \<notin> F \<Longrightarrow> oe \<longleftrightarrow> old \<notin> K \<or> old = new" "oe \<Longrightarrow> old \<notin> E"
    and fn: "fn \<longleftrightarrow> new \<in> K"
  defines "ss1 \<equiv> (if oe then ss[old := (s', snd (ss ! old))] else ss)"
  defines "ss2 \<equiv> (if fn \<and> fst (ss1 ! new) = s then ss1[new := (s', snd (ss1 ! new))] else ss1)"
  shows "gaps n F K old new d s' ss2" and "\<forall>q \<in> E. ss2 ! q = ss ! q" and "length ss2 = n"
proof -
  have l1: "length ss1 = n" using n(3) by (simp add: ss1_def)
  show "length ss2 = n" using l1 by (simp add: ss2_def)
  have n1: "ss1 ! q = (if oe \<and> q = old then (s', snd (ss ! old)) else ss ! q)" if "q < n" for q
    using that n(3) by (simp add: ss1_def nth_list_update)
  have n2: "ss2 ! q = (if fn \<and> fst (ss1 ! new) = s \<and> q = new then (s', snd (ss1 ! new)) else ss1 ! q)" if "q < n" for q
    using that l1 by (simp add: ss2_def nth_list_update)
  have ne: "q \<noteq> old" if "q \<in> E" oe for q using that oe(2) by auto
  show "\<forall>q \<in> E. ss2 ! q = ss ! q"
  proof
    fix q assume q: "q \<in> E"
    have "ss1 ! q = ss ! q" using ne [OF q] by (cases "q = old") (auto simp: ss1_def)
    moreover have "fst (ss1 ! q) \<noteq> s" using q E(2) calculation by simp
    ultimately show "ss2 ! q = ss ! q" by (cases "q = new") (simp_all add: ss2_def)
  qed
  show "gaps n F K old new d s' ss2"
    unfolding gaps_def
  proof (intro allI impI)
    fix q assume q: "q < n" "q \<notin> F"
    have c: "fst (ss ! q) = (if q = (if q \<in> K then new else old) then s else d)" "snd (ss ! q) = None"
      using gapsD [OF g q] by simp_all
    show "ss2 ! q = ((if q = (if q \<in> K then new else old) then s' else d), None)"
    proof (cases "q = old")
      case True
      then show ?thesis using c oe(1) q ds unfolding prod_eq_iff n2 [OF q(1)] n1 [OF q(1)] n1 [OF n(2)] by (auto simp: fn)
    next
      case False
      then show ?thesis using c q ds unfolding prod_eq_iff n2 [OF q(1)] n1 [OF q(1)] n1 [OF n(2)] by (auto simp: fn)
    qed
  qed
qed

text \<open>Then the slot of the default key becomes the new one.\<close>

lemma move_gaps:
  assumes g: "gaps n F K old new d s ss" and n: "old < n" "new < n" "length ss = n" and ds: "d \<noteq> s"
    and E: "new \<in> E \<Longrightarrow> fst (ss ! new) \<noteq> d" "old \<in> E \<Longrightarrow> fst (ss ! old) \<noteq> s"
  defines "ss1 \<equiv> (if fst (ss ! new) = d then ss[new := (s, snd (ss ! new))] else ss)"
  defines "ss2 \<equiv> (if new \<noteq> old \<and> fst (ss1 ! old) = s then ss1[old := (d, snd (ss1 ! old))] else ss1)"
  shows "\<forall>q < n. q \<notin> F \<longrightarrow> ss2 ! q = ((if q = new then s else d), None)" and "\<forall>q \<in> E. ss2 ! q = ss ! q" and "length ss2 = n"
proof -
  have l1: "length ss1 = n" using n(3) by (simp add: ss1_def)
  show "length ss2 = n" using l1 by (simp add: ss2_def)
  have n1: "ss1 ! q = (if fst (ss ! new) = d \<and> q = new then (s, snd (ss ! new)) else ss ! q)" if "q < n" for q
    using that n(3) by (simp add: ss1_def nth_list_update)
  have n2: "ss2 ! q = (if new \<noteq> old \<and> fst (ss1 ! old) = s \<and> q = old then (d, snd (ss1 ! old)) else ss1 ! q)" if "q < n" for q
    using that l1 by (simp add: ss2_def nth_list_update)
  show "\<forall>q \<in> E. ss2 ! q = ss ! q"
  proof
    fix q assume q: "q \<in> E"
    have e: "ss1 ! q = ss ! q" using E(1) q by (cases "q = new") (simp_all add: ss1_def)
    moreover have "q = old \<Longrightarrow> fst (ss1 ! old) \<noteq> s" using E(2) q e by simp
    ultimately show "ss2 ! q = ss ! q" by (cases "q = old") (simp_all add: ss2_def)
  qed
  show "\<forall>q < n. q \<notin> F \<longrightarrow> ss2 ! q = ((if q = new then s else d), None)"
  proof (intro allI impI)
    fix q assume q: "q < n" "q \<notin> F"
    have "fst (ss ! q) = (if q = (if q \<in> K then new else old) then s else d)" "snd (ss ! q) = None"
      using gapsD [OF g q] by simp_all
    then show "ss2 ! q = ((if q = new then s else d), None)"
      using ds unfolding prod_eq_iff n2 [OF q(1)] n1 [OF q(1)] n1 [OF n(1)] by (auto split: if_splits)
  qed
qed

context fph_table
begin

lemma same_hash_free [simp]: "same_hash (free_slots ps t) t"
  by (simp add: same_hash_def)

lemma match_first:
  "match_pattern T ks bi off True (ob # obs) t = match_pattern T ks bi off False (ob # obs)
     (free_slots (pattern_positions T t (butlast (map (\<lambda>k. complete_hash T t k (mix_seed_and_bit (seed2 t) (of_nat ob))) ks)) off) t)"
  by (simp add: Let_def complete_hash_def)

lemma match_pattern_ok:
  assumes r: "match_pattern T ks bi off False bits t = (t', ok)" and bits: "set bits \<subseteq> {0, 1}"
    and t: "perm_ok (2 ^ m) t" "policy_ok (slot_policy t) m" "m \<le> 31" "seed2_test_table t = replicate (2 ^ m) False"
      "item_num_ceil t = 2 ^ m"
  shows "same_hash t' t \<and> (if ok then perm_ok (2 ^ m) t' \<and> (\<exists>off < 2 ^ m. \<exists>ob \<le> 1.
      let ps = map (\<lambda>k. get_slot_pos_at T t k (of_nat off) (of_nat ob)) ks in
      bucket_p t' = (bucket_p t)[bi := bucket_param_value off ob] \<and>
      filled_set t' = filled_set t \<union> set ps \<and> distinct ps \<and> set ps \<inter> filled_set t = {})
    else t' = t)"
  using r bits
proof (induction bits)
  case (Cons ob bits)
  have ob: "ob \<le> 1" using Cons.prems(2) by auto
  have IHb: "set bits \<subseteq> {0, 1}" using Cons.prems(2) by simp
  let ?pat = "map (\<lambda>key. complete_hash T t key (mix_seed_and_bit (seed2 t) (of_nat ob))) ks"
  have upd: "t\<lparr> seed2_test_table := replicate (2 ^ m) False \<rparr> = t" using t(4) by simp
  have test: "test_hash_vec_self_collision T t ?pat (seed2_test_table t) =
      (distinct (map (slot_idx t) ?pat), replicate (2 ^ m) False)"
    unfolding t(4) by (rule hash_vec_test [OF t(2)])
  show ?case
  proof (cases "distinct (map (slot_idx t) ?pat)")
    case False
    then have "match_pattern T ks bi off False bits t = (t', ok)"
      using Cons.prems(1) unfolding match_pattern.simps Let_def if_False test by (simp add: upd)
    then show ?thesis using IHb by (rule Cons.IH)
  next
    case True
    obtain t1 f where t1: "try_offset T t (2 ^ m - 1) ?pat bi ob = (t1, f)" by (metis surj_pair)
    have step: "match_pattern T ks bi off False (ob # bits) t = (if f then (t1, True) else match_pattern T ks bi off False bits t1)"
      using True unfolding match_pattern.simps Let_def if_False test by (simp add: upd t1 t(5) del: One_nat_def)
    note to = try_offset_ok [OF t1 t(1,2) True]
    show ?thesis
    proof (cases f)
      case False
      then have "match_pattern T ks bi off False bits t = (t', ok)" using to step Cons.prems(1) by simp
      then show ?thesis using IHb by (rule Cons.IH)
    next
      case True
      with step Cons.prems(1) have e: "t' = t1" "ok" by simp_all
      obtain off where off: "off < 2 ^ m" and "let ps = pattern_positions T t ?pat off in
          t1 = (fill_slots ps t)\<lparr> bucket_p := (bucket_p t)[bi := bucket_param_value off ob] \<rparr> \<and>
          perm_ok (2 ^ m) t1 \<and> filled_set t1 = filled_set t \<union> set ps \<and> distinct ps \<and> set ps \<inter> filled_set t = {}"
        using to True by auto
      note h = this(2) [unfolded pattern_positions_at Let_def]
      note e1 = conjunct1 [OF h] and ok1 = conjunct1 [OF conjunct2 [OF h]] and fd = conjunct2 [OF conjunct2 [OF h]]
      have "same_hash t1 t" and "bucket_p t1 = (bucket_p t)[bi := bucket_param_value off ob]"
        unfolding e1 by (simp_all add: same_hash_def)
      then show ?thesis unfolding e Let_def using ok1 fd off ob e(2) by auto
    qed
  qed
qed simp

section \<open>The two loops\<close>

lemma move_out_ok:
  assumes "distinct ps" "\<forall>p \<in> set ps. p < length (slots t) \<and> get_slot_pos_at T t (fst (slots t ! p)) off ob = p"
  shows "\<exists>ss ms'. move_out T off ob np old ps t ms = (t\<lparr> slots := ss \<rparr>, ms') \<and> length ss = length (slots t) \<and>
    (\<forall>q < length (slots t). ss ! q = (if q \<in> set ps then ((if q = np then second_default_key t else default_fill_key t), None)
       else slots t ! q)) \<and>
    pair_buf ms' = pair_buf ms @ map (\<lambda>p. slots t ! p) ps \<and>
    (contain_default ms' \<longleftrightarrow> contain_default ms \<or> (\<exists>p \<in> set ps. fst (slots t ! p) = default_fill_key t)) \<and>
    (contain_second ms' \<longleftrightarrow> contain_second ms \<or> (\<exists>p \<in> set ps. fst (slots t ! p) = second_default_key t)) \<and>
    (fill_new_default ms' \<longleftrightarrow> fill_new_default ms \<or> np \<in> set ps) \<and>
    (original_empty ms' \<longleftrightarrow> original_empty ms \<or> (np \<in> set ps \<and> np = old))"
  using assms
proof (induction ps arbitrary: t ms)
  case Nil
  show ?case by (rule exI [of _ "slots t"], rule exI [of _ ms]) simp
next
  case (Cons p ps)
  let ?fk = "if p \<noteq> np then default_fill_key t else second_default_key t"
  let ?t = "t\<lparr> slots := (slots t)[p := (?fk, None)] \<rparr>"
  let ?m1 = "if fst (slots t ! p) = default_fill_key t then ms\<lparr> contain_default := True \<rparr> else ms"
  let ?m2 = "if fst (slots t ! p) = second_default_key t then ?m1\<lparr> contain_second := True \<rparr> else ?m1"
  let ?m3 = "?m2\<lparr> pair_buf := pair_buf ?m2 @ [slots t ! p] \<rparr>"
  define m4 where "m4 = (if p \<noteq> np then ?m3 else
    (if p = old then ?m3\<lparr> fill_new_default := True, original_empty := True \<rparr> else ?m3\<lparr> fill_new_default := True \<rparr>))"
  have m4: "pair_buf m4 = pair_buf ms @ [slots t ! p]"
    "contain_default m4 \<longleftrightarrow> contain_default ms \<or> fst (slots t ! p) = default_fill_key t"
    "contain_second m4 \<longleftrightarrow> contain_second ms \<or> fst (slots t ! p) = second_default_key t"
    "fill_new_default m4 \<longleftrightarrow> fill_new_default ms \<or> p = np"
    "original_empty m4 \<longleftrightarrow> original_empty ms \<or> (p = np \<and> p = old)"
    by (simp_all add: m4_def)
  have at: "get_slot_pos_at T (t\<lparr> slots := ss \<rparr>) k off ob = get_slot_pos_at T t k off ob" for ss k
    by (rule slot_pos_at_cong) simp_all
  have p: "p < length (slots t)" "get_slot_pos_at T t (fst (slots t ! p)) off ob = p" using Cons.prems(2) by simp_all
  have step: "move_out T off ob np old (p # ps) t ms = move_out T off ob np old ps ?t m4"
    unfolding move_out.simps Let_def p(2) by (simp add: m4_def)
  have nth: "slots ?t ! q = slots t ! q" if "q \<in> set ps" for q
  proof -
    have "p \<noteq> q" using that Cons.prems(1) by auto
    then show ?thesis by simp
  qed
  have dp: "distinct ps" using Cons.prems(1) by simp
  have "\<forall>q \<in> set ps. q < length (slots ?t) \<and> get_slot_pos_at T ?t (fst (slots ?t ! q)) off ob = q"
  proof
    fix q assume q: "q \<in> set ps"
    show "q < length (slots ?t) \<and> get_slot_pos_at T ?t (fst (slots ?t ! q)) off ob = q"
      unfolding at nth [OF q] using Cons.prems(2) q by simp
  qed
  from Cons.IH [OF dp this, of m4] obtain ss ms' where
    IH: "move_out T off ob np old ps ?t m4 = (?t\<lparr> slots := ss \<rparr>, ms')" "length ss = length (slots ?t)"
    "\<forall>q < length (slots ?t). ss ! q = (if q \<in> set ps then ((if q = np then second_default_key ?t else default_fill_key ?t), None)
       else slots ?t ! q)"
    "pair_buf ms' = pair_buf m4 @ map (\<lambda>p. slots ?t ! p) ps"
    "contain_default ms' \<longleftrightarrow> contain_default m4 \<or> (\<exists>p \<in> set ps. fst (slots ?t ! p) = default_fill_key ?t)"
    "contain_second ms' \<longleftrightarrow> contain_second m4 \<or> (\<exists>p \<in> set ps. fst (slots ?t ! p) = second_default_key ?t)"
    "fill_new_default ms' \<longleftrightarrow> fill_new_default m4 \<or> np \<in> set ps"
    "original_empty ms' \<longleftrightarrow> original_empty m4 \<or> (np \<in> set ps \<and> np = old)" by (elim exE conjE) (rule that)
  have mp: "map (\<lambda>p. slots ?t ! p) ps = map (\<lambda>p. slots t ! p) ps" using nth by (rule map_cong [OF refl])
  show ?case
  proof (rule exI [of _ ss], rule exI [of _ ms'], intro conjI)
    show "move_out T off ob np old (p # ps) t ms = (t\<lparr> slots := ss \<rparr>, ms')" using step IH(1) by simp
    show "length ss = length (slots t)" using IH(2) by simp
    show "\<forall>q < length (slots t). ss ! q = (if q \<in> set (p # ps)
        then ((if q = np then second_default_key t else default_fill_key t), None) else slots t ! q)"
      using IH(3) p(1) Cons.prems(1) by (auto simp: nth_list_update)
    show "pair_buf ms' = pair_buf ms @ map (\<lambda>p. slots t ! p) (p # ps)" using IH(4) mp m4(1) by simp
    show "contain_default ms' \<longleftrightarrow> contain_default ms \<or> (\<exists>p \<in> set (p # ps). fst (slots t ! p) = default_fill_key t)"
      unfolding IH(5) m4(2) using nth by auto
    show "contain_second ms' \<longleftrightarrow> contain_second ms \<or> (\<exists>p \<in> set (p # ps). fst (slots t ! p) = second_default_key t)"
      unfolding IH(6) m4(3) using nth by auto
    show "fill_new_default ms' \<longleftrightarrow> fill_new_default ms \<or> np \<in> set (p # ps)" unfolding IH(7) m4(4) by auto
    show "original_empty ms' \<longleftrightarrow> original_empty ms \<or> (np \<in> set (p # ps) \<and> np = old)" unfolding IH(8) m4(5) by auto
  qed
qed

lemma move_in_ok:
  assumes "distinct (map (\<lambda>e. get_slot_pos T t (fst e)) es)" "\<forall>e \<in> set es. get_slot_pos T t (fst e) < length (slots t)"
  shows "\<exists>ss. move_in T old es t ptrs st = (t\<lparr> slots := ss \<rparr>, ptrs @ map (\<lambda>e. get_slot_pos T t (fst e)) es,
      st \<and> old \<notin> (\<lambda>e. get_slot_pos T t (fst e)) ` set es) \<and> length ss = length (slots t) \<and>
    (\<forall>q. q \<notin> (\<lambda>e. get_slot_pos T t (fst e)) ` set es \<longrightarrow> ss ! q = slots t ! q) \<and>
    (\<forall>e \<in> set es. ss ! get_slot_pos T t (fst e) = e)"
  using assms
proof (induction es arbitrary: t ptrs st)
  case Nil
  show ?case by (rule exI [of _ "slots t"]) simp
next
  case (Cons e es)
  let ?p = "get_slot_pos T t (fst e)"
  let ?t = "t\<lparr> slots := (slots t)[?p := e] \<rparr>"
  have step: "move_in T old (e # es) t ptrs st = move_in T old es ?t (ptrs @ [?p]) (if ?p = old then False else st)"
    by (simp add: Let_def)
  have "distinct (map (\<lambda>e. get_slot_pos T ?t (fst e)) es)" "\<forall>e \<in> set es. get_slot_pos T ?t (fst e) < length (slots ?t)"
    using Cons.prems by simp_all
  from Cons.IH [OF this, of "ptrs @ [?p]" "if ?p = old then False else st"] obtain ss where
    ss: "move_in T old es ?t (ptrs @ [?p]) (if ?p = old then False else st) =
      (?t\<lparr> slots := ss \<rparr>, (ptrs @ [?p]) @ map (\<lambda>e. get_slot_pos T ?t (fst e)) es,
       (if ?p = old then False else st) \<and> old \<notin> (\<lambda>e. get_slot_pos T ?t (fst e)) ` set es)"
    "length ss = length (slots ?t)"
    "\<And>q. q \<notin> (\<lambda>e. get_slot_pos T ?t (fst e)) ` set es \<Longrightarrow> ss ! q = slots ?t ! q"
    "\<And>e. e \<in> set es \<Longrightarrow> ss ! get_slot_pos T ?t (fst e) = e" by blast
  have e: "ss ! ?p = e" using ss(3) [of ?p] Cons.prems by simp
  show ?case unfolding step ss(1)
    by (rule exI [of _ ss]) (use ss(2-4) e in auto)
qed

section \<open>The two steps on the default keys\<close>

lemma draw_second_ok:
  "draw_second_key T t pos avoid n k g = Some (k', g') \<Longrightarrow> pos \<noteq> get_slot_pos T t k' \<and> k' \<noteq> avoid"
proof (induction n arbitrary: k g)
  case (Suc n)
  then show ?case by (cases "pos = get_slot_pos T t k \<or> k = avoid") (simp_all add: case_prod_beta)
qed (auto split: if_splits)

lemma draw_second_generated:
  "draw_second_key T t pos avoid n k g = Some (k', g') \<Longrightarrow> k \<in> range (\<lambda>g. fst (next_key T g)) \<Longrightarrow>
   k' \<in> range (\<lambda>g. fst (next_key T g))"
proof (induction n arbitrary: k g)
  case (Suc n)
  have r: "fst (next_key T g) \<in> range (\<lambda>g. fst (next_key T g))" by blast
  show ?case
  proof (cases "pos = get_slot_pos T t k \<or> k = avoid")
    case True
    then have "draw_second_key T t pos avoid n (fst (next_key T g)) (snd (next_key T g)) = Some (k', g')"
      using Suc.prems(1) by (simp add: case_prod_beta)
    then show ?thesis using r by (rule Suc.IH)
  qed (use Suc.prems in simp)
qed (auto split: if_splits)

lemma renew_ok:
  fixes t :: "('p, 'k, 'v, 'g) fph"
  assumes r: "renew_second_key T tries ms t = Inr t'" and cs: "\<not> contain_second ms"
  defines "new \<equiv> get_slot_pos T t (default_fill_key t)" and "old \<equiv> default_fill_key_address t"
  assumes g: "gaps n F K old new (default_fill_key t) (second_default_key t) (slots t)"
    and n: "old < n" "new < n" "length (slots t) = n"
    and E: "E \<subseteq> F" "\<forall>q \<in> E. fst (slots t ! q) \<noteq> second_default_key t"
    and oe: "old \<notin> F \<Longrightarrow> original_empty ms \<longleftrightarrow> old \<notin> K \<or> old = new" "original_empty ms \<Longrightarrow> old \<notin> E"
    and fn: "fill_new_default ms \<longleftrightarrow> new \<in> K"
  shows "\<exists>g ss s'. t' = t\<lparr> key_gen := g, slots := ss, second_default_key := s' \<rparr> \<and>
    gaps n F K old new (default_fill_key t) s' ss \<and> (\<forall>q \<in> E. ss ! q = slots t ! q) \<and> length ss = n \<and>
    get_slot_pos T t s' \<noteq> new \<and> (old \<in> E \<longrightarrow> fst (slots t ! old) \<noteq> s') \<and>
    (second_generated T t \<longrightarrow> s' \<in> range (\<lambda>g. fst (next_key T g)))"
proof (cases "new = get_slot_pos T t (second_default_key t)")
  case False
  then have "t' = t" using r by (simp add: renew_second_key_def Let_def new_def)
  then show ?thesis using False g E n(3)
    by (intro exI [of _ "key_gen t"] exI [of _ "slots t"] exI [of _ "second_default_key t"])
      (auto simp: second_generated_def)
next
  case True
  obtain k1 g1 where k1: "next_key T (key_gen t) = (k1, g1)" by (metis surj_pair)
  let ?s = "second_default_key t"
  obtain s' g' where d: "draw_second_key T t new (fst (slots t ! old)) tries k1 g1 = Some (s', g')"
    using r True k1 by (auto simp: renew_second_key_def Let_def new_def old_def simp del: draw_second_key.simps split: option.splits)
  define ss1 where "ss1 = (if original_empty ms then (slots t)[old := (s', snd (slots t ! old))] else slots t)"
  define ss2 where "ss2 = (if fill_new_default ms \<and> fst (ss1 ! new) = ?s then ss1[new := (s', snd (ss1 ! new))] else ss1)"
  have e: "t' = t\<lparr> key_gen := g', slots := ss2, second_default_key := s' \<rparr>"
    using r True k1 d cs unfolding renew_second_key_def Let_def new_def [symmetric] old_def [symmetric]
    by (auto simp: set_key_def ss1_def ss2_def old_def [symmetric] simp del: draw_second_key.simps)
  note dr = draw_second_ok [OF d]
  have ne: "s' \<noteq> ?s" using dr True by auto
  note rg = renew_gaps [OF g n ne E oe fn, folded ss1_def, folded ss2_def]
  have "s' \<in> range (\<lambda>g. fst (next_key T g))"
    using draw_second_generated [OF d] k1 by (metis fst_conv rangeI)
  then show ?thesis using e rg dr by (intro exI [of _ g'] exI [of _ ss2] exI [of _ s']) auto
qed

lemma move_default_ok:
  fixes t :: "('p, 'k, 'v, 'g) fph"
  defines "new \<equiv> get_slot_pos T t (default_fill_key t)" and "old \<equiv> default_fill_key_address t"
  assumes cs: "\<not> contain_second ms"
    and g: "gaps n F K old new (default_fill_key t) (second_default_key t) (slots t)"
    and n: "old < n" "new < n" "length (slots t) = n"
    and s: "get_slot_pos T t (second_default_key t) \<noteq> new"
    and el: "old \<in> E \<Longrightarrow> fst (slots t ! old) \<noteq> second_default_key t"
    and keep: "i \<noteq> default_fill_key_bucket_index t \<or> bucket_p t ! i = bp \<Longrightarrow> new = old"
    and cd: "contain_default ms \<Longrightarrow> new \<in> F \<and> (old \<notin> F \<longrightarrow> old \<in> K)"
    and ncd: "\<not> contain_default ms \<Longrightarrow> i = default_fill_key_bucket_index t \<Longrightarrow> new \<in> E \<Longrightarrow> fst (slots t ! new) \<noteq> default_fill_key t"
  shows "\<exists>ss. move_default_address T i bp ms t = t\<lparr> slots := ss, default_fill_key_address := new \<rparr> \<and> length ss = n \<and>
    (\<forall>q \<in> E. ss ! q = slots t ! q) \<and>
    (\<forall>q < n. q \<notin> F \<longrightarrow> ss ! q = ((if q = new then second_default_key t else default_fill_key t), None))"
proof (cases "i = default_fill_key_bucket_index t \<and> bucket_p t ! i \<noteq> bp")
  case False
  then have "move_default_address T i bp ms t = t" unfolding move_default_address_def by (rule if_not_P)
  moreover have "new = old" using False keep by blast
  ultimately show ?thesis using g n(3) by (intro exI [of _ "slots t"]) (auto simp: gaps_def old_def)
next
  case True
  have ds: "default_fill_key t \<noteq> second_default_key t" using s by (auto simp: new_def)
  show ?thesis
  proof (cases "contain_default ms")
    case cdt: True
    have "move_default_address T i bp ms t = t\<lparr> slots := slots t, default_fill_key_address := new \<rparr>"
      unfolding move_default_address_def if_P [OF True] Let_def using cdt by (simp add: new_def)
    moreover have "slots t ! q = ((if q = new then second_default_key t else default_fill_key t), None)"
      if q: "q < n" "q \<notin> F" for q
      using gapsD [OF g q] cd [OF cdt] q(2) by (auto split: if_splits)
    ultimately show ?thesis using n(3) by (intro exI [of _ "slots t"] conjI) simp_all
  next
    case cdf: False
    define ss1 where "ss1 = (if fst (slots t ! new) = default_fill_key t
      then (slots t)[new := (second_default_key t, snd (slots t ! new))] else slots t)"
    define ss2 where "ss2 = (if new \<noteq> old \<and> fst (ss1 ! old) = second_default_key t
      then ss1[old := (default_fill_key t, snd (ss1 ! old))] else ss1)"
    have t1: "(if fst (slots t ! new) = default_fill_key t then set_key new (second_default_key t) t else t) = t\<lparr> slots := ss1 \<rparr>"
      by (simp add: set_key_def ss1_def)
    have mv: "move_default_address T i bp ms t = t\<lparr> slots := ss2, default_fill_key_address := new \<rparr>"
      unfolding move_default_address_def if_P [OF True] if_P [OF cdf] Let_def new_def [symmetric] t1
      using cs by (simp add: old_def [symmetric] set_key_def ss2_def)
    have nd: "new \<in> E \<Longrightarrow> fst (slots t ! new) \<noteq> default_fill_key t" using ncd cdf True by simp
    note mg = move_gaps [OF g n ds nd el, folded ss1_def, folded ss2_def]
    show ?thesis by (rule exI [of _ ss2], intro conjI mv mg)
  qed
qed

section \<open>The moved bucket\<close>

lemma moved_pos:
  assumes h: "same_hash t1 t0" and bp: "bucket_p t1 = (bucket_p t0)[i := bucket_param_value off ob]"
    and r: "off < 2 ^ 31" "ob \<le> 1" "i < length (bucket_p t0)"
  shows "get_slot_pos T t1 k = (if complete_get_bucket_index T t0 k = i then get_slot_pos_at T t0 k (of_nat off) (of_nat ob)
    else get_slot_pos T t0 k)"
proof -
  have B: "complete_get_bucket_index T t1 k = complete_get_bucket_index T t0 k" by (rule same_hash_bucket [OF h])
  have at: "get_slot_pos_at T t1 k x y = get_slot_pos_at T t0 k x y" for x y
    by (rule slot_pos_at_cong) (use h in \<open>auto simp: same_hash_def intro: frame_eqD(1)\<close>)
  show ?thesis
  proof (cases "complete_get_bucket_index T t0 k = i")
    case True
    then have "bucket_p t1 ! complete_get_bucket_index T t1 k = bucket_param_value off ob" using r(3) by (simp add: B bp)
    then show ?thesis using True by (simp only: get_slot_pos_eq [where t = t1] at bucket_param_decode [OF r(1,2)] simp_thms if_True)
  next
    case False
    then have "bucket_p t1 ! complete_get_bucket_index T t1 k = bucket_p t0 ! complete_get_bucket_index T t0 k"
      by (simp add: B bp)
    then show ?thesis using False by (simp only: get_slot_pos_eq at B if_False)
  qed
qed

text \<open>
  The table after the move: \<open>ns\<close> are the new slots of the elements of the bucket, \<open>p\<close> that of the
  key, and the empty slots hold the default keys.
\<close>

lemma moved_ok:
  fixes t0 t1 :: "('p, 'k, 'v, 'g) fph" and key s' :: 'k and x g ss
  assumes t0: "fph_ok T m b t0"
  defines "i \<equiv> complete_get_bucket_index T t0 key"
  defines "kl \<equiv> key_array (bucket_array t0 ! i)" and "ns \<equiv> map (\<lambda>p. get_slot_pos T t1 (fst (slots t0 ! p))) (key_array (bucket_array t0 ! i))"
  assumes h: "same_hash t1 t0" and perm: "perm_ok (2 ^ m) t1"
    and pos: "\<And>k. complete_get_bucket_index T t0 k \<noteq> i \<Longrightarrow> get_slot_pos T t1 k = get_slot_pos T t0 k"
    and F: "filled_set t1 = (filled_set t0 - set kl) \<union> set ns \<union> {get_slot_pos T t1 key}"
    and ps: "distinct (ns @ [get_slot_pos T t1 key])" "(set ns \<union> {get_slot_pos T t1 key}) \<inter> (filled_set t0 - set kl) = {}"
    and ss: "length ss = 2 ^ m" "ss ! get_slot_pos T t1 key = (key, x)"
      "\<And>q. q \<in> filled_set t0 - set kl \<Longrightarrow> ss ! q = slots t0 ! q"
      "\<And>p. p \<in> set kl \<Longrightarrow> ss ! get_slot_pos T t1 (fst (slots t0 ! p)) = slots t0 ! p"
      "\<And>q. q < 2 ^ m \<Longrightarrow> q \<notin> filled_set t1 \<Longrightarrow>
        ss ! q = ((if q = get_slot_pos T t1 (default_fill_key t0) then s' else default_fill_key t0), None)"
    and s': "get_slot_pos T t1 s' \<noteq> get_slot_pos T t1 (default_fill_key t0)"
  defines "u \<equiv> t1\<lparr> key_gen := g, slots := ss, second_default_key := s',
      default_fill_key_address := get_slot_pos T t1 (default_fill_key t0),
      bucket_array := (bucket_array t0)[i := (bucket_array t0 ! i)\<lparr> key_array := ns @ [get_slot_pos T t1 key],
        entry_cnt := entry_cnt (bucket_array t0 ! i) + 1 \<rparr>],
      begin_it := Some (get_slot_pos T t1 key), item_num := item_num t0 + 1 \<rparr>"
  shows "fph_ok T m b u" and "fph_elements u = insert (key, x) (fph_elements t0)"
proof -
  note d = fph_okD [OF t0]
  note l = layoutD [OF d(1)]
  have fr: "frame t1 = frame t0" using h by (simp add: same_hash_def)
  note fe = frame_eqD [OF fr]
  let ?p = "get_slot_pos T t1 key" and ?B = "complete_get_bucket_index T t0"
  have posu: "get_slot_pos T u k = get_slot_pos T t1 k" for k
    by (simp add: u_def get_slot_pos_def get_slot_pos_by_seed0_hash_def get_bucket_index_def)
  have Bu: "complete_get_bucket_index T u k = ?B k" for k
  proof -
    have "complete_get_bucket_index T u k = complete_get_bucket_index T t1 k"
      by (simp add: u_def complete_get_bucket_index_def get_bucket_index_def)
    then show ?thesis using same_hash_bucket [OF h] by simp
  qed
  have Fu: "filled_set u = filled_set t1" by (simp add: u_def filled_set_def is_filled_def)
  have ib: "i < 2 ^ b" unfolding i_def by (rule bucket_index_bound [OF l(6)])
  have kl: "set kl = {q \<in> filled_set t0. ?B (fst (slots t0 ! q)) = i}" "distinct kl"
    "entry_cnt (bucket_array t0 ! i) = length kl"
    using d(4) ib by (auto simp: buckets_ok_def kl_def)
  have ns: "ns = map (\<lambda>p. get_slot_pos T t1 (fst (slots t0 ! p))) kl" by (simp add: ns_def kl_def)
  have su: "slots u = ss" by (simp add: u_def)
  have content: "q \<in> filled_set t0 - set kl \<and> ss ! q = slots t0 ! q \<and> ?B (fst (ss ! q)) \<noteq> i \<or>
      (\<exists>p \<in> set kl. q = get_slot_pos T t1 (fst (slots t0 ! p)) \<and> ss ! q = slots t0 ! p \<and> ?B (fst (ss ! q)) = i) \<or>
      q = ?p \<and> ss ! q = (key, x)" if mem: "q \<in> filled_set t1" for q
  proof -
    consider "q \<in> filled_set t0 - set kl" | p where "p \<in> set kl" "q = get_slot_pos T t1 (fst (slots t0 ! p))" | "q = ?p"
      using mem unfolding F ns by auto
    then show ?thesis
    proof cases
      case 1
      then show ?thesis using ss(3) [OF 1] kl(1) by auto
    next
      case (2 p)
      then show ?thesis using ss(4) [OF 2(1)] kl(1) by auto
    next
      case 3
      then show ?thesis using ss(2) by simp
    qed
  qed
  have L: "layout_ok T m b u"
    using l perm h unfolding layout_ok_def by (simp add: u_def fe same_hash_def perm_ok_def ss(1))
  have D: "defaults_ok T u"
    using d(2) s' unfolding defaults_ok_def posu Bu by (simp add: u_def fe)
  have S: "slots_ok T m u"
    unfolding slots_ok_def
  proof (intro allI impI)
    fix q assume q: "q < (2::nat) ^ m"
    show "if q \<in> filled_set u then get_slot_pos T u (fst (slots u ! q)) = q else slots u ! q = (empty_key u q, None)"
    proof (cases "q \<in> filled_set t1")
      case True
      have "get_slot_pos T t1 (fst (ss ! q)) = q"
        using content [OF True] pos filled_key [OF d(3) q] by auto
      then show ?thesis using True by (simp add: Fu posu su)
    next
      case False
      then show ?thesis using ss(5) [OF q False] by (simp add: Fu su empty_key_def) (simp add: u_def fe)
    qed
  qed
  have B: "buckets_ok T b u"
    unfolding buckets_ok_def
  proof (intro conjI allI impI)
    show "length (bucket_array u) = 2 ^ b" using d(4) by (simp add: u_def buckets_ok_def)
    fix j assume j: "j < (2::nat) ^ b"
    have o: "bucket_idx (bucket_array t0 ! j) = j" "entry_cnt (bucket_array t0 ! j) = length (key_array (bucket_array t0 ! j))"
      "distinct (key_array (bucket_array t0 ! j))" "set (key_array (bucket_array t0 ! j)) =
        {q \<in> filled_set t0. ?B (fst (slots t0 ! q)) = j}" "length (bucket_array t0) = 2 ^ b"
      using d(4) j by (auto simp: buckets_ok_def)
    have bj: "bucket_array u ! j = (if j = i then (bucket_array t0 ! i)\<lparr> key_array := ns @ [?p],
        entry_cnt := entry_cnt (bucket_array t0 ! i) + 1 \<rparr> else bucket_array t0 ! j)"
      using o(5) j by (simp add: u_def nth_list_update)
    show "bucket_idx (bucket_array u ! j) = j" unfolding bj using o(1) by (cases "j = i") simp_all
    show "entry_cnt (bucket_array u ! j) = length (key_array (bucket_array u ! j))"
      unfolding bj using o(2) kl(3) by (cases "j = i") (simp_all add: ns)
    show "distinct (key_array (bucket_array u ! j))"
      unfolding bj using o(3) ps(1) by (cases "j = i") simp_all
    show "set (key_array (bucket_array u ! j)) = {q \<in> filled_set u. complete_get_bucket_index T u (fst (slots u ! q)) = j}"
    proof (cases "j = i")
      case True
      have "{q \<in> filled_set t1. ?B (fst (ss ! q)) = i} = set ns \<union> {?p}"
      proof (intro equalityI subsetI)
        fix q assume q: "q \<in> {q \<in> filled_set t1. ?B (fst (ss ! q)) = i}"
        then have "q \<in> filled_set t1" "?B (fst (ss ! q)) = i" by simp_all
        then show "q \<in> set ns \<union> {?p}" using content [of q] by (auto simp: ns)
      next
        fix q assume "q \<in> set ns \<union> {?p}"
        then show "q \<in> {q \<in> filled_set t1. ?B (fst (ss ! q)) = i}"
          using ss(2,4) kl(1) by (auto simp: F ns i_def)
      qed
      then show ?thesis using True unfolding bj by (simp add: Fu Bu su)
    next
      case False
      have "{q \<in> filled_set t1. ?B (fst (ss ! q)) = j} = {q \<in> filled_set t0. ?B (fst (slots t0 ! q)) = j}"
      proof (intro equalityI subsetI)
        fix q assume q: "q \<in> {q \<in> filled_set t1. ?B (fst (ss ! q)) = j}"
        then show "q \<in> {q \<in> filled_set t0. ?B (fst (slots t0 ! q)) = j}"
          using content [of q] False by (auto simp: i_def)
      next
        fix q assume q: "q \<in> {q \<in> filled_set t0. ?B (fst (slots t0 ! q)) = j}"
        then have "q \<in> filled_set t0 - set kl" using False kl(1) by auto
        then show "q \<in> {q \<in> filled_set t1. ?B (fst (ss ! q)) = j}" using q ss(3) by (simp add: F)
      qed
      then show ?thesis using False o(4) unfolding bj by (simp add: Fu Bu su)
    qed
  qed
  have C: "counts_ok u"
  proof -
    have "card (filled_set t1) = card (filled_set t0 - set kl) + card (set ns \<union> {?p})"
      unfolding F Un_assoc by (rule card_Un_disjoint) (use ps(2) in auto)
    also have "card (set ns \<union> {?p}) = length kl + 1" using distinct_card [OF ps(1)] by (simp add: ns)
    also have "card (filled_set t0 - set kl) = card (filled_set t0) - length kl"
      using kl(1) distinct_card [OF kl(2)] by (subst card_Diff_subset) auto
    finally have "card (filled_set t1) = card (filled_set t0) - length kl + (length kl + 1)" .
    moreover have "length kl \<le> card (filled_set t0)"
      using kl(1) distinct_card [OF kl(2)] card_mono [of "filled_set t0" "set kl"] by auto
    ultimately have "filled_count t1 = item_num t0 + 1"
      using filled_set_card [OF perm] filled_set_card [OF l(10)] d(5) by (simp add: counts_ok_def)
    moreover have "item_num u = item_num t0 + 1" "filled_count u = filled_count t1" "begin_it u = Some ?p"
      by (simp_all add: u_def)
    ultimately show ?thesis unfolding counts_ok_def Fu F by simp
  qed
  show "fph_ok T m b u" using L D S B C by (simp add: fph_ok_def)
  show "fph_elements u = insert (key, x) (fph_elements t0)"
  proof -
    have "(\<lambda>q. ss ! q) ` (filled_set t0 - set kl) = (\<lambda>q. slots t0 ! q) ` (filled_set t0 - set kl)"
      by (rule image_cong [OF refl]) (rule ss(3))
    moreover have "(\<lambda>q. ss ! q) ` set ns = (\<lambda>q. slots t0 ! q) ` set kl"
      unfolding ns set_map image_image by (rule image_cong [OF refl]) (rule ss(4))
    moreover have "filled_set t0 = (filled_set t0 - set kl) \<union> set kl" using kl(1) by auto
    ultimately have "(\<lambda>q. ss ! q) ` filled_set t1 = insert (ss ! ?p) ((\<lambda>q. slots t0 ! q) ` filled_set t0)"
      unfolding F image_Un by (simp flip: image_Un)
    then show ?thesis unfolding fph_elements_def Fu su ss(2) .
  qed
qed

text \<open>The state in which the bucket is moved: \<open>t1\<close> has a place for it, the slots are those of \<open>t0\<close>.\<close>

definition place_found :: "('p, 'k, 'v, 'g) fph \<Rightarrow> 'k \<Rightarrow> ('p, 'k, 'v, 'g) fph \<Rightarrow> nat \<Rightarrow> bool" where
  "place_found t0 key t1 m \<longleftrightarrow>
     (let i = complete_get_bucket_index T t0 key;
          kl = key_array (bucket_array t0 ! i);
          ns = map (\<lambda>p. get_slot_pos T t1 (fst (slots t0 ! p))) kl;
          p = get_slot_pos T t1 key
      in same_hash t1 t0 \<and> perm_ok (2 ^ m) t1 \<and>
         (\<forall>k. complete_get_bucket_index T t0 k \<noteq> i \<longrightarrow> get_slot_pos T t1 k = get_slot_pos T t0 k) \<and>
         (bucket_p t1 ! i = bucket_p t0 ! i \<longrightarrow> (\<forall>k. get_slot_pos T t1 k = get_slot_pos T t0 k)) \<and>
         filled_set t1 = (filled_set t0 - set kl) \<union> set ns \<union> {p} \<and> distinct (ns @ [p]) \<and>
         (set ns \<union> {p}) \<inter> (filled_set t0 - set kl) = {})"

lemma place_foundI:
  fixes key :: 'k
  assumes t0: "fph_ok T m b t0"
  defines "i \<equiv> complete_get_bucket_index T t0 key"
  defines "kl \<equiv> key_array (bucket_array t0 ! i)"
  assumes h: "same_hash t1 t0" "perm_ok (2 ^ m) t1" and bp: "bucket_p t1 = (bucket_p t0)[i := bucket_param_value off ob]"
    and r: "off < 2 ^ m" "ob \<le> 1"
  defines "ps \<equiv> map (\<lambda>k. get_slot_pos_at T t0 k (of_nat off) (of_nat ob)) (map (\<lambda>p. fst (slots t0 ! p)) kl @ [key])"
  assumes F: "filled_set t1 = (filled_set t0 - set kl) \<union> set ps" "distinct ps" "set ps \<inter> (filled_set t0 - set kl) = {}"
  shows "place_found t0 key t1 m"
proof -
  note d = fph_okD [OF t0]
  note l = layoutD [OF d(1)]
  have ib: "i < 2 ^ b" unfolding i_def by (rule bucket_index_bound [OF l(6)])
  have "(2::nat) ^ m \<le> 2 ^ 31" by (rule power_increasing) (use l in simp_all)
  then have o31: "off < 2 ^ 31" using r(1) by simp
  have il: "i < length (bucket_p t0)" using ib l(8) by simp
  note mp = moved_pos [OF h(1) bp o31 r(2) il]
  have kb: "complete_get_bucket_index T t0 (fst (slots t0 ! p)) = i" if "p \<in> set kl" for p
    using d(4) ib that by (auto simp: buckets_ok_def kl_def)
  have ns: "map (\<lambda>p. get_slot_pos T t1 (fst (slots t0 ! p))) kl @ [get_slot_pos T t1 key] = ps"
    using mp kb by (simp add: ps_def i_def)
  have "get_slot_pos T t1 k = get_slot_pos T t0 k" if eq: "bucket_p t1 ! i = bucket_p t0 ! i" for k
  proof (rule slot_pos_cong)
    show "bucket_p t1 ! complete_get_bucket_index T t0 k = bucket_p t0 ! complete_get_bucket_index T t0 k"
      using eq by (cases "complete_get_bucket_index T t0 k = i") (simp_all add: bp)
  qed (use h in \<open>auto simp: same_hash_def intro: frame_eqD(1,2)\<close>)
  moreover have "set (map (\<lambda>p. get_slot_pos T t1 (fst (slots t0 ! p))) kl) \<union> {get_slot_pos T t1 key} = set ps"
    unfolding ns [symmetric] by simp
  ultimately show ?thesis
    unfolding place_found_def Let_def i_def [symmetric] kl_def [symmetric] ns Un_assoc using h F mp by auto
qed

text \<open>The slots after the two loops.\<close>

lemma move_loops_ok:
  fixes key :: 'k and t0 t1 :: "('p, 'k, 'v, 'g) fph"
  assumes t0: "fph_ok T m b t0" and pf: "place_found t0 key t1 m"
  defines "i \<equiv> complete_get_bucket_index T t0 key"
  defines "kl \<equiv> key_array (bucket_array t0 ! i)" and "param \<equiv> bucket_p t0 ! i"
  defines "ns \<equiv> map (\<lambda>p. get_slot_pos T t1 (fst (slots t0 ! p))) kl"
    and "new \<equiv> get_slot_pos T t1 (default_fill_key t0)" and "old \<equiv> default_fill_key_address t0"
  assumes mo: "move_out T (ucast (drop_bit 1 param)) (ucast (param AND 1)) new old kl t1
      \<lparr> pair_buf = [], contain_default = False, contain_second = False, fill_new_default = False,
        original_empty = is_slot_empty t0 old \<rparr> = (t2, ms)"
    and mi: "move_in T old (pair_buf ms) t2 [] (original_empty ms) = (t3, ptrs, e)"
  shows "\<exists>ss. t3 = t1\<lparr> slots := ss \<rparr> \<and> length ss = 2 ^ m \<and> ptrs = ns \<and>
    (\<forall>q \<in> filled_set t0 - set kl. ss ! q = slots t0 ! q) \<and>
    (\<forall>p \<in> set kl. ss ! get_slot_pos T t1 (fst (slots t0 ! p)) = slots t0 ! p) \<and>
    gaps (2 ^ m) (filled_set t1) (set kl) old new (default_fill_key t0) (second_default_key t0) ss \<and>
    (contain_default ms \<longleftrightarrow> (\<exists>p \<in> set kl. fst (slots t0 ! p) = default_fill_key t0)) \<and>
    (contain_second ms \<longleftrightarrow> (\<exists>p \<in> set kl. fst (slots t0 ! p) = second_default_key t0)) \<and>
    (fill_new_default ms \<longleftrightarrow> new \<in> set kl) \<and>
    (e \<longleftrightarrow> (old \<notin> filled_set t0 \<or> (new \<in> set kl \<and> new = old)) \<and> old \<notin> set ns)"
proof -
  note d = fph_okD [OF t0]
  note l = layoutD [OF d(1)]
  note pf = pf [unfolded place_found_def Let_def, folded i_def, folded kl_def, folded ns_def]
  have h: "same_hash t1 t0" and dis: "distinct (ns @ [get_slot_pos T t1 key])"
    and F1: "filled_set t1 = (filled_set t0 - set kl) \<union> set ns \<union> {get_slot_pos T t1 key}"
    and sep: "(set ns \<union> {get_slot_pos T t1 key}) \<inter> (filled_set t0 - set kl) = {}" using pf by simp_all
  have fr: "frame t1 = frame t0" using h by (simp add: same_hash_def)
  note fe = frame_eqD [OF fr]
  have ib: "i < 2 ^ b" unfolding i_def by (rule bucket_index_bound [OF l(6)])
  have kl: "set kl = {q \<in> filled_set t0. complete_get_bucket_index T t0 (fst (slots t0 ! q)) = i}" "distinct kl"
    using d(4) ib by (auto simp: buckets_ok_def kl_def)
  have kn: "p < 2 ^ m" if "p \<in> set kl" for p using that kl(1) filled_bound [OF d(1)] by simp
  have at: "get_slot_pos_at T t1 k x y = get_slot_pos_at T t0 k x y" for k x y
    by (rule slot_pos_at_cong) (use h fe in \<open>simp_all add: same_hash_def\<close>)
  have "\<forall>p \<in> set kl. p < length (slots t1) \<and>
      get_slot_pos_at T t1 (fst (slots t1 ! p)) (ucast (drop_bit 1 param)) (ucast (param AND 1)) = p"
  proof
    fix p assume p: "p \<in> set kl"
    have "get_slot_pos T t0 (fst (slots t0 ! p)) = p" using filled_key [OF d(3) kn [OF p]] p kl(1) by simp
    moreover have "complete_get_bucket_index T t0 (fst (slots t0 ! p)) = i" using p kl(1) by simp
    ultimately show "p < length (slots t1) \<and>
        get_slot_pos_at T t1 (fst (slots t1 ! p)) (ucast (drop_bit 1 param)) (ucast (param AND 1)) = p"
      using kn [OF p] l(5) by (simp add: fe at get_slot_pos_eq param_def)
  qed
  note mo1 = move_out_ok [OF kl(2) this, of new old]
  define ms0 :: "('k \<times> 'v option) move_state" where "ms0 = \<lparr> pair_buf = [], contain_default = False, contain_second = False,
    fill_new_default = False, original_empty = is_slot_empty t0 old \<rparr>"
  obtain ss1 ms' where a: "move_out T (ucast (drop_bit 1 param)) (ucast (param AND 1)) new old kl t1 ms0 = (t1\<lparr> slots := ss1 \<rparr>, ms')"
    and l1: "length ss1 = length (slots t1)"
    and n1: "\<forall>q < length (slots t1). ss1 ! q = (if q \<in> set kl
      then ((if q = new then second_default_key t1 else default_fill_key t1), None) else slots t1 ! q)"
    and pb: "pair_buf ms' = pair_buf ms0 @ map (\<lambda>p. slots t1 ! p) kl"
    and ms: "contain_default ms' \<longleftrightarrow> contain_default ms0 \<or> (\<exists>p \<in> set kl. fst (slots t1 ! p) = default_fill_key t1)"
      "contain_second ms' \<longleftrightarrow> contain_second ms0 \<or> (\<exists>p \<in> set kl. fst (slots t1 ! p) = second_default_key t1)"
      "fill_new_default ms' \<longleftrightarrow> fill_new_default ms0 \<or> new \<in> set kl"
      "original_empty ms' \<longleftrightarrow> original_empty ms0 \<or> (new \<in> set kl \<and> new = old)"
    using mo1 [of ms0] by (elim exE conjE) (rule that)
  have t2: "t2 = t1\<lparr> slots := ss1 \<rparr>" "ms' = ms" using a mo by (simp_all add: ms0_def)
  have l1: "length ss1 = 2 ^ m" using l1 l(5) by (simp add: fe)
  have n1: "ss1 ! q = (if q \<in> set kl
      then ((if q = new then second_default_key t0 else default_fill_key t0), None) else slots t0 ! q)" if "q < 2 ^ m" for q
    using n1 that l(5) by (simp add: fe)
  have pb: "pair_buf ms = map (\<lambda>p. slots t0 ! p) kl" using pb by (simp add: t2 fe ms0_def)
  note ms = ms [unfolded t2(2) fe]
  have pos2: "get_slot_pos T t2 k = get_slot_pos T t1 k" for k by (simp add: t2(1))
  have nse: "map (\<lambda>e. get_slot_pos T t2 (fst e)) (pair_buf ms) = ns" by (simp add: pos2 pb ns_def)
  have bnd: "get_slot_pos T t1 k < 2 ^ m" for k by (rule slot_pos_bound) (use l(1) in \<open>simp add: fe\<close>)
  have ps: "distinct (map (\<lambda>e. get_slot_pos T t2 (fst e)) (pair_buf ms))"
    "\<forall>e \<in> set (pair_buf ms). get_slot_pos T t2 (fst e) < length (slots t2)"
    unfolding nse using dis bnd by (simp_all add: pos2 t2(1) l1)
  have nss: "(\<lambda>e. get_slot_pos T t2 (fst e)) ` set (pair_buf ms) = set ns"
    unfolding nse [symmetric] set_map ..
  obtain ss where mi': "(t3, ptrs, e) = (t2\<lparr> slots := ss \<rparr>, [] @ ns, original_empty ms \<and> old \<notin> set ns)"
    and ss: "length ss = length (slots t2)" "\<forall>q. q \<notin> set ns \<longrightarrow> ss ! q = slots t2 ! q"
      "\<forall>x \<in> set (pair_buf ms). ss ! get_slot_pos T t2 (fst x) = x"
    using move_in_ok [OF ps, of old "[]" "original_empty ms", unfolded mi nss nse] by (elim exE conjE) (rule that)
  have ss: "t3 = t2\<lparr> slots := ss \<rparr>" "ptrs = ns" "e = (original_empty ms \<and> old \<notin> set ns)"
    "length ss = 2 ^ m" "\<And>q. q \<notin> set ns \<Longrightarrow> ss ! q = ss1 ! q"
    "\<And>x. x \<in> set (pair_buf ms) \<Longrightarrow> ss ! get_slot_pos T t2 (fst x) = x"
    using mi' ss by (simp_all add: t2(1) l1)
  have "old < 2 ^ m" using slot_pos_bound [OF l(1)] d(2) by (simp add: old_def defaults_ok_def)
  note oe = is_slot_empty_iff [OF d(3,2) this]
  show ?thesis
  proof (rule exI [of _ ss], intro conjI)
    show "t3 = t1\<lparr> slots := ss \<rparr>" "length ss = 2 ^ m" "ptrs = ns" using ss t2(1) by simp_all
    show "\<forall>q \<in> filled_set t0 - set kl. ss ! q = slots t0 ! q"
    proof
      fix q assume q: "q \<in> filled_set t0 - set kl"
      then have "q \<notin> set ns" using sep by auto
      then show "ss ! q = slots t0 ! q" using ss(5) n1 [of q] q filled_bound [OF d(1)] by simp
    qed
    show "\<forall>p \<in> set kl. ss ! get_slot_pos T t1 (fst (slots t0 ! p)) = slots t0 ! p"
      using ss(6) by (simp add: pb pos2)
    show "gaps (2 ^ m) (filled_set t1) (set kl) old new (default_fill_key t0) (second_default_key t0) ss"
      unfolding gaps_def
    proof (intro allI impI)
      fix q assume q: "q < (2::nat) ^ m" "q \<notin> filled_set t1"
      then have "q \<notin> set ns" by (simp add: F1)
      then have e: "ss ! q = ss1 ! q" by (rule ss(5))
      show "ss ! q = ((if q = (if q \<in> set kl then new else old) then second_default_key t0 else default_fill_key t0), None)"
      proof (cases "q \<in> set kl")
        case True
        then show ?thesis by (simp add: e n1 [OF q(1)])
      next
        case False
        then have "q \<notin> filled_set t0" using q(2) by (simp add: F1)
        then show ?thesis using False empty_slot [OF d(3) q(1)] by (simp add: e n1 [OF q(1)] empty_key_def old_def)
      qed
    qed
  qed (use ms ss(3) oe in \<open>simp_all add: ms0_def\<close>)
qed

text \<open>Moving the bucket makes room for the key, provided that the second default key is not an element.\<close>

lemma move_bucket_ok:
  fixes key :: 'k and t0 t1 :: "('p, 'k, 'v, 'g) fph"
  assumes t0: "fph_ok T m b t0" and pf: "place_found t0 key t1 m"
    and ns2: "second_default_key t0 \<notin> fst ` fph_elements t0"
    and r: "move_bucket T L key (complete_get_bucket_index T t0 key) (bucket_p t0 ! complete_get_bucket_index T t0 key)
      (get_slot_pos T t0 (default_fill_key t0)) (is_slot_empty t0 (get_slot_pos T t0 (default_fill_key t0))) t1 = Inr (t', p, ins)"
  shows "alloc_done t0 key t' p \<and> ins"
proof -
  note d = fph_okD [OF t0]
  note l = layoutD [OF d(1)]
  define i where "i = complete_get_bucket_index T t0 key"
  define kl where "kl = key_array (bucket_array t0 ! i)"
  define ns where "ns = map (\<lambda>p. get_slot_pos T t1 (fst (slots t0 ! p))) kl"
  let ?p = "get_slot_pos T t1 key"
  note pf' = pf [unfolded place_found_def Let_def, folded i_def, folded kl_def, folded ns_def]
  have h: "same_hash t1 t0" "perm_ok (2 ^ m) t1" and dis: "distinct (ns @ [?p])"
    and ps: "\<And>k. complete_get_bucket_index T t0 k \<noteq> i \<Longrightarrow> get_slot_pos T t1 k = get_slot_pos T t0 k"
      "\<And>k. bucket_p t1 ! i = bucket_p t0 ! i \<Longrightarrow> get_slot_pos T t1 k = get_slot_pos T t0 k"
    and F1: "filled_set t1 = (filled_set t0 - set kl) \<union> set ns \<union> {?p}"
    and sep: "(set ns \<union> {?p}) \<inter> (filled_set t0 - set kl) = {}" using pf' by simp_all
  have fr: "frame t1 = frame t0" using h by (simp add: same_hash_def)
  note fe = frame_eqD [OF fr]
  have old: "default_fill_key_address t0 = get_slot_pos T t0 (default_fill_key t0)"
    "default_fill_key_bucket_index t0 = complete_get_bucket_index T t0 (default_fill_key t0)"
    using d(2) by (simp_all add: defaults_ok_def)
  let ?new = "get_slot_pos T t1 (default_fill_key t0)" and ?old = "default_fill_key_address t0"
  let ?d = "default_fill_key t0" and ?s = "second_default_key t0"
  have ib: "i < 2 ^ b" unfolding i_def by (rule bucket_index_bound [OF l(6)])
  have kl: "set kl = {q \<in> filled_set t0. complete_get_bucket_index T t0 (fst (slots t0 ! q)) = i}"
    using d(4) ib by (auto simp: buckets_ok_def kl_def)
  have bnd: "get_slot_pos T t1 k < 2 ^ m" for k by (rule slot_pos_bound) (use l(1) in \<open>simp add: fe\<close>)
  have oldn: "?old < 2 ^ m" unfolding old by (rule slot_pos_bound [OF l(1)])
  obtain t2 ms where mo: "move_out T (ucast (drop_bit 1 (bucket_p t0 ! i))) (ucast (bucket_p t0 ! i AND 1)) ?new ?old kl t1
      \<lparr> pair_buf = [], contain_default = False, contain_second = False, fill_new_default = False,
        original_empty = is_slot_empty t0 ?old \<rparr> = (t2, ms)" by (metis surj_pair)
  obtain t3 ptrs e where mi: "move_in T ?old (pair_buf ms) t2 [] (original_empty ms) = (t3, ptrs, e)" by (metis surj_pair)
  let ?ms = "ms\<lparr> original_empty := e \<rparr>"
  obtain ss where t3: "t3 = t1\<lparr> slots := ss \<rparr>" and lss: "length ss = 2 ^ m" and ptrs: "ptrs = ns"
    and ss1: "\<forall>q \<in> filled_set t0 - set kl. ss ! q = slots t0 ! q"
    and ss2: "\<forall>p \<in> set kl. ss ! get_slot_pos T t1 (fst (slots t0 ! p)) = slots t0 ! p"
    and g: "gaps (2 ^ m) (filled_set t1) (set kl) ?old ?new ?d ?s ss"
    and ms: "contain_default ms \<longleftrightarrow> (\<exists>p \<in> set kl. fst (slots t0 ! p) = ?d)"
      "contain_second ms \<longleftrightarrow> (\<exists>p \<in> set kl. fst (slots t0 ! p) = ?s)"
      "fill_new_default ms \<longleftrightarrow> ?new \<in> set kl"
      "e \<longleftrightarrow> (?old \<notin> filled_set t0 \<or> (?new \<in> set kl \<and> ?new = ?old)) \<and> ?old \<notin> set ns"
    using move_loops_ok [OF t0 pf mo [unfolded kl_def i_def] mi] unfolding i_def [symmetric] kl_def [symmetric] ns_def [symmetric]
    by (elim exE conjE) (rule that)
  have pos3: "get_slot_pos T t3 k = get_slot_pos T t1 k" for k by (simp add: t3)
  have f3: "default_fill_key t3 = ?d" "second_default_key t3 = ?s" "default_fill_key_address t3 = ?old"
    "default_fill_key_bucket_index t3 = default_fill_key_bucket_index t0" "bucket_p t3 = bucket_p t1"
    "bucket_array t3 = bucket_array t0" "item_num t3 = item_num t0" "slots t3 = ss"
    by (simp_all add: t3 fe)
  define E where "E = (filled_set t0 - set kl) \<union> set ns"
  have nk: "fst (slots t0 ! q) \<noteq> ?s" if "q \<in> filled_set t0" for q
  proof -
    have "fst (slots t0 ! q) \<in> fst ` fph_elements t0" using that by (simp add: fph_elements_def)
    then show ?thesis using ns2 by metis
  qed
  have EK: "\<exists>p \<in> filled_set t0. ss ! q = slots t0 ! p \<and> (q \<in> set ns \<longrightarrow> p \<in> set kl) \<and> (q \<notin> set ns \<longrightarrow> p = q)" if "q \<in> E" for q
  proof (cases "q \<in> set ns")
    case True
    then obtain p where "p \<in> set kl" "q = get_slot_pos T t1 (fst (slots t0 ! p))" by (auto simp: ns_def)
    then show ?thesis using ss2 kl True by (intro bexI [of _ p]) auto
  next
    case False
    then show ?thesis using that ss1 by (intro bexI [of _ q]) (auto simp: E_def)
  qed
  have cs: "\<not> contain_second ?ms" using ms(2) nk kl by auto
  have EF: "E \<subseteq> filled_set t1" by (auto simp: E_def F1)
  have E2: "\<forall>q \<in> E. fst (ss ! q) \<noteq> ?s"
  proof
    fix q assume "q \<in> E"
    then obtain p where "p \<in> filled_set t0" "ss ! q = slots t0 ! p" using EK by blast
    then show "fst (ss ! q) \<noteq> ?s" using nk by simp
  qed
  have oe1: "original_empty ?ms \<longleftrightarrow> ?old \<notin> set kl \<or> ?old = ?new" if "?old \<notin> filled_set t1"
  proof -
    have "?old \<notin> set ns" "?old \<in> filled_set t0 \<Longrightarrow> ?old \<in> set kl" using that unfolding F1 by blast+
    moreover have "?old \<in> set kl \<Longrightarrow> ?old \<in> filled_set t0" unfolding kl by blast
    ultimately show ?thesis by (auto simp: ms(4))
  qed
  have fn: "fill_new_default ?ms \<longleftrightarrow> ?new \<in> set kl" by (simp add: ms(3))
  have oe2: "?old \<notin> E" if "original_empty ?ms" using that by (auto simp: ms(4) E_def)
  have bkt: "bucket_array t1 = bucket_array t0" by (rule fe)
  note r = r [folded i_def old(1), unfolded move_bucket_def Let_def fe(10) bkt kl_def [symmetric] mo prod.case mi]
  obtain t4 where t4: "renew_second_key T (max_second_key_time L) ?ms t3 = Inr t4"
    using r by (cases "renew_second_key T (max_second_key_time L) ?ms t3") auto
  note r = r [unfolded t4 sum.case]
  have "\<exists>g' ss' s'. t4 = t3\<lparr> key_gen := g', slots := ss', second_default_key := s' \<rparr> \<and>
      gaps (2 ^ m) (filled_set t1) (set kl) ?old ?new ?d s' ss' \<and> (\<forall>q \<in> E. ss' ! q = ss ! q) \<and>
      length ss' = 2 ^ m \<and> get_slot_pos T t1 s' \<noteq> ?new \<and> (?old \<in> E \<longrightarrow> fst (ss ! ?old) \<noteq> s') \<and>
      (second_generated T t3 \<longrightarrow> s' \<in> range (\<lambda>g. fst (next_key T g)))"
    by (rule renew_ok [OF t4 cs, unfolded f3 pos3, OF g oldn bnd lss EF E2 oe1 oe2 fn])
  then obtain g' ss' s' where e4: "t4 = t3\<lparr> key_gen := g', slots := ss', second_default_key := s' \<rparr>"
    and g4: "gaps (2 ^ m) (filled_set t1) (set kl) ?old ?new ?d s' ss'" and E4: "\<forall>q \<in> E. ss' ! q = ss ! q"
    and l4: "length ss' = 2 ^ m" and s4: "get_slot_pos T t1 s' \<noteq> ?new" and o4: "?old \<in> E \<longrightarrow> fst (ss ! ?old) \<noteq> s'"
    and gen4: "second_generated T t3 \<longrightarrow> s' \<in> range (\<lambda>g. fst (next_key T g))"
    by (elim exE conjE) (rule that)
  have pos4: "get_slot_pos T t4 k = get_slot_pos T t1 k" for k
    by (simp add: e4 t3 get_slot_pos_def get_slot_pos_by_seed0_hash_def get_bucket_index_def)
  have f4: "default_fill_key t4 = ?d" "second_default_key t4 = s'" "default_fill_key_address t4 = ?old"
    "default_fill_key_bucket_index t4 = default_fill_key_bucket_index t0" "bucket_p t4 = bucket_p t1" "slots t4 = ss'"
    by (simp_all add: e4 t3 fe)
  have keep: "?new = ?old" if "i \<noteq> default_fill_key_bucket_index t0 \<or> bucket_p t1 ! i = bucket_p t0 ! i"
  proof (cases "complete_get_bucket_index T t0 ?d = i")
    case True
    then have "bucket_p t1 ! i = bucket_p t0 ! i" using that old(2) by simp
    then show ?thesis unfolding old(1) by (rule ps(2))
  next
    case False
    then show ?thesis unfolding old(1) by (rule ps(1))
  qed
  have cd: "?new \<in> filled_set t1 \<and> (?old \<notin> filled_set t1 \<longrightarrow> ?old \<in> set kl)" if c: "contain_default ?ms"
  proof -
    obtain q where q: "q \<in> set kl" "fst (slots t0 ! q) = ?d" using c ms(1) by auto
    then have "q = ?old" using filled_key [OF d(3) filled_bound [OF d(1)], of q] kl by (simp add: old)
    moreover have "?new \<in> set ns" unfolding ns_def set_map by (rule image_eqI [OF _ q(1)]) (simp add: q(2))
    ultimately show ?thesis using q(1) by (simp add: F1)
  qed
  have ncd: "fst (ss' ! ?new) \<noteq> ?d" if c: "\<not> contain_default ?ms" "i = default_fill_key_bucket_index t0" "?new \<in> E"
  proof
    assume k: "fst (ss' ! ?new) = ?d"
    obtain q where q: "q \<in> filled_set t0" "ss ! ?new = slots t0 ! q" using EK [OF c(3)] by blast
    then have "fst (slots t0 ! q) = ?d" using k E4 c(3) by simp
    moreover then have "q \<in> set kl" using q(1) kl c(2) old(2) by simp
    ultimately show False using c(1) ms(1) by auto
  qed
  have el: "fst (ss' ! ?old) \<noteq> s'" if "?old \<in> E" using that o4 E4 by simp
  obtain sf where e5: "move_default_address T i (bucket_p t0 ! i) ?ms t4 = t4\<lparr> slots := sf, default_fill_key_address := ?new \<rparr>"
    and l5: "length sf = 2 ^ m" and E5: "\<forall>q \<in> E. sf ! q = ss' ! q"
    and g5: "\<forall>q < 2 ^ m. q \<notin> filled_set t1 \<longrightarrow> sf ! q = ((if q = ?new then s' else ?d), None)"
    using move_default_ok [OF cs, of "2 ^ m" "filled_set t1" "set kl" t4 E i "bucket_p t0 ! i", unfolded f4 pos4,
        OF g4 oldn bnd l4 s4 el keep cd ncd] by blast
  define t5 where "t5 = t4\<lparr> slots := sf, default_fill_key_address := ?new \<rparr>"
  have pos5: "get_slot_pos T t5 k = get_slot_pos T t1 k" for k
    by (simp add: t5_def e4 t3 get_slot_pos_def get_slot_pos_by_seed0_hash_def get_bucket_index_def)
  let ?bk = "(bucket_array t0 ! i)\<lparr> key_array := ns @ [?p], entry_cnt := entry_cnt (bucket_array t0 ! i) + 1 \<rparr>"
  have b5: "bucket_array t5 = bucket_array t0" "item_num t5 = item_num t0" by (simp_all add: t5_def e4 t3 fe)
  have res: "t' = t5\<lparr> bucket_array := (bucket_array t0)[i := ?bk], begin_it := Some ?p, item_num := item_num t0 + 1 \<rparr>"
    "p = ?p" ins
    using r unfolding e5 t5_def [symmetric] pos5 b5 ptrs by (auto simp: new_iterator_def b5)
  have t'sl: "slots t' = sf" by (simp add: res t5_def)
  have pE: "?p \<notin> E" using dis sep by (auto simp: E_def)
  have pn: "?p < 2 ^ m" by (rule bnd)
  have final: "fph_ok T m b (t'\<lparr> slots := (slots t')[?p := (key, x)] \<rparr>) \<and>
      fph_elements (t'\<lparr> slots := (slots t')[?p := (key, x)] \<rparr>) = insert (key, x) (fph_elements t0)" for x
  proof -
    let ?ss = "sf[?p := (key, x)]"
    have Ess: "?ss ! q = ss ! q" if "q \<in> E" for q
    proof -
      have "q \<noteq> ?p" using that pE by auto
      then show ?thesis using that E4 E5 by simp
    qed
    have u: "t'\<lparr> slots := (slots t')[?p := (key, x)] \<rparr> = t1\<lparr> key_gen := g', slots := ?ss, second_default_key := s',
      default_fill_key_address := ?new, bucket_array := (bucket_array t0)[i := ?bk], begin_it := Some ?p, item_num := item_num t0 + 1 \<rparr>"
      by (simp add: t'sl) (simp add: res t5_def e4 t3)
    have c1: "length ?ss = 2 ^ m" "?ss ! ?p = (key, x)" using l5 pn by simp_all
    have c2: "?ss ! q = slots t0 ! q" if "q \<in> filled_set t0 - set kl" for q using that Ess ss1 by (simp add: E_def)
    have c3: "?ss ! get_slot_pos T t1 (fst (slots t0 ! q)) = slots t0 ! q" if "q \<in> set kl" for q
    proof -
      have "get_slot_pos T t1 (fst (slots t0 ! q)) \<in> E" using that by (simp add: E_def ns_def)
      from Ess [OF this] show ?thesis using ss2 that by simp
    qed
    have c4: "?ss ! q = ((if q = ?new then s' else ?d), None)" if "q < 2 ^ m" "q \<notin> filled_set t1" for q
    proof -
      have "q \<noteq> ?p" using that(2) by (auto simp: F1)
      then show ?thesis using g5 that by simp
    qed
    note mv = moved_ok [OF t0 h, of key, folded i_def, folded kl_def, folded ns_def, OF ps(1) F1 dis sep c1 c2 c3 c4 s4]
    show ?thesis unfolding u by (rule conjI [OF mv])
  qed
  have fu: "filled_set (t'\<lparr> slots := (slots t')[?p := (key, x)] \<rparr>) = filled_set t1" for x
    by (simp add: res t5_def e4 t3 filled_set_def is_filled_def)
  have gen: "second_generated T t0 \<Longrightarrow> second_generated T t'"
    using gen4 f3(2) by (simp add: second_generated_def res t5_def e4)
  show ?thesis unfolding alloc_done_def res(2)
    using final gen fu pn l5 res(3) by (auto simp: F1 t'sl)
qed

section \<open>Insertion\<close>

lemma match_place:
  fixes key :: 'k and t0 t1 :: "('p, 'k, 'v, 'g) fph"
  assumes t0: "fph_ok T m b t0"
  defines "i \<equiv> complete_get_bucket_index T t0 key"
  assumes mp: "match_pattern T (map (\<lambda>p. fst (slots t0 ! p)) (key_array (bucket_array t0 ! i)) @ [key])
      (bucket_idx (bucket_array t0 ! i)) (unat (drop_bit 1 (bucket_p t0 ! i))) True
      [unat (bucket_p t0 ! i AND 1)..<2] t0 = (t1, ok)"
  shows "if ok then place_found t0 key t1 m
    else frame t1 = frame t0 \<and> length (bucket_p t1) = length (bucket_p t0) \<and> seed2_test_table t1 = seed2_test_table t0"
proof -
  note d = fph_okD [OF t0]
  note l = layoutD [OF d(1)]
  define kl where "kl = key_array (bucket_array t0 ! i)"
  let ?ks = "map (\<lambda>p. fst (slots t0 ! p)) kl @ [key]" and ?param = "bucket_p t0 ! i"
  let ?off = "unat (drop_bit 1 ?param)" and ?ob = "unat (?param AND 1)"
  have ib: "i < 2 ^ b" unfolding i_def by (rule bucket_index_bound [OF l(6)])
  have kl: "set kl = {q \<in> filled_set t0. complete_get_bucket_index T t0 (fst (slots t0 ! q)) = i}" "distinct kl"
    "bucket_idx (bucket_array t0 ! i) = i"
    using d(4) ib by (auto simp: buckets_ok_def kl_def)
  have klf: "set kl \<subseteq> filled_set t0" unfolding kl(1) by blast
  have ob1: "?ob \<le> 1" using and_mask_mod [of ?param 1] by simp
  then have bits: "[?ob..<2] = ?ob # [Suc ?ob..<2]" by (simp add: upt_conv_Cons)
  let ?f = "\<lambda>k. complete_hash T t0 k (mix_seed_and_bit (seed2 t0) (of_nat ?ob))"
  have "butlast (map ?f ?ks) = map ?f (map (\<lambda>p. fst (slots t0 ! p)) kl)" by (simp add: butlast_append)
  then have "pattern_positions T t0 (butlast (map ?f ?ks)) ?off =
      map (\<lambda>k. get_slot_pos_at T t0 k (of_nat ?off) (of_nat ?ob)) (map (\<lambda>p. fst (slots t0 ! p)) kl)"
    by (simp only: pattern_positions_at)
  also have "\<dots> = map (\<lambda>p. p) kl"
    unfolding map_map
  proof (rule map_cong [OF refl])
    fix p assume p: "p \<in> set kl"
    have pn: "p < 2 ^ m" using p klf filled_bound [OF d(1)] by auto
    have "get_slot_pos T t0 (fst (slots t0 ! p)) = p" using filled_key [OF d(3) pn] p klf by auto
    moreover have "complete_get_bucket_index T t0 (fst (slots t0 ! p)) = i" using p kl(1) by simp
    ultimately show "((\<lambda>k. get_slot_pos_at T t0 k (of_nat ?off) (of_nat ?ob)) \<circ> (\<lambda>p. fst (slots t0 ! p))) p = p"
      by (simp add: get_slot_pos_eq)
  qed
  finally have pos: "pattern_positions T t0 (butlast (map ?f ?ks)) ?off = kl" by simp
  let ?t = "free_slots kl t0"
  have mp': "match_pattern T ?ks i ?off False (?ob # [Suc ?ob..<2]) ?t = (t1, ok)"
    using mp [folded kl_def] unfolding bits match_first pos kl(3) .
  have fs: "perm_ok (2 ^ m) ?t" "filled_set ?t = filled_set t0 - set kl"
    using free_slots_ok [OF l(10) kl(2) klf] by simp_all
  have bs: "set (?ob # [Suc ?ob..<2]) \<subseteq> {0, 1}" using ob1 by auto
  have at: "get_slot_pos_at T ?t k x y = get_slot_pos_at T t0 k x y" for k x y by (rule slot_pos_at_cong) simp_all
  note mo = match_pattern_ok [OF mp' bs fs(1), unfolded free_slots_fields at fs(2), OF l(1,3,11,4)]
  have h: "same_hash t1 t0" using conjunct1 [OF mo] same_hash_free [of kl t0] by (rule same_hash_trans)
  show ?thesis
  proof (cases ok)
    case False
    then show ?thesis using h by (simp add: same_hash_def)
  next
    case True
    from mo True obtain off ob where r: "off < 2 ^ m" "ob \<le> 1" and perm: "perm_ok (2 ^ m) t1"
      and q: "let ps = map (\<lambda>k. get_slot_pos_at T t0 k (of_nat off) (of_nat ob)) ?ks in
        bucket_p t1 = (bucket_p t0)[i := bucket_param_value off ob] \<and>
        filled_set t1 = filled_set t0 - set kl \<union> set ps \<and> distinct ps \<and> set ps \<inter> (filled_set t0 - set kl) = {}" by auto
    note q = q [unfolded Let_def]
    have "place_found t0 key t1 m"
      by (rule place_foundI [OF t0 h perm, of key off ob, folded i_def, folded kl_def]) (use q r in auto)
    then show ?thesis using True by simp
  qed
qed

lemma place_key_ok:
  fixes key :: 'k and t :: "('p, 'k, 'v, 'g) fph"
  assumes t: "fph_ok T m b t" and s: "second_default_key t \<notin> fst ` fph_elements t" and r: "place_key T L key t = Inr (t', p, ins)"
  shows "if ins then (\<forall>x. (key, x) \<notin> fph_elements t) \<and> alloc_done t key t' p
    else t' = t \<and> p \<in> filled_set t \<and> fst (slots t ! p) = key"
proof -
  note d = fph_okD [OF t]
  let ?pos = "get_slot_pos T t key" and ?i = "complete_get_bucket_index T t key"
  have ph: "get_slot_pos_by_seed0_hash T t (seed_hash T key (seed0 t)) = ?pos" by (simp add: get_slot_pos_def)
  have bi: "get_bucket_index T t (seed_hash T key (seed0 t)) = ?i" by (simp add: complete_get_bucket_index_def)
  show ?thesis
  proof (cases "fst (slots t ! ?pos) = key")
    case True
    then have "t' = t" "p = ?pos" "\<not> ins" using r by (auto simp: place_key_def Let_def ph)
    then show ?thesis using True found_filled [OF d(1,3,2)] by simp
  next
    case False
    have nk: "(key, x) \<notin> fph_elements t" for x
    proof
      assume "(key, x) \<in> fph_elements t"
      then obtain q where "q \<in> filled_set t" "slots t ! q = (key, x)" by (auto simp: fph_elements_def)
      then have "fst (slots t ! ?pos) = key" using found_iff [OF d(1,3,2)] by force
      with False show False ..
    qed
    show ?thesis
    proof (cases "is_slot_empty t ?pos")
      case True
      then have "t' = alloc_empty T (seed_hash T key (seed0 t)) ?pos t" "p = ?pos" ins
        using r False by (auto simp: place_key_def Let_def ph)
      then show ?thesis using alloc_empty_ok [OF t True] nk by simp
    next
      case ne: False
      obtain t1 ok where mp: "match_pattern T (map (\<lambda>p. fst (slots t ! p)) (key_array (bucket_array t ! ?i)) @ [key])
        (bucket_idx (bucket_array t ! ?i)) (unat (drop_bit 1 (bucket_p t ! ?i))) True
        [unat (bucket_p t ! ?i AND 1)..<2] t = (t1, ok)" by (metis surj_pair)
      note ma = match_place [OF t mp]
      note r = r [unfolded place_key_def Let_def ph bi if_not_P [OF False] if_not_P [OF ne] mp prod.case]
      show ?thesis
      proof (cases ok)
        case True
        then have "place_found t key t1 m" using ma by simp
        moreover have "move_bucket T L key ?i (bucket_p t ! ?i) (get_slot_pos T t (default_fill_key t))
          (is_slot_empty t (get_slot_pos T t (default_fill_key t))) t1 = Inr (t', p, ins)" using r True by simp
        ultimately have "alloc_done t key t' p \<and> ins" by (rule move_bucket_ok [OF t _ s])
        then show ?thesis using nk by simp
      next
        case nok: False
        then have "rebuild_with_key T L key t1 = Inr (t', p, ins)" using r by simp
        moreover have "frame t1 = frame t" "length (bucket_p t1) = length (bucket_p t)" "seed2_test_table t1 = seed2_test_table t"
          using ma nok by simp_all
        ultimately have "alloc_done t key t' p" ins using rebuild_ok [OF t, of t1] by blast+
        then show ?thesis using nk by simp
      qed
    qed
  qed
qed

text \<open>The whole insertion, with the growth of a full table before it.\<close>

lemma find_or_alloc_ok:
  fixes key :: 'k and t :: "('p, 'k, 'v, 'g) fph"
  assumes t: "\<exists>m b. fph_ok T m b t" and s: "\<And>g. fst (next_key T g) \<notin> fst ` fph_elements t" "second_generated T t"
    and r: "find_or_alloc T L key t = Inr (t', p, ins)"
  shows "\<exists>t1. (\<exists>m b. fph_ok T m b t1) \<and> fph_elements t1 = fph_elements t \<and> second_generated T t1 \<and>
    (if ins then (\<forall>x. (key, x) \<notin> fph_elements t1) \<and> alloc_done t1 key t' p
     else t' = t1 \<and> p \<in> filled_set t1 \<and> fst (slots t1 ! p) = key)"
proof -
  obtain m b where ok: "fph_ok T m b t" using t by blast
  obtain t1 where t1: "expand_when_full T L t = Inr t1" and pk: "place_key T L key t1 = Inr (t', p, ins)"
    using r by (auto simp: find_or_alloc_def split: sum.splits)
  have e: "(\<exists>m b. fph_ok T m b t1) \<and> fph_elements t1 = fph_elements t \<and> second_generated T t1"
  proof (cases "should_expand_item_num t < item_num t + 1 \<and> ceil2_size (item_num_ceil t + 1) \<le> MAX_ITEM_NUM_CEIL_LIMIT")
    case True
    then have "fph_rehash T L (item_num_ceil t + 1) t = Inr t1" using t1 by (simp add: expand_when_full_def)
    from rehash_ok [OF ok this] s(2) show ?thesis by blast
  next
    case False
    have "t1 = t" using t1 unfolding expand_when_full_def if_not_P [OF False] by simp
    then show ?thesis using t s(2) by simp
  qed
  then obtain m1 b1 where ok1: "fph_ok T m1 b1 t1" and el: "fph_elements t1 = fph_elements t" "second_generated T t1" by blast
  obtain g where "second_default_key t1 = fst (next_key T g)" using el(2) by (auto simp: second_generated_def)
  then have "second_default_key t1 \<notin> fst ` fph_elements t1" using s(1) [of g] el(1) by simp
  from place_key_ok [OF ok1 this pk] e show ?thesis by (intro exI [of _ t1]) simp
qed

end

end
