(* ===== verification/Fph_Map.thy ===== *)
theory Fph_Map
  imports Fph_Move_Correct
begin

text \<open>
  The dynamic perfect hash table as a map: every operation acts on the map the table stands for as
  its name says, and the invariant holds in every state a program can reach. The one condition is
  that the key generator never gives a key that is inserted.
\<close>

section \<open>What every operation does to the map\<close>

definition gen_keys :: "('p, 'k, 'r, 'g) fph_types \<Rightarrow> 'k set" where
  "gen_keys T = range (\<lambda>g. fst (next_key T g))"

text \<open>The invariant with the origin of the second default key.\<close>

definition fph_good :: "('p, 'k, 'r, 'g) fph_types \<Rightarrow> ('p, 'k, 'v, 'g) fph \<Rightarrow> bool" where
  "fph_good T t \<longleftrightarrow> fph_inv T t \<and> second_generated T t"

lemma map_eqI: "(\<And>k v. f k = Some v \<longleftrightarrow> g k = Some v) \<Longrightarrow> f = (g :: 'a \<rightharpoonup> 'b)"
proof (rule ext)
  fix k
  assume e: "\<And>k v. f k = Some v \<longleftrightarrow> g k = Some v"
  show "f k = g k"
  proof (cases "g k")
    case None
    then show ?thesis using e [of k "the (f k)"] by (cases "f k") simp_all
  next
    case (Some v)
    then show ?thesis using e [of k v] by simp
  qed
qed

context fph_table
begin

lemma inv_elements: "fph_inv T t \<longleftrightarrow> (\<exists>m b. fph_ok T m b t) \<and> (\<forall>e \<in> fph_elements t. snd e \<noteq> None)"
  by (simp add: fph_inv_def fph_elements_def)

lemma elements_map_ok: "\<exists>m b. fph_ok T m b t \<Longrightarrow> fph_map T t k = Some v \<longleftrightarrow> (k, Some v) \<in> fph_elements t"
  by (elim exE) (rule elements_map)

lemma same_elements_map:
  assumes "\<exists>m b. fph_ok T m b t" "\<exists>m b. fph_ok T m b t'" "fph_elements t' = fph_elements t"
  shows "fph_map T t' = fph_map T t"
  by (rule map_eqI) (simp only: elements_map_ok [OF assms(1)] elements_map_ok [OF assms(2)] assms(3))

lemma good_dom:
  assumes "fph_inv T t"
  shows "dom (fph_map T t) = fst ` fph_elements t"
proof (intro equalityI subsetI)
  fix k assume "k \<in> dom (fph_map T t)"
  then obtain v where "(k, Some v) \<in> fph_elements t"
    using elements_map_ok [OF conjunct1 [OF assms [unfolded inv_elements]]] by auto
  then show "k \<in> fst ` fph_elements t" by force
next
  fix k assume "k \<in> fst ` fph_elements t"
  then obtain x where x: "(k, x) \<in> fph_elements t" by auto
  then obtain v where "x = Some v" using assms unfolding inv_elements by fastforce
  then have "fph_map T t k = Some v"
    using elements_map_ok [OF conjunct1 [OF assms [unfolded inv_elements]], of k v] x by simp
  then show "k \<in> dom (fph_map T t)" by blast
qed

lemma inv_empty: "fph_ok T m b t \<Longrightarrow> fph_elements t = {} \<Longrightarrow> fph_inv T t \<and> fph_map T t = Map.empty"
  using elements_map [of m b t] by (auto simp: inv_elements intro!: map_eqI)

text \<open>Emplacement: a key that is there is left alone.\<close>

lemma try_emplace_ok:
  assumes t: "fph_good T t" and gen: "dom (fph_map T t) \<inter> gen_keys T = {}" and r: "try_emplace T L k v t = Inr (t', it, ins)"
  shows "fph_good T t' \<and> fph_map T t' = (if k \<in> dom (fph_map T t) then fph_map T t else (fph_map T t)(k \<mapsto> v)) \<and>
    (ins \<longleftrightarrow> k \<notin> dom (fph_map T t)) \<and> (\<exists>p \<in> filled_set t'. it = iterator_at (Some p) \<and> slots t' ! p = (k, fph_map T t' k))"
proof -
  have inv: "fph_inv T t" "second_generated T t" using t by (simp_all add: fph_good_def)
  have ok: "\<exists>m b. fph_ok T m b t" using inv(1) by (simp add: fph_inv_def)
  have nk: "fst (next_key T g) \<notin> fst ` fph_elements t" for g
    using gen unfolding good_dom [OF inv(1)] gen_keys_def by blast
  obtain u p where u: "find_or_alloc T L k t = Inr (u, p, ins)" "t' = (if ins then construct_at p k v u else u)"
    "it = iterator_at (Some p)"
    using r by (auto simp: try_emplace_def split: sum.splits)
  obtain t1 where t1: "\<exists>m b. fph_ok T m b t1" "fph_elements t1 = fph_elements t" "second_generated T t1"
    "if ins then (\<forall>x. (k, x) \<notin> fph_elements t1) \<and> alloc_done t1 k u p
     else u = t1 \<and> p \<in> filled_set t1 \<and> fst (slots t1 ! p) = k"
    using find_or_alloc_ok [OF ok nk inv(2) u(1)] by blast
  have m1: "fph_map T t1 = fph_map T t" by (rule same_elements_map [OF ok t1(1,2)])
  have inv1: "fph_inv T t1" using t1(1,2) inv(1) by (simp add: inv_elements)
  show ?thesis
  proof (cases ins)
    case False
    then have f: "t' = t1" "p \<in> filled_set t1" "fst (slots t1 ! p) = k" using t1(4) u(2) by simp_all
    have "fph_map T t1 k = snd (slots t1 ! p)" using fph_map_filled f t1(1) fph_okD by metis
    moreover have "k \<in> dom (fph_map T t)"
      using f(2,3) good_dom [OF inv1] unfolding m1 by (auto simp: fph_elements_def)
    ultimately show ?thesis using False f inv1 t1(3) u(3) m1 by (auto simp: fph_good_def prod_eq_iff)
  next
    case True
    then have nok: "\<And>x. (k, x) \<notin> fph_elements t1" and ad: "alloc_done t1 k u p" using t1(4) by simp_all
    have t': "t' = u\<lparr> slots := (slots u)[p := (k, Some v)] \<rparr>" using True u(2) by (simp add: construct_at_def)
    note ad = ad [unfolded alloc_done_def]
    have o: "\<exists>m b. fph_ok T m b t'" "fph_elements t' = insert (k, Some v) (fph_elements t)" "p \<in> filled_set t'"
      "p < length (slots u)" "second_generated T u"
      using ad t1(2,3) unfolding t' by blast+
    have kd: "k \<notin> dom (fph_map T t)" using nok t1(2) unfolding good_dom [OF inv(1)] by force
    have "fph_map T t' j = Some w \<longleftrightarrow> ((fph_map T t)(k \<mapsto> v)) j = Some w" for j w
      unfolding elements_map_ok [OF o(1)] o(2) using elements_map_ok [OF ok, of j w] kd by auto
    then have mp: "fph_map T t' = (fph_map T t)(k \<mapsto> v)" by (rule map_eqI)
    have "fph_inv T t'" using o(1,2) inv(1) by (simp add: inv_elements)
    moreover have "second_generated T t'" using o(5) by (simp add: t' second_generated_def)
    moreover have "slots t' ! p = (k, Some v)" using o(4) by (simp add: t')
    ultimately show ?thesis using True kd mp o(3) u(3) by (auto simp: fph_good_def)
  qed
qed

lemma insert_range_ok:
  assumes "fph_good T t" "dom (fph_map T t) \<inter> gen_keys T = {}" "fst ` set es \<inter> gen_keys T = {}"
    "fph_insert_range T L es t = Inr t'"
  shows "fph_good T t' \<and> fph_map T t' = map_of es ++ fph_map T t"
  using assms
proof (induction es arbitrary: t)
  case (Cons e es)
  obtain k v where e: "e = (k, v)" by (cases e)
  obtain t1 it ins where t1: "try_emplace T L k v t = Inr (t1, it, ins)" "fph_insert_range T L es t1 = Inr t'"
    using Cons.prems(4) by (auto simp: fph_insert_def e split: sum.splits)
  note te = try_emplace_ok [OF Cons.prems(1,2) t1(1)]
  then have d: "dom (fph_map T t1) \<inter> gen_keys T = {}" using Cons.prems(2,3) by (auto simp: e split: if_splits)
  have IH: "fph_good T t' \<and> fph_map T t' = map_of es ++ fph_map T t1"
    using te Cons.prems(3) t1(2) by (intro Cons.IH d) auto
  have eq: "map_of es ++ fph_map T t1 = map_of (e # es) ++ fph_map T t"
    using te by (auto simp: e map_add_def fun_eq_iff split: option.splits if_splits)
  show ?case using IH unfolding eq .
qed simp

text \<open>A build from elements with values gives their map; it does not succeed when a key occurs twice.\<close>

lemma build_elements_ok:
  assumes t: "\<exists>m b. fph_ok T m b t" and b: "build_imp T L False False (map (\<lambda>(k, v). (k, Some v)) es) s t = Inr t'"
  shows "distinct (map fst es) \<and> fph_good T t' \<and> fph_map T t' = map_of es"
proof -
  let ?es = "map (\<lambda>(k, v). (k, Some v)) es"
  obtain m b where l: "layout_ok T m b t" using t fph_okD(1) by blast
  obtain m' b' where o: "fph_ok T m' b' t'" "distinct (map fst ?es)"
    "filled_set t' = (\<lambda>e. get_slot_pos T t' (fst e)) ` set ?es" "\<forall>e \<in> set ?es. slots t' ! get_slot_pos T t' (fst e) = e"
    using build_imp_ok [OF b, of m] layoutD(9,11) [OF l] by auto
  have el: "fph_elements t' = set ?es" unfolding fph_elements_def o(3) using o(4) by (force simp: image_image)
  have fst: "map fst ?es = map fst es" by (auto simp: case_prod_beta)
  have "fph_map T t' k = Some v \<longleftrightarrow> map_of es k = Some v" for k v
    using elements_map [OF o(1), of k v] o(2) unfolding fst el by (force simp: case_prod_beta)
  then have "fph_map T t' = map_of es" by (rule map_eqI)
  moreover have "fph_inv T t'" using o(1) by (auto simp: inv_elements el)
  ultimately show ?thesis using o(2) [unfolded fst] build_second [OF b] by (simp add: fph_good_def)
qed

lemma rehash_good:
  assumes "fph_good T t" "fph_rehash T L n t = Inr t'"
  shows "fph_good T t' \<and> fph_map T t' = fph_map T t"
proof -
  obtain m b where t: "fph_ok T m b t" using assms(1) by (auto simp: fph_good_def fph_inv_def)
  note r = rehash_ok [OF t assms(2)]
  show ?thesis using assms(1) r same_elements_map [OF _ r(1,2)] t by (auto simp: fph_good_def inv_elements)
qed

lemma erase_good:
  assumes "fph_good T t" "erase_key T t k = (t', n)"
  shows "fph_good T t' \<and> fph_map T t' = (fph_map T t)(k := None) \<and> n = (if fph_map T t k = None then 0 else 1)"
proof -
  obtain m b where t: "fph_ok T m b t" and v: "\<forall>p \<in> filled_set t. snd (slots t ! p) \<noteq> None"
    using assms(1) by (auto simp: fph_good_def fph_inv_def)
  have "second_default_key t' = second_default_key t"
    using assms(2) by (auto simp: erase_key_def erase_imp_def Let_def split: if_splits)
  then show ?thesis using erase_key_ok [OF t v assms(2)] assms(1)
    by (auto simp: fph_good_def fph_inv_def second_generated_def)
qed

lemma clear_good:
  assumes "fph_good T t"
  shows "fph_good T (fph_clear T t) \<and> fph_map T (fph_clear T t) = Map.empty"
proof -
  obtain m b where t: "fph_ok T m b t" using assms by (auto simp: fph_good_def fph_inv_def)
  have "second_default_key (fph_clear T t) = second_default_key t" by (simp add: fph_clear_def Let_def)
  then show ?thesis using clear_ok [OF t] assms by (auto simp: fph_good_def fph_inv_def second_generated_def)
qed

lemma max_load_good:
  assumes "fph_good T t"
  shows "fph_good T (set_max_load_factor ml t) \<and> fph_map T (set_max_load_factor ml t) = fph_map T t"
proof -
  obtain m b where t: "fph_ok T m b t" using assms by (auto simp: fph_good_def fph_inv_def)
  have e: "fph_elements (set_max_load_factor ml t) = fph_elements t"
    by (simp add: fph_elements_def set_max_load_factor_def filled_set_def is_filled_def)
  have "second_default_key (set_max_load_factor ml t) = second_default_key t" by (simp add: set_max_load_factor_def)
  then show ?thesis using max_load_ok [OF t, of ml] e assms same_elements_map [OF _ _ e] t
    by (auto simp: fph_good_def inv_elements second_generated_def)
qed

lemma copy_good:
  assumes "fph_good T t"
  shows "fph_good T (fph_copy T t) \<and> fph_map T (fph_copy T t) = fph_map T t"
proof -
  obtain m b where t: "fph_ok T m b t" using assms by (auto simp: fph_good_def fph_inv_def)
  note d = fph_okD [OF t]
  note l = layoutD [OF d(1)]
  define bp where "bp = take (bucket_num t) (bucket_p t) @ map (raw_param T) [bucket_num t..<bucket_capacity t]"
  let ?t = "t\<lparr> bucket_p := bp \<rparr>"
  have B: "complete_get_bucket_index T ?t k = complete_get_bucket_index T t k" for k
    by (rule bucket_index_cong) simp_all
  have pos: "get_slot_pos T ?t k = get_slot_pos T t k" for k
  proof (rule slot_pos_cong)
    have "complete_get_bucket_index T t k < 2 ^ b" by (rule bucket_index_bound [OF l(6)])
    then show "bucket_p ?t ! complete_get_bucket_index T t k = bucket_p t ! complete_get_bucket_index T t k"
      using l(7,8) by (simp add: bp_def nth_append)
  qed simp_all
  have "map (\<lambda>b. b\<lparr> key_array := map (\<lambda>p. get_slot_pos T ?t (fst (slots t ! p))) (key_array b) \<rparr>) (bucket_array t) = bucket_array t"
  proof (rule map_idI)
    fix bk assume "bk \<in> set (bucket_array t)"
    then obtain i where i: "i < 2 ^ b" "bk = bucket_array t ! i" using d(4) by (auto simp: buckets_ok_def in_set_conv_nth)
    have "get_slot_pos T ?t (fst (slots t ! p)) = p" if "p \<in> set (key_array bk)" for p
    proof -
      have "p \<in> filled_set t" using that i d(4) by (auto simp: buckets_ok_def)
      then show ?thesis using filled_key [OF d(3) filled_bound [OF d(1)]] by (simp add: pos)
    qed
    then have "map (\<lambda>p. get_slot_pos T ?t (fst (slots t ! p))) (key_array bk) = key_array bk" by (intro map_idI)
    then show "bk\<lparr> key_array := map (\<lambda>p. get_slot_pos T ?t (fst (slots t ! p))) (key_array bk) \<rparr> = bk" by simp
  qed
  then have e: "fph_copy T t = ?t" by (simp add: fph_copy_def Let_def bp_def [symmetric])
  have F: "filled_set ?t = filled_set t" "empty_key ?t p = empty_key t p" for p
    by (simp_all add: filled_set_def is_filled_def empty_key_def)
  have "layout_ok T m b ?t" using d(1) by (simp add: layout_ok_def perm_ok_def bp_def)
  moreover have "defaults_ok T ?t" using d(2) by (simp add: defaults_ok_def pos B)
  moreover have "slots_ok T m ?t" using d(3) by (simp add: slots_ok_def pos F)
  moreover have "buckets_ok T b ?t" using d(4) by (simp add: buckets_ok_def B F)
  moreover have "counts_ok ?t" using d(5) by (auto simp: counts_ok_def F split: option.splits)
  ultimately have ok: "fph_ok T m b (fph_copy T t)" by (simp add: e fph_ok_def)
  moreover have el: "fph_elements (fph_copy T t) = fph_elements t" by (simp add: e fph_elements_def F)
  moreover have "second_default_key (fph_copy T t) = second_default_key t" by (simp add: e)
  ultimately show ?thesis using assms same_elements_map [OF _ _ el] t
    by (auto simp: fph_good_def inv_elements second_generated_def)
qed

end

section \<open>What a program can do with a table\<close>

datatype ('k, 'v) fph_call =
    Call_emplace 'k 'v
  | Call_insert "('k \<times> 'v) list"
  | Call_insert_new "('k \<times> 'v) list"
  | Call_subscript 'k
  | Call_erase 'k
  | Call_clear
  | Call_rehash nat
  | Call_reserve nat
  | Call_max_load rat
  | Call_copy

text \<open>One call that returns; \<open>init\<close> is the value \<open>operator[]\<close> creates.\<close>

inductive fph_step for T L init where
  step_emplace: "fph_emplace T L k v t = Inr (t', it, ins) \<Longrightarrow> fph_step T L init t (Call_emplace k v) t'"
| step_insert: "fph_insert_range T L es t = Inr t' \<Longrightarrow> fph_step T L init t (Call_insert es) t'"
| step_insert_new: "insert_no_duplicated T L es t = Inr t' \<Longrightarrow> fph_step T L init t (Call_insert_new es) t'"
| step_subscript: "fph_subscript T L k init t = Inr (t', p) \<Longrightarrow> fph_step T L init t (Call_subscript k) t'"
| step_erase: "erase_key T t k = (t', n) \<Longrightarrow> fph_step T L init t (Call_erase k) t'"
| step_clear: "fph_step T L init t Call_clear (fph_clear T t)"
| step_rehash: "fph_rehash T L n t = Inr t' \<Longrightarrow> fph_step T L init t (Call_rehash n) t'"
| step_reserve: "fph_reserve T L n t = Inr t' \<Longrightarrow> fph_step T L init t (Call_reserve n) t'"
| step_max_load: "fph_step T L init t (Call_max_load ml) (set_max_load_factor ml t)"
| step_copy: "fph_step T L init t Call_copy (fph_copy T t)"

inductive_cases fph_emplace_step: "fph_step T L init t (Call_emplace k v) t'"
inductive_cases fph_insert_new_step: "fph_step T L init t (Call_insert_new es) t'"
inductive_simps fph_erase_step: "fph_step T L init t (Call_erase k) t'"

text \<open>The tables that come out of a sequence of calls.\<close>

inductive fph_reach for T L init where
  reach_new: "fph_new T L n gen key = Inr t \<Longrightarrow> fph_reach T L init [] t"
| reach_step: "fph_reach T L init cs t \<Longrightarrow> fph_step T L init t c t' \<Longrightarrow> fph_reach T L init (cs @ [c]) t'"

text \<open>The same calls on a map.\<close>

fun call_map :: "'v \<Rightarrow> ('k, 'v) fph_call \<Rightarrow> ('k \<rightharpoonup> 'v) \<Rightarrow> 'k \<rightharpoonup> 'v" where
  "call_map init (Call_emplace k v) m = (if k \<in> dom m then m else m(k \<mapsto> v))"
| "call_map init (Call_insert es) m = map_of es ++ m"
| "call_map init (Call_insert_new es) m = map_of es ++ m"
| "call_map init (Call_subscript k) m = (if k \<in> dom m then m else m(k \<mapsto> init))"
| "call_map init (Call_erase k) m = m(k := None)"
| "call_map init Call_clear m = Map.empty"
| "call_map init (Call_rehash n) m = m"
| "call_map init (Call_reserve n) m = m"
| "call_map init (Call_max_load ml) m = m"
| "call_map init Call_copy m = m"

fun call_keys :: "('k, 'v) fph_call \<Rightarrow> 'k set" where
  "call_keys (Call_emplace k v) = {k}"
| "call_keys (Call_insert es) = fst ` set es"
| "call_keys (Call_insert_new es) = fst ` set es"
| "call_keys (Call_subscript k) = {k}"
| "call_keys _ = {}"

lemma call_map_dom: "dom (call_map init c m) \<subseteq> dom m \<union> call_keys c"
proof (cases c)
  case (Call_insert es)
  then show ?thesis by (simp add: dom_map_of_conv_image_fst Un_commute)
next
  case (Call_insert_new es)
  then show ?thesis by (simp add: dom_map_of_conv_image_fst Un_commute)
qed auto

context fph_table
begin

lemma new_ok:
  assumes "fph_new T L n gen key = Inr t"
  shows "fph_good T t \<and> fph_map T t = Map.empty"
proof -
  have b: "build_imp T L False False [] 0 (initial_fph T n gen key) = Inr t" using assms by (simp add: fph_new_def)
  have i: "length (bucket_p (initial_fph T n gen key)) = bucket_capacity (initial_fph T n gen key)"
    "set (seed2_test_table (initial_fph T n gen key)) \<subseteq> {False}" by (simp_all add: initial_fph_def Let_def)
  obtain m b where "fph_ok T m b t" "filled_set t = {}" using build_imp_ok [OF b i] by auto
  then show ?thesis using inv_empty [of m b t] build_second [OF b] by (simp add: fph_good_def fph_elements_def)
qed

lemma step_ok:
  assumes "fph_step T L init t c t'" "fph_good T t" "dom (fph_map T t) \<inter> gen_keys T = {}" "call_keys c \<inter> gen_keys T = {}"
  shows "fph_good T t' \<and> fph_map T t' = call_map init c (fph_map T t)"
  using assms
proof (induction rule: fph_step.induct)
  case (step_emplace k v t t' it ins)
  then show ?case using try_emplace_ok [of t L k v t' it ins] by (simp add: fph_emplace_def)
next
  case (step_insert es t t')
  then show ?case using insert_range_ok [of t es L t'] by simp
next
  case (step_insert_new es t t')
  show ?case
  proof (cases "item_num t = 0")
    case False
    then show ?thesis using step_insert_new insert_range_ok [of t es L t'] by (simp add: insert_no_duplicated_def)
  next
    case True
    obtain m b where ok: "fph_ok T m b t" using step_insert_new(2) by (auto simp: fph_good_def fph_inv_def)
    have "filled_set t = {}"
      using True fph_okD(5) [OF ok] filled_set_card [OF layoutD(10) [OF fph_okD(1) [OF ok]]] by (simp add: counts_ok_def)
    then have "fph_map T t = Map.empty" using inv_empty [OF ok] by (simp add: fph_elements_def)
    moreover have "build_imp T L False False (map (\<lambda>(k, v). (k, Some v)) es) (seed1 t) t = Inr t'"
      using True step_insert_new(1) by (simp add: insert_no_duplicated_def)
    moreover have "\<exists>m b. fph_ok T m b t" using ok by blast
    ultimately show ?thesis using build_elements_ok [of t L es "seed1 t" t'] by simp
  qed
next
  case (step_subscript k t t' p)
  then obtain it ins where "try_emplace T L k init t = Inr (t', it, ins)" by (auto simp: fph_subscript_def split: sum.splits)
  then show ?case using try_emplace_ok [of t L k init t' it ins] step_subscript by simp
next
  case (step_erase t k t' n)
  then show ?case using erase_good by fastforce
next
  case (step_clear t)
  then show ?case using clear_good by simp
next
  case (step_rehash n t t')
  then show ?case using rehash_good by simp
next
  case (step_reserve n t t')
  then show ?case using rehash_good unfolding fph_reserve_def by simp
next
  case (step_max_load t ml)
  then show ?case using max_load_good by simp
next
  case (step_copy t)
  then show ?case using copy_good by simp
qed

lemma reach_ok:
  assumes "fph_reach T L init cs t" "(\<Union>c \<in> set cs. call_keys c) \<inter> gen_keys T = {}"
  shows "fph_good T t \<and> fph_map T t = fold (call_map init) cs Map.empty \<and> dom (fph_map T t) \<subseteq> (\<Union>c \<in> set cs. call_keys c)"
  using assms
proof (induction rule: fph_reach.induct)
  case (reach_new n gen key t)
  then show ?case using new_ok by simp
next
  case (reach_step cs t c t')
  then have IH: "fph_good T t" "fph_map T t = fold (call_map init) cs Map.empty" "dom (fph_map T t) \<subseteq> (\<Union>c \<in> set cs. call_keys c)"
    by auto
  have "call_keys c \<inter> gen_keys T = {}" "(\<Union>c \<in> set cs. call_keys c) \<inter> gen_keys T = {}"
    using reach_step.prems by auto
  then have "call_keys c \<inter> gen_keys T = {}" "dom (fph_map T t) \<inter> gen_keys T = {}" using IH(3) by blast+
  from step_ok [OF reach_step.hyps(2) IH(1) this(2,1)]
  have s: "fph_good T t'" "fph_map T t' = call_map init c (fph_map T t)" by simp_all
  have "dom (fph_map T t') \<subseteq> dom (fph_map T t) \<union> call_keys c" unfolding s(2) by (rule call_map_dom)
  then show ?case using s IH by auto
qed

end

section \<open>The two policies\<close>

definition high_types :: "('k \<Rightarrow> u64 \<Rightarrow> u64) \<Rightarrow> (u64 \<Rightarrow> 'r) \<Rightarrow> ('r \<Rightarrow> u64 \<times> 'r) \<Rightarrow> ('g \<Rightarrow> 'k \<times> 'g) \<Rightarrow> (nat \<Rightarrow> u32) \<Rightarrow>
    (high_bits_policy, 'k, 'r, 'g) fph_types" where
  "high_types sh eng rnd nk raw =
     \<lparr> map_to_index = high_map_to_index, reverse_map = high_reverse_map, slot_num = high_slot_num,
       policy_for = high_update, seed_hash = sh, seed_engine = eng, next_random = rnd, next_key = nk, raw_param = raw \<rparr>"

definition low_types :: "('k \<Rightarrow> u64 \<Rightarrow> u64) \<Rightarrow> (u64 \<Rightarrow> 'r) \<Rightarrow> ('r \<Rightarrow> u64 \<times> 'r) \<Rightarrow> ('g \<Rightarrow> 'k \<times> 'g) \<Rightarrow> (nat \<Rightarrow> u32) \<Rightarrow>
    (low_bits_policy, 'k, 'r, 'g) fph_types" where
  "low_types sh eng rnd nk raw =
     \<lparr> map_to_index = low_map_to_index, reverse_map = low_reverse_map, slot_num = low_slot_num,
       policy_for = low_update, seed_hash = sh, seed_engine = eng, next_random = rnd, next_key = nk, raw_param = raw \<rparr>"

text \<open>The contract speaks of the policy only.\<close>

lemma index_map_cong:
  assumes "index_map P" "map_to_index P' = map_to_index P" "reverse_map P' = reverse_map P" "slot_num P' = slot_num P"
    "policy_for P' = policy_for P"
  shows "index_map P'"
  unfolding index_map_def assms(2-5) by (rule assms(1) [unfolded index_map_def])

interpretation high_table: fph_table "high_types sh eng rnd nk raw" for sh eng rnd nk raw
  unfolding fph_table_def
  by (rule index_map_cong [OF high.index_map_axioms]) (simp_all add: high_types_def high_bits_def)

interpretation low_table: fph_table "low_types sh eng rnd nk raw" for sh eng rnd nk raw
  unfolding fph_table_def
  by (rule index_map_cong [OF low.index_map_axioms]) (simp_all add: low_types_def low_bits_def)

end
