(* ===== verification/Fph_Hash.thy ===== *)
theory Fph_Hash
  imports Fph_Util
begin

text \<open>
  The seeded hash functions of dynamic_fph_table.hpp: a hash of byte strings, the mixers for
  integers, and the three families \<open>SimpleSeedHash\<close>, \<open>MixSeedHash\<close> and
  \<open>StrongSeedHash\<close> that a table is instantiated with. The perfect hash only exists when keys
  do not collide under the seed, so the lemmas are about which of them are injective.
\<close>

section \<open>Byte strings\<close>

text \<open>The word in memory, least significant byte first.\<close>

fun le_word :: "u8 list \<Rightarrow> u64" where
  "le_word [] = 0"
| "le_word (b # bs) = ucast b OR push_bit 8 (le_word bs)"

definition unaligned_load64 :: "u8 list \<Rightarrow> nat \<Rightarrow> u64" where
  "unaligned_load64 data i = le_word (take 8 (drop (8 * i) data))"

definition hash_bytes_m :: u64 where
  "hash_bytes_m = 0xc6a4a7935bd1e995"

fun hash_bytes_blocks :: "nat list \<Rightarrow> u8 list \<Rightarrow> u64 \<Rightarrow> u64" where
  "hash_bytes_blocks [] data h = h"
| "hash_bytes_blocks (i # is) data h =
     (let k = unaligned_load64 data i;
          k = k * hash_bytes_m;
          k = k XOR drop_bit 47 k;
          k = k * hash_bytes_m;
          h = h XOR k;
          h = h * hash_bytes_m
      in hash_bytes_blocks is data h)"

text \<open>The cases of the switch fall through.\<close>

definition hash_bytes_tail :: "u8 list \<Rightarrow> nat \<Rightarrow> u64 \<Rightarrow> u64" where
  "hash_bytes_tail data8 n h =
     (let h = (if 7 \<le> n then h XOR push_bit 48 (ucast (data8 ! 6)) else h);
          h = (if 6 \<le> n then h XOR push_bit 40 (ucast (data8 ! 5)) else h);
          h = (if 5 \<le> n then h XOR push_bit 32 (ucast (data8 ! 4)) else h);
          h = (if 4 \<le> n then h XOR push_bit 24 (ucast (data8 ! 3)) else h);
          h = (if 3 \<le> n then h XOR push_bit 16 (ucast (data8 ! 2)) else h);
          h = (if 2 \<le> n then h XOR push_bit 8 (ucast (data8 ! 1)) else h)
      in if 1 \<le> n then (h XOR ucast (data8 ! 0)) * hash_bytes_m else h)"

definition hash_bytes :: "u8 list \<Rightarrow> u64 \<Rightarrow> u64" where
  "hash_bytes ptr seed =
     (let len = length ptr;
          h = seed XOR (of_nat len * hash_bytes_m);
          n_blocks = len div 8;
          h = hash_bytes_blocks [0..<n_blocks] ptr h;
          h = hash_bytes_tail (drop (8 * n_blocks) ptr) (unat (of_nat len AND 7 :: u64)) h
      in h XOR drop_bit 47 h)"

section \<open>Mixers\<close>

definition simple_seed_hash64 :: "u64 \<Rightarrow> u64 \<Rightarrow> u64" where
  "simple_seed_hash64 key seed =
     (let key = key XOR drop_bit 33 key;
          key = key * (seed + 0xff51afd7ed558ccd)
      in key XOR drop_bit 33 key)"

definition simple_seed2_hash64 :: "u64 \<Rightarrow> u64 \<Rightarrow> u64" where
  "simple_seed2_hash64 key seed =
     (let key = key XOR drop_bit 33 key;
          key = key * seed
      in key XOR drop_bit 33 key)"

definition ano_seed_hash64 :: "u64 \<Rightarrow> u64 \<Rightarrow> u64" where
  "ano_seed_hash64 key seed =
     (let key = key XOR drop_bit 33 key;
          key = key * (seed + 0xff51afd7ed558ccd)
      in key XOR drop_bit 33 key)"

definition ano2_seed_hash64 :: "u64 \<Rightarrow> u64 \<Rightarrow> u64" where
  "ano2_seed_hash64 key seed =
     (let key = key XOR drop_bit 33 key;
          key = key * seed
      in key XOR drop_bit 33 key)"

definition ano5_seed_hash64 :: "u64 \<Rightarrow> u64 \<Rightarrow> u64" where
  "ano5_seed_hash64 key seed =
     (let key = key XOR drop_bit 33 key;
          key = key * seed
      in key XOR push_bit 33 key)"

definition ano4_seed_hash64 :: "u64 \<Rightarrow> u64 \<Rightarrow> u64" where
  "ano4_seed_hash64 key seed =
     (let key = key XOR drop_bit 37 key;
          key = key * seed
      in key XOR drop_bit 32 key)"

definition ano2_seed_hash32 :: "u32 \<Rightarrow> u64 \<Rightarrow> u64" where
  "ano2_seed_hash32 key seed = (let m = ucast key * seed in m XOR drop_bit 33 m)"

definition ano2_seed_hash16 :: "u16 \<Rightarrow> u64 \<Rightarrow> u64" where
  "ano2_seed_hash16 key seed = (let m = ucast key * seed in m XOR drop_bit 33 m)"

definition ano3_seed_hash16 :: "u16 \<Rightarrow> u64 \<Rightarrow> u64" where
  "ano3_seed_hash16 key seed =
     (let m = ucast key + 0xff51afd7ed558ccd;
          m = m * seed
      in m XOR drop_bit (8 * 8 div 2) m)"

definition mul_seed_hash64 :: "u64 \<Rightarrow> u64 \<Rightarrow> u64" where
  "mul_seed_hash64 key seed = rotate_r ((key + 0xff51afd7ed558ccd) * seed) (33 :: u32)"

definition rot_mul_seed_hash64 :: "u64 \<Rightarrow> u64 \<Rightarrow> u64" where
  "rot_mul_seed_hash64 key seed = rotate_r (key * seed) (33 :: u32)"

definition mul_only_hash64 :: "u64 \<Rightarrow> u64 \<Rightarrow> u64" where
  "mul_only_hash64 key seed = key * seed"

definition rot_mul3_seed_hash64 :: "u64 \<Rightarrow> u64 \<Rightarrow> u64" where
  "rot_mul3_seed_hash64 key seed = (let mul = key * seed in mul XOR rotate_r mul (48 :: u32))"

definition rot_mul_seed_hash16 :: "u16 \<Rightarrow> u64 \<Rightarrow> u64" where
  "rot_mul_seed_hash16 key seed =
     (let mul = ucast key * seed
      in (mul AND 0xffffffff00000000) XOR ucast (rotate_r (ucast mul :: u32) (7 :: u32)))"

definition reverse_order64 :: "u64 \<Rightarrow> u64" where
  "reverse_order64 x = le_word (rev (map (\<lambda>i. ucast (drop_bit (8 * i) x)) [0..<8]))"

definition rev_mul_seed_hash64 :: "u64 \<Rightarrow> u64 \<Rightarrow> u64" where
  "rev_mul_seed_hash64 key seed = (let mul = key * seed in mul XOR reverse_order64 mul)"

definition rev_mul2_seed_hash64 :: "u64 \<Rightarrow> u64 \<Rightarrow> u64" where
  "rev_mul2_seed_hash64 key seed = (let key = key XOR reverse_order64 key in key * seed)"

definition mul_mov_seed_hash64 :: "u64 \<Rightarrow> u64 \<Rightarrow> u64" where
  "mul_mov_seed_hash64 key seed = (let key = key XOR drop_bit 33 key in drop_bit 33 (seed * key))"

definition shift_mul_seed_hash64 :: "u64 \<Rightarrow> u64 \<Rightarrow> u64" where
  "shift_mul_seed_hash64 key seed = (let key = key XOR drop_bit 33 key in seed * key)"

definition shift_xor_seed_hash64 :: "u64 \<Rightarrow> u64 \<Rightarrow> u64" where
  "shift_xor_seed_hash64 key seed = key XOR drop_bit 32 key"

definition naive_mul_seed_hash64 :: "u64 \<Rightarrow> u64 \<Rightarrow> u64" where
  "naive_mul_seed_hash64 key seed = key * (seed AND 1)"

definition xor_mul_seed_hash64 :: "u64 \<Rightarrow> u64 \<Rightarrow> u64" where
  "xor_mul_seed_hash64 key seed = key XOR rotate_r (key * seed) (33 :: u32)"

definition dual_rot_mul_seed_hash64 :: "u64 \<Rightarrow> u64 \<Rightarrow> u64" where
  "dual_rot_mul_seed_hash64 key seed = (let mul = key * seed in mul XOR rotate_r mul (48 :: u32))"

definition mul_seed_hash32 :: "u32 \<Rightarrow> u32 \<Rightarrow> u32" where
  "mul_seed_hash32 key seed = rotate_r (key * seed) (17 :: u32)"

section \<open>The families\<close>

definition chosen_simple_seed_hash64 :: "u64 \<Rightarrow> u64 \<Rightarrow> u64" where
  "chosen_simple_seed_hash64 key seed = key"

definition chosen_mix_seed_hash64 :: "u64 \<Rightarrow> u64 \<Rightarrow> u64" where
  "chosen_mix_seed_hash64 key seed = shift_xor_seed_hash64 key seed"

definition chosen_strong_seed_hash64 :: "u64 \<Rightarrow> u64 \<Rightarrow> u64" where
  "chosen_strong_seed_hash64 key seed = ano2_seed_hash64 key seed"

definition chosen_simple_seed_hash16 :: "u16 \<Rightarrow> u64 \<Rightarrow> u64" where
  "chosen_simple_seed_hash16 key seed = rot_mul_seed_hash64 (ucast key) seed"

definition chosen_seed_hash16 :: "u16 \<Rightarrow> u64 \<Rightarrow> u64" where
  "chosen_seed_hash16 key seed = ano_seed_hash64 (ucast key) seed"

definition chosen_seed_hash32 :: "u32 \<Rightarrow> u64 \<Rightarrow> u64" where
  "chosen_seed_hash32 key seed = ano2_seed_hash32 key seed"

text \<open>
  The key types with a specialisation. A signed integer is converted to \<open>size_t\<close> with its
  sign, a pointer is its address, and a string is hashed byte by byte in each family.
\<close>

datatype hash_key =
    Key_u64 u64
  | Key_u32 u32
  | Key_i32 u32
  | Key_u16 u16
  | Key_i16 u16
  | Key_pointer u64
  | Key_bytes "u8 list"

fun simple_seed_hash :: "hash_key \<Rightarrow> u64 \<Rightarrow> u64" where
  "simple_seed_hash (Key_u64 x) seed = chosen_simple_seed_hash64 x seed"
| "simple_seed_hash (Key_u32 x) seed = chosen_simple_seed_hash64 (ucast x) seed"
| "simple_seed_hash (Key_i32 x) seed = chosen_simple_seed_hash64 (scast x) seed"
| "simple_seed_hash (Key_u16 x) seed = chosen_simple_seed_hash64 (ucast x) seed"
| "simple_seed_hash (Key_i16 x) seed = chosen_simple_seed_hash64 (scast x) seed"
| "simple_seed_hash (Key_pointer x) seed = chosen_simple_seed_hash64 x seed"
| "simple_seed_hash (Key_bytes str) seed = hash_bytes str seed"

fun mix_seed_hash :: "hash_key \<Rightarrow> u64 \<Rightarrow> u64" where
  "mix_seed_hash (Key_u64 x) seed = chosen_mix_seed_hash64 x seed"
| "mix_seed_hash (Key_u32 x) seed = chosen_mix_seed_hash64 (ucast x) seed"
| "mix_seed_hash (Key_i32 x) seed = chosen_mix_seed_hash64 (scast x) seed"
| "mix_seed_hash (Key_u16 x) seed = chosen_mix_seed_hash64 (ucast x) seed"
| "mix_seed_hash (Key_i16 x) seed = chosen_mix_seed_hash64 (scast x) seed"
| "mix_seed_hash (Key_pointer x) seed = chosen_mix_seed_hash64 x seed"
| "mix_seed_hash (Key_bytes str) seed = hash_bytes str seed"

fun strong_seed_hash :: "hash_key \<Rightarrow> u64 \<Rightarrow> u64" where
  "strong_seed_hash (Key_u64 x) seed = chosen_strong_seed_hash64 x seed"
| "strong_seed_hash (Key_u32 x) seed = chosen_strong_seed_hash64 (ucast x) seed"
| "strong_seed_hash (Key_i32 x) seed = chosen_strong_seed_hash64 (scast x) seed"
| "strong_seed_hash (Key_u16 x) seed = chosen_strong_seed_hash64 (ucast x) seed"
| "strong_seed_hash (Key_i16 x) seed = chosen_strong_seed_hash64 (scast x) seed"
| "strong_seed_hash (Key_pointer x) seed = chosen_strong_seed_hash64 x seed"
| "strong_seed_hash (Key_bytes str) seed = hash_bytes str seed"

section \<open>No collisions under an odd seed\<close>

lemma rotate_inj_word:
  fixes x y :: u64 and b :: u32
  shows "rotate_r x b = rotate_r y b \<longleftrightarrow> x = y"
proof -
  have r: "rotate_r v b = word_rotr (unat b) v" for v :: u64 by (rule rotate_r_eq [where i = 6]) simp_all
  show ?thesis unfolding r by (metis word_rot_rl)
qed

lemma word_bij: "(\<And>x y. f x = f y \<longleftrightarrow> x = y) \<Longrightarrow> bij (f :: 'a::len word \<Rightarrow> 'a word)"
  by (simp add: bij_def inj_def finite_UNIV_inj_surj)

lemma odd_seed_bij:
  assumes "odd (seed :: u64)"
  shows "bij (\<lambda>k. ano2_seed_hash64 k seed)" "bij (\<lambda>k. simple_seed2_hash64 k seed)" "bij (\<lambda>k. ano5_seed_hash64 k seed)"
    "bij (\<lambda>k. ano4_seed_hash64 k seed)" "bij (\<lambda>k. mul_seed_hash64 k seed)" "bij (\<lambda>k. rot_mul_seed_hash64 k seed)"
    "bij (\<lambda>k. mul_only_hash64 k seed)" "bij (\<lambda>k. shift_mul_seed_hash64 k seed)" "bij (\<lambda>k. shift_xor_seed_hash64 k seed)"
    "bij (\<lambda>k. naive_mul_seed_hash64 k seed)"
proof -
  note i = inj_mult_odd [OF assms] inj_xor_drop_bit inj_xor_push_bit rotate_inj_word
  have i': "seed * x = seed * y \<longleftrightarrow> x = y" for x y unfolding mult.commute [of seed] by (rule i(1))
  have one: "seed AND 1 = 1" using assms by (simp add: and_one_eq odd_iff_mod_2_eq_one)
  show "bij (\<lambda>k. ano2_seed_hash64 k seed)" "bij (\<lambda>k. simple_seed2_hash64 k seed)" "bij (\<lambda>k. ano5_seed_hash64 k seed)"
    "bij (\<lambda>k. ano4_seed_hash64 k seed)" "bij (\<lambda>k. mul_seed_hash64 k seed)" "bij (\<lambda>k. rot_mul_seed_hash64 k seed)"
    "bij (\<lambda>k. mul_only_hash64 k seed)" "bij (\<lambda>k. shift_mul_seed_hash64 k seed)" "bij (\<lambda>k. shift_xor_seed_hash64 k seed)"
    "bij (\<lambda>k. naive_mul_seed_hash64 k seed)"
    by (rule word_bij, simp add: ano2_seed_hash64_def simple_seed2_hash64_def ano5_seed_hash64_def ano4_seed_hash64_def
      mul_seed_hash64_def rot_mul_seed_hash64_def mul_only_hash64_def shift_mul_seed_hash64_def shift_xor_seed_hash64_def
      naive_mul_seed_hash64_def one Let_def i i')+
qed

text \<open>
  The other mixers collide. Adding the odd constant makes the factor even, which loses the highest
  bit; the others map an all-ones product like a zero one, or drop the low half of the product.
\<close>

lemma not_injI: "x \<noteq> y \<Longrightarrow> f x = f y \<Longrightarrow> \<not> inj f"
  by (auto simp: inj_def)

lemma even_factor_collision:
  assumes "odd (seed :: u64)"
  shows "simple_seed_hash64 0x8000000040000000 seed = simple_seed_hash64 0 seed"
    and "ano_seed_hash64 0x8000000040000000 seed = ano_seed_hash64 0 seed"
proof -
  have "even (seed + 0xff51afd7ed558ccd)" using assms by simp
  then obtain c where c: "seed + 0xff51afd7ed558ccd = 2 * c" ..
  have "(0x8000000040000000 :: u64) XOR drop_bit 33 0x8000000040000000 = 0x8000000000000000"
    by (simp add: drop_bit_eq_div)
  moreover have z: "(0x8000000000000000 :: u64) * 2 = 0" by simp
  ultimately have "((0x8000000040000000 :: u64) XOR drop_bit 33 0x8000000040000000) * (seed + 0xff51afd7ed558ccd) = 0"
    unfolding c by (simp only: mult.assoc [symmetric] z) simp
  then show "simple_seed_hash64 0x8000000040000000 seed = simple_seed_hash64 0 seed"
    "ano_seed_hash64 0x8000000040000000 seed = ano_seed_hash64 0 seed"
    by (simp_all add: simple_seed_hash64_def ano_seed_hash64_def)
qed

lemma all_ones:
  "rotate_r (-1 :: u64) (48 :: u32) = -1" "rotate_r (-1 :: u64) (33 :: u32) = -1"
  "rotate_r (0 :: u64) (48 :: u32) = 0" "rotate_r (0 :: u64) (33 :: u32) = 0"
  "reverse_order64 (-1) = -1" "reverse_order64 0 = 0"
  by code_simp+

lemma odd_seed_not_inj:
  assumes odd: "odd (seed :: u64)"
  shows "\<not> inj (\<lambda>k. simple_seed_hash64 k seed)" "\<not> inj (\<lambda>k. ano_seed_hash64 k seed)"
    "\<not> inj (\<lambda>k. rot_mul3_seed_hash64 k seed)" "\<not> inj (\<lambda>k. dual_rot_mul_seed_hash64 k seed)"
    "\<not> inj (\<lambda>k. rev_mul_seed_hash64 k seed)" "\<not> inj (\<lambda>k. rev_mul2_seed_hash64 k seed)"
    "\<not> inj (\<lambda>k. mul_mov_seed_hash64 k seed)" "\<not> inj (\<lambda>k. xor_mul_seed_hash64 k 1)"
proof -
  have ne: "(0x8000000040000000 :: u64) \<noteq> 0" "(-1 :: u64) \<noteq> 0" by simp_all
  show "\<not> inj (\<lambda>k. simple_seed_hash64 k seed)" "\<not> inj (\<lambda>k. ano_seed_hash64 k seed)"
    by (rule not_injI [OF ne(1)], rule even_factor_collision [OF odd])+
  show "\<not> inj (\<lambda>k. rev_mul2_seed_hash64 k seed)" "\<not> inj (\<lambda>k. xor_mul_seed_hash64 k 1)"
    by (rule not_injI [OF ne(2)], simp add: rev_mul2_seed_hash64_def xor_mul_seed_hash64_def all_ones)+
  obtain k where k: "-1 = mul_only_hash64 k seed" by (rule surjE [OF bij_is_surj [OF odd_seed_bij(7) [OF odd]]])
  then have k: "k * seed = -1" "k \<noteq> 0" by (auto simp: mul_only_hash64_def)
  show "\<not> inj (\<lambda>k. rot_mul3_seed_hash64 k seed)" "\<not> inj (\<lambda>k. dual_rot_mul_seed_hash64 k seed)"
    "\<not> inj (\<lambda>k. rev_mul_seed_hash64 k seed)"
    by (rule not_injI [OF k(2)], simp add: rot_mul3_seed_hash64_def dual_rot_mul_seed_hash64_def rev_mul_seed_hash64_def k(1) all_ones)+
  obtain l where l: "1 = shift_mul_seed_hash64 l seed" by (rule surjE [OF bij_is_surj [OF odd_seed_bij(8) [OF odd]]])
  then have l: "seed * (l XOR drop_bit 33 l) = 1" "l \<noteq> 0" by (auto simp: shift_mul_seed_hash64_def Let_def)
  show "\<not> inj (\<lambda>k. mul_mov_seed_hash64 k seed)"
    by (rule not_injI [OF l(2)], unfold mul_mov_seed_hash64_def Let_def l(1), simp add: drop_bit_eq_div)
qed

section \<open>The families and byte strings\<close>

lemma ucast_inj_up:
  fixes x y :: "'a::len word"
  assumes "LENGTH('a) \<le> LENGTH('b)"
  shows "(ucast x :: 'b::len word) = ucast y \<longleftrightarrow> x = y"
proof
  assume e: "(ucast x :: 'b word) = ucast y"
  show "x = y"
  proof (rule bit_word_eqI)
    fix n assume "n < LENGTH('a)"
    then show "bit x n = bit y n" using assms arg_cong [OF e, of "\<lambda>w. bit w n"] by (simp add: bit_ucast_iff)
  qed
qed simp

lemma scast_inj_up:
  fixes x y :: "'a::len word"
  assumes "LENGTH('a) \<le> LENGTH('b)"
  shows "(scast x :: 'b::len word) = scast y \<longleftrightarrow> x = y"
proof
  assume e: "(scast x :: 'b word) = scast y"
  show "x = y"
  proof (rule bit_word_eqI)
    fix n assume n: "n < LENGTH('a)"
    then have "min (LENGTH('a) - Suc 0) n = n" by simp
    then show "bit x n = bit y n" using n assms arg_cong [OF e, of "\<lambda>w. bit w n"] by (simp add: bit_signed_iff)
  qed
qed simp

lemma le_word_xor: "le_word (b # bs) = ucast b XOR push_bit 8 (le_word bs)"
  unfolding le_word.simps
proof (rule bit_word_eqI)
  fix n
  show "bit (ucast b OR push_bit 8 (le_word bs)) n = bit (ucast b XOR push_bit 8 (le_word bs)) n"
    by (auto simp: bit_facts bit_ucast_iff dest: bit_imp_le_length)
qed

lemma le_word_bit: "length bs \<le> 8 \<Longrightarrow> bit (le_word bs) n \<longleftrightarrow> n < 8 * length bs \<and> bit (bs ! (n div 8)) (n mod 8)"
proof (induction bs arbitrary: n)
  case (Cons b bs)
  show ?case
  proof (cases "n < 8")
    case True
    then show ?thesis by (simp add: bit_facts bit_ucast_iff)
  next
    case False
    then obtain k where k: "n = 8 + k" by (metis le_Suc_ex not_less)
    then have d: "n div 8 = Suc (k div 8)" "n mod 8 = k mod 8" by simp_all
    have nb: "\<not> bit b n" using False by (auto dest: bit_imp_le_length)
    have "bit (le_word (b # bs)) n \<longleftrightarrow> n < 64 \<and> bit (le_word bs) k" by (simp add: bit_facts bit_ucast_iff k nb [unfolded k])
    also have "\<dots> \<longleftrightarrow> n < 64 \<and> k < 8 * length bs \<and> bit (bs ! (k div 8)) (k mod 8)" using Cons.prems by (subst Cons.IH) simp_all
    also have "\<dots> \<longleftrightarrow> n < 8 * length (b # bs) \<and> bit ((b # bs) ! (n div 8)) (n mod 8)" unfolding d using Cons.prems k by auto
    finally show ?thesis .
  qed
qed simp

lemma le_word_inj:
  assumes "length xs = length ys" "length xs \<le> 8" "le_word xs = le_word ys"
  shows "xs = ys"
proof (rule nth_equalityI)
  fix i assume i: "i < length xs"
  show "xs ! i = ys ! i"
  proof (rule bit_word_eqI)
    fix n assume n: "n < LENGTH(8)"
    then have "(8 * i + n) div 8 = i" "(8 * i + n) mod 8 = n" "8 * i + n < 8 * length xs" using i by simp_all
    then show "bit (xs ! i) n = bit (ys ! i) n"
      using le_word_bit [of xs "8 * i + n"] le_word_bit [of ys "8 * i + n"] assms by simp
  qed
qed (rule assms)

lemma hash_bytes_tail_eq:
  assumes "length d = n" "n \<le> 7"
  shows "hash_bytes_tail d n h = (if n = 0 then h else (h XOR le_word d) * hash_bytes_m)"
proof -
  have e: "push_bit 8 (a XOR b) = push_bit 8 a XOR push_bit 8 b" for a b :: u64 by (rule push_bit_xor)
  consider "n = 0" | "n = 1" | "n = 2" | "n = 3" | "n = 4" | "n = 5" | "n = 6" | "n = 7" using assms(2) by linarith
  then show ?thesis using assms(1)
    by cases (auto simp: length_Suc_conv numeral_eq_Suc hash_bytes_tail_def le_word_xor e xor.assoc xor.commute xor.left_commute
      simp del: le_word.simps(2))
qed

lemma odd_hash_bytes_m: "odd hash_bytes_m"
  by (simp add: hash_bytes_m_def)

lemma hash_block_inj:
  "k * hash_bytes_m XOR drop_bit 47 (k * hash_bytes_m) = k' * hash_bytes_m XOR drop_bit 47 (k' * hash_bytes_m) \<longleftrightarrow> k = k'"
  by (simp add: inj_xor_drop_bit inj_mult_odd [OF odd_hash_bytes_m])

lemma xor_cancel: "a XOR b = a XOR c \<longleftrightarrow> b = (c :: 'a::len word)"
  by (metis xor.assoc xor.left_neutral xor_self_eq)

lemma hash_bytes_inj:
  assumes "length xs = length ys" "length xs \<le> 8"
  shows "hash_bytes xs seed = hash_bytes ys seed \<longleftrightarrow> xs = ys"
proof (cases "length xs = 8")
  case True
  then have y: "length ys = 8" using assms(1) by simp
  have "le_word xs = le_word ys \<longleftrightarrow> xs = ys" using le_word_inj [OF assms] by blast
  then show ?thesis using True y
    by (simp add: hash_bytes_def hash_bytes_tail_def unaligned_load64_def Let_def upt_rec [of 0 "Suc 0"] inj_xor_drop_bit
      inj_mult_odd [OF odd_hash_bytes_m] xor_cancel)
next
  case False
  then have n: "length xs \<le> 7" using assms(2) by simp
  have "unat (of_nat (length xs) AND 7 :: u64) = length xs"
  proof -
    have "unat ((of_nat (length xs) :: u64) AND (2 ^ 3 - 1)) = unat (of_nat (length xs) :: u64) mod 2 ^ 3" by (rule and_mask_mod)
    then show ?thesis using n unat_of_nat_small [of "length xs", where 'a = 64] by simp
  qed
  then have "hash_bytes zs seed = (let h = hash_bytes_tail zs (length xs) (seed XOR of_nat (length xs) * hash_bytes_m)
      in h XOR drop_bit 47 h)" if "length zs = length xs" for zs
    using n that by (simp add: hash_bytes_def Let_def)
  moreover have "le_word xs = le_word ys \<longleftrightarrow> xs = ys" using le_word_inj [OF assms] by blast
  ultimately show ?thesis using assms(1) n
    by (cases "ys = []") (simp_all add: hash_bytes_tail_eq Let_def inj_xor_drop_bit inj_mult_odd [OF odd_hash_bytes_m] xor_cancel)
qed

text \<open>The mixers of narrower keys.\<close>

lemma odd_seed_inj_narrow:
  assumes "odd (seed :: u64)"
  shows "inj (\<lambda>k. ano2_seed_hash32 k seed)" "inj (\<lambda>k. ano2_seed_hash16 k seed)" "inj (\<lambda>k. ano3_seed_hash16 k seed)"
  by (simp_all add: inj_def ano2_seed_hash32_def ano2_seed_hash16_def ano3_seed_hash16_def Let_def inj_xor_drop_bit
    inj_mult_odd [OF assms] ucast_inj_up)

text \<open>Strings of one length: the hash separates them as long as there are no more of them than hashes.\<close>

lemma hash_bytes_inj_on:
  "inj_on (\<lambda>bs. hash_bytes bs seed) {bs. length bs = n} \<longleftrightarrow> n \<le> 8"
proof
  assume inj: "inj_on (\<lambda>bs. hash_bytes bs seed) {bs. length bs = n}"
  have "card {bs :: u8 list. length bs = n} \<le> card (UNIV :: u64 set)"
    by (rule card_inj_on_le [OF inj]) simp_all
  moreover have "card {bs :: u8 list. length bs = n} = (2 ^ 8) ^ n"
    using card_lists_length_eq [of "UNIV :: u8 set" n] by (simp add: card_word)
  ultimately have "(2 :: nat) ^ (8 * n) \<le> 2 ^ 64" by (simp add: card_word power_mult)
  then show "n \<le> 8" by (subst (asm) power_increasing_iff) simp_all
qed (auto simp: inj_on_def hash_bytes_inj)

text \<open>
  C34. Which of the 64-bit mixers can carry a perfect hash: under an odd seed, the only kind
  \<open>BuildImp\<close> draws, ten of them are bijections, so that no two keys have the same seeded hash, and
  \<open>SimpleSeedHash64\<close>, \<open>AnoSeedHash64\<close>, \<open>RotMul3SeedHash64\<close>, \<open>DualRotMulSeedHash64\<close>,
  \<open>RevMulSeedHash64\<close>, \<open>RevMul2SeedHash64\<close> and \<open>MulMovSeedHash64\<close> are not: under every odd seed two
  keys collide. The first two add an odd constant to the seed, and the keys 0 and
  0x8000000040000000 collide in both. \<open>XorMulSeedHash64\<close> is not a bijection under the seed 1. The
  mixers of 32-bit and 16-bit keys that multiply by the seed alone separate their keys.
\<close>

theorem odd_seed_mixers_bijective:
  assumes "odd (seed :: u64)"
  shows "bij (\<lambda>k. ano2_seed_hash64 k seed) \<and> bij (\<lambda>k. simple_seed2_hash64 k seed) \<and> bij (\<lambda>k. ano5_seed_hash64 k seed) \<and>
    bij (\<lambda>k. ano4_seed_hash64 k seed) \<and> bij (\<lambda>k. mul_seed_hash64 k seed) \<and> bij (\<lambda>k. rot_mul_seed_hash64 k seed) \<and>
    bij (\<lambda>k. mul_only_hash64 k seed) \<and> bij (\<lambda>k. shift_mul_seed_hash64 k seed) \<and> bij (\<lambda>k. shift_xor_seed_hash64 k seed) \<and>
    bij (\<lambda>k. naive_mul_seed_hash64 k seed) \<and>
    \<not> inj (\<lambda>k. simple_seed_hash64 k seed) \<and> \<not> inj (\<lambda>k. ano_seed_hash64 k seed) \<and>
    \<not> inj (\<lambda>k. rot_mul3_seed_hash64 k seed) \<and> \<not> inj (\<lambda>k. dual_rot_mul_seed_hash64 k seed) \<and>
    \<not> inj (\<lambda>k. rev_mul_seed_hash64 k seed) \<and> \<not> inj (\<lambda>k. rev_mul2_seed_hash64 k seed) \<and>
    \<not> inj (\<lambda>k. mul_mov_seed_hash64 k seed) \<and> \<not> inj (\<lambda>k. xor_mul_seed_hash64 k 1) \<and>
    simple_seed_hash64 0x8000000040000000 seed = simple_seed_hash64 0 seed \<and>
    ano_seed_hash64 0x8000000040000000 seed = ano_seed_hash64 0 seed \<and>
    inj (\<lambda>k. ano2_seed_hash32 k seed) \<and> inj (\<lambda>k. ano2_seed_hash16 k seed) \<and> inj (\<lambda>k. ano3_seed_hash16 k seed)"
  by (intro conjI odd_seed_bij [OF assms] odd_seed_not_inj [OF assms] odd_seed_inj_narrow [OF assms]
    even_factor_collision [OF assms])

theorem odd_seed_mixers_bijective_witness:
  "odd (3 :: u64) \<and> bij (\<lambda>k. ano2_seed_hash64 k 3) \<and> ano2_seed_hash64 5 3 \<noteq> ano2_seed_hash64 6 3 \<and>
   \<not> inj (\<lambda>k. simple_seed_hash64 k 3) \<and> ano_seed_hash64 0 3 = ano_seed_hash64 0x8000000040000000 3"
  using odd_seed_mixers_bijective [of 3] by (simp add: ano2_seed_hash64_def drop_bit_eq_div)

text \<open>
  C33. Which keys the default hashes of a table separate: for integers and pointers of every
  supported width, signed or not, each of the families \<open>SimpleSeedHash\<close>, \<open>MixSeedHash\<close> and
  \<open>StrongSeedHash\<close> is injective under an odd seed. Strings all go to \<open>HashBytes\<close>, which
  separates the strings of one length exactly when they have at most eight bytes: longer ones
  collide under every seed, since there are more of them than 64-bit hashes. Strings of different
  lengths are not compared.
\<close>

theorem seed_hashes_injective:
  assumes "odd (seed :: u64)" "sh \<in> {simple_seed_hash, mix_seed_hash, strong_seed_hash}"
  shows "inj (\<lambda>x. sh (Key_u64 x) seed) \<and> inj (\<lambda>x. sh (Key_u32 x) seed) \<and> inj (\<lambda>x. sh (Key_i32 x) seed) \<and>
    inj (\<lambda>x. sh (Key_u16 x) seed) \<and> inj (\<lambda>x. sh (Key_i16 x) seed) \<and> inj (\<lambda>x. sh (Key_pointer x) seed) \<and>
    (inj_on (\<lambda>bs. sh (Key_bytes bs) seed) {bs. length bs = n} \<longleftrightarrow> n \<le> 8)"
proof -
  have bytes: "sh (Key_bytes bs) seed = hash_bytes bs seed" for bs using assms(2) by auto
  show ?thesis
    unfolding bytes hash_bytes_inj_on
    using assms(2) odd_seed_bij(1,9) [OF assms(1), THEN bij_is_inj, THEN inj_eq]
    by (auto simp: inj_def chosen_simple_seed_hash64_def chosen_mix_seed_hash64_def chosen_strong_seed_hash64_def
      ucast_inj_up scast_inj_up)
qed

theorem seed_hashes_injective_witness:
  "odd (1 :: u64) \<and> strong_seed_hash \<in> {simple_seed_hash, mix_seed_hash, strong_seed_hash} \<and>
   inj (\<lambda>x. strong_seed_hash (Key_i32 x) 1) \<and> inj_on (\<lambda>bs. strong_seed_hash (Key_bytes bs) 1) {bs. length bs = 2}"
  using seed_hashes_injective [of 1 strong_seed_hash 2] by simp

end
