(* ===== verification/Fph_Live.thy ===== *)
theory Fph_Live
  imports Fph_Map Fph_Hash
begin

text \<open>
  When the operations of the perfect hash table return: the search for an offset misses none, a
  build without keys finds seeds at the first attempt and fails exactly when no second default key
  turns up, and a table without elements takes one.
\<close>

context fph_table
begin

section \<open>The search for an offset\<close>

text \<open>An offset that puts the pattern on free slots is the distance of its first position from one of them.\<close>

lemma offset_of_position:
  assumes "a < 2 ^ m" "off < 2 ^ m"
  shows "(2 ^ m + (a + off) mod 2 ^ m - a) AND (2 ^ m - 1) = (off :: nat)"
proof -
  have "(2 ^ m + (a + off) mod 2 ^ m - a) mod 2 ^ m = off"
  proof (cases "a + off < 2 ^ m")
    case False
    then have "(a + off) mod 2 ^ m = a + off - 2 ^ m" using assms by (simp add: mod_if)
    then show ?thesis using assms False by simp
  qed (use assms in simp)
  then show ?thesis
    unfolding mask_eq_exp_minus_1 [symmetric] take_bit_eq_mask [symmetric] take_bit_eq_mod by simp
qed

lemma search_offset_complete:
  fixes t :: "('p, 'k, 'v, 'g) fph"
  assumes t: "policy_ok (slot_policy t) m" "m \<le> 63" "item_num_ceil t = 2 ^ m"
    and r: "off < 2 ^ m" "pat \<noteq> []" "pattern_positions T t pat off ! 0 \<in> set rs"
    and free: "\<forall>p \<in> set (pattern_positions T t pat off). \<not> map_table t ! p < filled_count t"
  shows "search_offset T t (2 ^ m - 1) pat rs \<noteq> None"
  using r(3)
proof (induction rs)
  case (Cons r rs)
  let ?a = "slot_idx t (pat ! 0)"
  have "off < 2 ^ LENGTH(64)"
    using less_le_trans [OF r(1), of "2 ^ 64"] power_increasing [of m 64 "2 :: nat"] t(2) by simp
  then have "unat (of_nat off :: u64) = off" by (rule unat_of_nat_small)
  then have p0: "pattern_positions T t pat off ! 0 = (?a + off) mod 2 ^ m"
    using r(2) policy_index_shift [OF t(1), of "pat ! 0" "of_nat off"] by (simp add: pattern_positions_def)
  show ?case
  proof (cases "r = (?a + off) mod 2 ^ m")
    case True
    have "(2 ^ m + r - ?a) AND (2 ^ m - 1) = off"
      unfolding True using policy_index_bound [OF t(1)] r(1) by (rule offset_of_position)
    then show ?thesis using free t(3) by (simp add: Let_def del: One_nat_def)
  next
    case False
    then have "search_offset T t (2 ^ m - 1) pat rs \<noteq> None" using Cons p0 by simp
    then show ?thesis by (simp add: Let_def del: One_nat_def)
  qed
qed simp

lemma try_offset_complete:
  fixes t :: "('p, 'k, 'v, 'g) fph"
  assumes t: "policy_ok (slot_policy t) m" "m \<le> 63" "item_num_ceil t = 2 ^ m" "perm_ok (2 ^ m) t"
    and r: "off < 2 ^ m" "pat \<noteq> []" "set (pattern_positions T t pat off) \<inter> filled_set t = {}"
  shows "snd (try_offset T t (2 ^ m - 1) pat bi ob)"
proof -
  let ?p = "pattern_positions T t pat off ! 0"
  note d = perm_okD [OF t(4)]
  have b: "\<forall>p \<in> set (pattern_positions T t pat off). p < 2 ^ m"
    using policy_index_bound [OF t(1)] by (auto simp: pattern_positions_def)
  have free: "\<forall>p \<in> set (pattern_positions T t pat off). \<not> map_table t ! p < filled_count t"
    using r(3) b d(2) by (auto simp: filled_set_def is_filled_def)
  have p: "?p \<in> set (pattern_positions T t pat off)" using r(2) by (auto simp: pattern_positions_def)
  then have "?p < 2 ^ m" "\<not> map_table t ! ?p < filled_count t" using b free by auto
  then have "drop (filled_count t) (random_table t) ! (map_table t ! ?p - filled_count t) = ?p"
    "map_table t ! ?p - filled_count t < length (drop (filled_count t) (random_table t))"
    using d(1) d(6) [of ?p] d(7) [of ?p] by simp_all
  then have "?p \<in> set (drop (filled_count t) (random_table t))" by (metis nth_mem)
  then have "search_offset T t (2 ^ m - 1) pat (drop (filled_count t) (random_table t)) \<noteq> None"
    using search_offset_complete [OF t(1,2,3) r(1,2) _ free] by blast
  then show ?thesis by (auto simp: try_offset_def Let_def)
qed

section \<open>A build without keys\<close>

lemma find_seed2_empty:
  fixes t :: "('p, 'k, 'v, 'g) fph"
  assumes "\<forall>i \<in> set is. key_array (bs ! i) = []" "random_odd T r = (x, r')"
  shows "find_seed2 T bs is (Suc n) t r = (True, t\<lparr> seed2 := x \<rparr>, r')"
proof -
  have "test_buckets T u s bs is tbl = (True, tbl)" for u :: "('p, 'k, 'v, 'g) fph" and s tbl
    using assms(1) by (induction "is" arbitrary: tbl) (simp_all add: test_bucket_self_collision_def Let_def)
  then show ?thesis by (simp add: assms(2) Let_def)
qed

lemma place_buckets_empty: "\<forall>i \<in> set is. entry_cnt (bs ! i) = 0 \<Longrightarrow> place_buckets T bs is t = (t, True)"
  by (induction "is") (simp_all add: Let_def)

lemma try_seed2_empty:
  fixes t :: "('p, 'k, 'v, 'g) fph"
  assumes "\<forall>i \<in> set is. key_array (bs ! i) = [] \<and> entry_cnt (bs ! i) = 0" "random_odd T r = (x, r1)"
  shows "\<exists>rt mt r'. try_seed2 T bs is (Suc n2) (Suc n) t r =
    (True, t\<lparr> seed2 := x, random_table := rt, map_table := mt, filled_count := 0 \<rparr>, r')"
proof -
  have f: "find_seed2 T bs is (Suc n2) t r = (True, t\<lparr> seed2 := x \<rparr>, r1)"
    using assms by (intro find_seed2_empty) simp_all
  obtain rt r2 where s: "shuffle_table T (item_num_ceil t - 1) [0..<item_num_ceil t] r1 = (rt, r2)" by (metis surj_pair)
  have "place_buckets T bs is u = (u, True)" for u :: "('p, 'k, 'v, 'g) fph" using assms(1) by (intro place_buckets_empty) simp
  then have "try_seed2 T bs is (Suc n2) (Suc n) t r = (True, t\<lparr> seed2 := x, random_table := rt,
      map_table := invert_table rt 0 (map_table t), filled_count := 0 \<rparr>, r2)"
    by (simp add: f s [simplified] Let_def del: find_seed2.simps)
  then show ?thesis by (intro exI)
qed

lemma count_sort_indices:
  assumes "\<forall>k \<in> set keys. k \<le> mx"
  shows "set (count_sort_out_index True keys (replicate (length keys) 0) mx) = {..<length keys}"
proof -
  have l: "length keys \<le> length (replicate (length keys) (0 :: nat))" by simp
  show ?thesis
    using count_sort_out_index_correct(1,3) [OF assms l, where desc = True]
      count_sort_places(1) [OF assms l, where desc = True] by simp
qed

lemma try_seed0_empty:
  fixes t :: "('p, 'k, 'v, 'g) fph"
  assumes r: "random_odd T r = (x, r1)" "random_odd T r1 = (y, r2)" "random_odd T r2 = (z, r3)"
  shows "\<exists>t' r'. try_seed0 T [] (Suc n1) (Suc n2) (Suc nr) (Suc n) t r = (Some (new_buckets (bucket_num t)), t', r') \<and>
     frame t' = frame t \<and> bucket_p t' = bucket_p t \<and> seed0 t' = x \<and> seed1 t' = y \<and> seed2 t' = z"
proof -
  let ?t = "t\<lparr> seed0 := x, seed1 := y \<rparr>"
  let ?bs = "new_buckets (bucket_num t) :: 'k fph_bucket list"
  let ?is = "count_sort_out_index True (map entry_cnt ?bs) (replicate (bucket_num t) 0) 0"
  let ?u = "?t\<lparr> seed2_test_table := resize (item_num_ceil t) False (seed2_test_table t),
      random_table := resize (item_num_ceil t) 0 (random_table t), map_table := resize (item_num_ceil t) 0 (map_table t) \<rparr>"
  have l: "length ?bs = bucket_num t" by (simp add: new_buckets_def)
  have z: "map entry_cnt ?bs = replicate (bucket_num t) 0"
    by (simp add: new_buckets_def comp_def map_replicate_trivial map_replicate_const)
  have "set ?is = {..<bucket_num t}" using count_sort_indices [of "map entry_cnt ?bs" 0] l z by simp
  then have "\<forall>i \<in> set ?is. key_array (?bs ! i) = [] \<and> entry_cnt (?bs ! i) = 0" by (simp add: new_buckets_def)
  then obtain rt mt r4 where u: "try_seed2 T ?bs ?is (Suc nr) (Suc n2) ?u r2 =
      (True, ?u\<lparr> seed2 := z, random_table := rt, map_table := mt, filled_count := 0 \<rparr>, r4)"
    using try_seed2_empty [OF _ r(3)] by blast
  have "try_seed0 T [] (Suc n1) (Suc n2) (Suc nr) (Suc n) t r =
      (Some ?bs, ?u\<lparr> seed2 := z, random_table := rt, map_table := mt, filled_count := 0 \<rparr>, r4)"
    by (simp add: r(1,2) Let_def u del: try_seed2.simps)
  then show ?thesis by (intro exI conjI) (assumption, simp_all add: frame_def)
qed

text \<open>The keys that the generator gives one after the other.\<close>

end

fun drawn :: "('g \<Rightarrow> 'k \<times> 'g) \<Rightarrow> nat \<Rightarrow> 'g \<Rightarrow> 'k" where
  "drawn nk 0 g = fst (nk g)"
| "drawn nk (Suc i) g = drawn nk i (snd (nk g))"

context fph_table
begin

lemma draw_fill_key_None:
  "draw_fill_key T t pos (Suc n) k g = None \<longleftrightarrow>
     get_slot_pos T t k = pos \<and> (\<forall>i < n. get_slot_pos T t (drawn (next_key T) i g) = pos)"
proof (induction n arbitrary: k g)
  case (Suc n)
  obtain k' g' where k': "next_key T g = (k', g')" by (metis surj_pair)
  show ?case
  proof (cases "get_slot_pos T t k = pos")
    case True
    then have "draw_fill_key T t pos (Suc (Suc n)) k g = None \<longleftrightarrow> draw_fill_key T t pos (Suc n) k' g' = None"
      by (simp add: k')
    then show ?thesis unfolding Suc.IH using True by (auto simp: k' less_Suc_eq_0_disj)
  qed simp
qed simp

lemma fill_default_keys_None:
  "fill_default_keys T n t = None \<longleftrightarrow> (\<forall>i \<le> n.
     get_slot_pos T t (drawn (next_key T) (Suc i) (key_gen t)) = get_slot_pos T t (drawn (next_key T) 0 (key_gen t)))"
proof -
  obtain dk g where dk: "next_key T (key_gen t) = (dk, g)" by (metis surj_pair)
  obtain fk g' where fk: "next_key T g = (fk, g')" by (metis surj_pair)
  let ?t = "t\<lparr> slots := replicate (item_num_ceil t) (dk, None) \<rparr>"
  have p: "get_slot_pos T ?t k = get_slot_pos T t k" for k by (rule slot_pos_cong) simp_all
  have "fill_default_keys T n t = None \<longleftrightarrow> draw_fill_key T ?t (get_slot_pos T ?t dk) (Suc n) fk g' = None"
    by (simp add: fill_default_keys_def dk fk Let_def del: draw_fill_key.simps)
  also have "\<dots> \<longleftrightarrow> get_slot_pos T t fk = get_slot_pos T t dk \<and>
      (\<forall>i < n. get_slot_pos T t (drawn (next_key T) i g') = get_slot_pos T t dk)"
    unfolding draw_fill_key_None p ..
  also have "\<dots> \<longleftrightarrow> (\<forall>i < Suc n. get_slot_pos T t (drawn (next_key T) i g) = get_slot_pos T t dk)"
    by (auto simp: fk less_Suc_eq_0_disj)
  finally show ?thesis by (simp add: dk less_Suc_eq_le)
qed

end

section \<open>Construction and the first insertion return\<close>

lemma default_should_expand: "1 \<le> ceil_to_size (fl 53 (8 * DEFAULT_MAX_LOAD_FACTOR))"
proof -
  have "(1 :: rat) / 2 \<le> fl 53 (6 / 10)"
  proof -
    have "(1 :: rat) / 2 = fl 53 (1 / 2)" by code_simp
    also have "\<dots> \<le> fl 53 (6 / 10)" by (rule fl_mono) simp_all
    finally show ?thesis .
  qed
  then have "(1 :: rat) \<le> 8 * DEFAULT_MAX_LOAD_FACTOR" by (simp add: DEFAULT_MAX_LOAD_FACTOR_def)
  then have "fl 53 1 \<le> fl 53 (8 * DEFAULT_MAX_LOAD_FACTOR)" by (intro fl_mono) simp_all
  moreover have "fl 53 (1 :: rat) = 1" using fl_of_nat [of 1 53] by simp
  ultimately have "1 \<le> fl 53 (8 * DEFAULT_MAX_LOAD_FACTOR)" by simp
  then have "1 \<le> \<lceil>fl 53 (8 * DEFAULT_MAX_LOAD_FACTOR)\<rceil>" by linarith
  then show ?thesis unfolding ceil_to_size_def by linarith
qed

context fph_table
begin

text \<open>A build without keys takes the first seeds, and fails only in the search for the second default key.\<close>

lemma build_empty_outcome:
  fixes t :: "('p, 'k, 'v, 'g) fph" and ir cbr
  assumes L: "1 \<le> max_try_seed0_time L" "1 \<le> max_try_seed1_time L" "1 \<le> max_try_seed2_time L" "1 \<le> max_reseed2_time L"
    and r: "random_odd T (seed_engine T seed) = (x, r1)" "random_odd T r1 = (y, r2)" "random_odd T r2 = (z, r3)"
  defines "t0 \<equiv> set_buckets T ir cbr 0 (set_slot_count T cbr (set_slot_policy T ir 0 (t\<lparr> item_num := 0 \<rparr>)))"
  defines "u \<equiv> t0\<lparr> seed0 := x, seed1 := y, seed2 := z \<rparr>"
  defines "stuck \<equiv> \<forall>i \<le> max_fill_key_time L.
    get_slot_pos T u (drawn (next_key T) (Suc i) (key_gen t)) = get_slot_pos T u (drawn (next_key T) 0 (key_gen t))"
  shows "case build_imp T L ir cbr [] seed t of Inl e \<Rightarrow> e = InvalidArgument \<and> stuck
    | Inr t' \<Rightarrow> \<not> stuck \<and> should_expand_item_num t' = should_expand_item_num t0"
proof -
  obtain n1 n2 nr n where n: "max_try_seed1_time L = Suc n1" "max_try_seed2_time L = Suc n2" "max_reseed2_time L = Suc nr"
    "max_try_seed0_time L = Suc n"
    using L by (metis Suc_le_D One_nat_def)
  obtain t1 r where s: "try_seed0 T ([] :: 'k list) (max_try_seed1_time L) (max_try_seed2_time L) (max_reseed2_time L)
      (max_try_seed0_time L) t0 (seed_engine T seed) = (Some (new_buckets (bucket_num t0)), t1, r)"
    and t1: "frame t1 = frame t0" "bucket_p t1 = bucket_p t0" "seed0 t1 = x" "seed1 t1 = y" "seed2 t1 = z"
    unfolding n using try_seed0_empty [OF assms(5-7)] by blast
  have "key_gen t0 = key_gen t" by (simp add: t0_def set_buckets_def set_slot_count_def set_slot_policy_def Let_def)
  then have g: "key_gen t1 = key_gen t" using frame_eqD(14) [OF t1(1)] by simp
  have p: "get_slot_pos T t1 k = get_slot_pos T u k" for k
    by (rule slot_pos_cong) (use frame_eqD(1,2) [OF t1(1)] t1(2-5) in \<open>simp_all add: u_def\<close>)
  have none: "fill_default_keys T (max_fill_key_time L) t1 = None \<longleftrightarrow> stuck"
    unfolding fill_default_keys_None g p stuck_def ..
  show ?thesis
  proof (cases "fill_default_keys T (max_fill_key_time L) t1")
    case None
    then show ?thesis using none
      unfolding build_imp_def Let_def list.size list.map t0_def [symmetric] s prod.case option.case None by simp
  next
    case (Some t2)
    then have "should_expand_item_num t2 = should_expand_item_num t0"
      using fill_default_keys_ok [OF Some] frame_eqD(9) [OF t1(1)] by auto
    then show ?thesis using none Some
      unfolding build_imp_def Let_def list.size list.map t0_def [symmetric] s prod.case option.case Some by simp
  qed
qed

text \<open>The empty table that construction prepares, with its seeds.\<close>

definition prepared :: "nat \<Rightarrow> 'g \<Rightarrow> 'k \<Rightarrow> u64 \<Rightarrow> u64 \<Rightarrow> u64 \<Rightarrow> ('p, 'k, 'v, 'g) fph" where
  "prepared n gen key x y z =
     (set_buckets T False False 0 (set_slot_count T False (set_slot_policy T False 0
       ((initial_fph T n gen key)\<lparr> item_num := 0 \<rparr>))))\<lparr> seed0 := x, seed1 := y, seed2 := z \<rparr>"

lemma prepared_fields:
  fixes n gen key x y z
  defines "u \<equiv> prepared n gen key x y z :: ('p, 'k, 'v, 'g) fph"
  shows "slot_policy u = policy_for T 8" "bucket_policy u = policy_for T 4" "bucket_p u = map (raw_param T) [0..<4]"
    "seed0 u = x" "seed1 u = y" "seed2 u = z"
    "should_expand_item_num u = ceil_to_size (fl 53 (8 * DEFAULT_MAX_LOAD_FACTOR))"
proof -
  let ?s = "set_slot_count T False (set_slot_policy T False 0 ((initial_fph T n gen key :: ('p, 'k, 'v, 'g) fph)\<lparr> item_num := 0 \<rparr>))"
  have p8: "policy_ok (policy_for T 8) 3" using policy_pow2 [of 3] by simp
  have s: "slot_policy ?s = policy_for T 8" "item_num_ceil ?s = 8" "bucket_capacity ?s = 0"
    "should_expand_item_num ?s = ceil_to_size (fl 53 (8 * DEFAULT_MAX_LOAD_FACTOR))"
    using policy_slot_num [OF p8]
    by (simp_all add: set_slot_policy_def set_slot_count_def initial_fph_def DEFAULT_INIT_ITEM_NUM_CEIL_def Let_def)
  have n4: "ceil2_size (wanted_buckets 8) = 4" by code_simp
  show "slot_policy u = policy_for T 8" "bucket_policy u = policy_for T 4" "bucket_p u = map (raw_param T) [0..<4]"
    "seed0 u = x" "seed1 u = y" "seed2 u = z"
    "should_expand_item_num u = ceil_to_size (fl 53 (8 * DEFAULT_MAX_LOAD_FACTOR))"
    by (simp_all add: u_def prepared_def set_buckets_def Let_def s n4 [simplified])
qed

lemma new_outcome:
  fixes n gen and key :: 'k
  assumes L: "1 \<le> max_try_seed0_time L" "1 \<le> max_try_seed1_time L" "1 \<le> max_try_seed2_time L" "1 \<le> max_reseed2_time L"
    and r: "random_odd T (seed_engine T 0) = (x, r1)" "random_odd T r1 = (y, r2)" "random_odd T r2 = (z, r3)"
  defines "u \<equiv> prepared n gen key x y z :: ('p, 'k, 'v, 'g) fph"
  defines "stuck \<equiv> \<forall>i \<le> max_fill_key_time L.
    get_slot_pos T u (drawn (next_key T) (Suc i) gen) = get_slot_pos T u (drawn (next_key T) 0 gen)"
  shows "case fph_new T L n gen key of Inl e \<Rightarrow> e = InvalidArgument \<and> stuck
    | Inr t \<Rightarrow> \<not> stuck \<and> 1 \<le> should_expand_item_num (t :: ('p, 'k, 'v, 'g) fph)"
proof -
  have g: "key_gen (initial_fph T n gen key :: ('p, 'k, 'v, 'g) fph) = gen" by (simp add: initial_fph_def Let_def)
  have "1 \<le> should_expand_item_num (prepared n gen key x y z :: ('p, 'k, 'v, 'g) fph)"
    unfolding prepared_fields(7) by (rule default_should_expand)
  then have e: "1 \<le> should_expand_item_num (set_buckets T False False 0 (set_slot_count T False (set_slot_policy T False 0
       ((initial_fph T n gen key :: ('p, 'k, 'v, 'g) fph)\<lparr> item_num := 0 \<rparr>))))" by (simp add: prepared_def)
  show ?thesis
    using build_empty_outcome [OF L r, of False False "initial_fph T n gen key :: ('p, 'k, 'v, 'g) fph"] e
    unfolding fph_new_def prepared_def [symmetric] g stuck_def u_def
    by (auto split: sum.splits)
qed

lemma empty_emplace_returns:
  assumes t: "fph_good T t" "fph_map T t = Map.empty" "1 \<le> should_expand_item_num t"
  shows "\<exists>r. try_emplace T L key value t = Inr r"
proof -
  obtain m b where ok: "fph_ok T m b t" using t(1) by (auto simp: fph_good_def fph_inv_def)
  note d = fph_okD [OF ok]
  have v: "\<forall>p \<in> filled_set t. snd (slots t ! p) \<noteq> None" using t(1) by (simp add: fph_good_def fph_inv_def)
  have F: "filled_set t = {}"
  proof (rule equals0I)
    fix p assume p: "p \<in> filled_set t"
    then have "get_slot_pos T t (fst (slots t ! p)) = p" using filled_key [OF d(3) filled_bound [OF d(1)]] by blast
    then show False using fph_dom [OF ok v, of "fst (slots t ! p)"] t(2) by simp
  qed
  then have "item_num t = 0" using d(5) filled_set_card [OF layoutD(10) [OF d(1)]] by (simp add: counts_ok_def)
  then have e: "expand_when_full T L t = Inr t" using t(3) by (simp add: expand_when_full_def)
  have "is_slot_empty t (get_slot_pos T t key)"
    using is_slot_empty_iff [OF d(3,2) slot_pos_bound [OF layoutD(1) [OF d(1)]]] F by simp
  then have "\<exists>r. place_key T L key t = Inr r"
    by (cases "fst (slots t ! get_slot_pos T t key) = key") (auto simp: place_key_def Let_def get_slot_pos_def)
  then show ?thesis by (auto simp: try_emplace_def find_or_alloc_def e)
qed

end

end
