(* ===== verification/Fph_Search.thy ===== *)
theory Fph_Search
  imports Fph_Live
begin

text \<open>
  What the search for an offset finds, at the two places the table calls it: the rounds of
  \<open>BuildImp\<close>, which place the buckets one after the other on the free slots of a shuffled table,
  and \<open>FindOrAlloc\<close>, which looks for a place for a bucket and a new key after it has freed the
  slots of the bucket. Both succeed exactly when there is a place.
\<close>

section \<open>The contract\<close>

text \<open>
  Some offset, under one of the optional bits, sends the keys to different free slots. What a table
  needs for the search: a policy for a power of two of slots, tables of that length, and a clean test
  table.
\<close>

definition fits :: "('p, 'k, 'r, 'g) fph_types \<Rightarrow> ('p, 'k, 'v, 'g) fph \<Rightarrow> 'k list \<Rightarrow> nat list \<Rightarrow> bool" where
  "fits T t ks bits \<longleftrightarrow>
     (\<exists>ob \<in> set bits. \<exists>off < item_num_ceil t.
        let ps = map (\<lambda>k. get_slot_pos_at T t k (of_nat off) (of_nat ob)) ks
        in distinct ps \<and> set ps \<inter> filled_set t = {})"

definition search_ready :: "('p, 'k, 'r, 'g) fph_types \<Rightarrow> ('p, 'k, 'v, 'g) fph \<Rightarrow> bool" where
  "search_ready T t \<longleftrightarrow>
     (\<exists>m \<le> 31. policy_for_slots T (slot_policy t) m \<and> item_num_ceil t = 2 ^ m \<and> length (map_table t) = 2 ^ m \<and>
        seed2_test_table t = replicate (2 ^ m) False)"

section \<open>The search\<close>

context fph_table
begin

lemma try_offset_iff:
  fixes t :: "('p, 'k, 'v, 'g) fph"
  assumes t: "perm_ok (2 ^ m) t" "policy_ok (slot_policy t) m" "m \<le> 31" "item_num_ceil t = 2 ^ m" and pat: "pat \<noteq> []"
  shows "snd (try_offset T t (2 ^ m - 1) pat bi ob) \<longleftrightarrow>
    (\<exists>off < 2 ^ m. set (pattern_positions T t pat off) \<inter> filled_set t = {})"
proof
  assume "snd (try_offset T t (2 ^ m - 1) pat bi ob)"
  then obtain off where s: "search_offset T t (2 ^ m - 1) pat (drop (filled_count t) (random_table t)) = Some off"
    by (auto simp: try_offset_def Let_def split: option.splits)
  have "set (pattern_positions T t pat off) \<inter> filled_set t = {}"
    using search_offset_Some(2) [OF s] by (auto simp: filled_set_def is_filled_def)
  then show "\<exists>off < 2 ^ m. set (pattern_positions T t pat off) \<inter> filled_set t = {}"
    using search_offset_Some(1) [OF s] by auto
next
  assume "\<exists>off < 2 ^ m. set (pattern_positions T t pat off) \<inter> filled_set t = {}"
  then show "snd (try_offset T t (2 ^ m - 1) pat bi ob)"
    using try_offset_complete [OF t(2) _ t(4,1) _ pat] t(3) by auto
qed

lemma fits_Cons:
  fixes t :: "('p, 'k, 'v, 'g) fph" and ks :: "'k list"
  assumes t: "policy_ok (slot_policy t) m" "item_num_ceil t = 2 ^ m"
  defines "pat ob \<equiv> map (\<lambda>k. complete_hash T t k (mix_seed_and_bit (seed2 t) (of_nat ob))) ks"
  shows "fits T t ks (ob # bits) \<longleftrightarrow>
    distinct (map (slot_idx t) (pat ob)) \<and> (\<exists>off < 2 ^ m. set (pattern_positions T t (pat ob) off) \<inter> filled_set t = {}) \<or>
    fits T t ks bits"
  unfolding fits_def pat_def t(2) pattern_positions_at [symmetric] pattern_positions_distinct [OF t(1)] Let_def
  by (auto simp: comp_def)

lemma match_pattern_iff:
  fixes t :: "('p, 'k, 'v, 'g) fph"
  assumes t: "perm_ok (2 ^ m) t" "policy_ok (slot_policy t) m" "m \<le> 31" "seed2_test_table t = replicate (2 ^ m) False"
      "item_num_ceil t = 2 ^ m" and ks: "ks \<noteq> []"
  shows "snd (match_pattern T ks bi off False bits t) \<longleftrightarrow> fits T t ks bits"
proof (induction bits)
  case (Cons ob bits)
  let ?pat = "map (\<lambda>key. complete_hash T t key (mix_seed_and_bit (seed2 t) (of_nat ob))) ks"
  have upd: "t\<lparr> seed2_test_table := replicate (2 ^ m) False \<rparr> = t" using t(4) by simp
  have test: "test_hash_vec_self_collision T t ?pat (seed2_test_table t) =
      (distinct (map (slot_idx t) ?pat), replicate (2 ^ m) False)"
    unfolding t(4) by (rule hash_vec_test [OF t(2)])
  have ne: "?pat \<noteq> []" using ks by simp
  note tr = try_offset_iff [OF t(1,2,3,5) ne, of bi ob]
  note F = fits_Cons [OF t(2,5), of ks ob bits]
  show ?case
  proof (cases "distinct (map (slot_idx t) ?pat)")
    case False
    then have "match_pattern T ks bi off False (ob # bits) t = match_pattern T ks bi off False bits t"
      unfolding match_pattern.simps Let_def if_False test by (simp add: upd)
    then show ?thesis using F False Cons.IH by simp
  next
    case True
    obtain t1 f where t1: "try_offset T t (2 ^ m - 1) ?pat bi ob = (t1, f)" by (metis surj_pair)
    have "match_pattern T ks bi off False (ob # bits) t = (if f then (t1, True) else match_pattern T ks bi off False bits t1)"
      using True unfolding match_pattern.simps Let_def if_False test by (simp add: upd t1 t(5) del: One_nat_def)
    moreover have "\<not> f \<Longrightarrow> t1 = t" using try_offset_ok [OF t1 t(1,2) True] by simp
    moreover have "fits T t ks (ob # bits) \<longleftrightarrow> f \<or> fits T t ks bits" using F True tr unfolding t1 snd_conv by blast
    ultimately show ?thesis using Cons.IH by (cases f) (simp_all del: match_pattern.simps)
  qed
qed (simp add: fits_def)

lemma place_bucket_iff:
  fixes t :: "('p, 'k, 'v, 'g) fph"
  assumes t: "perm_ok (2 ^ m) t" "policy_ok (slot_policy t) m" "m \<le> 31" "seed2_test_table t = replicate (2 ^ m) False"
      "item_num_ceil t = 2 ^ m" and ks: "key_array b \<noteq> []"
    and d: "distinct (map (\<lambda>k. slot_idx t (complete_hash T t k (seed2 t))) (key_array b))"
  shows "snd (place_bucket T b [0, 1] t) \<longleftrightarrow> fits T t (key_array b) [0, 1]"
proof -
  let ?pat = "\<lambda>ob :: nat. map (\<lambda>key. complete_hash T t key (mix_seed_and_bit (seed2 t) (of_nat ob))) (key_array b)"
  have upd: "t\<lparr> seed2_test_table := replicate (2 ^ m) False \<rparr> = t" using t(4) by simp
  have mask: "unat (slot_num T (slot_policy t)) - 1 = 2 ^ m - 1" by (simp add: policy_slot_num [OF t(2)])
  have test: "test_hash_vec_self_collision T t (?pat 1) (seed2_test_table t) =
      (distinct (map (slot_idx t) (?pat 1)), replicate (2 ^ m) False)"
    unfolding t(4) by (rule hash_vec_test [OF t(2)])
  have ne: "?pat ob \<noteq> []" for ob using ks by simp
  have tr: "snd (try_offset T t (2 ^ m - 1) (?pat ob) (bucket_idx b) ob) \<longleftrightarrow>
      (\<exists>off < 2 ^ m. set (pattern_positions T t (?pat ob) off) \<inter> filled_set t = {})" for ob
    by (rule try_offset_iff [OF t(1,2,3,5) ne])
  have d0: "distinct (map (slot_idx t) (?pat 0))" using d by (simp add: comp_def mix_seed_and_bit_def)
  obtain t1 f where t1: "try_offset T t (2 ^ m - 1) (?pat 0) (bucket_idx b) 0 = (t1, f)" by (metis surj_pair)
  have step0: "place_bucket T b [0, 1] t = (if f then (t1, True) else place_bucket T b [1] t1)"
    using t1 by (simp add: Let_def upd t(4) mask del: One_nat_def)
  have same: "\<not> f \<Longrightarrow> t1 = t" using try_offset_ok [OF t1 t(1,2) d0] by simp
  obtain t2 g where t2: "try_offset T t (2 ^ m - 1) (?pat 1) (bucket_idx b) 1 = (t2, g)" by (metis surj_pair)
  have step1: "place_bucket T b [1] t = (if distinct (map (slot_idx t) (?pat 1)) then if g then (t2, True) else (t2, False) else (t, False))"
    unfolding place_bucket.simps Let_def test if_P [OF zero_less_one] prod.case upd mask t2 by simp
  have none: "\<not> fits T t (key_array b) []" by (simp add: fits_def)
  show ?thesis
    using tr [of 0] tr [of 1] step0 step1 same d0 none
    unfolding fits_Cons [OF t(2,5)] t1 t2 snd_conv by (cases f) (simp_all del: place_bucket.simps One_nat_def)
qed

lemma place_buckets_iff:
  fixes t :: "('p, 'k, 'v, 'g) fph"
  assumes "perm_ok (2 ^ m) t" "policy_ok (slot_policy t) m" "m \<le> 31" "seed2_test_table t = replicate (2 ^ m) False"
      "item_num_ceil t = 2 ^ m" and "no_self_collision t bs is" and "\<forall>i \<in> set is. entry_cnt (bs ! i) = length (key_array (bs ! i))"
  shows "snd (place_buckets T bs is t) \<longleftrightarrow>
    (\<forall>js i ks u. is = js @ i # ks \<and> place_buckets T bs js t = (u, True) \<longrightarrow> fits T u (key_array (bs ! i)) [0, 1])"
  using assms
proof (induction "is" arbitrary: t)
  case (Cons i "is")
  let ?b = "bs ! i"
  have e: "entry_cnt ?b = length (key_array ?b)" "\<forall>i \<in> set is. entry_cnt (bs ! i) = length (key_array (bs ! i))"
    using Cons.prems(7) by simp_all
  have d: "distinct (map (\<lambda>k. slot_idx t (complete_hash T t k (seed2 t))) (key_array ?b))" "no_self_collision t bs is"
    using Cons.prems(6) by (simp_all add: no_self_collision_def)
  have split: "(\<forall>js i' ks u. i # is = js @ i' # ks \<and> place_buckets T bs js t = (u, True) \<longrightarrow> fits T u (key_array (bs ! i')) [0, 1]) \<longleftrightarrow>
      fits T t (key_array ?b) [0, 1] \<and>
      (\<forall>js i' ks u. is = js @ i' # ks \<and> place_buckets T bs (i # js) t = (u, True) \<longrightarrow> fits T u (key_array (bs ! i')) [0, 1])"
    (is "?L \<longleftrightarrow> ?R")
  proof
    assume L: ?L
    have "fits T t (key_array ?b) [0, 1]" using L [rule_format, of "[]" i "is" t] by simp
    moreover have "fits T u (key_array (bs ! i')) [0, 1]" if "is = js @ i' # ks" "place_buckets T bs (i # js) t = (u, True)" for js i' ks u
      using L [rule_format, of "i # js" i' ks u] that by (simp del: place_buckets.simps)
    ultimately show ?R by blast
  next
    assume R: ?R
    show ?L
    proof (intro allI impI)
      fix js i' ks u assume a: "i # is = js @ i' # ks \<and> place_buckets T bs js t = (u, True)"
      show "fits T u (key_array (bs ! i')) [0, 1]"
      proof (cases js)
        case Nil
        then show ?thesis using a R by simp
      next
        case (Cons j js')
        then have "is = js' @ i' # ks" "place_buckets T bs (i # js') t = (u, True)" using a by auto
        then show ?thesis using R by blast
      qed
    qed
  qed
  show ?case
  proof (cases "entry_cnt ?b = 0")
    case True
    have "fits T t [] [0, 1]" unfolding fits_def by (auto simp: Cons.prems(5) intro!: exI [of _ 0])
    then have f: "fits T t (key_array ?b) [0, 1]" using True e(1) by simp
    have step: "place_buckets T bs (i # js) t = place_buckets T bs js t" for js using True by (simp add: Let_def)
    show ?thesis unfolding split step using Cons.IH [OF Cons.prems(1-5) d(2) e(2)] f by simp
  next
    case False
    then have ne: "key_array ?b \<noteq> []" using e(1) by auto
    obtain t1 f where t1: "place_bucket T ?b [0, 1] t = (t1, f)" by (metis surj_pair)
    have step: "place_buckets T bs (i # js) t = (if f then place_buckets T bs js t1 else (t1, False))" for js
      using False t1 by (simp add: Let_def del: place_bucket.simps)
    have fit: "f \<longleftrightarrow> fits T t (key_array ?b) [0, 1]"
      using place_bucket_iff [OF Cons.prems(1-5) ne d(1)] t1 by simp
    have pb: "same_hash t1 t \<and> (if f then perm_ok (2 ^ m) t1 \<and> (\<exists>off < 2 ^ m. \<exists>ob \<le> 1.
      let ps = map (\<lambda>k. get_slot_pos_at T t k (of_nat off) (of_nat ob)) (key_array ?b) in
      bucket_p t1 = (bucket_p t)[bucket_idx ?b := bucket_param_value off ob] \<and>
      filled_set t1 = filled_set t \<union> set ps \<and> distinct ps \<and> set ps \<inter> filled_set t = {})
      else t1 = t)"
      by (rule place_bucket_ok [OF t1 _ Cons.prems(1-4) d(1)]) simp
    show ?thesis
    proof (cases f)
      case False
      then show ?thesis unfolding split step using fit by simp
    next
      case True
      have pol: "slot_policy t1 = slot_policy t" "item_num_ceil t1 = item_num_ceil t"
        using pb same_hash_policy frame_eqD(5) unfolding same_hash_def by blast+
      have ch: "complete_hash T t1 k (seed2 t1) = complete_hash T t k (seed2 t)" for k
        using pb by (simp add: complete_hash_def same_hash_def)
      have nc: "no_self_collision t1 bs is" using d(2) unfolding no_self_collision_def pol ch .
      have st: "seed2_test_table t1 = seed2_test_table t" using pb by (simp add: same_hash_def)
      have "snd (place_buckets T bs is t1) \<longleftrightarrow>
          (\<forall>js i ks u. is = js @ i # ks \<and> place_buckets T bs js t1 = (u, True) \<longrightarrow> fits T u (key_array (bs ! i)) [0, 1])"
        by (rule Cons.IH [OF _ _ Cons.prems(3) _ _ nc e(2)]) (use pb True Cons.prems pol st in simp_all)
      then show ?thesis unfolding split step using fit True by simp
    qed
  qed
qed simp

text \<open>A round of \<open>BuildImp\<close>, from the choice of the second seed and the shuffling of the slots on.\<close>

lemma round_iff:
  fixes u u1 :: "('p, 'k, 'v, 'g) fph"
  assumes u: "search_ready T u" "\<forall>i \<in> set is. entry_cnt (bs ! i) = length (key_array (bs ! i))"
    and f: "find_seed2 T bs is n u r = (True, u1, r1)"
    and s: "shuffle_table T (item_num_ceil u1 - 1) [0..<item_num_ceil u1] r1 = (rt, r2)"
  defines "u2 \<equiv> u1\<lparr> random_table := rt, map_table := invert_table rt 0 (map_table u1), filled_count := 0 \<rparr>"
  shows "snd (place_buckets T bs is u2) \<longleftrightarrow>
    (\<forall>js i ks v. is = js @ i # ks \<and> place_buckets T bs js u2 = (v, True) \<longrightarrow> fits T v (key_array (bs ! i)) [0, 1])"
proof -
  obtain m where m: "m \<le> 31" "policy_ok (slot_policy u) m" "item_num_ceil u = 2 ^ m" "length (map_table u) = 2 ^ m"
    "seed2_test_table u = replicate (2 ^ m) False"
    using u(1) by (auto simp: search_ready_def)
  note fs = find_seed2_ok [OF f m(2,5)]
  have pol: "slot_policy u1 = slot_policy u" "item_num_ceil u1 = item_num_ceil u"
    using fs frame_eqD(1,5) unfolding same_frame_def by blast+
  have "mset (fst (shuffle_table T (item_num_ceil u1 - 1) [0..<item_num_ceil u1] r1)) = mset [0..<item_num_ceil u1]"
    using m(3) pol by (intro shuffle_perm) simp
  then have ms: "mset rt = mset [0..<2 ^ m]" using s m(3) pol by (simp del: mset_upt)
  have len: "length (map_table u1) = 2 ^ m" using fs m(4) by simp
  have "no_self_collision u1 bs is" using fs by simp
  then have nc: "no_self_collision u2 bs is" by (simp add: no_self_collision_def u2_def complete_hash_def)
  show ?thesis
    by (rule place_buckets_iff [OF fresh_tables_ok(1) [OF ms len, of u1, folded u2_def] _ m(1) _ _ nc u(2)])
      (use m fs pol in \<open>simp_all add: u2_def\<close>)
qed

text \<open>The first second seed is taken when no bucket collides with itself under it.\<close>

lemma find_seed2_first:
  fixes u :: "('p, 'k, 'v, 'g) fph"
  assumes u: "search_ready T u" and x: "random_odd T r = (x, r1)" and nc: "no_self_collision (u\<lparr> seed2 := x \<rparr>) bs is"
  shows "find_seed2 T bs is (Suc n) u r = (True, u\<lparr> seed2 := x \<rparr>, r1)"
proof -
  obtain m where m: "policy_ok (slot_policy u) m" "seed2_test_table u = replicate (2 ^ m) False"
    using u by (auto simp: search_ready_def)
  have pol: "policy_ok (slot_policy (u\<lparr> seed2 := x \<rparr>)) m" using m(1) by simp
  have upd: "u\<lparr> seed2 := x, seed2_test_table := replicate (2 ^ m) False \<rparr> = u\<lparr> seed2 := x \<rparr>" using m(2) by simp
  show ?thesis using buckets_test [OF pol, of x bs "is"] nc by (simp add: x m(2) no_self_collision_def upd)
qed

text \<open>The place of a bucket and a new key, when \<open>FindOrAlloc\<close> has freed the slots of the bucket.\<close>

lemma insertion_iff:
  fixes t :: "('p, 'k, 'v, 'g) fph" and key :: 'k
  assumes ok: "fph_ok T m b t"
  defines "i \<equiv> complete_get_bucket_index T t key"
  defines "kl \<equiv> key_array (bucket_array t ! i)"
  defines "ks \<equiv> map (\<lambda>p. fst (slots t ! p)) kl @ [key]" and "ob \<equiv> unat (bucket_p t ! i AND 1)"
  shows "snd (match_pattern T ks (bucket_idx (bucket_array t ! i)) (unat (drop_bit 1 (bucket_p t ! i))) True [ob..<2] t) \<longleftrightarrow>
    fits T (free_slots kl t) ks [ob..<2]"
    and "filled_set (free_slots kl t) = filled_set t - set kl"
proof -
  note d = fph_okD [OF ok]
  note l = layoutD [OF d(1)]
  let ?off = "unat (drop_bit 1 (bucket_p t ! i))"
  have ib: "i < 2 ^ b" unfolding i_def by (rule bucket_index_bound [OF l(6)])
  have kl: "set kl = {q \<in> filled_set t. complete_get_bucket_index T t (fst (slots t ! q)) = i}" "distinct kl"
    using d(4) ib by (auto simp: buckets_ok_def kl_def)
  have klf: "set kl \<subseteq> filled_set t" unfolding kl(1) by blast
  have ob1: "ob \<le> 1" using and_mask_mod [of "bucket_p t ! i" 1] by (simp add: ob_def)
  then have bits: "[ob..<2] = ob # [Suc ob..<2]" by (simp add: upt_conv_Cons)
  let ?f = "\<lambda>k. complete_hash T t k (mix_seed_and_bit (seed2 t) (of_nat ob))"
  have "butlast (map ?f ks) = map ?f (map (\<lambda>p. fst (slots t ! p)) kl)" by (simp add: ks_def butlast_append)
  then have "pattern_positions T t (butlast (map ?f ks)) ?off =
      map (\<lambda>k. get_slot_pos_at T t k (of_nat ?off) (of_nat ob)) (map (\<lambda>p. fst (slots t ! p)) kl)"
    by (simp only: pattern_positions_at)
  also have "\<dots> = map (\<lambda>p. p) kl"
    unfolding map_map
  proof (rule map_cong [OF refl])
    fix p assume p: "p \<in> set kl"
    have pn: "p < 2 ^ m" using p klf filled_bound [OF d(1)] by auto
    have "get_slot_pos T t (fst (slots t ! p)) = p" using filled_key [OF d(3) pn] p klf by auto
    moreover have "complete_get_bucket_index T t (fst (slots t ! p)) = i" using p kl(1) by simp
    ultimately show "((\<lambda>k. get_slot_pos_at T t k (of_nat ?off) (of_nat ob)) \<circ> (\<lambda>p. fst (slots t ! p))) p = p"
      by (simp add: get_slot_pos_eq ob_def)
  qed
  finally have pos: "pattern_positions T t (butlast (map ?f ks)) ?off = kl" by simp
  have fs: "perm_ok (2 ^ m) (free_slots kl t)" "filled_set (free_slots kl t) = filled_set t - set kl"
    using free_slots_ok [OF l(10) kl(2) klf] by simp_all
  show "filled_set (free_slots kl t) = filled_set t - set kl" by (rule fs(2))
  have ne: "ks \<noteq> []" by (simp add: ks_def)
  show "snd (match_pattern T ks (bucket_idx (bucket_array t ! i)) ?off True [ob..<2] t) \<longleftrightarrow> fits T (free_slots kl t) ks [ob..<2]"
    unfolding bits match_first pos
    by (rule match_pattern_iff [OF fs(1) _ l(3) _ _ ne]) (use l in simp_all)
qed

text \<open>The tables that \<open>BuildImp\<close> gives to its rounds are ready for them.\<close>

lemma build_ready:
  fixes t :: "('p, 'k, 'v, 'g) fph" and ir cbr n
  assumes "set (seed2_test_table t) \<subseteq> {False}" "ir \<Longrightarrow> policy_ok (slot_policy t) m0 \<and> 3 \<le> m0 \<and> m0 \<le> 31"
  defines "t0 \<equiv> set_buckets T ir cbr n (set_slot_count T cbr (set_slot_policy T ir n t))"
  shows "search_ready T (t0\<lparr> seed0 := x, seed1 := y, seed2_test_table := resize (item_num_ceil t0) False (seed2_test_table t0),
      random_table := resize (item_num_ceil t0) 0 (random_table t0), map_table := resize (item_num_ceil t0) 0 (map_table t0) \<rparr>)"
proof -
  let ?sp = "set_slot_policy T ir n t"
  obtain m where m: "policy_ok (slot_policy ?sp) m" "m \<le> 31" using set_slot_policy_ok [of ir t m0 n] assms(2) by auto
  have "seed2_test_table ?sp = seed2_test_table t" by (simp add: set_slot_policy_def Let_def)
  then have "item_num_ceil t0 = 2 ^ m" "slot_policy t0 = slot_policy ?sp" "seed2_test_table t0 = seed2_test_table t"
    using policy_slot_num [OF m(1)] by (simp_all add: t0_def set_buckets_def set_slot_count_def Let_def)
  then show ?thesis using m assms(1) unfolding search_ready_def by (intro exI [of _ m]) (simp add: resize_false)
qed

lemma inv_ready:
  assumes "fph_inv T t"
  shows "search_ready T t" "set (seed2_test_table t) \<subseteq> {False}" "\<exists>m. policy_ok (slot_policy t) m \<and> 3 \<le> m \<and> m \<le> 31"
proof -
  obtain m b where "fph_ok T m b t" using assms by (auto simp: fph_inv_def)
  note l = layoutD [OF fph_okD(1) [OF this]]
  show "search_ready T t" using l perm_okD(2) [OF l(10)] by (auto simp: search_ready_def intro!: exI [of _ m])
  show "set (seed2_test_table t) \<subseteq> {False}" using l(11) by simp
  show "\<exists>m. policy_ok (slot_policy t) m \<and> 3 \<le> m \<and> m \<le> 31" using l by blast
qed

end
end
