(* ===== verification/Fph_Props.thy ===== *)
theory Fph_Props
  imports Fph_Search
begin

text \<open>
  The properties of the perfect hash map as the program uses it: keys and values of 64 bits, the
  index policy of \<open>DynamicFphMapPolicy\<close>, which takes the high bits of the hash, and one of
  the seeded hashes of the code. The random engine and the generator of keys are parameters.
\<close>

section \<open>Lookups and sizes\<close>

context fph_table
begin

lemma lookup_ok:
  assumes "fph_inv T t"
  shows "case fph_map T t k of
      None \<Rightarrow> fph_find T t k = fph_end \<and> \<not> fph_contains T t k \<and> fph_count T t k = 0 \<and> fph_at T t k = Inl OutOfRange \<and>
        fph_equal_range T t k = (fph_end, fph_end)
    | Some x \<Rightarrow> fph_contains T t k \<and> fph_count T t k = 1 \<and> fph_at T t k = Inr (Some x) \<and>
        (\<exists>p \<in> filled_set t. slots t ! p = (k, Some x) \<and> fph_find T t k = iterator_at (Some p) \<and> get_pointer_no_check T t k = p \<and>
           fph_equal_range T t k = (iterator_at (Some p), iterator_inc t (iterator_at (Some p))))"
proof -
  obtain m b where ok: "fph_ok T m b t" and v: "\<forall>p \<in> filled_set t. snd (slots t ! p) \<noteq> None"
    using assms by (auto simp: fph_inv_def)
  show ?thesis by (rule find_ok [OF ok v])
qed

lemma iteration_ok:
  assumes "fph_inv T t"
  defines "es \<equiv> map (\<lambda>p. slots t ! p) (fph_visit t (fph_begin t))"
  shows "distinct (map fst es)" "map_of es = (\<lambda>k. map_option Some (fph_map T t k))" "length es = fph_size t"
proof -
  obtain m b where ok: "fph_ok T m b t" and v: "\<forall>p \<in> filled_set t. snd (slots t ! p) \<noteq> None"
    using assms(1) by (auto simp: fph_inv_def)
  show "distinct (map fst es)" "map_of es = (\<lambda>k. map_option Some (fph_map T t k))" "length es = fph_size t"
    unfolding es_def by (rule iterate_ok [OF ok v])+
qed

lemma size_ok:
  assumes "fph_inv T t"
  shows "fph_size t = card (dom (fph_map T t))"
proof -
  let ?es = "map (\<lambda>p. slots t ! p) (fph_visit t (fph_begin t))"
  note i = iteration_ok [OF assms]
  have "dom (fph_map T t) = dom (map_of ?es)" unfolding i(2) by (auto simp: dom_def)
  also have "\<dots> = set (map fst ?es)" by (simp only: dom_map_of_conv_image_fst set_map)
  also have "card \<dots> = length (map fst ?es)" by (rule distinct_card [OF i(1)])
  finally show ?thesis using i(3) by simp
qed

lemma invariant_facts:
  assumes "fph_inv T t"
  shows "is_random_table_valid (random_table t) (map_table t)" "inj_on (get_slot_pos T t) (dom (fph_map T t))"
    "filled_set t = get_slot_pos T t ` dom (fph_map T t)" "card (filled_set t) = fph_size t"
    "p < item_num_ceil t \<Longrightarrow> is_slot_empty t p = (p \<notin> filled_set t)"
proof -
  obtain m b where ok: "fph_ok T m b t" and v: "\<forall>p \<in> filled_set t. snd (slots t ! p) \<noteq> None"
    using assms by (auto simp: fph_inv_def)
  note d = fph_okD [OF ok] and l = layoutD [OF fph_okD(1) [OF ok]]
  show "is_random_table_valid (random_table t) (map_table t)" by (rule perm_ok_valid [OF l(10)])
  show "card (filled_set t) = fph_size t"
    using filled_set_card [OF l(10)] d(5) by (simp add: counts_ok_def fph_size_def)
  show "p < item_num_ceil t \<Longrightarrow> is_slot_empty t p = (p \<notin> filled_set t)"
    using is_slot_empty_iff [OF d(3,2)] l(4) by simp
  show "filled_set t = get_slot_pos T t ` dom (fph_map T t)"
  proof (intro equalityI subsetI)
    fix p assume p: "p \<in> filled_set t"
    then have k: "get_slot_pos T t (fst (slots t ! p)) = p" using filled_key [OF d(3) filled_bound [OF d(1)]] by blast
    then have "fph_map T t (fst (slots t ! p)) \<noteq> None" using fph_dom [OF ok v, of "fst (slots t ! p)"] by simp
    then have "fst (slots t ! p) \<in> dom (fph_map T t)" unfolding domIff .
    with k [symmetric] show "p \<in> get_slot_pos T t ` dom (fph_map T t)" by (rule image_eqI)
  next
    fix p assume "p \<in> get_slot_pos T t ` dom (fph_map T t)"
    then obtain k where "p = get_slot_pos T t k" "fph_map T t k \<noteq> None" by auto
    then show "p \<in> filled_set t" using fph_dom [OF ok v, of k] found_filled [OF d(1,3,2), of k] by auto
  qed
  show "inj_on (get_slot_pos T t) (dom (fph_map T t))"
  proof (rule inj_onI)
    fix k k' assume k: "k \<in> dom (fph_map T t)" "k' \<in> dom (fph_map T t)" "get_slot_pos T t k = get_slot_pos T t k'"
    have "fst (slots t ! get_slot_pos T t k) = k" "fst (slots t ! get_slot_pos T t k') = k'"
      using k(1,2) fph_dom [OF ok v, of k] fph_dom [OF ok v, of k'] unfolding domIff by simp_all
    then show "k = k'" unfolding k(3) by simp
  qed
qed

lemma shape_facts:
  assumes "fph_inv T t"
  shows "\<exists>m. 3 \<le> m \<and> m \<le> 31 \<and> item_num_ceil t = 2 ^ m \<and> length (slots t) = 2 ^ m \<and> length (random_table t) = 2 ^ m \<and>
      length (map_table t) = 2 ^ m \<and> length (seed2_test_table t) = 2 ^ m"
    "length (bucket_array t) = bucket_num t" "bucket_num t \<le> length (bucket_p t)" "length (bucket_p t) = bucket_capacity t"
    "get_slot_pos T t k < length (slots t)" "complete_get_bucket_index T t k < bucket_num t"
proof -
  obtain m b where ok: "fph_ok T m b t" using assms by (auto simp: fph_inv_def)
  note d = fph_okD [OF ok] and l = layoutD [OF fph_okD(1) [OF ok]]
  show "\<exists>m. 3 \<le> m \<and> m \<le> 31 \<and> item_num_ceil t = 2 ^ m \<and> length (slots t) = 2 ^ m \<and> length (random_table t) = 2 ^ m \<and>
      length (map_table t) = 2 ^ m \<and> length (seed2_test_table t) = 2 ^ m"
    using l perm_okD(1,2) [OF l(10)] by (intro exI [of _ m]) simp
  show "length (bucket_array t) = bucket_num t" using d(4) l(7) by (simp add: buckets_ok_def)
  show "bucket_num t \<le> length (bucket_p t)" "length (bucket_p t) = bucket_capacity t" using l by simp_all
  show "get_slot_pos T t k < length (slots t)" "complete_get_bucket_index T t k < bucket_num t"
    using slot_pos_bound [OF l(1)] bucket_index_bound [OF l(6)] l(5,7) by simp_all
qed

text \<open>What a build yields, whatever it does.\<close>

lemma build_result:
  assumes "fph_inv T t"
  shows "case build_imp T L False False (map (\<lambda>(k, v). (k, Some v)) es) s t of
      Inl e \<Rightarrow> e = InvalidArgument
    | Inr t' \<Rightarrow> distinct (map fst es) \<and> fph_map T t' = map_of es \<and> fph_inv T t' \<and>
        distinct (map (get_slot_pos T t') (map fst es)) \<and> fph_size t' = length es"
proof (cases "build_imp T L False False (map (\<lambda>(k, v). (k, Some v)) es) s t")
  case (Inl e)
  then have "e = InvalidArgument"
    by (auto simp: build_imp_def Let_def split: if_splits prod.splits option.splits)
  then show ?thesis using Inl by simp
next
  case (Inr t')
  have "\<exists>m b. fph_ok T m b t" using assms by (simp add: fph_inv_def)
  from build_elements_ok [OF this Inr] have e: "distinct (map fst es)" "fph_map T t' = map_of es" "fph_inv T t'"
    by (simp_all add: fph_good_def)
  have dm: "dom (map_of es) = set (map fst es)" by (simp add: dom_map_of_conv_image_fst)
  then have "inj_on (get_slot_pos T t') (set (map fst es))" using invariant_facts(2) [OF e(3)] e(2) by simp
  then have "distinct (map (get_slot_pos T t') (map fst es))" using e(1) by (simp only: distinct_map)
  moreover have "fph_size t' = length es"
    using size_ok [OF e(3)] distinct_card [OF e(1)] unfolding e(2) dm by simp
  ultimately show ?thesis using Inr e by simp
qed

end

section \<open>A new table\<close>

text \<open>
  The slot of a key in the empty table that a constructor builds: eight slots and four buckets, the
  first three draws of the engine seeded with 0, made odd, as seeds, and bucket parameters that hold
  whatever their memory held.
\<close>

definition new_table_slot :: "('k \<Rightarrow> u64 \<Rightarrow> u64) \<Rightarrow> (u64 \<Rightarrow> 'r) \<Rightarrow> ('r \<Rightarrow> u64 \<times> 'r) \<Rightarrow> (nat \<Rightarrow> u32) \<Rightarrow> 'k \<Rightarrow> u64" where
  "new_table_slot sh eng rnd raw key =
     (let (s0, r) = rnd (eng 0);
          (s1, r) = rnd r;
          (s2, r) = rnd r;
          h = sh key (s0 OR 1);
          p = raw (unat (drop_bit 62 (h * (s1 OR 1))))
      in drop_bit 61 (h * ((s2 OR 1) + ucast (p AND 1)) + push_bit 61 (ucast (drop_bit 1 p))))"

lemma high_shift: "unat (shift_bits (high_update 8)) = 61" "unat (shift_bits (high_update 4)) = 62"
  using shift_bits_eq(1) [of 8] shift_bits_eq(1) [of 4] log2_up_pow2 [of 3] log2_up_pow2 [of 2] by simp_all

lemma high_new_outcome:
  fixes sh eng rnd nk n gen and key :: 'k and raw :: "nat \<Rightarrow> u32"
  defines "T \<equiv> high_types sh eng rnd nk raw"
  defines "stuck \<equiv> \<forall>i \<le> 100000. new_table_slot sh eng rnd raw (drawn nk (Suc i) gen) = new_table_slot sh eng rnd raw (drawn nk 0 gen)"
  shows "case fph_new T build_limits n gen key of Inl e \<Rightarrow> e = InvalidArgument \<and> stuck
    | Inr t \<Rightarrow> \<not> stuck \<and> 1 \<le> should_expand_item_num (t :: (high_bits_policy, 'k, 'v, 'g) fph)"
proof -
  obtain s0 r1 where s0: "rnd (eng 0) = (s0, r1)" by (metis surj_pair)
  obtain s1 r2 where s1: "rnd r1 = (s1, r2)" by (metis surj_pair)
  obtain s2 r3 where s2: "rnd r2 = (s2, r3)" by (metis surj_pair)
  have T: "seed_engine T = eng" "next_random T = rnd" "next_key T = nk" "seed_hash T = sh" "raw_param T = raw"
    "map_to_index T = high_map_to_index" "reverse_map T = high_reverse_map" "policy_for T = high_update"
    by (simp_all add: T_def high_types_def)
  have r: "random_odd T (seed_engine T 0) = (s0 OR 1, r1)" "random_odd T r1 = (s1 OR 1, r2)" "random_odd T r2 = (s2 OR 1, r3)"
    by (simp_all add: random_odd_def T s0 s1 s2)
  define u :: "(high_bits_policy, 'k, 'v, 'g) fph" where
    "u = fph_table.prepared T n gen key (s0 OR 1) (s1 OR 1) (s2 OR 1)"
  note f = high_table.prepared_fields [of sh eng rnd nk raw, folded T_def, of n gen key, folded u_def]
  have pos: "get_slot_pos T u k = unat (new_table_slot sh eng rnd raw k)" for k
  proof -
    have b: "unat (drop_bit 62 w) < 4" for w :: u64
      using unsigned_less [of w, where ?'a = nat] by (simp add: unat_drop_bit less_mult_imp_div_less)
    have i: "get_bucket_index T u h = unat (drop_bit 62 (h * (s1 OR 1)))" for h
      by (simp add: get_bucket_index_def mid_hash_def T high_map_to_index_def high_shift u_def f)
    have p: "bucket_p u ! unat (drop_bit 62 w) = raw (unat (drop_bit 62 w))" for w :: u64
      using b [of w] by (simp add: u_def f T)
    show ?thesis
      unfolding get_slot_pos_def get_slot_pos_by_seed0_hash_def Let_def i p
      by (simp add: new_table_slot_def s0 s1 s2 T Let_def mid_hash_def mix_seed_and_bit_def high_map_to_index_def
        high_reverse_map_def high_shift u_def f)
  qed
  have L: "1 \<le> max_try_seed0_time build_limits" "1 \<le> max_try_seed1_time build_limits"
    "1 \<le> max_try_seed2_time build_limits" "1 \<le> max_reseed2_time build_limits" "max_fill_key_time build_limits = 100000"
    by (simp_all add: build_limits_def)
  have "stuck \<longleftrightarrow> (\<forall>i \<le> max_fill_key_time build_limits.
      get_slot_pos T u (drawn (next_key T) (Suc i) gen) = get_slot_pos T u (drawn (next_key T) 0 gen))"
    unfolding stuck_def pos T(3) L(5) word_unat_eq_iff ..
  then show ?thesis
    using high_table.new_outcome [OF L(1-4) r [unfolded T_def], folded T_def, of n gen key, where 'v = 'v, folded u_def]
    by (simp only:)
qed

lemma high_first_emplace:
  assumes "fph_new (high_types sh eng rnd nk raw) build_limits n gen key = Inr (t :: (high_bits_policy, 'k, 'v, 'g) fph)"
  shows "\<exists>t' it ins. fph_emplace (high_types sh eng rnd nk raw) build_limits k v t = Inr (t', it, ins)"
proof -
  have g: "fph_good (high_types sh eng rnd nk raw) t \<and> fph_map (high_types sh eng rnd nk raw) t = Map.empty"
    using assms by (rule high_table.new_ok)
  have e: "1 \<le> should_expand_item_num t"
    using high_new_outcome [where sh = sh and eng = eng and rnd = rnd and nk = nk and raw = raw and n = n and gen = gen and key = key and 'v = 'v] unfolding assms by simp
  obtain r where "try_emplace (high_types sh eng rnd nk raw) build_limits k v t = Inr r"
    using high_table.empty_emplace_returns [OF conjunct1 [OF g] conjunct2 [OF g] e] by blast
  then have "fph_emplace (high_types sh eng rnd nk raw) build_limits k v t = Inr (fst r, fst (snd r), snd (snd r))"
    by (simp add: fph_emplace_def)
  then show ?thesis by blast
qed

section \<open>A table that exists\<close>

text \<open>A generator that gives 0 and the highest bit in turn.\<close>

definition two_keys :: "nat \<Rightarrow> u64 \<times> nat" where
  "two_keys g = (if even g then 0 else 0x8000000000000000, g + 1)"

lemma two_keys_apart:
  "new_table_slot chosen_simple_seed_hash64 eng rnd (\<lambda>_. 0) (drawn two_keys (Suc 0) 0) \<noteq>
   new_table_slot chosen_simple_seed_hash64 eng rnd (\<lambda>_. 0) (drawn two_keys 0 0)"
proof -
  have top: "(0x8000000000000000 :: u64) * (s OR 1) = 0x8000000000000000" for s :: u64
  proof -
    have "odd (s OR 1)" by (simp add: even_or_iff)
    then obtain c where c: "s OR 1 = 2 * c + 1" by (rule oddE)
    have "(0x8000000000000000 :: u64) * (2 * c + 1) = (0x8000000000000000 * 2) * c + 0x8000000000000000"
      by (simp only: distrib_left mult.assoc mult_1_right)
    also have "(0x8000000000000000 :: u64) * 2 = 0" by simp
    finally show ?thesis by (simp add: c)
  qed
  show ?thesis
    by (simp add: new_table_slot_def chosen_simple_seed_hash64_def two_keys_def top case_prod_unfold Let_def drop_bit_eq_div)
qed

lemma example_table:
  fixes rnd :: "u64 \<Rightarrow> u64 \<times> u64" and v :: u64
  defines "T \<equiv> high_types chosen_simple_seed_hash64 (\<lambda>s. s) rnd two_keys (\<lambda>_. 0)"
  obtains t t' it ins where "fph_new T build_limits n 0 0 = Inr t" "fph_emplace T build_limits k v t = Inr (t', it, ins)"
proof -
  have "\<exists>i \<le> 100000. new_table_slot chosen_simple_seed_hash64 (\<lambda>s. s) rnd (\<lambda>_. 0) (drawn two_keys (Suc i) 0) \<noteq>
      new_table_slot chosen_simple_seed_hash64 (\<lambda>s. s) rnd (\<lambda>_. 0) (drawn two_keys 0 0)"
    using two_keys_apart by (intro exI [of _ 0]) simp
  then obtain t :: "(high_bits_policy, u64, u64, nat) fph" where t: "fph_new T build_limits n 0 0 = Inr t"
    using high_new_outcome [where sh = chosen_simple_seed_hash64 and eng = "\<lambda>s. s" and rnd = rnd and nk = two_keys and
      raw = "\<lambda>_. 0" and n = n and gen = 0 and key = 0 and 'v = u64, folded T_def]
    by (cases "fph_new T build_limits n 0 0 :: fph_error + (high_bits_policy, u64, u64, nat) fph") auto
  from high_first_emplace [OF t [unfolded T_def], folded T_def, of k v] that t show ?thesis by blast
qed

lemma example_reach:
  fixes rnd :: "u64 \<Rightarrow> u64 \<times> u64" and init :: u64
  obtains t where "fph_reach (high_types chosen_simple_seed_hash64 (\<lambda>s. s) rnd two_keys (\<lambda>_. 0)) build_limits init
      [Call_emplace 5 7, Call_erase 6] t"
proof -
  let ?T = "high_types chosen_simple_seed_hash64 (\<lambda>s. s) rnd two_keys (\<lambda>_. 0)"
  obtain t t' :: "(high_bits_policy, u64, u64, nat) fph" and it ins where t: "fph_new ?T build_limits 0 0 0 = Inr t"
    "fph_emplace ?T build_limits 5 7 t = Inr (t', it, ins)"
    using example_table [of rnd 0 5 7] by blast
  obtain t'' n where e: "erase_key ?T t' 6 = (t'', n)" by (metis surj_pair)
  have "fph_reach ?T build_limits init [] t" using t(1) by (rule reach_new)
  then have "fph_reach ?T build_limits init ([] @ [Call_emplace 5 7]) t'"
    using step_emplace [OF t(2)] by (rule reach_step)
  then have "fph_reach ?T build_limits init (([] @ [Call_emplace 5 7]) @ [Call_erase 6]) t''"
    using step_erase [OF e] by (rule reach_step)
  then have "fph_reach ?T build_limits init [Call_emplace 5 7, Call_erase 6] t''" by simp
  then show ?thesis by (rule that)
qed

section \<open>Histories\<close>

text \<open>
  What a table holds and finds, over its calls. The generator of default keys is a parameter, so it
  may be taken to be the draws that a run makes: the keys it can give are then those keys. A user
  key among them can be lost from sight of the invariant when the second default key is renewed,
  which is why the properties speak of keys outside of \<open>gen_keys\<close>.
\<close>

text \<open>
  C2. Every table that comes out of a sequence of calls (construction, emplace, insertion of
  ranges, \<open>operator[]\<close>, erasure, clear, rehash, reserve, a new load factor, copying) stands
  for the map that the same calls give on a map, and every lookup answers as that map does:
  \<open>contains\<close> and \<open>count\<close>, \<open>at\<close> with its exception, and the size.
\<close>

theorem fph_history_correct:
  fixes sh eng rnd nk raw
  defines "T \<equiv> high_types sh eng rnd nk raw"
  assumes "fph_reach T L init cs t" "(\<Union>c \<in> set cs. call_keys c) \<inter> gen_keys T = {}"
  shows "let m = fold (call_map init) cs Map.empty in
      fph_map T t = m \<and> fph_size t = card (dom m) \<and> fph_contains T t k = (m k \<noteq> None) \<and>
      fph_count T t k = (if m k = None then 0 else 1) \<and>
      fph_at T t k = (case m k of None \<Rightarrow> Inl OutOfRange | Some v \<Rightarrow> Inr (Some v))"
proof -
  note r = high_table.reach_ok [OF assms(2,3) [unfolded T_def], folded T_def]
  then have g: "fph_inv T t" "fph_map T t = fold (call_map init) cs Map.empty" by (simp_all add: fph_good_def)
  then show ?thesis
    using high_table.lookup_ok [OF g(1) [unfolded T_def], folded T_def, of k]
      high_table.size_ok [OF g(1) [unfolded T_def], folded T_def]
    by (simp add: Let_def split: option.splits)
qed

theorem fph_history_correct_witness:
  "\<exists>t. let T = high_types chosen_simple_seed_hash64 (\<lambda>s. s) (\<lambda>s :: u64. (s, s + 1)) two_keys (\<lambda>_. 0) in
    fph_reach T build_limits (0 :: u64) [Call_emplace 5 7, Call_erase 6] t \<and>
    (\<Union>c \<in> set [Call_emplace 5 (7 :: u64), Call_erase 6]. call_keys c) \<inter> gen_keys T = {} \<and>
    fph_at T t 5 = Inr (Some 7) \<and> fph_size t = 1"
proof -
  let ?T = "high_types chosen_simple_seed_hash64 (\<lambda>s. s) (\<lambda>s :: u64. (s, s + 1)) two_keys (\<lambda>_. 0)"
  obtain t where t: "fph_reach ?T build_limits (0 :: u64) [Call_emplace 5 7, Call_erase 6] t" by (rule example_reach)
  have d: "(\<Union>c \<in> set [Call_emplace 5 (7 :: u64), Call_erase 6]. call_keys c) \<inter> gen_keys ?T = {}"
    by (auto simp: gen_keys_def high_types_def two_keys_def)
  show ?thesis
    using t d fph_history_correct [OF t d, of 5] by (intro exI [of _ t]) (simp add: Let_def)
qed

text \<open>The example table for the witnesses.\<close>

lemma example_good:
  obtains rnd :: "u64 \<Rightarrow> u64 \<times> u64" and t where
    "fph_reach (high_types chosen_simple_seed_hash64 (\<lambda>s. s) rnd two_keys (\<lambda>_. 0)) build_limits (0 :: u64)
      [Call_emplace 5 7, Call_erase 6] t"
    "fph_good (high_types chosen_simple_seed_hash64 (\<lambda>s. s) rnd two_keys (\<lambda>_. 0)) t"
    "fph_map (high_types chosen_simple_seed_hash64 (\<lambda>s. s) rnd two_keys (\<lambda>_. 0)) t = [5 \<mapsto> (7 :: u64)]"
    "(\<Union>c \<in> set [Call_emplace 5 (7 :: u64), Call_erase 6]. call_keys c) \<inter>
      gen_keys (high_types chosen_simple_seed_hash64 (\<lambda>s. s) rnd two_keys (\<lambda>_. 0)) = {}"
proof -
  let ?rnd = "\<lambda>s :: u64. (s, s)"
  let ?T = "high_types chosen_simple_seed_hash64 (\<lambda>s. s) ?rnd two_keys (\<lambda>_. 0)"
  obtain t where t: "fph_reach ?T build_limits (0 :: u64) [Call_emplace 5 7, Call_erase 6] t" by (rule example_reach)
  have d: "(\<Union>c \<in> set [Call_emplace 5 (7 :: u64), Call_erase 6]. call_keys c) \<inter> gen_keys ?T = {}"
    by (auto simp: gen_keys_def high_types_def two_keys_def)
  have "fph_good ?T t \<and> fph_map ?T t = [5 \<mapsto> 7]" using high_table.reach_ok [OF t d] by (auto simp: fun_eq_iff)
  then show ?thesis using that t d by blast
qed

text \<open>
  C4. The invariant of every reachable table: \<open>random_table_\<close> and \<open>map_table_\<close> are inverse
  to each other; different keys of the map have different slots (the hash is perfect); the first
  \<open>filled_count_\<close> entries of \<open>random_table_\<close> are exactly the slots of the keys, as many as
  the size says; and \<open>IsSlotEmpty\<close>, which only compares the key in the slot with a default
  key, is true of exactly the other slots.
\<close>

theorem fph_invariant:
  fixes sh eng rnd nk raw
  defines "T \<equiv> high_types sh eng rnd nk raw"
  assumes "fph_reach T L init cs t" "(\<Union>c \<in> set cs. call_keys c) \<inter> gen_keys T = {}" "p < item_num_ceil t"
  shows "is_random_table_valid (random_table t) (map_table t) \<and>
    inj_on (get_slot_pos T t) (dom (fph_map T t)) \<and>
    filled_set t = get_slot_pos T t ` dom (fph_map T t) \<and> card (filled_set t) = fph_size t \<and>
    is_slot_empty t p = (p \<notin> get_slot_pos T t ` dom (fph_map T t)) \<and> fph_inv T t"
proof -
  have g: "fph_inv T t" using high_table.reach_ok [OF assms(2,3) [unfolded T_def], folded T_def] by (simp add: fph_good_def)
  note f = high_table.invariant_facts [OF g [unfolded T_def], folded T_def]
  show ?thesis using g f(1,2,3,4) f(5) [OF assms(4)] by simp
qed

theorem fph_invariant_witness:
  "\<exists>(rnd :: u64 \<Rightarrow> u64 \<times> u64) t. let T = high_types chosen_simple_seed_hash64 (\<lambda>s. s) rnd two_keys (\<lambda>_. 0) in
    fph_reach T build_limits (0 :: u64) [Call_emplace 5 7, Call_erase 6] t \<and> get_slot_pos T t 5 < item_num_ceil t \<and>
    \<not> is_slot_empty t (get_slot_pos T t 5) \<and> is_random_table_valid (random_table t) (map_table t)"
proof -
  obtain rnd :: "u64 \<Rightarrow> u64 \<times> u64" and t where
    e: "fph_reach (high_types chosen_simple_seed_hash64 (\<lambda>s. s) rnd two_keys (\<lambda>_. 0)) build_limits (0 :: u64)
      [Call_emplace 5 7, Call_erase 6] t"
    "fph_good (high_types chosen_simple_seed_hash64 (\<lambda>s. s) rnd two_keys (\<lambda>_. 0)) t"
    "fph_map (high_types chosen_simple_seed_hash64 (\<lambda>s. s) rnd two_keys (\<lambda>_. 0)) t = [5 \<mapsto> (7 :: u64)]"
    "(\<Union>c \<in> set [Call_emplace 5 (7 :: u64), Call_erase 6]. call_keys c) \<inter>
      gen_keys (high_types chosen_simple_seed_hash64 (\<lambda>s. s) rnd two_keys (\<lambda>_. 0)) = {}"
    by (rule example_good)
  have p: "get_slot_pos (high_types chosen_simple_seed_hash64 (\<lambda>s. s) rnd two_keys (\<lambda>_. 0)) t 5 < item_num_ceil t"
    using high_table.shape_facts(1) high_table.shape_facts(5) e(2) unfolding fph_good_def by metis
  show ?thesis
    using e(1,3) p fph_invariant [OF e(1,4) p] by (intro exI [of _ rnd] exI [of _ t]) (simp add: Let_def)
qed

text \<open>
  C15. The shape of every reachable table: the slots, \<open>random_table_\<close>, \<open>map_table_\<close> and
  the collision table have one length, a power of two from 8 to \<open>2^31\<close>; the bucket array has
  as many buckets as the bucket parameters cover; and the bucket and the slot that any key is sent
  to, an element or not, are inside of them, so that no lookup reads out of bounds.
\<close>

theorem fph_shape:
  fixes sh eng rnd nk raw
  defines "T \<equiv> high_types sh eng rnd nk raw"
  assumes "fph_reach T L init cs t" "(\<Union>c \<in> set cs. call_keys c) \<inter> gen_keys T = {}"
  shows "(\<exists>m. 3 \<le> m \<and> m \<le> 31 \<and> item_num_ceil t = 2 ^ m \<and> length (slots t) = 2 ^ m \<and> length (random_table t) = 2 ^ m \<and>
      length (map_table t) = 2 ^ m \<and> length (seed2_test_table t) = 2 ^ m) \<and>
    length (bucket_array t) = bucket_num t \<and> bucket_num t \<le> length (bucket_p t) \<and> length (bucket_p t) = bucket_capacity t \<and>
    get_slot_pos T t k < length (slots t) \<and> complete_get_bucket_index T t k < bucket_num t"
proof -
  have g: "fph_inv T t" using high_table.reach_ok [OF assms(2,3) [unfolded T_def], folded T_def] by (simp add: fph_good_def)
  show ?thesis by (intro conjI high_table.shape_facts [OF g [unfolded T_def], folded T_def])
qed

theorem fph_shape_witness:
  "\<exists>(rnd :: u64 \<Rightarrow> u64 \<times> u64) t. let T = high_types chosen_simple_seed_hash64 (\<lambda>s. s) rnd two_keys (\<lambda>_. 0) in
    fph_reach T build_limits (0 :: u64) [Call_emplace 5 7, Call_erase 6] t \<and> get_slot_pos T t 99 < length (slots t)"
proof -
  obtain rnd :: "u64 \<Rightarrow> u64 \<times> u64" and t where
    e: "fph_reach (high_types chosen_simple_seed_hash64 (\<lambda>s. s) rnd two_keys (\<lambda>_. 0)) build_limits (0 :: u64)
      [Call_emplace 5 7, Call_erase 6] t"
    "(\<Union>c \<in> set [Call_emplace 5 (7 :: u64), Call_erase 6]. call_keys c) \<inter>
      gen_keys (high_types chosen_simple_seed_hash64 (\<lambda>s. s) rnd two_keys (\<lambda>_. 0)) = {}"
    using example_good by metis
  show ?thesis using e(1) fph_shape [OF e, of 99] by (intro exI [of _ rnd] exI [of _ t]) (simp add: Let_def)
qed

text \<open>
  C12. Lookups: a key of the map is found at its slot, with its value, by \<open>find\<close>,
  \<open>contains\<close>, \<open>count\<close>, \<open>at\<close> and \<open>equal_range\<close>; for any other key, the
  default keys that fill empty slots included, \<open>find\<close> returns \<open>end()\<close>, \<open>count\<close>
  is 0, the range is empty and \<open>at\<close> throws.
\<close>

theorem fph_lookup_correct:
  fixes sh eng rnd nk raw
  defines "T \<equiv> high_types sh eng rnd nk raw"
  assumes "fph_inv T t"
  shows "case fph_map T t k of
      None \<Rightarrow> fph_find T t k = fph_end \<and> \<not> fph_contains T t k \<and> fph_count T t k = 0 \<and> fph_at T t k = Inl OutOfRange \<and>
        fph_equal_range T t k = (fph_end, fph_end)
    | Some x \<Rightarrow> fph_contains T t k \<and> fph_count T t k = 1 \<and> fph_at T t k = Inr (Some x) \<and>
        (\<exists>p. p < length (slots t) \<and> slots t ! p = (k, Some x) \<and> fph_find T t k = iterator_at (Some p) \<and>
           get_pointer_no_check T t k = p \<and>
           fph_equal_range T t k = (iterator_at (Some p), iterator_inc t (iterator_at (Some p))))"
  using high_table.lookup_ok [OF assms(2) [unfolded T_def], folded T_def, of k]
    high_table.shape_facts(5) [OF assms(2) [unfolded T_def], folded T_def, of k]
  by (auto simp: get_pointer_no_check_def split: option.splits)

theorem fph_lookup_correct_witness:
  "\<exists>(rnd :: u64 \<Rightarrow> u64 \<times> u64) (t :: (high_bits_policy, u64, u64, nat) fph).
    let T = high_types chosen_simple_seed_hash64 (\<lambda>s. s) rnd two_keys (\<lambda>_. 0) in
    fph_inv T t \<and> fph_at T t 5 = Inr (Some 7) \<and> fph_find T t 6 = fph_end"
proof -
  obtain rnd :: "u64 \<Rightarrow> u64 \<times> u64" and t where
    e: "fph_good (high_types chosen_simple_seed_hash64 (\<lambda>s. s) rnd two_keys (\<lambda>_. 0)) t"
    "fph_map (high_types chosen_simple_seed_hash64 (\<lambda>s. s) rnd two_keys (\<lambda>_. 0)) t = [5 \<mapsto> (7 :: u64)]"
    using example_good by metis
  have i: "fph_inv (high_types chosen_simple_seed_hash64 (\<lambda>s. s) rnd two_keys (\<lambda>_. 0)) t" using e(1) by (simp add: fph_good_def)
  show ?thesis using i e(2) fph_lookup_correct [OF i, of 5] fph_lookup_correct [OF i, of 6]
    by (intro exI [of _ rnd] exI [of _ t]) (simp add: Let_def)
qed

text \<open>
  C14. Iteration from \<open>begin()\<close> to \<open>end()\<close> visits every element once: the keys it meets
  are distinct, there are as many as the size says, and they carry exactly the values of the map.
\<close>

theorem fph_iteration_correct:
  fixes sh eng rnd nk raw
  defines "T \<equiv> high_types sh eng rnd nk raw"
  assumes "fph_inv T t"
  shows "let es = map (\<lambda>p. slots t ! p) (fph_visit t (fph_begin t)) in
    distinct (map fst es) \<and> map_of es = (\<lambda>k. map_option Some (fph_map T t k)) \<and> length es = fph_size t"
  using high_table.iteration_ok [OF assms(2) [unfolded T_def], folded T_def] by (simp add: Let_def)

theorem fph_iteration_correct_witness:
  "\<exists>(rnd :: u64 \<Rightarrow> u64 \<times> u64) (t :: (high_bits_policy, u64, u64, nat) fph).
    fph_inv (high_types chosen_simple_seed_hash64 (\<lambda>s. s) rnd two_keys (\<lambda>_. 0)) t \<and>
    map_of (map (\<lambda>p. slots t ! p) (fph_visit t (fph_begin t))) 5 = Some (Some 7)"
proof -
  obtain rnd :: "u64 \<Rightarrow> u64 \<times> u64" and t where
    e: "fph_good (high_types chosen_simple_seed_hash64 (\<lambda>s. s) rnd two_keys (\<lambda>_. 0)) t"
    "fph_map (high_types chosen_simple_seed_hash64 (\<lambda>s. s) rnd two_keys (\<lambda>_. 0)) t = [5 \<mapsto> (7 :: u64)]"
    using example_good by metis
  have i: "fph_inv (high_types chosen_simple_seed_hash64 (\<lambda>s. s) rnd two_keys (\<lambda>_. 0)) t" using e(1) by (simp add: fph_good_def)
  show ?thesis using i e(2) fph_iteration_correct [OF i] by (intro exI [of _ rnd] exI [of _ t]) (simp add: Let_def)
qed

text \<open>
  C13. Erasing a key leaves the map without it and keeps the invariant, so that the key is not found
  any more, every other key still is, and the size goes down exactly when the key was there, which
  is also the count that is returned.
\<close>

theorem fph_erase_correct:
  fixes sh eng rnd nk raw
  defines "T \<equiv> high_types sh eng rnd nk raw"
  assumes "fph_good T t" "erase_key T t k = (t', n)"
  shows "fph_good T t' \<and> fph_map T t' = (fph_map T t)(k := None) \<and> n = fph_count T t k \<and>
    fph_size t' = fph_size t - n \<and> \<not> fph_contains T t' k"
proof -
  note e = high_table.erase_good [OF assms(2,3) [unfolded T_def], folded T_def]
  have i: "fph_inv T t" "fph_inv T t'" using assms(2) e by (simp_all add: fph_good_def)
  note s = i [unfolded T_def, THEN high_table.size_ok, folded T_def]
  have c: "n = fph_count T t k" "\<not> fph_contains T t' k"
    using e high_table.lookup_ok [OF i(1) [unfolded T_def], folded T_def, of k]
      high_table.lookup_ok [OF i(2) [unfolded T_def], folded T_def, of k] by (simp_all split: option.splits)
  have "fph_size t' = fph_size t - n"
  proof (cases "fph_map T t k = None")
    case True
    then have "fph_map T t' = fph_map T t" using e by (auto simp: fun_eq_iff)
    then show ?thesis using True e s by simp
  next
    case False
    then have "n = 1" "dom (fph_map T t') = dom (fph_map T t) - {k}" using e by simp_all
    moreover have "k \<in> dom (fph_map T t)" using False unfolding domIff .
    ultimately show ?thesis using s by (simp add: card_Diff_singleton)
  qed
  then show ?thesis using e c by simp
qed

theorem fph_erase_correct_witness:
  "\<exists>(rnd :: u64 \<Rightarrow> u64 \<times> u64) (t :: (high_bits_policy, u64, u64, nat) fph).
    let T = high_types chosen_simple_seed_hash64 (\<lambda>s. s) rnd two_keys (\<lambda>_. 0) in
    fph_good T t \<and> fph_contains T t 5 \<and> \<not> fph_contains T (fst (erase_key T t 5)) 5"
proof -
  obtain rnd :: "u64 \<Rightarrow> u64 \<times> u64" and t where
    e: "fph_good (high_types chosen_simple_seed_hash64 (\<lambda>s. s) rnd two_keys (\<lambda>_. 0)) t"
    "fph_map (high_types chosen_simple_seed_hash64 (\<lambda>s. s) rnd two_keys (\<lambda>_. 0)) t = [5 \<mapsto> (7 :: u64)]"
    using example_good by metis
  have i: "fph_inv (high_types chosen_simple_seed_hash64 (\<lambda>s. s) rnd two_keys (\<lambda>_. 0)) t" using e(1) by (simp add: fph_good_def)
  have "fph_contains (high_types chosen_simple_seed_hash64 (\<lambda>s. s) rnd two_keys (\<lambda>_. 0)) t 5"
    using high_table.lookup_ok [OF i, of 5] e(2) by simp
  then show ?thesis using e(1) fph_erase_correct [OF e(1) prod.collapse [symmetric], of 5]
    by (intro exI [of _ rnd] exI [of _ t]) (simp add: Let_def)
qed

text \<open>
  C11. \<open>BuildImp\<close> either throws \<open>std::invalid_argument\<close> or yields a perfect hash of its
  elements: the keys are distinct, so that elements with a key twice are always refused, every key
  has a slot of its own, and the table is exactly the map of the elements.
\<close>

theorem fph_build_perfect:
  fixes sh eng rnd nk raw
  defines "T \<equiv> high_types sh eng rnd nk raw"
  assumes "fph_inv T t"
  shows "case build_imp T L False False (map (\<lambda>(k, v). (k, Some v)) es) s t of
      Inl e \<Rightarrow> e = InvalidArgument
    | Inr t' \<Rightarrow> distinct (map fst es) \<and> distinct (map (get_slot_pos T t') (map fst es)) \<and>
        fph_map T t' = map_of es \<and> fph_size t' = length es \<and> fph_inv T t'"
  using high_table.build_result [OF assms(2) [unfolded T_def], folded T_def, where L = L and es = es and s = s] by (auto split: sum.splits)

theorem fph_build_perfect_witness:
  "\<exists>(rnd :: u64 \<Rightarrow> u64 \<times> u64) (t :: (high_bits_policy, u64, u64, nat) fph).
    let T = high_types chosen_simple_seed_hash64 (\<lambda>s. s) rnd two_keys (\<lambda>_. 0) in
    fph_inv T t \<and> build_imp T build_limits False False [(1, Some 2), (1, Some 3)] 0 t = Inl InvalidArgument"
proof -
  obtain rnd :: "u64 \<Rightarrow> u64 \<times> u64" and t :: "(high_bits_policy, u64, u64, nat) fph" where
    e: "fph_good (high_types chosen_simple_seed_hash64 (\<lambda>s. s) rnd two_keys (\<lambda>_. 0)) t"
    using example_good by metis
  have i: "fph_inv (high_types chosen_simple_seed_hash64 (\<lambda>s. s) rnd two_keys (\<lambda>_. 0)) t" using e by (simp add: fph_good_def)
  show ?thesis using i fph_build_perfect [OF i, where L = build_limits and es = "[(1, 2), (1, 3)]" and s = 0]
    by (intro exI [of _ rnd] exI [of _ t]) (simp add: Let_def split: sum.splits)
qed

text \<open>
  C17. The search for a place misses none, at both of its calls. In \<open>FindOrAlloc\<close>, where a key
  meets a filled slot, it succeeds exactly when some offset and optional bit from the present one on
  send the keys of the bucket and the new one to different free slots, those of the bucket counting
  as free (\<open>fits\<close>). A round of \<open>BuildImp\<close>, on any table that is ready for it, after the test of
  the second seed and the shuffle, succeeds exactly when every bucket fits beside those placed
  before it: seeds are given up only when a bucket has no place. The tables that \<open>BuildImp\<close> makes of
  a valid one are ready for its rounds.
\<close>

theorem fph_search_complete:
  fixes sh eng rnd nk raw and t u u1 :: "(high_bits_policy, 'k, 'v, 'g) fph" and key :: 'k and rt
  defines "T \<equiv> high_types sh eng rnd nk raw"
  defines "i \<equiv> complete_get_bucket_index T t key"
  defines "kl \<equiv> key_array (bucket_array t ! i)" and "bits \<equiv> [unat (bucket_p t ! i AND 1)..<2]"
  defines "ks \<equiv> map (\<lambda>p. fst (slots t ! p)) kl @ [key]"
  defines "u2 \<equiv> u1\<lparr> random_table := rt, map_table := invert_table rt 0 (map_table u1), filled_count := 0 \<rparr>"
  assumes t: "fph_inv T t"
    and u: "search_ready T u" "\<forall>i \<in> set is. entry_cnt (bs ! i) = length (key_array (bs ! i))"
      "find_seed2 T bs is n u r = (True, u1, r1)"
      "shuffle_table T (item_num_ceil u1 - 1) [0..<item_num_ceil u1] r1 = (rt, r2)"
  shows "snd (match_pattern T ks (bucket_idx (bucket_array t ! i)) (unat (drop_bit 1 (bucket_p t ! i))) True bits t) =
      fits T (free_slots kl t) ks bits \<and>
    filled_set (free_slots kl t) = filled_set t - set kl \<and>
    snd (place_buckets T bs is u2) =
      (\<forall>js j js' v. is = js @ j # js' \<and> place_buckets T bs js u2 = (v, True) \<longrightarrow> fits T v (key_array (bs ! j)) [0, 1]) \<and>
    (\<forall>ir cbr n x y. let t0 = set_buckets T ir cbr n (set_slot_count T cbr (set_slot_policy T ir n t))
      in search_ready T (t0\<lparr> seed0 := x, seed1 := y,
           seed2_test_table := resize (item_num_ceil t0) False (seed2_test_table t0),
           random_table := resize (item_num_ceil t0) 0 (random_table t0),
           map_table := resize (item_num_ceil t0) 0 (map_table t0) \<rparr>))"
proof -
  obtain m b where ok: "fph_ok T m b t" using t by (auto simp: fph_inv_def)
  note I = high_table.insertion_iff [OF ok [unfolded T_def], folded T_def, of key, folded i_def, folded kl_def,
    folded bits_def ks_def]
  note R = high_table.round_iff [OF u [unfolded T_def], folded T_def, folded u2_def]
  obtain m0 where m0: "policy_for_slots T (slot_policy t) m0 \<and> 3 \<le> m0 \<and> m0 \<le> 31"
    using high_table.inv_ready(3) [OF t [unfolded T_def]] unfolding T_def by blast
  note B = high_table.build_ready [OF high_table.inv_ready(2) [OF t [unfolded T_def]] m0 [unfolded T_def], folded T_def]
  show ?thesis unfolding Let_def by (intro conjI allI I R B)
qed

text \<open>A round that places a single key.\<close>

theorem fph_search_complete_witness:
  "\<exists>(rnd :: u64 \<Rightarrow> u64 \<times> u64) (t :: (high_bits_policy, u64, u64, nat) fph) u1 r1 rt r2.
    let T = high_types chosen_simple_seed_hash64 (\<lambda>s. s) rnd two_keys (\<lambda>_. 0);
      bs = [\<lparr> entry_cnt = 1, bucket_idx = 0, key_array = [5] \<rparr>]
    in fph_inv T t \<and> search_ready T t \<and> find_seed2 T bs [0] 1 t 0 = (True, u1, r1) \<and>
      shuffle_table T (item_num_ceil u1 - 1) [0..<item_num_ceil u1] r1 = (rt, r2) \<and>
      snd (place_buckets T bs [0]
        (u1\<lparr> random_table := rt, map_table := invert_table rt 0 (map_table u1), filled_count := 0 \<rparr>))"
proof -
  obtain rnd :: "u64 \<Rightarrow> u64 \<times> u64" and t :: "(high_bits_policy, u64, u64, nat) fph" where
    e: "fph_good (high_types chosen_simple_seed_hash64 (\<lambda>s. s) rnd two_keys (\<lambda>_. 0)) t"
    using example_good by metis
  define T where "T = high_types chosen_simple_seed_hash64 (\<lambda>s. s) rnd two_keys (\<lambda>_. 0)"
  let ?bs = "[\<lparr> entry_cnt = 1, bucket_idx = 0, key_array = [5 :: u64] \<rparr>]"
  have i: "fph_inv T t" using e by (simp add: fph_good_def T_def)
  have rd: "search_ready T t" using high_table.inv_ready(1) i unfolding T_def by blast
  obtain x r1 where x: "random_odd T 0 = (x, r1)" by (metis surj_pair)
  let ?u1 = "t\<lparr> seed2 := x \<rparr>"
  have f: "find_seed2 T ?bs [0] 1 t 0 = (True, ?u1, r1)"
    using high_table.find_seed2_first [OF rd [unfolded T_def] x [unfolded T_def], of ?bs "[0]" 0]
    by (simp add: T_def fph_table.no_self_collision_def [OF high_table.fph_table_axioms])
  obtain rt r2 where s: "shuffle_table T (item_num_ceil ?u1 - 1) [0..<item_num_ceil ?u1] r1 = (rt, r2)" by (metis surj_pair)
  let ?u2 = "?u1\<lparr> random_table := rt, map_table := invert_table rt 0 (map_table ?u1), filled_count := 0 \<rparr>"
  have fit: "fits T ?u2 [5] [0, 1]"
    using rd unfolding fits_def by (auto simp: filled_set_def is_filled_def search_ready_def intro!: exI [of _ 0])
  have cnt: "\<forall>i \<in> set [0]. entry_cnt (?bs ! i) = length (key_array (?bs ! i))" by simp
  have "\<forall>js j js' v. [0] = js @ j # js' \<and> place_buckets T ?bs js ?u2 = (v, True) \<longrightarrow> fits T v (key_array (?bs ! j)) [0, 1]"
  proof (intro allI impI)
    fix js j js' v assume a: "[0] = js @ j # js' \<and> place_buckets T ?bs js ?u2 = (v, True)"
    then have "js = []" "j = 0" by (auto simp: Cons_eq_append_conv)
    with a fit show "fits T v (key_array (?bs ! j)) [0, 1]" by simp
  qed
  then have "snd (place_buckets T ?bs [0] ?u2)"
    using fph_search_complete [where sh = chosen_simple_seed_hash64 and eng = "\<lambda>s. s" and rnd = rnd and nk = two_keys and
      raw = "\<lambda>_. 0", folded T_def, OF i rd cnt f s, THEN conjunct2, THEN conjunct2, THEN conjunct1] by (rule iffD2 [rotated])
  with i rd f s show ?thesis unfolding Let_def T_def by blast
qed

text \<open>
  C16. When a constructor returns, for every hash, random engine and generator of keys, and whatever the
  memory of the bucket parameters holds, which the code does not initialise: the first seeds always
  fit, and it throws \<open>invalid_argument\<close> exactly when each of the 100001 keys drawn for the second
  default key falls into the slot of the first default key; otherwise the table is a correct empty
  one, and every first insertion into it returns.
\<close>

theorem fph_new_outcome:
  fixes sh eng rnd nk raw gen
  defines "T \<equiv> high_types sh eng rnd nk raw" and "slot \<equiv> \<lambda>i. new_table_slot sh eng rnd raw (drawn nk i gen)"
  shows "case fph_new T build_limits n gen key of
      Inl e \<Rightarrow> e = InvalidArgument \<and> (\<forall>i \<le> 100000. slot (Suc i) = slot 0)
    | Inr t \<Rightarrow> (\<exists>i \<le> 100000. slot (Suc i) \<noteq> slot 0) \<and>
        fph_inv T (t :: (high_bits_policy, 'k, 'v, 'g) fph) \<and> fph_map T t = Map.empty \<and>
        (\<forall>k v. \<exists>t' it ins. fph_emplace T build_limits k v t = Inr (t', it, ins))"
proof -
  note o = high_new_outcome [where sh = sh and eng = eng and rnd = rnd and nk = nk and raw = raw and n = n and gen = gen and key = key and 'v = 'v,
    folded T_def]
  show ?thesis
  proof (cases "fph_new T build_limits n gen key :: fph_error + (high_bits_policy, 'k, 'v, 'g) fph")
    case (Inl e)
    with o show ?thesis by (simp add: slot_def)
  next
    case (Inr t)
    have "fph_good T t \<and> fph_map T t = Map.empty" using Inr unfolding T_def by (rule high_table.new_ok)
    moreover have "\<forall>k v. \<exists>t' it ins. fph_emplace T build_limits k v t = Inr (t', it, ins)"
      using high_first_emplace [OF Inr [unfolded T_def], folded T_def] by blast
    ultimately show ?thesis using o Inr by (simp add: slot_def fph_good_def)
  qed
qed

text \<open>
  A generator that steps by an odd constant over all keys, with memory of ones: the constructor
  returns. A generator that always gives the same key: it throws.
\<close>

theorem fph_new_outcome_witness:
  "(\<exists>t. fph_new (high_types chosen_strong_seed_hash64 (\<lambda>s. s) (\<lambda>s. (s + 0x9E3779B97F4A7C15, s + 0x9E3779B97F4A7C15))
       (\<lambda>g. (g, g + 0x9E3779B97F4A7C15)) (\<lambda>_. 0xFFFFFFFF)) build_limits 8 0 0 =
      Inr (t :: (high_bits_policy, u64, u64, u64) fph)) \<and>
   fph_new (high_types chosen_strong_seed_hash64 (\<lambda>s. s) (\<lambda>s. (s + 0x9E3779B97F4A7C15, s + 0x9E3779B97F4A7C15))
       (\<lambda>g. (0, g)) (\<lambda>_. 0xFFFFFFFF)) build_limits 8 0 0 =
      (Inl InvalidArgument :: fph_error + (high_bits_policy, u64, u64, u64) fph)"
proof (rule conjI)
  let ?rnd = "\<lambda>s :: u64. (s + 0x9E3779B97F4A7C15, s + 0x9E3779B97F4A7C15)"
    and ?nk = "\<lambda>g :: u64. (g, g + 0x9E3779B97F4A7C15)"
  let ?T = "high_types chosen_strong_seed_hash64 (\<lambda>s. s) ?rnd ?nk (\<lambda>_. 0xFFFFFFFF)"
  have "new_table_slot chosen_strong_seed_hash64 (\<lambda>s. s) ?rnd (\<lambda>_. 0xFFFFFFFF) (drawn ?nk (Suc 0) 0) \<noteq>
      new_table_slot chosen_strong_seed_hash64 (\<lambda>s. s) ?rnd (\<lambda>_. 0xFFFFFFFF) (drawn ?nk 0 0)"
    by code_simp
  then have "\<not> (\<forall>i \<le> 100000. new_table_slot chosen_strong_seed_hash64 (\<lambda>s. s) ?rnd (\<lambda>_. 0xFFFFFFFF) (drawn ?nk (Suc i) 0) =
      new_table_slot chosen_strong_seed_hash64 (\<lambda>s. s) ?rnd (\<lambda>_. 0xFFFFFFFF) (drawn ?nk 0 0))" by blast
  then show "\<exists>t. fph_new ?T build_limits 8 0 0 = Inr (t :: (high_bits_policy, u64, u64, u64) fph)"
    using fph_new_outcome [where sh = chosen_strong_seed_hash64 and eng = "\<lambda>s. s" and rnd = ?rnd and nk = ?nk and
      raw = "\<lambda>_. 0xFFFFFFFF" and n = 8 and gen = 0 and key = 0 and 'v = u64]
    by (cases "fph_new ?T build_limits 8 0 0 :: fph_error + (high_bits_policy, u64, u64, u64) fph") auto
next
  let ?rnd = "\<lambda>s :: u64. (s + 0x9E3779B97F4A7C15, s + 0x9E3779B97F4A7C15)" and ?nk = "\<lambda>g :: u64. (0 :: u64, g)"
  let ?T = "high_types chosen_strong_seed_hash64 (\<lambda>s. s) ?rnd ?nk (\<lambda>_. 0xFFFFFFFF)"
  have "drawn ?nk i g = 0" for i g by (induction i) simp_all
  then show "fph_new ?T build_limits 8 0 0 = (Inl InvalidArgument :: fph_error + (high_bits_policy, u64, u64, u64) fph)"
    using fph_new_outcome [where sh = chosen_strong_seed_hash64 and eng = "\<lambda>s. s" and rnd = ?rnd and nk = ?nk and
      raw = "\<lambda>_. 0xFFFFFFFF" and n = 8 and gen = 0 and key = 0 and 'v = u64]
    by (cases "fph_new ?T build_limits 8 0 0 :: fph_error + (high_bits_policy, u64, u64, u64) fph") auto
qed

text \<open>
  C35. The two index policies keep one contract, for every size from 2 to \<open>2^63\<close>: both have as
  many slots, a power of two; the index of every hash is below it; and a shift of the hash by the
  reverse map of an offset rotates the index by the offset, in the high bits as in the low ones.
\<close>

theorem index_policies_agree:
  fixes e h off :: u64
  assumes "2 \<le> unat e" "unat e \<le> 2 ^ 63"
  shows "high_slot_num (high_update e) = low_slot_num (low_update e) \<and>
    unat (high_slot_num (high_update e)) = 2 ^ log2_up (unat e) \<and>
    unat (high_map_to_index (high_update e) h) < 2 ^ log2_up (unat e) \<and>
    unat (low_map_to_index (low_update e) h) < 2 ^ log2_up (unat e) \<and>
    unat (high_map_to_index (high_update e) (h + high_reverse_map (high_update e) off)) =
      (unat (high_map_to_index (high_update e) h) + unat off) mod 2 ^ log2_up (unat e) \<and>
    unat (low_map_to_index (low_update e) (h + low_reverse_map (low_update e) off)) =
      (unat (low_map_to_index (low_update e) h) + unat off) mod 2 ^ log2_up (unat e)"
proof -
  note hi = high.slot_num_pow2 [OF assms] high.index_bound [OF assms, of h] high.index_shift [OF assms, of h off]
  note lo = low.slot_num_pow2 [OF assms] low.index_bound [OF assms, of h] low.index_shift [OF assms, of h off]
  show ?thesis using hi lo by (simp add: high_bits_def low_bits_def word_unat_eq_iff)
qed

theorem index_policies_agree_witness:
  "2 \<le> unat (8 :: u64) \<and> unat (8 :: u64) \<le> 2 ^ 63 \<and> high_slot_num (high_update 8) = low_slot_num (low_update 8) \<and>
   unat (high_map_to_index (high_update 8) 0xdeadbeef) < 2 ^ log2_up 8"
  using index_policies_agree [of 8 "0xdeadbeef" 0] by simp

end
