(* ===== verification/Bench_Fph.thy ===== *)
theory Bench_Fph
  imports Report Fph_Props
begin

text \<open>
  The benchmark of the perfect hash map: the default table with 64-bit keys and values. An
  exception of the table ends the benchmark; the lookup dereferences what \<open>find\<close> returns.
\<close>

section \<open>The errors of the table\<close>

lemma build_error: "build_imp T L ir cbr es s t = Inl e \<Longrightarrow> e = InvalidArgument"
  by (auto simp: build_imp_def Let_def split: if_splits prod.splits option.splits)

lemma rehash_error: "fph_rehash T L n t = Inl e \<Longrightarrow> e = InvalidArgument"
  by (auto simp: fph_rehash_def Let_def dest: build_error split: if_splits)

lemma move_error: "move_bucket T L key bi bp old es t = Inl e \<Longrightarrow> e = RuntimeError"
  by (auto simp: move_bucket_def renew_second_key_def Let_def split: prod.splits sum.splits if_splits option.splits)

lemma try_emplace_error:
  assumes "try_emplace T L k v t = Inl e"
  shows "e \<in> {InvalidArgument, RuntimeError}"
proof -
  have p: "e' \<in> {InvalidArgument, RuntimeError}" if "place_key T L k u = Inl e'" for u e'
    using that by (auto simp: place_key_def rebuild_with_key_def Let_def dest: build_error move_error
      split: if_splits prod.splits sum.splits)
  show ?thesis using assms p rehash_error
    by (fastforce simp: try_emplace_def find_or_alloc_def expand_when_full_def split: sum.splits if_splits)
qed

section \<open>The map under test\<close>

datatype fph_bench_error = Thrown fph_error | Deref_end

definition fph_impl ::
  "(high_bits_policy, u64, 'r, 'g) fph_types \<Rightarrow> 'g \<Rightarrow> (fph_bench_error, (high_bits_policy, u64, u64, 'g) fph) map_impl" where
  "fph_impl T gen =
     \<lparr> mk = (\<lambda>n. case fph_new T build_limits DEFAULT_INIT_ITEM_NUM_CEIL gen 0 of
          Inl e \<Rightarrow> Inl (Thrown e)
        | Inr t \<Rightarrow> (case fph_reserve T build_limits n t of Inl e \<Rightarrow> Inl (Thrown e) | Inr t \<Rightarrow> Inr t)),
       add = (\<lambda>k v t. case fph_emplace T build_limits k v t of
          Inl e \<Rightarrow> Inl (Thrown e)
        | Inr (t', it, inserted) \<Rightarrow> Inr t'),
       look = (\<lambda>t k steps. case value_ptr (fph_find T t k) of
          None \<Rightarrow> Inl Deref_end
        | Some p \<Rightarrow> (case snd (slots t ! p) of None \<Rightarrow> Inl Deref_end | Some v \<Rightarrow> Inr (v, steps))) \<rparr>"

definition fph_benchmark ::
  "(high_bits_policy, u64, 'r, 'g) fph_types \<Rightarrow> 'g \<Rightarrow> bool \<Rightarrow> clock \<Rightarrow> u64 list \<Rightarrow> u64 list list \<Rightarrow> nat \<Rightarrow> bench_event list \<Rightarrow>
   fph_bench_error bench_error + bench_result list \<times> bench_event list" where
  "fph_benchmark T gen = benchmark_map (fph_impl T gen)"

section \<open>It keeps the contract of the benchmarks\<close>

interpretation fph_map_bench: bench_map "fph_impl (high_types sh eng rnd nk raw) gen"
  "\<lambda>t. fph_good (high_types sh eng rnd nk raw) t \<and>
     dom (fph_map (high_types sh eng rnd nk raw) t) \<inter> gen_keys (high_types sh eng rnd nk raw) = {}"
  "fph_map (high_types sh eng rnd nk raw)" "\<lambda>n. True" "\<lambda>k. k \<notin> gen_keys (high_types sh eng rnd nk raw)"
  "\<lambda>e. e \<in> {Thrown InvalidArgument, Thrown RuntimeError}" for sh eng rnd nk raw gen
proof
  fix n
  let ?T = "high_types sh eng rnd nk raw"
  show "case mk (fph_impl ?T gen) n of Inl e \<Rightarrow> e \<in> {Thrown InvalidArgument, Thrown RuntimeError}
    | Inr s \<Rightarrow> (fph_good ?T s \<and> dom (fph_map ?T s) \<inter> gen_keys ?T = {}) \<and> fph_map ?T s = Map.empty"
  proof (cases "fph_new ?T build_limits DEFAULT_INIT_ITEM_NUM_CEIL gen 0 :: fph_error + (high_bits_policy, u64, u64, 'b) fph")
    case (Inl e)
    then show ?thesis by (auto simp: fph_impl_def fph_new_def dest: build_error)
  next
    case (Inr t)
    then have t: "fph_good ?T t \<and> fph_map ?T t = Map.empty" by (rule high_table.new_ok)
    show ?thesis
    proof (cases "fph_reserve ?T build_limits n t")
      case (Inl e)
      then show ?thesis using Inr by (auto simp: fph_impl_def fph_reserve_def dest: rehash_error)
    next
      case r: (Inr t')
      have "fph_good ?T t' \<and> fph_map ?T t' = fph_map ?T t"
        by (rule high_table.rehash_good [OF conjunct1 [OF t] r [unfolded fph_reserve_def]])
      then show ?thesis using Inr r t by (simp add: fph_impl_def)
    qed
  qed
next
  fix s :: "(high_bits_policy, u64, u64, 'b) fph" and k v
  let ?T = "high_types sh eng rnd nk raw"
  assume s: "fph_good ?T s \<and> dom (fph_map ?T s) \<inter> gen_keys ?T = {}" and k: "k \<notin> gen_keys ?T" "fph_map ?T s k = None"
  show "case add (fph_impl ?T gen) k v s of Inl e \<Rightarrow> e \<in> {Thrown InvalidArgument, Thrown RuntimeError}
    | Inr s' \<Rightarrow> (fph_good ?T s' \<and> dom (fph_map ?T s') \<inter> gen_keys ?T = {}) \<and> fph_map ?T s' = (fph_map ?T s)(k \<mapsto> v)"
  proof (cases "try_emplace ?T build_limits k v s")
    case (Inl e)
    then show ?thesis using try_emplace_error [OF Inl] by (auto simp: fph_impl_def fph_emplace_def)
  next
    case (Inr r)
    obtain t' it ins where r: "r = (t', it, ins)" by (cases r)
    from high_table.try_emplace_ok [OF conjunct1 [OF s] conjunct2 [OF s] Inr [unfolded r]] k(2)
    have t': "fph_good ?T t' \<and> fph_map ?T t' = (fph_map ?T s)(k \<mapsto> v)" by auto
    then have "dom (fph_map ?T t') \<inter> gen_keys ?T = {}" using s k(1) by auto
    then show ?thesis using Inr t' by (simp add: fph_impl_def fph_emplace_def r)
  qed
next
  fix s :: "(high_bits_policy, u64, u64, 'b) fph" and k v steps
  let ?T = "high_types sh eng rnd nk raw"
  assume s: "fph_good ?T s \<and> dom (fph_map ?T s) \<inter> gen_keys ?T = {}" and k: "fph_map ?T s k = Some v"
  then have "fph_inv ?T s" by (simp add: fph_good_def)
  from high_table.lookup_ok [OF this, of k] k
  show "\<exists>steps'. look (fph_impl ?T gen) s k steps = Inr (v, steps')"
    by (auto simp: fph_impl_def iterator_at_def)
qed

section \<open>The benchmark\<close>

text \<open>
  C26. The benchmark of the perfect hash map reports, for the keys \<open>1..n\<close> and lookup sets over
  them, the same sums as the other tables, or ends with one of the two exceptions of the table; no
  lookup ever dereferences \<open>end()\<close>. The keys are not among the generated default keys.
\<close>

theorem fph_benchmark_sums:
  fixes linux :: bool and sh eng rnd nk raw
  defines "T \<equiv> high_types sh eng rnd nk raw"
  assumes n: "n < 2 ^ 64 - 1" and good: "good_sets (make_keys n) sets" and gen: "set (make_keys n) \<inter> gen_keys T = {}"
  shows "case fph_benchmark T gen linux clk (make_keys n) sets ITERS tr of
      Inl e \<Rightarrow> e \<in> {MapError (Thrown InvalidArgument), MapError (Thrown RuntimeError)}
    | Inr (rs, tr') \<Rightarrow> map bench_sum rs = map (\<lambda>ls. (if linux then 2 else 1) * sum_list ls) sets"
proof -
  note k = make_keys_facts [OF n]
  have sets: "\<forall>ls \<in> set sets. set ls \<subseteq> set (make_keys n) \<and> ITERS dvd length ls \<and> ls \<noteq> []"
    using good by (simp add: good_sets_def)
  have keys: "\<forall>k \<in> set (make_keys n). k \<notin> gen_keys (high_types sh eng rnd nk raw)" using gen unfolding T_def by blast
  show ?thesis
    using fph_map_bench.benchmark_sums [OF k(1) keys TrueI ITERS_pos sets,
      where linux = linux and clk = clk and tr = tr and gen = gen]
    unfolding fph_benchmark_def T_def by (auto split: sum.splits)
qed

theorem fph_benchmark_sums_witness:
  "let T = high_types chosen_simple_seed_hash64 (\<lambda>s. s) (\<lambda>s. (s, s + 1)) two_keys (\<lambda>_. 0) in
   set (make_keys 3) \<inter> gen_keys T = {} \<and>
   (case fph_benchmark T 0 True (\<lambda>tr c. pc_zero) (make_keys 3) (make_dense_lookup_sets (make_keys 3)) ITERS [] of
      Inl e \<Rightarrow> e \<in> {MapError (Thrown InvalidArgument), MapError (Thrown RuntimeError)}
    | Inr (rs, tr') \<Rightarrow> map bench_sum rs = map (\<lambda>ls. 2 * sum_list ls) (make_dense_lookup_sets (make_keys 3)))"
proof -
  have n: "make_keys 3 \<noteq> []" using make_keys_facts(4) [of 3] by force
  have d: "set (make_keys 3) \<inter> gen_keys (high_types chosen_simple_seed_hash64 (\<lambda>s. s) (\<lambda>s :: u64. (s, s + 1)) two_keys (\<lambda>_. 0)) = {}"
  proof -
    have "make_keys 3 = [1, 2, 3]" by code_simp
    then show ?thesis by (auto simp: gen_keys_def high_types_def two_keys_def)
  qed
  show ?thesis
    using d fph_benchmark_sums [where n = 3 and linux = True and gen = 0 and clk = "\<lambda>tr c. pc_zero" and tr = "[]",
        OF _ dense_sets_good [OF n] d] unfolding Let_def if_True by simp
qed

end
