(* ===== verification/Fph_Objects.thy ===== *)
theory Fph_Objects
  imports Fph_Props
begin

text \<open>
  Several table objects (\<open>DynamicRawSet\<close>) at once: construction, copies, moves, swaps, assignments
  and destruction, with objects at addresses so that the two sides of an assignment may be the
  same object. The members of an object are three pointers, which are null in an object that was moved
  from, and the policies and seeds. The iterator \<open>begin_it_\<close> in the parameters also points to the
  object it iterates over.
\<close>

section \<open>An object\<close>

text \<open>
  \<open>obj_param\<close> is what \<open>param_\<close> points to: the record of the table, of which the members above are
  not used here, and the object that \<open>begin_it_\<close> points to, if any: \<open>BuildImp\<close> and \<open>clear\<close> leave
  \<open>iterator(nullptr, nullptr)\<close> in a table without elements.
\<close>

record ('p, 'k, 'v, 'g, 'a) fph_object =
  obj_slot_policy :: 'p
  obj_bucket_policy :: 'p
  obj_seed0 :: u64
  obj_seed1 :: u64
  obj_seed2 :: u64
  obj_bucket_p :: "u32 list option"
  obj_slots :: "('k \<times> 'v option) list option"
  obj_param :: "(('p, 'k, 'v, 'g) fph \<times> 'a option) option"

definition object_table :: "('p, 'k, 'v, 'g, 'a) fph_object \<Rightarrow> ('p, 'k, 'v, 'g) fph option" where
  "object_table ob =
     (case (obj_bucket_p ob, obj_slots ob, obj_param ob) of
        (Some bp, Some s, Some (x, _)) \<Rightarrow>
          Some (x\<lparr> slot_policy := obj_slot_policy ob, bucket_policy := obj_bucket_policy ob, seed0 := obj_seed0 ob,
            seed1 := obj_seed1 ob, seed2 := obj_seed2 ob, bucket_p := bp, slots := s \<rparr>)
      | _ \<Rightarrow> None)"

definition begin_table :: "('p, 'k, 'v, 'g, 'a) fph_object \<Rightarrow> 'a option" where
  "begin_table ob = (case obj_param ob of None \<Rightarrow> None | Some (_, b) \<Rightarrow> b)"

definition object_of :: "'a option \<Rightarrow> ('p, 'k, 'v, 'g) fph \<Rightarrow> ('p, 'k, 'v, 'g, 'a) fph_object" where
  "object_of b t =
     \<lparr> obj_slot_policy = slot_policy t, obj_bucket_policy = bucket_policy t, obj_seed0 = seed0 t, obj_seed1 = seed1 t,
       obj_seed2 = seed2 t, obj_bucket_p = Some (bucket_p t), obj_slots = Some (slots t), obj_param = Some (t, b) \<rparr>"

text \<open>The constructors store the iterator of a first element with \<open>this\<close>, and a null iterator otherwise.\<close>

definition built_object :: "'a \<Rightarrow> ('p, 'k, 'v, 'g) fph \<Rightarrow> ('p, 'k, 'v, 'g, 'a) fph_object" where
  "built_object a t = object_of (if begin_it t \<noteq> None then Some a else None) t"

text \<open>\<open>SetTable\<close>, when there are parameters.\<close>

definition set_table :: "'a \<Rightarrow> ('p, 'k, 'v, 'g, 'a) fph_object \<Rightarrow> ('p, 'k, 'v, 'g, 'a) fph_object" where
  "set_table a ob = ob\<lparr> obj_param := map_option (\<lambda>(x, _). (x, Some a)) (obj_param ob) \<rparr>"

lemma object_table_of [simp]: "object_table (object_of b t) = Some t" "begin_table (object_of b t) = b"
  by (simp_all add: object_table_def object_of_def begin_table_def)

lemma object_table_set [simp]:
  "object_table (set_table a ob) = object_table ob"
  "begin_table (set_table a ob) = (if obj_param ob = None then None else Some a)"
  by (auto simp: object_table_def set_table_def begin_table_def split: option.splits prod.splits)

section \<open>Copy, move and swap\<close>

text \<open>
  The copy constructor. The copied parameters start with a null \<open>begin_it_\<close>, which is set to the new
  object only when the other table has a first element.
\<close>

definition copy_construct where
  "copy_construct T a other =
     (case object_table other of
        Some t \<Rightarrow> built_object a (fph_copy T t)
      | None \<Rightarrow> other\<lparr> obj_bucket_p := None, obj_slots := None, obj_param := None \<rparr>)"

text \<open>The move constructor: the new object and what is left of the other.\<close>

definition move_construct :: "'a \<Rightarrow> ('p, 'k, 'v, 'g, 'a) fph_object \<Rightarrow>
    ('p, 'k, 'v, 'g, 'a) fph_object \<times> ('p, 'k, 'v, 'g, 'a) fph_object" where
  "move_construct a other =
     (set_table a
        \<lparr> obj_slot_policy = obj_slot_policy other, obj_bucket_policy = obj_bucket_policy other, obj_seed0 = obj_seed0 other,
          obj_seed1 = obj_seed1 other, obj_seed2 = obj_seed2 other, obj_bucket_p = obj_bucket_p other,
          obj_slots = obj_slots other, obj_param = obj_param other \<rparr>,
      other\<lparr> obj_seed0 := 0x3284723912901723, obj_seed1 := 0x123456797291071, obj_seed2 := 0x832748923732847,
        obj_bucket_p := None, obj_slots := None, obj_param := None \<rparr>)"

definition swap_imp :: "'a \<Rightarrow> 'a \<Rightarrow> ('p, 'k, 'v, 'g, 'a) fph_object \<Rightarrow> ('p, 'k, 'v, 'g, 'a) fph_object \<Rightarrow>
    ('p, 'k, 'v, 'g, 'a) fph_object \<times> ('p, 'k, 'v, 'g, 'a) fph_object" where
  "swap_imp a b x y =
     (let (x, y) = (x\<lparr> obj_slot_policy := obj_slot_policy y \<rparr>, y\<lparr> obj_slot_policy := obj_slot_policy x \<rparr>);
          (x, y) = (x\<lparr> obj_slots := obj_slots y \<rparr>, y\<lparr> obj_slots := obj_slots x \<rparr>);
          (x, y) = (x\<lparr> obj_param := obj_param y \<rparr>, y\<lparr> obj_param := obj_param x \<rparr>);
          (x, y) = (x\<lparr> obj_bucket_policy := obj_bucket_policy y \<rparr>, y\<lparr> obj_bucket_policy := obj_bucket_policy x \<rparr>);
          x = set_table a x;
          y = set_table b y;
          (x, y) = (x\<lparr> obj_seed0 := obj_seed0 y \<rparr>, y\<lparr> obj_seed0 := obj_seed0 x \<rparr>);
          (x, y) = (x\<lparr> obj_seed1 := obj_seed1 y \<rparr>, y\<lparr> obj_seed1 := obj_seed1 x \<rparr>);
          (x, y) = (x\<lparr> obj_seed2 := obj_seed2 y \<rparr>, y\<lparr> obj_seed2 := obj_seed2 x \<rparr>)
      in (x\<lparr> obj_bucket_p := obj_bucket_p y \<rparr>, y\<lparr> obj_bucket_p := obj_bucket_p x \<rparr>))"

text \<open>No member is forgotten.\<close>

lemma swap_imp_eq: "swap_imp a b x y = (set_table a y, set_table b x)"
  by (cases x, cases y) (simp add: swap_imp_def set_table_def)

lemma move_construct_eq:
  "fst (move_construct a other) = set_table a other"
  "object_table (snd (move_construct a other)) = None"
  "obj_param (snd (move_construct a other)) = None" "obj_slots (snd (move_construct a other)) = None"
  "obj_bucket_p (snd (move_construct a other)) = None"
  by (cases other, simp_all add: move_construct_def object_table_def)

section \<open>Programs with several objects\<close>

text \<open>
  What a program can do with its objects, each named by its address; \<open>On_object\<close> is any of the calls
  on one table.
\<close>

datatype ('a, 'k, 'v) object_call =
    New_object 'a
  | New_range 'a "('k \<times> 'v) list"
  | On_object 'a "('k, 'v) fph_call"
  | Copy_object 'a 'a
  | Move_object 'a 'a
  | Swap_objects 'a 'a
  | Copy_assign 'a 'a
  | Move_assign 'a 'a
  | Assign_list 'a "('k \<times> 'v) list"
  | Destroy_object 'a

definition fph_new_range where
  "fph_new_range T L es n gen key =
     (case fph_new T L (max (length es) n) gen key of Inl e \<Rightarrow> Inl e | Inr t \<Rightarrow> fph_insert_range T L es t)"

definition assign_list where
  "assign_list T L es t = fph_insert_range T L es (fph_clear T t)"

text \<open>
  The object that \<open>begin_it_\<close> points to after a call that took \<open>t\<close> to \<open>t'\<close>, where \<open>b\<close> is the one
  before. The iterator of an element is stored with \<open>this\<close>. Without elements, a call that builds the
  table anew and \<open>clear\<close> store \<open>iterator(nullptr, nullptr)\<close>; the erasure of the last element stores
  \<open>iterator(nullptr, this)\<close>; a copy is swapped in; every other call leaves \<open>begin_it_\<close> as it was.
\<close>

fun begin_after :: "'a \<Rightarrow> ('k, 'v) fph_call \<Rightarrow> ('p, 'k, 'v, 'g) fph \<Rightarrow> ('p, 'k, 'v, 'g) fph \<Rightarrow> 'a option \<Rightarrow> 'a option" where
  "begin_after a c t t' b =
     (if begin_it t' \<noteq> None then Some a
      else case c of
        Call_clear \<Rightarrow> None
      | Call_insert_new es \<Rightarrow> None
      | Call_rehash n \<Rightarrow> if item_num_ceil t' \<noteq> item_num_ceil t then None else b
      | Call_reserve n \<Rightarrow> if item_num_ceil t' \<noteq> item_num_ceil t then None else b
      | Call_erase k \<Rightarrow> if begin_it t \<noteq> None then Some a else b
      | Call_copy \<Rightarrow> Some a
      | _ \<Rightarrow> b)"

definition with_table :: "'a \<Rightarrow> ('k, 'v) fph_call \<Rightarrow> ('p, 'k, 'v, 'g) fph \<Rightarrow> ('p, 'k, 'v, 'g) fph \<Rightarrow>
    ('p, 'k, 'v, 'g, 'a) fph_object \<Rightarrow> ('p, 'k, 'v, 'g, 'a) fph_object" where
  "with_table a c t t' ob = object_of (begin_after a c t t' (begin_table ob)) t'"

text \<open>
  The copy assignment makes a copy, swaps with it and destroys it: what the copy was given as its
  address does not matter, since the swap sets it again.
\<close>

inductive object_step for T L init where
  new_object: "st a = None \<Longrightarrow> fph_new T L n gen key = Inr t \<Longrightarrow>
    object_step T L init st (New_object a) (st(a \<mapsto> built_object a t))"
| new_range: "st a = None \<Longrightarrow> fph_new_range T L es n gen key = Inr t \<Longrightarrow>
    object_step T L init st (New_range a es) (st(a \<mapsto> built_object a t))"
| on_object: "st a = Some ob \<Longrightarrow> object_table ob = Some t \<Longrightarrow> fph_step T L init t c t' \<Longrightarrow>
    object_step T L init st (On_object a c) (st(a \<mapsto> with_table a c t t' ob))"
| copy_object: "st a = None \<Longrightarrow> st b = Some ob \<Longrightarrow>
    object_step T L init st (Copy_object a b) (st(a \<mapsto> copy_construct T a ob))"
| move_object: "st a = None \<Longrightarrow> st b = Some ob \<Longrightarrow> move_construct a ob = (ob', left) \<Longrightarrow>
    object_step T L init st (Move_object a b) (st(b \<mapsto> left, a \<mapsto> ob'))"
| swap_objects: "st a = Some x \<Longrightarrow> st b = Some y \<Longrightarrow> swap_imp a b x y = (x', y') \<Longrightarrow>
    object_step T L init st (Swap_objects a b) (st(a \<mapsto> x', b \<mapsto> y'))"
| copy_assign: "st a = Some x \<Longrightarrow> st b = Some y \<Longrightarrow> swap_imp a tmp x (copy_construct T tmp y) = (x', y') \<Longrightarrow>
    object_step T L init st (Copy_assign a b) (st(a \<mapsto> x'))"
| move_assign: "st a = Some x \<Longrightarrow> st b = Some y \<Longrightarrow> swap_imp a b x y = (x', y') \<Longrightarrow>
    object_step T L init st (Move_assign a b) (st(a \<mapsto> x', b \<mapsto> y'))"
| assign_list: "st a = Some ob \<Longrightarrow> object_table ob = Some t \<Longrightarrow> assign_list T L es t = Inr t' \<Longrightarrow>
    object_step T L init st (Assign_list a es) (st(a \<mapsto> built_object a t'))"
| destroy_object: "st a = Some ob \<Longrightarrow> object_step T L init st (Destroy_object a) (st(a := None))"

inductive objects_reach for T L init where
  no_objects: "objects_reach T L init [] Map.empty"
| objects_step: "objects_reach T L init cs st \<Longrightarrow> object_step T L init st c st' \<Longrightarrow>
    objects_reach T L init (cs @ [c]) st'"

text \<open>The same calls on maps: at an address there may be no object, one that was moved from, or a map.\<close>

fun call_objects :: "'v \<Rightarrow> ('a, 'k, 'v) object_call \<Rightarrow> ('a \<rightharpoonup> ('k \<rightharpoonup> 'v) option) \<Rightarrow> 'a \<rightharpoonup> ('k \<rightharpoonup> 'v) option" where
  "call_objects init (New_object a) A = A(a \<mapsto> Some Map.empty)"
| "call_objects init (New_range a es) A = A(a \<mapsto> Some (map_of es))"
| "call_objects init (On_object a c) A = A(a := map_option (map_option (call_map init c)) (A a))"
| "call_objects init (Copy_object a b) A = A(a := A b)"
| "call_objects init (Move_object a b) A = A(b \<mapsto> None, a := A b)"
| "call_objects init (Swap_objects a b) A = A(a := A b, b := A a)"
| "call_objects init (Copy_assign a b) A = A(a := A b)"
| "call_objects init (Move_assign a b) A = A(a := A b, b := A a)"
| "call_objects init (Assign_list a es) A = A(a \<mapsto> Some (map_of es))"
| "call_objects init (Destroy_object a) A = A(a := None)"

fun object_keys :: "('a, 'k, 'v) object_call \<Rightarrow> 'k set" where
  "object_keys (New_range a es) = fst ` set es"
| "object_keys (On_object a c) = call_keys c"
| "object_keys (Assign_list a es) = fst ` set es"
| "object_keys _ = {}"

text \<open>What holds of an object, and the map it stands for.\<close>

definition object_ok :: "('p, 'k, 'r, 'g) fph_types \<Rightarrow> 'a \<Rightarrow> ('p, 'k, 'v, 'g, 'a) fph_object \<Rightarrow> bool" where
  "object_ok T a ob \<longleftrightarrow>
     (case object_table ob of
        None \<Rightarrow> obj_param ob = None
      | Some t \<Rightarrow> fph_good T t \<and> dom (fph_map T t) \<inter> gen_keys T = {} \<and> (begin_it t \<noteq> None \<longrightarrow> begin_table ob = Some a) \<and>
        (begin_table ob = None \<or> begin_table ob = Some a))"

definition object_map :: "('p, 'k, 'r, 'g) fph_types \<Rightarrow> ('p, 'k, 'v, 'g, 'a) fph_object \<Rightarrow> ('k \<rightharpoonup> 'v) option" where
  "object_map T ob = map_option (fph_map T) (object_table ob)"

definition objects_ok where
  "objects_ok T st \<longleftrightarrow> (\<forall>a ob. st a = Some ob \<longrightarrow> object_ok T a ob)"

definition objects_map where
  "objects_map T st a = map_option (object_map T) (st a)"

section \<open>The objects stand for the maps\<close>

lemma object_ok_set: "object_ok T b ob \<Longrightarrow> object_ok T a (set_table a ob)"
  by (auto simp: object_ok_def object_table_def set_table_def begin_table_def split: option.splits)

lemma object_map_set [simp]: "object_map T (set_table a ob) = object_map T ob"
  by (simp add: object_map_def)

lemma object_ok_with:
  assumes "fph_good T t" "dom (fph_map T t) \<inter> gen_keys T = {}"
  shows "begin_table ob = None \<or> begin_table ob = Some a \<Longrightarrow> object_ok T a (with_table a c s t ob)" "object_map T (with_table a c s t ob) = Some (fph_map T t)"
    "object_ok T a (built_object a t)" "object_map T (built_object a t) = Some (fph_map T t)"
  using assms by (auto simp: object_ok_def with_table_def built_object_def object_map_def split: fph_call.split)

lemma objects_update: "objects_map T (st(a := v)) = (objects_map T st)(a := map_option (object_map T) v)"
  by (rule ext) (simp add: objects_map_def)

lemma objects_okI: "objects_ok T st \<Longrightarrow> object_ok T a ob \<Longrightarrow> objects_ok T (st(a \<mapsto> ob))"
  by (simp add: objects_ok_def)

lemma put_ok:
  assumes "objects_ok T st" "object_ok T a ob" "object_map T ob = m"
  shows "objects_ok T (st(a \<mapsto> ob)) \<and> objects_map T (st(a \<mapsto> ob)) = (objects_map T st)(a \<mapsto> m)"
  using objects_okI [OF assms(1,2)] assms(3) objects_update [of T st a "Some ob"] by simp

lemma put_two:
  assumes "objects_ok T st" "object_ok T a x" "object_map T x = m" "object_ok T b y" "object_map T y = n"
  shows "objects_ok T (st(a \<mapsto> x, b \<mapsto> y)) \<and> objects_map T (st(a \<mapsto> x, b \<mapsto> y)) = (objects_map T st)(a \<mapsto> m, b \<mapsto> n)"
  using put_ok [OF conjunct1 [OF put_ok [OF assms(1-3)]] assms(4,5)] put_ok [OF assms(1-3)] by simp

lemma objects_map_at: "st a = Some ob \<Longrightarrow> objects_map T st a = Some (object_map T ob)"
  by (simp add: objects_map_def)

lemma objects_okD: "objects_ok T st \<Longrightarrow> st a = Some ob \<Longrightarrow> object_ok T a ob"
  by (simp add: objects_ok_def)

lemma move_construct_ok:
  assumes "move_construct a ob = (ob', left)" "object_ok T b ob"
  shows "object_ok T a ob'" "object_map T ob' = object_map T ob" "object_ok T b left" "object_map T left = None"
  using move_construct_eq [of a ob] assms object_ok_set [OF assms(2), of a]
  by (simp_all add: object_ok_def [of T b left] object_map_def)

lemma swap_imp_ok:
  assumes "swap_imp a b x y = (x', y')" "object_ok T c x" "object_ok T d y"
  shows "object_ok T a x'" "object_map T x' = object_map T y" "object_ok T b y'" "object_map T y' = object_map T x"
  using assms(1) object_ok_set [OF assms(2)] object_ok_set [OF assms(3)] by (auto simp: swap_imp_eq)

context fph_table
begin

lemma copy_construct_ok:
  assumes "object_ok T b ob"
  shows "object_ok T a (copy_construct T a ob)" "object_map T (copy_construct T a ob) = object_map T ob"
proof -
  show "object_ok T a (copy_construct T a ob)"
  proof (cases "object_table ob")
    case None
    then show ?thesis by (simp add: copy_construct_def object_ok_def object_table_def)
  next
    case (Some t)
    then have g: "fph_good T t" "dom (fph_map T t) \<inter> gen_keys T = {}" using assms by (simp_all add: object_ok_def)
    then show ?thesis using copy_good [OF g(1)] object_ok_with(3) [of T "fph_copy T t" a] by (simp add: copy_construct_def Some)
  qed
  show "object_map T (copy_construct T a ob) = object_map T ob"
  proof (cases "object_table ob")
    case None
    then show ?thesis by (simp add: copy_construct_def object_map_def object_table_def)
  next
    case (Some t)
    then have "fph_good T t" using assms by (simp add: object_ok_def)
    from copy_good [OF this] show ?thesis by (simp add: copy_construct_def Some built_object_def object_map_def)
  qed
qed

text \<open>The tables that come out of a call keep away from the keys of the generator.\<close>

lemma call_ok:
  assumes "fph_step T L init t c t'" "fph_good T t" "dom (fph_map T t) \<inter> gen_keys T = {}" "call_keys c \<inter> gen_keys T = {}"
  shows "fph_good T t'" "fph_map T t' = call_map init c (fph_map T t)" "dom (fph_map T t') \<inter> gen_keys T = {}"
proof -
  note s = step_ok [OF assms]
  then show "fph_good T t'" "fph_map T t' = call_map init c (fph_map T t)" by simp_all
  then show "dom (fph_map T t') \<inter> gen_keys T = {}" using call_map_dom [of init c "fph_map T t"] assms(3,4) by auto
qed

lemma range_ok:
  assumes "fph_good T t" "fph_map T t = Map.empty" "fph_insert_range T L es t = Inr t'" "fst ` set es \<inter> gen_keys T = {}"
  shows "fph_good T t'" "fph_map T t' = map_of es" "dom (fph_map T t') \<inter> gen_keys T = {}"
proof -
  have d: "dom (fph_map T t) \<inter> gen_keys T = {}" using assms(2) by simp
  from insert_range_ok [OF assms(1) d assms(4,3)] have s: "fph_good T t'" "fph_map T t' = map_of es" using assms(2) by simp_all
  then show "fph_good T t'" "fph_map T t' = map_of es" by simp_all
  show "dom (fph_map T t') \<inter> gen_keys T = {}" using assms(4) by (simp add: s(2) dom_map_of_conv_image_fst)
qed

lemma object_step_ok:
  assumes "object_step T L init st c st'" "objects_ok T st" "object_keys c \<inter> gen_keys T = {}"
  shows "objects_ok T st' \<and> objects_map T st' = call_objects init c (objects_map T st)"
  using assms
proof (induction rule: object_step.induct)
  case (new_object st a n gen key t)
  have t: "fph_good T t" "fph_map T t = Map.empty" using new_ok [OF new_object(2)] by simp_all
  then have "dom (fph_map T t) \<inter> gen_keys T = {}" by simp
  note o = object_ok_with(3,4) [OF t(1) this, of a]
  show ?case unfolding call_objects.simps by (rule put_ok [OF new_object(3) o(1) o(2) [unfolded t(2)]])
next
  case (new_range st a es n gen key t)
  then obtain u where u: "fph_new T L (max (length es) n) gen key = Inr u" "fph_insert_range T L es u = Inr t"
    by (auto simp: fph_new_range_def split: sum.splits)
  have "fph_good T u" "fph_map T u = Map.empty" using new_ok [OF u(1)] by simp_all
  note u' = this
  have k: "fst ` set es \<inter> gen_keys T = {}" using new_range by simp
  note t = range_ok [OF u' u(2) k]
  note o = object_ok_with(3,4) [OF t(1,3), of a]
  show ?case unfolding call_objects.simps by (rule put_ok [OF new_range(3) o(1) o(2) [unfolded t(2)]])
next
  case (on_object st a ob t c t')
  have o: "fph_good T t" "dom (fph_map T t) \<inter> gen_keys T = {}" and b: "begin_table ob = None \<or> begin_table ob = Some a"
    using objects_okD [OF on_object(4,1)] on_object(2) by (simp_all add: object_ok_def)
  have k: "call_keys c \<inter> gen_keys T = {}" using on_object by simp
  note s = call_ok [OF on_object(3) o k]
  have m: "objects_map T st a = Some (Some (fph_map T t))" using on_object(1,2) by (simp add: objects_map_def object_map_def)
  note p = put_ok [OF on_object(4) object_ok_with(1) [OF s(1,3) b, of c t] object_ok_with(2) [OF s(1,3), of a c t ob]]
  show ?case unfolding call_objects.simps m option.map using p by (simp only: s(2))
next
  case (copy_object st a b ob)
  note c = copy_construct_ok [OF objects_okD [OF copy_object(3,2)], of a]
  show ?case unfolding call_objects.simps objects_map_at [of st b, OF copy_object(2)] by (rule put_ok [OF copy_object(3) c])
next
  case (move_object st a b ob ob' left)
  note m = move_construct_ok [OF move_object(3) objects_okD [OF move_object(4,2)]]
  show ?case unfolding call_objects.simps objects_map_at [of st b, OF move_object(2)]
    by (rule put_two [OF move_object(4) m(3,4) m(1,2)])
next
  case (swap_objects st a x b y x' y')
  note m = swap_imp_ok [OF swap_objects(3) objects_okD [OF swap_objects(4,1)] objects_okD [OF swap_objects(4,2)]]
  show ?case unfolding call_objects.simps objects_map_at [of st a, OF swap_objects(1)] objects_map_at [of st b, OF swap_objects(2)]
    by (rule put_two [OF swap_objects(4) m])
next
  case (copy_assign st a x b y tmp x' y')
  note c = copy_construct_ok [OF objects_okD [OF copy_assign(4,2)], of tmp]
  note m = swap_imp_ok [OF copy_assign(3) objects_okD [OF copy_assign(4,1)] c(1)]
  show ?case unfolding call_objects.simps objects_map_at [of st b, OF copy_assign(2)]
    by (rule put_ok [OF copy_assign(4) m(1) m(2) [unfolded c(2)]])
next
  case (move_assign st a x b y x' y')
  note m = swap_imp_ok [OF move_assign(3) objects_okD [OF move_assign(4,1)] objects_okD [OF move_assign(4,2)]]
  show ?case unfolding call_objects.simps objects_map_at [of st a, OF move_assign(1)] objects_map_at [of st b, OF move_assign(2)]
    by (rule put_two [OF move_assign(4) m])
next
  case (assign_list st a ob t es t')
  have o: "fph_good T t" using objects_okD [OF assign_list(4,1)] assign_list(2) by (simp add: object_ok_def)
  have i: "fph_insert_range T L es (fph_clear T t) = Inr t'" using assign_list(3) by (simp add: assign_list_def)
  have k: "fst ` set es \<inter> gen_keys T = {}" using assign_list(5) by simp
  note c = clear_good [OF o]
  note s = range_ok [OF conjunct1 [OF c] conjunct2 [OF c] i k]
  show ?case unfolding call_objects.simps
    using put_ok [OF assign_list(4) object_ok_with(3,4) [OF s(1,3), of a]] by (simp only: s(2))
next
  case (destroy_object st a ob)
  then show ?case by (auto simp: objects_ok_def objects_map_def fun_eq_iff)
qed

lemma objects_reach_ok:
  assumes "objects_reach T L init cs st" "(\<Union>c \<in> set cs. object_keys c) \<inter> gen_keys T = {}"
  shows "objects_ok T st \<and> objects_map T st = fold (call_objects init) cs Map.empty"
  using assms
proof (induction rule: objects_reach.induct)
  case no_objects
  show ?case by (simp add: objects_ok_def objects_map_def fun_eq_iff)
next
  case (objects_step cs st c st')
  then have IH: "objects_ok T st" "objects_map T st = fold (call_objects init) cs Map.empty" by auto
  have "object_keys c \<inter> gen_keys T = {}" using objects_step.prems by auto
  from object_step_ok [OF objects_step.hyps(2) IH(1) this] show ?case by (simp add: IH(2))
qed

end

section \<open>The objects of a program\<close>

text \<open>A table that a sequence of calls makes, as the only object of a program.\<close>

lemma single_object:
  assumes "fph_reach T L init cs t"
  shows "\<exists>ob. objects_reach T L init (New_object a # map (On_object a) cs) [a \<mapsto> ob] \<and> object_table ob = Some t"
  using assms
proof (induction rule: fph_reach.induct)
  case (reach_new n gen key t)
  have "objects_reach T L init ([] @ [New_object a]) (Map.empty(a \<mapsto> built_object a t))"
    by (rule objects_step [OF no_objects new_object [OF _ reach_new]]) simp
  then have "objects_reach T L init (New_object a # map (On_object a) []) [a \<mapsto> built_object a t]"
    by (simp only: append.left_neutral list.map)
  then show ?case by (intro exI [of _ "built_object a t"]) (simp only: built_object_def object_table_of)
next
  case (reach_step cs t c t')
  then obtain ob where ob: "objects_reach T L init (New_object a # map (On_object a) cs) [a \<mapsto> ob]" "object_table ob = Some t"
    by blast
  have s: "object_step T L init [a \<mapsto> ob] (On_object a c) ([a \<mapsto> ob](a \<mapsto> with_table a c t t' ob))"
    by (rule on_object [OF _ ob(2) reach_step.hyps(2)]) simp
  from objects_step [OF ob(1) s]
  have "objects_reach T L init (New_object a # map (On_object a) (cs @ [c])) [a \<mapsto> with_table a c t t' ob]" by simp
  moreover have "object_table (with_table a c t t' ob) = Some t'" by (simp add: with_table_def)
  ultimately have "objects_reach T L init (New_object a # map (On_object a) (cs @ [c])) [a \<mapsto> with_table a c t t' ob] \<and>
    object_table (with_table a c t t' ob) = Some t'" by (rule conjI)
  then show ?case by (rule exI)
qed

text \<open>
  C5. Whatever a program does with its table objects (constructions, also from a range, calls on
  one object, copies, moves, swaps, assignments also of an object to itself, destructions),
  every object stands for the map that the same operations give on maps; an object that was
  moved from has no table until it is assigned to; every table has its
  invariant; and the stored begin iterator never points to another object: with an element it points
  to its own object, and without one to its own object or to none.
\<close>

theorem fph_objects_correct:
  fixes sh eng rnd nk raw
  defines "T \<equiv> high_types sh eng rnd nk raw"
  assumes "objects_reach T L init cs st" "(\<Union>c \<in> set cs. object_keys c) \<inter> gen_keys T = {}"
  shows "let A = fold (call_objects init) cs Map.empty in
    case st a of
      None \<Rightarrow> A a = None
    | Some ob \<Rightarrow> (case object_table ob of
          None \<Rightarrow> A a = Some None
        | Some t \<Rightarrow> A a = Some (Some (fph_map T t)) \<and> fph_inv T t \<and>
            (begin_it t = None \<or> begin_table ob = Some a) \<and> (begin_table ob = None \<or> begin_table ob = Some a))"
proof -
  note r = high_table.objects_reach_ok [OF assms(2,3) [unfolded T_def], folded T_def]
  have A: "fold (call_objects init) cs Map.empty a = map_option (object_map T) (st a)"
    using fun_cong [OF conjunct2 [OF r], of a] by (simp add: objects_map_def)
  show ?thesis
  proof (cases "st a")
    case None
    then show ?thesis using A by (simp add: Let_def)
  next
    case (Some ob)
    then show ?thesis using A objects_okD [OF conjunct1 [OF r] Some]
      by (auto simp: Let_def object_map_def object_ok_def fph_good_def split: option.split)
  qed
qed

text \<open>A table is moved to address 1 and copied back over the object at address 0 it was moved from.\<close>

theorem fph_objects_correct_witness:
  "\<exists>st. let T = high_types chosen_simple_seed_hash64 (\<lambda>s. s) (\<lambda>s :: u64. (s, s + 1)) two_keys (\<lambda>_. 0);
      cs = [New_object 0, On_object 0 (Call_emplace 5 7), On_object 0 (Call_erase 6), Move_object 1 0] in
    objects_reach T build_limits (0 :: u64) cs st \<and> (\<Union>c \<in> set cs. object_keys c) \<inter> gen_keys T = {} \<and>
    (case st (0 :: nat) of None \<Rightarrow> False | Some ob \<Rightarrow> object_table ob = None) \<and>
    (case st 1 of None \<Rightarrow> False | Some ob \<Rightarrow> map_option (fph_map T) (object_table ob) = Some [5 \<mapsto> 7])"
proof -
  let ?T = "high_types chosen_simple_seed_hash64 (\<lambda>s. s) (\<lambda>s :: u64. (s, s + 1)) two_keys (\<lambda>_. 0)"
  let ?cs = "[New_object 0, On_object 0 (Call_emplace 5 7), On_object 0 (Call_erase 6), Move_object 1 0] ::
    (nat, u64, u64) object_call list"
  obtain t where t: "fph_reach ?T build_limits (0 :: u64) [Call_emplace 5 7, Call_erase 6] t" by (rule example_reach)
  obtain ob where ob: "objects_reach ?T build_limits 0 (New_object (0 :: nat) # map (On_object 0) [Call_emplace 5 (7 :: u64), Call_erase (6 :: u64)]) [0 \<mapsto> ob]"
    using single_object [OF t, of 0] by blast
  obtain ob' left where m: "move_construct (1 :: nat) ob = (ob', left)" by fastforce
  have "object_step ?T build_limits 0 [0 \<mapsto> ob] (Move_object 1 0) ([0 \<mapsto> ob](0 \<mapsto> left, 1 \<mapsto> ob'))"
    by (rule move_object [OF _ _ m]) simp_all
  from objects_step [OF ob this] have r: "objects_reach ?T build_limits 0 ?cs [0 \<mapsto> left, 1 \<mapsto> ob']" by simp
  have d: "(\<Union>c \<in> set ?cs. object_keys c) \<inter> gen_keys ?T = {}"
    by (auto simp: gen_keys_def high_types_def two_keys_def)
  have A: "fold (call_objects 0) ?cs Map.empty 0 = Some None" "fold (call_objects 0) ?cs Map.empty 1 = Some (Some [5 \<mapsto> 7])"
    by (simp_all add: fun_eq_iff)
  have "object_table left = None"
    using fph_objects_correct [OF r d, of 0] A(1) by (auto simp: Let_def split: option.splits)
  moreover have "map_option (fph_map ?T) (object_table ob') = Some [5 \<mapsto> 7]"
    using fph_objects_correct [OF r d, of 1] A(2) by (auto simp: Let_def split: option.splits)
  ultimately show ?thesis using r d unfolding Let_def by (intro exI [of _ "[0 \<mapsto> left, 1 \<mapsto> ob']"]) simp
qed

end
