(* ===== verification/Boost_Spinlock.thy ===== *)
theory Boost_Spinlock
  imports Prelude
begin

text \<open>
  The readers-writer spinlock of boost_unordered.hpp (class rw_spinlock): one atomic word and any
  number of threads. A thread is a program counter; a step of it is one access to the word, and the
  steps of the threads are interleaved in any order. Every access is to the one word, whose
  modification order is total whatever memory order is asked for; the memory orders of other data
  are not modelled, and neither are the pauses of \<open>yield\<close>. A weak compare-exchange may fail
  although the word has the expected value.
\<close>

section \<open>The word\<close>

definition locked_exclusive_mask :: u32 where
  "locked_exclusive_mask = push_bit 31 1"

definition writer_pending_mask :: u32 where
  "writer_pending_mask = push_bit 30 1"

definition reader_lock_count_mask :: u32 where
  "reader_lock_count_mask = writer_pending_mask - 1"

section \<open>The operations\<close>

datatype rw_op = Try_lock_shared | Lock_shared | Try_lock | Lock

text \<open>What an operation does with the word it has loaded.\<close>

datatype rw_action =
    Give_up
  | Spin
  | Cas_strong u32
  | Cas_weak u32
  | Cas_pending u32

fun rw_decide :: "rw_op \<Rightarrow> u32 \<Rightarrow> rw_action" where
  "rw_decide Try_lock_shared st = (if reader_lock_count_mask \<le> st then Give_up else Cas_strong (st + 1))"
| "rw_decide Lock_shared st = (if st < reader_lock_count_mask then Cas_weak (st + 1) else Spin)"
| "rw_decide Try_lock st =
     (if st AND locked_exclusive_mask \<noteq> 0 then Give_up
      else if st AND reader_lock_count_mask \<noteq> 0 then Give_up
      else Cas_strong locked_exclusive_mask)"
| "rw_decide Lock st =
     (if st AND locked_exclusive_mask \<noteq> 0 then Spin
      else if st AND reader_lock_count_mask = 0 then Cas_weak locked_exclusive_mask
      else if st AND writer_pending_mask \<noteq> 0 then Spin
      else Cas_pending (st OR writer_pending_mask))"

text \<open>Where a thread is: outside, before the load, between the load and what follows, or holding the lock.\<close>

datatype rw_pc =
    Outside
  | Before rw_op
  | Loaded rw_op u32
  | Holds_shared
  | Holds_exclusive

fun holding :: "rw_op \<Rightarrow> rw_pc" where
  "holding Try_lock_shared = Holds_shared"
| "holding Lock_shared = Holds_shared"
| "holding Try_lock = Holds_exclusive"
| "holding Lock = Holds_exclusive"

record 't rw_state =
  lock_word :: u32
  pcs :: "'t \<Rightarrow> rw_pc"

definition goto :: "'t \<Rightarrow> rw_pc \<Rightarrow> 't rw_state \<Rightarrow> 't rw_state" where
  "goto t pc s = s\<lparr> pcs := (pcs s)(t := pc) \<rparr>"

definition store_word :: "u32 \<Rightarrow> 't rw_state \<Rightarrow> 't rw_state" where
  "store_word w s = s\<lparr> lock_word := w \<rparr>"

text \<open>
  The step of a thread after its load; the flag says whether a weak exchange fails for no reason. A
  try that does not succeed returns false; a loop starts again, after an exchange of its own that
  sets the pending bit as well.
\<close>

definition after_load :: "'t \<Rightarrow> rw_op \<Rightarrow> u32 \<Rightarrow> bool \<Rightarrow> 't rw_state \<Rightarrow> 't rw_state" where
  "after_load t op st spurious s =
     (case rw_decide op st of
        Give_up \<Rightarrow> goto t Outside s
      | Spin \<Rightarrow> goto t (Before op) s
      | Cas_strong w \<Rightarrow> (if lock_word s = st then goto t (holding op) (store_word w s) else goto t Outside s)
      | Cas_weak w \<Rightarrow> (if lock_word s = st \<and> \<not> spurious then goto t (holding op) (store_word w s) else goto t (Before op) s)
      | Cas_pending w \<Rightarrow> (if lock_word s = st \<and> \<not> spurious then goto t (Before op) (store_word w s) else goto t (Before op) s))"

inductive rw_step :: "'t rw_state \<Rightarrow> 't \<Rightarrow> 't rw_state \<Rightarrow> bool" where
  rw_call: "pcs s t = Outside \<Longrightarrow> rw_step s t (goto t (Before op) s)"
| rw_load: "pcs s t = Before op \<Longrightarrow> rw_step s t (goto t (Loaded op (lock_word s)) s)"
| rw_act: "pcs s t = Loaded op st \<Longrightarrow> rw_step s t (after_load t op st spurious s)"
| rw_unlock_shared: "pcs s t = Holds_shared \<Longrightarrow> rw_step s t (goto t Outside (store_word (lock_word s - 1) s))"
| rw_unlock: "pcs s t = Holds_exclusive \<Longrightarrow> rw_step s t (goto t Outside (store_word 0 s))"

definition rw_initial :: "'t rw_state" where
  "rw_initial = \<lparr> lock_word = 0, pcs = \<lambda>_. Outside \<rparr>"

inductive rw_reachable :: "'t rw_state \<Rightarrow> bool" where
  rw_start: "rw_reachable rw_initial"
| rw_more: "rw_reachable s \<Longrightarrow> rw_step s t s' \<Longrightarrow> rw_reachable s'"

section \<open>The invariant\<close>

definition readers :: "'t rw_state \<Rightarrow> 't set" where
  "readers s = {t. pcs s t = Holds_shared}"

definition writers :: "'t rw_state \<Rightarrow> 't set" where
  "writers s = {t. pcs s t = Holds_exclusive}"

definition waiting :: "'t rw_state \<Rightarrow> 't set" where
  "waiting s = {t. pcs s t = Before Lock \<or> (\<exists>st. pcs s t = Loaded Lock st)}"

text \<open>The word without an exclusive lock: the number of readers, and perhaps the pending bit.\<close>

definition shared_word :: "nat \<Rightarrow> bool \<Rightarrow> u32" where
  "shared_word n pending = of_nat (n + (if pending then 2 ^ 30 else 0))"

definition rw_inv :: "'t rw_state \<Rightarrow> bool" where
  "rw_inv s \<longleftrightarrow> finite (readers s) \<and>
     (if writers s = {} then card (readers s) < 2 ^ 30 \<and>
        (\<exists>pending. lock_word s = shared_word (card (readers s)) pending \<and> (pending \<longrightarrow> waiting s \<noteq> {}))
      else readers s = {} \<and> (\<exists>t. writers s = {t}) \<and> lock_word s = locked_exclusive_mask)"

lemma masks: "locked_exclusive_mask = 2 ^ 31" "writer_pending_mask = 2 ^ 30" "reader_lock_count_mask = 2 ^ 30 - 1"
  by (simp_all add: locked_exclusive_mask_def writer_pending_mask_def reader_lock_count_mask_def push_bit_eq_mult)

lemma unat_shared_word: "n < 2 ^ 30 \<Longrightarrow> unat (shared_word n p) = n + (if p then 2 ^ 30 else 0)"
  unfolding shared_word_def by (rule unat_of_nat_small) simp

lemma shared_word_bit:
  assumes "n < 2 ^ 30"
  shows "bit (shared_word n p) 31 = False" and "bit (shared_word n p) 30 = p"
proof -
  have u: "bit (shared_word n p) i = odd (unat (shared_word n p) div 2 ^ i)" if "i < 32" for i
    using that bit_unsigned_iff [of "shared_word n p" i, where ?'a = nat] by (simp add: bit_iff_odd)
  have "unat (shared_word n p) < 2 ^ 31" using assms unat_shared_word [OF assms, of p] by simp
  then have "unat (shared_word n p) div 2 ^ 31 = 0" by (rule div_less)
  then show "bit (shared_word n p) 31 = False" using u [of 31] by simp
  have "(n + 2 ^ 30) div 2 ^ 30 = 1" "n div 2 ^ 30 = 0" using assms by (simp_all add: div_add_self2)
  then show "bit (shared_word n p) 30 = p" using u [of 30] unat_shared_word [OF assms, of p] by (cases p) simp_all
qed

lemma shared_word_masks:
  assumes "n < 2 ^ 30"
  shows "shared_word n p AND locked_exclusive_mask = 0"
    and "shared_word n p AND reader_lock_count_mask = 0 \<longleftrightarrow> n = 0"
    and "shared_word n p AND writer_pending_mask = 0 \<longleftrightarrow> \<not> p"
    and "shared_word n p < reader_lock_count_mask \<longleftrightarrow> \<not> p \<and> n + 1 < 2 ^ 30"
proof -
  note u = unat_shared_word [OF assms, of p]
  show "shared_word n p AND locked_exclusive_mask = 0" "shared_word n p AND writer_pending_mask = 0 \<longleftrightarrow> \<not> p"
    unfolding masks and_exp_eq_0_iff_not_bit shared_word_bit [OF assms] by simp_all
  have "unat (shared_word n p AND (2 ^ 30 - 1)) = unat (shared_word n p) mod 2 ^ 30" by (rule and_mask_mod)
  also have "\<dots> = n" using u assms by simp
  finally show "shared_word n p AND reader_lock_count_mask = 0 \<longleftrightarrow> n = 0"
    unfolding masks by (metis unat_eq_0)
  have "unat (2 ^ 30 - 1 :: u32) = 2 ^ 30 - 1" by (rule unat_low_mask) simp
  then show "shared_word n p < reader_lock_count_mask \<longleftrightarrow> \<not> p \<and> n + 1 < 2 ^ 30"
    using u assms unfolding masks word_less_nat_alt by auto
qed

lemma shared_word_steps:
  "shared_word n p + 1 = shared_word (n + 1) p" "0 < n \<Longrightarrow> shared_word n p - 1 = shared_word (n - 1) p"
  "n < 2 ^ 30 \<Longrightarrow> shared_word n False OR writer_pending_mask = shared_word n True"
proof -
  show "shared_word n p + 1 = shared_word (n + 1) p" by (simp add: shared_word_def)
  show "0 < n \<Longrightarrow> shared_word n p - 1 = shared_word (n - 1) p" by (cases n) (simp_all add: shared_word_def)
  assume n: "n < 2 ^ 30"
  have "shared_word n False AND writer_pending_mask = 0" using shared_word_masks(3) [OF n] by simp
  then have "shared_word n False OR writer_pending_mask = shared_word n False + writer_pending_mask"
    by (simp add: disjunctive_add_eq_or)
  then show "shared_word n False OR writer_pending_mask = shared_word n True" by (simp add: shared_word_def masks)
qed

section \<open>It is preserved\<close>

lemma goto_sets [simp]:
  "lock_word (goto t pc s) = lock_word s" "lock_word (store_word w s) = w"
  "readers (goto t pc s) = (if pc = Holds_shared then insert t (readers s) else readers s - {t})"
  "writers (goto t pc s) = (if pc = Holds_exclusive then insert t (writers s) else writers s - {t})"
  "waiting (goto t pc s) = (if pc = Before Lock \<or> (\<exists>st. pc = Loaded Lock st) then insert t (waiting s) else waiting s - {t})"
  "readers (store_word w s) = readers s" "writers (store_word w s) = writers s" "waiting (store_word w s) = waiting s"
  by (auto simp: goto_def store_word_def readers_def writers_def waiting_def)

lemma holder_iff: "t \<in> readers s \<longleftrightarrow> pcs s t = Holds_shared" "t \<in> writers s \<longleftrightarrow> pcs s t = Holds_exclusive"
  "t \<in> waiting s \<longleftrightarrow> pcs s t = Before Lock \<or> (\<exists>st. pcs s t = Loaded Lock st)"
  by (simp_all add: readers_def writers_def waiting_def)

text \<open>A step that neither takes nor leaves the lock and does not stop waiting for it.\<close>

lemma inv_goto:
  assumes "rw_inv s" "t \<notin> readers s" "t \<notin> writers s" "pc \<noteq> Holds_shared" "pc \<noteq> Holds_exclusive"
    "t \<in> waiting s \<Longrightarrow> pc = Before Lock \<or> (\<exists>st. pc = Loaded Lock st)"
  shows "rw_inv (goto t pc s)"
proof -
  have eqs: "readers (goto t pc s) = readers s" "writers (goto t pc s) = writers s" "lock_word (goto t pc s) = lock_word s"
    using assms(2-5) by simp_all
  have "waiting s \<subseteq> waiting (goto t pc s)" using assms(6) by auto
  then have "waiting s \<noteq> {} \<Longrightarrow> waiting (goto t pc s) \<noteq> {}" by blast
  then show ?thesis using assms(1) unfolding rw_inv_def eqs by metis
qed

lemma inv_word:
  assumes "rw_inv s"
  shows "writers s \<noteq> {} \<Longrightarrow> \<not> lock_word s < reader_lock_count_mask \<and> lock_word s AND locked_exclusive_mask \<noteq> 0"
    and "writers s = {} \<Longrightarrow> \<exists>p. lock_word s = shared_word (card (readers s)) p \<and> card (readers s) < 2 ^ 30 \<and> (p \<longrightarrow> waiting s \<noteq> {})"
  using assms by (auto simp: rw_inv_def masks)

lemma inv_lock_shared:
  assumes "rw_inv s" "t \<notin> readers s" "t \<notin> writers s" "lock_word s < reader_lock_count_mask"
  shows "rw_inv (goto t Holds_shared (store_word (lock_word s + 1) s))"
proof -
  have w: "writers s = {}" using inv_word(1) [OF assms(1)] assms(4) by blast
  obtain p where p: "lock_word s = shared_word (card (readers s)) p" "card (readers s) < 2 ^ 30"
    using inv_word(2) [OF assms(1) w] by blast
  have np: "\<not> p \<and> card (readers s) + 1 < 2 ^ 30" using shared_word_masks(4) [OF p(2), of p] assms(4) p(1) by simp
  have f: "finite (readers s)" using assms(1) by (simp add: rw_inv_def)
  have "card (insert t (readers s)) = card (readers s) + 1" using f assms(2) by simp
  then show ?thesis
    using f w np p(1) by (auto simp: rw_inv_def shared_word_steps(1) simp del: card_insert_disjoint intro!: exI [of _ False])
qed

lemma inv_lock_exclusive:
  assumes "rw_inv s" "t \<notin> readers s" "t \<notin> writers s" "lock_word s AND locked_exclusive_mask = 0"
    "lock_word s AND reader_lock_count_mask = 0"
  shows "rw_inv (goto t Holds_exclusive (store_word locked_exclusive_mask s))"
proof -
  have w: "writers s = {}" using inv_word(1) [OF assms(1)] assms(4) by blast
  obtain p where p: "lock_word s = shared_word (card (readers s)) p" "card (readers s) < 2 ^ 30"
    using inv_word(2) [OF assms(1) w] by blast
  then have "card (readers s) = 0" using shared_word_masks(2) [OF p(2), of p] assms(5) by simp
  moreover have "finite (readers s)" using assms(1) by (simp add: rw_inv_def)
  ultimately have "readers s = {}" by simp
  then show ?thesis using w by (simp add: rw_inv_def)
qed

lemma inv_pending:
  assumes "rw_inv s" "t \<notin> readers s" "t \<notin> writers s" "lock_word s AND locked_exclusive_mask = 0"
    "lock_word s AND writer_pending_mask = 0"
  shows "rw_inv (goto t (Before Lock) (store_word (lock_word s OR writer_pending_mask) s))"
proof -
  have w: "writers s = {}" using inv_word(1) [OF assms(1)] assms(4) by blast
  obtain p where p: "lock_word s = shared_word (card (readers s)) p" "card (readers s) < 2 ^ 30"
    using inv_word(2) [OF assms(1) w] by blast
  have "\<not> p" using shared_word_masks(3) [OF p(2), of p] assms(5) p(1) by simp
  then have "lock_word s OR writer_pending_mask = shared_word (card (readers s)) True"
    using p shared_word_steps(3) by simp
  moreover have "finite (readers s)" using assms(1) by (simp add: rw_inv_def)
  ultimately show ?thesis using w p(2) assms(2) by (auto simp: rw_inv_def)
qed

lemma inv_unlock_shared:
  assumes "rw_inv s" "t \<in> readers s"
  shows "rw_inv (goto t Outside (store_word (lock_word s - 1) s))"
proof -
  have w: "writers s = {}" using assms by (auto simp: rw_inv_def split: if_splits)
  obtain p where p: "lock_word s = shared_word (card (readers s)) p" "card (readers s) < 2 ^ 30" "p \<longrightarrow> waiting s \<noteq> {}"
    using inv_word(2) [OF assms(1) w] by blast
  have f: "finite (readers s)" using assms(1) by (simp add: rw_inv_def)
  then have c: "0 < card (readers s)" "card (readers s - {t}) = card (readers s) - 1" using assms(2) by (auto simp: card_gt_0_iff)
  have "t \<notin> waiting s" using assms(2) by (simp add: holder_iff)
  then have "waiting (goto t Outside (store_word (lock_word s - 1) s)) = waiting s" by simp
  then show ?thesis
    using f w c p shared_word_steps(2) [OF c(1)] unfolding rw_inv_def by (auto intro!: exI [of _ p])
qed

lemma inv_unlock:
  assumes "rw_inv s" "t \<in> writers s"
  shows "rw_inv (goto t Outside (store_word 0 s))"
proof -
  have "readers s = {}" "writers s = {t}" using assms by (auto simp: rw_inv_def split: if_splits)
  then show ?thesis by (auto simp: rw_inv_def shared_word_def intro!: exI [of _ False])
qed

lemma inv_act:
  assumes "rw_inv s" "pcs s t = Loaded op st"
  shows "rw_inv (after_load t op st spurious s)"
proof -
  have out: "t \<notin> readers s" "t \<notin> writers s" using assms(2) by (simp_all add: holder_iff)
  have wt: "t \<in> waiting s \<longleftrightarrow> op = Lock" using assms(2) by (auto simp: holder_iff)
  have again: "rw_inv (goto t (Before op) s)" using wt by (intro inv_goto [OF assms(1) out]) auto
  have leave: "op \<noteq> Lock \<Longrightarrow> rw_inv (goto t Outside s)" using wt by (intro inv_goto [OF assms(1) out]) auto
  show ?thesis
  proof (cases op)
    case Try_lock_shared
    then show ?thesis using leave inv_lock_shared [OF assms(1) out] by (auto simp: after_load_def)
  next
    case Lock_shared
    then show ?thesis using again inv_lock_shared [OF assms(1) out] by (auto simp: after_load_def)
  next
    case Try_lock
    then show ?thesis using leave inv_lock_exclusive [OF assms(1) out] by (auto simp: after_load_def)
  next
    case Lock
    then show ?thesis using again inv_lock_exclusive [OF assms(1) out] inv_pending [OF assms(1) out] by (auto simp: after_load_def)
  qed
qed

lemma rw_step_inv: "rw_step s t s' \<Longrightarrow> rw_inv s \<Longrightarrow> rw_inv s'"
proof (induction rule: rw_step.induct)
  case (rw_call s t op)
  then show ?case by (intro inv_goto) (simp_all add: holder_iff)
next
  case (rw_load s t op)
  then show ?case by (intro inv_goto) (auto simp: holder_iff)
next
  case (rw_act s t op st spurious)
  then show ?case by (intro inv_act)
next
  case (rw_unlock_shared s t)
  then show ?case by (intro inv_unlock_shared) (simp_all add: holder_iff)
next
  case (rw_unlock s t)
  then show ?case by (intro inv_unlock) (simp_all add: holder_iff)
qed

lemma rw_reachable_inv: "rw_reachable s \<Longrightarrow> rw_inv s"
proof (induction rule: rw_reachable.induct)
  case rw_start
  show ?case
    by (auto simp: rw_inv_def rw_initial_def readers_def writers_def waiting_def shared_word_def intro!: exI [of _ False])
next
  case (rw_more s t s')
  from rw_more(2,3) show ?case by (rule rw_step_inv)
qed

section \<open>Nobody waits for ever\<close>

definition rw_runs :: "'t rw_state \<Rightarrow> 't rw_state \<Rightarrow> bool" where
  "rw_runs = (\<lambda>a b. \<exists>t. rw_step a t b)\<^sup>*\<^sup>*"

lemma rw_runs_refl [simp]: "rw_runs s s"
  by (simp add: rw_runs_def)

lemma rw_runs_step: "rw_step s t s' \<Longrightarrow> rw_runs s' s'' \<Longrightarrow> rw_runs s s''"
  unfolding rw_runs_def by (rule converse_rtranclp_into_rtranclp) auto

lemma rw_runs_trans: "rw_runs s s' \<Longrightarrow> rw_runs s' s'' \<Longrightarrow> rw_runs s s''"
  unfolding rw_runs_def by (rule rtranclp_trans)

lemma rw_runs_inv: "rw_runs s s' \<Longrightarrow> rw_inv s \<Longrightarrow> rw_inv s'"
  unfolding rw_runs_def by (induction rule: rtranclp_induct) (auto intro: rw_step_inv)

lemma rw_runs_reachable: "rw_runs s s' \<Longrightarrow> rw_reachable s \<Longrightarrow> rw_reachable s'"
  unfolding rw_runs_def by (induction rule: rtranclp_induct) (auto intro: rw_more)

lemma goto_pcs: "pcs (goto t pc s) u = (if u = t then pc else pcs s u)" "pcs (store_word w s) u = pcs s u"
  by (simp_all add: goto_def store_word_def)

text \<open>The holders of the lock can give it up, and the other threads are where they were.\<close>

lemma readers_release:
  assumes "rw_inv s" "writers s = {}"
  shows "\<exists>s'. rw_runs s s' \<and> readers s' = {} \<and> writers s' = {} \<and> (\<forall>u. u \<notin> readers s \<longrightarrow> pcs s' u = pcs s u)"
  using assms
proof (induction "card (readers s)" arbitrary: s)
  case 0
  then have "readers s = {}" by (simp add: rw_inv_def)
  then show ?case using 0(3) by (intro exI [of _ s]) simp
next
  case (Suc n)
  then obtain t where t: "t \<in> readers s" by (metis card.empty equals0I nat.distinct(1))
  let ?s = "goto t Outside (store_word (lock_word s - 1) s)"
  have step: "rw_step s t ?s" using t by (intro rw_unlock_shared) (simp add: holder_iff)
  have "finite (readers s)" using Suc.prems by (simp add: rw_inv_def)
  then have "n = card (readers ?s)" using Suc.hyps(2) t by simp
  moreover have "rw_inv ?s" using step Suc.prems(1) by (rule rw_step_inv)
  ultimately obtain s' where s': "rw_runs ?s s'" "readers s' = {}" "writers s' = {}"
    "\<forall>u. u \<notin> readers ?s \<longrightarrow> pcs s' u = pcs ?s u" using Suc.hyps(1) [of ?s] Suc.prems(2) by auto
  have "pcs s' u = pcs s u" if "u \<notin> readers s" for u
  proof -
    have "u \<noteq> t" using that t by blast
    moreover have "u \<notin> readers ?s" using that by simp
    ultimately show ?thesis using s'(4) by (simp add: goto_pcs)
  qed
  then show ?case using rw_runs_step [OF step s'(1)] s'(2,3) by blast
qed

lemma all_release:
  assumes "rw_inv s"
  shows "\<exists>s'. rw_runs s s' \<and> readers s' = {} \<and> writers s' = {} \<and>
    (\<forall>u. u \<notin> readers s \<longrightarrow> u \<notin> writers s \<longrightarrow> pcs s' u = pcs s u)"
proof (cases "writers s = {}")
  case True
  then show ?thesis using readers_release [OF assms] by blast
next
  case False
  then obtain t where t: "writers s = {t}" "readers s = {}" using assms by (auto simp: rw_inv_def)
  let ?s = "goto t Outside (store_word 0 s)"
  have step: "rw_step s t ?s" using t by (intro rw_unlock) (simp add: holder_iff [symmetric])
  have "pcs ?s u = pcs s u" if "u \<notin> writers s" for u using that t(1) by (auto simp: goto_pcs)
  then show ?thesis using rw_runs_step [OF step rw_runs_refl] t by (intro exI [of _ ?s]) simp
qed

text \<open>A thread that loops can fail its exchange and load the word again.\<close>

lemma loop_restarts:
  assumes "op = Lock \<or> op = Lock_shared" "pcs s t = Before op \<or> (\<exists>st. pcs s t = Loaded op st)"
  shows "\<exists>s'. rw_runs s s' \<and> pcs s' t = Before op \<and> readers s' = readers s \<and> writers s' = writers s \<and>
    (\<forall>u. u \<noteq> t \<longrightarrow> pcs s' u = pcs s u)"
proof (cases "pcs s t = Before op")
  case True
  then show ?thesis by (intro exI [of _ s]) simp
next
  case False
  then obtain st where st: "pcs s t = Loaded op st" using assms(2) by auto
  let ?s = "goto t (Before op) s"
  have "after_load t op st True s = ?s" using assms(1) by (auto simp: after_load_def)
  then have "rw_step s t ?s" using rw_act [OF st, of True] by simp
  from rw_runs_step [OF this rw_runs_refl] have "rw_runs s ?s" .
  moreover have "t \<notin> readers s" "t \<notin> writers s" using st by (simp_all add: holder_iff)
  ultimately show ?thesis by (intro exI [of _ ?s]) (simp add: goto_pcs)
qed

text \<open>An operation that nobody disturbs: the load, and what follows it.\<close>

definition rw_alone :: "'t \<Rightarrow> rw_op \<Rightarrow> 't rw_state \<Rightarrow> 't rw_state" where
  "rw_alone t op s = after_load t op (lock_word s) False (goto t (Loaded op (lock_word s)) s)"

lemma rw_alone_runs:
  assumes "pcs s t = Before op"
  shows "rw_runs s (rw_alone t op s)"
proof -
  have "rw_step (goto t (Loaded op (lock_word s)) s) t (rw_alone t op s)"
    unfolding rw_alone_def by (rule rw_act) (simp add: goto_pcs)
  from rw_runs_step [OF rw_load [OF assms] rw_runs_step [OF this rw_runs_refl]] show ?thesis .
qed

lemma rw_alone_cases:
  "pcs (rw_alone t Try_lock_shared s) t = (if lock_word s < reader_lock_count_mask then Holds_shared else Outside)"
  "pcs (rw_alone t Lock_shared s) t = (if lock_word s < reader_lock_count_mask then Holds_shared else Before Lock_shared)"
  "pcs (rw_alone t Try_lock s) t =
     (if lock_word s AND locked_exclusive_mask = 0 \<and> lock_word s AND reader_lock_count_mask = 0 then Holds_exclusive else Outside)"
  "pcs (rw_alone t Lock s) t =
     (if lock_word s AND locked_exclusive_mask = 0 \<and> lock_word s AND reader_lock_count_mask = 0 then Holds_exclusive else Before Lock)"
  by (simp_all add: rw_alone_def after_load_def goto_pcs not_less [symmetric])

lemma inv_free:
  assumes "rw_inv s" "writers s = {}"
  shows "lock_word s AND locked_exclusive_mask = 0" "lock_word s AND reader_lock_count_mask = 0 \<longleftrightarrow> readers s = {}"
proof -
  obtain p where p: "lock_word s = shared_word (card (readers s)) p" "card (readers s) < 2 ^ 30"
    using inv_word(2) [OF assms] by blast
  have "finite (readers s)" using assms by (simp add: rw_inv_def)
  then show "lock_word s AND locked_exclusive_mask = 0" "lock_word s AND reader_lock_count_mask = 0 \<longleftrightarrow> readers s = {}"
    using shared_word_masks(1,2) [OF p(2), of p] p(1) by simp_all
qed

lemma inv_shared_mask:
  assumes "rw_inv s"
  shows "lock_word s < reader_lock_count_mask \<Longrightarrow> writers s = {} \<and> card (readers s) + 1 < 2 ^ 30"
    and "writers s = {} \<Longrightarrow> waiting s = {} \<Longrightarrow> card (readers s) + 1 < 2 ^ 30 \<Longrightarrow> lock_word s < reader_lock_count_mask"
proof -
  show "writers s = {} \<and> card (readers s) + 1 < 2 ^ 30" if l: "lock_word s < reader_lock_count_mask"
  proof -
    have w: "writers s = {}" using inv_word(1) [OF assms] l by blast
    then show ?thesis using inv_word(2) [OF assms w] shared_word_masks(4) l by metis
  qed
  show "lock_word s < reader_lock_count_mask"
    if "writers s = {}" "waiting s = {}" "card (readers s) + 1 < 2 ^ 30"
    using inv_word(2) [OF assms that(1)] shared_word_masks(4) that by metis
qed

lemma inv_count:
  assumes "rw_inv s" "writers s = {}"
  shows "unat (lock_word s) mod 2 ^ 30 = card (readers s)"
    "lock_word s AND writer_pending_mask \<noteq> 0 \<Longrightarrow> waiting s \<noteq> {}"
proof -
  obtain p where p: "lock_word s = shared_word (card (readers s)) p" "card (readers s) < 2 ^ 30" "p \<longrightarrow> waiting s \<noteq> {}"
    using inv_word(2) [OF assms] by blast
  show "unat (lock_word s) mod 2 ^ 30 = card (readers s)" using unat_shared_word [OF p(2), of p] p(1,2) by simp
  show "lock_word s AND writer_pending_mask \<noteq> 0 \<Longrightarrow> waiting s \<noteq> {}" using shared_word_masks(3) [OF p(2), of p] p(1,3) by simp
qed

text \<open>A waiting writer gets the lock once the holders have left; a waiting reader after the writer that waits, if one does.\<close>

lemma lock_when_free:
  assumes "rw_inv s" "readers s = {}" "writers s = {}" "pcs s t = Before Lock"
  shows "\<exists>s'. rw_runs s s' \<and> pcs s' t = Holds_exclusive \<and> (\<forall>u. u \<noteq> t \<longrightarrow> pcs s' u = pcs s u)"
proof -
  have free: "lock_word s AND locked_exclusive_mask = 0" "lock_word s AND reader_lock_count_mask = 0"
    using inv_free [OF assms(1,3)] assms(2) by blast+
  then have "rw_alone t Lock s = goto t Holds_exclusive (store_word locked_exclusive_mask (goto t (Loaded Lock (lock_word s)) s))"
    by (simp add: rw_alone_def after_load_def)
  then show ?thesis using rw_alone_runs [OF assms(4)] by (intro exI [of _ "rw_alone t Lock s"]) (simp add: goto_pcs)
qed

lemma word_clears:
  assumes "rw_inv s" "readers s = {}" "writers s = {}"
  shows "\<exists>s'. rw_runs s s' \<and> lock_word s' = 0 \<and> (\<forall>u. u \<notin> waiting s \<longrightarrow> pcs s' u = pcs s u)"
proof (cases "waiting s = {}")
  case True
  then have "lock_word s = 0" using inv_word(2) [OF assms(1,3)] assms(2) by (auto simp: shared_word_def)
  then show ?thesis by (intro exI [of _ s]) simp
next
  case False
  then obtain u where u: "u \<in> waiting s" by blast
  obtain a where a: "rw_runs s a" "pcs a u = Before Lock" "readers a = readers s" "writers a = writers s"
    "\<forall>v. v \<noteq> u \<longrightarrow> pcs a v = pcs s v" using loop_restarts [of Lock s u] u by (auto simp: holder_iff)
  have "rw_inv a" "readers a = {}" "writers a = {}" using rw_runs_inv [OF a(1) assms(1)] a(3,4) assms by simp_all
  from lock_when_free [OF this a(2)] obtain b where b: "rw_runs a b" "pcs b u = Holds_exclusive" "\<forall>v. v \<noteq> u \<longrightarrow> pcs b v = pcs a v"
    by blast
  let ?c = "goto u Outside (store_word 0 b)"
  have c: "rw_runs b ?c" by (rule rw_runs_step [OF rw_unlock [OF b(2)] rw_runs_refl])
  have "pcs ?c v = pcs s v" if "v \<notin> waiting s" for v
  proof -
    have "v \<noteq> u" using u that by blast
    then show ?thesis using a(5) b(3) by (simp add: goto_pcs)
  qed
  moreover have "rw_runs s ?c" by (rule rw_runs_trans [OF a(1) rw_runs_trans [OF b(1) c]])
  ultimately show ?thesis by (intro exI [of _ ?c]) simp
qed

section \<open>Two threads\<close>

text \<open>Thread 0 has locked, and thread 1 has called lock_shared.\<close>

definition two_threads :: "nat rw_state" where
  "two_threads = goto 1 (Before Lock_shared) (rw_alone 0 Lock (goto 0 (Before Lock) rw_initial))"

lemma two_threads_reachable: "rw_reachable two_threads"
proof -
  have out: "pcs rw_initial (0 :: nat) = Outside" by (simp add: rw_initial_def)
  let ?a = "rw_alone (0 :: nat) Lock (goto 0 (Before Lock) rw_initial)"
  have "rw_runs (goto (0 :: nat) (Before Lock) rw_initial) ?a" by (rule rw_alone_runs) (simp add: goto_pcs)
  from rw_runs_step [OF rw_call [of _ _ Lock, OF out] this] have a: "rw_reachable ?a"
    by (rule rw_runs_reachable) (rule rw_start)
  have "pcs ?a 1 = Outside" by (simp add: rw_alone_def after_load_def goto_pcs rw_initial_def)
  from rw_more [OF a rw_call [of _ _ Lock_shared, OF this]] show ?thesis unfolding two_threads_def .
qed

lemma two_threads_pcs: "pcs two_threads 0 = Holds_exclusive" "pcs two_threads 1 = Before Lock_shared"
  by (simp_all add: two_threads_def goto_pcs rw_alone_cases masks rw_initial_def)

section \<open>What the lock promises\<close>

text \<open>C39. In every state the threads can reach, in any interleaving: at most one thread holds the lock
  exclusively and then no thread holds it shared; the readers are at most 2^30 - 1, so that their
  count never runs into the writer bits; the word has the exclusive bit exactly while a
  thread holds the lock exclusively, and otherwise counts the readers in its low bits; and its pending bit is set
  only while a writer waits.\<close>

theorem rw_spinlock_exclusion:
  assumes "rw_reachable s"
  shows "(writers s = {} \<or> readers s = {} \<and> (\<exists>t. writers s = {t})) \<and>
    finite (readers s) \<and> card (readers s) < 2 ^ 30 \<and>
    (lock_word s AND locked_exclusive_mask \<noteq> 0 \<longleftrightarrow> writers s \<noteq> {}) \<and>
    (if writers s = {} then unat (lock_word s) mod 2 ^ 30 = card (readers s)
     else lock_word s = locked_exclusive_mask) \<and>
    (lock_word s AND writer_pending_mask = 0 \<or> waiting s \<noteq> {})"
proof -
  have inv: "rw_inv s" using assms by (rule rw_reachable_inv)
  show ?thesis
  proof (cases "writers s = {}")
    case True
    then show ?thesis using inv inv_free(1) [OF inv True] inv_count [OF inv True] inv_word(2) [OF inv True]
      by (auto simp: rw_inv_def)
  next
    case False
    then show ?thesis using inv inv_word(1) [OF inv False] by (auto simp: rw_inv_def masks)
  qed
qed

theorem rw_spinlock_exclusion_witness:
  "readers two_threads = {} \<and> lock_word two_threads = locked_exclusive_mask"
  using rw_spinlock_exclusion [OF two_threads_reachable] two_threads_pcs(1)
  by (auto simp: holder_iff(2) [symmetric] split: if_splits)

text \<open>C40. The lock does not deadlock: in every state the threads can reach, a thread inside lock or
  lock_shared, wherever it is in its loop and whoever holds the lock or waits for it, has a run of the threads to come in
  which it gets the lock.\<close>

theorem rw_spinlock_progress:
  assumes "rw_reachable s" "op = Lock \<or> op = Lock_shared" "pcs s t = Before op \<or> (\<exists>st. pcs s t = Loaded op st)"
  shows "\<exists>s'. rw_runs s s' \<and> rw_reachable s' \<and> pcs s' t = holding op"
proof -
  have inv: "rw_inv s" using assms(1) by (rule rw_reachable_inv)
  obtain a where a: "rw_runs s a" "pcs a t = Before op" using loop_restarts [OF assms(2,3)] by blast
  note inva = rw_runs_inv [OF a(1) inv]
  obtain b where b: "rw_runs a b" "readers b = {}" "writers b = {}"
    "\<forall>u. u \<notin> readers a \<longrightarrow> u \<notin> writers a \<longrightarrow> pcs b u = pcs a u"
    using all_release [OF inva] by blast
  have pb: "pcs b t = Before op" using a(2) b(4) by (simp add: holder_iff)
  have invb: "rw_inv b" by (rule rw_runs_inv [OF b(1) inva])
  have "\<exists>s'. rw_runs b s' \<and> pcs s' t = holding op"
  proof (cases "op = Lock")
    case True
    then show ?thesis using lock_when_free [OF invb b(2,3)] pb by auto
  next
    case False
    then have op: "op = Lock_shared" using assms(2) by blast
    then obtain c where c: "rw_runs b c" "lock_word c = 0" "pcs c t = Before op"
      using word_clears [OF invb b(2,3)] pb by (auto simp: holder_iff)
    have "pcs (rw_alone t op c) t = holding op" using c(2) op by (simp add: rw_alone_cases masks)
    then show ?thesis using rw_runs_trans [OF c(1) rw_alone_runs [OF c(3)]] by blast
  qed
  then obtain s' where s': "rw_runs b s'" "pcs s' t = holding op" by blast
  have "rw_runs s s'" by (rule rw_runs_trans [OF a(1) rw_runs_trans [OF b(1) s'(1)]])
  then show ?thesis using rw_runs_reachable [OF _ assms(1)] s'(2) by blast
qed

theorem rw_spinlock_progress_witness:
  "\<exists>s'. rw_runs two_threads s' \<and> rw_reachable s' \<and> pcs s' 1 = Holds_shared"
  using rw_spinlock_progress [OF two_threads_reachable, of Lock_shared 1] two_threads_pcs(2) by simp

end
