(* ===== verification/Boost_FlatSet.thy ===== *)
theory Boost_FlatSet
  imports Boost_History
begin

text \<open>
  unordered_flat_set: the second public class over the same table. The table's element is the key
  alone, which is a pair with the unit value here. Histories of its operations agree with the operations on
  a finite set.
\<close>

section \<open>The operations\<close>

type_synonym ('g, 'k) flat_set = "('g, 'k \<times> unit) table_core"

definition fs_new :: "('g, 'k) foa_types \<Rightarrow> nat \<Rightarrow> ('g, 'k) flat_set" where
  "fs_new T n = core_new T n"

definition fs_size :: "('g, 'k) flat_set \<Rightarrow> nat" where
  "fs_size t = ctrl_size t"

definition fs_empty :: "('g, 'k) flat_set \<Rightarrow> bool" where
  "fs_empty t = (ctrl_size t = 0)"

definition fs_insert ::
  "('g, 'k) foa_types \<Rightarrow> 'k \<Rightarrow> ('g, 'k) flat_set \<Rightarrow> (('g, 'k) flat_set \<times> locator \<times> bool) option" where
  "fs_insert T value t = emplace_impl T (value, ()) t"

definition fs_emplace ::
  "('g, 'k) foa_types \<Rightarrow> 'k \<Rightarrow> ('g, 'k) flat_set \<Rightarrow> (('g, 'k) flat_set \<times> locator \<times> bool) option" where
  "fs_emplace T k t = emplace_impl T (k, ()) t"

fun fs_insert_range :: "('g, 'k) foa_types \<Rightarrow> 'k list \<Rightarrow> ('g, 'k) flat_set \<Rightarrow> ('g, 'k) flat_set option" where
  "fs_insert_range T [] t = Some t"
| "fs_insert_range T (k # ks) t =
     (case fs_emplace T k t of
        None \<Rightarrow> None
      | Some (t', _) \<Rightarrow> fs_insert_range T ks t')"

definition fs_from_range :: "('g, 'k) foa_types \<Rightarrow> 'k list \<Rightarrow> nat \<Rightarrow> ('g, 'k) flat_set option" where
  "fs_from_range T ks n = fs_insert_range T ks (fs_new T n)"

definition fs_clear :: "('g, 'k) foa_types \<Rightarrow> ('g, 'k) flat_set \<Rightarrow> ('g, 'k) flat_set" where
  "fs_clear T t = core_clear T t"

definition fs_assign_list :: "('g, 'k) foa_types \<Rightarrow> 'k list \<Rightarrow> ('g, 'k) flat_set \<Rightarrow> ('g, 'k) flat_set option" where
  "fs_assign_list T il t = fs_insert_range T il (fs_clear T t)"

definition fs_find :: "('g, 'k) foa_types \<Rightarrow> 'k \<Rightarrow> ('g, 'k) flat_set \<Rightarrow> locator option" where
  "fs_find T k t = core_find T t k"

definition fs_count :: "('g, 'k) foa_types \<Rightarrow> 'k \<Rightarrow> ('g, 'k) flat_set \<Rightarrow> nat" where
  "fs_count T k t = (let pos = core_find T t k in if pos \<noteq> None then 1 else 0)"

definition fs_contains :: "('g, 'k) foa_types \<Rightarrow> 'k \<Rightarrow> ('g, 'k) flat_set \<Rightarrow> bool" where
  "fs_contains T k t = (fs_find T k t \<noteq> None)"

definition fs_equal_range where
  "fs_equal_range T k (t :: ('g, 'k) flat_set) =
     (case core_find T t k of
        None \<Rightarrow> Some (None, None)
      | Some pos \<Rightarrow>
          (case increment T (arrays t) pos of
             None \<Rightarrow> None
           | Some next \<Rightarrow> Some (Some pos, next)))"

definition fs_erase_key :: "('g, 'k) foa_types \<Rightarrow> 'k \<Rightarrow> ('g, 'k) flat_set \<Rightarrow> ('g, 'k) flat_set \<times> nat" where
  "fs_erase_key T k t = table_erase T k t"

definition fs_erase_at where
  "fs_erase_at T loc (t :: ('g, 'k) flat_set) =
     (let t' = core_erase T loc t in (t', increment T (arrays t') loc))"

partial_function (option) fs_erase_range where
  "fs_erase_range T it1 it2 (t :: ('g, 'k) flat_set) =
     (if it1 = it2 then Some t
      else case it1 of
             None \<Rightarrow> None
           | Some loc \<Rightarrow>
               Option.bind (increment T (arrays t) loc)
                 (\<lambda>next. fs_erase_range T next it2 (core_erase T loc t)))"

definition fs_erase_if :: "('g, 'k) foa_types \<Rightarrow> ('k \<Rightarrow> bool) \<Rightarrow> ('g, 'k) flat_set \<Rightarrow> ('g, 'k) flat_set \<times> nat" where
  "fs_erase_if T pr t = erase_if T (\<lambda>(k, _). pr k) t"

definition fs_merge :: "('g, 'k) foa_types \<Rightarrow> ('g, 'k) flat_set \<Rightarrow> ('g, 'k) flat_set \<Rightarrow> (('g, 'k) flat_set \<times> ('g, 'k) flat_set) option" where
  "fs_merge T t source = table_merge T t source"

definition fs_rehash :: "('g, 'k) foa_types \<Rightarrow> nat \<Rightarrow> ('g, 'k) flat_set \<Rightarrow> ('g, 'k) flat_set option" where
  "fs_rehash T n t = core_rehash T n t"

definition fs_reserve :: "('g, 'k) foa_types \<Rightarrow> nat \<Rightarrow> ('g, 'k) flat_set \<Rightarrow> ('g, 'k) flat_set option" where
  "fs_reserve T n t = core_reserve T n t"

definition fs_bucket_count :: "('g, 'k) flat_set \<Rightarrow> nat" where
  "fs_bucket_count t = capacity (arrays t)"

definition fs_eq :: "('g, 'k) foa_types \<Rightarrow> ('g, 'k) flat_set \<Rightarrow> ('g, 'k) flat_set \<Rightarrow> bool" where
  "fs_eq T lhs rhs = core_eq T lhs rhs"

definition fs_neq :: "('g, 'k) foa_types \<Rightarrow> ('g, 'k) flat_set \<Rightarrow> ('g, 'k) flat_set \<Rightarrow> bool" where
  "fs_neq T lhs rhs = (\<not> fs_eq T lhs rhs)"

section \<open>A set is a map to the unit value\<close>

text \<open>What the two classes have in common: each operation is that of the map with unit values.\<close>

lemma fs_fm:
  "fs_emplace T k t = fm_emplace T k () t" "fs_insert T k t = fm_emplace T k () t"
  "fs_find T k t = fm_find T k t" "fs_erase_key T k t = fm_erase_key T k t" "fs_clear T t = fm_clear T t"
  "fs_rehash T n t = fm_rehash T n t" "fs_reserve T n t = fm_reserve T n t" "fs_size t = fm_size t"
  "fs_new T n = fm_new T n" "fs_count T k t = fm_count T k t"
  "fs_equal_range T k t = fm_equal_range T k t" "fs_erase_at T loc t = fm_erase_at T loc t"
  by (simp_all add: fs_emplace_def fm_emplace_def fs_insert_def fs_find_def fm_find_def fs_erase_key_def fm_erase_key_def
    fs_clear_def fm_clear_def fs_rehash_def fm_rehash_def fs_reserve_def fm_reserve_def fs_size_def fm_size_def
    fs_new_def fm_new_def fs_count_def fm_count_def fs_equal_range_def fm_equal_range_def fs_erase_at_def fm_erase_at_def Let_def)

lemma fs_insert_range_fm: "fs_insert_range T ks t = fm_insert_range T (map (\<lambda>k. (k, ())) ks) t"
  by (induction ks arbitrary: t) (auto simp: fs_fm split: option.splits)

definition set_of :: "('g, 'k) flat_set \<Rightarrow> 'k set" where
  "set_of t = dom (tab_map t)"

lemma set_of_iff: "k \<in> set_of t \<longleftrightarrow> tab_map t k \<noteq> None"
  by (simp add: set_of_def domIff)

lemma unit_map_eq: "f = g \<longleftrightarrow> dom f = dom (g :: 'k \<rightharpoonup> unit)"
  by (auto simp: fun_eq_iff dom_def set_eq_iff) (metis option.exhaust old.unit.exhaust)

section \<open>Histories\<close>

datatype 'k fs_op =
    SInsert 'k
  | SEmplace 'k
  | SInsertRange "'k list"
  | SAssign "'k list"
  | SCount 'k
  | SContains 'k
  | SErase 'k
  | SEraseIf "'k \<Rightarrow> bool"
  | SClear
  | SRehash nat
  | SReserve nat
  | SSize
  | SEmpty

datatype fs_res = SDone | SFlag bool | SNumber nat

definition run_set_op ::
  "('g, 'k) foa_types \<Rightarrow> 'k fs_op \<Rightarrow> ('g, 'k) flat_set \<Rightarrow> (('g, 'k) flat_set \<times> fs_res) option" where
  "run_set_op T op t =
     (case op of
        SInsert k \<Rightarrow> map_option (\<lambda>(t', _, b). (t', SFlag b)) (fs_insert T k t)
      | SEmplace k \<Rightarrow> map_option (\<lambda>(t', _, b). (t', SFlag b)) (fs_emplace T k t)
      | SInsertRange ks \<Rightarrow> map_option (\<lambda>t'. (t', SDone)) (fs_insert_range T ks t)
      | SAssign ks \<Rightarrow> map_option (\<lambda>t'. (t', SDone)) (fs_assign_list T ks t)
      | SCount k \<Rightarrow> Some (t, SNumber (fs_count T k t))
      | SContains k \<Rightarrow> Some (t, SFlag (fs_contains T k t))
      | SErase k \<Rightarrow> (let (t', n) = fs_erase_key T k t in Some (t', SNumber n))
      | SEraseIf pr \<Rightarrow> (let (t', n) = fs_erase_if T pr t in Some (t', SNumber n))
      | SClear \<Rightarrow> Some (fs_clear T t, SDone)
      | SRehash n \<Rightarrow> map_option (\<lambda>t'. (t', SDone)) (fs_rehash T n t)
      | SReserve n \<Rightarrow> map_option (\<lambda>t'. (t', SDone)) (fs_reserve T n t)
      | SSize \<Rightarrow> Some (t, SNumber (fs_size t))
      | SEmpty \<Rightarrow> Some (t, SFlag (fs_empty t)))"

fun run_set_ops where
  "run_set_ops T [] t = Some (t, [])"
| "run_set_ops T (op # ops) t =
     (case run_set_op T op t of
        None \<Rightarrow> None
      | Some (t', r) \<Rightarrow>
          (case run_set_ops T ops t' of None \<Rightarrow> None | Some (t'', rs) \<Rightarrow> Some (t'', r # rs)))"

definition spec_set_op :: "'k fs_op \<Rightarrow> 'k set \<Rightarrow> 'k set \<times> fs_res" where
  "spec_set_op op A =
     (case op of
        SInsert k \<Rightarrow> (insert k A, SFlag (k \<notin> A))
      | SEmplace k \<Rightarrow> (insert k A, SFlag (k \<notin> A))
      | SInsertRange ks \<Rightarrow> (A \<union> set ks, SDone)
      | SAssign ks \<Rightarrow> (set ks, SDone)
      | SCount k \<Rightarrow> (A, SNumber (if k \<in> A then 1 else 0))
      | SContains k \<Rightarrow> (A, SFlag (k \<in> A))
      | SErase k \<Rightarrow> (A - {k}, SNumber (if k \<in> A then 1 else 0))
      | SEraseIf pr \<Rightarrow> ({k \<in> A. \<not> pr k}, SNumber (card {k \<in> A. pr k}))
      | SClear \<Rightarrow> ({}, SDone)
      | SRehash n \<Rightarrow> (A, SDone)
      | SReserve n \<Rightarrow> (A, SDone)
      | SSize \<Rightarrow> (A, SNumber (card A))
      | SEmpty \<Rightarrow> (A, SFlag (A = {})))"

fun spec_set_ops :: "'k fs_op list \<Rightarrow> 'k set \<Rightarrow> 'k set \<times> fs_res list" where
  "spec_set_ops [] A = (A, [])"
| "spec_set_ops (op # ops) A =
     (let (A', r) = spec_set_op op A; (A'', rs) = spec_set_ops ops A' in (A'', r # rs))"

fun set_adds :: "'k fs_op \<Rightarrow> nat" where
  "set_adds (SInsert k) = 1"
| "set_adds (SEmplace k) = 1"
| "set_adds (SInsertRange ks) = length ks"
| "set_adds (SAssign ks) = length ks"
| "set_adds _ = 0"

fun set_request_ok :: "'k fs_op \<Rightarrow> bool" where
  "set_request_ok (SRehash n) = (n < 2 ^ 60)"
| "set_request_ok (SReserve n) = (n < 2 ^ 60)"
| "set_request_ok _ = True"

context foa_table
begin

lemma fs_insert_correct:
  fixes t :: "('g, 'k) flat_set"
  assumes "tinv t" "ctrl_size t < 2 ^ 60"
  shows "\<exists>t' loc. fs_emplace T k t = Some (t', loc, k \<notin> set_of t) \<and> fs_insert T k t = Some (t', loc, k \<notin> set_of t) \<and>
    tinv t' \<and> set_of t' = insert k (set_of t) \<and> ctrl_size t' \<le> ctrl_size t + 1"
proof -
  obtain t' loc where t': "emplace_impl T (k, ()) t = Some (t', loc, tab_map t k = None)" "tinv t'"
    "tab_map t' = (if tab_map t k = None then (tab_map t)(k \<mapsto> ()) else tab_map t)"
    "ctrl_size t' = (if tab_map t k = None then ctrl_size t + 1 else ctrl_size t)"
    using emplace_impl_correct [OF assms, of k "()"] by blast
  have s: "set_of t' = insert k (set_of t)" unfolding set_of_def t'(3) by (auto simp: domIff)
  have e: "(tab_map t k = None) = (k \<notin> set_of t)" unfolding set_of_iff by blast
  have c: "ctrl_size t' \<le> ctrl_size t + 1" using t'(4) by simp
  show ?thesis unfolding fs_emplace_def fs_insert_def
    by (intro exI conjI) (rule t'(1) [unfolded e] t'(2) s c)+
qed

lemma fs_insert_range_correct:
  fixes t :: "('g, 'k) flat_set"
  assumes "tinv t" "ctrl_size t + length ks \<le> 2 ^ 60"
  shows "\<exists>t'. fs_insert_range T ks t = Some t' \<and> tinv t' \<and> set_of t' = set_of t \<union> set ks \<and>
    ctrl_size t' \<le> ctrl_size t + length ks"
proof -
  let ?es = "map (\<lambda>k. (k, ())) ks"
  have "ctrl_size t + length ?es \<le> 2 ^ 60" using assms(2) by simp
  from fm_insert_range_correct [OF assms(1) this] obtain t' where t': "fm_insert_range T ?es t = Some t'" "tinv t'"
    "tab_map t' = map_of ?es ++ tab_map t" "ctrl_size t' \<le> ctrl_size t + length ?es" by blast
  have "set_of t' = set_of t \<union> set ks"
    unfolding set_of_def t'(3) by (auto simp: dom_map_of_conv_image_fst image_image)
  with t' show ?thesis by (simp add: fs_insert_range_fm)
qed

lemma fs_find_correct:
  fixes t :: "('g, 'k) flat_set"
  assumes "tinv t"
  shows "fs_find T k t \<noteq> None \<longleftrightarrow> k \<in> set_of t" "fs_contains T k t \<longleftrightarrow> k \<in> set_of t"
    "fs_count T k t = (if k \<in> set_of t then 1 else 0)"
  using fm_find_None [OF assms, of k] by (simp_all add: fs_fm fs_contains_def set_of_iff fm_count_def del: not_None_eq)

lemma fs_erase_correct:
  fixes t :: "('g, 'k) flat_set"
  assumes "tinv t"
  shows "tinv (fst (fs_erase_key T k t))" "set_of (fst (fs_erase_key T k t)) = set_of t - {k}"
    "snd (fs_erase_key T k t) = (if k \<in> set_of t then 1 else 0)" "ctrl_size (fst (fs_erase_key T k t)) \<le> ctrl_size t"
proof -
  note e = table_erase_correct [OF assms, of k]
  show "tinv (fst (fs_erase_key T k t))" using e(1) by (simp add: fs_erase_key_def)
  show "set_of (fst (fs_erase_key T k t)) = set_of t - {k}" unfolding set_of_def fs_erase_key_def e(2) by simp
  show "snd (fs_erase_key T k t) = (if k \<in> set_of t then 1 else 0)" using e(3) by (simp add: fs_erase_key_def set_of_iff)
  show "ctrl_size (fst (fs_erase_key T k t)) \<le> ctrl_size t" using e(4) by (simp add: fs_erase_key_def)
qed

lemma fs_erase_if_correct:
  fixes t :: "('g, 'k) flat_set"
  assumes "tinv t"
  shows "tinv (fst (fs_erase_if T pr t))" "set_of (fst (fs_erase_if T pr t)) = {k \<in> set_of t. \<not> pr k}"
    "snd (fs_erase_if T pr t) = card {k \<in> set_of t. pr k}" "ctrl_size (fst (fs_erase_if T pr t)) \<le> ctrl_size t"
proof -
  let ?pr = "\<lambda>(k, _ :: unit). pr k"
  note e = erase_if_correct [OF assms, of ?pr]
  show "tinv (fst (fs_erase_if T pr t))" using e(1) by (simp add: fs_erase_if_def)
  show "set_of (fst (fs_erase_if T pr t)) = {k \<in> set_of t. \<not> pr k}"
    unfolding set_of_def fs_erase_if_def e(2) by (auto simp: domIff split: option.splits if_splits)
  have "{k. \<exists>v. tab_map t k = Some v \<and> ?pr (k, v)} = {k \<in> set_of t. pr k}" by (auto simp: set_of_iff)
  then show "snd (fs_erase_if T pr t) = card {k \<in> set_of t. pr k}"
    using erase_if_number [OF assms, of ?pr] by (simp add: fs_erase_if_def)
  show "ctrl_size (fst (fs_erase_if T pr t)) \<le> ctrl_size t" using e(3) by (simp add: fs_erase_if_def)
qed

lemma run_set_op_correct:
  fixes t :: "('g, 'k) flat_set"
  assumes t: "tinv t" and bound: "ctrl_size t + set_adds op \<le> 2 ^ 60" "ctrl_size t < 2 ^ 60" and req: "set_request_ok op"
  shows "\<exists>t'. run_set_op T op t = Some (t', snd (spec_set_op op (set_of t))) \<and> tinv t' \<and>
    set_of t' = fst (spec_set_op op (set_of t)) \<and> ctrl_size t' \<le> ctrl_size t + set_adds op"
proof (cases op)
  case (SInsert k)
  then show ?thesis using fs_insert_correct [OF t bound(2), of k] by (auto simp: run_set_op_def spec_set_op_def)
next
  case (SEmplace k)
  then show ?thesis using fs_insert_correct [OF t bound(2), of k] by (auto simp: run_set_op_def spec_set_op_def)
next
  case (SInsertRange ks)
  then show ?thesis using fs_insert_range_correct [OF t, of ks] bound(1) by (auto simp: run_set_op_def spec_set_op_def)
next
  case (SAssign ks)
  note c = core_clear_correct [OF t]
  have "set_of (fs_clear T t) = {}" using c(2) by (simp add: set_of_def fs_clear_def)
  moreover have "tinv (fs_clear T t)" "ctrl_size (fs_clear T t) = 0" using c(1,3) by (simp_all add: fs_clear_def)
  ultimately show ?thesis using fs_insert_range_correct [of "fs_clear T t" ks] bound(1) SAssign
    by (auto simp: run_set_op_def spec_set_op_def fs_assign_list_def)
next
  case (SCount k)
  then show ?thesis using fs_find_correct [OF t, of k] t by (simp add: run_set_op_def spec_set_op_def)
next
  case (SContains k)
  then show ?thesis using fs_find_correct [OF t, of k] t by (simp add: run_set_op_def spec_set_op_def)
next
  case (SErase k)
  then show ?thesis using fs_erase_correct [OF t, of k] by (simp add: run_set_op_def spec_set_op_def split_beta)
next
  case (SEraseIf pr)
  then show ?thesis using fs_erase_if_correct [OF t, of pr] by (simp add: run_set_op_def spec_set_op_def split_beta)
next
  case SClear
  then show ?thesis using core_clear_correct [OF t] by (simp add: run_set_op_def spec_set_op_def fs_clear_def set_of_def)
next
  case (SRehash n)
  then show ?thesis using core_rehash_correct [OF t bound(2), of n] req
    by (auto simp: run_set_op_def spec_set_op_def fs_rehash_def set_of_def)
next
  case (SReserve n)
  then show ?thesis using core_reserve_correct [OF t bound(2), of n] req
    by (auto simp: run_set_op_def spec_set_op_def fs_reserve_def set_of_def)
next
  case SSize
  then show ?thesis using tab_map_card(1) [OF t] t by (simp add: run_set_op_def spec_set_op_def fs_size_def set_of_def)
next
  case SEmpty
  have "ctrl_size t = 0 \<longleftrightarrow> set_of t = {}" using tab_map_card [OF t] by (auto simp: set_of_def)
  then show ?thesis using SEmpty t by (simp add: run_set_op_def spec_set_op_def fs_empty_def)
qed

lemma run_set_ops_correct:
  fixes t :: "('g, 'k) flat_set"
  assumes "tinv t" "ctrl_size t + sum_list (map set_adds ops) < 2 ^ 60" "list_all set_request_ok ops"
  shows "\<exists>t'. run_set_ops T ops t = Some (t', snd (spec_set_ops ops (set_of t))) \<and> tinv t' \<and>
    set_of t' = fst (spec_set_ops ops (set_of t)) \<and> ctrl_size t' \<le> ctrl_size t + sum_list (map set_adds ops)"
  using assms
proof (induction ops arbitrary: t)
  case (Cons op ops)
  obtain t1 where t1: "run_set_op T op t = Some (t1, snd (spec_set_op op (set_of t)))" "tinv t1"
    "set_of t1 = fst (spec_set_op op (set_of t))" "ctrl_size t1 \<le> ctrl_size t + set_adds op"
    using run_set_op_correct [OF Cons.prems(1), of op] Cons.prems(2,3) by auto
  obtain t' where "run_set_ops T ops t1 = Some (t', snd (spec_set_ops ops (set_of t1)))" "tinv t'"
    "set_of t' = fst (spec_set_ops ops (set_of t1))" "ctrl_size t' \<le> ctrl_size t1 + sum_list (map set_adds ops)"
    using Cons.IH [OF t1(2)] t1(4) Cons.prems(2,3) by auto
  with t1 show ?case by (auto simp: split_beta Let_def)
qed simp

text \<open>Two sets: merging takes what is not there yet, and comparison is that of the sets.\<close>

lemma fs_merge_correct:
  fixes t x :: "('g, 'k) flat_set"
  assumes "tinv t" "tinv x" "ctrl_size t + ctrl_size x < 2 ^ 60"
  shows "\<exists>t' x'. fs_merge T t x = Some (t', x') \<and> tinv t' \<and> tinv x' \<and>
    set_of t' = set_of t \<union> set_of x \<and> set_of x' = set_of t \<inter> set_of x"
proof -
  obtain t' x' where m: "table_merge T t x = Some (t', x')" "tinv t'" "tinv x'" "tab_map t' = tab_map x ++ tab_map t"
    "tab_map x' = (\<lambda>k. if tab_map t k = None then None else tab_map x k)"
    using table_merge_correct [OF assms] by blast
  have "set_of t' = set_of t \<union> set_of x" unfolding set_of_def m(4) by auto
  moreover have "set_of x' = set_of t \<inter> set_of x" unfolding set_of_def m(5) by (auto simp: domIff split: if_splits)
  ultimately show ?thesis using m(1-3) by (auto simp: fs_merge_def)
qed

end

section \<open>What the set promises\<close>

text \<open>
  C27. Every sequence of operations on an unordered_flat_set (insertions, also of ranges, assignment of
  a list, lookups, erasure by key and by predicate, clear, rehash, reserve, size and empty)
  gives the results of the same operations on a finite set, returns, and does so for all three
  group layouts, while fewer than 2^60 elements are inserted. Merging two such sets leaves the union in one and the
  intersection in the other, and they compare equal exactly when they have the same elements.
\<close>

theorem flat_set_history_correct:
  assumes "sum_list (map set_adds ops) + sum_list (map set_adds ops') < 2 ^ 60"
    "list_all set_request_ok ops" "list_all set_request_ok ops'" "n < 2 ^ 60"
  shows "\<exists>t1 t2 t3 x rs rs' m s. let A = fst (spec_set_ops ops {}); B = fst (spec_set_ops ops' {}) in
    run_set_ops (sse2_types h av) ops (fs_new (sse2_types h av) n) = Some (t1, rs) \<and>
    run_set_ops (neon_types h av) ops (fs_new (neon_types h av) n) = Some (t2, rs) \<and>
    run_set_ops (nosimd_types h av) ops (fs_new (nosimd_types h av) n) = Some (t3, rs) \<and>
    rs = snd (spec_set_ops ops {}) \<and> set_of t1 = A \<and> set_of t2 = A \<and> set_of t3 = A \<and>
    run_set_ops (sse2_types h av) ops' (fs_new (sse2_types h av) n) = Some (x, rs') \<and>
    fs_eq (sse2_types h av) t1 x = (A = B) \<and>
    fs_merge (sse2_types h av) t1 x = Some (m, s) \<and> set_of m = A \<union> B \<and> set_of s = A \<inter> B"
proof -
  have n: "n < 2 ^ 64" using assms(4) by simp
  note run = sse2_table.run_set_ops_correct neon_table.run_set_ops_correct nosimd_table.run_set_ops_correct
  note new = sse2_table.core_new_correct [OF n fs_new_def] neon_table.core_new_correct [OF n fs_new_def]
    nosimd_table.core_new_correct [OF n fs_new_def]
  have none: "set_of (fs_new (sse2_types h av) n) = {}" "set_of (fs_new (neon_types h av) n) = {}"
    "set_of (fs_new (nosimd_types h av) n) = {}" by (simp_all add: set_of_def new(2,6,10))
  have b: "0 + sum_list (map set_adds ops) < 2 ^ 60" "0 + sum_list (map set_adds ops') < 2 ^ 60" using assms(1) by simp_all
  obtain t1 where t1: "run_set_ops (sse2_types h av) ops (fs_new (sse2_types h av) n) = Some (t1, snd (spec_set_ops ops {}))"
    "tab_inv bytes_ok bytes_byte bytes_ovf (sse2_types h av) t1" "set_of t1 = fst (spec_set_ops ops {})"
    "ctrl_size t1 \<le> sum_list (map set_adds ops)"
    using run(1) [OF new(1) _ assms(2), of h av] b(1) unfolding new(3) none by auto
  obtain x where x: "run_set_ops (sse2_types h av) ops' (fs_new (sse2_types h av) n) = Some (x, snd (spec_set_ops ops' {}))"
    "tab_inv bytes_ok bytes_byte bytes_ovf (sse2_types h av) x" "set_of x = fst (spec_set_ops ops' {})"
    "ctrl_size x \<le> sum_list (map set_adds ops')"
    using run(1) [OF new(1) _ assms(3), of h av] b(2) unfolding new(3) none by auto
  obtain t2 where t2: "run_set_ops (neon_types h av) ops (fs_new (neon_types h av) n) = Some (t2, snd (spec_set_ops ops {}))"
    "set_of t2 = fst (spec_set_ops ops {})"
    using run(2) [OF new(5) _ assms(2), of h av] b(1) unfolding new(7) none by auto
  obtain t3 where t3: "run_set_ops (nosimd_types h av) ops (fs_new (nosimd_types h av) n) = Some (t3, snd (spec_set_ops ops {}))"
    "set_of t3 = fst (spec_set_ops ops {})"
    using run(3) [OF new(9) _ assms(2), of h av] b(1) unfolding new(11) none by auto
  have e: "fs_eq (sse2_types h av) t1 x = (fst (spec_set_ops ops {}) = fst (spec_set_ops ops' {}))"
    unfolding fs_eq_def sse2_table.core_eq_correct [OF t1(2) x(2)] unit_map_eq using t1(3) x(3) by (simp add: set_of_def)
  have "ctrl_size t1 + ctrl_size x < 2 ^ 60" using t1(4) x(4) assms(1) by linarith
  from sse2_table.fs_merge_correct [OF t1(2) x(2) this] obtain m s where
    m: "fs_merge (sse2_types h av) t1 x = Some (m, s)" "set_of m = set_of t1 \<union> set_of x" "set_of s = set_of t1 \<inter> set_of x" by blast
  show ?thesis unfolding Let_def
    by (intro exI conjI) (rule t1(1) t2(1) t3(1) refl t1(3) t2(2) t3(2) x(1) e m(1) m(2) [unfolded t1(3) x(3)] m(3) [unfolded t1(3) x(3)])+
qed

theorem flat_set_history_correct_witness:
  "\<exists>t x m s rs rs'.
    run_set_ops (sse2_types (\<lambda>k. k) False) [SInsert 1, SInsertRange [2, 3], SErase 1, SContains 1, SSize]
      (fs_new (sse2_types (\<lambda>k. k) False) 4) = Some (t, rs) \<and>
    rs = [SFlag True, SDone, SNumber 1, SFlag False, SNumber 2] \<and>
    run_set_ops (sse2_types (\<lambda>k. k) False) [SAssign [3, 4]] (fs_new (sse2_types (\<lambda>k. k) False) 4) = Some (x, rs') \<and>
    fs_merge (sse2_types (\<lambda>k. k) False) t x = Some (m, s) \<and> set_of m = {2, 3, 4} \<and> set_of s = {3 :: u64}"
proof -
  let ?ops = "[SInsert 1, SInsertRange [2, 3], SErase 1, SContains 1, SSize] :: u64 fs_op list"
  have A: "fst (spec_set_ops ?ops {}) = {2, 3}" "snd (spec_set_ops ?ops {}) = [SFlag True, SDone, SNumber 1, SFlag False, SNumber 2]"
    "fst (spec_set_ops [SAssign [3, 4 :: u64]] {}) = {3, 4}"
    by (auto simp: spec_set_op_def)
  have "{2, 3} \<union> {3, 4 :: u64} = {2, 3, 4}" "{2, 3} \<inter> {3, 4 :: u64} = {3}" by auto
  with flat_set_history_correct [of ?ops "[SAssign [3, 4]]" 4 "\<lambda>k. k" False] show ?thesis
    unfolding Let_def A by auto
qed

end
