(* ===== verification/Boost_Hash_Values.thy ===== *)
theory Boost_Hash_Values
  imports Boost_Container_Hash
begin

text \<open>
  boost::hash_value for the types it is overloaded on: numbers, pointers, pairs, tuples, ranges,
  unordered ranges, optional and variant values, nested in any way. What a container asks of it
  is that equal values have equal hashes.
\<close>

section \<open>The values\<close>

text \<open>
  A value of a type that hash_value takes. Integers of at most 64 bits are converted to size_t;
  floating point values are their bits; an 80-bit long double occupies 16 bytes; a category of error
  codes is its address.
\<close>

datatype hashable =
    Integral u64
  | Signed128 "128 word"
  | Unsigned128 "128 word"
  | Enumeration u64
  | Float32 u32
  | Float64 u64
  | Float80 "80 word"
  | Pointer u64
  | Null_pointer
  | Complex hashable hashable
  | Pair hashable hashable
  | Tuple "hashable list"
  | Range "hashable list"
  | Characters "u8 list"
  | Unordered_range "hashable list"
  | Optional "hashable option"
  | Monostate
  | Variant u64 hashable
  | Error_code u64 u64

section \<open>Floating point\<close>

text \<open>
  \<open>v + 0\<close>: the negative zero becomes the positive one and a signalling NaN quiet; every other value
  stays.
\<close>

definition plus_zero32 :: "u32 \<Rightarrow> u32" where
  "plus_zero32 w =
     (if w = 0x80000000 then 0
      else if w AND 0x7f800000 = 0x7f800000 \<and> w AND 0x7fffff \<noteq> 0 then w OR 0x400000
      else w)"

definition plus_zero64 :: "u64 \<Rightarrow> u64" where
  "plus_zero64 w =
     (if w = 0x8000000000000000 then 0
      else if w AND 0x7ff0000000000000 = 0x7ff0000000000000 \<and> w AND 0xfffffffffffff \<noteq> 0 then w OR 0x8000000000000
      else w)"

definition plus_zero80 :: "80 word \<Rightarrow> 80 word" where
  "plus_zero80 w =
     (if w = push_bit 79 1 then 0
      else if drop_bit 64 w AND 0x7fff = 0x7fff \<and> w AND 0x7fffffffffffffff \<noteq> 0 then w OR push_bit 62 1
      else w)"

definition hash_float32 :: "u32 \<Rightarrow> u64" where
  "hash_float32 v = ucast v"

definition hash_float64 :: "u64 \<Rightarrow> u64" where
  "hash_float64 v = hash_integral v"

definition hash_float80 :: "80 word \<Rightarrow> u64" where
  "hash_float80 v =
     (let w0 = ucast v; w1 = ucast (drop_bit 64 v);
          seed = 0;
          seed = hash_integral w0 + hash_mix64 seed;
          seed = hash_integral w1 + hash_mix64 seed
      in seed)"

definition hash_pointer :: "u64 \<Rightarrow> u64" where
  "hash_pointer x = hash_integral (x + drop_bit 3 x)"

section \<open>Tuples and everything together\<close>

text \<open>\<open>hash_combine_tuple_like\<close> goes through the components from an index on.\<close>

function hash_combine_tuple_like :: "('a \<Rightarrow> u64) \<Rightarrow> nat \<Rightarrow> u64 \<Rightarrow> 'a list \<Rightarrow> u64" where
  "hash_combine_tuple_like h i seed v =
     (if i < length v then hash_combine_tuple_like h (i + 1) (hash_combine h seed (v ! i)) v else seed)"
  by pat_completeness auto
termination
  by (relation "measure (\<lambda>(h, i, seed, v). length v - i)") auto

declare hash_combine_tuple_like.simps [simp del]

definition hash_tuple_like :: "('a \<Rightarrow> u64) \<Rightarrow> 'a list \<Rightarrow> u64" where
  "hash_tuple_like h v = hash_combine_tuple_like h 0 0 v"

lemma hash_combine_cong [fundef_cong]: "u = v \<Longrightarrow> f v = g v \<Longrightarrow> s = s' \<Longrightarrow> hash_combine f s u = hash_combine g s' v"
  by (simp add: hash_combine_def)

lemma hash_pair_cong [fundef_cong]:
  "p = q \<Longrightarrow> f (fst q) = f' (fst q) \<Longrightarrow> g (snd q) = g' (snd q) \<Longrightarrow> hash_pair f g p = hash_pair f' g' q"
  by (simp add: hash_pair_def hash_combine_def)

lemma hash_range_generic_cong [fundef_cong]:
  "us = vs \<Longrightarrow> (\<And>v. v \<in> set vs \<Longrightarrow> f v = g v) \<Longrightarrow> s = s' \<Longrightarrow> hash_range_generic f s us = hash_range_generic g s' vs"
proof (induction vs arbitrary: us s s')
  case (Cons v vs)
  then show ?case using hash_combine_cong [OF refl, of f v g s' s'] by simp
qed simp

lemma unordered_loop_cong:
  "(\<And>v. v \<in> set vs \<Longrightarrow> f v = g v) \<Longrightarrow> unordered_loop f s r vs = unordered_loop g s r vs"
proof (induction vs arbitrary: r)
  case (Cons v vs)
  then show ?case using hash_combine_cong [OF refl, of f v g s s] by simp
qed simp

lemma hash_unordered_range_cong [fundef_cong]:
  "us = vs \<Longrightarrow> (\<And>v. v \<in> set vs \<Longrightarrow> f v = g v) \<Longrightarrow> s = s' \<Longrightarrow> hash_unordered_range f s us = hash_unordered_range g s' vs"
  using unordered_loop_cong [of vs f g] by (simp add: hash_unordered_range_def)

lemma tuple_from: "hash_combine_tuple_like h i seed v = hash_range_generic h seed (drop i v)"
proof (induction h i seed v rule: hash_combine_tuple_like.induct)
  case (1 h i seed v)
  then show ?case
    by (cases "i < length v") (simp_all add: hash_combine_tuple_like.simps [of h i] Cons_nth_drop_Suc [symmetric])
qed

lemma hash_tuple_range: "hash_tuple_like h v = hash_range_generic h 0 v"
  by (simp add: hash_tuple_like_def tuple_from)

lemma hash_tuple_like_cong [fundef_cong]:
  "us = vs \<Longrightarrow> (\<And>v. v \<in> set vs \<Longrightarrow> f v = g v) \<Longrightarrow> hash_tuple_like f us = hash_tuple_like g vs"
  unfolding hash_tuple_range by (rule hash_range_generic_cong) simp_all

fun hash_value :: "hashable \<Rightarrow> u64" where
  "hash_value (Integral v) = hash_integral v"
| "hash_value (Signed128 v) = hash_integral_signed_128 v"
| "hash_value (Unsigned128 v) = hash_integral_128 v"
| "hash_value (Enumeration v) = v"
| "hash_value (Float32 v) = hash_float32 (plus_zero32 v)"
| "hash_value (Float64 v) = hash_float64 (plus_zero64 v)"
| "hash_value (Float80 v) = hash_float80 (plus_zero80 v)"
| "hash_value (Pointer v) = hash_pointer v"
| "hash_value Null_pointer = hash_pointer 0"
| "hash_value (Complex re im) = (let re = hash_value re; im = hash_value im in re + hash_mix64 im)"
| "hash_value (Pair a b) = hash_pair hash_value hash_value (a, b)"
| "hash_value (Tuple vs) = hash_tuple_like hash_value vs"
| "hash_value (Range vs) = hash_range_generic hash_value 0 vs"
| "hash_value (Characters vs) = hash_range64 0 vs"
| "hash_value (Unordered_range vs) = hash_unordered_range hash_value 0 vs"
| "hash_value (Optional None) = 0x12345678"
| "hash_value (Optional (Some v)) = hash_value v"
| "hash_value Monostate = 0x87654321"
| "hash_value (Variant index v) =
     (let seed = 0;
          seed = hash_combine hash_integral seed index
      in hash_combine hash_value seed v)"
| "hash_value (Error_code v category) =
     (let seed = 0;
          seed = hash_combine hash_integral seed v
      in hash_combine hash_pointer seed category)"

section \<open>Equal values have equal hashes\<close>

text \<open>
  Equality of the values: both zeros are equal, unordered containers are equal when one is a
  permutation of the other, and containers compare their elements.
\<close>

inductive same_value :: "hashable \<Rightarrow> hashable \<Rightarrow> bool" where
  same_refl: "same_value v v"
| same_zero32: "v AND 0x7fffffff = 0 \<Longrightarrow> w AND 0x7fffffff = 0 \<Longrightarrow> same_value (Float32 v) (Float32 w)"
| same_zero64: "v AND 0x7fffffffffffffff = 0 \<Longrightarrow> w AND 0x7fffffffffffffff = 0 \<Longrightarrow> same_value (Float64 v) (Float64 w)"
| same_complex: "same_value a a' \<Longrightarrow> same_value b b' \<Longrightarrow> same_value (Complex a b) (Complex a' b')"
| same_pair: "same_value a a' \<Longrightarrow> same_value b b' \<Longrightarrow> same_value (Pair a b) (Pair a' b')"
| same_tuple: "list_all2 same_value us vs \<Longrightarrow> same_value (Tuple us) (Tuple vs)"
| same_range: "list_all2 same_value us vs \<Longrightarrow> same_value (Range us) (Range vs)"
| same_unordered: "list_all2 same_value us vs \<Longrightarrow> mset vs = mset ws \<Longrightarrow>
    same_value (Unordered_range us) (Unordered_range ws)"
| same_optional: "same_value a a' \<Longrightarrow> same_value (Optional (Some a)) (Optional (Some a'))"
| same_variant: "same_value a a' \<Longrightarrow> same_value (Variant i a) (Variant i a')"

lemma range_map: "hash_range_generic h s vs = hash_range_generic (\<lambda>x. x) s (map h vs)"
  by (induction vs arbitrary: s) (simp_all add: hash_combine_def)

lemma unordered_perm:
  assumes "map h us = map h vs" "mset vs = mset ws"
  shows "hash_unordered_range h s us = hash_unordered_range h s ws"
proof -
  have c: "map (hash_combine h s) xs = map (\<lambda>x. hash_mix64 (s + 0x9e3779b9 + x)) (map h xs)" for xs
    by (simp add: hash_combine_def)
  have "sum_list (map (hash_combine h s) us) = sum_list (map (hash_combine h s) vs)" unfolding c assms(1) by (rule refl)
  also have "\<dots> = sum_list (map (hash_combine h s) ws)"
    using assms(2) by (metis mset_map sum_mset_sum_list)
  finally show ?thesis by (simp add: hash_unordered_range_def unordered_loop_sum)
qed

lemma list_all2_map_eq: "list_all2 (\<lambda>x y. same_value x y \<and> h x = h y) us vs \<Longrightarrow> map h us = map h vs"
  by (induction rule: list_all2_induct) simp_all

text \<open>A word whose bits below the sign are zero is one of the two zeros.\<close>

lemma zero_bits:
  fixes w :: "'a::len word"
  assumes "w AND mask n = 0" "LENGTH('a) = Suc n"
  shows "w = 0 \<or> w = push_bit n 1"
proof -
  have "\<not> bit w i" if "i < n" for i
  proof -
    have "\<not> bit (w AND mask n) i" unfolding assms(1) by simp
    then show ?thesis using that assms(2) by (simp add: bit_and_iff bit_mask_iff)
  qed
  note low = this
  have b: "i = n" if "bit w i" for i
  proof -
    have "i < Suc n" using bit_imp_le_length [OF that] assms(2) by simp
    moreover have "\<not> i < n" using low that by blast
    ultimately show ?thesis by simp
  qed
  show ?thesis
  proof (cases "bit w n")
    case True
    have "w = push_bit n 1"
    proof (rule bit_word_eqI)
      fix i assume i: "i < LENGTH('a)"
      have "bit (push_bit n (1 :: 'a word)) i \<longleftrightarrow> i = n"
        using i by (auto simp: bit_push_bit_iff bit_1_iff bit_exp_iff)
      then show "bit w i \<longleftrightarrow> bit (push_bit n 1 :: 'a word) i" using b [of i] True by metis
    qed
    then show ?thesis ..
  next
    case False
    have "w = 0"
    proof (rule bit_word_eqI)
      fix i
      have "\<not> bit w i" using b [of i] False by metis
      then show "bit w i \<longleftrightarrow> bit (0 :: 'a word) i" by simp
    qed
    then show ?thesis ..
  qed
qed

lemma plus_zero_zeros:
  "w AND 0x7fffffff = 0 \<Longrightarrow> plus_zero32 w = 0"
  "v AND 0x7fffffffffffffff = 0 \<Longrightarrow> plus_zero64 v = 0"
proof -
  have m: "mask 31 = (0x7fffffff :: u32)" "mask 63 = (0x7fffffffffffffff :: u64)" by (simp_all add: mask_eq_exp_minus_1)
  have p: "push_bit 31 1 = (0x80000000 :: u32)" "push_bit 63 1 = (0x8000000000000000 :: u64)" by (simp_all add: push_bit_eq_mult)
  show "plus_zero32 w = 0" if "w AND 0x7fffffff = 0"
    using zero_bits [of w 31, unfolded m p, OF that] by (auto simp: plus_zero32_def)
  show "plus_zero64 v = 0" if "v AND 0x7fffffffffffffff = 0"
    using zero_bits [of v 63, unfolded m p, OF that] by (auto simp: plus_zero64_def)
qed

lemma same_value_hash: "same_value u v \<Longrightarrow> hash_value u = hash_value v"
proof (induction rule: same_value.induct)
  case (same_zero32 v w)
  then show ?case by (simp add: plus_zero_zeros)
next
  case (same_zero64 v w)
  then show ?case by (simp add: plus_zero_zeros)
next
  case (same_pair a a' b b')
  then show ?case by (simp add: hash_pair_def hash_combine_def)
next
  case (same_tuple us vs)
  then show ?case using list_all2_map_eq [of hash_value us vs] by (simp add: hash_tuple_range range_map [of hash_value])
next
  case (same_range us vs)
  then show ?case using list_all2_map_eq [of hash_value us vs] by (simp add: range_map [of hash_value])
next
  case (same_unordered us vs ws)
  then show ?case using unordered_perm [OF list_all2_map_eq [of hash_value us vs], of ws] by simp
next
  case (same_variant a a' i)
  then show ?case by (simp add: Let_def hash_combine_def)
qed simp_all

text \<open>
  C32. boost::hash gives equal values equal hashes, as every table needs: for the two floating-point
  zeros, for unordered containers that hold the same elements in another order, and for
  containers, pairs, optional and variant values of such values. A pair, a tuple and an array
  with the same components have the same hash, and an optional value has the hash of what it holds.
\<close>

theorem hash_value_respects_equality:
  assumes "same_value u v"
  shows "hash_value u = hash_value v \<and>
    hash_value (Pair u w) = hash_value (Tuple [v, w]) \<and> hash_value (Tuple (u # us)) = hash_value (Range (v # us)) \<and>
    hash_value (Optional (Some u)) = hash_value v"
  using same_value_hash [OF assms] by (simp add: hash_tuple_range hash_pair_def hash_combine_def)

theorem hash_value_respects_equality_witness:
  "hash_value (Unordered_range [Float64 0x8000000000000000, Pair (Integral 3) Monostate]) =
   hash_value (Unordered_range [Pair (Integral 3) Monostate, Float64 0])"
proof -
  have "same_value (Float64 0x8000000000000000) (Float64 0)" by (rule same_zero64) simp_all
  then have "same_value (Unordered_range [Float64 0x8000000000000000, Pair (Integral 3) Monostate])
    (Unordered_range [Pair (Integral 3) Monostate, Float64 0])"
    by (intro same_unordered [of _ "[Float64 0, Pair (Integral 3) Monostate]"]) (simp_all add: same_refl add_mset_commute)
  from hash_value_respects_equality [OF this, of Monostate "[]"] show ?thesis by blast
qed

end
