(* ===== verification/Spec2Isabelle.thy ===== *)
theory Spec2Isabelle
  imports Perf_X86 Perf_Arm Boost_Props Bench_Boost Boost_Container_Hash Boost_Serialize Bench_Fph Fph_Objects Boost_Spinlock Boost_FlatSet Boost_Hash_Values
begin

text \<open>
  A verification development for the hash map benchmark of this repository. The program (src/src)
  measures lookups in several hash maps: its own two-way table, boost's unordered_flat_map, a
  dynamic perfect hash map, and three maps of other libraries; it counts processor events around the
  lookups and prints a table per set of lookups. Two of the maps are headers kept in the repository
  and are modelled from their source.

  THE PARTS AND HOW THEY INTERACT

  \<^verbatim>\<open>main.cpp\<close> draws keys and lookup sets, runs the benchmark of each map and prints the reports. A
  benchmark (\<^verbatim>\<open>bench.hpp\<close>) fills a map, runs timed loops of lookups between the start and the stop of a
  recorder (\<^verbatim>\<open>measure.hpp\<close>, with \<^verbatim>\<open>measure_x86.cpp\<close> or \<^verbatim>\<open>measure_arm.cpp\<close>), and returns the counters and
  the sum of the values found. The maps are \<^verbatim>\<open>TwoWay.hpp\<close>, \<^verbatim>\<open>boost_unordered.hpp\<close> and
  \<^verbatim>\<open>dynamic_fph_table.hpp\<close>; \<^verbatim>\<open>base.hpp\<close> has the allocation and prefetch helpers of the first.

  In the model the same calls are made. \<open>Report\<close> (the program) calls \<open>Bench\<close> (the driver), which
  is written over a record of map operations. The locale \<open>bench_map\<close> states what the driver needs of a
  map: an invariant, the map it stands for, what filling and lookups do. It is interpreted on the
  two-way table and the standard map (Bench), on boost's table in its three group layouts
  (Bench_Boost) and on the perfect hash map (Bench_Fph), so that the sums every benchmark returns are
  the sums of the values inserted. The recorders are automata over the answers of the kernel.

  THE THEORIES

  Prelude: the integer types of the sources, collections of rewrite rules, and lemmas on words and
  lists. Floats: IEEE doubles and floats as rationals rounded to 53 and 24 bits; used by the counters,
  the load factors and the sizes of the perfect hash table. Base: \<^verbatim>\<open>base.hpp\<close>.

  TwoWay: the table of \<^verbatim>\<open>TwoWay.hpp\<close>, one record per struct (slot, table, trait of keys), one function
  per member function, its two buckets per key, its growth and its allocation through Base. The member
  functions insert and grow call each other; the recursion is bounded by fuel that the allocation limit
  justifies (TwoWay_Grow). TwoWay_Correct refines slots to lists of entries and tables to lists of
  buckets, TwoWay_Map to finite maps; TwoWay_Props states what each operation does for the traits of
  the program and of the tests, when a lookup or a growth does not return, and that histories of
  operations agree with a finite map.

  Perf: the counters record of \<^verbatim>\<open>measure.hpp\<close>, its arithmetic, its rates and its formatter. Perf_X86:
  the Linux recorder, whose constructor opens groups of events in turn and closes what it opened when
  one fails; every system call appears in a trace, the kernel's answers are a parameter. Perf_Arm: the
  Apple recorder, which loads two private frameworks symbol by symbol and configures counters through
  them.

  Bench: the driver \<^verbatim>\<open>bench.hpp\<close>, the locale bench_map and two of its interpretations. Report: the
  program \<^verbatim>\<open>main.cpp\<close>, with the random numbers of the standard library as a parameter.

  Boost_Group, Boost_Masks: the metadata groups of boost's table (group15), in the SSE2, NEON and
  portable variants, each with its constant regular_layout, by which the iterators choose how to step,
  and the loops over the bit masks the groups return. Boost_Group_Laws: the locale
  group15 and its three interpretations. Boost_Hash: boost::hash of integers, mixing, size policy
  and prober. Boost_Table: table_arrays, table_core and table. Boost_Inv (invariant and abstraction),
  Boost_Find, Boost_Place, Boost_Load (maximum load), Boost_Ops, Boost_Core, Boost_Storage and
  Boost_Bulk: proofs that every operation keeps the invariant and acts on the map as it should, in the
  locale foa_table. Boost_Iter: table_iterator. Boost_FlatMap: the class unordered_flat_map.
  Boost_History: sequences of its operations, and the interpretations of foa_table. Boost_Contracts: what
  lookups, erasures and iteration promise, shown for any group in the locale, so that Boost_Props, its
  properties, can state them of the tables of all three groups. Boost_FlatSet: the class unordered_flat_set, with histories against finite sets.
  Boost_Container_Hash: hashes of ranges, pairs and 128-bit integers. Boost_Hash_Values: the overloads of
  hash_value, as one function of a datatype of values.
  Boost_Serialize: saving and loading. Boost_Spinlock: the readers-writer spinlock of the header, as a
  step relation over any number of threads.

  Fph_Util: the integer helpers and the counting sort of \<^verbatim>\<open>dynamic_fph_table.hpp\<close>. Fph_Hash: its seeded
  hashes. Fph_Policy: its two index policies and the locale index_map, interpreted on both. Fph_Perm:
  the random table and the map table, two index arrays that partition the slots into filled and
  empty ones. Fph_Table: the state of DynamicRawSet, lookups, iteration, erasure, load factors.
  Fph_Build: BuildImp, which searches seeds and an offset for every bucket. Fph_Insert: FindOrAlloc with
  its paths (free slot, move of a bucket, rebuild), rehash, construction and copy. Fph_Build_Correct,
  Fph_Inv, Fph_Ops, Fph_Rebuild, Fph_Insert_Correct and Fph_Move_Correct: the proofs, in the locale
  fph_table, that a build gives every key its own slot and that every operation keeps the invariant.
  Fph_Map: the table as a map, and the interpretations of the locale. Fph_Live: when the operations
  return, and what a constructor makes of the keys it draws. Fph_Search: the searches for a place in
  BuildImp and FindOrAlloc succeed exactly when there is one. Fph_Props: its properties for the types of the program. Fph_Objects: several table objects,
  with copies, moves, swaps and assignments between them, and the object that each begin iterator
  points to.

  WHAT THE LEMMAS SHOW

  Histories: for each of the three tables, any sequence of operations gives the same results as on a
  finite map, and keeps the representation invariant. Single operations: their effect on the map,
  which elements stay where they are, sizes and load limits, iteration that visits each element once,
  what a copy, a rehash and a comparison do. Equivalences: the group variants, the portable and the
  128-bit multiplication, the two index policies, the two forms of range hashing. Termination: the
  prober visits every group, growth returns, a reserved boost table takes the elements without another
  growth, and construction of a perfect hash table returns unless all the keys it draws fall into one
  slot. Error paths: failing system calls and
  symbols, refused allocations, broken archives, limits of the perfect hash table. Aliasing: copies,
  moves, swaps and assignments between table objects, also of an object with itself. Sorting: the counting sorts
  yield sorted permutations; the ascending ones keep equal keys in order, the descending ones reverse
  them. Hashing: equal values have equal hashes; which seeded mixers are bijections and which make keys
  collide whatever the seed; and up to which length the hash of bytes separates strings. Concurrency: the
  spinlock excludes, counts without overflow and does not deadlock.

  BOUNDS AND FUEL

  Sizes are machine words. Boost's table is proved for fewer than 2^60 elements, far more than an
  address space holds, so that its size arithmetic does not wrap around. The perfect hash table
  checks its own sizes: the invariant has slot numbers from 2^3 to 2^31, and requests beyond them
  are exceptions; its limits on attempts are those of the code. Loops that may run forever in the code
  are partial functions into option, where None is a run that does not return, and their returning
  is proved: the emplacement loop when a slot is free. Insertion and growth of the two-way
  table call each other and take fuel: each growth doubles a table of fewer than 2^61 buckets, so 62
  units never run out, and the model passes 64.

  ASSUMPTIONS

  The allocator is a parameter that may refuse; the two-way table's theorems assume that it does not
  give out more than the address space. The perfect hash table fills empty slots with default keys
  that a generator draws: its theorems assume that no drawn key is one the program uses, since the
  code does not check this. The generator is a parameter, so that it may be the draws of one run. Its
  bucket parameters start uninitialised; they are a parameter too, of which nothing is assumed. Random numbers, the kernel, the dynamic linker and the private frameworks
  of macOS are parameters.

  NOT MODELLED

  Configuration macros, type-level lists and the exception machinery of boost; exceptions thrown by
  constructors of elements; allocators that compare unequal; the concurrent containers, which
  are only declared; the tracking of addresses by archives; debugger printers; the
  statistics of probe lengths, which are compiled only on request; hashes of described classes;
  the dual-bucket-set variant of the perfect hash table, which is not compiled, its
  messages, and two of its members that do not compile; absl and the standard maps beyond their
  contract; prefetches, alignment and the destructors that return memory; tests and build files.
\<close>

end
